(* ===== verification/Raft_Prelude.thy ===== *)
theory Raft_Prelude
  imports Main "HOL-Library.Word" "HOL-Library.AList" "HOL-Library.Sublist"
begin

text \<open>
  Shared vocabulary of the development: the machine integers of the C++ code, the result type
  of code that may throw, trip an \<open>assert\<close> or run into undefined behaviour, the vector
  operations the code uses, and the facts on words, lists and association lists that the
  component theories rely on.

  An \<open>std::vector\<close> is a list; an \<open>std::unordered_map\<close> is an association list with
  distinct keys in iteration order (\<open>AList.update\<close>, \<open>AList.delete\<close>, \<open>map_of\<close>).
  The C++ standard leaves the place of a new key in the iteration order open; the model
  puts it last, and no theorem depends on that choice.
\<close>

section \<open>Machine integers\<close>

type_synonym u8 = "8 word"
type_synonym u32 = "32 word"
type_synonym u64 = "64 word"
type_synonym bytes = "u8 list"

section \<open>Faults and results\<close>

text \<open>
  \<open>Fatal msg\<close> is \<open>LOG_FATAL\<close> (src/raft-kv/common/log.h), which throws a
  \<open>std::runtime_error\<close>; \<open>Assertion\<close> a failed \<open>assert\<close>; \<open>OutOfRange\<close>,
  \<open>NullDeref\<close> and \<open>Uninit\<close> are the undefined behaviours met in the code (a vector
  index or iterator past the end, a null \<open>shared_ptr\<close>, an indeterminate variable);
  \<open>OutOfFuel\<close> marks a loop of the model that was not given enough fuel.
\<close>

datatype fault =
    Fatal string
  | Assertion string
  | OutOfRange
  | NullDeref
  | Uninit
  | OutOfFuel

type_synonym 'a res = "fault + 'a"

definition rbind :: "'a res \<Rightarrow> ('a \<Rightarrow> 'b res) \<Rightarrow> 'b res" where
  "rbind m f = (case m of Inl e \<Rightarrow> Inl e | Inr x \<Rightarrow> f x)"

definition rassert :: "string \<Rightarrow> bool \<Rightarrow> unit res" where
  "rassert s b = (if b then Inr () else Inl (Assertion s))"

section \<open>Vectors\<close>

text \<open>
  \<open>v.size()\<close>, \<open>v[i]\<close>, \<open>v.back()\<close>, the iterator range \<open>[begin + lo, begin + hi)\<close>,
  \<open>v.erase(begin, begin + n)\<close> and \<open>v.resize(n)\<close>. Reads and ranges past the end are
  undefined in C++ and faults here.
\<close>

definition vec_size :: "'a list \<Rightarrow> u64" where
  "vec_size xs = of_nat (length xs)"

definition vec_at :: "'a list \<Rightarrow> u64 \<Rightarrow> 'a res" where
  "vec_at xs i = (if unat i < length xs then Inr (xs ! unat i) else Inl OutOfRange)"

definition vec_front :: "'a list \<Rightarrow> 'a res" where
  "vec_front xs = (case xs of [] \<Rightarrow> Inl OutOfRange | x # _ \<Rightarrow> Inr x)"

definition vec_back :: "'a list \<Rightarrow> 'a res" where
  "vec_back xs = (if xs = [] then Inl OutOfRange else Inr (last xs))"

definition vec_range :: "'a list \<Rightarrow> u64 \<Rightarrow> u64 \<Rightarrow> 'a list res" where
  "vec_range xs lo hi =
     (if lo \<le> hi \<and> unat hi \<le> length xs
      then Inr (take (unat hi - unat lo) (drop (unat lo) xs)) else Inl OutOfRange)"

definition vec_erase_front :: "'a list \<Rightarrow> u64 \<Rightarrow> 'a list res" where
  "vec_erase_front xs n =
     (if unat n \<le> length xs then Inr (drop (unat n) xs) else Inl OutOfRange)"

definition vec_resize :: "'a list \<Rightarrow> nat \<Rightarrow> 'a \<Rightarrow> 'a list" where
  "vec_resize xs n d = take n xs @ replicate (n - length xs) d"

text \<open>A pointer that the code dereferences.\<close>

definition deref :: "'a option \<Rightarrow> 'a res" where
  "deref p = (case p of None \<Rightarrow> Inl NullDeref | Some x \<Rightarrow> Inr x)"

text \<open>A loop over a vector whose body may fault.\<close>

fun rfold :: "('a \<Rightarrow> 's \<Rightarrow> 's res) \<Rightarrow> 'a list \<Rightarrow> 's \<Rightarrow> 's res" where
  "rfold f [] s = Inr s"
| "rfold f (x # xs) s = rbind (f x s) (rfold f xs)"

section \<open>The shared simplification rules\<close>

named_theorems raft_defs \<open>definitions that component proofs unfold\<close>
named_theorems wf_intros \<open>preservation of the well-formedness invariants\<close>

lemma rbind_simps [simp]:
  "rbind (Inr x) f = f x"
  "rbind (Inl e) f = Inl e"
  by (simp_all add: rbind_def)

lemma rbind_cong [fundef_cong]:
  "m = m' \<Longrightarrow> (\<And>x. m' = Inr x \<Longrightarrow> f x = g x) \<Longrightarrow> rbind m f = rbind m' g"
  by (cases m') (auto simp: rbind_def)

lemma rbind_Inr_iff: "rbind m f = Inr y \<longleftrightarrow> (\<exists>x. m = Inr x \<and> f x = Inr y)"
  by (cases m) auto

lemma rbind_InrE:
  assumes "rbind m f = Inr y"
  obtains x where "m = Inr x" and "f x = Inr y"
  using assms by (auto simp: rbind_Inr_iff)

lemma rbind_assoc: "rbind (rbind m f) g = rbind m (\<lambda>x. rbind (f x) g)"
  by (cases m) auto

lemma rassert_simps [simp]:
  "rassert s True = Inr ()"
  "rassert s False = Inl (Assertion s)"
  "rassert s b = Inr u \<longleftrightarrow> b"
  by (simp_all add: rassert_def)

lemma deref_simps [simp]:
  "deref (Some x) = Inr x"
  "deref None = Inl NullDeref"
  "deref p = Inr x \<longleftrightarrow> p = Some x"
  by (auto simp: deref_def split: option.splits)

lemma vec_front_simps [simp]:
  "vec_front (x # xs) = Inr x"
  "vec_front [] = Inl OutOfRange"
  by (simp_all add: vec_front_def)

lemma vec_front_hd: "xs \<noteq> [] \<Longrightarrow> vec_front xs = Inr (hd xs)"
  by (cases xs) simp_all

lemma vec_front_Inr_iff: "vec_front xs = Inr x \<longleftrightarrow> xs \<noteq> [] \<and> x = hd xs"
  by (cases xs) auto

text \<open>Loops: an invariant of the body is an invariant of the loop.\<close>

lemma rfold_invariant:
  assumes "rfold f xs s = Inr t" and "P s"
    and "\<And>x s t. x \<in> set xs \<Longrightarrow> P s \<Longrightarrow> f x s = Inr t \<Longrightarrow> P t"
  shows "P t"
  using assms
proof (induction xs arbitrary: s)
  case Nil
  then show ?case by simp
next
  case (Cons x xs)
  then obtain u where u: "f x s = Inr u" "rfold f xs u = Inr t"
    by (auto simp: rbind_Inr_iff)
  have "P u" using Cons.prems(2,3) u(1) by auto
  then show ?case using Cons.IH u(2) Cons.prems(3) by auto
qed

lemma rfold_total:
  assumes "P s"
    and "\<And>x s. x \<in> set xs \<Longrightarrow> P s \<Longrightarrow> \<exists>t. f x s = Inr t \<and> P t"
  shows "\<exists>t. rfold f xs s = Inr t \<and> P t"
  using assms
proof (induction xs arbitrary: s)
  case Nil
  then show ?case by simp
next
  case (Cons x xs)
  obtain u where "f x s = Inr u" "P u" using Cons.prems(1) Cons.prems(2)[of x s] by auto
  then show ?case using Cons.IH[of u] Cons.prems(2) by auto
qed

lemma rfold_append: "rfold f (xs @ ys) s = rbind (rfold f xs s) (rfold f ys)"
  by (induction xs arbitrary: s) (auto simp: rbind_assoc intro: rbind_cong)

section \<open>Words as numbers\<close>

lemma unat_of_nat_u64 [simp]: "n < 2 ^ 64 \<Longrightarrow> unat (of_nat n :: u64) = n"
  by (simp add: unat_of_nat take_bit_eq_mod)

lemma unat_u64_bound: "unat (x :: u64) < 2 ^ 64"
  using unsigned_less[of x] by simp

lemma unat_u32_bound: "unat (x :: u32) < 2 ^ 32"
  using unsigned_less[of x] by simp

lemma unat_add_u64: "unat (a :: u64) + unat b < 2 ^ 64 \<Longrightarrow> unat (a + b) = unat a + unat b"
  by (simp add: unat_word_ariths)

lemma unat_add_of_nat: "unat (a :: u64) + n < 2 ^ 64 \<Longrightarrow> unat (a + of_nat n) = unat a + n"
  by (simp add: unat_word_ariths unat_of_nat_u64)

lemma unat_add_1: "unat (a :: u64) + 1 < 2 ^ 64 \<Longrightarrow> unat (a + 1) = unat a + 1"
  by (simp add: unat_word_ariths)

lemma unat_sub_u64: "b \<le> (a :: u64) \<Longrightarrow> unat (a - b) = unat a - unat b"
  by (rule unat_sub)

lemma unat_sub_1: "0 < unat (a :: u64) \<Longrightarrow> unat (a - 1) = unat a - 1"
  by (metis unat_sub One_nat_def Suc_leI unat_1 word_le_nat_alt)

lemma unat_ucast_32_64 [simp]: "unat (ucast (x :: u32) :: u64) = unat x"
  by (simp add: unsigned_ucast_eq take_bit_nat_eq_self_iff unat_u32_bound order_less_trans [OF unat_u32_bound])

lemma u64_eq_iff: "(a :: u64) = b \<longleftrightarrow> unat a = unat b"
  by (rule word_unat_eq_iff)

lemma vec_size_unat: "length xs < 2 ^ 64 \<Longrightarrow> unat (vec_size xs) = length xs"
  by (simp add: vec_size_def)

lemma max_word_u64: "unat (- 1 :: u64) = 2 ^ 64 - 1"
  by (simp add: unsigned_minus_1_eq_mask mask_eq_exp_minus_1)

lemma u64_not_max: "(x :: u64) \<noteq> - 1 \<longleftrightarrow> unat x + 1 < 2 ^ 64"
  using max_word_u64 unat_u64_bound[of x] word_unat_eq_iff[of x "- 1"] by auto

lemma u64_less_succ: "(x :: u64) \<noteq> - 1 \<Longrightarrow> x < x + 1"
  by (simp add: u64_not_max word_less_nat_alt unat_add_1)

lemmas word_nat = word_less_nat_alt word_le_nat_alt u64_eq_iff

end
