(* ===== verification/Raft_Status.thy ===== *)
theory Raft_Status
  imports Raft_Prelude
begin

text \<open>
  The \<open>Status\<close> class of src/raft-kv/common/status.h and status.cpp: success is a null
  \<open>status_\<close> pointer, an error is a code and a message. An operation that fills an output
  parameter and returns a \<open>Status\<close> is modelled as \<open>status + 'a\<close>, \<open>Inl\<close> holding the
  error status and \<open>Inr\<close> the output of a call that returned \<open>Status::ok()\<close>.
\<close>

datatype status_code = NotFound | NotSupported | InvalidArgument | IOError

datatype status = Ok | Err status_code string

type_synonym 'a stat = "status + 'a"

fun is_ok :: "status \<Rightarrow> bool" where
  "is_ok Ok = True"
| "is_ok (Err c s) = False"

fun is_not_found :: "status \<Rightarrow> bool" where
  "is_not_found (Err NotFound s) = True"
| "is_not_found s = False"

definition not_found :: "string \<Rightarrow> status" where
  "not_found msg = Err NotFound msg"

definition invalid_argument :: "string \<Rightarrow> status" where
  "invalid_argument msg = Err InvalidArgument msg"

definition io_error :: "string \<Rightarrow> status" where
  "io_error msg = Err IOError msg"

fun code_string :: "status_code \<Rightarrow> string" where
  "code_string NotFound = ''not found:''"
| "code_string NotSupported = ''not supported:''"
| "code_string InvalidArgument = ''invalid argument:''"
| "code_string IOError = ''io error:''"

text \<open>\<open>Status::to_string\<close>: an empty message drops the trailing colon of the code.\<close>

fun status_to_string :: "status \<Rightarrow> string" where
  "status_to_string Ok = ''ok''"
| "status_to_string (Err c msg) =
     (if length msg > 0 then code_string c @ msg else butlast (code_string c))"

text \<open>The two messages \<open>MemoryStorage\<close> and \<open>RaftLog\<close> report.\<close>

definition err_compacted :: status where
  "err_compacted = invalid_argument ''requested index is unavailable due to compaction''"

definition err_unavailable :: status where
  "err_unavailable = invalid_argument ''requested entry at index is unavailable''"

definition err_snap_out_of_date :: status where
  "err_snap_out_of_date =
     invalid_argument ''requested index is older than the existing snapshot''"

definition err_proposal_dropped :: status where
  "err_proposal_dropped = invalid_argument ''raft proposal dropped''"

text \<open>
  The printed form determines the status: the retry in \<open>RaftLog::all_entries\<close>, which compares
  \<open>to_string()\<close> results, therefore compares statuses.
\<close>

lemma code_string_ends: "\<exists>s. code_string c = s @ '':'' \<and> s \<noteq> [] \<and> CHR '':'' \<notin> set s"
  by (cases c) (auto intro: exI [of _ "butlast (code_string c)"])

lemma code_string_prefix_eq:
  assumes "code_string c @ m = code_string d @ n"
  shows "c = d \<and> m = n"
  using assms by (cases c; cases d) auto

lemma status_to_string_inj: "status_to_string s = status_to_string t \<longleftrightarrow> s = t"
proof
  assume eq: "status_to_string s = status_to_string t"
  show "s = t"
  proof (cases s)
    case Ok
    then show ?thesis
    proof (cases t)
      case (Err d n)
      with Ok eq show ?thesis by (cases d) (auto split: if_splits)
    qed simp
  next
    case s: (Err c m)
    show ?thesis
    proof (cases t)
      case Ok
      with s eq show ?thesis by (cases c) (auto split: if_splits)
    next
      case t: (Err d n)
      show ?thesis
      proof (cases "m = [] \<or> n = []")
        case True
        with s t eq show ?thesis by (cases c; cases d) (auto split: if_splits)
      next
        case False
        with s t eq show ?thesis using code_string_prefix_eq[of c m d n] by simp
      qed
    qed
  qed
qed simp

lemmas status_defs =
  not_found_def invalid_argument_def io_error_def err_compacted_def err_unavailable_def
  err_snap_out_of_date_def err_proposal_dropped_def

end
