(* ===== verification/Raft_Proto.thy ===== *)
theory Raft_Proto
  imports Raft_Status
begin

text \<open>
  The wire data of src/raft-kv/raft/proto.h and proto.cpp and the helpers of util.cpp: entries,
  snapshots, messages, hard states and configuration changes as records; the message and entry
  types as the \<open>uint8_t\<close> constants of the code; the size estimate used to cut batches of
  entries, and \<open>entry_limit_size\<close>, the routine that cuts them.
\<close>

section \<open>Message and entry types\<close>

type_synonym message_type = u8
type_synonym entry_type = u8

definition MsgHup :: message_type where [simp]: "MsgHup = 0"
definition MsgBeat :: message_type where [simp]: "MsgBeat = 1"
definition MsgProp :: message_type where [simp]: "MsgProp = 2"
definition MsgApp :: message_type where [simp]: "MsgApp = 3"
definition MsgAppResp :: message_type where [simp]: "MsgAppResp = 4"
definition MsgVote :: message_type where [simp]: "MsgVote = 5"
definition MsgVoteResp :: message_type where [simp]: "MsgVoteResp = 6"
definition MsgSnap :: message_type where [simp]: "MsgSnap = 7"
definition MsgHeartbeat :: message_type where [simp]: "MsgHeartbeat = 8"
definition MsgHeartbeatResp :: message_type where [simp]: "MsgHeartbeatResp = 9"
definition MsgUnreachable :: message_type where [simp]: "MsgUnreachable = 10"
definition MsgSnapStatus :: message_type where [simp]: "MsgSnapStatus = 11"
definition MsgCheckQuorum :: message_type where [simp]: "MsgCheckQuorum = 12"
definition MsgTransferLeader :: message_type where [simp]: "MsgTransferLeader = 13"
definition MsgTimeoutNow :: message_type where [simp]: "MsgTimeoutNow = 14"
definition MsgReadIndex :: message_type where [simp]: "MsgReadIndex = 15"
definition MsgReadIndexResp :: message_type where [simp]: "MsgReadIndexResp = 16"
definition MsgPreVote :: message_type where [simp]: "MsgPreVote = 17"
definition MsgPreVoteResp :: message_type where [simp]: "MsgPreVoteResp = 18"
definition MsgTypeSize :: message_type where [simp]: "MsgTypeSize = 19"

definition EntryNormal :: entry_type where [simp]: "EntryNormal = 0"
definition EntryConfChange :: entry_type where [simp]: "EntryConfChange = 1"

definition msg_type_to_string :: "message_type \<Rightarrow> string res" where
  "msg_type_to_string t =
     (if t = MsgHup then Inr ''MsgHup''
      else if t = MsgBeat then Inr ''MsgBeat''
      else if t = MsgProp then Inr ''MsgProp''
      else if t = MsgApp then Inr ''MsgApp''
      else if t = MsgAppResp then Inr ''MsgAppResp''
      else if t = MsgVote then Inr ''MsgVote''
      else if t = MsgVoteResp then Inr ''MsgVoteResp''
      else if t = MsgSnap then Inr ''MsgSnap''
      else if t = MsgHeartbeat then Inr ''MsgHeartbeat''
      else if t = MsgHeartbeatResp then Inr ''MsgHeartbeatResp''
      else if t = MsgUnreachable then Inr ''MsgUnreachable''
      else if t = MsgSnapStatus then Inr ''MsgSnapStatus''
      else if t = MsgCheckQuorum then Inr ''MsgCheckQuorum''
      else if t = MsgTransferLeader then Inr ''MsgTransferLeader''
      else if t = MsgTimeoutNow then Inr ''MsgTimeoutNow''
      else if t = MsgReadIndex then Inr ''MsgReadIndex''
      else if t = MsgReadIndexResp then Inr ''MsgReadIndexResp''
      else if t = MsgPreVote then Inr ''MsgPreVote''
      else if t = MsgPreVoteResp then Inr ''MsgPreVoteResp''
      else Inl (Fatal ''invalid msg type''))"

definition entry_type_to_string :: "entry_type \<Rightarrow> string res" where
  "entry_type_to_string t =
     (if t = EntryNormal then Inr ''EntryNormal''
      else if t = EntryConfChange then Inr ''EntryConfChange''
      else Inl (Fatal ''invalid entry type''))"

section \<open>Entries, snapshots, messages\<close>

record entry =
  e_type :: entry_type
  e_term :: u64
  e_index :: u64
  e_data :: bytes

definition Entry :: entry where
  "Entry = \<lparr>e_type = EntryNormal, e_term = 0, e_index = 0, e_data = []\<rparr>"

record conf_state =
  cs_nodes :: "u64 list"
  cs_learners :: "u64 list"

definition ConfState :: conf_state where
  "ConfState = \<lparr>cs_nodes = [], cs_learners = []\<rparr>"

record snapshot_metadata =
  md_conf_state :: conf_state
  md_index :: u64
  md_term :: u64

record snapshot =
  s_data :: bytes
  s_metadata :: snapshot_metadata

definition Snapshot :: snapshot where
  "Snapshot = \<lparr>s_data = [],
     s_metadata = \<lparr>md_conf_state = ConfState, md_index = 0, md_term = 0\<rparr>\<rparr>"

abbreviation s_index :: "snapshot \<Rightarrow> u64" where
  "s_index s \<equiv> md_index (s_metadata s)"

abbreviation s_term :: "snapshot \<Rightarrow> u64" where
  "s_term s \<equiv> md_term (s_metadata s)"

definition snapshot_is_empty :: "snapshot \<Rightarrow> bool" where
  "snapshot_is_empty s \<longleftrightarrow> md_index (s_metadata s) = 0"

definition snapshot_equal :: "snapshot \<Rightarrow> snapshot \<Rightarrow> bool" where
  "snapshot_equal a b \<longleftrightarrow> s_data a = s_data b \<and> s_metadata a = s_metadata b"

record message =
  m_type :: message_type
  m_to :: u64
  m_from :: u64
  m_term :: u64
  m_log_term :: u64
  m_index :: u64
  m_entries :: "entry list"
  m_commit :: u64
  m_snapshot :: snapshot
  m_reject :: bool
  m_reject_hint :: u64
  m_context :: bytes

definition Message :: message where
  "Message = \<lparr>m_type = MsgHup, m_to = 0, m_from = 0, m_term = 0, m_log_term = 0, m_index = 0,
     m_entries = [], m_commit = 0, m_snapshot = Snapshot, m_reject = False, m_reject_hint = 0,
     m_context = []\<rparr>"

definition msg_is_local_msg :: "message \<Rightarrow> bool" where
  "msg_is_local_msg m \<longleftrightarrow>
     m_type m = MsgHup \<or> m_type m = MsgBeat \<or> m_type m = MsgUnreachable
     \<or> m_type m = MsgSnapStatus \<or> m_type m = MsgCheckQuorum"

definition msg_is_response_msg :: "message \<Rightarrow> bool" where
  "msg_is_response_msg m \<longleftrightarrow>
     m_type m = MsgAppResp \<or> m_type m = MsgVoteResp \<or> m_type m = MsgHeartbeatResp
     \<or> m_type m = MsgUnreachable \<or> m_type m = MsgPreVoteResp"

record hard_state =
  hs_term :: u64
  hs_vote :: u64
  hs_commit :: u64

definition HardState :: hard_state where
  "HardState = \<lparr>hs_term = 0, hs_vote = 0, hs_commit = 0\<rparr>"

definition hs_is_empty_state :: "hard_state \<Rightarrow> bool" where
  "hs_is_empty_state hs \<longleftrightarrow> hs_term hs = 0 \<and> hs_vote hs = 0 \<and> hs_commit hs = 0"

definition hs_equal :: "hard_state \<Rightarrow> hard_state \<Rightarrow> bool" where
  "hs_equal a b \<longleftrightarrow> hs_term a = hs_term b \<and> hs_vote a = hs_vote b \<and> hs_commit a = hs_commit b"

definition ConfChangeAddNode :: u8 where [simp]: "ConfChangeAddNode = 0"
definition ConfChangeRemoveNode :: u8 where [simp]: "ConfChangeRemoveNode = 1"
definition ConfChangeUpdateNode :: u8 where [simp]: "ConfChangeUpdateNode = 2"
definition ConfChangeAddLearnerNode :: u8 where [simp]: "ConfChangeAddLearnerNode = 3"

record conf_change =
  cc_id :: u64
  cc_type :: u8
  cc_node_id :: u64
  cc_context :: bytes

section \<open>The size estimate of an entry\<close>

definition u8_serialize_size :: "u8 \<Rightarrow> u32" where
  "u8_serialize_size d = (if d < 2 ^ 7 then 1 else 2)"

definition u64_serialize_size :: "u64 \<Rightarrow> u32" where
  "u64_serialize_size d =
     (if d < 2 ^ 8 then (if d < 2 ^ 7 then 1 else 2)
      else if d < 2 ^ 16 then 3
      else if d < 2 ^ 32 then 5 else 9)"

definition data_serialize_size :: "u32 \<Rightarrow> u32" where
  "data_serialize_size len =
     (if len \<le> 2 ^ 8 - 1 then 2 + len
      else if len \<le> 2 ^ 16 - 1 then 3 + len
      else 5 + len)"

definition serialize_size :: "entry \<Rightarrow> u32" where
  "serialize_size e =
     1 + u8_serialize_size (e_type e) + u64_serialize_size (e_term e)
       + u64_serialize_size (e_index e)
       + data_serialize_size (of_nat (length (e_data e)))"

definition payload_size :: "entry \<Rightarrow> u32" where
  "payload_size e = of_nat (length (e_data e))"

section \<open>util.cpp\<close>

text \<open>
  The loop of \<open>entry_limit_size\<close> over the entries after the first: \<open>sz\<close> is the running
  \<open>size\<close>, and the entry that pushes it over \<open>max_size\<close> cuts the vector before itself.
\<close>

fun entry_limit_loop :: "u64 \<Rightarrow> u64 \<Rightarrow> entry list \<Rightarrow> entry list" where
  "entry_limit_loop max_size sz [] = []"
| "entry_limit_loop max_size sz (e # es) =
     (let sz' = sz + ucast (serialize_size e)
      in if sz' > max_size then [] else e # entry_limit_loop max_size sz' es)"

fun entry_limit_size :: "u64 \<Rightarrow> entry list \<Rightarrow> entry list" where
  "entry_limit_size max_size [] = []"
| "entry_limit_size max_size (e # es) =
     e # entry_limit_loop max_size (ucast (serialize_size e)) es"

definition vote_resp_msg_type :: "message_type \<Rightarrow> message_type res" where
  "vote_resp_msg_type t =
     (if t = MsgVote then Inr MsgVoteResp
      else if t = MsgPreVote then Inr MsgPreVoteResp
      else rbind (msg_type_to_string t) (\<lambda>_. Inl (Fatal ''not a vote message'')))"

definition util_is_local_msg :: "message_type \<Rightarrow> bool" where
  "util_is_local_msg t \<longleftrightarrow>
     t = MsgHup \<or> t = MsgBeat \<or> t = MsgUnreachable \<or> t = MsgSnapStatus \<or> t = MsgCheckQuorum"

definition is_must_sync :: "hard_state \<Rightarrow> hard_state \<Rightarrow> nat \<Rightarrow> bool" where
  "is_must_sync st prevst entsnum \<longleftrightarrow>
     entsnum \<noteq> 0 \<or> hs_vote st \<noteq> hs_vote prevst \<or> hs_term st \<noteq> hs_term prevst"

section \<open>Facts\<close>

lemma snapshot_equal_iff: "snapshot_equal a b \<longleftrightarrow> a = b"
  by (cases a; cases b) (auto simp: snapshot_equal_def)

lemma hs_equal_iff: "hs_equal a b \<longleftrightarrow> a = b"
  by (cases a; cases b) (auto simp: hs_equal_def)

lemma hs_is_empty_iff: "hs_is_empty_state hs \<longleftrightarrow> hs = HardState"
  by (cases hs) (auto simp: hs_is_empty_state_def HardState_def)

lemma util_is_local_msg_eq: "msg_is_local_msg m = util_is_local_msg (m_type m)"
  by (simp add: msg_is_local_msg_def util_is_local_msg_def)

definition known_type :: "message_type \<Rightarrow> bool" where
  "known_type t \<longleftrightarrow> t < MsgTypeSize"

text \<open>Printing succeeds exactly on the nineteen message types of the protocol.\<close>

lemma u8_less_19:
  "(t :: u8) < 19 \<longleftrightarrow>
     t \<in> {0, 1, 2, 3, 4, 5, 6, 7, 8, 9, 10, 11, 12, 13, 14, 15, 16, 17, 18}"
proof -
  have "unat t < 19 \<longleftrightarrow> unat t \<in> {0, 1, 2, 3, 4, 5, 6, 7, 8, 9, 10, 11, 12, 13, 14, 15, 16, 17, 18}"
    by (simp add: numeral_eq_Suc less_Suc_eq)
  then show ?thesis
    by (simp add: word_less_nat_alt word_unat_eq_iff)
qed

lemma msg_type_to_string_known:
  "(\<exists>s. msg_type_to_string t = Inr s) \<longleftrightarrow> known_type t"
  by (auto simp: msg_type_to_string_def known_type_def u8_less_19)

lemma msg_type_to_string_cases:
  "(known_type t \<and> (\<exists>s. msg_type_to_string t = Inr s))
   \<or> (\<not> known_type t \<and> msg_type_to_string t = Inl (Fatal ''invalid msg type''))"
  by (auto simp: msg_type_to_string_def known_type_def u8_less_19)

subsection \<open>The batch limit\<close>

definition sizes :: "entry list \<Rightarrow> nat" where
  "sizes es = (\<Sum>e\<leftarrow>es. unat (serialize_size e))"

lemma sizes_simps [simp]:
  "sizes [] = 0"
  "sizes (e # es) = unat (serialize_size e) + sizes es"
  "sizes (es @ fs) = sizes es + sizes fs"
  by (simp_all add: sizes_def)

lemma entry_limit_loop_prefix: "prefix (entry_limit_loop mx sz es) es"
  by (induction es arbitrary: sz) (auto simp: Let_def)

lemma entry_limit_loop_bound:
  assumes "unat sz + sizes es < 2 ^ 64" and "unat sz \<le> unat mx"
  shows "unat sz + sizes (entry_limit_loop mx sz es) \<le> unat mx"
  using assms
proof (induction es arbitrary: sz)
  case (Cons e es)
  let ?sz = "sz + ucast (serialize_size e)"
  have u: "unat ?sz = unat sz + unat (serialize_size e)"
    using Cons.prems(1) by (subst unat_add_u64) simp_all
  show ?case
  proof (cases "?sz > mx")
    case False
    then have "unat ?sz \<le> unat mx" by (simp add: word_le_nat_alt not_less)
    moreover have "unat ?sz + sizes es < 2 ^ 64" using Cons.prems(1) u by simp
    ultimately have "unat ?sz + sizes (entry_limit_loop mx ?sz es) \<le> unat mx"
      by (intro Cons.IH)
    then show ?thesis using False u by simp
  qed (use Cons.prems in simp)
qed simp

lemma entry_limit_loop_maximal:
  assumes "unat sz + sizes es < 2 ^ 64"
    and "length (entry_limit_loop mx sz es) < length es"
  shows "unat mx < unat sz + sizes (take (Suc (length (entry_limit_loop mx sz es))) es)"
  using assms
proof (induction es arbitrary: sz)
  case (Cons e es)
  let ?sz = "sz + ucast (serialize_size e)"
  have u: "unat ?sz = unat sz + unat (serialize_size e)"
    using Cons.prems(1) by (subst unat_add_u64) simp_all
  show ?case
  proof (cases "?sz > mx")
    case True
    then have "unat mx < unat ?sz" by (simp add: word_less_nat_alt)
    then show ?thesis using True u by simp
  next
    case False
    then have "length (entry_limit_loop mx ?sz es) < length es"
      using Cons.prems(2) by simp
    then have "unat mx < unat ?sz + sizes (take (Suc (length (entry_limit_loop mx ?sz es))) es)"
      using Cons.prems(1) u by (intro Cons.IH) simp_all
    then show ?thesis using False u by simp
  qed
qed simp

lemma entry_limit_loop_unlimited: "entry_limit_loop (- 1) sz es = es"
  by (induction es arbitrary: sz) (simp_all add: Let_def)

lemma entry_limit_size_unlimited [simp]: "entry_limit_size (- 1) es = es"
  by (cases es) (simp_all add: entry_limit_loop_unlimited)

lemma entry_limit_size_prefix: "prefix (entry_limit_size mx es) es"
  by (cases es) (simp_all add: entry_limit_loop_prefix)

lemma entry_limit_size_Nil_iff [simp]: "entry_limit_size mx es = [] \<longleftrightarrow> es = []"
  by (cases es) simp_all

lemma entry_limit_size_take:
  "entry_limit_size mx es = take (length (entry_limit_size mx es)) es"
  using entry_limit_size_prefix[of mx es] by (metis prefix_def append_eq_conv_conj)

lemma entry_limit_size_length: "length (entry_limit_size mx es) \<le> length es"
  by (rule prefix_length_le [OF entry_limit_size_prefix])

end
