(* ===== verification/Raft_Storage.thy ===== *)
theory Raft_Storage
  imports Raft_Proto
begin

text \<open>
  \<open>MemoryStorage\<close>, src/raft-kv/raft/storage.h and storage.cpp: the stable part of the log. The
  vector \<open>entries_\<close> starts with a dummy entry that holds the index and term of the last
  compacted position; \<open>entries_[i]\<close> has log position \<open>entries_[0]->index + i\<close>.

  The mutex only serialises callers; each operation is one atomic step here. The dummy entry and
  the snapshot object are the only ones the class mutates in place and it never hands out the
  dummy, so shared pointers to entries are modelled by their values.
\<close>

section \<open>State and operations\<close>

record mem_storage =
  ms_hard_state :: hard_state
  ms_snapshot :: snapshot
  ms_entries :: "entry list"

definition MemoryStorage :: mem_storage where
  "MemoryStorage = \<lparr>ms_hard_state = HardState, ms_snapshot = Snapshot, ms_entries = [Entry]\<rparr>"

definition storage_initial_state :: "mem_storage \<Rightarrow> hard_state \<times> conf_state" where
  "storage_initial_state st = (ms_hard_state st, md_conf_state (s_metadata (ms_snapshot st)))"

definition storage_set_hard_state :: "hard_state \<Rightarrow> mem_storage \<Rightarrow> mem_storage" where
  "storage_set_hard_state hs st = st\<lparr>ms_hard_state := hs\<rparr>"

definition storage_last_index :: "mem_storage \<Rightarrow> u64 res" where
  "storage_last_index st =
     rbind (vec_front (ms_entries st)) (\<lambda>d. Inr (e_index d + vec_size (ms_entries st) - 1))"

definition storage_first_index :: "mem_storage \<Rightarrow> u64 res" where
  "storage_first_index st = rbind (vec_front (ms_entries st)) (\<lambda>d. Inr (e_index d + 1))"

definition storage_entries :: "mem_storage \<Rightarrow> u64 \<Rightarrow> u64 \<Rightarrow> u64 \<Rightarrow> entry list stat res" where
  "storage_entries st low high max_size =
     rbind (rassert ''low < high'' (low < high)) (\<lambda>_.
     rbind (vec_front (ms_entries st)) (\<lambda>d.
       let offset = e_index d in
       if low \<le> offset then Inr (Inl err_compacted)
       else rbind (storage_last_index st) (\<lambda>lst.
         if high > lst + 1 then Inl (Fatal ''entries hi is out of bound last_index'')
         else if length (ms_entries st) = 1 then Inr (Inl err_unavailable)
         else rbind (vec_range (ms_entries st) (low - offset) (high - offset)) (\<lambda>es.
           Inr (Inr (entry_limit_size max_size es))))))"

definition storage_term :: "mem_storage \<Rightarrow> u64 \<Rightarrow> u64 stat res" where
  "storage_term st i =
     rbind (vec_front (ms_entries st)) (\<lambda>d.
       let offset = e_index d in
       if i < offset then Inr (Inl err_compacted)
       else if i - offset \<ge> vec_size (ms_entries st) then Inr (Inl err_unavailable)
       else rbind (vec_at (ms_entries st) (i - offset)) (\<lambda>e. Inr (Inr (e_term e))))"

definition storage_snapshot :: "mem_storage \<Rightarrow> snapshot stat res" where
  "storage_snapshot st = Inr (Inr (ms_snapshot st))"

definition storage_compact :: "u64 \<Rightarrow> mem_storage \<Rightarrow> (mem_storage \<times> status) res" where
  "storage_compact compact_index st =
     rbind (vec_front (ms_entries st)) (\<lambda>d.
       let offset = e_index d in
       if compact_index \<le> offset then Inr (st, err_compacted)
       else rbind (storage_last_index st) (\<lambda>last_idx.
         if compact_index > last_idx then Inl (Fatal ''compact is out of bound lastindex'')
         else let i = compact_index - offset in
           rbind (vec_at (ms_entries st) i) (\<lambda>e.
           rbind (vec_erase_front (ms_entries st) (i + 1)) (\<lambda>rest.
             Inr (st\<lparr>ms_entries := d\<lparr>e_index := e_index e, e_term := e_term e\<rparr> # rest\<rparr>, Ok)))))"

text \<open>
  \<open>append\<close>: entries already compacted are dropped, then the stored tail from the first new index
  on is replaced.
\<close>

definition storage_append_tail :: "entry list \<Rightarrow> mem_storage \<Rightarrow> (mem_storage \<times> status) res" where
  "storage_append_tail es st =
     rbind (vec_front es) (\<lambda>e0.
     rbind (vec_front (ms_entries st)) (\<lambda>d.
       let offset = e_index e0 - e_index d in
       if vec_size (ms_entries st) > offset
       then Inr (st\<lparr>ms_entries := take (unat offset) (ms_entries st) @ es\<rparr>, Ok)
       else if vec_size (ms_entries st) = offset
       then Inr (st\<lparr>ms_entries := ms_entries st @ es\<rparr>, Ok)
       else rbind (storage_last_index st) (\<lambda>_. Inl (Fatal ''missing log entry''))))"

definition storage_append :: "entry list \<Rightarrow> mem_storage \<Rightarrow> (mem_storage \<times> status) res" where
  "storage_append es st =
     (case es of
        [] \<Rightarrow> Inr (st, Ok)
      | e0 # _ \<Rightarrow>
          rbind (storage_first_index st) (\<lambda>fst_ix.
            if e_index e0 + vec_size es - 1 < fst_ix then Inr (st, Ok)
            else if fst_ix > e_index e0
            then rbind (vec_erase_front es (fst_ix - e_index e0)) (\<lambda>es'. storage_append_tail es' st)
            else storage_append_tail es st))"

definition storage_create_snapshot ::
    "u64 \<Rightarrow> conf_state option \<Rightarrow> bytes \<Rightarrow> mem_storage \<Rightarrow> (mem_storage \<times> snapshot \<times> status) res" where
  "storage_create_snapshot idx cs data st =
     (if idx \<le> s_index (ms_snapshot st) then Inr (st, Snapshot, err_snap_out_of_date)
      else rbind (vec_front (ms_entries st)) (\<lambda>d.
        rbind (storage_last_index st) (\<lambda>lst.
          if idx > lst then Inl (Fatal ''snapshot is out of bound lastindex'')
          else rbind (vec_at (ms_entries st) (idx - e_index d)) (\<lambda>e.
            let md = s_metadata (ms_snapshot st);
                md' = md\<lparr>md_index := idx, md_term := e_term e,
                         md_conf_state := (case cs of None \<Rightarrow> md_conf_state md | Some c \<Rightarrow> c)\<rparr>;
                snap = \<lparr>s_data = data, s_metadata = md'\<rparr>
            in Inr (st\<lparr>ms_snapshot := snap\<rparr>, snap, Ok)))))"

definition storage_apply_snapshot :: "snapshot \<Rightarrow> mem_storage \<Rightarrow> mem_storage \<times> status" where
  "storage_apply_snapshot snap st =
     (if s_index (ms_snapshot st) \<ge> s_index snap then (st, err_snap_out_of_date)
      else (st\<lparr>ms_snapshot := snap,
               ms_entries := [Entry\<lparr>e_term := s_term snap, e_index := s_index snap\<rparr>]\<rparr>, Ok))"

section \<open>The interface of a log\<close>

text \<open>
  \<open>contig n es\<close>: the entries carry consecutive indices from \<open>n\<close> on. \<open>term_at b t es i\<close> is the term at
  position \<open>i\<close> of the log with base position \<open>b\<close>, base term \<open>t\<close> and entries \<open>es\<close>.
\<close>

definition contig :: "nat \<Rightarrow> entry list \<Rightarrow> bool" where
  "contig n es \<longleftrightarrow> (\<forall>i<length es. unat (e_index (es ! i)) = n + i)"

definition term_at :: "nat \<Rightarrow> u64 \<Rightarrow> entry list \<Rightarrow> nat \<Rightarrow> u64" where
  "term_at b t es i =
     (if i = b then t
      else if b < i \<and> i \<le> b + length es then e_term (es ! (i - b - 1)) else 0)"

locale indexed_log =
  fixes inv :: "'l \<Rightarrow> bool"
    and base :: "'l \<Rightarrow> nat"
    and base_term :: "'l \<Rightarrow> u64"
    and ents :: "'l \<Rightarrow> entry list"
    and first_ix :: "'l \<Rightarrow> u64 res"
    and last_ix :: "'l \<Rightarrow> u64 res"
    and term_of :: "'l \<Rightarrow> u64 \<Rightarrow> u64 stat res"
  assumes contiguous: "inv l \<Longrightarrow> contig (base l + 1) (ents l)"
    and bounded: "inv l \<Longrightarrow> base l + length (ents l) + 1 < 2 ^ 64"
    and first_ok: "inv l \<Longrightarrow> \<exists>f. first_ix l = Inr f \<and> unat f = base l + 1"
    and last_ok: "inv l \<Longrightarrow> \<exists>k. last_ix l = Inr k \<and> unat k = base l + length (ents l)"
    and term_ok: "inv l \<Longrightarrow> base l \<le> unat i \<Longrightarrow> unat i \<le> base l + length (ents l) \<Longrightarrow>
      term_of l i = Inr (Inr (term_at (base l) (base_term l) (ents l) (unat i)))"

begin

lemma first_le_last:
  assumes "inv l" "first_ix l = Inr f" "last_ix l = Inr k"
  shows "unat f \<le> unat k + 1"
  using first_ok[OF assms(1)] last_ok[OF assms(1)] assms(2,3) by auto

lemma term_base:
  assumes "inv l" and "unat i = base l"
  shows "term_of l i = Inr (Inr (base_term l))"
  using term_ok[OF assms(1), of i] assms(2) by (simp add: term_at_def)

lemma term_entry:
  assumes "inv l" and "e \<in> set (ents l)"
  shows "term_of l (e_index e) = Inr (Inr (e_term e))"
proof -
  obtain k where k: "k < length (ents l)" "e = ents l ! k"
    using assms(2) by (auto simp: in_set_conv_nth)
  then have "unat (e_index e) = base l + 1 + k"
    using contiguous[OF assms(1)] by (simp add: contig_def)
  then show ?thesis using term_ok[OF assms(1), of "e_index e"] k by (simp add: term_at_def)
qed

lemma term_last:
  assumes "inv l" and "last_ix l = Inr k"
  shows "term_of l k = Inr (Inr (if ents l = [] then base_term l else e_term (last (ents l))))"
proof -
  have "unat k = base l + length (ents l)" using last_ok[OF assms(1)] assms(2) by auto
  then show ?thesis using term_ok[OF assms(1), of k]
    by (auto simp: term_at_def last_conv_nth)
qed

end

section \<open>Contiguous entries\<close>

lemma contig_Nil [simp]: "contig n []"
  by (simp add: contig_def)

lemma contig_Cons [simp]: "contig n (e # es) \<longleftrightarrow> unat (e_index e) = n \<and> contig (Suc n) es"
  by (auto simp: contig_def nth_Cons split: nat.splits)

lemma contig_append: "contig n (xs @ ys) \<longleftrightarrow> contig n xs \<and> contig (n + length xs) ys"
  by (induction xs arbitrary: n) auto

lemma contig_drop: "contig n es \<Longrightarrow> contig (n + k) (drop k es)"
  by (simp add: contig_def)

lemma contig_take: "contig n es \<Longrightarrow> contig n (take k es)"
  by (simp add: contig_def)

lemma contig_hd: "contig n es \<Longrightarrow> es \<noteq> [] \<Longrightarrow> unat (e_index (hd es)) = n"
  by (cases es) auto

section \<open>Well-formed storage\<close>

definition wf_storage :: "mem_storage \<Rightarrow> bool" where
  "wf_storage st \<longleftrightarrow>
     ms_entries st \<noteq> [] \<and> contig (unat (e_index (hd (ms_entries st)))) (ms_entries st)
     \<and> unat (e_index (hd (ms_entries st))) + length (ms_entries st) < 2 ^ 64"

definition st_base :: "mem_storage \<Rightarrow> nat" where
  "st_base st = unat (e_index (hd (ms_entries st)))"

definition st_base_term :: "mem_storage \<Rightarrow> u64" where
  "st_base_term st = e_term (hd (ms_entries st))"

definition st_ents :: "mem_storage \<Rightarrow> entry list" where
  "st_ents st = tl (ms_entries st)"

lemma wf_storageE:
  assumes "wf_storage st"
  obtains d es where "ms_entries st = d # es" "st_base st = unat (e_index d)"
    "st_base_term st = e_term d" "st_ents st = es" "contig (st_base st + 1) es"
    "st_base st + length es + 1 < 2 ^ 64"
  using assms
  by (cases "ms_entries st") (auto simp: wf_storage_def st_base_def st_base_term_def st_ents_def)

lemma wf_storageI:
  assumes "ms_entries st = d # es" "contig (unat (e_index d) + 1) es"
    "unat (e_index d) + length es + 1 < 2 ^ 64"
  shows "wf_storage st"
  using assms by (simp add: wf_storage_def)

lemma storage_first_index_ok:
  assumes "wf_storage st"
  shows "\<exists>f. storage_first_index st = Inr f \<and> unat f = st_base st + 1"
  using assms by (elim wf_storageE) (simp add: storage_first_index_def unat_add_1)

lemma storage_last_index_ok:
  assumes "wf_storage st"
  shows "\<exists>k. storage_last_index st = Inr k \<and> unat k = st_base st + length (st_ents st)"
proof -
  obtain d es where w: "ms_entries st = d # es" "st_base st = unat (e_index d)" "st_ents st = es"
      "st_base st + length es + 1 < 2 ^ 64"
    using assms by (rule wf_storageE)
  have "storage_last_index st = Inr (e_index d + of_nat (length es))"
    using w(1) by (simp add: storage_last_index_def vec_size_def)
  moreover have "unat (e_index d + of_nat (length es)) = unat (e_index d) + length es"
    using w by (simp add: unat_add_of_nat)
  ultimately show ?thesis using w by simp
qed

lemma storage_term_ok:
  assumes "wf_storage st" and "st_base st \<le> unat i" and "unat i \<le> st_base st + length (st_ents st)"
  shows "storage_term st i = Inr (Inr (term_at (st_base st) (st_base_term st) (st_ents st) (unat i)))"
proof -
  obtain d es where w: "ms_entries st = d # es" "st_base st = unat (e_index d)"
      "st_base_term st = e_term d" "st_ents st = es" "st_base st + length es + 1 < 2 ^ 64"
    using assms(1) by (rule wf_storageE)
  have ge: "e_index d \<le> i" using assms(2) w by (simp add: word_le_nat_alt)
  have off: "unat (i - e_index d) = unat i - unat (e_index d)" using ge by (rule unat_sub_u64)
  have sz: "unat (vec_size (d # es)) = length es + 1" using w by (subst vec_size_unat) simp_all
  have "\<not> i - e_index d \<ge> vec_size (d # es)"
    using assms(3) w off sz by (simp add: word_le_nat_alt)
  moreover have "unat (i - e_index d) < length (d # es)" using assms(3) w off by simp
  ultimately have "storage_term st i = Inr (Inr (e_term ((d # es) ! (unat i - unat (e_index d)))))"
    using w ge off by (simp add: storage_term_def vec_at_def Let_def)
  then show ?thesis using assms(2,3) w
    by (auto simp: term_at_def nth_Cons' )
qed

lemma storage_term_compacted:
  assumes "wf_storage st" and "unat i < st_base st"
  shows "storage_term st i = Inr (Inl err_compacted)"
  using assms by (elim wf_storageE) (simp add: storage_term_def word_less_nat_alt)

lemma storage_term_unavailable:
  assumes "wf_storage st" and "unat i > st_base st + length (st_ents st)"
  shows "storage_term st i = Inr (Inl err_unavailable)"
proof -
  obtain d es where w: "ms_entries st = d # es" "st_base st = unat (e_index d)" "st_ents st = es"
      "st_base st + length es + 1 < 2 ^ 64"
    using assms(1) by (rule wf_storageE)
  have ge: "e_index d \<le> i" using assms(2) w by (simp add: word_le_nat_alt)
  have "unat (i - e_index d) = unat i - unat (e_index d)" using ge by (rule unat_sub_u64)
  moreover have "unat (vec_size (d # es)) = length es + 1" using w by (subst vec_size_unat) simp_all
  ultimately have "vec_size (d # es) \<le> i - e_index d"
    using assms(2) w by (simp add: word_le_nat_alt)
  then show ?thesis using w leD[OF ge] by (simp add: storage_term_def Let_def)
qed

interpretation stor: indexed_log wf_storage st_base st_base_term st_ents
  storage_first_index storage_last_index storage_term
proof unfold_locales
  fix st assume wf: "wf_storage st"
  show "contig (st_base st + 1) (st_ents st)" using wf by (elim wf_storageE) simp
  show "st_base st + length (st_ents st) + 1 < 2 ^ 64" using wf by (elim wf_storageE) simp
qed (fact storage_first_index_ok storage_last_index_ok storage_term_ok)+

lemma wf_MemoryStorage [wf_intros]: "wf_storage MemoryStorage"
  by (simp add: wf_storage_def MemoryStorage_def Entry_def)

lemma storage_entries_ok:
  assumes "wf_storage st" and "st_base st < unat low" and "low < high"
    and "unat high \<le> st_base st + length (st_ents st) + 1"
  shows "storage_entries st low high mx
    = Inr (Inr (entry_limit_size mx
        (take (unat high - unat low) (drop (unat low - (st_base st + 1)) (st_ents st)))))"
proof -
  obtain d es where w: "ms_entries st = d # es" "st_base st = unat (e_index d)" "st_ents st = es"
      "st_base st + length es + 1 < 2 ^ 64"
    using assms(1) by (rule wf_storageE)
  have lh: "unat low < unat high" using assms(3) by (simp add: word_less_nat_alt)
  obtain k where k: "storage_last_index st = Inr k" "unat k = st_base st + length es"
    using storage_last_index_ok[OF assms(1)] w by auto
  have k1: "unat (k + 1) = st_base st + length es + 1" using k w by (simp add: unat_add_1)
  have lo: "unat (low - e_index d) = unat low - unat (e_index d)"
    using assms(2) w by (intro unat_sub_u64) (simp add: word_le_nat_alt)
  have hi: "unat (high - e_index d) = unat high - unat (e_index d)"
    using assms(2) lh w by (intro unat_sub_u64) (simp add: word_le_nat_alt)
  have "es \<noteq> []" using assms(2,4) lh w by auto
  moreover have "drop (unat low - unat (e_index d)) (d # es) = drop (unat low - (unat (e_index d) + 1)) es"
    using assms(2) w by (simp add: drop_Cons')
  moreover have "vec_range (d # es) (low - e_index d) (high - e_index d)
      = Inr (take (unat high - unat low) (drop (unat low - unat (e_index d)) (d # es)))"
    using assms lh w lo hi by (auto simp: vec_range_def word_le_nat_alt)
  ultimately show ?thesis using assms(2,3,4) w k k1
    by (simp add: storage_entries_def word_le_nat_alt word_less_nat_alt)
qed

section \<open>The writing operations on the abstract log\<close>

text \<open>
  \<open>splice b es news\<close>: the entries of a log with base \<open>b\<close> after writing the contiguous batch
  \<open>news\<close>: positions up to \<open>b\<close> are ignored, everything from the first written position on is
  replaced.
\<close>

definition splice :: "nat \<Rightarrow> entry list \<Rightarrow> entry list \<Rightarrow> entry list" where
  "splice b es news =
     (case news of
        [] \<Rightarrow> es
      | e0 # _ \<Rightarrow>
          let k = unat (e_index e0)
          in if k + length news \<le> b + 1 then es
             else take (k - (b + 1)) es @ drop (b + 1 - k) news)"

lemma contig_splice:
  assumes "contig (b + 1) es" and "contig k news" and "k \<le> b + length es + 1"
  shows "contig (b + 1) (splice b es news)"
proof (cases news)
  case (Cons e0 rest)
  then have k: "unat (e_index e0) = k" using assms(2) by simp
  show ?thesis
  proof (cases "k + length news \<le> b + 1")
    case False
    have d: "contig (k + (b + 1 - k)) (drop (b + 1 - k) news)"
      using assms(2) by (rule contig_drop)
    have "k + (b + 1 - k) = b + 1 + length (take (k - (b + 1)) es)"
      using assms(3) by simp
    with d have "contig (b + 1) (take (k - (b + 1)) es @ drop (b + 1 - k) news)"
      using assms(1) by (simp add: contig_append contig_take)
    then show ?thesis using False k Cons by (simp add: splice_def Let_def)
  qed (use assms(1) k Cons in \<open>simp add: splice_def\<close>)
qed (use assms(1) in \<open>simp add: splice_def\<close>)

lemma storage_append_tail_ok:
  assumes "wf_storage st" and "es \<noteq> []" and "contig k es"
    and "st_base st < k" and "k \<le> st_base st + length (st_ents st) + 1"
    and "k + length es < 2 ^ 64"
  shows "\<exists>st'. storage_append_tail es st = Inr (st', Ok) \<and> wf_storage st'
     \<and> st_base st' = st_base st \<and> st_base_term st' = st_base_term st
     \<and> st_ents st' = take (k - (st_base st + 1)) (st_ents st) @ es
     \<and> ms_snapshot st' = ms_snapshot st \<and> ms_hard_state st' = ms_hard_state st"
proof -
  obtain d ds where w: "ms_entries st = d # ds" "st_base st = unat (e_index d)"
      "st_base_term st = e_term d" "st_ents st = ds" "contig (st_base st + 1) ds"
      "st_base st + length ds + 1 < 2 ^ 64"
    using assms(1) by (rule wf_storageE)
  obtain e0 where e0: "vec_front es = Inr e0" "unat (e_index e0) = k"
    using assms(2,3) by (cases es) auto
  define off where "off = e_index e0 - e_index d"
  have off: "unat off = k - unat (e_index d)"
    using assms(4) w(2) e0(2) by (simp add: off_def unat_sub word_le_nat_alt)
  have sz: "unat (vec_size (d # ds)) = length ds + 1"
    using w by (subst vec_size_unat) simp_all
  have tk: "take (unat off) (d # ds) @ es = d # (take (k - (unat (e_index d) + 1)) ds @ es)"
    using off assms(4) w(2) by (simp add: take_Cons')
  define st' where "st' = st\<lparr>ms_entries := d # (take (k - (unat (e_index d) + 1)) ds @ es)\<rparr>"
  have eq: "storage_append_tail es st = Inr (st', Ok)"
  proof (cases "vec_size (d # ds) > off")
    case True
    then show ?thesis using e0(1) w(1) tk
      by (simp add: storage_append_tail_def Let_def off_def[symmetric] st'_def)
  next
    case False
    then have "unat off = length ds + 1"
      using off sz assms(5) w(2,4) by (simp add: word_less_nat_alt)
    then have "vec_size (d # ds) = off" "take (k - (unat (e_index d) + 1)) ds = ds"
      using sz off by (simp_all add: word_unat_eq_iff)
    then show ?thesis using e0(1) w(1) False
      by (simp add: storage_append_tail_def Let_def off_def[symmetric] st'_def)
  qed
  have "contig (unat (e_index d) + 1) (take (k - (unat (e_index d) + 1)) ds @ es)"
    using w assms(3,4,5) by (simp add: contig_append contig_take)
  then have "wf_storage st'"
    using w assms(4,5,6)
    by (intro wf_storageI[of st' d "take (k - (unat (e_index d) + 1)) ds @ es"])
      (simp_all add: st'_def)
  then show ?thesis using eq w by (auto simp: st'_def st_base_def st_base_term_def st_ents_def)
qed

lemma storage_append_ok:
  assumes "wf_storage st" and "contig k es" and "k \<le> st_base st + length (st_ents st) + 1"
    and "k + length es < 2 ^ 64"
  shows "\<exists>st'. storage_append es st = Inr (st', Ok) \<and> wf_storage st'
     \<and> st_base st' = st_base st \<and> st_base_term st' = st_base_term st
     \<and> st_ents st' = splice (st_base st) (st_ents st) es
     \<and> ms_snapshot st' = ms_snapshot st \<and> ms_hard_state st' = ms_hard_state st"
proof (cases es)
  case Nil
  then show ?thesis using assms(1) by (simp add: storage_append_def splice_def)
next
  case (Cons e0 rest)
  have k: "unat (e_index e0) = k" using assms(2) Cons by simp
  obtain f where f: "storage_first_index st = Inr f" "unat f = st_base st + 1"
    using storage_first_index_ok[OF assms(1)] by auto
  have lst: "unat (e_index e0 + vec_size es - 1) = k + length es - 1"
  proof -
    have eq: "e_index e0 + vec_size es - 1 = e_index e0 + of_nat (length rest)"
      using Cons by (simp add: vec_size_def)
    show ?thesis unfolding eq using Cons k assms(4) by (simp add: unat_add_of_nat)
  qed
  show ?thesis
  proof (cases "k + length es \<le> st_base st + 1")
    case True
    then have "e_index e0 + vec_size es - 1 < f" using lst f(2) Cons by (simp add: word_less_nat_alt)
    then show ?thesis using assms(1) f(1) Cons k True by (simp add: storage_append_def splice_def)
  next
    case new: False
    then have nl: "\<not> e_index e0 + vec_size es - 1 < f" using lst f(2) by (simp add: word_less_nat_alt)
    have sp: "splice (st_base st) (st_ents st) es
        = take (k - (st_base st + 1)) (st_ents st) @ drop (st_base st + 1 - k) es"
      using new k Cons by (simp add: splice_def Let_def)
    show ?thesis
    proof (cases "f > e_index e0")
      case True
      then have kb: "k < st_base st + 1" using f(2) k by (simp add: word_less_nat_alt)
      have n: "unat (f - e_index e0) = st_base st + 1 - k"
        using True f(2) k by (simp add: unat_sub)
      define es' where "es' = drop (st_base st + 1 - k) es"
      have "vec_erase_front es (f - e_index e0) = Inr es'"
        using n new by (simp add: vec_erase_front_def es'_def)
      then have "storage_append es st = storage_append_tail es' st"
        using Cons f(1) nl True by (simp add: storage_append_def)
      moreover have "es' \<noteq> []" "contig (st_base st + 1) es'" "st_base st + 1 + length es' < 2 ^ 64"
        using new kb assms(4) contig_drop[OF assms(2), of "st_base st + 1 - k"]
        by (auto simp: es'_def)
      ultimately show ?thesis
        using storage_append_tail_ok[OF assms(1), of es' "st_base st + 1"] sp kb
        by (simp add: es'_def)
    next
      case False
      then have kb: "st_base st < k" using f(2) k by (simp add: word_less_nat_alt)
      have "storage_append es st = storage_append_tail es st"
        using Cons f(1) nl False by (simp add: storage_append_def)
      then show ?thesis
        using storage_append_tail_ok[OF assms(1) _ assms(2) kb assms(3,4)] Cons sp kb by simp
    qed
  qed
qed

lemma storage_compact_ok:
  assumes "wf_storage st" and "st_base st < unat ci" and "unat ci \<le> st_base st + length (st_ents st)"
  shows "\<exists>st'. storage_compact ci st = Inr (st', Ok) \<and> wf_storage st' \<and> st_base st' = unat ci
     \<and> st_base_term st' = term_at (st_base st) (st_base_term st) (st_ents st) (unat ci)
     \<and> st_ents st' = drop (unat ci - st_base st) (st_ents st)
     \<and> ms_snapshot st' = ms_snapshot st \<and> ms_hard_state st' = ms_hard_state st"
proof -
  obtain d ds where w: "ms_entries st = d # ds" "st_base st = unat (e_index d)"
      "st_base_term st = e_term d" "st_ents st = ds" "contig (st_base st + 1) ds"
      "st_base st + length ds + 1 < 2 ^ 64"
    using assms(1) by (rule wf_storageE)
  obtain k where k: "storage_last_index st = Inr k" "unat k = st_base st + length ds"
    using storage_last_index_ok[OF assms(1)] w by auto
  define i where "i = ci - e_index d"
  define j where "j = unat ci - st_base st - 1"
  have i: "unat i = Suc j"
    using assms(2) w(2) by (simp add: i_def j_def unat_sub word_le_nat_alt)
  have j: "j < length ds" using assms(2,3) w(4) by (simp add: j_def)
  have i1: "unat (i + 1) = Suc (Suc j)" using i j w(6) by (subst unat_add_1) simp_all
  have idx: "unat (e_index (ds ! j)) = unat ci"
    using w(5) j assms(2) by (simp add: contig_def j_def)
  define d' where "d' = d\<lparr>e_index := e_index (ds ! j), e_term := e_term (ds ! j)\<rparr>"
  define st' where "st' = st\<lparr>ms_entries := d' # drop (Suc j) ds\<rparr>"
  have "vec_at (d # ds) i = Inr (ds ! j)" "vec_erase_front (d # ds) (i + 1) = Inr (drop (Suc j) ds)"
    using i i1 j by (simp_all add: vec_at_def vec_erase_front_def)
  moreover have "\<not> ci \<le> e_index d" "\<not> k < ci"
    using assms(2,3) w k by (simp_all add: word_le_nat_alt word_less_nat_alt)
  ultimately have eq: "storage_compact ci st = Inr (st', Ok)"
    using w(1) k(1)
    by (simp add: storage_compact_def Let_def i_def[symmetric] st'_def d'_def)
  have "contig (unat ci + 1) (drop (Suc j) ds)"
    using contig_drop[OF w(5), of "Suc j"] assms(2) by (simp add: j_def)
  then have "wf_storage st'"
    using idx w(6) assms(2,3) w(4) j 
    by (intro wf_storageI[of st' d' "drop (Suc j) ds"]) (auto simp: st'_def d'_def j_def)
  moreover have "Suc j = unat ci - st_base st" using assms(2) by (simp add: j_def)
  ultimately show ?thesis using eq idx w assms(2,3)
    by (auto simp: st'_def d'_def st_base_def st_base_term_def st_ents_def term_at_def j_def)
qed

lemma storage_compact_refused:
  assumes "wf_storage st" and "unat ci \<le> st_base st"
  shows "storage_compact ci st = Inr (st, err_compacted)"
  using assms by (elim wf_storageE) (simp add: storage_compact_def word_le_nat_alt)

lemma storage_apply_snapshot_ok:
  assumes "unat (s_index s) + 1 < 2 ^ 64" and "s_index (ms_snapshot st) < s_index s"
  shows "\<exists>st'. storage_apply_snapshot s st = (st', Ok) \<and> wf_storage st'
    \<and> st_base st' = unat (s_index s) \<and> st_base_term st' = s_term s \<and> st_ents st' = []
    \<and> ms_snapshot st' = s \<and> ms_hard_state st' = ms_hard_state st"
  using assms
  by (auto simp: storage_apply_snapshot_def wf_storage_def st_base_def st_base_term_def st_ents_def
      Entry_def)

section \<open>The error branches\<close>

lemma storage_append_gap:
  assumes "wf_storage st" and "es \<noteq> []" and "contig k es" and "k + length es < 2 ^ 64"
    and "k > st_base st + length (st_ents st) + 1"
  shows "storage_append es st = Inl (Fatal ''missing log entry'')"
proof -
  obtain d ds where w: "ms_entries st = d # ds" "st_base st = unat (e_index d)" "st_ents st = ds"
      "st_base st + length ds + 1 < 2 ^ 64"
    using assms(1) by (rule wf_storageE)
  obtain e0 rest where es: "es = e0 # rest" using assms(2) by (cases es) auto
  have k: "unat (e_index e0) = k" using assms(3) es by simp
  obtain f where f: "storage_first_index st = Inr f" "unat f = st_base st + 1"
    using storage_first_index_ok[OF assms(1)] by auto
  obtain l where l: "storage_last_index st = Inr l" using storage_last_index_ok[OF assms(1)] by auto
  have eq: "e_index e0 + vec_size es - 1 = e_index e0 + of_nat (length rest)"
    using es by (simp add: vec_size_def)
  have "unat (e_index e0 + of_nat (length rest)) = k + length rest"
    using es k assms(4) by (simp add: unat_add_of_nat)
  then have "\<not> e_index e0 + vec_size es - 1 < f" "\<not> f > e_index e0"
    unfolding eq using assms(5) f(2) k by (simp_all add: word_less_nat_alt)
  then have tail: "storage_append es st = storage_append_tail es st"
    using es f(1) by (simp add: storage_append_def)
  have off: "unat (e_index e0 - e_index d) = k - unat (e_index d)"
    using assms(5) w(2) k by (simp add: unat_sub word_le_nat_alt)
  have sz: "unat (vec_size (d # ds)) = length ds + 1"
    using w by (subst vec_size_unat) simp_all
  have "\<not> vec_size (d # ds) > e_index e0 - e_index d" "vec_size (d # ds) \<noteq> e_index e0 - e_index d"
    using off sz assms(5) w(2,3) by (simp_all add: word_less_nat_alt word_unat_eq_iff)
  then show ?thesis using tail es w(1) l by (simp add: storage_append_tail_def Let_def)
qed

lemma storage_compact_beyond:
  assumes "wf_storage st" and "unat ci > st_base st + length (st_ents st)"
  shows "storage_compact ci st = Inl (Fatal ''compact is out of bound lastindex'')"
proof -
  obtain d ds where w: "ms_entries st = d # ds" "st_base st = unat (e_index d)" "st_ents st = ds"
    using assms(1) by (rule wf_storageE)
  obtain l where l: "storage_last_index st = Inr l" "unat l = st_base st + length ds"
    using storage_last_index_ok[OF assms(1)] w by auto
  have "\<not> ci \<le> e_index d" "l < ci"
    using assms(2) w l by (simp_all add: word_le_nat_alt word_less_nat_alt)
  then show ?thesis using w(1) l(1) by (simp add: storage_compact_def Let_def)
qed

section \<open>Reachable storages\<close>

text \<open>
  The storages the server can produce: a fresh \<open>MemoryStorage\<close> and what its operations return,
  for batches of entries with consecutive indices.
\<close>

inductive storage_reachable :: "mem_storage \<Rightarrow> bool" where
  fresh: "storage_reachable MemoryStorage"
| appended: "storage_reachable st \<Longrightarrow> contig k es \<Longrightarrow> k + length es < 2 ^ 64 \<Longrightarrow>
    storage_append es st = Inr (st', s) \<Longrightarrow> storage_reachable st'"
| compacted: "storage_reachable st \<Longrightarrow> storage_compact ci st = Inr (st', s) \<Longrightarrow>
    storage_reachable st'"
| snapshotted: "storage_reachable st \<Longrightarrow>
    storage_create_snapshot i cs data st = Inr (st', snap, s) \<Longrightarrow> storage_reachable st'"
| restored: "storage_reachable st \<Longrightarrow> unat (s_index snap) + 1 < 2 ^ 64 \<Longrightarrow>
    storage_apply_snapshot snap st = (st', s) \<Longrightarrow> storage_reachable st'"
| hard_state: "storage_reachable st \<Longrightarrow> storage_reachable (storage_set_hard_state hs st)"

lemma storage_append_wf:
  assumes "wf_storage st" "contig k es" "k + length es < 2 ^ 64" "storage_append es st = Inr (st', s)"
  shows "wf_storage st'"
proof (cases "es \<noteq> [] \<and> k > st_base st + length (st_ents st) + 1")
  case True
  then show ?thesis using storage_append_gap[OF assms(1) _ assms(2,3)] assms(4) by simp
next
  case False
  then show ?thesis
    using storage_append_ok[OF assms(1,2) _ assms(3)] assms(1,4)
    by (cases es) (auto simp: storage_append_def)
qed

lemma storage_compact_wf:
  assumes "wf_storage st" "storage_compact ci st = Inr (st', s)"
  shows "wf_storage st'"
  using storage_compact_ok[OF assms(1), of ci] storage_compact_refused[OF assms(1), of ci]
    storage_compact_beyond[OF assms(1), of ci] assms
  by (cases "st_base st < unat ci"; cases "unat ci \<le> st_base st + length (st_ents st)") auto

lemma storage_create_snapshot_frame:
  assumes "storage_create_snapshot i cs data st = Inr (st', snap, s)"
  shows "ms_entries st' = ms_entries st" "ms_hard_state st' = ms_hard_state st"
  using assms by (auto simp: storage_create_snapshot_def Let_def rbind_Inr_iff split: if_splits)

lemma wf_storage_frame: "ms_entries st' = ms_entries st \<Longrightarrow> wf_storage st' = wf_storage st"
  by (simp add: wf_storage_def)

lemma storage_term_total:
  assumes "wf_storage st"
  shows "storage_term st i =
     (if unat i < st_base st then Inr (Inl err_compacted)
      else if st_base st + length (st_ents st) < unat i then Inr (Inl err_unavailable)
      else Inr (Inr (e_term (ms_entries st ! (unat i - st_base st)))))"
proof -
  have "ms_entries st = hd (ms_entries st) # st_ents st"
    using assms by (simp add: wf_storage_def st_ents_def)
  then have "term_at (st_base st) (st_base_term st) (st_ents st) (unat i) = e_term (ms_entries st ! (unat i - st_base st))"
    if "st_base st \<le> unat i" "unat i \<le> st_base st + length (st_ents st)"
    using that by (auto simp: term_at_def st_base_term_def nth_Cons' dest: arg_cong [where f = "\<lambda>l. l ! (unat i - st_base st)"])
  then show ?thesis
    using storage_term_compacted[OF assms, of i] storage_term_unavailable[OF assms, of i] storage_term_ok[OF assms, of i] by auto
qed

lemma storage_entries_compacted:
  assumes "wf_storage st" and "unat low \<le> st_base st" and "low < high"
  shows "storage_entries st low high mx = Inr (Inl err_compacted)"
  using assms by (elim wf_storageE) (simp add: storage_entries_def Let_def word_le_nat_alt)

text \<open>
  C25: Every storage reachable from a fresh \<open>MemoryStorage\<close> by its operations keeps the index
  discipline of \<open>entries_\<close>: the vector is never empty and \<open>entries_[i]\<close> has log position
  \<open>entries_[0]->index + i\<close>. In such a storage every question has its exact answer: the first index is
  the position after the dummy entry and the last index that of the last entry; \<open>term\<close> is for each
  position that of its entry, the compaction error below the dummy entry and the unavailability error
  above the last one; \<open>entries\<close> is for each range after the dummy entry that part of the vector, cut at
  the size limit, and the compaction error for a range that starts at or below the dummy entry.
\<close>

theorem storage_reachable_wf:
  assumes "storage_reachable st"
  shows "wf_storage st
     \<and> (\<exists>f l. storage_first_index st = Inr f \<and> unat f = st_base st + 1
          \<and> storage_last_index st = Inr l \<and> unat l = st_base st + length (st_ents st))
     \<and> (\<forall>i. storage_term st i =
          (if unat i < st_base st then Inr (Inl err_compacted)
           else if st_base st + length (st_ents st) < unat i then Inr (Inl err_unavailable)
           else Inr (Inr (e_term (ms_entries st ! (unat i - st_base st))))))
     \<and> (\<forall>low high mx. low < high \<and> unat high \<le> st_base st + length (st_ents st) + 1 \<longrightarrow>
          storage_entries st low high mx =
            (if unat low \<le> st_base st then Inr (Inl err_compacted)
             else Inr (Inr (entry_limit_size mx (take (unat high - unat low) (drop (unat low - st_base st) (ms_entries st)))))))"
proof -
  have wf: "wf_storage st"
    using assms
  proof (induction rule: storage_reachable.induct)
    case fresh
    show ?case by (rule wf_MemoryStorage)
  next
    case (appended st k es st' s)
    then show ?case by (blast intro: storage_append_wf)
  next
    case (compacted st ci st' s)
    then show ?case by (blast intro: storage_compact_wf)
  next
    case (snapshotted st i cs data st' snap s)
    then show ?case using wf_storage_frame storage_create_snapshot_frame(1) by blast
  next
    case (restored st snap st' s)
    then show ?case using storage_apply_snapshot_ok[of snap st]
      by (cases "s_index (ms_snapshot st) < s_index snap")
        (auto simp: storage_apply_snapshot_def not_less split: if_splits)
  next
    case (hard_state st hs)
    then show ?case by (simp add: storage_set_hard_state_def wf_storage_def)
  qed
  have dr: "drop (unat low - st_base st) (ms_entries st) = drop (unat low - (st_base st + 1)) (st_ents st)"
    if "st_base st < unat low" for low
    using that by (simp add: st_ents_def drop_Suc [symmetric] Suc_diff_Suc)
  have "storage_entries st low high mx =
      (if unat low \<le> st_base st then Inr (Inl err_compacted)
       else Inr (Inr (entry_limit_size mx (take (unat high - unat low) (drop (unat low - st_base st) (ms_entries st))))))"
    if "low < high" "unat high \<le> st_base st + length (st_ents st) + 1" for low high mx
    using that storage_entries_ok[OF wf, of low high] storage_entries_compacted[OF wf, of low high] dr[of low] by (simp del: One_nat_def)
  then show ?thesis using wf storage_term_total[OF wf] stor.first_ok[OF wf] stor.last_ok[OF wf] by blast
qed

theorem storage_reachable_wf_witness:
  "\<exists>st. storage_reachable st \<and> wf_storage st \<and> storage_term st 2 = Inr (Inr 1)"
proof -
  let ?es = "[Entry\<lparr>e_index := 1, e_term := 1\<rparr>, Entry\<lparr>e_index := 2, e_term := 1\<rparr>]"
  let ?st = "MemoryStorage\<lparr>ms_entries := Entry # ?es\<rparr>"
  have "storage_append ?es MemoryStorage = Inr (?st, Ok)"
    by (simp add: storage_append_def storage_append_tail_def storage_first_index_def
        MemoryStorage_def Entry_def vec_size_def Let_def)
  then have "storage_reachable ?st"
    by (intro storage_reachable.appended[OF storage_reachable.fresh, of 1 ?es]) simp_all
  then show ?thesis using storage_reachable_wf[of ?st]
    by (intro exI[of _ ?st])
      (simp add: st_base_def st_ents_def MemoryStorage_def Entry_def)
qed

section \<open>Reading back\<close>

text \<open>
  C24: What is appended can be read back. Appending a batch of consecutive entries that starts
  after the compacted prefix and leaves no gap succeeds; afterwards the batch is the end of the
  log, reading its range returns exactly the batch, and the entries before it are kept: every earlier
  position has the term it had before and every earlier range reads back the same entries, contents
  included.
\<close>

theorem storage_append_read_back:
  assumes "wf_storage st" and "es \<noteq> []" and "contig k es" and "st_base st < k"
    and "k \<le> st_base st + length (st_ents st) + 1" and "k + length es < 2 ^ 64"
  shows "\<exists>st'. storage_append es st = Inr (st', Ok) \<and> wf_storage st'
     \<and> storage_last_index st' = Inr (of_nat (k + length es - 1))
     \<and> storage_entries st' (of_nat k) (of_nat (k + length es)) (- 1) = Inr (Inr es)
     \<and> st_base st' = st_base st \<and> st_ents st' = take (k - (st_base st + 1)) (st_ents st) @ es
     \<and> (\<forall>i. unat i < k \<longrightarrow> storage_term st' i = storage_term st i)
     \<and> (\<forall>low high mx. low < high \<and> unat high \<le> k \<longrightarrow> storage_entries st' low high mx = storage_entries st low high mx)"
proof -
  obtain st' where st': "storage_append es st = Inr (st', Ok)" "wf_storage st'"
      "st_base st' = st_base st" "st_base_term st' = st_base_term st"
      "st_ents st' = splice (st_base st) (st_ents st) es"
    using storage_append_ok[OF assms(1,3,5,6)] by auto
  have k: "unat (e_index (hd es)) = k" using contig_hd assms(2,3) by blast
  have ents: "st_ents st' = take (k - (st_base st + 1)) (st_ents st) @ es"
    using st'(5) assms(2,4) k by (cases es) (simp_all add: splice_def Let_def)
  have len: "length (st_ents st') = k - (st_base st + 1) + length es"
    using ents assms(5) by simp
  obtain l where l: "storage_last_index st' = Inr l" "unat l = k + length es - 1"
    using stor.last_ok[OF st'(2)] st'(3) len assms(4) by auto
  have "l = of_nat (k + length es - 1)" 
    using l(2) assms(6) by (simp add: word_unat_eq_iff del: of_nat_add of_nat_diff)
  moreover have "storage_entries st' (of_nat k) (of_nat (k + length es)) (- 1)
      = Inr (Inr (take (length es) (drop (k - (st_base st + 1)) (st_ents st'))))"
    using assms(2,4,6) st'(3) len
    by (subst storage_entries_ok[OF st'(2)]) (simp_all add: word_less_nat_alt del: of_nat_add)
  moreover have "take (length es) (drop (k - (st_base st + 1)) (st_ents st')) = es"
    using ents assms(4,5) by simp
  moreover have "storage_term st' i = storage_term st i" if "unat i < k" for i
  proof (cases "unat i < st_base st")
    case True
    then show ?thesis using storage_term_compacted assms(1) st'(2,3) by simp
  next
    case False
    then have "term_at (st_base st) (st_base_term st) (st_ents st') (unat i)
        = term_at (st_base st) (st_base_term st) (st_ents st) (unat i)"
      using that assms(5) ents by (auto simp: term_at_def nth_append)
    then show ?thesis
      using stor.term_ok[OF st'(2), of i] stor.term_ok[OF assms(1), of i] False that assms(5) len st'(3,4)
      by simp
  qed
  moreover have "storage_entries st' low high mx = storage_entries st low high mx" if "low < high" "unat high \<le> k" for low high mx
  proof (cases "unat low \<le> st_base st")
    case True
    then show ?thesis using storage_entries_compacted[OF assms(1)] storage_entries_compacted[OF st'(2)] st'(3) that by simp
  next
    case False
    have lh: "unat low < unat high" using that(1) by (simp add: word_less_nat_alt)
    have "take (unat high - unat low) (drop (unat low - (st_base st + 1)) (st_ents st'))
        = take (unat high - unat low) (drop (unat low - (st_base st + 1)) (st_ents st))"
      unfolding ents using lh that(2) False assms(4,5) by (simp add: drop_take min_def)
    then show ?thesis
      using storage_entries_ok[OF assms(1), of low high mx] storage_entries_ok[OF st'(2), of low high mx] False that st'(3) len assms(2,4,5)
      by simp
  qed
  ultimately show ?thesis using st'(1-3) l(1) ents by auto
qed

theorem storage_append_read_back_witness:
  "\<exists>st'. storage_append [Entry\<lparr>e_index := 1, e_term := 3\<rparr>] MemoryStorage = Inr (st', Ok)
     \<and> storage_entries st' 1 2 (- 1) = Inr (Inr [Entry\<lparr>e_index := 1, e_term := 3\<rparr>])"
  using storage_append_read_back[OF wf_MemoryStorage, of "[Entry\<lparr>e_index := 1, e_term := 3\<rparr>]" 1]
  by (auto simp: st_base_def st_ents_def MemoryStorage_def Entry_def)

text \<open>
  Compaction forgets only what it says. Compacting at a position inside the log succeeds and
  keeps the last index and the term of the compaction position and of every later one; earlier
  positions now report the compaction error. Compacting at or below the compacted prefix is refused
  without effect.
\<close>

lemma storage_compact_keeps:
  assumes "wf_storage st" and "unat ci \<le> st_base st + length (st_ents st)"
  shows "if unat ci \<le> st_base st then storage_compact ci st = Inr (st, err_compacted)
     else \<exists>st'. storage_compact ci st = Inr (st', Ok) \<and> wf_storage st'
       \<and> storage_first_index st' = Inr (ci + 1) \<and> storage_last_index st' = storage_last_index st
       \<and> (\<forall>i. storage_term st' i = (if i < ci then Inr (Inl err_compacted) else storage_term st i))"
proof (cases "unat ci \<le> st_base st")
  case False
  then obtain st' where st': "storage_compact ci st = Inr (st', Ok)" "wf_storage st'"
      "st_base st' = unat ci"
      "st_base_term st' = term_at (st_base st) (st_base_term st) (st_ents st) (unat ci)"
      "st_ents st' = drop (unat ci - st_base st) (st_ents st)"
    using storage_compact_ok[OF assms(1) _ assms(2)] by auto
  obtain f where f: "storage_first_index st' = Inr f" "unat f = unat ci + 1"
    using stor.first_ok[OF st'(2)] st'(3) by auto
  have fb: "f = ci + 1"
    using f(2) stor.bounded[OF st'(2)] st'(3) by (simp add: word_unat_eq_iff unat_add_1)
  obtain k l where l: "storage_last_index st = Inr k" "storage_last_index st' = Inr l"
      "unat k = st_base st + length (st_ents st)" "unat l = unat ci + length (st_ents st')"
    using stor.last_ok[OF st'(2)] stor.last_ok[OF assms(1)] st'(3) by auto
  have "unat l = unat k" using l st'(5) False assms(2) by simp
  then have lk: "l = k" by (simp add: word_unat_eq_iff)
  have "storage_term st' i = storage_term st i" if "\<not> i < ci" for i
  proof (cases "unat i \<le> st_base st + length (st_ents st)")
    case True
    have ge: "unat ci \<le> unat i" using that by (simp add: word_less_nat_alt)
    have "term_at (unat ci) (st_base_term st') (st_ents st') (unat i)
        = term_at (st_base st) (st_base_term st) (st_ents st) (unat i)"
      using ge False True st'(4,5) by (auto simp: term_at_def)
    then show ?thesis
      using stor.term_ok[OF st'(2), of i] stor.term_ok[OF assms(1), of i] True ge False st'(3,5)
      by simp
  next
    case False': False
    then show ?thesis
      using storage_term_unavailable[OF st'(2), of i] storage_term_unavailable[OF assms(1), of i]
        st'(3,5) False assms(2) by simp
  qed
  moreover have "storage_term st' i = Inr (Inl err_compacted)" if "i < ci" for i
    using storage_term_compacted[OF st'(2)] that st'(3) by (simp add: word_less_nat_alt)
  ultimately show ?thesis using False st'(1,2) f(1) fb l(1,2) lk by auto
qed (use storage_compact_refused[OF assms(1)] in simp)

end
