(* ===== verification/Raft_Unstable.thy ===== *)
theory Raft_Unstable
  imports Raft_Storage
begin

text \<open>
  \<open>Unstable\<close>, src/raft-kv/raft/unstable.h and unstable.cpp: the log entries (and possibly a
  snapshot) that are not yet in stable storage. \<open>entries_[i]\<close> has log position \<open>offset_ + i\<close>.
\<close>

section \<open>State and operations\<close>

record unstable =
  u_snapshot :: "snapshot option"
  u_entries :: "entry list"
  u_offset :: u64

definition Unstable :: "u64 \<Rightarrow> unstable" where
  "Unstable offset = \<lparr>u_snapshot = None, u_entries = [], u_offset = offset\<rparr>"

definition maybe_first_index :: "unstable \<Rightarrow> u64 option" where
  "maybe_first_index u =
     (case u_snapshot u of Some s \<Rightarrow> Some (s_index s + 1) | None \<Rightarrow> None)"

definition maybe_last_index :: "unstable \<Rightarrow> u64 option" where
  "maybe_last_index u =
     (if u_entries u \<noteq> [] then Some (u_offset u + vec_size (u_entries u) - 1)
      else case u_snapshot u of Some s \<Rightarrow> Some (s_index s) | None \<Rightarrow> None)"

definition maybe_term :: "unstable \<Rightarrow> u64 \<Rightarrow> u64 option res" where
  "maybe_term u idx =
     (if idx < u_offset u
      then Inr (case u_snapshot u of
                  None \<Rightarrow> None
                | Some s \<Rightarrow> if s_index s = idx then Some (s_term s) else None)
      else case maybe_last_index u of
             None \<Rightarrow> Inr None
           | Some lst \<Rightarrow>
               if idx > lst then Inr None
               else rbind (vec_at (u_entries u) (idx - u_offset u)) (\<lambda>e. Inr (Some (e_term e))))"

definition unstable_stable_to :: "u64 \<Rightarrow> u64 \<Rightarrow> unstable \<Rightarrow> unstable res" where
  "unstable_stable_to idx trm u =
     rbind (maybe_term u idx) (\<lambda>gt.
       case gt of
         None \<Rightarrow> Inr u
       | Some t \<Rightarrow>
           if t = trm \<and> idx \<ge> u_offset u
           then rbind (vec_erase_front (u_entries u) (idx + 1 - u_offset u)) (\<lambda>es.
                  Inr (u\<lparr>u_entries := es, u_offset := idx + 1\<rparr>))
           else Inr u)"

definition unstable_stable_snap_to :: "u64 \<Rightarrow> unstable \<Rightarrow> unstable" where
  "unstable_stable_snap_to idx u =
     (case u_snapshot u of
        Some s \<Rightarrow> if s_index s = idx then u\<lparr>u_snapshot := None\<rparr> else u
      | None \<Rightarrow> u)"

definition unstable_restore :: "snapshot \<Rightarrow> unstable \<Rightarrow> unstable" where
  "unstable_restore s u = u\<lparr>u_offset := s_index s + 1, u_entries := [], u_snapshot := Some s\<rparr>"

definition unstable_slice :: "unstable \<Rightarrow> u64 \<Rightarrow> u64 \<Rightarrow> entry list res" where
  "unstable_slice u low high =
     rbind (rassert ''high > low'' (high > low)) (\<lambda>_.
       let upper = u_offset u + vec_size (u_entries u) in
       if low < u_offset u \<or> high > upper then Inl (Fatal ''unstable.slice out of bound'')
       else vec_range (u_entries u) (low - u_offset u) (high - u_offset u))"

definition truncate_and_append :: "entry list \<Rightarrow> unstable \<Rightarrow> unstable res" where
  "truncate_and_append es u =
     (case es of
        [] \<Rightarrow> Inr u
      | e0 # _ \<Rightarrow>
          let after = e_index e0 in
          if after = u_offset u + vec_size (u_entries u)
          then Inr (u\<lparr>u_entries := u_entries u @ es\<rparr>)
          else if after \<le> u_offset u
          then Inr (u\<lparr>u_offset := after, u_entries := es\<rparr>)
          else rbind (unstable_slice u (u_offset u) after) (\<lambda>kept.
                 Inr (u\<lparr>u_entries := kept @ es\<rparr>)))"

section \<open>Well-formed unstable tails\<close>

text \<open>
  The entries carry consecutive indices from \<open>offset_\<close> on; a pending snapshot ends right before
  \<open>offset_\<close>; position \<open>offset_ + size\<close> is representable.
\<close>

definition wf_unstable :: "unstable \<Rightarrow> bool" where
  "wf_unstable u \<longleftrightarrow>
     contig (unat (u_offset u)) (u_entries u)
     \<and> unat (u_offset u) + length (u_entries u) < 2 ^ 64 \<and> 0 < unat (u_offset u)
     \<and> (\<forall>s. u_snapshot u = Some s \<longrightarrow> unat (u_offset u) = unat (s_index s) + 1)"

lemma wf_unstableD:
  assumes "wf_unstable u"
  shows "contig (unat (u_offset u)) (u_entries u)"
    "unat (u_offset u) + length (u_entries u) < 2 ^ 64" "0 < unat (u_offset u)"
    "u_snapshot u = Some s \<Longrightarrow> unat (u_offset u) = unat (s_index s) + 1"
  using assms by (simp_all add: wf_unstable_def)

lemma maybe_first_index_ok:
  assumes "wf_unstable u"
  shows "case u_snapshot u of
      None \<Rightarrow> maybe_first_index u = None
    | Some s \<Rightarrow> maybe_first_index u = Some (s_index s + 1) \<and> unat (s_index s + 1) = unat (u_offset u)"
  using wf_unstableD[OF assms]
  by (auto simp: maybe_first_index_def unat_add_1 split: option.split)

lemma u_last_unat:
  assumes "wf_unstable u" and "u_entries u \<noteq> []"
  shows "unat (u_offset u + vec_size (u_entries u) - 1) = unat (u_offset u) + length (u_entries u) - 1"
proof -
  obtain e es where es: "u_entries u = e # es" using assms(2) by (cases "u_entries u") auto
  have eq: "u_offset u + vec_size (u_entries u) - 1 = u_offset u + of_nat (length es)"
    using es by (simp add: vec_size_def)
  show ?thesis unfolding eq using wf_unstableD(2)[OF assms(1)] es by (simp add: unat_add_of_nat)
qed

lemma u_upper_unat:
  assumes "wf_unstable u"
  shows "unat (u_offset u + vec_size (u_entries u)) = unat (u_offset u) + length (u_entries u)"
  using wf_unstableD(2)[OF assms] by (simp add: vec_size_def unat_add_of_nat)

lemma maybe_last_index_Some:
  assumes "wf_unstable u" and "u_entries u \<noteq> [] \<or> u_snapshot u \<noteq> None"
  shows "\<exists>k. maybe_last_index u = Some k \<and> unat k = unat (u_offset u) + length (u_entries u) - 1"
  using u_last_unat[OF assms(1)] wf_unstableD(4)[OF assms(1)] assms(2)
  by (auto simp: maybe_last_index_def)

lemma maybe_last_index_None:
  "u_entries u = [] \<Longrightarrow> u_snapshot u = None \<Longrightarrow> maybe_last_index u = None"
  by (simp add: maybe_last_index_def)

lemma maybe_term_entry:
  assumes "wf_unstable u" and "unat (u_offset u) \<le> unat i"
    and "unat i < unat (u_offset u) + length (u_entries u)"
  shows "maybe_term u i = Inr (Some (e_term (u_entries u ! (unat i - unat (u_offset u)))))"
proof -
  have ne: "u_entries u \<noteq> []" using assms(2,3) by auto
  have l: "maybe_last_index u = Some (u_offset u + vec_size (u_entries u) - 1)"
    using ne by (simp add: maybe_last_index_def)
  have "\<not> i < u_offset u" "\<not> i > u_offset u + vec_size (u_entries u) - 1"
    using assms(2,3) u_last_unat[OF assms(1) ne] by (simp_all add: word_less_nat_alt)
  moreover have "unat (i - u_offset u) = unat i - unat (u_offset u)"
    using assms(2) by (simp add: unat_sub word_le_nat_alt)
  moreover have "unat i - unat (u_offset u) < length (u_entries u)" using assms(2,3) by simp
  ultimately show ?thesis using l by (simp add: maybe_term_def vec_at_def)
qed

lemma maybe_term_beyond:
  assumes "wf_unstable u" and "unat (u_offset u) + length (u_entries u) \<le> unat i"
  shows "maybe_term u i = Inr None"
proof (cases "u_entries u = [] \<and> u_snapshot u = None")
  case True
  then show ?thesis by (simp add: maybe_term_def maybe_last_index_def)
next
  case False
  then obtain k where k: "maybe_last_index u = Some k"
      "unat k = unat (u_offset u) + length (u_entries u) - 1"
    using maybe_last_index_Some[OF assms(1)] by auto
  have "\<not> i < u_offset u" "i > k"
    using assms(2) k(2) wf_unstableD(3)[OF assms(1)] by (simp_all add: word_less_nat_alt)
  then show ?thesis using k(1) by (simp add: maybe_term_def)
qed

lemma maybe_term_below:
  assumes "unat i < unat (u_offset u)"
  shows "maybe_term u i = Inr (case u_snapshot u of
      None \<Rightarrow> None | Some s \<Rightarrow> if s_index s = i then Some (s_term s) else None)"
  using assms by (simp add: maybe_term_def word_less_nat_alt)

lemma unstable_slice_ok:
  assumes "wf_unstable u" and "unat (u_offset u) \<le> unat low" and "unat low < unat high"
    and "unat high \<le> unat (u_offset u) + length (u_entries u)"
  shows "unstable_slice u low high
    = Inr (take (unat high - unat low) (drop (unat low - unat (u_offset u)) (u_entries u)))"
proof -
  have "unat (low - u_offset u) = unat low - unat (u_offset u)"
    "unat (high - u_offset u) = unat high - unat (u_offset u)"
    using assms(2,3) by (simp_all add: unat_sub word_le_nat_alt)
  moreover have "\<not> low < u_offset u" "\<not> high > u_offset u + vec_size (u_entries u)" "low < high"
    using assms u_upper_unat[OF assms(1)] by (simp_all add: word_less_nat_alt)
  ultimately show ?thesis using assms
    by (auto simp: unstable_slice_def vec_range_def Let_def word_le_nat_alt)
qed

text \<open>
  The three branches of \<open>truncate_and_append\<close> compute one thing: keep the entries before the
  batch, then the batch; the offset moves back to the batch if that starts earlier.
\<close>

lemma truncate_and_append_ok:
  assumes "wf_unstable u" and "es \<noteq> []" and "contig k es"
    and "k \<le> unat (u_offset u) + length (u_entries u)" and "k + length es < 2 ^ 64"
  shows "\<exists>u'. truncate_and_append es u = Inr u' \<and> u_snapshot u' = u_snapshot u
     \<and> unat (u_offset u') = min (unat (u_offset u)) k
     \<and> u_entries u' = take (k - unat (u_offset u)) (u_entries u) @ es"
proof -
  obtain e0 rest where es: "es = e0 # rest" using assms(2) by (cases es) auto
  have k: "unat (e_index e0) = k" using assms(3) es by simp
  note up = u_upper_unat[OF assms(1)]
  consider (app) "e_index e0 = u_offset u + vec_size (u_entries u)"
    | (repl) "e_index e0 \<noteq> u_offset u + vec_size (u_entries u)" "e_index e0 \<le> u_offset u"
    | (cut) "e_index e0 \<noteq> u_offset u + vec_size (u_entries u)" "\<not> e_index e0 \<le> u_offset u"
    by blast
  then show ?thesis
  proof cases
    case app
    then have "k = unat (u_offset u) + length (u_entries u)" using up k by simp
    then show ?thesis using app es by (simp add: truncate_and_append_def)
  next
    case repl
    then have "k \<le> unat (u_offset u)" using k by (simp add: word_le_nat_alt)
    then show ?thesis using repl es k by (simp add: truncate_and_append_def)
  next
    case cut
    then have gt: "unat (u_offset u) < k" using k by (simp add: word_le_nat_alt)
    have "unstable_slice u (u_offset u) (e_index e0)
        = Inr (take (k - unat (u_offset u)) (u_entries u))"
      using unstable_slice_ok[OF assms(1), of "u_offset u" "e_index e0"] gt k assms(4) by simp
    then show ?thesis using cut es gt by (simp add: truncate_and_append_def)
  qed
qed

lemma wf_truncate_and_append:
  assumes "wf_unstable u" "es \<noteq> []" "contig k es" "0 < k"
    "k \<le> unat (u_offset u) + length (u_entries u)" "k + length es < 2 ^ 64"
    "\<And>s. u_snapshot u = Some s \<Longrightarrow> unat (s_index s) < k"
    "truncate_and_append es u = Inr u'"
  shows "wf_unstable u'"
proof -
  note w = wf_unstableD[OF assms(1)]
  have u': "u_snapshot u' = u_snapshot u" "unat (u_offset u') = min (unat (u_offset u)) k"
      "u_entries u' = take (k - unat (u_offset u)) (u_entries u) @ es"
    using truncate_and_append_ok[OF assms(1,2,3,5,6)] assms(8) by auto
  have "contig (unat (u_offset u')) (u_entries u')"
  proof (cases "k \<le> unat (u_offset u)")
    case False
    then have "unat (u_offset u) + length (take (k - unat (u_offset u)) (u_entries u)) = k"
      using assms(5) by simp
    then show ?thesis using w(1) assms(3) u' False by (simp add: contig_append contig_take)
  qed (use u' assms(3) in simp)
  moreover have "unat (u_offset u') + length (u_entries u') < 2 ^ 64"
    using assms(5,6) u' by (auto simp: min_def)
  moreover have "0 < unat (u_offset u')" using w(3) u'(2) assms(4) by simp
  moreover have "unat (u_offset u') = unat (s_index s) + 1" if "u_snapshot u' = Some s" for s
    using w(4)[of s] assms(7)[of s] that u'(1,2) by simp
  ultimately show ?thesis unfolding wf_unstable_def by blast
qed

lemma truncate_and_append_gap:
  assumes "wf_unstable u" and "es \<noteq> []" and "contig k es"
    and "k > unat (u_offset u) + length (u_entries u)"
  shows "truncate_and_append es u = Inl (Fatal ''unstable.slice out of bound'')"
proof -
  obtain e0 rest where es: "es = e0 # rest" using assms(2) by (cases es) auto
  have k: "unat (e_index e0) = k" using assms(3) es by simp
  note up = u_upper_unat[OF assms(1)]
  have "e_index e0 \<noteq> u_offset u + vec_size (u_entries u)" "\<not> e_index e0 \<le> u_offset u"
    "e_index e0 > u_offset u + vec_size (u_entries u)" "u_offset u < e_index e0"
    using up assms(4) k by (auto simp: word_le_nat_alt word_less_nat_alt)
  then show ?thesis using es by (simp add: truncate_and_append_def unstable_slice_def Let_def)
qed

lemma wf_unstable_restore:
  "unat (s_index s) + 1 < 2 ^ 64 \<Longrightarrow> wf_unstable (unstable_restore s u)"
  by (simp add: wf_unstable_def unstable_restore_def unat_add_1)

lemma wf_unstable_Unstable: "0 < unat off \<Longrightarrow> wf_unstable (Unstable off)"
  using unat_u64_bound[of off] by (simp add: wf_unstable_def Unstable_def)

text \<open>\<open>stable_to\<close> drops the entries up to an index whose term it recognises, and nothing else.\<close>

lemma unstable_stable_to_hit:
  assumes "wf_unstable u" and "unat (u_offset u) \<le> unat i"
    and "unat i < unat (u_offset u) + length (u_entries u)"
    and "e_term (u_entries u ! (unat i - unat (u_offset u))) = t"
  shows "unstable_stable_to i t u
    = Inr (u\<lparr>u_entries := drop (unat i + 1 - unat (u_offset u)) (u_entries u), u_offset := i + 1\<rparr>)"
proof -
  have i1: "unat (i + 1) = unat i + 1"
    using wf_unstableD(2)[OF assms(1)] assms(3) by (simp add: unat_add_1)
  have "unat (i + 1 - u_offset u) = unat i + 1 - unat (u_offset u)"
    using assms(2) i1 by (simp add: unat_sub word_le_nat_alt)
  then have "vec_erase_front (u_entries u) (i + 1 - u_offset u)
      = Inr (drop (unat i + 1 - unat (u_offset u)) (u_entries u))"
    using assms(3) by (simp add: vec_erase_front_def)
  moreover have "u_offset u \<le> i" using assms(2) by (simp add: word_le_nat_alt)
  ultimately show ?thesis using maybe_term_entry[OF assms(1,2,3)] assms(4)
    by (simp add: unstable_stable_to_def)
qed

lemma unstable_stable_to_miss:
  assumes "wf_unstable u"
    and "\<not> (unat (u_offset u) \<le> unat i \<and> unat i < unat (u_offset u) + length (u_entries u)
           \<and> e_term (u_entries u ! (unat i - unat (u_offset u))) = t)"
  shows "unstable_stable_to i t u = Inr u"
proof -
  consider (below) "unat i < unat (u_offset u)"
    | (mid) "unat (u_offset u) \<le> unat i" "unat i < unat (u_offset u) + length (u_entries u)"
    | (beyond) "unat (u_offset u) + length (u_entries u) \<le> unat i" by linarith
  then show ?thesis
  proof cases
    case below
    then have "\<not> u_offset u \<le> i" by (simp add: word_le_nat_alt)
    then show ?thesis using maybe_term_below[OF below]
      by (auto simp: unstable_stable_to_def split: option.split)
  next
    case mid
    then show ?thesis using maybe_term_entry[OF assms(1) mid] assms(2)
      by (simp add: unstable_stable_to_def)
  next
    case beyond
    then show ?thesis using maybe_term_beyond[OF assms(1)] by (simp add: unstable_stable_to_def)
  qed
qed

end
