(* ===== verification/Raft_Log.thy ===== *)
theory Raft_Log
  imports Raft_Unstable
begin

text \<open>
  \<open>RaftLog\<close>, src/raft-kv/raft/raft_log.h and raft_log.cpp: the log of a node, made of the stable
  storage and the unstable tail, with the commit and apply positions.

  The class reads the storage through a pointer it shares with the server; the only implementation
  of the \<open>Storage\<close> interface is \<open>MemoryStorage\<close>, so the log record holds the storage itself,
  and the server's writes to the storage are updates of that field.
\<close>

section \<open>State and operations\<close>

record raft_log =
  l_storage :: mem_storage
  l_unstable :: unstable
  l_committed :: u64
  l_applied :: u64
  l_max_next_ents_size :: u64

definition unlimited :: u64 where
  "unlimited = - 1"

definition RaftLog :: "mem_storage \<Rightarrow> u64 \<Rightarrow> raft_log res" where
  "RaftLog st max_next_ents_size =
     rbind (storage_first_index st) (\<lambda>fst_ix.
     rbind (storage_last_index st) (\<lambda>lst.
       Inr \<lparr>l_storage = st, l_unstable = Unstable (lst + 1), l_committed = fst_ix - 1,
            l_applied = fst_ix - 1, l_max_next_ents_size = max_next_ents_size\<rparr>))"

definition log_first_index :: "raft_log \<Rightarrow> u64 res" where
  "log_first_index l =
     (case maybe_first_index (l_unstable l) of
        Some i \<Rightarrow> Inr i
      | None \<Rightarrow> storage_first_index (l_storage l))"

definition log_last_index :: "raft_log \<Rightarrow> u64 res" where
  "log_last_index l =
     (case maybe_last_index (l_unstable l) of
        Some i \<Rightarrow> Inr i
      | None \<Rightarrow> storage_last_index (l_storage l))"

text \<open>\<open>term\<close>: a position outside the log has term 0 and status ok.\<close>

definition log_term :: "raft_log \<Rightarrow> u64 \<Rightarrow> u64 stat res" where
  "log_term l idx =
     rbind (log_first_index l) (\<lambda>fst_ix.
     rbind (log_last_index l) (\<lambda>lst.
       if idx < fst_ix - 1 \<or> idx > lst then Inr (Inr 0)
       else rbind (maybe_term (l_unstable l) idx) (\<lambda>t.
         case t of
           Some t \<Rightarrow> Inr (Inr t)
         | None \<Rightarrow> storage_term (l_storage l) idx)))"

definition match_term :: "raft_log \<Rightarrow> u64 \<Rightarrow> u64 \<Rightarrow> bool res" where
  "match_term l idx t =
     rbind (log_term l idx) (\<lambda>r.
       Inr (case r of Inl _ \<Rightarrow> False | Inr t' \<Rightarrow> t = t'))"

definition last_term :: "raft_log \<Rightarrow> u64 res" where
  "last_term l =
     rbind (log_last_index l) (\<lambda>lst.
     rbind (log_term l lst) (\<lambda>r.
       case r of Inl _ \<Rightarrow> Inl (Assertion ''status.is_ok()'') | Inr t \<Rightarrow> Inr t))"

definition is_up_to_date :: "raft_log \<Rightarrow> u64 \<Rightarrow> u64 \<Rightarrow> bool res" where
  "is_up_to_date l lasti trm =
     rbind (last_term l) (\<lambda>lt.
       if trm > lt then Inr True
       else if trm = lt then rbind (log_last_index l) (\<lambda>lst. Inr (lasti \<ge> lst))
       else Inr False)"

fun find_conflict :: "raft_log \<Rightarrow> entry list \<Rightarrow> u64 res" where
  "find_conflict l [] = Inr 0"
| "find_conflict l (e # es) =
     rbind (match_term l (e_index e) (e_term e)) (\<lambda>m.
       if m then find_conflict l es
       else rbind (log_last_index l) (\<lambda>lst.
         if e_index e < lst
         then rbind (log_term l (e_index e)) (\<lambda>_. Inr (e_index e))
         else Inr (e_index e)))"

definition log_append :: "entry list \<Rightarrow> raft_log \<Rightarrow> (raft_log \<times> u64) res" where
  "log_append es l =
     (case es of
        [] \<Rightarrow> rbind (log_last_index l) (\<lambda>lst. Inr (l, lst))
      | e0 # _ \<Rightarrow>
          let after = e_index e0 - 1 in
          if after < l_committed l then Inl (Fatal ''after is out of range [committed]'')
          else rbind (truncate_and_append es (l_unstable l)) (\<lambda>u.
            let l' = l\<lparr>l_unstable := u\<rparr>
            in rbind (log_last_index l') (\<lambda>lst. Inr (l', lst))))"

definition commit_to :: "u64 \<Rightarrow> raft_log \<Rightarrow> raft_log res" where
  "commit_to to_commit l =
     (if l_committed l < to_commit
      then rbind (log_last_index l) (\<lambda>lst.
        if lst < to_commit then Inl (Fatal ''to_commit is out of range [lastIndex]'')
        else Inr (l\<lparr>l_committed := to_commit\<rparr>))
      else Inr l)"

text \<open>\<open>maybe_append\<close> returns the last new index, or \<open>None\<close> where the code sets \<open>ok\<close> to false.\<close>

definition log_maybe_append ::
    "u64 \<Rightarrow> u64 \<Rightarrow> u64 \<Rightarrow> entry list \<Rightarrow> raft_log \<Rightarrow> (raft_log \<times> u64 option) res" where
  "log_maybe_append idx trm committed es l =
     rbind (match_term l idx trm) (\<lambda>m.
       if m
       then let lastnewi = idx + vec_size es in
         rbind (find_conflict l es) (\<lambda>ci.
         rbind (if ci = 0 then Inr l
                else if ci \<le> l_committed l
                then Inl (Fatal ''entry conflict with committed entry'')
                else rbind (vec_erase_front es (ci - (idx + 1))) (\<lambda>es'.
                     rbind (log_append es' l) (\<lambda>(l', _). Inr l'))) (\<lambda>l'.
         rbind (commit_to (min committed lastnewi) l') (\<lambda>l''.
           Inr (l'', Some lastnewi))))
       else Inr (l, None))"

definition must_check_out_of_bounds :: "raft_log \<Rightarrow> u64 \<Rightarrow> u64 \<Rightarrow> status res" where
  "must_check_out_of_bounds l low high =
     rbind (rassert ''high >= low'' (high \<ge> low)) (\<lambda>_.
     rbind (log_first_index l) (\<lambda>fst_ix.
       if low < fst_ix then Inr err_compacted
       else rbind (log_last_index l) (\<lambda>lst.
         let len = lst + 1 - fst_ix in
         if low < fst_ix \<or> high > fst_ix + len then Inl (Fatal ''slice out of bound'')
         else Inr Ok)))"

text \<open>
  \<open>slice\<close> fills a vector that every caller passes empty: first from storage, cut there at
  \<open>max_size\<close>; if that part came back complete, the unstable part follows and the whole is cut.
\<close>

definition log_slice :: "raft_log \<Rightarrow> u64 \<Rightarrow> u64 \<Rightarrow> u64 \<Rightarrow> entry list stat res" where
  "log_slice l low high max_size =
     rbind (must_check_out_of_bounds l low high) (\<lambda>s.
       if \<not> is_ok s then Inr (Inl s)
       else if low = high then Inr (Inr [])
       else
         let off = u_offset (l_unstable l);
             finish = (\<lambda>es. rbind (if high > off then unstable_slice (l_unstable l) (max low off) high
                                   else Inr [])
                              (\<lambda>us. Inr (Inr (entry_limit_size max_size (es @ us)))))
         in if low < off
            then rbind (storage_entries (l_storage l) low (min high off) max_size) (\<lambda>r.
                   case r of
                     Inl s \<Rightarrow> Inr (Inl s)
                   | Inr es \<Rightarrow>
                       if vec_size es < min high off - low then Inr (Inr es) else finish es)
            else finish [])"

definition log_entries :: "raft_log \<Rightarrow> u64 \<Rightarrow> u64 \<Rightarrow> entry list stat res" where
  "log_entries l idx max_size =
     rbind (log_last_index l) (\<lambda>lst.
       if idx > lst then Inr (Inr [])
       else log_slice l idx (lst + 1) max_size)"

definition next_entries :: "raft_log \<Rightarrow> entry list res" where
  "next_entries l =
     rbind (log_first_index l) (\<lambda>fst_ix.
       let off = max (l_applied l + 1) fst_ix in
       if l_committed l + 1 > off
       then rbind (log_slice l off (l_committed l + 1) (l_max_next_ents_size l)) (\<lambda>r.
              case r of
                Inl _ \<Rightarrow> Inl (Fatal ''unexpected error when getting unapplied entries'')
              | Inr es \<Rightarrow> Inr es)
       else Inr [])"

definition has_next_entries :: "raft_log \<Rightarrow> bool res" where
  "has_next_entries l =
     rbind (log_first_index l) (\<lambda>fst_ix.
       Inr (l_committed l + 1 > max (l_applied l + 1) fst_ix))"

text \<open>
  \<open>maybe_commit\<close> ignores the status of \<open>term\<close>: on an error it compares an uninitialised
  variable.
\<close>

definition log_maybe_commit :: "u64 \<Rightarrow> u64 \<Rightarrow> raft_log \<Rightarrow> (raft_log \<times> bool) res" where
  "log_maybe_commit max_index trm l =
     (if max_index > l_committed l
      then rbind (log_term l max_index) (\<lambda>r.
        case r of
          Inl _ \<Rightarrow> Inl Uninit
        | Inr t \<Rightarrow>
            if t = trm then rbind (commit_to max_index l) (\<lambda>l'. Inr (l', True))
            else Inr (l, False))
      else Inr (l, False))"

definition log_restore :: "snapshot \<Rightarrow> raft_log \<Rightarrow> raft_log" where
  "log_restore s l =
     l\<lparr>l_committed := s_index s, l_unstable := unstable_restore s (l_unstable l)\<rparr>"

definition log_snapshot :: "raft_log \<Rightarrow> snapshot stat res" where
  "log_snapshot l =
     (case u_snapshot (l_unstable l) of
        Some s \<Rightarrow> Inr (Inr s)
      | None \<Rightarrow> storage_snapshot (l_storage l))"

text \<open>\<open>applied_to\<close> logs an out-of-range index and stores it all the same.\<close>

definition applied_to :: "u64 \<Rightarrow> raft_log \<Rightarrow> raft_log" where
  "applied_to idx l = (if idx = 0 then l else l\<lparr>l_applied := idx\<rparr>)"

definition log_stable_to :: "u64 \<Rightarrow> u64 \<Rightarrow> raft_log \<Rightarrow> raft_log res" where
  "log_stable_to idx trm l =
     rbind (unstable_stable_to idx trm (l_unstable l)) (\<lambda>u. Inr (l\<lparr>l_unstable := u\<rparr>))"

definition log_stable_snap_to :: "u64 \<Rightarrow> raft_log \<Rightarrow> raft_log" where
  "log_stable_snap_to idx l = l\<lparr>l_unstable := unstable_stable_snap_to idx (l_unstable l)\<rparr>"

text \<open>
  \<open>all_entries\<close> calls itself again after a compaction error and then falls through to its
  \<open>LOG_FATAL\<close>; \<open>None\<close> is the recursion that never returns.
\<close>

partial_function (option) all_entries :: "raft_log \<Rightarrow> entry list res option" where
  "all_entries l =
     (case rbind (log_first_index l) (\<lambda>fst_ix. log_entries l fst_ix unlimited) of
        Inl e \<Rightarrow> Some (Inl e)
      | Inr (Inr es) \<Rightarrow> Some (Inr es)
      | Inr (Inl s) \<Rightarrow>
          if status_to_string s = status_to_string err_compacted
          then Option.bind (all_entries l)
                 (\<lambda>r. Some (rbind r (\<lambda>_. Inl (Fatal (status_to_string s)))))
          else Some (Inl (Fatal (status_to_string s))))"

section \<open>The abstract log\<close>

text \<open>
  The log a node has: a base position with its term (the pending snapshot if there is one, the
  storage's dummy entry otherwise) and the entries after it, the stable ones before \<open>offset_\<close>
  followed by the unstable ones.
\<close>

definition log_base :: "raft_log \<Rightarrow> nat" where
  "log_base l = (case u_snapshot (l_unstable l) of
     Some s \<Rightarrow> unat (s_index s) | None \<Rightarrow> st_base (l_storage l))"

definition log_base_term :: "raft_log \<Rightarrow> u64" where
  "log_base_term l = (case u_snapshot (l_unstable l) of
     Some s \<Rightarrow> s_term s | None \<Rightarrow> st_base_term (l_storage l))"

definition log_ents :: "raft_log \<Rightarrow> entry list" where
  "log_ents l = (case u_snapshot (l_unstable l) of
     Some s \<Rightarrow> u_entries (l_unstable l)
   | None \<Rightarrow> take (unat (u_offset (l_unstable l)) - (st_base (l_storage l) + 1)) (st_ents (l_storage l))
              @ u_entries (l_unstable l))"

definition log_last :: "raft_log \<Rightarrow> nat" where
  "log_last l = log_base l + length (log_ents l)"

definition log_term_at :: "raft_log \<Rightarrow> nat \<Rightarrow> u64" where
  "log_term_at l i = term_at (log_base l) (log_base_term l) (log_ents l) i"

text \<open>
  The invariant: storage and unstable tail are well formed; without a pending snapshot the tail
  starts inside or right behind the stable log, right behind it if the tail is empty; the commit
  position lies in the log.
\<close>

definition wf_log_parts :: "raft_log \<Rightarrow> bool" where
  "wf_log_parts l \<longleftrightarrow>
     wf_storage (l_storage l) \<and> wf_unstable (l_unstable l)
     \<and> (u_snapshot (l_unstable l) = None \<longrightarrow>
          st_base (l_storage l) < unat (u_offset (l_unstable l))
          \<and> unat (u_offset (l_unstable l)) \<le> st_base (l_storage l) + length (st_ents (l_storage l)) + 1
          \<and> (u_entries (l_unstable l) = [] \<longrightarrow>
             unat (u_offset (l_unstable l)) = st_base (l_storage l) + length (st_ents (l_storage l)) + 1))"

definition wf_log :: "raft_log \<Rightarrow> bool" where
  "wf_log l \<longleftrightarrow>
     wf_log_parts l \<and> log_base l \<le> unat (l_committed l) \<and> unat (l_committed l) \<le> log_last l"

lemma wf_logD:
  assumes "wf_log l"
  shows "wf_log_parts l" "wf_storage (l_storage l)" "wf_unstable (l_unstable l)"
    "log_base l \<le> unat (l_committed l)" "unat (l_committed l) \<le> log_last l"
  using assms by (simp_all add: wf_log_def wf_log_parts_def)

lemma log_upper:
  assumes "wf_log_parts l"
  shows "log_last l + 1 = unat (u_offset (l_unstable l)) + length (u_entries (l_unstable l))"
  using assms wf_unstableD(4)[of "l_unstable l"]
  by (auto simp: wf_log_parts_def log_last_def log_base_def log_ents_def split: option.split)

lemma log_bounded: "wf_log_parts l \<Longrightarrow> log_last l + 1 < 2 ^ 64"
  using log_upper[of l] wf_unstableD(2)[of "l_unstable l"] by (simp add: wf_log_parts_def)

lemma log_contig:
  assumes "wf_log_parts l"
  shows "contig (log_base l + 1) (log_ents l)"
proof (cases "u_snapshot (l_unstable l)")
  case None
  have "contig (st_base (l_storage l) + 1) (st_ents (l_storage l))"
    using stor.contiguous assms by (simp add: wf_log_parts_def)
  moreover have "st_base (l_storage l) + 1
      + length (take (unat (u_offset (l_unstable l)) - (st_base (l_storage l) + 1)) (st_ents (l_storage l)))
      = unat (u_offset (l_unstable l))"
    using assms None by (auto simp: wf_log_parts_def)
  ultimately show ?thesis
    using assms None wf_unstableD(1)[of "l_unstable l"]
    by (simp add: log_base_def log_ents_def wf_log_parts_def contig_append contig_take)
next
  case (Some s)
  then show ?thesis
    using assms wf_unstableD(1,4)[of "l_unstable l"]
    by (simp add: log_base_def log_ents_def wf_log_parts_def)
qed

lemma log_first_index_ok:
  assumes "wf_log_parts l"
  shows "\<exists>f. log_first_index l = Inr f \<and> unat f = log_base l + 1"
proof (cases "u_snapshot (l_unstable l)")
  case None
  then show ?thesis using stor.first_ok assms
    by (simp add: log_first_index_def maybe_first_index_def log_base_def wf_log_parts_def)
next
  case (Some s)
  then show ?thesis
    using assms maybe_first_index_ok[of "l_unstable l"] wf_unstableD(4)[of "l_unstable l" s]
    by (simp add: log_first_index_def log_base_def wf_log_parts_def)
qed

lemma log_last_index_ok:
  assumes "wf_log_parts l"
  shows "\<exists>k. log_last_index l = Inr k \<and> unat k = log_last l"
proof (cases "u_entries (l_unstable l) = [] \<and> u_snapshot (l_unstable l) = None")
  case True
  then show ?thesis
    using assms stor.last_ok[of "l_storage l"]
    by (simp add: log_last_index_def maybe_last_index_None log_last_def log_base_def log_ents_def
        wf_log_parts_def)
next
  case False
  then obtain k where "maybe_last_index (l_unstable l) = Some k"
      "unat k = unat (u_offset (l_unstable l)) + length (u_entries (l_unstable l)) - 1"
    using maybe_last_index_Some[of "l_unstable l"] assms by (auto simp: wf_log_parts_def)
  then show ?thesis using log_upper[OF assms] by (simp add: log_last_index_def)
qed

lemma log_term_in_range:
  assumes "wf_log_parts l" and "log_base l \<le> unat i" and "unat i \<le> log_last l"
  shows "rbind (maybe_term (l_unstable l) i) (\<lambda>t. case t of
      Some t \<Rightarrow> Inr (Inr t) | None \<Rightarrow> storage_term (l_storage l) i) = Inr (Inr (log_term_at l (unat i)))"
proof -
  let ?u = "l_unstable l" and ?st = "l_storage l"
  have wu: "wf_unstable ?u" and ws: "wf_storage ?st" using assms(1) by (simp_all add: wf_log_parts_def)
  show ?thesis
  proof (cases "unat (u_offset ?u) \<le> unat i")
    case True
    have lt: "unat i < unat (u_offset ?u) + length (u_entries ?u)"
      using assms(3) log_upper[OF assms(1)] by simp
    have "log_term_at l (unat i) = e_term (u_entries ?u ! (unat i - unat (u_offset ?u)))"
      using True lt assms(1,3) wf_unstableD(4)[OF wu]
      by (auto simp: log_term_at_def term_at_def log_base_def log_ents_def log_last_def
          wf_log_parts_def nth_append split: option.splits)
    then show ?thesis using maybe_term_entry[OF wu True lt] by simp
  next
    case False
    show ?thesis
    proof (cases "u_snapshot ?u")
      case None
      have "log_term_at l (unat i) = term_at (st_base ?st) (st_base_term ?st) (st_ents ?st) (unat i)"
        using False None assms
        by (auto simp: log_term_at_def term_at_def log_base_def log_base_term_def log_ents_def
            log_last_def wf_log_parts_def nth_append)
      moreover have "unat i \<le> st_base ?st + length (st_ents ?st)"
        using False None assms(1) by (auto simp: wf_log_parts_def)
      ultimately show ?thesis
        using maybe_term_below[of i ?u] False None assms(2) stor.term_ok[OF ws, of i]
        by (simp add: log_base_def)
    next
      case (Some s)
      then have "unat i = unat (s_index s)"
        using False assms(2) wf_unstableD(4)[OF wu Some] by (simp add: log_base_def)
      then have "s_index s = i" by (simp add: word_unat_eq_iff)
      then show ?thesis using maybe_term_below[of i ?u] False Some
        by (simp add: log_term_at_def term_at_def log_base_def log_base_term_def)
    qed
  qed
qed

text \<open>\<open>term\<close> reads the abstract log, with 0 outside it.\<close>

lemma log_term_ok:
  assumes "wf_log_parts l"
  shows "log_term l i = Inr (Inr (log_term_at l (unat i)))"
proof -
  obtain f where f: "log_first_index l = Inr f" "unat f = log_base l + 1"
    using log_first_index_ok[OF assms] by auto
  obtain k where k: "log_last_index l = Inr k" "unat k = log_last l"
    using log_last_index_ok[OF assms] by auto
  have f1: "unat (f - 1) = log_base l" using f(2) by (subst unat_sub_1) simp_all
  show ?thesis
  proof (cases "unat i < log_base l \<or> unat i > log_last l")
    case True
    then have "log_term_at l (unat i) = 0" by (auto simp: log_term_at_def term_at_def log_last_def)
    then show ?thesis using True f k f1 by (auto simp: log_term_def word_less_nat_alt)
  next
    case False
    then have "\<not> (i < f - 1 \<or> i > k)" using f1 k(2) by (simp add: word_less_nat_alt)
    then show ?thesis using False f(1) k(1) log_term_in_range[OF assms, of i]
      by (simp add: log_term_def)
  qed
qed

interpretation rlog: indexed_log wf_log_parts log_base log_base_term log_ents
  log_first_index log_last_index log_term
proof unfold_locales
  fix l assume wf: "wf_log_parts l"
  show "contig (log_base l + 1) (log_ents l)" by (rule log_contig [OF wf])
  show "log_base l + length (log_ents l) + 1 < 2 ^ 64"
    using log_bounded[OF wf] by (simp add: log_last_def)
  show "\<exists>f. log_first_index l = Inr f \<and> unat f = log_base l + 1"
    by (rule log_first_index_ok [OF wf])
  show "\<exists>k. log_last_index l = Inr k \<and> unat k = log_base l + length (log_ents l)"
    using log_last_index_ok[OF wf] by (simp add: log_last_def)
  show "log_term l i = Inr (Inr (term_at (log_base l) (log_base_term l) (log_ents l) (unat i)))" for i
    using log_term_ok[OF wf] by (simp add: log_term_at_def)
qed

lemma match_term_ok:
  "wf_log_parts l \<Longrightarrow> match_term l i t = Inr (t = log_term_at l (unat i))"
  by (simp add: match_term_def log_term_ok)

lemma last_term_ok:
  "wf_log_parts l \<Longrightarrow> last_term l = Inr (log_term_at l (log_last l))"
  using log_last_index_ok[of l] by (auto simp: last_term_def log_term_ok)

lemma is_up_to_date_ok:
  "wf_log_parts l \<Longrightarrow> is_up_to_date l i t =
     Inr (t > log_term_at l (log_last l) \<or> (t = log_term_at l (log_last l) \<and> unat i \<ge> log_last l))"
  using log_last_index_ok[of l]
  by (auto simp: is_up_to_date_def last_term_ok word_le_nat_alt)

lemma find_conflict_ok:
  assumes "wf_log_parts l"
  shows "find_conflict l es = Inr (case find (\<lambda>e. log_term_at l (unat (e_index e)) \<noteq> e_term e) es of
      None \<Rightarrow> 0 | Some e \<Rightarrow> e_index e)"
proof (induction es)
  case (Cons e es)
  obtain k where "log_last_index l = Inr k" using log_last_index_ok[OF assms] by auto
  then show ?case using Cons.IH assms by (simp add: match_term_ok log_term_ok eq_commute)
qed simp

section \<open>Appending\<close>

lemma log_append_ok:
  assumes "wf_log l" and "es \<noteq> []" and "contig k es" and "unat (l_committed l) < k"
    and "k \<le> log_last l + 1" and "k + length es < 2 ^ 64"
  shows "\<exists>l' i. log_append es l = Inr (l', i) \<and> unat i = k + length es - 1 \<and> wf_log l'
    \<and> log_base l' = log_base l \<and> log_base_term l' = log_base_term l
    \<and> log_ents l' = take (k - (log_base l + 1)) (log_ents l) @ es
    \<and> l' = l\<lparr>l_unstable := l_unstable l'\<rparr> \<and> u_snapshot (l_unstable l') = u_snapshot (l_unstable l)"
proof -
  note w = wf_logD[OF assms(1)]
  let ?u = "l_unstable l" and ?st = "l_storage l"
  have kb: "log_base l < k" using w(4) assms(4) by simp
  have up: "log_last l + 1 = unat (u_offset ?u) + length (u_entries ?u)" by (rule log_upper [OF w(1)])
  obtain u where u: "truncate_and_append es ?u = Inr u" "u_snapshot u = u_snapshot ?u"
      "unat (u_offset u) = min (unat (u_offset ?u)) k"
      "u_entries u = take (k - unat (u_offset ?u)) (u_entries ?u) @ es"
    using truncate_and_append_ok[OF w(3) assms(2,3) _ assms(6)] assms(5) up by auto
  have wu: "wf_unstable u"
    using wf_truncate_and_append[OF w(3) assms(2,3) _ _ assms(6) _ u(1)] kb assms(5) up
    by (auto simp: log_base_def split: option.splits)
  define l' where "l' = l\<lparr>l_unstable := u\<rparr>"
  have base: "log_base l' = log_base l" "log_base_term l' = log_base_term l"
    using u(2) by (simp_all add: l'_def log_base_def log_base_term_def cong: option.case_cong)
  have parts: "wf_log_parts l'"
    using w(1) wu u assms(2) kb by (auto simp: wf_log_parts_def l'_def log_base_def)
  have ents: "log_ents l' = take (k - (log_base l + 1)) (log_ents l) @ es"
  proof (cases "u_snapshot ?u")
    case None
    then have b: "st_base ?st < unat (u_offset ?u)"
        "unat (u_offset ?u) \<le> st_base ?st + length (st_ents ?st) + 1"
      using w(1) by (auto simp: wf_log_parts_def)
    let ?pre = "take (unat (u_offset ?u) - (st_base ?st + 1)) (st_ents ?st)"
    have len: "length ?pre = unat (u_offset ?u) - (st_base ?st + 1)" using b by simp
    have "log_ents l' = take (min (unat (u_offset ?u)) k - (st_base ?st + 1)) (st_ents ?st)
        @ take (k - unat (u_offset ?u)) (u_entries ?u) @ es"
      using None u by (simp add: l'_def log_ents_def)
    moreover have "take (k - (st_base ?st + 1)) (?pre @ u_entries ?u)
        = take (min (unat (u_offset ?u)) k - (st_base ?st + 1)) (st_ents ?st)
          @ take (k - unat (u_offset ?u)) (u_entries ?u)"
      using kb None b(1) unfolding take_append len
      by (cases "k \<le> unat (u_offset ?u)") (simp_all add: log_base_def min_def)
    ultimately show ?thesis using None by (simp add: log_ents_def log_base_def)
  next
    case (Some s)
    then show ?thesis using u kb wf_unstableD(4)[OF w(3) Some]
      by (simp add: l'_def log_ents_def log_base_def)
  qed
  have last': "log_last l' = k + length es - 1"
    using ents kb assms(5) base by (simp add: log_last_def)
  obtain i where i: "log_last_index l' = Inr i" "unat i = k + length es - 1"
    using log_last_index_ok[OF parts] last' by auto
  obtain e0 rest where es: "es = e0 # rest" using assms(2) by (cases es) auto
  have "unat (e_index e0 - 1) = k - 1" using assms(3) es kb by (subst unat_sub_1) simp_all
  then have "\<not> e_index e0 - 1 < l_committed l" using assms(4) by (simp add: word_less_nat_alt)
  then have eq: "log_append es l = Inr (l', i)"
    using es u(1) i(1) by (simp add: log_append_def l'_def Let_def)
  have "wf_log l'"
    using parts w(4,5) base last' assms(4) by (simp add: wf_log_def l'_def)
  then show ?thesis using eq i(2) base ents u(2) by (auto simp: l'_def)
qed

lemma commit_to_ok:
  assumes "wf_log l" and "unat c \<le> log_last l"
  shows "commit_to c l = Inr (l\<lparr>l_committed := max (l_committed l) c\<rparr>)"
    and "wf_log (l\<lparr>l_committed := max (l_committed l) c\<rparr>)"
proof -
  note w = wf_logD[OF assms(1)]
  obtain k where k: "log_last_index l = Inr k" "unat k = log_last l"
    using log_last_index_ok[OF w(1)] by auto
  have "\<not> k < c" using k assms(2) by (simp add: word_less_nat_alt)
  then show "commit_to c l = Inr (l\<lparr>l_committed := max (l_committed l) c\<rparr>)"
    using k(1) by (auto simp: commit_to_def max_def)
  show "wf_log (l\<lparr>l_committed := max (l_committed l) c\<rparr>)"
    using w(1,4,5) assms(2)
    by (auto simp: wf_log_def wf_log_parts_def log_base_def log_last_def log_ents_def max_def
        word_le_nat_alt split: option.splits)
qed

lemma commit_to_beyond:
  assumes "wf_log l" and "unat c > log_last l"
  shows "commit_to c l = Inl (Fatal ''to_commit is out of range [lastIndex]'')"
proof -
  note w = wf_logD[OF assms(1)]
  obtain k where k: "log_last_index l = Inr k" "unat k = log_last l"
    using log_last_index_ok[OF w(1)] by auto
  then show ?thesis using w(5) assms(2) by (simp add: commit_to_def word_less_nat_alt)
qed

text \<open>A frame lemma: the abstract log does not depend on the commit and apply positions.\<close>

lemma log_abs_frame [simp]:
  "log_base (l\<lparr>l_committed := c\<rparr>) = log_base l" "log_base (l\<lparr>l_applied := a\<rparr>) = log_base l"
  "log_base_term (l\<lparr>l_committed := c\<rparr>) = log_base_term l"
  "log_base_term (l\<lparr>l_applied := a\<rparr>) = log_base_term l"
  "log_ents (l\<lparr>l_committed := c\<rparr>) = log_ents l" "log_ents (l\<lparr>l_applied := a\<rparr>) = log_ents l"
  "log_last (l\<lparr>l_committed := c\<rparr>) = log_last l" "log_last (l\<lparr>l_applied := a\<rparr>) = log_last l"
  "log_term_at (l\<lparr>l_committed := c\<rparr>) = log_term_at l" "log_term_at (l\<lparr>l_applied := a\<rparr>) = log_term_at l"
  "wf_log_parts (l\<lparr>l_committed := c\<rparr>) = wf_log_parts l" "wf_log_parts (l\<lparr>l_applied := a\<rparr>) = wf_log_parts l"
  by (simp_all add: log_base_def log_base_term_def log_ents_def log_last_def log_term_at_def
      wf_log_parts_def fun_eq_iff cong: option.case_cong)

lemma wf_log_applied [simp]: "wf_log (l\<lparr>l_applied := a\<rparr>) = wf_log l"
  by (simp add: wf_log_def)

text \<open>
  The batch of an append message: consecutive entries right after position \<open>idx\<close>, none of them
  with the reserved term 0, all positions representable; and the position itself is in the log
  or carries a real term.
\<close>

definition app_batch :: "u64 \<Rightarrow> u64 \<Rightarrow> entry list \<Rightarrow> raft_log \<Rightarrow> bool" where
  "app_batch idx trm es l \<longleftrightarrow>
     contig (unat idx + 1) es \<and> unat idx + length es + 1 < 2 ^ 64
     \<and> (\<forall>e\<in>set es. e_term e \<noteq> 0) \<and> log_base l \<le> unat idx \<and> (trm = 0 \<longrightarrow> unat idx \<le> log_last l)"

definition conflict_pos :: "raft_log \<Rightarrow> entry list \<Rightarrow> nat option" where
  "conflict_pos l es =
     (let n = length (takeWhile (\<lambda>e. log_term_at l (unat (e_index e)) = e_term e) es)
      in if n < length es then Some n else None)"

lemma find_takeWhile:
  "find (\<lambda>x. \<not> P x) xs = (if length (takeWhile P xs) < length xs
     then Some (xs ! length (takeWhile P xs)) else None)"
  by (induction xs) auto

lemma conflict_pos_SomeD:
  assumes "conflict_pos l es = Some j"
  shows "j < length es" "log_term_at l (unat (e_index (es ! j))) \<noteq> e_term (es ! j)"
    "\<And>i. i < j \<Longrightarrow> log_term_at l (unat (e_index (es ! i))) = e_term (es ! i)"
proof -
  let ?P = "\<lambda>e. log_term_at l (unat (e_index e)) = e_term e"
  have j: "j = length (takeWhile ?P es)" "j < length es"
    using assms by (auto simp: conflict_pos_def Let_def split: if_splits)
  show "j < length es" by (rule j(2))
  show "log_term_at l (unat (e_index (es ! j))) \<noteq> e_term (es ! j)"
    using nth_length_takeWhile[of ?P es] j by simp
  show "log_term_at l (unat (e_index (es ! i))) = e_term (es ! i)" if "i < j" for i
    using set_takeWhileD[of "takeWhile ?P es ! i" ?P es] nth_mem[of i "takeWhile ?P es"]
      takeWhile_nth[of i ?P es] that j(1) by simp
qed

lemma conflict_posI:
  assumes "j < length es" and "log_term_at l (unat (e_index (es ! j))) \<noteq> e_term (es ! j)"
    and "\<forall>e\<in>set (take j es). log_term_at l (unat (e_index e)) = e_term e"
  shows "conflict_pos l es = Some j"
proof -
  let ?P = "\<lambda>e. log_term_at l (unat (e_index e)) = e_term e"
  have "takeWhile ?P es = takeWhile ?P (take j es @ es ! j # drop (Suc j) es)"
    using id_take_nth_drop[OF assms(1)] by simp
  also have "\<dots> = take j es" using assms(2,3) by (simp add: takeWhile_append2)
  finally show ?thesis using assms(1) by (simp add: conflict_pos_def Let_def)
qed

lemma conflict_pos_NoneD:
  assumes "conflict_pos l es = None" and "e \<in> set es"
  shows "log_term_at l (unat (e_index e)) = e_term e"
proof -
  let ?P = "\<lambda>e. log_term_at l (unat (e_index e)) = e_term e"
  have "length es \<le> length (takeWhile ?P es)"
    using assms(1) by (auto simp: conflict_pos_def Let_def split: if_splits)
  then have "takeWhile ?P es = es" using takeWhile_eq_take[of ?P es] by simp
  then show ?thesis using assms(2) set_takeWhileD[of e ?P es] by simp
qed

lemma find_conflict_pos:
  assumes "wf_log_parts l"
  shows "find_conflict l es = Inr (case conflict_pos l es of None \<Rightarrow> 0 | Some j \<Rightarrow> e_index (es ! j))"
  using find_conflict_ok[OF assms] find_takeWhile[of "\<lambda>e. log_term_at l (unat (e_index e)) = e_term e" es]
  by (simp add: conflict_pos_def Let_def)

lemma last_new_unat:
  "unat idx + length es + 1 < 2 ^ 64 \<Longrightarrow> unat (idx + vec_size es) = unat idx + length es"
  by (simp add: vec_size_def unat_add_of_nat)

text \<open>An entry that matches the log sits inside it.\<close>

lemma match_in_log: "log_term_at l i \<noteq> 0 \<Longrightarrow> log_base l \<le> i \<and> i \<le> log_last l"
  by (auto simp: log_term_at_def term_at_def log_last_def split: if_splits)

lemma contig_index: "contig k es \<Longrightarrow> i < length es \<Longrightarrow> unat (e_index (es ! i)) = k + i"
  by (simp add: contig_def)

lemma app_batchD:
  assumes "app_batch idx trm es l"
  shows "contig (unat idx + 1) es" "unat idx + length es + 1 < 2 ^ 64"
    "\<And>i. i < length es \<Longrightarrow> e_term (es ! i) \<noteq> 0" "log_base l \<le> unat idx"
    "trm = 0 \<Longrightarrow> unat idx \<le> log_last l"
  using assms by (auto simp: app_batch_def)

text \<open>The position before a batch that matches, and every matching entry, are positions of the log.\<close>

lemma batch_in_log:
  assumes "app_batch idx trm es l" and "log_term_at l (unat idx) = trm"
    and "j \<le> length es" and "\<And>i. i < j \<Longrightarrow> log_term_at l (unat (e_index (es ! i))) = e_term (es ! i)"
  shows "unat idx + j \<le> log_last l"
proof (cases j)
  case 0
  then show ?thesis using app_batchD(5)[OF assms(1)] assms(2) match_in_log[of l "unat idx"] by auto
next
  case (Suc i)
  then have "log_term_at l (unat (e_index (es ! i))) \<noteq> 0"
    using assms(3) assms(4)[of i] app_batchD(3)[OF assms(1), of i] by simp
  then show ?thesis
    using match_in_log contig_index[OF app_batchD(1)[OF assms(1)], of i] Suc assms(3) by fastforce
qed

definition batch_result :: "u64 \<Rightarrow> entry list \<Rightarrow> raft_log \<Rightarrow> entry list" where
  "batch_result idx es l =
     (case conflict_pos l es of
        None \<Rightarrow> log_ents l
      | Some j \<Rightarrow> take (unat idx + j - log_base l) (log_ents l) @ drop j es)"

lemma log_append_conflict:
  assumes "wf_log l" and "app_batch idx trm es l" and "log_term_at l (unat idx) = trm"
    and "conflict_pos l es = Some j" and "unat (l_committed l) \<le> unat idx + j"
  shows "\<exists>l' i. vec_erase_front es (e_index (es ! j) - (idx + 1)) = Inr (drop j es)
    \<and> log_append (drop j es) l = Inr (l', i) \<and> wf_log l'
    \<and> log_base l' = log_base l \<and> log_base_term l' = log_base_term l
    \<and> log_ents l' = batch_result idx es l \<and> log_last l' = unat idx + length es
    \<and> l' = l\<lparr>l_unstable := l_unstable l'\<rparr>"
proof -
  note b = app_batchD[OF assms(2)] and c = conflict_pos_SomeD[OF assms(4)]
  have k: "unat (e_index (es ! j)) = unat idx + 1 + j" by (rule contig_index [OF b(1) c(1)])
  have i1: "unat (idx + 1) = unat idx + 1" using b(2) by (simp add: unat_add_1)
  have "unat (e_index (es ! j) - (idx + 1)) = j"
    using k i1 by (subst unat_sub_u64) (simp_all add: word_le_nat_alt)
  then have er: "vec_erase_front es (e_index (es ! j) - (idx + 1)) = Inr (drop j es)"
    using c(1) by (simp add: vec_erase_front_def)
  have "unat idx + j \<le> log_last l" using batch_in_log[OF assms(2,3), of j] c by simp
  moreover have "contig (unat idx + 1 + j) (drop j es)" by (rule contig_drop [OF b(1)])
  ultimately obtain l' i where l': "log_append (drop j es) l = Inr (l', i)" "wf_log l'"
      "log_base l' = log_base l" "log_base_term l' = log_base_term l"
      "log_ents l' = take (unat idx + 1 + j - (log_base l + 1)) (log_ents l) @ drop j es"
      "l' = l\<lparr>l_unstable := l_unstable l'\<rparr>"
    using log_append_ok[OF assms(1), of "drop j es" "unat idx + 1 + j"] c(1) assms(5) b(2) by auto
  have "length (take (unat idx + j - log_base l) (log_ents l)) = unat idx + j - log_base l"
    using \<open>unat idx + j \<le> log_last l\<close> by (simp add: log_last_def)
  then have "log_last l' = unat idx + length es"
    using l'(3,5) b(4) c(1) by (simp add: log_last_def)
  then show ?thesis using er l' assms(4) by (auto simp: batch_result_def)
qed

lemma log_maybe_append_ok:
  assumes "wf_log l" and "app_batch idx trm es l" and "log_term_at l (unat idx) = trm"
    and "\<And>j. conflict_pos l es = Some j \<Longrightarrow> unat (l_committed l) \<le> unat idx + j"
  shows "\<exists>l'. log_maybe_append idx trm c es l = Inr (l', Some (idx + vec_size es)) \<and> wf_log l'
    \<and> log_base l' = log_base l \<and> log_base_term l' = log_base_term l
    \<and> log_ents l' = batch_result idx es l
    \<and> l_committed l' = max (l_committed l) (min c (idx + vec_size es))
    \<and> l' = l\<lparr>l_unstable := l_unstable l', l_committed := l_committed l'\<rparr>"
proof -
  note w = wf_logD[OF assms(1)] and b = app_batchD[OF assms(2)]
  have lastnew: "unat (idx + vec_size es) = unat idx + length es" by (rule last_new_unat [OF b(2)])
  have m: "match_term l idx trm = Inr True" using match_term_ok[OF w(1)] assms(3) by simp
  have fin: "\<exists>l''. rbind (commit_to (min c (idx + vec_size es)) l') (\<lambda>l''. Inr (l'', Some (idx + vec_size es)))
      = Inr (l'', Some (idx + vec_size es)) \<and> wf_log l''
      \<and> l'' = l'\<lparr>l_committed := max (l_committed l') (min c (idx + vec_size es))\<rparr>"
    if "wf_log l'" "unat idx + length es \<le> log_last l'" for l'
  proof -
    have "unat (min c (idx + vec_size es)) \<le> log_last l'"
      using that(2) lastnew by (auto simp: min_def word_le_nat_alt)
    then show ?thesis using commit_to_ok[OF that(1)] by simp
  qed
  show ?thesis
  proof (cases "conflict_pos l es")
    case None
    have "unat idx + length es \<le> log_last l"
      using batch_in_log[OF assms(2,3), of "length es"] conflict_pos_NoneD[OF None] by simp
    then show ?thesis using fin[OF assms(1)] m None
      by (auto simp: log_maybe_append_def find_conflict_pos[OF w(1)] batch_result_def Let_def)
  next
    case (Some j)
    obtain l' i where l': "vec_erase_front es (e_index (es ! j) - (idx + 1)) = Inr (drop j es)"
        "log_append (drop j es) l = Inr (l', i)" "wf_log l'" "log_base l' = log_base l"
        "log_base_term l' = log_base_term l" "log_ents l' = batch_result idx es l"
        "log_last l' = unat idx + length es" "l' = l\<lparr>l_unstable := l_unstable l'\<rparr>"
      using log_append_conflict[OF assms(1-3) Some assms(4)[OF Some]] by auto
    have k: "unat (e_index (es ! j)) = unat idx + 1 + j"
      by (rule contig_index [OF b(1) conflict_pos_SomeD(1) [OF Some]])
    then have "e_index (es ! j) \<noteq> 0" "\<not> e_index (es ! j) \<le> l_committed l"
      using assms(4)[OF Some] by (auto simp: word_le_nat_alt)
    moreover obtain l'' where l'': "rbind (commit_to (min c (idx + vec_size es)) l')
          (\<lambda>l''. Inr (l'', Some (idx + vec_size es))) = Inr (l'', Some (idx + vec_size es))" "wf_log l''"
        "l'' = l'\<lparr>l_committed := max (l_committed l') (min c (idx + vec_size es))\<rparr>"
      using fin[OF l'(3)] l'(7) by auto
    ultimately have eq: "log_maybe_append idx trm c es l = Inr (l'', Some (idx + vec_size es))"
      using l'(1,2) m Some by (simp add: log_maybe_append_def find_conflict_pos[OF w(1)] Let_def)
    have com: "l_committed l' = l_committed l" by (subst l'(8)) simp
    have upd: "l'' = l\<lparr>l_unstable := l_unstable l'', l_committed := l_committed l''\<rparr>"
      unfolding l''(3) by (subst l'(8)) simp
    have "log_base l'' = log_base l" "log_base_term l'' = log_base_term l"
      "log_ents l'' = batch_result idx es l"
      "l_committed l'' = max (l_committed l) (min c (idx + vec_size es))"
      unfolding l''(3) using l'(4-6) com by simp_all
    then show ?thesis using eq l''(2) upd by blast
  qed
qed

lemma log_maybe_append_mismatch:
  assumes "wf_log l" and "log_term_at l (unat idx) \<noteq> trm"
  shows "log_maybe_append idx trm c es l = Inr (l, None)"
  using match_term_ok[OF wf_logD(1) [OF assms(1)]] assms(2) by (simp add: log_maybe_append_def)

lemma log_maybe_append_committed_conflict:
  assumes "wf_log l" and "app_batch idx trm es l" and "log_term_at l (unat idx) = trm"
    and "conflict_pos l es = Some j" and "unat idx + j < unat (l_committed l)"
  shows "log_maybe_append idx trm c es l = Inl (Fatal ''entry conflict with committed entry'')"
proof -
  note w = wf_logD[OF assms(1)] and b = app_batchD[OF assms(2)]
  have "unat (e_index (es ! j)) = unat idx + 1 + j"
    by (rule contig_index [OF b(1) conflict_pos_SomeD(1) [OF assms(4)]])
  then have "e_index (es ! j) \<noteq> 0" "e_index (es ! j) \<le> l_committed l"
    using assms(5) by (auto simp: word_le_nat_alt)
  then show ?thesis using match_term_ok[OF w(1), of idx trm] assms(3,4)
    by (simp add: log_maybe_append_def find_conflict_pos[OF w(1)] Let_def)
qed

text \<open>What the batch leaves in the log.\<close>

definition log_has :: "raft_log \<Rightarrow> entry list \<Rightarrow> bool" where
  "log_has l es \<longleftrightarrow> (\<forall>e\<in>set es. log_term_at l (unat (e_index e)) = e_term e)"

lemma term_at_append_left:
  "i \<le> b + length xs \<Longrightarrow> term_at b t (xs @ ys) i = term_at b t xs i"
  by (auto simp: term_at_def nth_append)

lemma term_at_append_right:
  "b + length xs < i \<Longrightarrow> i \<le> b + length xs + length ys
   \<Longrightarrow> term_at b t (xs @ ys) i = e_term (ys ! (i - (b + length xs + 1)))"
  by (auto simp: term_at_def nth_append)

lemma term_at_take:
  "i \<le> b + n \<Longrightarrow> n \<le> length xs \<Longrightarrow> term_at b t (take n xs) i = term_at b t xs i"
  by (auto simp: term_at_def)

lemma batch_result_terms:
  assumes "app_batch idx trm es l" and "log_term_at l (unat idx) = trm"
    and "log_base l' = log_base l" "log_base_term l' = log_base_term l" "log_ents l' = batch_result idx es l"
  shows "log_has l' es" and "unat idx + length es \<le> log_last l'"
    and "\<And>i. i \<le> unat idx \<Longrightarrow> log_term_at l' i = log_term_at l i"
    and "\<And>i j. conflict_pos l es = Some j \<Longrightarrow> i \<le> unat idx + j \<Longrightarrow> log_term_at l' i = log_term_at l i"
proof -
  note b = app_batchD[OF assms(1)]
  have *: "log_has l' es \<and> unat idx + length es \<le> log_last l'
      \<and> (\<forall>i. i \<le> unat idx + (case conflict_pos l es of None \<Rightarrow> length es | Some j \<Rightarrow> j)
           \<longrightarrow> log_term_at l' i = log_term_at l i)"
  proof (cases "conflict_pos l es")
    case None
    then have "log_ents l' = log_ents l" using assms(5) by (simp add: batch_result_def)
    then have "log_term_at l' = log_term_at l" "log_last l' = log_last l"
      using assms(3,4) by (simp_all add: fun_eq_iff log_term_at_def log_last_def)
    then show ?thesis
      using conflict_pos_NoneD[OF None] batch_in_log[OF assms(1,2), of "length es"] None
      by (simp add: log_has_def)
  next
    case (Some j)
    note c = conflict_pos_SomeD[OF Some]
    let ?n = "unat idx + j - log_base l"
    have in_log: "unat idx + j \<le> log_last l" using batch_in_log[OF assms(1,2), of j] c by simp
    have n: "?n \<le> length (log_ents l)" "log_base l + ?n = unat idx + j"
      using in_log b(4) by (simp_all add: log_last_def)
    have ents: "log_ents l' = take ?n (log_ents l) @ drop j es"
      using assms(5) Some by (simp add: batch_result_def)
    have low: "log_term_at l' i = log_term_at l i" if "i \<le> unat idx + j" for i
      using that n ents assms(3,4) by (simp add: log_term_at_def term_at_append_left term_at_take)
    have "log_term_at l' (unat (e_index (es ! i))) = e_term (es ! i)" if "i < length es" for i
    proof (cases "i < j")
      case True
      then show ?thesis using low c(3)[OF True] contig_index[OF b(1) that] by simp
    next
      case False
      then show ?thesis
        using contig_index[OF b(1) that] that n ents assms(3,4)
        by (simp add: log_term_at_def term_at_append_right)
    qed
    then have "log_has l' es" by (auto simp: log_has_def in_set_conv_nth)
    moreover have "log_last l' = unat idx + length es"
      using n ents assms(3) c(1) by (simp add: log_last_def)
    ultimately show ?thesis using low Some by simp
  qed
  then show "log_has l' es" "unat idx + length es \<le> log_last l'" by simp_all
  show "log_term_at l' i = log_term_at l i" if "i \<le> unat idx" for i
    using * that by (simp split: option.splits)
  show "log_term_at l' i = log_term_at l i" if "conflict_pos l es = Some j" "i \<le> unat idx + j" for i j
    using * that by simp
qed

section \<open>Reading\<close>

definition log_between :: "raft_log \<Rightarrow> nat \<Rightarrow> nat \<Rightarrow> entry list" where
  "log_between l lo hi = take (hi - lo) (drop (lo - (log_base l + 1)) (log_ents l))"

lemma entry_limit_loop_short:
  "length (entry_limit_loop mx sz xs) < length xs
   \<Longrightarrow> entry_limit_loop mx sz (xs @ ys) = entry_limit_loop mx sz xs"
  by (induction mx sz xs rule: entry_limit_loop.induct) (auto simp: Let_def split: if_splits)

lemma entry_limit_size_short:
  "length (entry_limit_size mx xs) < length xs \<Longrightarrow> entry_limit_size mx (xs @ ys) = entry_limit_size mx xs"
  by (cases xs) (auto simp: entry_limit_loop_short)

lemma must_check_ok:
  assumes "wf_log_parts l" and "unat lo \<le> unat hi" and "log_base l < unat lo"
    and "unat hi \<le> log_last l + 1"
  shows "must_check_out_of_bounds l lo hi = Inr Ok"
proof -
  obtain f where f: "log_first_index l = Inr f" "unat f = log_base l + 1"
    using log_first_index_ok[OF assms(1)] by auto
  obtain k where k: "log_last_index l = Inr k" "unat k = log_last l"
    using log_last_index_ok[OF assms(1)] by auto
  have "unat (k + 1) = log_last l + 1" using k log_bounded[OF assms(1)] by (simp add: unat_add_1)
  moreover have "f + (k + 1 - f) = k + 1" by simp
  ultimately show ?thesis using f k assms
    by (simp add: must_check_out_of_bounds_def rassert_def Let_def word_less_nat_alt word_le_nat_alt)
qed

lemma must_check_compacted:
  assumes "wf_log_parts l" and "unat lo \<le> unat hi" and "unat lo \<le> log_base l"
  shows "must_check_out_of_bounds l lo hi = Inr err_compacted"
proof -
  obtain f where f: "log_first_index l = Inr f" "unat f = log_base l + 1"
    using log_first_index_ok[OF assms(1)] by auto
  then show ?thesis using assms
    by (simp add: must_check_out_of_bounds_def rassert_def Let_def word_less_nat_alt word_le_nat_alt)
qed

text \<open>The part of a slice below \<open>offset_\<close> comes from the storage, the rest from the tail.\<close>

lemma log_between_stable:
  assumes "wf_log_parts l" and "log_base l < unat lo" and "unat lo \<le> h"
    and "h \<le> unat (u_offset (l_unstable l))" and "unat lo < unat (u_offset (l_unstable l))"
  shows "log_between l (unat lo) h
      = take (h - unat lo) (drop (unat lo - (st_base (l_storage l) + 1)) (st_ents (l_storage l)))"
    and "u_snapshot (l_unstable l) = None"
proof -
  show none: "u_snapshot (l_unstable l) = None"
    using assms wf_unstableD(4)[of "l_unstable l"]
    by (auto simp: wf_log_parts_def log_base_def split: option.splits)
  have len: "unat (u_offset (l_unstable l)) \<le> st_base (l_storage l) + length (st_ents (l_storage l)) + 1"
    "log_base l = st_base (l_storage l)"
    using none assms(1) by (auto simp: wf_log_parts_def log_base_def)
  show "log_between l (unat lo) h
      = take (h - unat lo) (drop (unat lo - (st_base (l_storage l) + 1)) (st_ents (l_storage l)))"
    using none assms len by (auto simp: log_between_def log_ents_def drop_take min_def)
qed

lemma log_between_unstable:
  assumes "wf_log_parts l" and "unat (u_offset (l_unstable l)) \<le> lo"
  shows "log_between l lo h
      = take (h - lo) (drop (lo - unat (u_offset (l_unstable l))) (u_entries (l_unstable l)))"
proof (cases "u_snapshot (l_unstable l)")
  case None
  then have "length (take (unat (u_offset (l_unstable l)) - (st_base (l_storage l) + 1)) (st_ents (l_storage l)))
      = unat (u_offset (l_unstable l)) - (st_base (l_storage l) + 1)" "log_base l = st_base (l_storage l)"
      "st_base (l_storage l) < unat (u_offset (l_unstable l))"
    using assms(1) by (auto simp: wf_log_parts_def log_base_def)
  then show ?thesis using None assms(2) by (simp add: log_between_def log_ents_def)
next
  case (Some s)
  then show ?thesis using assms wf_unstableD(4)[of "l_unstable l"]
    by (simp add: log_between_def log_ents_def log_base_def wf_log_parts_def)
qed

lemma log_between_split:
  assumes "log_base l < lo" "lo \<le> m" "m \<le> h"
  shows "log_between l lo h = log_between l lo m @ log_between l m h"
proof -
  have "h - lo = (m - lo) + (h - m)" "m - (log_base l + 1) = (m - lo) + (lo - (log_base l + 1))"
    using assms by simp_all
  then show ?thesis unfolding log_between_def by (simp only: take_add drop_drop)
qed

lemma length_log_between:
  "log_base l < lo \<Longrightarrow> h \<le> log_last l + 1 \<Longrightarrow> length (log_between l lo h) = h - lo"
  by (simp add: log_between_def log_last_def)

lemma unstable_slice_between:
  assumes "wf_log_parts l" and "u_offset (l_unstable l) \<le> lo" and "lo < hi" and "unat hi \<le> log_last l + 1"
  shows "unstable_slice (l_unstable l) lo hi = Inr (log_between l (unat lo) (unat hi))"
  using unstable_slice_ok[of "l_unstable l" lo hi] log_between_unstable[OF assms(1), of "unat lo"]
    log_upper[OF assms(1)] assms
  by (simp add: wf_log_parts_def word_le_nat_alt word_less_nat_alt)

lemma log_slice_ok:
  assumes "wf_log_parts l" and "lo \<le> hi" and "log_base l < unat lo" and "unat hi \<le> log_last l + 1"
  shows "log_slice l lo hi mx = Inr (Inr (entry_limit_size mx (log_between l (unat lo) (unat hi))))"
proof (cases "lo = hi")
  case True
  then show ?thesis using must_check_ok[OF assms(1), of lo hi] assms(3,4)
    by (simp add: log_slice_def log_between_def)
next
  case False
  let ?off = "u_offset (l_unstable l)" and ?st = "l_storage l"
  have chk: "must_check_out_of_bounds l lo hi = Inr Ok"
    using must_check_ok[OF assms(1), of lo hi] assms by (simp add: word_le_nat_alt)
  show ?thesis
  proof (cases "lo < ?off")
    case True
    let ?m = "min hi ?off"
    have m: "lo < ?m" "unat ?m \<le> unat ?off" "unat ?m \<le> unat hi" "unat lo \<le> unat ?m"
      using True False assms(2) by (auto simp: min_def word_nat)
    note sb = log_between_stable[OF assms(1,3) m(4,2)]
    have none: "u_snapshot (l_unstable l) = None" using sb(2) True by (simp add: word_less_nat_alt)
    have st: "storage_entries ?st lo ?m mx
        = Inr (Inr (entry_limit_size mx (log_between l (unat lo) (unat ?m))))"
      using storage_entries_ok[of ?st lo ?m mx] sb(1) m(1,2) True none assms(1,3)
      by (simp add: wf_log_parts_def log_base_def word_less_nat_alt)
    let ?E = "entry_limit_size mx (log_between l (unat lo) (unat ?m))"
    have len: "length (log_between l (unat lo) (unat ?m)) = unat ?m - unat lo"
      using length_log_between[OF assms(3)] m(3) assms(4) by simp
    have "length ?E < 2 ^ 64"
      using entry_limit_size_length[of mx "log_between l (unat lo) (unat ?m)"] len unat_u64_bound[of ?m]
      by linarith
    then have cmp: "vec_size ?E < ?m - lo \<longleftrightarrow> length ?E < unat ?m - unat lo"
      using m(1) by (simp add: word_less_nat_alt vec_size_unat unat_sub_u64 word_le_nat_alt)
    have split: "log_between l (unat lo) (unat hi)
        = log_between l (unat lo) (unat ?m) @ log_between l (unat ?m) (unat hi)"
      by (rule log_between_split [OF assms(3) m(4,3)])
    show ?thesis
    proof (cases "length ?E < unat ?m - unat lo")
      case short: True
      then show ?thesis using chk False True st cmp len split
        by (simp add: log_slice_def Let_def entry_limit_size_short)
    next
      case full: False
      then have E: "?E = log_between l (unat lo) (unat ?m)"
        using entry_limit_size_take[of mx "log_between l (unat lo) (unat ?m)"] len by simp
      have "(if hi > ?off then unstable_slice (l_unstable l) (max lo ?off) hi else Inr [])
          = Inr (log_between l (unat ?m) (unat hi))"
        using unstable_slice_between[OF assms(1), of ?off hi] True assms(4)
        by (cases "hi > ?off") (simp_all add: max_absorb2 min_absorb1 min_absorb2 log_between_def)
      then show ?thesis using chk False True st cmp full E split
        by (simp add: log_slice_def Let_def)
    qed
  next
    case above: False
    then have "lo < hi" "?off < hi" "max lo ?off = lo" using False assms(2) by auto
    then have "(if hi > ?off then unstable_slice (l_unstable l) (max lo ?off) hi else Inr [])
        = Inr (log_between l (unat lo) (unat hi))"
      using unstable_slice_between[OF assms(1), of lo hi] above assms(4) by simp
    then show ?thesis using chk False above by (simp add: log_slice_def Let_def)
  qed
qed

lemma log_slice_compacted:
  assumes "wf_log_parts l" and "lo \<le> hi" and "unat lo \<le> log_base l"
  shows "log_slice l lo hi mx = Inr (Inl err_compacted)"
  using must_check_compacted[OF assms(1), of lo hi] assms(2,3)
  by (simp add: log_slice_def word_le_nat_alt err_compacted_def invalid_argument_def)

lemma log_entries_ok:
  assumes "wf_log_parts l" and "log_base l < unat i"
  shows "log_entries l i mx = Inr (Inr (entry_limit_size mx (drop (unat i - (log_base l + 1)) (log_ents l))))"
proof -
  obtain k where k: "log_last_index l = Inr k" "unat k = log_last l"
    using log_last_index_ok[OF assms(1)] by auto
  have k1: "unat (k + 1) = log_last l + 1" using k log_bounded[OF assms(1)] by (simp add: unat_add_1)
  show ?thesis
  proof (cases "i > k")
    case True
    then have "length (log_ents l) \<le> unat i - (log_base l + 1)"
      using k by (simp add: word_less_nat_alt log_last_def)
    then show ?thesis using True k by (simp add: log_entries_def)
  next
    case False
    then have "i \<le> k + 1" using k k1 by (simp add: word_nat)
    then have "log_slice l i (k + 1) mx
        = Inr (Inr (entry_limit_size mx (log_between l (unat i) (log_last l + 1))))"
      using log_slice_ok[OF assms(1), of i "k + 1" mx] k1 assms(2) by simp
    moreover have "log_between l (unat i) (log_last l + 1) = drop (unat i - (log_base l + 1)) (log_ents l)"
      using assms(2) by (simp add: log_between_def log_last_def)
    ultimately show ?thesis using False k by (simp add: log_entries_def)
  qed
qed

lemma log_entries_compacted:
  assumes "wf_log_parts l" and "unat i \<le> log_base l"
  shows "log_entries l i mx = Inr (Inl err_compacted)"
proof -
  obtain k where k: "log_last_index l = Inr k" "unat k = log_last l"
    using log_last_index_ok[OF assms(1)] by auto
  have k1: "unat (k + 1) = log_last l + 1" using k log_bounded[OF assms(1)] by (simp add: unat_add_1)
  have "\<not> i > k" "i \<le> k + 1" using k k1 assms(2) by (simp_all add: word_nat log_last_def)
  then show ?thesis using k log_slice_compacted[OF assms(1), of i "k + 1"] assms(2)
    by (simp add: log_entries_def)
qed

text \<open>
  \<open>next_entries\<close>: the committed entries that are not applied yet, cut at the size limit.
\<close>

lemma next_entries_ok:
  assumes "wf_log l" and "unat (l_applied l) \<le> unat (l_committed l)"
  shows "next_entries l = Inr (entry_limit_size (l_max_next_ents_size l)
     (log_between l (max (unat (l_applied l)) (log_base l) + 1) (unat (l_committed l) + 1)))"
proof -
  note w = wf_logD[OF assms(1)]
  obtain f where f: "log_first_index l = Inr f" "unat f = log_base l + 1"
    using log_first_index_ok[OF w(1)] by auto
  have c1: "unat (l_committed l + 1) = unat (l_committed l) + 1"
    using w(5) log_bounded[OF w(1)] by (simp add: unat_add_1)
  have a1: "unat (l_applied l + 1) = unat (l_applied l) + 1"
    using assms(2) w(5) log_bounded[OF w(1)] by (simp add: unat_add_1)
  let ?o = "max (l_applied l + 1) f"
  have o: "unat ?o = max (unat (l_applied l)) (log_base l) + 1"
    using a1 f(2) by (simp add: max_def word_le_nat_alt)
  show ?thesis
  proof (cases "l_committed l + 1 > ?o")
    case True
    then have "log_slice l ?o (l_committed l + 1) mx = Inr (Inr (entry_limit_size mx
        (log_between l (max (unat (l_applied l)) (log_base l) + 1) (unat (l_committed l) + 1))))" for mx
      using log_slice_ok[OF w(1) less_imp_le [OF True], of mx] o c1 w(5) by simp
    then show ?thesis using True f(1) by (simp add: next_entries_def Let_def)
  next
    case False
    then have "unat (l_committed l) + 1 \<le> unat ?o" using c1 by (simp add: word_less_nat_alt)
    then show ?thesis using False f(1) o
      by (simp add: next_entries_def Let_def log_between_def del: max_less_iff_conj)
  qed
qed

lemma log_snapshot_ok: "\<exists>s. log_snapshot l = Inr (Inr s)"
  by (auto simp: log_snapshot_def storage_snapshot_def split: option.splits)

section \<open>Commitment and persistence\<close>

lemma log_maybe_commit_ok:
  assumes "wf_log l" and "trm \<noteq> 0"
  shows "log_maybe_commit i trm l = Inr (
      if l_committed l < i \<and> log_term_at l (unat i) = trm then (l\<lparr>l_committed := i\<rparr>, True) else (l, False))"
    and "l_committed l < i \<Longrightarrow> log_term_at l (unat i) = trm \<Longrightarrow> wf_log (l\<lparr>l_committed := i\<rparr>)"
proof -
  note w = wf_logD[OF assms(1)]
  have le: "unat i \<le> log_last l" if "log_term_at l (unat i) = trm"
    using match_in_log[of l "unat i"] that assms(2) by simp
  have mx: "max (l_committed l) i = i" if "l_committed l < i" using that by simp
  show "log_maybe_commit i trm l = Inr (
      if l_committed l < i \<and> log_term_at l (unat i) = trm then (l\<lparr>l_committed := i\<rparr>, True) else (l, False))"
    using commit_to_ok(1)[OF assms(1) le] mx by (auto simp: log_maybe_commit_def log_term_ok[OF w(1)])
  show "wf_log (l\<lparr>l_committed := i\<rparr>)" if "l_committed l < i" "log_term_at l (unat i) = trm"
    using commit_to_ok(2)[OF assms(1) le [OF that(2)]] mx[OF that(1)] by simp
qed

text \<open>
  Persisting the unstable entries: the server appends them to the storage and then calls
  \<open>stable_to\<close> with the last of them. The abstract log does not notice.
\<close>

lemma splice_self:
  assumes "contig (b + 1) xs" and "contig k news" and "news \<noteq> []" and "b < k" and "k \<le> b + length xs + 1"
  shows "splice b xs news = take (k - (b + 1)) xs @ news"
  using assms by (cases news) (auto simp: splice_def Let_def)

lemma wf_log_cong:
  assumes "wf_log l" and "wf_log_parts l'" and "log_base l' = log_base l" and "log_ents l' = log_ents l"
    and "l_committed l' = l_committed l"
  shows "wf_log l'"
  using assms by (simp add: wf_log_def log_last_def)

lemma unstable_last:
  assumes "wf_unstable u" and "u_entries u \<noteq> []"
  shows "unat (e_index (last (u_entries u))) + 1 = unat (u_offset u) + length (u_entries u)"
proof -
  have "0 < length (u_entries u)" using assms(2) by simp
  then show ?thesis
    using contig_index[OF wf_unstableD(1)[OF assms(1)], of "length (u_entries u) - 1"] assms(2)
    by (simp add: last_conv_nth)
qed

lemma stable_to_last:
  assumes "wf_unstable u" and "u_entries u \<noteq> []"
  shows "\<exists>o'. unstable_stable_to (e_index (last (u_entries u))) (e_term (last (u_entries u))) u
      = Inr (u\<lparr>u_entries := [], u_offset := o'\<rparr>)
      \<and> unat o' = unat (u_offset u) + length (u_entries u)"
proof -
  let ?i = "e_index (last (u_entries u))"
  have len: "0 < length (u_entries u)" using assms(2) by simp
  have i: "unat ?i + 1 = unat (u_offset u) + length (u_entries u)" by (rule unstable_last [OF assms])
  have pos: "unat (u_offset u) \<le> unat ?i" "unat ?i < unat (u_offset u) + length (u_entries u)"
    "unat ?i - unat (u_offset u) = length (u_entries u) - 1" using i len by linarith+
  then have "unstable_stable_to ?i (e_term (last (u_entries u))) u
      = Inr (u\<lparr>u_entries := drop (unat ?i + 1 - unat (u_offset u)) (u_entries u), u_offset := ?i + 1\<rparr>)"
    using assms(2) by (intro unstable_stable_to_hit [OF assms(1)]) (simp_all add: last_conv_nth)
  moreover have "unat (?i + 1) = unat ?i + 1"
    using i wf_unstableD(2)[OF assms(1)] by (simp add: unat_add_1)
  ultimately show ?thesis using i by (intro exI[of _ "?i + 1"]) simp
qed

lemma log_persist_entries:
  assumes "wf_log l" and "u_snapshot (l_unstable l) = None" and "u_entries (l_unstable l) \<noteq> []"
  defines "es \<equiv> u_entries (l_unstable l)"
  shows "\<exists>st' l'. storage_append es (l_storage l) = Inr (st', Ok)
     \<and> log_stable_to (e_index (last es)) (e_term (last es)) (l\<lparr>l_storage := st'\<rparr>) = Inr l'
     \<and> wf_log l' \<and> u_entries (l_unstable l') = [] \<and> log_base l' = log_base l
     \<and> log_base_term l' = log_base_term l \<and> log_ents l' = log_ents l
     \<and> st_ents st' = log_ents l \<and> l_committed l' = l_committed l \<and> l_applied l' = l_applied l"
proof -
  note w = wf_logD[OF assms(1)]
  let ?u = "l_unstable l" and ?st = "l_storage l"
  have off: "st_base ?st < unat (u_offset ?u)" "unat (u_offset ?u) \<le> st_base ?st + length (st_ents ?st) + 1"
    using w(1) assms(2) by (auto simp: wf_log_parts_def)
  obtain st' where st': "storage_append es ?st = Inr (st', Ok)" "wf_storage st'" "st_base st' = st_base ?st"
      "st_base_term st' = st_base_term ?st" "st_ents st' = splice (st_base ?st) (st_ents ?st) es"
    using storage_append_ok[OF w(2) wf_unstableD(1)[OF w(3)] off(2) wf_unstableD(2)[OF w(3)]] es_def by auto
  have ents: "log_ents l = take (unat (u_offset ?u) - (st_base ?st + 1)) (st_ents ?st) @ es"
    using assms(2) by (simp add: log_ents_def es_def)
  have st_e: "st_ents st' = log_ents l"
    using splice_self[OF stor.contiguous [OF w(2)] wf_unstableD(1)[OF w(3)] assms(3) off] st'(5) ents es_def
    by simp
  obtain o' where o': "unstable_stable_to (e_index (last es)) (e_term (last es)) ?u
      = Inr (?u\<lparr>u_entries := [], u_offset := o'\<rparr>)" "unat o' = unat (u_offset ?u) + length es"
    using stable_to_last[OF w(3) assms(3)] es_def by auto
  define l' where "l' = l\<lparr>l_storage := st', l_unstable := ?u\<lparr>u_entries := [], u_offset := o'\<rparr>\<rparr>"
  have eq: "log_stable_to (e_index (last es)) (e_term (last es)) (l\<lparr>l_storage := st'\<rparr>) = Inr l'"
    using o'(1) by (simp add: log_stable_to_def l'_def)
  have o_st: "unat o' = st_base st' + length (st_ents st') + 1"
    using log_upper[OF w(1)] o'(2) es_def st_e st'(3) assms(2) by (simp add: log_last_def log_base_def)
  have "log_ents l' = st_ents st'" using o_st assms(2) by (simp add: l'_def log_ents_def)
  then have abs: "log_base l' = log_base l" "log_base_term l' = log_base_term l" "log_ents l' = log_ents l"
    using st'(3,4) st_e assms(2) by (simp_all add: l'_def log_base_def log_base_term_def)
  have "wf_unstable (l_unstable l')"
    using o_st assms(2) unat_u64_bound[of o'] by (simp add: wf_unstable_def l'_def)
  then have "wf_log_parts l'"
    using st'(2) o_st assms(2) by (simp add: wf_log_parts_def l'_def)
  then have "wf_log l'" using wf_log_cong[OF assms(1) _ abs(1,3)] by (simp add: l'_def)
  then show ?thesis using st'(1) eq abs st_e by (auto simp: l'_def)
qed

text \<open>
  Installing the pending snapshot: the server writes it to the storage and then calls
  \<open>stable_snap_to\<close> with its index.
\<close>

lemma log_persist_snapshot:
  assumes "wf_log l" and "u_snapshot (l_unstable l) = Some s" and "u_entries (l_unstable l) = []"
    and "s_index (ms_snapshot (l_storage l)) < s_index s"
  shows "\<exists>st'. storage_apply_snapshot s (l_storage l) = (st', Ok)
     \<and> wf_log (log_stable_snap_to (s_index s) (l\<lparr>l_storage := st'\<rparr>))
     \<and> log_base (log_stable_snap_to (s_index s) (l\<lparr>l_storage := st'\<rparr>)) = log_base l
     \<and> log_base_term (log_stable_snap_to (s_index s) (l\<lparr>l_storage := st'\<rparr>)) = log_base_term l
     \<and> log_ents (log_stable_snap_to (s_index s) (l\<lparr>l_storage := st'\<rparr>)) = log_ents l"
proof -
  note w = wf_logD[OF assms(1)]
  have off: "unat (u_offset (l_unstable l)) = unat (s_index s) + 1"
    by (rule wf_unstableD(4) [OF w(3) assms(2)])
  then have "unat (s_index s) + 1 < 2 ^ 64" using wf_unstableD(2)[OF w(3)] by simp
  then obtain st' where st': "storage_apply_snapshot s (l_storage l) = (st', Ok)" "wf_storage st'"
      "st_base st' = unat (s_index s)" "st_base_term st' = s_term s" "st_ents st' = []"
    using storage_apply_snapshot_ok[OF _ assms(4)] by auto
  define l' where "l' = log_stable_snap_to (s_index s) (l\<lparr>l_storage := st'\<rparr>)"
  have l': "l' = l\<lparr>l_storage := st', l_unstable := (l_unstable l)\<lparr>u_snapshot := None\<rparr>\<rparr>"
    using assms(2) by (simp add: l'_def log_stable_snap_to_def unstable_stable_snap_to_def)
  have abs: "log_base l' = log_base l" "log_base_term l' = log_base_term l" "log_ents l' = log_ents l"
    using st' assms(2,3) by (simp_all add: l' log_base_def log_base_term_def log_ents_def)
  have "wf_log_parts l'"
    using w(3) st' off assms(3) by (simp add: wf_log_parts_def wf_unstable_def l')
  then have "wf_log l'" using wf_log_cong[OF assms(1) _ abs(1,3)] by (simp add: l')
  then show ?thesis using st'(1) abs by (auto simp: l'_def)
qed

lemma wf_log_restore:
  assumes "wf_log l" and "unat (s_index s) + 1 < 2 ^ 64"
  shows "wf_log (log_restore s l)" "log_base (log_restore s l) = unat (s_index s)"
    "log_base_term (log_restore s l) = s_term s" "log_ents (log_restore s l) = []"
    "l_committed (log_restore s l) = s_index s"
proof -
  have "wf_unstable (unstable_restore s (l_unstable l))" by (rule wf_unstable_restore [OF assms(2)])
  then have "wf_log_parts (log_restore s l)"
    using wf_logD(2)[OF assms(1)] by (simp add: wf_log_parts_def log_restore_def unstable_restore_def)
  then show "wf_log (log_restore s l)"
    by (simp add: wf_log_def log_restore_def log_base_def log_last_def log_ents_def unstable_restore_def)
qed (simp_all add: log_restore_def log_base_def log_base_term_def log_ents_def unstable_restore_def)

lemma wf_RaftLog:
  assumes "wf_storage st"
  shows "\<exists>l. RaftLog st mx = Inr l \<and> wf_log l \<and> log_base l = st_base st \<and> log_ents l = st_ents st
    \<and> log_base_term l = st_base_term st \<and> l_storage l = st
    \<and> unat (l_committed l) = st_base st \<and> l_applied l = l_committed l"
proof -
  obtain f where f: "storage_first_index st = Inr f" "unat f = st_base st + 1"
    using stor.first_ok[OF assms] by auto
  obtain k where k: "storage_last_index st = Inr k" "unat k = st_base st + length (st_ents st)"
    using stor.last_ok[OF assms] by auto
  have k1: "unat (k + 1) = st_base st + length (st_ents st) + 1"
    using k(2) stor.bounded[OF assms] by (simp add: unat_add_1)
  have f1: "unat (f - 1) = st_base st" using f(2) by (subst unat_sub_1) simp_all
  define l where "l = \<lparr>l_storage = st, l_unstable = Unstable (k + 1), l_committed = f - 1,
      l_applied = f - 1, l_max_next_ents_size = mx\<rparr>"
  have abs: "log_base l = st_base st" "log_ents l = st_ents st" "log_base_term l = st_base_term st"
    using k1 by (simp_all add: l_def log_base_def log_ents_def log_base_term_def Unstable_def)
  have "wf_unstable (Unstable (k + 1))" using k1 by (intro wf_unstable_Unstable) simp
  then have "wf_log_parts l" using assms k1 by (simp add: wf_log_parts_def l_def Unstable_def)
  then have "wf_log l" using abs f1 by (simp add: wf_log_def log_last_def) (simp add: l_def)
  then show ?thesis using f(1) k(1) f1 abs by (auto simp: RaftLog_def l_def)
qed

section \<open>Properties\<close>

text \<open>
  C18: A follower's append. For a well-formed batch right after position \<open>idx\<close>,
  \<open>maybe_append\<close> refuses without effect exactly when the term at \<open>idx\<close> is not the sender's;
  of the other batches it throws on exactly those that contradict a committed entry; with the rest it
  succeeds. Then a batch
  the log already has changes no entry. If the log differs, with \<open>j\<close> the first entry of the batch whose
  position does not have its term, the log becomes what it held before that position, contents
  included, followed by the rest of the batch and nothing else. In both cases every entry of the batch
  is at its position with its term, the committed entries are kept as they were, and the commit
  position becomes the larger of the old one and the sender's, capped at the last new entry.
\<close>

theorem maybe_append_correct:
  assumes "wf_log l" and "app_batch idx trm es l"
  shows "case log_maybe_append idx trm c es l of
      Inr (l', Some n) \<Rightarrow>
        log_term_at l (unat idx) = trm \<and> unat n = unat idx + length es \<and> wf_log l'
        \<and> log_base l' = log_base l \<and> log_has l' es \<and> log_term_at l' (unat idx) = trm
        \<and> take (unat (l_committed l) - log_base l) (log_ents l')
            = take (unat (l_committed l) - log_base l) (log_ents l)
        \<and> (log_has l es \<longrightarrow> log_ents l' = log_ents l)
        \<and> (\<forall>j<length es. log_has l (take j es) \<and> log_term_at l (unat (e_index (es ! j))) \<noteq> e_term (es ! j) \<longrightarrow>
             log_ents l' = take (unat (e_index (es ! j)) - (log_base l + 1)) (log_ents l) @ drop j es)
        \<and> l_applied l' = l_applied l \<and> l_committed l' = max (l_committed l) (min c n)
    | Inr (l', None) \<Rightarrow> l' = l \<and> log_term_at l (unat idx) \<noteq> trm
    | Inl e \<Rightarrow> e = Fatal ''entry conflict with committed entry'' \<and> log_term_at l (unat idx) = trm
        \<and> (\<exists>x\<in>set es. unat (e_index x) \<le> unat (l_committed l)
             \<and> log_term_at l (unat (e_index x)) \<noteq> e_term x)"
proof (cases "log_term_at l (unat idx) = trm")
  case False
  then show ?thesis by (simp add: log_maybe_append_mismatch[OF assms(1)])
next
  case match: True
  note b = app_batchD[OF assms(2)]
  show ?thesis
  proof (cases "\<exists>j. conflict_pos l es = Some j \<and> unat idx + j < unat (l_committed l)")
    case True
    then obtain j where j: "conflict_pos l es = Some j" "unat idx + j < unat (l_committed l)" by auto
    note c = conflict_pos_SomeD[OF j(1)]
    have "unat (e_index (es ! j)) \<le> unat (l_committed l)" using contig_index[OF b(1) c(1)] j(2) by simp
    then show ?thesis
      using log_maybe_append_committed_conflict[OF assms match j] match c(1,2) nth_mem[OF c(1)] by auto
  next
    case False
    then obtain l' where l': "log_maybe_append idx trm c es l = Inr (l', Some (idx + vec_size es))"
        "wf_log l'" "log_base l' = log_base l" "log_base_term l' = log_base_term l"
        "log_ents l' = batch_result idx es l"
        "l_committed l' = max (l_committed l) (min c (idx + vec_size es))"
        "l' = l\<lparr>l_unstable := l_unstable l', l_committed := l_committed l'\<rparr>"
      using log_maybe_append_ok[OF assms match] by (meson not_le_imp_less)
    have app: "l_applied l' = l_applied l" by (subst l'(7)) simp
    have pinned: "log_ents l' = take (unat (e_index (es ! j)) - (log_base l + 1)) (log_ents l) @ drop j es"
      if "j < length es" "log_has l (take j es)" "log_term_at l (unat (e_index (es ! j))) \<noteq> e_term (es ! j)" for j
      using conflict_posI[OF that(1,3)] that(2) l'(5) contig_index[OF b(1) that(1)] by (simp add: batch_result_def log_has_def)
    note t = batch_result_terms[OF assms(2) match l'(3-5)]
    have same: "log_ents l' = log_ents l" if "log_has l es"
    proof -
      have "conflict_pos l es = None"
        using that conflict_pos_SomeD(1,2)[of l es] by (cases "conflict_pos l es") (auto simp: log_has_def)
      then show ?thesis using l'(5) by (simp add: batch_result_def)
    qed
    have "take (unat (l_committed l) - log_base l) (log_ents l')
        = take (unat (l_committed l) - log_base l) (log_ents l)"
    proof (cases "conflict_pos l es")
      case None
      then show ?thesis using l'(5) by (simp add: batch_result_def)
    next
      case (Some j)
      have "unat (l_committed l) \<le> unat idx + j" "unat idx + j \<le> log_last l"
        using False Some batch_in_log[OF assms(2) match, of j] conflict_pos_SomeD[OF Some] by auto
      then show ?thesis using l'(5) Some b(4) by (simp add: batch_result_def log_last_def min_def)
    qed
    then show ?thesis using l'(1-6) t same pinned app match last_new_unat[OF b(2)] by simp
  qed
qed

text \<open>A log with one stable and two unstable entries, the first one committed.\<close>

definition sample_log :: raft_log where
  "sample_log = \<lparr>
     l_storage = MemoryStorage\<lparr>ms_entries := [Entry, Entry\<lparr>e_index := 1, e_term := 1\<rparr>]\<rparr>,
     l_unstable = \<lparr>u_snapshot = None,
        u_entries = [Entry\<lparr>e_index := 2, e_term := 1\<rparr>, Entry\<lparr>e_index := 3, e_term := 2\<rparr>], u_offset = 2\<rparr>,
     l_committed = 1, l_applied = 0, l_max_next_ents_size = - 1\<rparr>"

lemma sample_log_view:
  "log_base sample_log = 0" "log_base_term sample_log = 0"
  "log_ents sample_log = [Entry\<lparr>e_index := 1, e_term := 1\<rparr>, Entry\<lparr>e_index := 2, e_term := 1\<rparr>,
     Entry\<lparr>e_index := 3, e_term := 2\<rparr>]"
  "l_committed sample_log = 1" "l_applied sample_log = 0" "l_max_next_ents_size sample_log = - 1"
  by (simp_all add: sample_log_def log_base_def log_base_term_def log_ents_def st_base_def
      st_base_term_def st_ents_def Entry_def)

lemma wf_sample_log: "wf_log sample_log"
  by (simp add: wf_log_def wf_log_parts_def log_last_def sample_log_view)
    (simp add: sample_log_def wf_storage_def wf_unstable_def st_base_def st_ents_def Entry_def)

lemma sample_log_term: "log_term_at sample_log i = (if i = 1 then 1 else if i = 2 then 1 else if i = 3 then 2 else 0)"
  by (auto simp: log_term_at_def sample_log_view term_at_def Entry_def nth_Cons' numeral_2_eq_2 numeral_3_eq_3)

theorem maybe_append_correct_witness:
  "\<exists>l'. log_maybe_append 1 1 9 [Entry\<lparr>e_index := 2, e_term := 3\<rparr>] sample_log = Inr (l', Some 2)
     \<and> wf_log l' \<and> log_term_at l' 2 = 3 \<and> l_committed l' = 2
     \<and> log_ents l' = [Entry\<lparr>e_index := 1, e_term := 1\<rparr>, Entry\<lparr>e_index := 2, e_term := 3\<rparr>]"
proof -
  let ?es = "[Entry\<lparr>e_index := 2, e_term := 3\<rparr>]"
  have b: "app_batch 1 1 ?es sample_log" by (simp add: app_batch_def sample_log_view)
  have cp: "conflict_pos sample_log ?es = Some 0"
    by (simp add: conflict_pos_def sample_log_term Entry_def)
  have "\<exists>l'. log_maybe_append 1 1 9 ?es sample_log = Inr (l', Some (1 + vec_size ?es))"
    using log_maybe_append_ok[OF wf_sample_log b, of 9] cp by (auto simp: sample_log_term sample_log_view)
  then show ?thesis using maybe_append_correct[OF wf_sample_log b, of 9]
    by (auto simp: vec_size_def log_has_def sample_log_view sample_log_term)
qed

text \<open>
  C22: Reading a range of the log. Between the base and the end of a well-formed log \<open>slice\<close>
  never faults and never reports an error: whatever part of the range is stable or unstable, it
  returns the entries of the abstract log in that range, cut at the size limit. A range that
  starts at or below the base reports the compaction error.
\<close>

theorem log_slice_correct:
  assumes "wf_log l" and "lo \<le> hi" and "unat hi \<le> log_last l + 1"
  shows "log_slice l lo hi mx = Inr (if unat lo \<le> log_base l then Inl err_compacted
     else Inr (entry_limit_size mx (log_between l (unat lo) (unat hi))))"
  using log_slice_ok[OF wf_logD(1)[OF assms(1)] assms(2) _ assms(3)]
    log_slice_compacted[OF wf_logD(1)[OF assms(1)] assms(2)] by auto

theorem log_slice_correct_witness:
  "log_slice sample_log 1 4 (- 1) = Inr (Inr (log_ents sample_log))"
  using log_slice_correct[OF wf_sample_log, of 1 4 "- 1"]
  by (simp add: log_last_def sample_log_view log_between_def)

text \<open>
  C23: What is handed to the state machine. \<open>next_entries\<close> never throws on a well-formed log
  whose apply position is not past the commit position; it returns the committed entries after
  the apply position in order, as many as the size limit allows, and at least one whenever
  \<open>has_next_entries\<close> says there is one.
\<close>

theorem next_entries_correct:
  assumes "wf_log l" and "unat (l_applied l) \<le> unat (l_committed l)"
  shows "\<exists>es. next_entries l = Inr es
     \<and> es = entry_limit_size (l_max_next_ents_size l)
         (log_between l (max (unat (l_applied l)) (log_base l) + 1) (unat (l_committed l) + 1))
     \<and> has_next_entries l = Inr (es \<noteq> [])"
proof -
  note w = wf_logD[OF assms(1)]
  obtain f where f: "log_first_index l = Inr f" "unat f = log_base l + 1"
    using log_first_index_ok[OF w(1)] by auto
  let ?lo = "max (unat (l_applied l)) (log_base l) + 1" and ?hi = "unat (l_committed l) + 1"
  have "unat (l_committed l + 1) = ?hi" "unat (l_applied l + 1) = unat (l_applied l) + 1"
    using assms(2) w(5) log_bounded[OF w(1)] by (simp_all add: unat_add_1)
  then have "l_committed l + 1 > max (l_applied l + 1) f \<longleftrightarrow> ?lo < ?hi"
    using f(2) unfolding max_less_iff_conj by (auto simp: word_less_nat_alt)
  moreover have "log_between l ?lo ?hi = [] \<longleftrightarrow> \<not> ?lo < ?hi"
    using length_log_between[of l ?lo ?hi] w(5) unfolding length_0_conv [symmetric] by auto
  ultimately show ?thesis using next_entries_ok[OF assms] f(1) by (simp add: has_next_entries_def)
qed

theorem next_entries_correct_witness:
  "next_entries sample_log = Inr [Entry\<lparr>e_index := 1, e_term := 1\<rparr>]"
  using next_entries_correct[OF wf_sample_log] by (simp add: sample_log_view log_between_def)

text \<open>
  C21: Persisting is invisible. Writing the unstable entries of a log to the storage and reporting
  the last of them through \<open>stable_to\<close> succeeds, leaves no unstable entry, and keeps the log:
  the entries, every term, both ends, the commit position and the applied position read as before.
\<close>

theorem persist_entries_invisible:
  assumes "wf_log l" and "u_snapshot (l_unstable l) = None" and "u_entries (l_unstable l) \<noteq> []"
  shows "\<exists>st' l'. storage_append (u_entries (l_unstable l)) (l_storage l) = Inr (st', Ok)
     \<and> log_stable_to (e_index (last (u_entries (l_unstable l)))) (e_term (last (u_entries (l_unstable l))))
          (l\<lparr>l_storage := st'\<rparr>) = Inr l'
     \<and> wf_log l' \<and> u_entries (l_unstable l') = [] \<and> st_ents (l_storage l') = log_ents l \<and> log_ents l' = log_ents l
     \<and> (\<forall>i. log_term l' i = log_term l i)
     \<and> log_first_index l' = log_first_index l \<and> log_last_index l' = log_last_index l
     \<and> l_committed l' = l_committed l \<and> l_applied l' = l_applied l"
proof -
  let ?es = "u_entries (l_unstable l)"
  obtain st' l' where l': "storage_append ?es (l_storage l) = Inr (st', Ok)"
      "log_stable_to (e_index (last ?es)) (e_term (last ?es)) (l\<lparr>l_storage := st'\<rparr>) = Inr l'"
      "wf_log l'" "u_entries (l_unstable l') = []" "log_base l' = log_base l"
      "log_base_term l' = log_base_term l" "log_ents l' = log_ents l" "st_ents st' = log_ents l"
      "l_committed l' = l_committed l" "l_applied l' = l_applied l"
    using log_persist_entries[OF assms] by auto
  have "l_storage l' = st'" using l'(2) by (auto simp: log_stable_to_def rbind_Inr_iff)
  moreover have "log_term_at l' = log_term_at l" "log_last l' = log_last l"
    using l'(5-7) by (simp_all add: fun_eq_iff log_term_at_def log_last_def)
  moreover have "log_first_index l' = log_first_index l" "log_last_index l' = log_last_index l"
    using log_first_index_ok[OF wf_logD(1)[OF assms(1)]] log_first_index_ok[OF wf_logD(1)[OF l'(3)]]
      log_last_index_ok[OF wf_logD(1)[OF assms(1)]] log_last_index_ok[OF wf_logD(1)[OF l'(3)]]
      l'(5) calculation(3) by (auto simp: u64_eq_iff)
  ultimately show ?thesis
    using l' log_term_ok[OF wf_logD(1)[OF assms(1)]] log_term_ok[OF wf_logD(1)[OF l'(3)]] by auto
qed

theorem persist_entries_invisible_witness:
  "\<exists>st' l'. storage_append (u_entries (l_unstable sample_log)) (l_storage sample_log) = Inr (st', Ok)
     \<and> log_stable_to 3 2 (sample_log\<lparr>l_storage := st'\<rparr>) = Inr l' \<and> st_ents (l_storage l') = log_ents sample_log"
  using persist_entries_invisible[OF wf_sample_log] by (auto simp: sample_log_def Entry_def)

lemma all_entries_ok:
  assumes "wf_log l"
  shows "all_entries l = Some (Inr (log_ents l))"
proof -
  note w = wf_logD(1)[OF assms]
  obtain f where f: "log_first_index l = Inr f" "unat f = log_base l + 1"
    using log_first_index_ok[OF w] by auto
  then show ?thesis using log_entries_ok[OF w, of f unlimited]
    by (subst all_entries.simps) (simp add: unlimited_def)
qed

end
