(* ===== verification/Raft_Progress.thy ===== *)
theory Raft_Progress
  imports Raft_Proto
begin

text \<open>
  Flow control of the leader, src/raft-kv/raft/progress.h and progress.cpp: \<open>InFlights\<close>, a ring
  buffer of the last indices of the append messages in flight, and \<open>Progress\<close>, the leader's
  view of one follower.

  The ring buffer is shown to implement a bounded FIFO window (locale \<open>flight_window\<close>): \<open>add\<close>
  appends, \<open>free_to\<close> removes the leading elements up to its argument, no access leaves the
  buffer. The lemmas the sender needs are proved from that interface.
\<close>

section \<open>InFlights\<close>

record in_flights =
  if_start :: u32
  if_count :: u32
  if_size :: u32
  if_buffer :: "u64 list"

definition InFlights :: "u64 \<Rightarrow> in_flights" where
  "InFlights max_inflight_msgs =
     \<lparr>if_start = 0, if_count = 0, if_size = ucast max_inflight_msgs, if_buffer = []\<rparr>"

definition inflights_reset :: "in_flights \<Rightarrow> in_flights" where
  "inflights_reset f = f\<lparr>if_start := 0, if_count := 0\<rparr>"

definition inflights_is_full :: "in_flights \<Rightarrow> bool" where
  "inflights_is_full f \<longleftrightarrow> if_size f = if_count f"

text \<open>
  \<open>add\<close>: the sum \<open>start + count\<close> is a 32-bit sum, the wrap at \<open>size\<close> a 64-bit one, and
  the doubled buffer size is cut to 32 bits.
\<close>

definition inflights_grow :: "in_flights \<Rightarrow> u64 \<Rightarrow> u64 list" where
  "inflights_grow f nxt =
     (if nxt \<ge> vec_size (if_buffer f)
      then let doubled = (of_nat (length (if_buffer f) * 2) :: u32);
               new_size = (if doubled = 0 then 1
                           else if doubled > if_size f then if_size f else doubled)
           in vec_resize (if_buffer f) (unat new_size) 0
      else if_buffer f)"

definition inflights_next :: "in_flights \<Rightarrow> u64" where
  "inflights_next f =
     (let nxt = (ucast (if_start f + if_count f) :: u64)
      in if nxt \<ge> ucast (if_size f) then nxt - ucast (if_size f) else nxt)"

definition inflights_add :: "in_flights \<Rightarrow> u64 \<Rightarrow> in_flights res" where
  "inflights_add f inflight =
     (if inflights_is_full f then Inl (Fatal ''cannot add into a full inflights'')
      else let nxt = inflights_next f; buf = inflights_grow f nxt
           in if unat nxt < length buf
              then Inr (f\<lparr>if_buffer := buf[unat nxt := inflight], if_count := if_count f + 1\<rparr>)
              else Inl OutOfRange)"

text \<open>
  The loop of \<open>free_to\<close>: at most \<open>n\<close> more rounds, from position \<open>idx\<close>; it returns how many
  elements it passed and the position it stopped at.
\<close>

primrec free_to_loop :: "u64 list \<Rightarrow> u32 \<Rightarrow> u64 \<Rightarrow> nat \<Rightarrow> u32 \<Rightarrow> (nat \<times> u32) res" where
  "free_to_loop buf sz to 0 idx = Inr (0, idx)"
| "free_to_loop buf sz to (Suc n) idx =
     rbind (vec_at buf (ucast idx)) (\<lambda>v.
       if to < v then Inr (0, idx)
       else let idx' = (if idx + 1 \<ge> sz then idx + 1 - sz else idx + 1)
            in rbind (free_to_loop buf sz to n idx') (\<lambda>(i, j). Inr (Suc i, j)))"

definition inflights_free_to :: "in_flights \<Rightarrow> u64 \<Rightarrow> in_flights res" where
  "inflights_free_to f to =
     (if if_count f = 0 then Inr f
      else rbind (vec_at (if_buffer f) (ucast (if_start f))) (\<lambda>v.
        if to < v then Inr f
        else rbind (free_to_loop (if_buffer f) (if_size f) to (unat (if_count f)) (if_start f))
               (\<lambda>(i, idx).
                  let cnt = if_count f - of_nat i
                  in Inr (f\<lparr>if_count := cnt, if_start := (if cnt = 0 then 0 else idx)\<rparr>))))"

definition inflights_free_first_one :: "in_flights \<Rightarrow> in_flights res" where
  "inflights_free_first_one f =
     rbind (vec_at (if_buffer f) (ucast (if_start f))) (inflights_free_to f)"

section \<open>Progress\<close>

datatype progress_state = ProgressStateProbe | ProgressStateReplicate | ProgressStateSnapshot

record progress =
  pr_match :: u64
  pr_next :: u64
  pr_state :: progress_state
  pr_paused :: bool
  pr_pending_snapshot :: u64
  pr_recent_active :: bool
  pr_inflights :: in_flights
  pr_is_learner :: bool

definition Progress :: "u64 \<Rightarrow> progress" where
  "Progress max_inflight =
     \<lparr>pr_match = 0, pr_next = 0, pr_state = ProgressStateProbe, pr_paused = False,
      pr_pending_snapshot = 0, pr_recent_active = False,
      pr_inflights = InFlights max_inflight, pr_is_learner = False\<rparr>"

definition reset_state :: "progress_state \<Rightarrow> progress \<Rightarrow> progress" where
  "reset_state st p =
     p\<lparr>pr_paused := False, pr_pending_snapshot := 0, pr_state := st,
       pr_inflights := inflights_reset (pr_inflights p)\<rparr>"

definition become_replicate :: "progress \<Rightarrow> progress" where
  "become_replicate p =
     (let q = reset_state ProgressStateReplicate p in q\<lparr>pr_next := pr_match q + 1\<rparr>)"

definition become_probe :: "progress \<Rightarrow> progress" where
  "become_probe p =
     (if pr_state p = ProgressStateSnapshot
      then let pending = pr_pending_snapshot p; q = reset_state ProgressStateProbe p
           in q\<lparr>pr_next := max (pr_match q + 1) (pending + 1)\<rparr>
      else let q = reset_state ProgressStateProbe p in q\<lparr>pr_next := pr_match q + 1\<rparr>)"

definition become_snapshot :: "u64 \<Rightarrow> progress \<Rightarrow> progress" where
  "become_snapshot snapshoti p =
     (reset_state ProgressStateSnapshot p)\<lparr>pr_pending_snapshot := snapshoti\<rparr>"

definition is_paused :: "progress \<Rightarrow> bool" where
  "is_paused p =
     (case pr_state p of
        ProgressStateProbe \<Rightarrow> pr_paused p
      | ProgressStateReplicate \<Rightarrow> inflights_is_full (pr_inflights p)
      | ProgressStateSnapshot \<Rightarrow> True)"

definition set_pause :: "progress \<Rightarrow> progress" where
  "set_pause p = p\<lparr>pr_paused := True\<rparr>"

definition resume :: "progress \<Rightarrow> progress" where
  "resume p = p\<lparr>pr_paused := False\<rparr>"

definition maybe_update :: "u64 \<Rightarrow> progress \<Rightarrow> progress \<times> bool" where
  "maybe_update n p =
     (let updated = pr_match p < n;
          q = (if updated then resume (p\<lparr>pr_match := n\<rparr>) else p);
          q' = (if pr_next q < n + 1 then q\<lparr>pr_next := n + 1\<rparr> else q)
      in (q', updated))"

definition optimistic_update :: "u64 \<Rightarrow> progress \<Rightarrow> progress" where
  "optimistic_update n p = p\<lparr>pr_next := n + 1\<rparr>"

definition maybe_decreases_to :: "u64 \<Rightarrow> u64 \<Rightarrow> progress \<Rightarrow> progress \<times> bool" where
  "maybe_decreases_to rejected lst p =
     (if pr_state p = ProgressStateReplicate
      then if rejected \<le> pr_match p then (p, False)
           else (p\<lparr>pr_next := pr_match p + 1\<rparr>, True)
      else if pr_next p - 1 \<noteq> rejected then (p, False)
      else let n = min rejected (lst + 1); n' = (if n < 1 then 1 else n)
           in (resume (p\<lparr>pr_next := n'\<rparr>), True))"

definition need_snapshot_abort :: "progress \<Rightarrow> bool" where
  "need_snapshot_abort p \<longleftrightarrow>
     pr_state p = ProgressStateSnapshot \<and> pr_match p \<ge> pr_pending_snapshot p"

definition snapshot_failure :: "progress \<Rightarrow> progress" where
  "snapshot_failure p = p\<lparr>pr_pending_snapshot := 0\<rparr>"

lemma dropWhile_sorted_nth:
  assumes "sorted_wrt (<) (xs :: u64 list)" and "k < length xs"
  shows "dropWhile (\<lambda>v. v \<le> xs ! k) xs = drop (Suc k) xs"
  using assms
proof (induction xs arbitrary: k)
  case (Cons y ys)
  show ?case
  proof (cases k)
    case 0
    have "dropWhile (\<lambda>v. v \<le> y) ys = ys"
      using Cons.prems(1) by (cases ys) (auto simp: not_le)
    then show ?thesis using 0 by simp
  next
    case (Suc j)
    then have "y \<le> ys ! j" using Cons.prems by (auto simp: order_less_imp_le)
    then show ?thesis using Cons.IH[of j] Cons.prems Suc by simp
  qed
qed simp

section \<open>The window interface\<close>

text \<open>
  What the sender relies on: a window with a capacity, a full test that is exact, \<open>add\<close> at the
  back, and cumulative acknowledgement at the front.
\<close>

locale flight_window =
  fixes inv :: "'w \<Rightarrow> bool"
    and contents :: "'w \<Rightarrow> u64 list"
    and capacity :: "'w \<Rightarrow> nat"
    and full :: "'w \<Rightarrow> bool"
    and add :: "'w \<Rightarrow> u64 \<Rightarrow> 'w res"
    and free_to :: "'w \<Rightarrow> u64 \<Rightarrow> 'w res"
    and reset :: "'w \<Rightarrow> 'w"
  assumes full_iff: "inv w \<Longrightarrow> full w \<longleftrightarrow> length (contents w) = capacity w"
    and within: "inv w \<Longrightarrow> length (contents w) \<le> capacity w"
    and add_ok: "inv w \<Longrightarrow> \<not> full w \<Longrightarrow>
      \<exists>w'. add w x = Inr w' \<and> inv w' \<and> contents w' = contents w @ [x] \<and> capacity w' = capacity w"
    and free_ok: "inv w \<Longrightarrow>
      \<exists>w'. free_to w x = Inr w' \<and> inv w' \<and> contents w' = dropWhile (\<lambda>v. v \<le> x) (contents w)
           \<and> capacity w' = capacity w"
    and reset_ok: "inv w \<Longrightarrow> inv (reset w) \<and> contents (reset w) = [] \<and> capacity (reset w) = capacity w"
begin

lemma add_all:
  assumes "inv w" and "length (contents w) + length xs \<le> capacity w"
  shows "\<exists>w'. rfold (\<lambda>x w. add w x) xs w = Inr w' \<and> inv w' \<and> contents w' = contents w @ xs
              \<and> capacity w' = capacity w"
  using assms
proof (induction xs arbitrary: w)
  case Nil
  then show ?case by simp
next
  case (Cons x xs)
  then have "\<not> full w" by (simp add: full_iff)
  then obtain v where v: "add w x = Inr v" "inv v" "contents v = contents w @ [x]"
      "capacity v = capacity w"
    using add_ok Cons.prems(1) by blast
  then show ?case using Cons.IH[of v] Cons.prems(2) by auto
qed

lemma ack_nth:
  assumes "inv w" and "sorted_wrt (<) (contents w)" and "k < length (contents w)"
  shows "\<exists>w'. free_to w (contents w ! k) = Inr w' \<and> inv w' \<and> contents w' = drop (Suc k) (contents w)
              \<and> capacity w' = capacity w"
  using free_ok[OF assms(1), of "contents w ! k"] dropWhile_sorted_nth[OF assms(2,3)] by auto

lemma ack_makes_room:
  assumes "inv w" and "free_to w x = Inr w'" and "contents w \<noteq> []" and "hd (contents w) \<le> x"
  shows "\<not> full w'"
proof -
  have w': "inv w'" "contents w' = dropWhile (\<lambda>v. v \<le> x) (contents w)" "capacity w' = capacity w"
    using free_ok[OF assms(1), of x] assms(2) by auto
  have "length (contents w') \<le> length (tl (contents w))"
    using assms(3,4) w'(2) by (cases "contents w") (auto simp: length_dropWhile_le)
  then show ?thesis using w' within[OF assms(1)] assms(3) full_iff[OF w'(1)]
    by (cases "contents w") auto
qed

end

section \<open>The ring buffer implements the window\<close>

definition wf_inflights :: "in_flights \<Rightarrow> bool" where
  "wf_inflights f \<longleftrightarrow>
     0 < unat (if_size f) \<and> unat (if_size f) \<le> 2 ^ 31
     \<and> unat (if_start f) < unat (if_size f) \<and> unat (if_count f) \<le> unat (if_size f)
     \<and> length (if_buffer f) \<le> unat (if_size f)
     \<and> (unat (if_start f) + unat (if_count f) \<le> length (if_buffer f)
        \<or> length (if_buffer f) = unat (if_size f))"

definition ring :: "u64 list \<Rightarrow> nat \<Rightarrow> nat \<Rightarrow> nat \<Rightarrow> u64 list" where
  "ring buf sz start n = map (\<lambda>k. buf ! ((start + k) mod sz)) [0..<n]"

definition inflights_list :: "in_flights \<Rightarrow> u64 list" where
  "inflights_list f = ring (if_buffer f) (unat (if_size f)) (unat (if_start f)) (unat (if_count f))"

lemma ring_0 [simp]: "ring buf sz s 0 = []"
  by (simp add: ring_def)

lemma length_ring [simp]: "length (ring buf sz s n) = n"
  by (simp add: ring_def)

lemma ring_Suc:
  "ring buf sz s (Suc n) = buf ! (s mod sz) # ring buf sz ((s + 1) mod sz) n"
proof -
  have "ring buf sz s (Suc n) = buf ! (s mod sz) # map (\<lambda>k. buf ! ((s + Suc k) mod sz)) [0..<n]"
    by (simp add: ring_def upt_conv_Cons map_Suc_upt[symmetric] del: upt_Suc)
  also have "map (\<lambda>k. buf ! ((s + Suc k) mod sz)) [0..<n] = ring buf sz ((s + 1) mod sz) n"
    by (simp add: ring_def mod_simps)
  finally show ?thesis .
qed

lemma ring_drop:
  assumes "i \<le> n"
  shows "drop i (ring buf sz s n) = ring buf sz ((s + i) mod sz) (n - i)"
  using assms by (auto intro!: nth_equalityI simp: ring_def mod_simps add.assoc)

lemma ring_snoc: "ring buf sz s (Suc n) = ring buf sz s n @ [buf ! ((s + n) mod sz)]"
  by (simp add: ring_def)

lemma wf_inflightsD:
  assumes "wf_inflights f"
  shows "0 < unat (if_size f)" "unat (if_size f) \<le> 2 ^ 31" "unat (if_start f) < unat (if_size f)"
    "unat (if_count f) \<le> unat (if_size f)" "length (if_buffer f) \<le> unat (if_size f)"
  using assms by (simp_all add: wf_inflights_def)

lemma unat_add_u32: "unat (a :: u32) + unat b < 2 ^ 32 \<Longrightarrow> unat (a + b) = unat a + unat b"
  by (simp add: unat_word_ariths)

lemma inflights_next_unat:
  assumes "wf_inflights f" and "\<not> inflights_is_full f"
  shows "unat (inflights_next f) = (unat (if_start f) + unat (if_count f)) mod unat (if_size f)"
proof -
  note w = wf_inflightsD[OF assms(1)]
  have c: "unat (if_count f) < unat (if_size f)"
    using assms(2) w(4) by (metis inflights_is_full_def le_neq_implies_less word_unat_eq_iff)
  let ?n = "ucast (if_start f + if_count f) :: u64"
  have n: "unat ?n = unat (if_start f) + unat (if_count f)"
    using w(2,3) c by (simp add: unat_add_u32)
  show ?thesis
  proof (cases "?n \<ge> ucast (if_size f)")
    case True
    then have ge: "unat (if_size f) \<le> unat ?n" by (simp add: word_le_nat_alt)
    have "unat (?n - ucast (if_size f)) = unat ?n - unat (if_size f)"
      using True by (simp add: unat_sub)
    then show ?thesis using True n ge w(3) c
      by (simp add: inflights_next_def mod_if)
  next
    case False
    then have "unat ?n < unat (if_size f)" by (simp add: word_le_nat_alt)
    then show ?thesis using False n by (simp add: inflights_next_def)
  qed
qed

lemma inflights_count_lt:
  "wf_inflights f \<Longrightarrow> \<not> inflights_is_full f \<Longrightarrow> unat (if_count f) < unat (if_size f)"
  by (metis inflights_is_full_def le_neq_implies_less word_unat_eq_iff wf_inflightsD(4))

text \<open>The next slot is inside the buffer or right behind its end.\<close>

lemma inflights_next_cases:
  assumes "wf_inflights f" and "\<not> inflights_is_full f"
  shows "unat (inflights_next f) < length (if_buffer f)
    \<or> (unat (inflights_next f) = length (if_buffer f)
       \<and> unat (if_start f) + unat (if_count f) = length (if_buffer f)
       \<and> length (if_buffer f) < unat (if_size f))"
proof -
  note w = wf_inflightsD[OF assms(1)]
  have n: "unat (inflights_next f) = (unat (if_start f) + unat (if_count f)) mod unat (if_size f)"
    using inflights_next_unat assms .
  show ?thesis
  proof (cases "length (if_buffer f) = unat (if_size f)")
    case True
    then show ?thesis using n w(1) by simp
  next
    case False
    then have "unat (if_start f) + unat (if_count f) \<le> length (if_buffer f)"
        "length (if_buffer f) < unat (if_size f)"
      using assms(1) by (auto simp: wf_inflights_def)
    then show ?thesis using n by auto
  qed
qed

lemma inflights_grow_props:
  assumes "wf_inflights f" and "\<not> inflights_is_full f"
  defines "buf \<equiv> inflights_grow f (inflights_next f)"
  shows "unat (inflights_next f) < length buf" "length buf \<le> unat (if_size f)"
    "length (if_buffer f) \<le> length buf" "\<forall>i<length (if_buffer f). buf ! i = if_buffer f ! i"
    "length (if_buffer f) = unat (if_size f) \<longrightarrow> buf = if_buffer f"
proof -
  note w = wf_inflightsD[OF assms(1)]
  let ?L = "length (if_buffer f)"
  have L64: "unat (vec_size (if_buffer f)) = ?L"
    using w(2,5) by (simp add: vec_size_unat)
  have "unat (inflights_next f) < length buf \<and> length buf \<le> unat (if_size f)
    \<and> ?L \<le> length buf \<and> (\<forall>i<?L. buf ! i = if_buffer f ! i)
    \<and> (?L = unat (if_size f) \<longrightarrow> buf = if_buffer f)"
  proof (cases "unat (inflights_next f) < ?L")
    case True
    then have "buf = if_buffer f"
      using L64 by (simp add: buf_def inflights_grow_def word_le_nat_alt)
    then show ?thesis using True w by simp
  next
    case False
    then have n: "unat (inflights_next f) = ?L" and lt: "?L < unat (if_size f)"
      using inflights_next_cases[OF assms(1,2)] by auto
    have d: "unat (of_nat (?L * 2) :: u32) = ?L * 2"
      using lt w(2) by (simp add: unat_of_nat take_bit_eq_mod del: of_nat_mult)
    define m where "m = (if (of_nat (?L * 2) :: u32) = 0 then 1
       else if (of_nat (?L * 2) :: u32) > if_size f then if_size f else of_nat (?L * 2))"
    have m: "?L < unat m" "unat m \<le> unat (if_size f)"
      using lt w(1) d by (auto simp: m_def word_less_nat_alt word_unat_eq_iff)
    have "buf = vec_resize (if_buffer f) (unat m) 0"
      using n L64 by (simp add: buf_def inflights_grow_def word_le_nat_alt m_def Let_def)
    then show ?thesis using m n lt by (simp add: vec_resize_def nth_append)
  qed
  then show "unat (inflights_next f) < length buf" "length buf \<le> unat (if_size f)"
    "?L \<le> length buf" "\<forall>i<?L. buf ! i = if_buffer f ! i"
    "?L = unat (if_size f) \<longrightarrow> buf = if_buffer f" by blast+
qed

text \<open>Every slot in use lies inside the buffer.\<close>

lemma inflights_slot_in_buffer:
  assumes "wf_inflights f" and "k < unat (if_count f)"
  shows "(unat (if_start f) + k) mod unat (if_size f) < length (if_buffer f)"
proof -
  note w = wf_inflightsD[OF assms(1)]
  show ?thesis
  proof (cases "length (if_buffer f) = unat (if_size f)")
    case True
    then show ?thesis using w(1) by simp
  next
    case False
    then have "unat (if_start f) + unat (if_count f) \<le> length (if_buffer f)"
      using assms(1) by (auto simp: wf_inflights_def)
    then show ?thesis using assms(2) w(5) by auto
  qed
qed

lemma inflights_add_spec:
  assumes "wf_inflights f" and "\<not> inflights_is_full f"
  shows "\<exists>g. inflights_add f x = Inr g \<and> wf_inflights g
     \<and> inflights_list g = inflights_list f @ [x] \<and> if_size g = if_size f"
proof -
  note w = wf_inflightsD[OF assms(1)]
  define n where "n = inflights_next f"
  define buf where "buf = inflights_grow f n"
  define g where "g = f\<lparr>if_buffer := buf[unat n := x], if_count := if_count f + 1\<rparr>"
  note gp = inflights_grow_props[OF assms, folded n_def, folded buf_def]
  have c: "unat (if_count f) < unat (if_size f)" using inflights_count_lt assms .
  have c1: "unat (if_count f + 1) = unat (if_count f) + 1"
    using c w(2) by (subst unat_add_u32) simp_all
  have nu: "unat n = (unat (if_start f) + unat (if_count f)) mod unat (if_size f)"
    using inflights_next_unat[OF assms] by (simp add: n_def)
  have eq: "inflights_add f x = Inr g"
    using assms(2) gp(1) by (simp add: inflights_add_def n_def buf_def g_def Let_def)
  have "unat (if_start f) + unat (if_count f) + 1 \<le> length buf \<or> length buf = unat (if_size f)"
  proof (cases "length (if_buffer f) = unat (if_size f)")
    case False
    then have "unat (if_start f) + unat (if_count f) < unat (if_size f)"
      using assms(1) w(5) by (auto simp: wf_inflights_def)
    then show ?thesis using gp(1) nu by simp
  qed (use gp(2,3) in simp)
  then have wf: "wf_inflights g"
    using w gp(1,2) c c1 by (auto simp: wf_inflights_def g_def)
  have "inflights_list g = ring (buf[unat n := x]) (unat (if_size f)) (unat (if_start f))
      (unat (if_count f)) @ [buf[unat n := x] ! unat n]"
    by (simp add: inflights_list_def g_def c1 ring_snoc nu)
  moreover have "ring (buf[unat n := x]) (unat (if_size f)) (unat (if_start f)) (unat (if_count f))
      = inflights_list f"
  proof (rule nth_equalityI)
    fix k assume "k < length (ring (buf[unat n := x]) (unat (if_size f)) (unat (if_start f)) (unat (if_count f)))"
    then have k: "k < unat (if_count f)" by simp
    have "(unat (if_start f) + k) mod unat (if_size f) \<noteq> unat n"
      using k c w(3) by (auto simp: nu mod_if split: if_splits)
    then show "ring (buf[unat n := x]) (unat (if_size f)) (unat (if_start f)) (unat (if_count f)) ! k
        = inflights_list f ! k"
      using k gp(4) inflights_slot_in_buffer[OF assms(1) k]
      by (simp add: inflights_list_def ring_def)
  qed (simp add: inflights_list_def)
  ultimately show ?thesis using eq wf gp(1) by (simp add: g_def)
qed

lemma free_to_loop_spec:
  assumes "unat idx < unat sz" and "unat sz \<le> 2 ^ 31"
    and "\<And>k. k < n \<Longrightarrow> (unat idx + k) mod unat sz < length buf"
  shows "\<exists>j. free_to_loop buf sz to n idx
      = Inr (length (takeWhile (\<lambda>v. v \<le> to) (ring buf (unat sz) (unat idx) n)), j)
     \<and> unat j = (unat idx + length (takeWhile (\<lambda>v. v \<le> to) (ring buf (unat sz) (unat idx) n)))
                 mod unat sz"
  using assms
proof (induction n arbitrary: idx)
  case 0
  then show ?case by simp
next
  case (Suc n)
  have i0: "unat idx < length buf" using Suc.prems(1) Suc.prems(3)[of 0] by simp
  have at: "vec_at buf (ucast idx) = Inr (buf ! unat idx)"
    using i0 by (simp add: vec_at_def)
  have head: "buf ! (unat idx mod unat sz) = buf ! unat idx" using Suc.prems(1) by simp
  show ?case
  proof (cases "to < buf ! unat idx")
    case True
    then have "\<not> buf ! unat idx \<le> to" by simp
    then show ?thesis using True at head Suc.prems(1) by (simp add: ring_Suc)
  next
    case False
    define idx' where "idx' = (if idx + 1 \<ge> sz then idx + 1 - sz else idx + 1)"
    have i1: "unat (idx + 1) = unat idx + 1"
      using Suc.prems(1,2) by (subst unat_add_u32) simp_all
    have idx': "unat idx' = (unat idx + 1) mod unat sz"
      using i1 Suc.prems(1)
      by (auto simp: idx'_def word_le_nat_alt unat_sub mod_if)
    have "(unat idx' + k) mod unat sz < length buf" if "k < n" for k
      using Suc.prems(3)[of "Suc k"] that by (simp add: idx' mod_simps)
    then obtain j where j: "free_to_loop buf sz to n idx'
        = Inr (length (takeWhile (\<lambda>v. v \<le> to) (ring buf (unat sz) (unat idx') n)), j)"
      "unat j = (unat idx' + length (takeWhile (\<lambda>v. v \<le> to) (ring buf (unat sz) (unat idx') n)))
                 mod unat sz"
      using Suc.IH[of idx'] Suc.prems(1,2) idx' by auto
    have "free_to_loop buf sz to (Suc n) idx
       = Inr (Suc (length (takeWhile (\<lambda>v. v \<le> to) (ring buf (unat sz) (unat idx') n))), j)"
      using False at j(1) by (simp add: idx'_def[symmetric])
    then show ?thesis using False j(2) idx' head
      by (simp add: ring_Suc mod_simps)
  qed
qed

lemma length_takeWhile_dropWhile:
  "drop (length (takeWhile P xs)) xs = dropWhile P xs"
  by (induction xs) auto

lemma inflights_free_to_spec:
  assumes "wf_inflights f"
  shows "\<exists>g. inflights_free_to f to = Inr g \<and> wf_inflights g
     \<and> inflights_list g = dropWhile (\<lambda>v. v \<le> to) (inflights_list f) \<and> if_size g = if_size f"
proof -
  note w = wf_inflightsD[OF assms]
  define t where "t = length (takeWhile (\<lambda>v. v \<le> to) (inflights_list f))"
  have tc: "t \<le> unat (if_count f)"
    using length_takeWhile_le[of "\<lambda>v. v \<le> to" "inflights_list f"] by (simp add: t_def inflights_list_def)
  show ?thesis
  proof (cases "if_count f = 0")
    case True
    then show ?thesis using assms by (simp add: inflights_free_to_def inflights_list_def)
  next
    case False
    then obtain c where c: "unat (if_count f) = Suc c"
      by (metis not0_implies_Suc unat_eq_zero)
    have s0: "unat (if_start f) < length (if_buffer f)"
      using inflights_slot_in_buffer[OF assms, of 0] c w(3) by simp
    have at: "vec_at (if_buffer f) (ucast (if_start f)) = Inr (if_buffer f ! unat (if_start f))"
      using s0 by (simp add: vec_at_def)
    show ?thesis
    proof (cases "to < if_buffer f ! unat (if_start f)")
      case True
      then have "dropWhile (\<lambda>v. v \<le> to) (inflights_list f) = inflights_list f"
        using c w(3) by (simp add: inflights_list_def ring_Suc not_le)
      then show ?thesis using True False at assms by (simp add: inflights_free_to_def)
    next
      case le: False
      obtain j where j: "free_to_loop (if_buffer f) (if_size f) to (unat (if_count f)) (if_start f) = Inr (t, j)"
        "unat j = (unat (if_start f) + t) mod unat (if_size f)"
        using free_to_loop_spec[OF w(3,2), of "unat (if_count f)" "if_buffer f" to]
          inflights_slot_in_buffer[OF assms]
        by (auto simp: t_def inflights_list_def)
      define cnt where "cnt = if_count f - of_nat t"
      define g where "g = f\<lparr>if_count := cnt, if_start := (if cnt = 0 then 0 else j)\<rparr>"
      have t32: "unat (of_nat t :: u32) = t"
        using tc unat_u32_bound[of "if_count f"] by (simp add: unat_of_nat take_bit_eq_mod)
      have cnt: "unat cnt = unat (if_count f) - t"
        using tc t32 by (simp add: cnt_def unat_sub word_le_nat_alt)
      have eq: "inflights_free_to f to = Inr g"
        using False at le j(1) by (simp add: inflights_free_to_def g_def cnt_def Let_def)
      have lst: "inflights_list g = dropWhile (\<lambda>v. v \<le> to) (inflights_list f)"
      proof -
        have "dropWhile (\<lambda>v. v \<le> to) (inflights_list f) = drop t (inflights_list f)"
          by (simp add: t_def length_takeWhile_dropWhile)
        also have "\<dots> = ring (if_buffer f) (unat (if_size f)) (unat j) (unat cnt)"
          using tc j(2) cnt by (simp add: inflights_list_def ring_drop)
        also have "\<dots> = inflights_list g"
          by (auto simp: inflights_list_def g_def)
        finally show ?thesis by simp
      qed
      have "unat (if_start f) + t < unat (if_size f)"
        if "cnt \<noteq> 0" "length (if_buffer f) \<noteq> unat (if_size f)"
      proof -
        have "t < unat (if_count f)" using that(1) cnt tc by (metis le_neq_implies_less diff_self_eq_0 unat_eq_zero)
        then show ?thesis using assms that(2) w(5) by (auto simp: wf_inflights_def)
      qed
      then have "wf_inflights g"
        using w assms j(2) cnt tc by (auto simp: wf_inflights_def g_def)
      then show ?thesis using eq lst by (simp add: g_def)
    qed
  qed
qed

interpretation inflights: flight_window wf_inflights inflights_list "\<lambda>f. unat (if_size f)"
  inflights_is_full inflights_add inflights_free_to inflights_reset
proof unfold_locales
  fix f :: in_flights and x :: u64
  assume wf: "wf_inflights f"
  show "inflights_is_full f \<longleftrightarrow> length (inflights_list f) = unat (if_size f)"
    by (auto simp: inflights_is_full_def inflights_list_def word_unat_eq_iff)
  show "length (inflights_list f) \<le> unat (if_size f)"
    using wf by (simp add: inflights_list_def wf_inflights_def)
  show "\<exists>g. inflights_free_to f x = Inr g \<and> wf_inflights g
      \<and> inflights_list g = dropWhile (\<lambda>v. v \<le> x) (inflights_list f)
      \<and> unat (if_size g) = unat (if_size f)"
    using inflights_free_to_spec[OF wf] by metis
  show "wf_inflights (inflights_reset f) \<and> inflights_list (inflights_reset f) = []
      \<and> unat (if_size (inflights_reset f)) = unat (if_size f)"
    using wf by (auto simp: wf_inflights_def inflights_reset_def inflights_list_def)
  show "\<exists>g. inflights_add f x = Inr g \<and> wf_inflights g \<and> inflights_list g = inflights_list f @ [x]
      \<and> unat (if_size g) = unat (if_size f)" if "\<not> inflights_is_full f"
    using inflights_add_spec[OF wf that] by metis
qed

section \<open>Well-formed progress\<close>

text \<open>
  The invariant of one follower's progress: its window is well formed and the next index to send
  is never 0, so that \<open>next - 1\<close>, the index in front of the batch, does not wrap around.
\<close>

definition wf_progress :: "progress \<Rightarrow> bool" where
  "wf_progress p \<longleftrightarrow> wf_inflights (pr_inflights p) \<and> 1 \<le> pr_next p"

lemma wf_InFlights:
  "0 < unat mx \<Longrightarrow> unat mx \<le> 2 ^ 31 \<Longrightarrow> wf_inflights (InFlights mx)"
  by (simp add: wf_inflights_def InFlights_def unsigned_ucast_eq take_bit_nat_eq_self)

lemma wf_inflights_reset [wf_intros]: "wf_inflights f \<Longrightarrow> wf_inflights (inflights_reset f)"
  using inflights.reset_ok by blast

lemma u64_ge_1: "(n :: u64) \<noteq> 0 \<Longrightarrow> 1 \<le> n"
  by (simp add: word_le_nat_alt Suc_le_eq unat_gt_0)

lemma u64_add_1_neq_0: "(a :: u64) \<noteq> - 1 \<Longrightarrow> 1 \<le> a + 1"
  by (rule u64_ge_1) (simp add: eq_neg_iff_add_eq_0)

lemma u64_clamp_1: "(if n = (0 :: u64) then 1 else n) = max 1 n"
  by (cases "n = 0") (simp_all add: max_absorb2 u64_ge_1)

lemma u64_pred_less: "1 \<le> (n :: u64) \<Longrightarrow> n - 1 < n"
  by (simp add: word_less_nat_alt word_le_nat_alt unat_sub)

lemma wf_reset_state [wf_intros]: "wf_progress p \<Longrightarrow> wf_progress (reset_state st p)"
  by (simp add: wf_progress_def reset_state_def wf_inflights_reset)

lemma wf_become_replicate [wf_intros]:
  "wf_progress p \<Longrightarrow> pr_match p \<noteq> - 1 \<Longrightarrow> wf_progress (become_replicate p)"
  by (simp add: wf_progress_def become_replicate_def reset_state_def wf_inflights_reset
      u64_add_1_neq_0)

lemma wf_become_probe [wf_intros]:
  "wf_progress p \<Longrightarrow> pr_match p \<noteq> - 1 \<Longrightarrow> wf_progress (become_probe p)"
  by (auto simp: wf_progress_def become_probe_def reset_state_def wf_inflights_reset Let_def
      intro: u64_add_1_neq_0 order_trans [OF u64_add_1_neq_0 max.cobounded1])

lemma wf_become_snapshot [wf_intros]: "wf_progress p \<Longrightarrow> wf_progress (become_snapshot i p)"
  by (simp add: wf_progress_def become_snapshot_def reset_state_def wf_inflights_reset)

lemma wf_set_pause [wf_intros]: "wf_progress p \<Longrightarrow> wf_progress (set_pause p)"
  by (simp add: wf_progress_def set_pause_def)

lemma wf_resume [wf_intros]: "wf_progress p \<Longrightarrow> wf_progress (resume p)"
  by (simp add: wf_progress_def resume_def)

lemma wf_snapshot_failure [wf_intros]: "wf_progress p \<Longrightarrow> wf_progress (snapshot_failure p)"
  by (simp add: wf_progress_def snapshot_failure_def)

lemma wf_maybe_update [wf_intros]: "wf_progress p \<Longrightarrow> wf_progress (fst (maybe_update n p))"
  by (auto simp: wf_progress_def maybe_update_def resume_def Let_def intro: order_trans)

lemma wf_maybe_decreases_to [wf_intros]:
  "wf_progress p \<Longrightarrow> pr_match p \<noteq> - 1 \<Longrightarrow> wf_progress (fst (maybe_decreases_to r l p))"
  by (auto simp: wf_progress_def maybe_decreases_to_def resume_def Let_def u64_add_1_neq_0
      u64_clamp_1)

section \<open>Properties\<close>

text \<open>
  C26: The in-flight window is a FIFO with cumulative acknowledgement. Recording a batch of
  increasing last indices in a window with room for it never faults, and acknowledging the k-th
  index then frees exactly the first k + 1 recorded messages, in order, keeping the rest.
\<close>

theorem inflights_batch_ack:
  assumes "wf_inflights f" and "sorted_wrt (<) (inflights_list f @ xs)"
    and "length (inflights_list f) + length xs \<le> unat (if_size f)"
    and "k < length (inflights_list f @ xs)"
  shows "\<exists>g h. rfold (\<lambda>x f. inflights_add f x) xs f = Inr g
     \<and> inflights_free_to g ((inflights_list f @ xs) ! k) = Inr h
     \<and> wf_inflights h \<and> inflights_list h = drop (Suc k) (inflights_list f @ xs)"
proof -
  obtain g where g: "rfold (\<lambda>x f. inflights_add f x) xs f = Inr g" "wf_inflights g"
      "inflights_list g = inflights_list f @ xs"
    using inflights.add_all[OF assms(1,3)] by auto
  then show ?thesis using inflights.ack_nth[of g k] assms(2,4) by auto
qed

theorem inflights_batch_ack_witness:
  "\<exists>g h. rfold (\<lambda>x f. inflights_add f x) [3, 5, 8] (InFlights 4) = Inr g
     \<and> inflights_free_to g 5 = Inr h \<and> wf_inflights h \<and> inflights_list h = [8]"
proof -
  have wf: "wf_inflights (InFlights 4)" by (rule wf_InFlights) simp_all
  have l: "inflights_list (InFlights 4) = []"
    by (simp add: inflights_list_def InFlights_def)
  have sz: "unat (if_size (InFlights 4)) = 4" by (simp add: InFlights_def)
  show ?thesis using inflights_batch_ack[OF wf, of "[3, 5, 8]" 1] by (simp add: l sz)
qed

text \<open>
  A rejected probe moves \<open>next\<close> back to \<open>min (next - 1) (hint + 1)\<close> but never below 1, so
  every accepted rejection either strictly decreases \<open>next\<close> or finds it already at 1, and the
  follower is unpaused; a rejection that does not answer the outstanding probe changes nothing.
\<close>

lemma probe_rejection:
  assumes "pr_state p \<noteq> ProgressStateReplicate" and "1 \<le> pr_next p"
    and "maybe_decreases_to rejected hint p = (q, ok)"
  shows "if ok
     then rejected = pr_next p - 1 \<and> pr_next q = max 1 (min (pr_next p - 1) (hint + 1))
          \<and> (pr_next q < pr_next p \<or> pr_next p = 1) \<and> \<not> pr_paused q \<and> pr_match q = pr_match p
     else q = p \<and> rejected \<noteq> pr_next p - 1"
proof (cases "pr_next p - 1 = rejected")
  case True
  have q: "q = resume (p\<lparr>pr_next := max 1 (min rejected (hint + 1))\<rparr>)" "ok"
    using assms(1,3) True by (simp_all add: maybe_decreases_to_def Let_def u64_clamp_1)
  have "max 1 (min rejected (hint + 1)) < pr_next p \<or> pr_next p = 1"
    using u64_pred_less[OF assms(2)] assms(2) True by (auto simp: min_less_iff_disj)
  then show ?thesis using q True by (simp add: resume_def)
next
  case False
  then show ?thesis using assms(1,3) by (auto simp: maybe_decreases_to_def)
qed

text \<open>
  An acknowledgement moves \<open>match\<close> and \<open>next\<close> only forwards, to the acknowledged index and
  the one after it, and reports exactly whether \<open>match\<close> grew.
\<close>

lemma progress_ack_monotone:
  assumes "n \<noteq> - 1" and "maybe_update n p = (q, updated)"
  shows "pr_match q = max (pr_match p) n \<and> pr_next q = max (pr_next p) (n + 1)
    \<and> (updated \<longleftrightarrow> pr_match p < n) \<and> pr_state q = pr_state p
    \<and> pr_inflights q = pr_inflights p"
  using assms(2) by (auto simp: maybe_update_def resume_def Let_def max_def split: if_splits)

end
