(* ===== verification/Raft_Config.thy ===== *)
theory Raft_Config
  imports Raft_Storage
begin

text \<open>
  The configuration of a node, src/raft-kv/raft/config.h and config.cpp, and the random device of
  src/raft-kv/common/random_device.h and random_device.cpp.
\<close>

datatype read_only_option = ReadOnlySafe | ReadOnlyLeaseBased

record config =
  c_id :: u64
  c_peers :: "u64 list"
  c_learners :: "u64 list"
  c_election_tick :: u32
  c_heartbeat_tick :: u32
  c_storage :: "mem_storage option"
  c_applied :: u64
  c_max_size_per_msg :: u64
  c_max_committed_size_per_ready :: u64
  c_max_uncommitted_entries_size :: u64
  c_max_inflight_msgs :: u64
  c_check_quorum :: bool
  c_pre_vote :: bool
  c_read_only_option :: read_only_option
  c_disable_proposal_forwarding :: bool

definition Config :: config where
  "Config = \<lparr>c_id = 0, c_peers = [], c_learners = [], c_election_tick = 0, c_heartbeat_tick = 0,
     c_storage = None, c_applied = 0, c_max_size_per_msg = 0, c_max_committed_size_per_ready = 0,
     c_max_uncommitted_entries_size = 0, c_max_inflight_msgs = 0, c_check_quorum = False,
     c_pre_vote = False, c_read_only_option = ReadOnlySafe, c_disable_proposal_forwarding = False\<rparr>"

text \<open>
  \<open>validate\<close> checks the fields in order and fills in two defaults on the way; the defaults it
  filled in before a failing check stay.
\<close>

definition config_validate :: "config \<Rightarrow> config \<times> status" where
  "config_validate c =
     (if c_id c = 0 then (c, invalid_argument ''cannot use none as id'')
      else if c_heartbeat_tick c \<le> 0
        then (c, invalid_argument ''heartbeat tick must be greater than 0'')
      else if c_election_tick c \<le> c_heartbeat_tick c
        then (c, invalid_argument ''election tick must be greater than heartbeat tick'')
      else if c_storage c = None then (c, invalid_argument ''storage cannot be nil'')
      else
        let c1 = (if c_max_uncommitted_entries_size c = 0
                  then c\<lparr>c_max_uncommitted_entries_size := - 1\<rparr> else c);
            c2 = (if c_max_committed_size_per_ready c1 = 0
                  then c1\<lparr>c_max_committed_size_per_ready := c_max_size_per_msg c1\<rparr> else c1)
        in if c_max_inflight_msgs c2 \<le> 0
             then (c2, invalid_argument ''max inflight messages must be greater than 0'')
           else if c_read_only_option c2 = ReadOnlyLeaseBased \<and> \<not> c_check_quorum c2
             then (c2, invalid_argument
               ''check_quorum must be enabled when read_only_option is ReadOnlyLeaseBased'')
           else (c2, Ok))"

text \<open>
  The random device draws from a uniform distribution over \<open>[min, max]\<close>. The model keeps the
  bounds, the sequence of values the generator is going to deliver and the position in it; that
  the distribution stays within its bounds is the predicate \<open>rd_fair\<close>.
\<close>

record random_device =
  rd_min :: u32
  rd_max :: u32
  rd_draws :: "nat \<Rightarrow> u32"
  rd_pos :: nat

definition RandomDevice :: "u32 \<Rightarrow> u32 \<Rightarrow> (nat \<Rightarrow> u32) \<Rightarrow> random_device" where
  "RandomDevice mn mx draws = \<lparr>rd_min = mn, rd_max = mx, rd_draws = draws, rd_pos = 0\<rparr>"

definition rd_gen :: "random_device \<Rightarrow> random_device \<times> u32" where
  "rd_gen d = (d\<lparr>rd_pos := rd_pos d + 1\<rparr>, rd_draws d (rd_pos d))"

definition rd_fair :: "random_device \<Rightarrow> bool" where
  "rd_fair d \<longleftrightarrow> (\<forall>n. rd_min d \<le> rd_draws d n \<and> rd_draws d n \<le> rd_max d)"

text \<open>
  C27: Validation. A configuration passes exactly when it has an id, a storage and in-flight room,
  its election tick is longer than its positive heartbeat tick, and lease-based reads come with
  quorum checks. Validation then changes nothing but the two size defaults, and what it returns
  passes again unchanged.
\<close>

theorem config_validate_correct:
  "let (c', s) = config_validate c in
     (is_ok s \<longleftrightarrow> c_id c \<noteq> 0 \<and> 0 < c_heartbeat_tick c \<and> c_heartbeat_tick c < c_election_tick c
        \<and> c_storage c \<noteq> None \<and> c_max_inflight_msgs c \<noteq> 0
        \<and> (if c_read_only_option c = ReadOnlyLeaseBased then c_check_quorum c else True))
     \<and> c' = c\<lparr>c_max_uncommitted_entries_size := c_max_uncommitted_entries_size c',
              c_max_committed_size_per_ready := c_max_committed_size_per_ready c'\<rparr>
     \<and> (if is_ok s then c_max_uncommitted_entries_size c' \<noteq> 0 \<and> config_validate c' = (c', Ok) else True)"
  by (cases "c_max_uncommitted_entries_size c = 0"; cases "c_max_committed_size_per_ready c = 0")
    (auto simp: config_validate_def invalid_argument_def Let_def not_less word_gt_0)

end
