(* ===== verification/Raft_ReadOnly.thy ===== *)
theory Raft_ReadOnly
  imports Raft_Config
begin

text \<open>
  The bookkeeping of pending read requests, src/raft-kv/raft/readonly.h and readonly.cpp. A request
  is identified by its context, the data of the first entry of the request message; contexts are
  byte strings. The pending requests are a map with their arrival order beside it.
\<close>

record read_state =
  rs_index :: u64
  rs_request_ctx :: bytes

definition read_state_equal :: "read_state \<Rightarrow> read_state \<Rightarrow> bool" where
  "read_state_equal a b \<longleftrightarrow> rs_index a = rs_index b \<and> rs_request_ctx a = rs_request_ctx b"

record read_index_status =
  ris_req :: message
  ris_index :: u64
  ris_acks :: "u64 list"

record read_only =
  ro_option :: read_only_option
  ro_pending :: "(bytes \<times> read_index_status) list"
  ro_queue :: "bytes list"

definition ReadOnly :: "read_only_option \<Rightarrow> read_only" where
  "ReadOnly opt = \<lparr>ro_option = opt, ro_pending = [], ro_queue = []\<rparr>"

text \<open>The caller passes an empty context to be filled.\<close>

definition last_pending_request_ctx :: "read_only \<Rightarrow> bytes" where
  "last_pending_request_ctx ro = (if ro_queue ro = [] then [] else last (ro_queue ro))"

text \<open>The acknowledgements are a set: a list without repetitions.\<close>

definition recv_ack :: "message \<Rightarrow> read_only \<Rightarrow> read_only \<times> u32" where
  "recv_ack m ro =
     (case map_of (ro_pending ro) (m_context m) of
        None \<Rightarrow> (ro, 0)
      | Some rs \<Rightarrow>
          let rs' = rs\<lparr>ris_acks := List.insert (m_from m) (ris_acks rs)\<rparr>
          in (ro\<lparr>ro_pending := AList.update (m_context m) rs' (ro_pending ro)\<rparr>,
              of_nat (length (ris_acks rs')) + 1))"

text \<open>
  The loop of \<open>advance\<close> over the queue: the statuses collected, the number of contexts seen, and
  whether the acknowledged context was met.
\<close>

fun advance_loop :: "(bytes \<times> read_index_status) list \<Rightarrow> bytes \<Rightarrow> bytes list
    \<Rightarrow> (read_index_status list \<times> nat \<times> bool) res" where
  "advance_loop pend ctx [] = Inr ([], 0, False)"
| "advance_loop pend ctx (okctx # q) =
     (case map_of pend okctx of
        None \<Rightarrow> Inl (Fatal ''cannot find corresponding read state from pending map'')
      | Some rs \<Rightarrow>
          if okctx = ctx then Inr ([rs], 1, True)
          else rbind (advance_loop pend ctx q) (\<lambda>(rss, i, found). Inr (rs # rss, i + 1, found)))"

definition erase_request :: "read_index_status \<Rightarrow> (bytes \<times> read_index_status) list
    \<Rightarrow> (bytes \<times> read_index_status) list res" where
  "erase_request rs pend =
     rbind (vec_front (m_entries (ris_req rs))) (\<lambda>e. Inr (AList.delete (e_data e) pend))"

definition advance :: "message \<Rightarrow> read_only \<Rightarrow> (read_only \<times> read_index_status list) res" where
  "advance m ro =
     rbind (advance_loop (ro_pending ro) (m_context m) (ro_queue ro)) (\<lambda>(rss, i, found).
       if found
       then rbind (rfold erase_request rss (ro_pending ro)) (\<lambda>pend.
              Inr (ro\<lparr>ro_queue := drop i (ro_queue ro), ro_pending := pend\<rparr>, rss))
       else Inr (ro, rss))"

definition add_request :: "u64 \<Rightarrow> message \<Rightarrow> read_only \<Rightarrow> read_only res" where
  "add_request idx m ro =
     rbind (vec_front (m_entries m)) (\<lambda>e.
       let ctx = e_data e in
       if map_of (ro_pending ro) ctx \<noteq> None then Inr ro
       else Inr (ro\<lparr>ro_pending := AList.update ctx \<lparr>ris_req = m, ris_index = idx, ris_acks = []\<rparr> (ro_pending ro),
                   ro_queue := ro_queue ro @ [ctx]\<rparr>))"

section \<open>The invariant\<close>

text \<open>
  The queue lists each pending context once, and every pending request carries its own context.
\<close>

definition req_ctx :: "read_index_status \<Rightarrow> bytes \<Rightarrow> bool" where
  "req_ctx rs ctx \<longleftrightarrow> (case m_entries (ris_req rs) of [] \<Rightarrow> False | e # _ \<Rightarrow> e_data e = ctx)"

definition wf_read_only :: "read_only \<Rightarrow> bool" where
  "wf_read_only ro \<longleftrightarrow>
     distinct (ro_queue ro) \<and> distinct (map fst (ro_pending ro))
     \<and> set (ro_queue ro) = fst ` set (ro_pending ro)
     \<and> (\<forall>(ctx, rs)\<in>set (ro_pending ro). req_ctx rs ctx \<and> distinct (ris_acks rs))"

lemma wf_ReadOnly [wf_intros]: "wf_read_only (ReadOnly opt)"
  by (simp add: wf_read_only_def ReadOnly_def)

lemma wf_read_only_clear: "wf_read_only (ro\<lparr>ro_pending := [], ro_queue := []\<rparr>)"
  by (simp add: wf_read_only_def)

lemma wf_read_onlyD:
  assumes "wf_read_only ro"
  shows "distinct (ro_queue ro)" "distinct (map fst (ro_pending ro))"
    "set (ro_queue ro) = fst ` set (ro_pending ro)"
    "map_of (ro_pending ro) ctx = Some rs \<Longrightarrow> req_ctx rs ctx \<and> distinct (ris_acks rs)"
  using assms by (auto simp: wf_read_only_def dest: map_of_SomeD)

lemma set_update_subset: "set (AList.update k v al) \<subseteq> insert (k, v) (set al)"
  by (induction al) auto

lemma wf_add_request [wf_intros]:
  assumes "wf_read_only ro" and "add_request idx m ro = Inr ro'"
  shows "wf_read_only ro'"
proof -
  obtain e es where e: "m_entries m = e # es"
    using assms(2) by (cases "m_entries m") (auto simp: add_request_def)
  show ?thesis
  proof (cases "map_of (ro_pending ro) (e_data e)")
    case None
    let ?s = "\<lparr>ris_req = m, ris_index = idx, ris_acks = []\<rparr>"
    have ro': "ro' = ro\<lparr>ro_pending := AList.update (e_data e) ?s (ro_pending ro), ro_queue := ro_queue ro @ [e_data e]\<rparr>"
      using assms(2) e None by (simp add: add_request_def Let_def)
    have "e_data e \<notin> fst ` set (ro_pending ro)" using None by (simp add: map_of_eq_None_iff)
    then show ?thesis
      using assms(1) e set_update_subset[of "e_data e" ?s "ro_pending ro"]
      by (auto simp: wf_read_only_def ro' distinct_update dom_update req_ctx_def)
  next
    case (Some rs)
    then show ?thesis using assms e by (simp add: add_request_def Let_def)
  qed
qed

lemma wf_recv_ack [wf_intros]:
  assumes "wf_read_only ro"
  shows "wf_read_only (fst (recv_ack m ro))"
proof (cases "map_of (ro_pending ro) (m_context m)")
  case (Some rs)
  let ?s = "rs\<lparr>ris_acks := List.insert (m_from m) (ris_acks rs)\<rparr>"
  have "req_ctx ?s (m_context m) \<and> distinct (ris_acks ?s)"
    using wf_read_onlyD(4)[OF assms Some] by (simp add: req_ctx_def)
  moreover have "m_context m \<in> fst ` set (ro_pending ro)" using map_of_SomeD[OF Some] by force
  ultimately show ?thesis
    using assms Some set_update_subset[of "m_context m" ?s "ro_pending ro"]
    by (auto simp: wf_read_only_def recv_ack_def Let_def distinct_update dom_update)
qed (simp add: assms recv_ack_def)

section \<open>Advancing\<close>

text \<open>The contexts served by an acknowledgement of \<open>ctx\<close>: those queued up to it.\<close>

definition served :: "bytes \<Rightarrow> bytes list \<Rightarrow> bytes list" where
  "served ctx q = takeWhile (\<lambda>c. c \<noteq> ctx) q @ [ctx]"

lemma advance_loop_ok:
  assumes "ctx \<in> set q" and "set q \<subseteq> fst ` set pend"
  shows "advance_loop pend ctx q
    = Inr (map (\<lambda>c. the (map_of pend c)) (served ctx q), length (served ctx q), True)"
  using assms
proof (induction q)
  case (Cons c q)
  then obtain rs where "map_of pend c = Some rs"
    by (metis (no_types) insert_subset list.simps(15) map_of_eq_None_iff not_Some_eq)
  then show ?case using Cons by (auto simp: served_def)
qed simp

lemma rfold_erase_ok:
  assumes "\<And>c. c \<in> set q \<Longrightarrow> req_ctx (f c) c"
  shows "rfold erase_request (map f q) pend = Inr (fold AList.delete q pend)"
  using assms
proof (induction q arbitrary: pend)
  case (Cons c q)
  have "erase_request (f c) pend = Inr (AList.delete c pend)"
    using Cons.prems[of c] by (auto simp: erase_request_def req_ctx_def split: list.splits)
  then show ?case using Cons by simp
qed simp

lemma fold_delete_restrict:
  "map_of (fold AList.delete q pend) = (map_of pend) |` (- set q)"
proof (induction q arbitrary: pend)
  case (Cons c q)
  then show ?case by (auto simp: delete_conv restrict_map_def fun_eq_iff)
qed (simp add: restrict_map_def)

lemma set_fold_delete: "set (fold AList.delete q pend) = {x \<in> set pend. fst x \<notin> set q}"
proof (induction q arbitrary: pend)
  case (Cons c q)
  then show ?case by (auto simp: AList.delete_eq)
qed simp

lemma distinct_fold_delete: "distinct (map fst pend) \<Longrightarrow> distinct (map fst (fold AList.delete q pend))"
  by (induction q arbitrary: pend) (auto simp: distinct_delete)

lemma served_prefix: "ctx \<in> set q \<Longrightarrow> q = served ctx q @ drop (length (served ctx q)) q"
  by (induction q) (auto simp: served_def)

lemma advance_ok:
  assumes "wf_read_only ro" and "m_context m \<in> set (ro_queue ro)"
  defines "q \<equiv> served (m_context m) (ro_queue ro)"
  shows "\<exists>ro'. advance m ro = Inr (ro', map (\<lambda>c. the (map_of (ro_pending ro) c)) q) \<and> wf_read_only ro'
     \<and> ro_queue ro = q @ ro_queue ro' \<and> ro_option ro' = ro_option ro
     \<and> map_of (ro_pending ro') = (map_of (ro_pending ro)) |` (- set q)"
proof -
  note w = wf_read_onlyD[OF assms(1)]
  have q: "ro_queue ro = q @ drop (length q) (ro_queue ro)" unfolding q_def by (rule served_prefix [OF assms(2)])
  then have "set q \<subseteq> fst ` set (ro_pending ro)" using w(3) by (metis Un_upper1 set_append)
  then have "req_ctx (the (map_of (ro_pending ro) c)) c" if "c \<in> set q" for c
    using that w(4)[of c] by (cases "map_of (ro_pending ro) c") (auto simp: map_of_eq_None_iff)
  then have er: "rfold erase_request (map (\<lambda>c. the (map_of (ro_pending ro) c)) q) (ro_pending ro)
      = Inr (fold AList.delete q (ro_pending ro))" by (rule rfold_erase_ok)
  define ro' where "ro' = ro\<lparr>ro_queue := drop (length q) (ro_queue ro), ro_pending := fold AList.delete q (ro_pending ro)\<rparr>"
  have eq: "advance m ro = Inr (ro', map (\<lambda>c. the (map_of (ro_pending ro) c)) q)"
    using advance_loop_ok[OF assms(2), of "ro_pending ro"] w(3) er
    by (simp add: advance_def q_def ro'_def)
  have d: "distinct (q @ ro_queue ro')" using q w(1) by (simp add: ro'_def)
  have "set (ro_queue ro') = fst ` {x \<in> set (ro_pending ro). fst x \<notin> set q}"
  proof -
    have "set (ro_queue ro) = set q \<union> set (ro_queue ro')" by (subst q) (simp add: ro'_def)
    moreover have "fst ` {x \<in> set (ro_pending ro). fst x \<notin> set q} = fst ` set (ro_pending ro) - set q" by auto
    ultimately show ?thesis using d w(3) by auto
  qed
  then have "wf_read_only ro'"
    using assms(1) d w(2) by (auto simp: wf_read_only_def ro'_def set_fold_delete distinct_fold_delete)
  then show ?thesis using eq q by (auto simp: ro'_def fold_delete_restrict)
qed

end
