(* ===== verification/Raft_Base.thy ===== *)
theory Raft_Base
  imports Raft_Log Raft_Progress Raft_ReadOnly "HOL-Library.Multiset"
begin

text \<open>
  The state of \<open>class Raft\<close> (src/raft-kv/raft/raft.h) and the operations of raft.cpp that the
  message handlers are made of: the outgoing queue, the progress maps, the role changes and the
  accounting of uncommitted entries.

  A \<open>shared_ptr<Progress>\<close> is a value in the map that owns it: a write through the pointer is
  \<open>put_progress\<close>. The members \<open>step_\<close> and \<open>tick_\<close> hold one of three and two
  bound methods; the model keeps their names. The arguments that a log line evaluates are
  evaluated in the model too where they can throw or assert.
\<close>

section \<open>State\<close>

datatype raft_state = Follower | Candidate | Leader | PreCandidate

datatype step_fun = StepFollower | StepCandidate | StepLeader

datatype tick_fun = TickElection | TickHeartbeat

record soft_state =
  ss_lead :: u64
  ss_state :: raft_state

record raft =
  r_id :: u64
  r_term :: u64
  r_vote :: u64
  r_read_states :: "read_state list"
  r_log :: raft_log
  r_max_msg_size :: u64
  r_max_uncommitted_size :: u64
  r_max_inflight :: u64
  r_prs :: "(u64 \<times> progress) list"
  r_learner_prs :: "(u64 \<times> progress) list"
  r_match_buf :: "u64 list"
  r_state :: raft_state
  r_is_learner :: bool
  r_votes :: "(u64 \<times> bool) list"
  r_msgs :: "message list"
  r_lead :: u64
  r_lead_transferee :: u64
  r_pending_conf_index :: u64
  r_uncommitted_size :: u64
  r_read_only :: read_only
  r_election_elapsed :: u32
  r_heartbeat_elapsed :: u32
  r_check_quorum :: bool
  r_pre_vote :: bool
  r_heartbeat_timeout :: u32
  r_election_timeout :: u32
  r_randomized_election_timeout :: u32
  r_disable_proposal_forwarding :: bool
  r_tick :: "tick_fun option"
  r_step :: "step_fun option"
  r_random_device :: random_device

definition kCampaignPreElection :: string where
  "kCampaignPreElection = ''CampaignPreElection''"

definition kCampaignElection :: string where
  "kCampaignElection = ''CampaignElection''"

definition kCampaignTransfer :: string where
  "kCampaignTransfer = ''CampaignTransfer''"

definition string_bytes :: "string \<Rightarrow> bytes" where
  "string_bytes s = map of_char s"

fun num_of_pending_conf :: "entry list \<Rightarrow> u32" where
  "num_of_pending_conf [] = 0"
| "num_of_pending_conf (e # es) =
     (if e_type e = EntryConfChange then num_of_pending_conf es + 1 else num_of_pending_conf es)"

section \<open>Small accessors\<close>

definition quorum :: "raft \<Rightarrow> u32" where
  "quorum r = of_nat (length (r_prs r) div 2 + 1)"

definition promotable :: "raft \<Rightarrow> bool" where
  "promotable r \<longleftrightarrow> map_of (r_prs r) (r_id r) \<noteq> None"

definition soft_state_of :: "raft \<Rightarrow> soft_state" where
  "soft_state_of r = \<lparr>ss_lead = r_lead r, ss_state = r_state r\<rparr>"

definition soft_state_equal :: "soft_state \<Rightarrow> soft_state \<Rightarrow> bool" where
  "soft_state_equal a b \<longleftrightarrow> ss_lead a = ss_lead b \<and> ss_state a = ss_state b"

definition hard_state_of :: "raft \<Rightarrow> hard_state" where
  "hard_state_of r = \<lparr>hs_term = r_term r, hs_vote = r_vote r, hs_commit = l_committed (r_log r)\<rparr>"

definition load_state :: "hard_state \<Rightarrow> raft \<Rightarrow> raft res" where
  "load_state st r =
     rbind (if hs_commit st < l_committed (r_log r) then Inr True
            else rbind (log_last_index (r_log r)) (\<lambda>lst. Inr (hs_commit st > lst))) (\<lambda>bad.
       if bad then rbind (log_last_index (r_log r)) (\<lambda>_. Inl (Fatal ''state.commit is out of range''))
       else Inr (r\<lparr>r_log := (r_log r)\<lparr>l_committed := hs_commit st\<rparr>, r_term := hs_term st, r_vote := hs_vote st\<rparr>))"

definition nodes :: "raft \<Rightarrow> u64 list" where
  "nodes r = sort (map fst (r_prs r))"

text \<open>
  \<open>learner_nodes\<close> ends its loop at \<open>prs_.end()\<close>, an iterator of the other map; the end
  iterators of the standard containers in use are equal null nodes, so the loop runs over the learners.
\<close>

definition learner_nodes :: "raft \<Rightarrow> u64 list" where
  "learner_nodes r = sort (map fst (r_learner_prs r))"

definition get_progress :: "raft \<Rightarrow> u64 \<Rightarrow> progress option" where
  "get_progress r i =
     (case map_of (r_prs r) i of
        Some p \<Rightarrow> Some p
      | None \<Rightarrow> map_of (r_learner_prs r) i)"

text \<open>A write through the pointer that \<open>get_progress\<close> returned.\<close>

definition put_progress :: "u64 \<Rightarrow> progress \<Rightarrow> raft \<Rightarrow> raft" where
  "put_progress i p r =
     (if map_of (r_prs r) i \<noteq> None then r\<lparr>r_prs := AList.update i p (r_prs r)\<rparr>
      else if map_of (r_learner_prs r) i \<noteq> None
      then r\<lparr>r_learner_prs := AList.update i p (r_learner_prs r)\<rparr>
      else r)"

definition set_progress :: "u64 \<Rightarrow> u64 \<Rightarrow> u64 \<Rightarrow> bool \<Rightarrow> raft \<Rightarrow> raft res" where
  "set_progress i mtch nxt is_learner r =
     (let p = (Progress (r_max_inflight r))\<lparr>pr_next := nxt, pr_match := mtch\<rparr> in
      if \<not> is_learner
      then Inr (r\<lparr>r_learner_prs := AList.delete i (r_learner_prs r), r_prs := AList.update i p (r_prs r)\<rparr>)
      else if map_of (r_prs r) i \<noteq> None
      then Inl (Fatal ''unexpected changing from voter to learner'')
      else Inr (r\<lparr>r_learner_prs := AList.update i (p\<lparr>pr_is_learner := True\<rparr>) (r_learner_prs r)\<rparr>))"

definition del_progress :: "u64 \<Rightarrow> raft \<Rightarrow> raft" where
  "del_progress i r =
     r\<lparr>r_prs := AList.delete i (r_prs r), r_learner_prs := AList.delete i (r_learner_prs r)\<rparr>"

text \<open>The order in which \<open>for_each_progress\<close> visits the nodes.\<close>

definition progress_ids :: "raft \<Rightarrow> u64 list" where
  "progress_ids r = map fst (r_prs r) @ map fst (r_learner_prs r)"

section \<open>Sending\<close>

definition is_vote_type :: "message_type \<Rightarrow> bool" where
  "is_vote_type t \<longleftrightarrow> t = MsgVote \<or> t = MsgVoteResp \<or> t = MsgPreVote \<or> t = MsgPreVoteResp"

definition send :: "message \<Rightarrow> raft \<Rightarrow> raft res" where
  "send m r =
     (let m1 = m\<lparr>m_from := r_id r\<rparr> in
      if is_vote_type (m_type m1)
      then if m_term m1 = 0
           then rbind (msg_type_to_string (m_type m1)) (\<lambda>_. Inl (Fatal ''term should be set''))
           else Inr (r\<lparr>r_msgs := r_msgs r @ [m1]\<rparr>)
      else if m_term m1 \<noteq> 0 then Inl (Fatal ''term should not be set'')
      else let m2 = (if m_type m1 \<noteq> MsgProp \<and> m_type m1 \<noteq> MsgReadIndex
                     then m1\<lparr>m_term := r_term r\<rparr> else m1)
           in Inr (r\<lparr>r_msgs := r_msgs r @ [m2]\<rparr>))"

definition send_timeout_now :: "u64 \<Rightarrow> raft \<Rightarrow> raft res" where
  "send_timeout_now to r = send (Message\<lparr>m_to := to, m_type := MsgTimeoutNow\<rparr>) r"

definition read_messages :: "raft \<Rightarrow> raft \<times> message list" where
  "read_messages r = (r\<lparr>r_msgs := []\<rparr>, r_msgs r)"

text \<open>The positions that most log lines of the handlers print.\<close>

definition log_position :: "raft \<Rightarrow> unit res" where
  "log_position r = rbind (last_term (r_log r)) (\<lambda>_. rbind (log_last_index (r_log r)) (\<lambda>_. Inr ()))"

section \<open>Role changes\<close>

definition abort_leader_transfer :: "raft \<Rightarrow> raft" where
  "abort_leader_transfer r = r\<lparr>r_lead_transferee := 0\<rparr>"

definition reset_randomized_election_timeout :: "raft \<Rightarrow> raft res" where
  "reset_randomized_election_timeout r =
     (let (d, x) = rd_gen (r_random_device r); t = r_election_timeout r + x in
      rbind (rassert ''randomized_election_timeout_ <= 2 * election_timeout_'' (t \<le> 2 * r_election_timeout r))
        (\<lambda>_. Inr (r\<lparr>r_random_device := d, r_randomized_election_timeout := t\<rparr>)))"

definition fresh_progress :: "raft \<Rightarrow> u64 \<Rightarrow> u64 \<Rightarrow> progress \<Rightarrow> progress" where
  "fresh_progress r lst i p =
     (let q = (Progress (r_max_inflight r))\<lparr>pr_next := lst + 1, pr_is_learner := pr_is_learner p\<rparr>
      in if i = r_id r then q\<lparr>pr_match := lst\<rparr> else q)"

definition reset_progress :: "raft \<Rightarrow> raft res" where
  "reset_progress r =
     (if r_prs r = [] \<and> r_learner_prs r = [] then Inr r
      else rbind (log_last_index (r_log r)) (\<lambda>lst.
        Inr (r\<lparr>r_prs := map (\<lambda>(i, p). (i, fresh_progress r lst i p)) (r_prs r),
              r_learner_prs := map (\<lambda>(i, p). (i, fresh_progress r lst i p)) (r_learner_prs r)\<rparr>)))"

definition reset :: "u64 \<Rightarrow> raft \<Rightarrow> raft res" where
  "reset trm r =
     (let r1 = (if r_term r \<noteq> trm then r\<lparr>r_term := trm, r_vote := 0\<rparr> else r);
          r2 = r1\<lparr>r_lead := 0, r_election_elapsed := 0, r_heartbeat_elapsed := 0\<rparr> in
      rbind (reset_randomized_election_timeout r2) (\<lambda>r3.
      rbind (reset_progress ((abort_leader_transfer r3)\<lparr>r_votes := []\<rparr>)) (\<lambda>r4.
        Inr (r4\<lparr>r_pending_conf_index := 0, r_uncommitted_size := 0,
               r_read_only := (r_read_only r4)\<lparr>ro_pending := [], ro_queue := []\<rparr>\<rparr>))))"

definition become_follower :: "u64 \<Rightarrow> u64 \<Rightarrow> raft \<Rightarrow> raft res" where
  "become_follower trm lead r =
     rbind (reset trm (r\<lparr>r_step := Some StepFollower\<rparr>)) (\<lambda>r'.
       Inr (r'\<lparr>r_tick := Some TickElection, r_lead := lead, r_state := Follower\<rparr>))"

definition become_candidate :: "raft \<Rightarrow> raft res" where
  "become_candidate r =
     (if r_state r = Leader then Inl (Fatal ''invalid transition [leader -> candidate]'')
      else rbind (reset (r_term r + 1) (r\<lparr>r_step := Some StepCandidate\<rparr>)) (\<lambda>r'.
        Inr (r'\<lparr>r_tick := Some TickElection, r_vote := r_id r', r_state := Candidate\<rparr>)))"

definition become_pre_candidate :: "raft \<Rightarrow> raft res" where
  "become_pre_candidate r =
     (if r_state r = Leader then Inl (Fatal ''invalid transition [leader -> pre-candidate]'')
      else Inr (r\<lparr>r_step := Some StepCandidate, r_votes := [], r_tick := Some TickElection,
                 r_lead := 0, r_state := PreCandidate\<rparr>))"

section \<open>Uncommitted entries\<close>

fun payload_sum :: "entry list \<Rightarrow> u32" where
  "payload_sum [] = 0"
| "payload_sum (e # es) = payload_size e + payload_sum es"

definition increase_uncommitted_size :: "entry list \<Rightarrow> raft \<Rightarrow> raft \<times> bool" where
  "increase_uncommitted_size es r =
     (let s = ucast (payload_sum es) :: u64 in
      if r_uncommitted_size r > 0 \<and> r_uncommitted_size r + s > r_max_uncommitted_size r then (r, False)
      else (r\<lparr>r_uncommitted_size := r_uncommitted_size r + s\<rparr>, True))"

definition reduce_uncommitted_size :: "entry list \<Rightarrow> raft \<Rightarrow> raft" where
  "reduce_uncommitted_size es r =
     (if r_uncommitted_size r = 0 then r
      else let s = ucast (payload_sum es) :: u64 in
        if s > r_uncommitted_size r then r\<lparr>r_uncommitted_size := 0\<rparr>
        else r\<lparr>r_uncommitted_size := r_uncommitted_size r - s\<rparr>)"

end
