(* ===== verification/Raft_Replicate.thy ===== *)
theory Raft_Replicate
  imports Raft_Base
begin

text \<open>
  Replication and elections in src/raft-kv/raft/raft.cpp: sending entries, snapshots and
  heartbeats to the other nodes, advancing the commit position, appending to the leader's log,
  counting votes and campaigning.
\<close>

section \<open>Sending to the other nodes\<close>

text \<open>The branch of \<open>maybe_send_append\<close> that falls back to a snapshot.\<close>

definition send_snapshot :: "u64 \<Rightarrow> progress \<Rightarrow> raft \<Rightarrow> (raft \<times> bool) res" where
  "send_snapshot to pr r =
     (if \<not> pr_recent_active pr then Inr (r, False)
      else rbind (log_snapshot (r_log r)) (\<lambda>s.
        case s of
          Inl _ \<Rightarrow> Inl (Fatal ''snapshot error'')
        | Inr snap \<Rightarrow>
            if snapshot_is_empty snap then Inl (Fatal ''need non-empty snapshot'')
            else rbind (log_first_index (r_log r)) (\<lambda>_.
              rbind (send (Message\<lparr>m_to := to, m_type := MsgSnap, m_snapshot := snap\<rparr>)
                       (put_progress to (become_snapshot (s_index snap) pr) r)) (\<lambda>r'.
                Inr (r', True)))))"

text \<open>What sending a batch does to the progress of the receiver.\<close>

definition progress_sent :: "entry list \<Rightarrow> progress \<Rightarrow> progress res" where
  "progress_sent es pr =
     (if es = [] then Inr pr
      else case pr_state pr of
        ProgressStateReplicate \<Rightarrow>
          let lst = e_index (last es) in
          rbind (inflights_add (pr_inflights pr) lst) (\<lambda>f.
            Inr ((optimistic_update lst pr)\<lparr>pr_inflights := f\<rparr>))
      | ProgressStateProbe \<Rightarrow> Inr (set_pause pr)
      | ProgressStateSnapshot \<Rightarrow> Inl (Fatal ''is sending append in unhandled state''))"

definition maybe_send_append :: "u64 \<Rightarrow> bool \<Rightarrow> raft \<Rightarrow> (raft \<times> bool) res" where
  "maybe_send_append to send_if_empty r =
     rbind (deref (get_progress r to)) (\<lambda>pr.
       if is_paused pr then Inr (r, False)
       else
         rbind (log_term (r_log r) (pr_next pr - 1)) (\<lambda>trm.
         rbind (log_entries (r_log r) (pr_next pr) (r_max_msg_size r)) (\<lambda>ents.
           let es = (case ents of Inl _ \<Rightarrow> [] | Inr es \<Rightarrow> es) in
           if es = [] \<and> \<not> send_if_empty then Inr (r, False)
           else case (trm, ents) of
             (Inr t, Inr _) \<Rightarrow>
               rbind (progress_sent es pr) (\<lambda>pr'.
               rbind (send (Message\<lparr>m_to := to, m_type := MsgApp, m_index := pr_next pr - 1,
                              m_log_term := t, m_entries := es, m_commit := l_committed (r_log r)\<rparr>)
                        (put_progress to pr' r)) (\<lambda>r'.
                 Inr (r', True)))
           | _ \<Rightarrow> send_snapshot to pr r)))"

definition send_append :: "u64 \<Rightarrow> raft \<Rightarrow> raft res" where
  "send_append to r = rbind (maybe_send_append to True r) (\<lambda>(r', _). Inr r')"

text \<open>
  The loop \<open>while (maybe_send_append(to, false)) {}\<close>. Every round that sends takes at least
  one entry of the log, so the number of entries in the log is fuel enough.
\<close>

primrec send_append_loop :: "nat \<Rightarrow> u64 \<Rightarrow> raft \<Rightarrow> raft res" where
  "send_append_loop 0 to r = Inl OutOfFuel"
| "send_append_loop (Suc n) to r =
     rbind (maybe_send_append to False r) (\<lambda>(r', sent).
       if sent then send_append_loop n to r' else Inr r')"

definition log_fuel :: "raft_log \<Rightarrow> nat" where
  "log_fuel l = length (ms_entries (l_storage l)) + length (u_entries (l_unstable l)) + 2"

definition send_heartbeat :: "u64 \<Rightarrow> bytes \<Rightarrow> raft \<Rightarrow> raft res" where
  "send_heartbeat to ctx r =
     rbind (deref (get_progress r to)) (\<lambda>pr.
       send (Message\<lparr>m_to := to, m_type := MsgHeartbeat,
               m_commit := min (pr_match pr) (l_committed (r_log r)), m_context := ctx\<rparr>) r)"

definition for_others :: "(u64 \<Rightarrow> raft \<Rightarrow> raft res) \<Rightarrow> raft \<Rightarrow> raft res" where
  "for_others f r = rfold (\<lambda>i s. if i = r_id s then Inr s else f i s) (progress_ids r) r"

definition bcast_append :: "raft \<Rightarrow> raft res" where
  "bcast_append r = for_others send_append r"

definition bcast_heartbeat_with_ctx :: "bytes \<Rightarrow> raft \<Rightarrow> raft res" where
  "bcast_heartbeat_with_ctx ctx r = for_others (\<lambda>i. send_heartbeat i ctx) r"

definition bcast_heartbeat :: "raft \<Rightarrow> raft res" where
  "bcast_heartbeat r = bcast_heartbeat_with_ctx (last_pending_request_ctx (r_read_only r)) r"

definition check_quorum_active :: "raft \<Rightarrow> bool" where
  "check_quorum_active r \<longleftrightarrow>
     of_nat (length (filter (\<lambda>(i, p). i = r_id r \<or> (pr_recent_active p \<and> \<not> pr_is_learner p))
               (r_prs r @ r_learner_prs r))) \<ge> (ucast (quorum r) :: u64)"

section \<open>Commitment and appending\<close>

definition maybe_commit :: "raft \<Rightarrow> (raft \<times> bool) res" where
  "maybe_commit r =
     (let buf = sort (map (\<lambda>(_, p). pr_match p) (r_prs r)) in
      rbind (vec_at buf (vec_size buf - ucast (quorum r))) (\<lambda>mci.
      rbind (log_maybe_commit mci (r_term r) (r_log r)) (\<lambda>(l, b).
        Inr (r\<lparr>r_match_buf := buf, r_log := l\<rparr>, b))))"

fun number_entries :: "u64 \<Rightarrow> u64 \<Rightarrow> entry list \<Rightarrow> entry list" where
  "number_entries trm i [] = []"
| "number_entries trm i (e # es) =
     Entry\<lparr>e_term := trm, e_index := i, e_data := e_data e, e_type := e_type e\<rparr>
       # number_entries trm (i + 1) es"

definition append_entry :: "entry list \<Rightarrow> raft \<Rightarrow> (raft \<times> bool) res" where
  "append_entry entries r =
     rbind (log_last_index (r_log r)) (\<lambda>li.
       let ents = number_entries (r_term r) (li + 1) entries;
           (r1, ok) = increase_uncommitted_size ents r in
       if \<not> ok then Inr (r1, False)
       else
         rbind (log_append ents (r_log r1)) (\<lambda>(l, li').
           let r2 = r1\<lparr>r_log := l\<rparr> in
           rbind (deref (get_progress r2 (r_id r2))) (\<lambda>pr.
           rbind (maybe_commit (put_progress (r_id r2) (fst (maybe_update li' pr)) r2)) (\<lambda>(r3, _).
             Inr (r3, True)))))"

definition become_leader :: "raft \<Rightarrow> raft res" where
  "become_leader r =
     (if r_state r = Follower then Inl (Fatal ''invalid transition [follower -> leader]'')
      else
        rbind (reset (r_term r) (r\<lparr>r_step := Some StepLeader\<rparr>)) (\<lambda>r1.
          let r2 = r1\<lparr>r_tick := Some TickHeartbeat, r_lead := r_id r1, r_state := Leader\<rparr> in
          case map_of (r_prs r2) (r_id r2) of
            None \<Rightarrow> Inl (Assertion ''it != prs_.end()'')
          | Some pr \<Rightarrow>
              let r3 = r2\<lparr>r_prs := AList.update (r_id r2) (become_replicate pr) (r_prs r2)\<rparr> in
              rbind (log_last_index (r_log r3)) (\<lambda>lst.
              rbind (append_entry [Entry] (r3\<lparr>r_pending_conf_index := lst\<rparr>)) (\<lambda>(r4, ok).
                if \<not> ok then Inl (Fatal ''empty entry was dropped'')
                else Inr (reduce_uncommitted_size [Entry] r4)))))"

section \<open>Elections\<close>

definition granted_votes :: "(u64 \<times> bool) list \<Rightarrow> nat" where
  "granted_votes votes = length (filter snd votes)"

definition poll :: "u64 \<Rightarrow> message_type \<Rightarrow> bool \<Rightarrow> raft \<Rightarrow> (raft \<times> u32) res" where
  "poll i t v r =
     rbind (msg_type_to_string t) (\<lambda>_.
       let votes = (if map_of (r_votes r) i = None then AList.update i v (r_votes r) else r_votes r)
       in Inr (r\<lparr>r_votes := votes\<rparr>, of_nat (granted_votes votes)))"

text \<open>The vote request to one peer.\<close>

definition request_vote :: "string \<Rightarrow> message_type \<Rightarrow> u64 \<Rightarrow> u64 \<Rightarrow> raft \<Rightarrow> raft res" where
  "request_vote campaign_type vote_msg trm to r =
     (if to = r_id r then Inr r
      else rbind (last_term (r_log r)) (\<lambda>lt.
        rbind (log_last_index (r_log r)) (\<lambda>lst.
        rbind (msg_type_to_string vote_msg) (\<lambda>_.
          send (Message\<lparr>m_term := trm, m_to := to, m_type := vote_msg, m_index := lst, m_log_term := lt,
                  m_context := (if campaign_type = kCampaignTransfer
                                then string_bytes kCampaignTransfer else [])\<rparr>) r))))"

function campaign :: "string \<Rightarrow> raft \<Rightarrow> raft res" where
  "campaign campaign_type r =
     rbind (if campaign_type = kCampaignPreElection
            then rbind (become_pre_candidate r) (\<lambda>r1. Inr (r1, MsgPreVote, r_term r1 + 1))
            else rbind (become_candidate r) (\<lambda>r1. Inr (r1, MsgVote, r_term r1))) (\<lambda>(r1, vote_msg, trm).
     rbind (vote_resp_msg_type vote_msg) (\<lambda>resp.
     rbind (poll (r_id r1) resp True r1) (\<lambda>(r2, granted).
       if quorum r2 = granted
       then if campaign_type = kCampaignPreElection then campaign kCampaignElection r2
            else become_leader r2
       else rfold (request_vote campaign_type vote_msg trm) (map fst (r_prs r2)) r2)))"
  by pat_completeness auto

termination
  by (relation "measure (\<lambda>(t, r). if t = kCampaignPreElection then 1 else 0)")
    (auto simp: kCampaignPreElection_def kCampaignElection_def)

declare campaign.simps [simp del]

end
