(* ===== verification/Raft_Step.thy ===== *)
theory Raft_Step
  imports Raft_Replicate
begin

text \<open>
  The message handlers of src/raft-kv/raft/raft.cpp, \<open>Raft::step\<close> that dispatches to them, the
  clock ticks, the membership changes and the constructor.
\<close>

definition finish :: "raft res \<Rightarrow> (raft \<times> status) res" where
  "finish x = rbind x (\<lambda>r. Inr (r, Ok))"

section \<open>Messages from the leader\<close>

definition handle_append_entries :: "message \<Rightarrow> raft \<Rightarrow> raft res" where
  "handle_append_entries m r =
     (if m_index m < l_committed (r_log r)
      then send (Message\<lparr>m_to := m_from m, m_type := MsgAppResp, m_index := l_committed (r_log r)\<rparr>) r
      else
        rbind (log_maybe_append (m_index m) (m_log_term m) (m_commit m) (m_entries m) (r_log r)) (\<lambda>(l, last_index).
          let r1 = r\<lparr>r_log := l\<rparr> in
          case last_index of
            Some i \<Rightarrow> send (Message\<lparr>m_to := m_from m, m_type := MsgAppResp, m_index := i\<rparr>) r1
          | None \<Rightarrow>
              rbind (log_term l (m_index m)) (\<lambda>_.
              rbind (log_last_index l) (\<lambda>hint.
                send (Message\<lparr>m_to := m_from m, m_type := MsgAppResp, m_index := m_index m,
                        m_reject := True, m_reject_hint := hint\<rparr>) r1))))"

text \<open>
  The response to a heartbeat keeps the default, empty context: the code moves the context of the
  request onto itself.
\<close>

definition handle_heartbeat :: "message \<Rightarrow> raft \<Rightarrow> raft res" where
  "handle_heartbeat m r =
     rbind (commit_to (m_commit m) (r_log r)) (\<lambda>l.
       send (Message\<lparr>m_to := m_from m, m_type := MsgHeartbeatResp\<rparr>) (r\<lparr>r_log := l\<rparr>))"

definition restore_one :: "bool \<Rightarrow> u64 \<Rightarrow> raft \<Rightarrow> raft res" where
  "restore_one is_learner node r =
     rbind (log_last_index (r_log r)) (\<lambda>lst.
       let nxt = lst + 1;
           mtch = (if node = r_id r then nxt - 1 else 0);
           r1 = (if node = r_id r then r\<lparr>r_is_learner := is_learner\<rparr> else r) in
       rbind (set_progress node mtch nxt is_learner r1) (\<lambda>r2.
       rbind (deref (get_progress r2 (r_id r2))) (\<lambda>_. Inr r2)))"

definition restore_node :: "u64 list \<Rightarrow> bool \<Rightarrow> raft \<Rightarrow> raft res" where
  "restore_node ids is_learner r = rfold (restore_one is_learner) ids r"

definition restore :: "snapshot \<Rightarrow> raft \<Rightarrow> (raft \<times> bool) res" where
  "restore s r =
     (if s_index s \<le> l_committed (r_log r) then Inr (r, False)
      else
        rbind (match_term (r_log r) (s_index s) (s_term s)) (\<lambda>m.
          if m
          then rbind (log_position r) (\<lambda>_.
               rbind (commit_to (s_index s) (r_log r)) (\<lambda>l. Inr (r\<lparr>r_log := l\<rparr>, False)))
          else if \<not> r_is_learner r \<and> r_id r \<in> set (cs_learners (md_conf_state (s_metadata s)))
          then Inr (r, False)
          else
            rbind (log_position r) (\<lambda>_.
            rbind (restore_node (cs_nodes (md_conf_state (s_metadata s))) False
                     (r\<lparr>r_log := log_restore s (r_log r), r_prs := [], r_learner_prs := []\<rparr>)) (\<lambda>r1.
            rbind (restore_node (cs_learners (md_conf_state (s_metadata s))) True r1) (\<lambda>r2.
              Inr (r2, True))))))"

text \<open>
  The code writes the index of the answer into the request; the answer goes out with index 0.
\<close>

definition handle_snapshot :: "message \<Rightarrow> raft \<Rightarrow> raft res" where
  "handle_snapshot m r =
     rbind (restore (m_snapshot m) r) (\<lambda>(r1, ok).
       if ok
       then rbind (log_last_index (r_log r1)) (\<lambda>_.
            send (Message\<lparr>m_to := m_from m, m_type := MsgAppResp\<rparr>) r1)
       else send (Message\<lparr>m_to := m_from m, m_type := MsgAppResp\<rparr>) r1)"

section \<open>The follower\<close>

definition dropped :: "raft \<Rightarrow> (raft \<times> status) res" where
  "dropped r = Inr (r, invalid_argument ''raft proposal dropped'')"

definition step_follower :: "message \<Rightarrow> raft \<Rightarrow> (raft \<times> status) res" where
  "step_follower m r =
     (let from_leader = r\<lparr>r_election_elapsed := 0, r_lead := m_from m\<rparr>;
          forward = finish (send (m\<lparr>m_to := r_lead r\<rparr>) r) in
      if m_type m = MsgProp then
        if r_lead r = 0 then dropped r
        else if r_disable_proposal_forwarding r then dropped r
        else forward
      else if m_type m = MsgApp then finish (handle_append_entries m from_leader)
      else if m_type m = MsgHeartbeat then finish (handle_heartbeat m from_leader)
      else if m_type m = MsgSnap then finish (handle_snapshot m from_leader)
      else if m_type m = MsgTransferLeader then
        if r_lead r = 0 then Inr (r, Ok) else forward
      else if m_type m = MsgTimeoutNow then
        if promotable r then finish (campaign kCampaignTransfer r) else Inr (r, Ok)
      else if m_type m = MsgReadIndex then
        if r_lead r = 0 then Inr (r, Ok) else forward
      else if m_type m = MsgReadIndexResp then
        case m_entries m of
          [e] \<Rightarrow> Inr (r\<lparr>r_read_states := r_read_states r @ [\<lparr>rs_index = m_index m, rs_request_ctx = e_data e\<rparr>]\<rparr>, Ok)
        | _ \<Rightarrow> Inr (r, Ok)
      else Inr (r, Ok))"

section \<open>The candidate\<close>

text \<open>Both kinds of vote responses, in both candidate states.\<close>

definition step_vote_resp :: "message \<Rightarrow> raft \<Rightarrow> raft res" where
  "step_vote_resp m r =
     rbind (poll (m_from m) (m_type m) (\<not> m_reject m) r) (\<lambda>(r1, gr).
       let q = ucast (quorum r1) :: u64; g = ucast gr :: u64 in
       if q = g then
         if r_state r1 = PreCandidate then campaign kCampaignElection r1
         else rbind (rassert ''state_ == RaftState::Candidate'' (r_state r1 = Candidate)) (\<lambda>_.
              rbind (become_leader r1) bcast_append)
       else if q = vec_size (r_votes r1) - g then become_follower (r_term r1) 0 r1
       else Inr r1)"

definition step_candidate :: "message \<Rightarrow> raft \<Rightarrow> (raft \<times> status) res" where
  "step_candidate m r =
     (if m_type m = MsgProp then dropped r
      else if m_type m = MsgApp then
        finish (rbind (become_follower (m_term m) (m_from m) r) (handle_append_entries m))
      else if m_type m = MsgHeartbeat then
        finish (rbind (become_follower (m_term m) (m_from m) r) (handle_heartbeat m))
      else if m_type m = MsgSnap then
        finish (rbind (become_follower (m_term m) (m_from m) r) (handle_snapshot m))
      else if m_type m = MsgPreVoteResp \<or> m_type m = MsgVoteResp then finish (step_vote_resp m r)
      else Inr (r, Ok))"

section \<open>The leader\<close>

text \<open>
  The loop over the proposed entries: a configuration change is blanked out while another one may
  be pending, otherwise its position is remembered as the pending one.
\<close>

fun screen_conf :: "u64 \<Rightarrow> u64 \<Rightarrow> u64 \<Rightarrow> u64 \<Rightarrow> entry list \<Rightarrow> u64 \<times> entry list" where
  "screen_conf lst applied i pending [] = (pending, [])"
| "screen_conf lst applied i pending (e # es) =
     (let (p, e') =
        (if e_type e = EntryConfChange
         then if pending > applied
              then (pending, e\<lparr>e_type := EntryNormal, e_index := 0, e_term := 0, e_data := []\<rparr>)
              else (lst + i + 1, e)
         else (pending, e));
        (p', es') = screen_conf lst applied (i + 1) p es
      in (p', e' # es'))"

definition step_leader_prop :: "message \<Rightarrow> raft \<Rightarrow> (raft \<times> status) res" where
  "step_leader_prop m r =
     (if m_entries m = [] then Inl (Fatal ''stepped empty MsgProp'')
      else if map_of (r_prs r) (r_id r) = None then dropped r
      else if r_lead_transferee r \<noteq> 0 then dropped r
      else
        rbind (log_last_index (r_log r)) (\<lambda>lst.
          let (pending, es) = screen_conf lst (l_applied (r_log r)) 0 (r_pending_conf_index r) (m_entries m) in
          rbind (append_entry es (r\<lparr>r_pending_conf_index := pending\<rparr>)) (\<lambda>(r1, ok).
            if \<not> ok then dropped r1 else finish (bcast_append r1))))"

definition step_leader_read_index :: "message \<Rightarrow> raft \<Rightarrow> raft res" where
  "step_leader_read_index m r =
     (let committed = l_committed (r_log r);
          local_read = (\<lambda>r. rbind (vec_front (m_entries m)) (\<lambda>e.
             Inr (r\<lparr>r_read_states := r_read_states r @ [\<lparr>rs_index = committed, rs_request_ctx = e_data e\<rparr>]\<rparr>))) in
      if quorum r > 1
      then rbind (log_term (r_log r) committed) (\<lambda>t.
        if (case t of Inl _ \<Rightarrow> 0 | Inr t \<Rightarrow> t) \<noteq> r_term r then Inr r
        else case ro_option (r_read_only r) of
          ReadOnlySafe \<Rightarrow>
            rbind (add_request committed m (r_read_only r)) (\<lambda>ro.
            rbind (vec_front (m_entries m)) (\<lambda>e.
              bcast_heartbeat_with_ctx (e_data e) (r\<lparr>r_read_only := ro\<rparr>)))
        | ReadOnlyLeaseBased \<Rightarrow>
            if m_from m = 0 \<or> m_from m = r_id r then local_read r
            else send (Message\<lparr>m_to := m_from m, m_type := MsgReadIndexResp, m_index := committed,
                         m_entries := m_entries m\<rparr>) r)
      else local_read r)"

definition step_leader_app_rejected :: "message \<Rightarrow> progress \<Rightarrow> raft \<Rightarrow> raft res" where
  "step_leader_app_rejected m pr r =
     (let (pr1, decreased) = maybe_decreases_to (m_index m) (m_reject_hint m) pr in
      if decreased
      then send_append (m_from m) (put_progress (m_from m)
             (if pr_state pr1 = ProgressStateReplicate then become_probe pr1 else pr1) r)
      else Inr (put_progress (m_from m) pr1 r))"

text \<open>What an acknowledgement that moved \<open>match\<close> does to the flow control of the follower.\<close>

definition progress_acked :: "u64 \<Rightarrow> progress \<Rightarrow> progress res" where
  "progress_acked idx pr =
     (if pr_state pr = ProgressStateProbe then Inr (become_replicate pr)
      else if pr_state pr = ProgressStateSnapshot \<and> need_snapshot_abort pr then Inr (become_probe pr)
      else if pr_state pr = ProgressStateReplicate
      then rbind (inflights_free_to (pr_inflights pr) idx) (\<lambda>f. Inr (pr\<lparr>pr_inflights := f\<rparr>))
      else Inr pr)"

definition step_leader_app_acked :: "message \<Rightarrow> progress \<Rightarrow> raft \<Rightarrow> raft res" where
  "step_leader_app_acked m pr r =
     (let old_paused = is_paused pr;
          (pr1, updated) = maybe_update (m_index m) pr in
      if \<not> updated then Inr (put_progress (m_from m) pr1 r)
      else
        rbind (progress_acked (m_index m) pr1) (\<lambda>pr2.
        rbind (maybe_commit (put_progress (m_from m) pr2 r)) (\<lambda>(r1, committed).
        rbind (if committed then bcast_append r1
               else if old_paused then send_append (m_from m) r1
               else Inr r1) (\<lambda>r2.
        rbind (send_append_loop (log_fuel (r_log r2)) (m_from m) r2) (\<lambda>r3.
          if m_from m = r_lead_transferee r3
          then rbind (deref (get_progress r3 (m_from m))) (\<lambda>pr3.
               rbind (log_last_index (r_log r3)) (\<lambda>lst.
                 if pr_match pr3 = lst then send_timeout_now (m_from m) r3 else Inr r3))
          else Inr r3)))))"

definition step_leader_app_resp :: "message \<Rightarrow> progress \<Rightarrow> raft \<Rightarrow> raft res" where
  "step_leader_app_resp m pr r =
     (let pr1 = pr\<lparr>pr_recent_active := True\<rparr> in
      if m_reject m then step_leader_app_rejected m pr1 r else step_leader_app_acked m pr1 r)"

definition answer_read :: "read_index_status \<Rightarrow> raft \<Rightarrow> raft res" where
  "answer_read rs r =
     (let req = ris_req rs in
      if m_from req = 0 \<or> m_from req = r_id r
      then rbind (vec_front (m_entries req)) (\<lambda>e.
        Inr (r\<lparr>r_read_states := r_read_states r @ [\<lparr>rs_index = ris_index rs, rs_request_ctx = e_data e\<rparr>]\<rparr>))
      else send (Message\<lparr>m_to := m_from req, m_type := MsgReadIndexResp, m_index := ris_index rs,
                   m_entries := m_entries req\<rparr>) r)"

definition step_leader_heartbeat_resp :: "message \<Rightarrow> progress \<Rightarrow> raft \<Rightarrow> raft res" where
  "step_leader_heartbeat_resp m pr r =
     (let pr1 = resume (pr\<lparr>pr_recent_active := True\<rparr>) in
      rbind (if pr_state pr1 = ProgressStateReplicate \<and> inflights_is_full (pr_inflights pr1)
             then rbind (inflights_free_first_one (pr_inflights pr1)) (\<lambda>f. Inr (pr1\<lparr>pr_inflights := f\<rparr>))
             else Inr pr1) (\<lambda>pr2.
      rbind (log_last_index (r_log r)) (\<lambda>lst.
      rbind (if pr_match pr2 < lst then send_append (m_from m) (put_progress (m_from m) pr2 r)
             else Inr (put_progress (m_from m) pr2 r)) (\<lambda>r1.
        if ro_option (r_read_only r1) \<noteq> ReadOnlySafe \<or> m_context m = [] then Inr r1
        else let (ro, acks) = recv_ack m (r_read_only r1); r2 = r1\<lparr>r_read_only := ro\<rparr> in
          if acks < quorum r2 then Inr r2
          else rbind (advance m (r_read_only r2)) (\<lambda>(ro', rss).
            rfold answer_read rss (r2\<lparr>r_read_only := ro'\<rparr>))))))"

definition step_leader_snap_status :: "message \<Rightarrow> progress \<Rightarrow> raft \<Rightarrow> raft" where
  "step_leader_snap_status m pr r =
     (if pr_state pr \<noteq> ProgressStateSnapshot then r
      else if \<not> m_reject m then put_progress (m_from m) (set_pause (become_probe pr)) r
      else put_progress (m_from m) (set_pause (become_probe (snapshot_failure pr))) r)"

definition step_leader_unreachable :: "message \<Rightarrow> progress \<Rightarrow> raft \<Rightarrow> raft" where
  "step_leader_unreachable m pr r =
     (if pr_state pr = ProgressStateReplicate then put_progress (m_from m) (become_probe pr) r else r)"

definition step_leader_transfer :: "message \<Rightarrow> progress \<Rightarrow> raft \<Rightarrow> raft res" where
  "step_leader_transfer m pr r =
     (if pr_is_learner pr then Inr r
      else if r_lead_transferee r \<noteq> 0 \<and> r_lead_transferee r = m_from m then Inr r
      else
        let r1 = (if r_lead_transferee r \<noteq> 0 then abort_leader_transfer r else r) in
        if m_from m = r_id r1 then Inr r1
        else
          let r2 = r1\<lparr>r_election_elapsed := 0, r_lead_transferee := m_from m\<rparr> in
          rbind (log_last_index (r_log r2)) (\<lambda>lst.
            if pr_match pr = lst then send_timeout_now (m_from m) r2 else send_append (m_from m) r2))"

definition step_leader :: "message \<Rightarrow> raft \<Rightarrow> (raft \<times> status) res" where
  "step_leader m r =
     (if m_type m = MsgBeat then finish (bcast_heartbeat r)
      else if m_type m = MsgCheckQuorum then
        finish (if \<not> check_quorum_active r then become_follower (r_term r) 0 r else Inr r)
      else if m_type m = MsgProp then step_leader_prop m r
      else if m_type m = MsgReadIndex then finish (step_leader_read_index m r)
      else case get_progress r (m_from m) of
        None \<Rightarrow> Inr (r, Ok)
      | Some pr \<Rightarrow>
          if m_type m = MsgAppResp then finish (step_leader_app_resp m pr r)
          else if m_type m = MsgHeartbeatResp then finish (step_leader_heartbeat_resp m pr r)
          else if m_type m = MsgSnapStatus then Inr (step_leader_snap_status m pr r, Ok)
          else if m_type m = MsgUnreachable then Inr (step_leader_unreachable m pr r, Ok)
          else if m_type m = MsgTransferLeader then finish (step_leader_transfer m pr r)
          else Inr (r, Ok))"

section \<open>The dispatcher\<close>

text \<open>
  The first half of \<open>step\<close>, on the term of the message: the flag says whether the message goes
  on to the handlers.
\<close>

definition step_higher_term :: "message \<Rightarrow> raft \<Rightarrow> (raft \<times> bool) res" where
  "step_higher_term m r =
     (let force = (m_context m = string_bytes kCampaignTransfer);
          in_lease = (r_check_quorum r \<and> r_lead r \<noteq> 0 \<and> r_election_elapsed r < r_election_timeout r) in
      if (m_type m = MsgVote \<or> m_type m = MsgPreVote) \<and> \<not> force \<and> in_lease
      then rbind (log_position r) (\<lambda>_. rbind (msg_type_to_string (m_type m)) (\<lambda>_. Inr (r, False)))
      else if m_type m = MsgPreVote then Inr (r, True)
      else if m_type m = MsgPreVoteResp \<and> \<not> m_reject m then Inr (r, True)
      else
        rbind (msg_type_to_string (m_type m)) (\<lambda>_.
        rbind (become_follower (m_term m)
                 (if m_type m = MsgApp \<or> m_type m = MsgHeartbeat \<or> m_type m = MsgSnap then m_from m else 0) r)
          (\<lambda>r'. Inr (r', True))))"

definition step_lower_term :: "message \<Rightarrow> raft \<Rightarrow> raft res" where
  "step_lower_term m r =
     (if (r_check_quorum r \<or> r_pre_vote r) \<and> (m_type m = MsgHeartbeat \<or> m_type m = MsgApp)
      then send (Message\<lparr>m_to := m_from m, m_type := MsgAppResp\<rparr>) r
      else if m_type m = MsgPreVote
      then rbind (log_position r) (\<lambda>_.
             send (Message\<lparr>m_to := m_from m, m_type := MsgPreVoteResp, m_reject := True, m_term := r_term r\<rparr>) r)
      else rbind (msg_type_to_string (m_type m)) (\<lambda>_. Inr r))"

definition step_hup :: "raft \<Rightarrow> raft res" where
  "step_hup r =
     (if r_state r \<noteq> Leader
      then rbind (log_slice (r_log r) (l_applied (r_log r) + 1) (l_committed (r_log r) + 1) unlimited) (\<lambda>s.
        case s of
          Inl _ \<Rightarrow> Inl (Fatal ''unexpected error getting unapplied entries'')
        | Inr es \<Rightarrow>
            if num_of_pending_conf es > 0 \<and> l_committed (r_log r) > l_applied (r_log r) then Inr r
            else if r_pre_vote r then campaign kCampaignPreElection r
            else campaign kCampaignElection r)
      else Inr r)"

definition can_vote :: "message \<Rightarrow> raft \<Rightarrow> bool" where
  "can_vote m r \<longleftrightarrow>
     r_vote r = m_from m \<or> (r_vote r = 0 \<and> r_lead r = 0) \<or> (m_type m = MsgPreVote \<and> m_term m > r_term r)"

definition step_vote :: "message \<Rightarrow> raft \<Rightarrow> raft res" where
  "step_vote m r =
     (if r_is_learner r then rbind (log_position r) (\<lambda>_. Inr r)
      else
        rbind (if can_vote m r then is_up_to_date (r_log r) (m_index m) (m_log_term m) else Inr False) (\<lambda>grant.
        rbind (log_position r) (\<lambda>_.
        rbind (vote_resp_msg_type (m_type m)) (\<lambda>resp.
          if grant
          then rbind (send (Message\<lparr>m_to := m_from m, m_term := m_term m, m_type := resp\<rparr>) r) (\<lambda>r1.
            if m_type m = MsgVote
            then Inr (r1\<lparr>r_election_elapsed := 0, r_vote := m_from m\<rparr>)
            else Inr r1)
          else send (Message\<lparr>m_to := m_from m, m_term := r_term r, m_type := resp, m_reject := True\<rparr>) r))))"

text \<open>The call through \<open>step_\<close>; an unset \<open>std::function\<close> throws.\<close>

definition step_role :: "message \<Rightarrow> raft \<Rightarrow> (raft \<times> status) res" where
  "step_role m r =
     (case r_step r of
        None \<Rightarrow> Inl NullDeref
      | Some StepFollower \<Rightarrow> step_follower m r
      | Some StepCandidate \<Rightarrow> step_candidate m r
      | Some StepLeader \<Rightarrow> step_leader m r)"

definition step_dispatch :: "message \<Rightarrow> raft \<Rightarrow> (raft \<times> status) res" where
  "step_dispatch m r =
     (if m_type m = MsgHup then finish (step_hup r)
      else if m_type m = MsgVote \<or> m_type m = MsgPreVote then finish (step_vote m r)
      else step_role m r)"

definition step :: "message \<Rightarrow> raft \<Rightarrow> (raft \<times> status) res" where
  "step m r =
     (if m_term m = 0 then step_dispatch m r
      else if m_term m > r_term r
      then rbind (step_higher_term m r) (\<lambda>(r1, go). if go then step_dispatch m r1 else Inr (r1, Ok))
      else if m_term m < r_term r then finish (step_lower_term m r)
      else step_dispatch m r)"

section \<open>Ticks\<close>

definition past_election_timeout :: "raft \<Rightarrow> bool" where
  "past_election_timeout r \<longleftrightarrow> r_election_elapsed r \<ge> r_randomized_election_timeout r"

definition tick_election :: "raft \<Rightarrow> raft res" where
  "tick_election r =
     (let r1 = r\<lparr>r_election_elapsed := r_election_elapsed r + 1\<rparr> in
      if promotable r1 \<and> past_election_timeout r1
      then rbind (step (Message\<lparr>m_from := r_id r1, m_type := MsgHup\<rparr>) (r1\<lparr>r_election_elapsed := 0\<rparr>)) (\<lambda>(r2, _). Inr r2)
      else Inr r1)"

definition tick_heartbeat :: "raft \<Rightarrow> raft res" where
  "tick_heartbeat r =
     (let r1 = r\<lparr>r_heartbeat_elapsed := r_heartbeat_elapsed r + 1, r_election_elapsed := r_election_elapsed r + 1\<rparr> in
      rbind (if r_election_elapsed r1 \<ge> r_election_timeout r1
             then let r2 = r1\<lparr>r_election_elapsed := 0\<rparr> in
               rbind (if r_check_quorum r2
                      then rbind (step (Message\<lparr>m_from := r_id r2, m_type := MsgCheckQuorum\<rparr>) r2) (\<lambda>(r3, _). Inr r3)
                      else Inr r2) (\<lambda>r3.
                 Inr (if r_state r3 = Leader \<and> r_lead_transferee r3 \<noteq> 0 then abort_leader_transfer r3 else r3))
             else Inr r1) (\<lambda>r4.
        if r_state r4 \<noteq> Leader then Inr r4
        else if r_heartbeat_elapsed r4 \<ge> r_heartbeat_timeout r4
        then rbind (step (Message\<lparr>m_from := r_id r4, m_type := MsgBeat\<rparr>) (r4\<lparr>r_heartbeat_elapsed := 0\<rparr>)) (\<lambda>(r5, _). Inr r5)
        else Inr r4))"

definition tick :: "raft \<Rightarrow> raft res" where
  "tick r =
     (case r_tick r of
        None \<Rightarrow> Inr r
      | Some TickElection \<Rightarrow> tick_election r
      | Some TickHeartbeat \<Rightarrow> tick_heartbeat r)"

section \<open>Membership\<close>

definition add_node_or_learner :: "u64 \<Rightarrow> bool \<Rightarrow> raft \<Rightarrow> raft res" where
  "add_node_or_learner i is_learner r =
     (let mark = (\<lambda>r. let r1 = (if r_id r = i then r\<lparr>r_is_learner := is_learner\<rparr> else r) in
            rbind (deref (get_progress r1 i)) (\<lambda>p. Inr (put_progress i (p\<lparr>pr_recent_active := True\<rparr>) r1))) in
      case get_progress r i of
        None \<Rightarrow>
          rbind (log_last_index (r_log r)) (\<lambda>lst.
          rbind (set_progress i 0 (lst + 1) is_learner r) mark)
      | Some pr \<Rightarrow>
          if is_learner \<and> \<not> pr_is_learner pr then Inr r
          else if is_learner = pr_is_learner pr then Inr r
          else mark (r\<lparr>r_learner_prs := AList.delete i (r_learner_prs r),
                      r_prs := AList.update i (pr\<lparr>pr_is_learner := False\<rparr>) (r_prs r)\<rparr>))"

definition add_node :: "u64 \<Rightarrow> raft \<Rightarrow> raft res" where
  "add_node i r = add_node_or_learner i False r"

definition remove_node :: "u64 \<Rightarrow> raft \<Rightarrow> raft res" where
  "remove_node i r =
     (let r1 = del_progress i r in
      if r_prs r1 = [] \<and> r_learner_prs r1 = [] then Inr r1
      else rbind (maybe_commit r1) (\<lambda>(r2, committed).
        rbind (if committed then bcast_append r2 else Inr r2) (\<lambda>r3.
          Inr (if r_state r3 = Leader \<and> r_lead_transferee r3 = i then abort_leader_transfer r3 else r3))))"

section \<open>The constructor\<close>

definition add_peer :: "u64 \<Rightarrow> raft \<Rightarrow> raft" where
  "add_peer i r = r\<lparr>r_prs := AList.update i ((Progress (r_max_inflight r))\<lparr>pr_next := 1\<rparr>) (r_prs r)\<rparr>"

definition add_learner :: "u64 \<Rightarrow> raft \<Rightarrow> raft res" where
  "add_learner i r =
     (if map_of (r_prs r) i \<noteq> None then Inl (Fatal ''node is in both learner and peer list'')
      else let r1 = r\<lparr>r_learner_prs := AList.update i
                ((Progress (r_max_inflight r))\<lparr>pr_next := 1, pr_is_learner := True\<rparr>) (r_learner_prs r)\<rparr>
        in Inr (if r_id r1 = i then r1\<lparr>r_is_learner := True\<rparr> else r1))"

definition initial_raft :: "config \<Rightarrow> (nat \<Rightarrow> u32) \<Rightarrow> raft_log \<Rightarrow> raft" where
  "initial_raft c draws l =
     \<lparr>r_id = c_id c, r_term = 0, r_vote = 0, r_read_states = [], r_log = l,
      r_max_msg_size = c_max_size_per_msg c, r_max_uncommitted_size = c_max_uncommitted_entries_size c,
      r_max_inflight = c_max_inflight_msgs c, r_prs = [], r_learner_prs = [], r_match_buf = [],
      r_state = Follower, r_is_learner = False, r_votes = [], r_msgs = [], r_lead = 0,
      r_lead_transferee = 0, r_pending_conf_index = 0, r_uncommitted_size = 0,
      r_read_only = ReadOnly (c_read_only_option c), r_election_elapsed = 0, r_heartbeat_elapsed = 0,
      r_check_quorum = c_check_quorum c, r_pre_vote = c_pre_vote c,
      r_heartbeat_timeout = c_heartbeat_tick c, r_election_timeout = c_election_tick c,
      r_randomized_election_timeout = 0,
      r_disable_proposal_forwarding = c_disable_proposal_forwarding c, r_tick = None, r_step = None,
      r_random_device = RandomDevice 0 (c_election_tick c) draws\<rparr>"

definition Raft :: "config \<Rightarrow> (nat \<Rightarrow> u32) \<Rightarrow> raft res" where
  "Raft c draws =
     rbind (deref (c_storage c)) (\<lambda>st.
     rbind (RaftLog st (c_max_committed_size_per_ready c)) (\<lambda>l.
       let (hs, cs) = storage_initial_state st;
           has_cs = (cs_nodes cs \<noteq> [] \<or> cs_learners cs \<noteq> []) in
       if has_cs \<and> (c_peers c \<noteq> [] \<or> c_learners c \<noteq> [])
       then Inl (Fatal ''cannot specify both newRaft(peers, learners) and ConfState.(Nodes, Learners)'')
       else
         let peers = (if has_cs then cs_nodes cs else c_peers c);
             learners = (if has_cs then cs_learners cs else c_learners c) in
         rbind (rfold add_learner learners (fold add_peer peers (initial_raft c draws l))) (\<lambda>r1.
         rbind (if \<not> hs_is_empty_state hs then load_state hs r1 else Inr r1) (\<lambda>r2.
           let r3 = (if c_applied c > 0 then r2\<lparr>r_log := applied_to (c_applied c) (r_log r2)\<rparr> else r2) in
           rbind (become_follower (r_term r3) 0 r3) (\<lambda>r4.
           rbind (log_position r4) (\<lambda>_. Inr r4))))))"

end
