(* ===== verification/Raft_Sends.thy ===== *)
theory Raft_Sends
  imports Raft_Step
begin

text \<open>
  The operations that only send: they append to the outgoing queue and adjust the flow control
  of the receivers, and leave the rest of the node alone. The relation \<open>sends\<close> says so; it is a
  preorder, so that every loop and every composition of such operations has it too.
\<close>

section \<open>Progress maps\<close>

definition good_pr :: "progress \<Rightarrow> bool" where
  "good_pr p \<longleftrightarrow> wf_progress p \<and> pr_match p \<noteq> - 1"

definition flow_only :: "progress \<Rightarrow> progress \<Rightarrow> bool" where
  "flow_only p q \<longleftrightarrow> pr_match q = pr_match p \<and> pr_is_learner q = pr_is_learner p \<and> (good_pr p \<longrightarrow> good_pr q)"

definition same_peers :: "(u64 \<times> progress) list \<Rightarrow> (u64 \<times> progress) list \<Rightarrow> bool" where
  "same_peers A B \<longleftrightarrow> list_all2 (\<lambda>x y. fst x = fst y \<and> flow_only (snd x) (snd y)) A B"

lemma flow_only_refl [simp]: "flow_only p p"
  by (simp add: flow_only_def)

lemma flow_only_trans: "flow_only p q \<Longrightarrow> flow_only q s \<Longrightarrow> flow_only p s"
  by (simp add: flow_only_def)

lemma same_peers_refl [simp]: "same_peers A A"
  by (simp add: same_peers_def list_all2_refl)

lemma same_peers_trans: "same_peers A B \<Longrightarrow> same_peers B C \<Longrightarrow> same_peers A C"
  unfolding same_peers_def
  by (erule list_all2_trans [rotated 2]) (auto intro: flow_only_trans elim: list_all2_mono)

lemma same_peers_fst: "same_peers A B \<Longrightarrow> map fst B = map fst A"
  by (induction A arbitrary: B) (auto simp: same_peers_def list_all2_Cons1)

lemma same_peers_match: "same_peers A B \<Longrightarrow> map (\<lambda>(_, p). pr_match p) B = map (\<lambda>(_, p). pr_match p) A"
  by (induction A arbitrary: B) (auto simp: same_peers_def list_all2_Cons1 flow_only_def split_def)

lemma same_peers_all:
  assumes "same_peers A B" and "\<And>p q. flow_only p q \<Longrightarrow> P p \<Longrightarrow> P q" and "\<forall>x\<in>set A. P (snd x)"
  shows "\<forall>x\<in>set B. P (snd x)"
  using assms unfolding same_peers_def
  by (metis (no_types, lifting) in_set_conv_nth list_all2_conv_all_nth)

lemma same_peers_update:
  assumes "map_of A i = Some p" and "flow_only p q"
  shows "same_peers A (AList.update i q A)"
  using assms by (induction A) (auto simp: same_peers_def list_all2_refl)

lemma map_of_same_peers:
  assumes "same_peers A B"
  shows "(map_of A i = None) = (map_of B i = None)"
    and "map_of A i = Some p \<Longrightarrow> \<exists>q. map_of B i = Some q \<and> flow_only p q"
proof -
  show "(map_of A i = None) = (map_of B i = None)"
    using same_peers_fst[OF assms] by (metis map_of_eq_None_iff set_map)
  show "map_of A i = Some p \<Longrightarrow> \<exists>q. map_of B i = Some q \<and> flow_only p q"
    using assms
    by (induction A arbitrary: B) (auto simp: same_peers_def list_all2_Cons1 split: if_splits)
qed

section \<open>The relation\<close>

definition sends :: "raft \<Rightarrow> raft \<Rightarrow> bool" where
  "sends r r' \<longleftrightarrow>
     (\<exists>ms P L. r' = r\<lparr>r_msgs := r_msgs r @ ms, r_prs := P, r_learner_prs := L\<rparr>
        \<and> same_peers (r_prs r) P \<and> same_peers (r_learner_prs r) L
        \<and> (\<forall>m\<in>set ms. m_from m = r_id r))"

lemma sendsI:
  assumes "r' = r\<lparr>r_msgs := r_msgs r @ ms, r_prs := P, r_learner_prs := L\<rparr>"
    and "same_peers (r_prs r) P" and "same_peers (r_learner_prs r) L" and "\<forall>m\<in>set ms. m_from m = r_id r"
  shows "sends r r'"
  using assms unfolding sends_def by blast

lemma sends_refl [simp]: "sends r r"
  by (rule sendsI [where ms = "[]" and P = "r_prs r" and L = "r_learner_prs r"]) simp_all

lemma sends_trans:
  assumes "sends r s" and "sends s t"
  shows "sends r t"
proof -
  obtain ms P L where s: "s = r\<lparr>r_msgs := r_msgs r @ ms, r_prs := P, r_learner_prs := L\<rparr>"
      "same_peers (r_prs r) P" "same_peers (r_learner_prs r) L" "\<forall>m\<in>set ms. m_from m = r_id r"
    using assms(1) unfolding sends_def by blast
  obtain ms' P' L' where t: "t = s\<lparr>r_msgs := r_msgs s @ ms', r_prs := P', r_learner_prs := L'\<rparr>"
      "same_peers (r_prs s) P'" "same_peers (r_learner_prs s) L'" "\<forall>m\<in>set ms'. m_from m = r_id s"
    using assms(2) unfolding sends_def by blast
  show ?thesis
    by (rule sendsI [where ms = "ms @ ms'" and P = P' and L = L'])
      (use s t in \<open>auto intro: same_peers_trans\<close>)
qed

lemma sends_frame:
  assumes "sends r r'"
  shows "r_id r' = r_id r" "r_term r' = r_term r" "r_vote r' = r_vote r" "r_log r' = r_log r"
    "r_state r' = r_state r" "r_lead r' = r_lead r" "r_votes r' = r_votes r"
    "r_read_only r' = r_read_only r" "r_read_states r' = r_read_states r"
    "r_max_msg_size r' = r_max_msg_size r" "r_lead_transferee r' = r_lead_transferee r"
    "r_step r' = r_step r" "r_tick r' = r_tick r" "quorum r' = quorum r"
    "map fst (r_prs r') = map fst (r_prs r)" "map fst (r_learner_prs r') = map fst (r_learner_prs r)"
    "\<exists>ms. r_msgs r' = r_msgs r @ ms"
proof -
  obtain ms P L where s: "r' = r\<lparr>r_msgs := r_msgs r @ ms, r_prs := P, r_learner_prs := L\<rparr>"
      "same_peers (r_prs r) P" "same_peers (r_learner_prs r) L"
    using assms(1) unfolding sends_def by blast
  note f = same_peers_fst[OF s(2)] same_peers_fst[OF s(3)]
  have "length P = length (r_prs r)" using f(1) by (metis length_map)
  then show "r_id r' = r_id r" "r_term r' = r_term r" "r_vote r' = r_vote r" "r_log r' = r_log r"
    "r_state r' = r_state r" "r_lead r' = r_lead r" "r_votes r' = r_votes r"
    "r_read_only r' = r_read_only r" "r_read_states r' = r_read_states r"
    "r_max_msg_size r' = r_max_msg_size r" "r_lead_transferee r' = r_lead_transferee r"
    "r_step r' = r_step r" "r_tick r' = r_tick r" "quorum r' = quorum r"
    "map fst (r_prs r') = map fst (r_prs r)" "map fst (r_learner_prs r') = map fst (r_learner_prs r)"
    "\<exists>ms. r_msgs r' = r_msgs r @ ms"
    using s(1) f by (simp_all add: quorum_def)
qed

lemma get_progress_good:
  assumes "get_progress r i = Some p" and "\<forall>x\<in>set (r_prs r) \<union> set (r_learner_prs r). good_pr (snd x)"
  shows "good_pr p"
proof -
  have "(i, p) \<in> set (r_prs r) \<union> set (r_learner_prs r)"
    using assms(1) by (auto simp: get_progress_def dest: map_of_SomeD split: option.splits)
  then show ?thesis using assms(2) by force
qed

lemma put_progress_sends:
  assumes "get_progress r i = Some p" and "flow_only p q"
  shows "sends r (put_progress i q r)"
proof (cases "map_of (r_prs r) i")
  case None
  then have "map_of (r_learner_prs r) i = Some p" using assms(1) by (simp add: get_progress_def)
  then show ?thesis using None assms(2)
    by (intro sendsI [where ms = "[]" and P = "r_prs r" and L = "AList.update i q (r_learner_prs r)"])
      (simp_all add: put_progress_def same_peers_update)
next
  case (Some p')
  then have "p' = p" using assms(1) by (simp add: get_progress_def)
  then show ?thesis using Some assms(2)
    by (intro sendsI [where ms = "[]" and P = "AList.update i q (r_prs r)" and L = "r_learner_prs r"])
      (simp_all add: put_progress_def same_peers_update)
qed

lemma send_cases:
  assumes "send m r = Inr r'"
  obtains m' where "r' = r\<lparr>r_msgs := r_msgs r @ [m']\<rparr>" and "m_from m' = r_id r"
    and "m' = m\<lparr>m_from := r_id r, m_term := m_term m'\<rparr>"
    and "m_term m' = (if is_vote_type (m_type m) \<or> m_type m = MsgProp \<or> m_type m = MsgReadIndex
                      then m_term m else r_term r)"
proof -
  let ?t = "if is_vote_type (m_type m) \<or> m_type m = MsgProp \<or> m_type m = MsgReadIndex then m_term m else r_term r"
  have "r' = r\<lparr>r_msgs := r_msgs r @ [m\<lparr>m_from := r_id r, m_term := ?t\<rparr>]\<rparr>"
    using assms by (auto simp: send_def Let_def rbind_Inr_iff split: if_splits)
  then show thesis by (intro that[of "m\<lparr>m_from := r_id r, m_term := ?t\<rparr>"]) simp_all
qed

lemma send_sends:
  assumes "send m r = Inr r'"
  shows "sends r r'"
proof -
  obtain m' where "r' = r\<lparr>r_msgs := r_msgs r @ [m']\<rparr>" "m_from m' = r_id r" using assms by (rule send_cases)
  then show ?thesis by (intro sendsI [where ms = "[m']" and P = "r_prs r" and L = "r_learner_prs r"]) simp_all
qed

lemma rfold_sends:
  assumes "rfold f xs r = Inr r'"
    and "\<And>x s t. x \<in> set xs \<Longrightarrow> sends r s \<Longrightarrow> f x s = Inr t \<Longrightarrow> sends s t"
  shows "sends r r'"
  by (rule rfold_invariant [where P = "sends r", OF assms(1)]) (auto intro: sends_trans assms(2))

lemma for_others_sends:
  assumes "for_others f r = Inr r'" and "\<And>i s t. sends r s \<Longrightarrow> f i s = Inr t \<Longrightarrow> sends s t"
  shows "sends r r'"
  by (rule rfold_sends [OF assms(1) [unfolded for_others_def]]) (auto intro: assms(2) split: if_splits)

section \<open>The operations that only send\<close>

lemma sent_index:
  assumes "wf_log l" and "log_entries l i mx = Inr (Inr es)" and "es \<noteq> []"
  shows "log_base l < unat i" and "prefix es (drop (unat i - (log_base l + 1)) (log_ents l))"
    and "unat (e_index (last es)) + 1 = unat i + length es" and "unat i + length es \<le> log_last l + 1"
proof -
  note w = wf_logD(1)[OF assms(1)]
  show b: "log_base l < unat i"
    using log_entries_compacted[OF w, of i mx] assms(2) by (cases "log_base l < unat i") auto
  have es: "es = entry_limit_size mx (drop (unat i - (log_base l + 1)) (log_ents l))"
    using log_entries_ok[OF w b, of mx] assms(2) by simp
  then show pre: "prefix es (drop (unat i - (log_base l + 1)) (log_ents l))"
    by (simp add: entry_limit_size_prefix)
  have "contig (unat i) (drop (unat i - (log_base l + 1)) (log_ents l))"
    using contig_drop[OF log_contig [OF w], of "unat i - (log_base l + 1)"] b by simp
  then have "contig (unat i) es" using pre by (metis contig_append prefix_def)
  then show "unat (e_index (last es)) + 1 = unat i + length es"
    using contig_index[of "unat i" es "length es - 1"] assms(3) by (simp add: last_conv_nth)
  have "length es \<le> length (log_ents l) - (unat i - (log_base l + 1))"
    using prefix_length_le[OF pre] by simp
  moreover have "0 < length es" using assms(3) by simp
  ultimately show "unat i + length es \<le> log_last l + 1" using b unfolding log_last_def by linarith
qed

lemma progress_sent_flow:
  assumes "wf_log l" and "log_entries l (pr_next pr) mx = Inr (Inr es)" and "progress_sent es pr = Inr q"
  shows "flow_only pr q"
proof (cases "es = []")
  case False
  note s = sent_index[OF assms(1,2) False]
  have "unat (e_index (last es)) + 1 < 2 ^ 64"
    using s(3,4) log_bounded[OF wf_logD(1)[OF assms(1)]] by simp
  then have nxt: "1 \<le> e_index (last es) + 1" by (simp add: word_le_nat_alt unat_add_1)
  have add: "wf_inflights g" if "wf_inflights f" "inflights_add f x = Inr g" for f g x
    using that inflights_add_spec[OF that(1), of x] by (cases "inflights_is_full f") (auto simp: inflights_add_def)
  show ?thesis using assms(3) False nxt
    by (auto simp: progress_sent_def flow_only_def good_pr_def wf_progress_def set_pause_def
        optimistic_update_def rbind_Inr_iff Let_def intro: add split: progress_state.splits)
qed (use assms(3) in \<open>simp add: progress_sent_def\<close>)

lemma become_snapshot_flow: "flow_only p (become_snapshot i p)"
  using wf_become_snapshot by (auto simp: flow_only_def good_pr_def) (auto simp: become_snapshot_def reset_state_def)

lemma put_send_sends:
  "send m (put_progress to q r) = Inr r' \<Longrightarrow> get_progress r to = Some p \<Longrightarrow> flow_only p q \<Longrightarrow> sends r r'"
  by (rule sends_trans [OF put_progress_sends send_sends])

lemma send_snapshot_sends:
  assumes "send_snapshot to pr r = Inr (r', b)" and "get_progress r to = Some pr"
  shows "sends r r'"
proof -
  obtain s where "log_snapshot (r_log r) = Inr (Inr s)" using log_snapshot_ok by blast
  then show ?thesis using assms
    by (auto simp: send_snapshot_def rbind_Inr_iff split: if_splits
        intro: put_send_sends become_snapshot_flow)
qed

lemma maybe_send_append_sends:
  assumes "maybe_send_append to e r = Inr (r', b)" and "wf_log (r_log r)"
  shows "sends r r'"
proof -
  obtain pr where pr: "get_progress r to = Some pr"
    using assms(1) by (auto simp: maybe_send_append_def rbind_Inr_iff)
  show ?thesis using assms pr
    by (auto simp: maybe_send_append_def rbind_Inr_iff Let_def split: if_splits sum.splits
        intro: put_send_sends progress_sent_flow send_snapshot_sends)
qed

lemma send_append_sends: "send_append to r = Inr r' \<Longrightarrow> wf_log (r_log r) \<Longrightarrow> sends r r'"
  by (auto simp: send_append_def rbind_Inr_iff intro: maybe_send_append_sends)

lemma send_append_loop_sends:
  "send_append_loop n to r = Inr r' \<Longrightarrow> wf_log (r_log r) \<Longrightarrow> sends r r'"
proof (induction n arbitrary: r)
  case (Suc n)
  then obtain s b where s: "maybe_send_append to False r = Inr (s, b)"
      "(if b then send_append_loop n to s else Inr s) = Inr r'"
    by (auto simp: rbind_Inr_iff)
  have rs: "sends r s" using maybe_send_append_sends[OF s(1)] Suc.prems(2) by simp
  then have "wf_log (r_log s)" using Suc.prems(2) by (simp add: sends_frame)
  then show ?case using s(2) Suc.IH[of s] rs by (auto intro: sends_trans split: if_splits)
qed simp

lemma bcast_append_sends: "bcast_append r = Inr r' \<Longrightarrow> wf_log (r_log r) \<Longrightarrow> sends r r'"
  unfolding bcast_append_def by (erule for_others_sends) (simp add: send_append_sends sends_frame)

lemma send_heartbeat_sends: "send_heartbeat to ctx r = Inr r' \<Longrightarrow> sends r r'"
  by (auto simp: send_heartbeat_def rbind_Inr_iff intro: send_sends)

lemma bcast_heartbeat_with_ctx_sends: "bcast_heartbeat_with_ctx ctx r = Inr r' \<Longrightarrow> sends r r'"
  unfolding bcast_heartbeat_with_ctx_def by (erule for_others_sends) (rule send_heartbeat_sends)

lemma bcast_heartbeat_sends: "bcast_heartbeat r = Inr r' \<Longrightarrow> sends r r'"
  unfolding bcast_heartbeat_def by (rule bcast_heartbeat_with_ctx_sends)

lemma send_timeout_now_sends: "send_timeout_now to r = Inr r' \<Longrightarrow> sends r r'"
  unfolding send_timeout_now_def by (rule send_sends)

lemma request_vote_sends: "request_vote t v trm to r = Inr r' \<Longrightarrow> sends r r'"
  by (auto simp: request_vote_def rbind_Inr_iff split: if_splits intro: send_sends)

lemma request_votes_sends: "rfold (request_vote t v trm) ids r = Inr r' \<Longrightarrow> sends r r'"
  by (erule rfold_sends) (rule request_vote_sends)

lemma step_lower_term_sends: "step_lower_term m r = Inr r' \<Longrightarrow> sends r r'"
  by (auto simp: step_lower_term_def rbind_Inr_iff split: if_splits intro: send_sends)

lemmas sending = send_sends send_append_sends send_append_loop_sends bcast_append_sends
  send_heartbeat_sends bcast_heartbeat_with_ctx_sends bcast_heartbeat_sends send_timeout_now_sends
  request_votes_sends step_lower_term_sends

section \<open>The sending loop ends\<close>

lemma get_put_progress:
  "get_progress r i \<noteq> None \<Longrightarrow> get_progress (put_progress i p r) j = (if j = i then Some p else get_progress r j)"
  by (auto simp: get_progress_def put_progress_def update_conv' split: option.splits)

lemma get_progress_cong:
  "r_prs r' = r_prs r \<Longrightarrow> r_learner_prs r' = r_learner_prs r \<Longrightarrow> get_progress r' i = get_progress r i"
  by (simp add: get_progress_def cong: option.case_cong)

lemma get_progress_send:
  assumes "send m r = Inr r'"
  shows "get_progress r' i = get_progress r i"
  using assms by (rule send_cases) (rule get_progress_cong, simp_all)

definition caught_up :: "raft_log \<Rightarrow> progress \<Rightarrow> bool" where
  "caught_up l pr \<longleftrightarrow> is_paused pr \<or> unat (pr_next pr) \<le> log_base l \<or> log_last l < unat (pr_next pr)"

text \<open>A round that has nothing to send stops, and so does one for a paused receiver.\<close>

lemma maybe_send_append_stop:
  assumes "wf_log (r_log r)" and "get_progress r to = Some pr" and "caught_up (r_log r) pr"
  shows "maybe_send_append to False r = Inr (r, False)"
proof (cases "is_paused pr")
  case False
  note w = wf_logD(1)[OF assms(1)]
  have "\<exists>x. log_entries (r_log r) (pr_next pr) mx = Inr x \<and> (case x of Inl _ \<Rightarrow> [] | Inr es \<Rightarrow> es) = []" for mx
  proof (cases "log_base (r_log r) < unat (pr_next pr)")
    case True
    then have "length (log_ents (r_log r)) \<le> unat (pr_next pr) - (log_base (r_log r) + 1)"
      using assms(3) False by (auto simp: caught_up_def log_last_def)
    then show ?thesis using log_entries_ok[OF w True, of mx] by simp
  next
    case False
    then show ?thesis using log_entries_compacted[OF w, of "pr_next pr" mx] by simp
  qed
  then obtain x where "log_entries (r_log r) (pr_next pr) (r_max_msg_size r) = Inr x"
      "(case x of Inl _ \<Rightarrow> [] | Inr es \<Rightarrow> es) = []" by blast
  then show ?thesis using False assms(2) log_term_ok[OF w]
    by (simp add: maybe_send_append_def Let_def)
qed (use assms(2) in \<open>simp add: maybe_send_append_def\<close>)

text \<open>A round that sends moves \<open>next\<close> forward inside the log or pauses the receiver.\<close>

lemma maybe_send_append_round:
  assumes "wf_log (r_log r)" and "get_progress r to = Some pr" and "\<not> caught_up (r_log r) pr"
    and "good_pr pr"
  shows "\<exists>r' pr'. maybe_send_append to False r = Inr (r', True) \<and> sends r r'
    \<and> get_progress r' to = Some pr' \<and> good_pr pr'
    \<and> (is_paused pr' \<or> (unat (pr_next pr) < unat (pr_next pr')))"
proof -
  note w = wf_logD(1)[OF assms(1)]
  have np: "\<not> is_paused pr" "log_base (r_log r) < unat (pr_next pr)" "unat (pr_next pr) \<le> log_last (r_log r)"
    using assms(3) by (auto simp: caught_up_def)
  define es where "es = entry_limit_size (r_max_msg_size r)
      (drop (unat (pr_next pr) - (log_base (r_log r) + 1)) (log_ents (r_log r)))"
  have ents: "log_entries (r_log r) (pr_next pr) (r_max_msg_size r) = Inr (Inr es)"
    using log_entries_ok[OF w np(2)] by (simp add: es_def)
  have ne: "es \<noteq> []" using np(2,3) by (simp add: es_def log_last_def)
  note si = sent_index[OF assms(1) ents ne]
  have lst: "unat (e_index (last es) + 1) = unat (pr_next pr) + length es"
    using si(3,4) log_bounded[OF w] by (subst unat_add_1) simp_all
  have "\<exists>pr'. progress_sent es pr = Inr pr' \<and> (is_paused pr' \<or> unat (pr_next pr) < unat (pr_next pr'))"
  proof (cases "pr_state pr")
    case ProgressStateReplicate
    then have "\<not> inflights_is_full (pr_inflights pr)" using np(1) by (simp add: is_paused_def)
    then show ?thesis
      using inflights_add_spec[of "pr_inflights pr" "e_index (last es)"] ProgressStateReplicate ne lst assms(4)
      by (auto simp: progress_sent_def Let_def optimistic_update_def good_pr_def wf_progress_def)
  next
    case ProgressStateProbe
    then show ?thesis using ne by (simp add: progress_sent_def is_paused_def set_pause_def)
  qed (use np(1) in \<open>simp add: is_paused_def\<close>)
  then obtain pr' where pr': "progress_sent es pr = Inr pr'" "is_paused pr' \<or> unat (pr_next pr) < unat (pr_next pr')"
    by blast
  obtain r' where r': "send (Message\<lparr>m_to := to, m_type := MsgApp, m_index := pr_next pr - 1,
      m_log_term := log_term_at (r_log r) (unat (pr_next pr - 1)), m_entries := es,
      m_commit := l_committed (r_log r)\<rparr>) (put_progress to pr' r) = Inr r'"
    by (simp add: send_def is_vote_type_def Message_def)
  have eq: "maybe_send_append to False r = Inr (r', True)"
    using assms(2) np(1) ents ne pr'(1) r' log_term_ok[OF w] by (simp add: maybe_send_append_def Let_def)
  have "get_progress r' to = Some pr'" using get_progress_send[OF r'] get_put_progress[of r to pr' to] assms(2) by simp
  moreover have "good_pr pr'" using progress_sent_flow[OF assms(1) ents pr'(1)] assms(4) by (simp add: flow_only_def)
  ultimately show ?thesis using eq maybe_send_append_sends[OF eq assms(1)] pr'(2) by blast
qed

lemma send_append_loop_ends:
  assumes "wf_log (r_log r)" and "get_progress r to = Some pr" and "good_pr pr"
    and "caught_up (r_log r) pr \<or> log_last (r_log r) + 1 - unat (pr_next pr) < n" and "0 < n"
  shows "\<exists>r' pr'. (\<forall>k\<ge>n. send_append_loop k to r = Inr r') \<and> sends r r'
     \<and> get_progress r' to = Some pr' \<and> caught_up (r_log r) pr'"
  using assms
proof (induction n arbitrary: r pr)
  case (Suc n)
  show ?case
  proof (cases "caught_up (r_log r) pr")
    case True
    have "send_append_loop k to r = Inr r" if "k \<ge> Suc n" for k
      using that maybe_send_append_stop[OF Suc.prems(1,2) True] by (cases k) simp_all
    then show ?thesis using True Suc.prems(2) sends_refl by blast
  next
    case False
    obtain s pr' where s: "maybe_send_append to False r = Inr (s, True)" "sends r s"
        "get_progress s to = Some pr'" "good_pr pr'" "is_paused pr' \<or> unat (pr_next pr) < unat (pr_next pr')"
      using maybe_send_append_round[OF Suc.prems(1,2) False Suc.prems(3)] by blast
    have log: "r_log s = r_log r" by (simp add: sends_frame [OF s(2)])
    have n: "log_last (r_log r) + 1 - unat (pr_next pr) < Suc n" "unat (pr_next pr) \<le> log_last (r_log r)"
      using Suc.prems(4) False by (auto simp: caught_up_def)
    have "caught_up (r_log r) pr' \<or> log_last (r_log r) + 1 - unat (pr_next pr') < n"
      using s(5) n by (auto simp: caught_up_def)
    moreover have "0 < n" using n by linarith
    ultimately obtain r' q where r': "\<forall>k\<ge>n. send_append_loop k to s = Inr r'" "sends s r'"
        "get_progress r' to = Some q" "caught_up (r_log r) q"
      using Suc.IH[of s pr'] Suc.prems(1) s(3,4) log by auto
    have "send_append_loop k to r = Inr r'" if "k \<ge> Suc n" for k
      using that s(1) r'(1) by (cases k) simp_all
    then show ?thesis using r'(2-4) sends_trans[OF s(2)] by blast
  qed
qed simp

lemma log_fuel_enough:
  assumes "log_base l < i"
  shows "log_last l + 1 - i < log_fuel l"
proof -
  have "length (log_ents l) \<le> length (ms_entries (l_storage l)) + length (u_entries (l_unstable l))"
    by (auto simp: log_ents_def st_ents_def split: option.split)
  then show ?thesis using assms by (simp add: log_fuel_def log_last_def)
qed

text \<open>
  C20: The loop that a leader runs after an acknowledgement, sending batch after batch while
  \<open>maybe_send_append\<close> reports success, ends without a fault, whatever the size limit of a message:
  with as many rounds as the log has entries it stops by itself, more rounds change nothing, and
  then the follower is paused, its next entry is compacted away, or everything has been sent.
\<close>

theorem replication_loop_ends:
  assumes "wf_log (r_log r)" and "get_progress r to = Some pr" and "good_pr pr"
  shows "\<exists>r' pr'. (\<forall>k\<ge>log_fuel (r_log r). send_append_loop k to r = Inr r') \<and> r_log r' = r_log r
     \<and> get_progress r' to = Some pr'
     \<and> (is_paused pr' \<or> unat (pr_next pr') \<le> log_base (r_log r) \<or> log_last (r_log r) < unat (pr_next pr'))"
proof -
  have "caught_up (r_log r) pr \<or> log_last (r_log r) + 1 - unat (pr_next pr) < log_fuel (r_log r)"
    using log_fuel_enough[of "r_log r" "unat (pr_next pr)"] by (auto simp: caught_up_def)
  then obtain r' pr' where "\<forall>k\<ge>log_fuel (r_log r). send_append_loop k to r = Inr r'" "sends r r'"
      "get_progress r' to = Some pr'" "caught_up (r_log r) pr'"
    using send_append_loop_ends[OF assms, of "log_fuel (r_log r)"] by (auto simp: log_fuel_def)
  then show ?thesis using sends_frame(4)[of r r'] unfolding caught_up_def by blast
qed

end
