(* ===== verification/Raft_Invariant.thy ===== *)
theory Raft_Invariant
  imports Raft_Sends
begin

text \<open>
  The invariant of a node and the relation \<open>evolves\<close> between its states before and after an
  operation. The invariant: a well-formed log, disjoint maps of voters and learners with
  well-formed progress, the bound step and tick functions agreeing with the role, and timeouts
  within their bounds. The relation: configuration and stable storage untouched, term and commit
  position never smaller, no vote changed within a term, messages only added.
\<close>

section \<open>The invariant\<close>

definition peers_ok :: "bool \<Rightarrow> (u64 \<times> progress) list \<Rightarrow> bool" where
  "peers_ok learner A \<longleftrightarrow>
     distinct (map fst A) \<and> (\<forall>x\<in>set A. good_pr (snd x) \<and> pr_is_learner (snd x) = learner)"

definition wf_peers :: "raft \<Rightarrow> bool" where
  "wf_peers r \<longleftrightarrow> peers_ok False (r_prs r) \<and> peers_ok True (r_learner_prs r)
     \<and> fst ` set (r_prs r) \<inter> fst ` set (r_learner_prs r) = {}"

definition wf_timer :: "raft \<Rightarrow> bool" where
  "wf_timer r \<longleftrightarrow> rd_fair (r_random_device r) \<and> rd_min (r_random_device r) = 0
     \<and> rd_max (r_random_device r) = r_election_timeout r \<and> unat (r_election_timeout r) < 2 ^ 31"

definition wf_core :: "raft \<Rightarrow> bool" where
  "wf_core r \<longleftrightarrow> wf_log (r_log r) \<and> wf_peers r \<and> wf_timer r \<and> wf_read_only (r_read_only r)
     \<and> distinct (map fst (r_votes r)) \<and> 0 < unat (r_max_inflight r) \<and> unat (r_max_inflight r) \<le> 2 ^ 31"

definition timeout_ok :: "raft \<Rightarrow> bool" where
  "timeout_ok r \<longleftrightarrow> r_election_timeout r \<le> r_randomized_election_timeout r
     \<and> unat (r_randomized_election_timeout r) \<le> 2 * unat (r_election_timeout r)"

fun step_of :: "raft_state \<Rightarrow> step_fun" where
  "step_of Follower = StepFollower"
| "step_of Candidate = StepCandidate"
| "step_of PreCandidate = StepCandidate"
| "step_of Leader = StepLeader"

fun tick_of :: "raft_state \<Rightarrow> tick_fun" where
  "tick_of Leader = TickHeartbeat"
| "tick_of _ = TickElection"

definition role_ok :: "raft \<Rightarrow> bool" where
  "role_ok r \<longleftrightarrow> r_step r = Some (step_of (r_state r)) \<and> r_tick r = Some (tick_of (r_state r))
     \<and> (r_state r = Leader \<longrightarrow> r_lead r = r_id r)"

definition wf_raft :: "raft \<Rightarrow> bool" where
  "wf_raft r \<longleftrightarrow> wf_core r \<and> timeout_ok r \<and> role_ok r"

section \<open>Evolution\<close>

definition r_fixed :: "raft \<Rightarrow> u64 \<times> u64 \<times> u64 \<times> u64 \<times> bool \<times> bool \<times> u32 \<times> u32 \<times> bool" where
  "r_fixed r = (r_id r, r_max_msg_size r, r_max_uncommitted_size r, r_max_inflight r, r_check_quorum r,
     r_pre_vote r, r_heartbeat_timeout r, r_election_timeout r, r_disable_proposal_forwarding r)"

definition evolves :: "raft \<Rightarrow> raft \<Rightarrow> bool" where
  "evolves r r' \<longleftrightarrow> r_fixed r' = r_fixed r \<and> r_term r \<le> r_term r'
     \<and> (r_term r' = r_term r \<and> r_vote r \<noteq> 0 \<longrightarrow> r_vote r' = r_vote r)
     \<and> l_committed (r_log r) \<le> l_committed (r_log r')
     \<and> l_storage (r_log r') = l_storage (r_log r) \<and> l_applied (r_log r') = l_applied (r_log r)
     \<and> prefix (r_msgs r) (r_msgs r')"

lemma evolves_refl [simp]: "evolves r r"
  by (simp add: evolves_def)

lemma evolves_trans:
  assumes "evolves r s" and "evolves s t"
  shows "evolves r t"
proof -
  have "r_vote t = r_vote r" if "r_term t = r_term r" "r_vote r \<noteq> 0"
  proof -
    have "r_term s = r_term r" using assms that(1) by (auto simp: evolves_def intro: order_antisym)
    then show ?thesis using assms that by (simp add: evolves_def)
  qed
  moreover have "r_term r \<le> r_term t" "l_committed (r_log r) \<le> l_committed (r_log t)"
    "prefix (r_msgs r) (r_msgs t)"
    using assms unfolding evolves_def by (blast intro: order_trans prefix_order.trans)+
  ultimately show ?thesis using assms by (simp add: evolves_def)
qed

text \<open>An operation behaves when it keeps the invariant and only evolves the node.\<close>

definition behaves :: "raft \<Rightarrow> raft \<Rightarrow> bool" where
  "behaves r r' \<longleftrightarrow> (wf_raft r \<longrightarrow> wf_raft r' \<and> evolves r r')"

lemma behaves_refl [simp]: "behaves r r"
  by (simp add: behaves_def)

lemma behaves_trans: "behaves r s \<Longrightarrow> behaves s t \<Longrightarrow> behaves r t"
  by (auto simp: behaves_def intro: evolves_trans)

lemma peers_ok_same: "same_peers A B \<Longrightarrow> peers_ok b A \<Longrightarrow> peers_ok b B"
  using same_peers_all[of A B "\<lambda>p. good_pr p \<and> pr_is_learner p = b"] same_peers_fst[of A B]
  by (auto simp: peers_ok_def flow_only_def)

lemma wf_peers_sends:
  assumes "sends r r'" and "wf_peers r"
  shows "wf_peers r'"
proof -
  obtain ms P L where s: "r' = r\<lparr>r_msgs := r_msgs r @ ms, r_prs := P, r_learner_prs := L\<rparr>"
      "same_peers (r_prs r) P" "same_peers (r_learner_prs r) L"
    using assms(1) unfolding sends_def by blast
  have "fst ` set P = fst ` set (r_prs r)" "fst ` set L = fst ` set (r_learner_prs r)"
    using same_peers_fst[OF s(2)] same_peers_fst[OF s(3)] by (metis list.set_map)+
  then show ?thesis using assms(2) s peers_ok_same by (auto simp: wf_peers_def)
qed

lemma sends_behaves:
  assumes "sends r r'"
  shows "behaves r r'"
proof -
  obtain ms P L where s: "r' = r\<lparr>r_msgs := r_msgs r @ ms, r_prs := P, r_learner_prs := L\<rparr>"
    using assms unfolding sends_def by blast
  then show ?thesis using wf_peers_sends[OF assms]
    by (auto simp: behaves_def wf_raft_def wf_core_def wf_timer_def timeout_ok_def role_ok_def
        evolves_def r_fixed_def)
qed

lemma wf_raftD:
  assumes "wf_raft r"
  shows "wf_log (r_log r)" "wf_peers r" "wf_core r" "role_ok r" "timeout_ok r" "wf_timer r"
    "wf_read_only (r_read_only r)" "distinct (map fst (r_votes r))"
  using assms by (simp_all add: wf_raft_def wf_core_def)

section \<open>Reset and the role changes\<close>

lemma u32_double:
  assumes "unat (e :: u32) < 2 ^ 31" and "x \<le> e"
  shows "e + x \<le> 2 * e" and "e \<le> e + x" and "unat (e + x) \<le> 2 * unat e"
proof -
  have "unat x \<le> unat e" using assms(2) by (simp add: word_le_nat_alt)
  moreover have "unat (e + x) = unat e + unat x"
    using assms(1) calculation by (intro unat_add_u32) simp
  moreover have "unat (2 * e) = unat e + unat e"
    using assms(1) unat_add_u32[of e e] unfolding mult_2 by simp
  ultimately show "e + x \<le> 2 * e" "e \<le> e + x" "unat (e + x) \<le> 2 * unat e"
    unfolding word_le_nat_alt by linarith+
qed

lemma reset_randomized_ok:
  assumes "wf_timer r"
  shows "\<exists>r'. reset_randomized_election_timeout r = Inr r' \<and> wf_timer r' \<and> timeout_ok r'
     \<and> r' = r\<lparr>r_random_device := r_random_device r',
              r_randomized_election_timeout := r_randomized_election_timeout r'\<rparr>"
proof -
  let ?d = "r_random_device r" and ?e = "r_election_timeout r"
  have "rd_draws ?d n \<le> ?e" for n using assms unfolding wf_timer_def rd_fair_def by metis
  then show ?thesis using assms u32_double[of ?e "rd_draws ?d (rd_pos ?d)"]
    by (simp add: reset_randomized_election_timeout_def rd_gen_def Let_def wf_timer_def timeout_ok_def
        rd_fair_def)
qed

lemma good_fresh_progress:
  assumes "wf_log l" and "log_last_index l = Inr lst" and "0 < unat (r_max_inflight r)"
    and "unat (r_max_inflight r) \<le> 2 ^ 31"
  shows "good_pr (fresh_progress r lst i p)" "pr_is_learner (fresh_progress r lst i p) = pr_is_learner p"
    "good_pr ((Progress (r_max_inflight r))\<lparr>pr_next := lst + 1, pr_match := (if b then lst else 0), pr_is_learner := c\<rparr>)"
proof -
  have k: "unat lst = log_last l" "unat lst + 1 < 2 ^ 64"
    using log_last_index_ok[OF wf_logD(1)[OF assms(1)]] log_bounded[OF wf_logD(1)[OF assms(1)]] assms(2) by auto
  then have "1 \<le> lst + 1" "lst \<noteq> - 1" using max_word_u64 by (auto simp: word_le_nat_alt unat_add_1)
  then show "good_pr (fresh_progress r lst i p)" "pr_is_learner (fresh_progress r lst i p) = pr_is_learner p"
      "good_pr ((Progress (r_max_inflight r))\<lparr>pr_next := lst + 1, pr_match := (if b then lst else 0), pr_is_learner := c\<rparr>)"
    using wf_InFlights[OF assms(3,4)]
    by (simp_all add: fresh_progress_def Progress_def Let_def good_pr_def wf_progress_def)
qed

lemma reset_progress_ok:
  assumes "wf_log (r_log r)" and "wf_peers r" and "0 < unat (r_max_inflight r)"
    and "unat (r_max_inflight r) \<le> 2 ^ 31"
  shows "\<exists>P L. reset_progress r = Inr (r\<lparr>r_prs := P, r_learner_prs := L\<rparr>)
     \<and> map fst P = map fst (r_prs r) \<and> map fst L = map fst (r_learner_prs r)
     \<and> wf_peers (r\<lparr>r_prs := P, r_learner_prs := L\<rparr>)"
proof (cases "r_prs r = [] \<and> r_learner_prs r = []")
  case True
  then show ?thesis using assms(2)
    by (intro exI[of _ "r_prs r"] exI[of _ "r_learner_prs r"]) (simp add: reset_progress_def wf_peers_def)
next
  case False
  obtain lst where lst: "log_last_index (r_log r) = Inr lst"
    using log_last_index_ok[OF wf_logD(1)[OF assms(1)]] by blast
  note good = good_fresh_progress[OF assms(1) lst assms(3,4)]
  let ?f = "map (\<lambda>(i, p). (i, fresh_progress r lst i p))"
  have fst: "map fst (?f A) = map fst A" for A by (simp add: split_def comp_def)
  then have img: "fst ` set (?f A) = fst ` set A" for A by (metis set_map)
  have "peers_ok b (?f A)" if "peers_ok b A" for b A
    using that good(1,2) unfolding peers_ok_def fst by auto
  then have "wf_peers (r\<lparr>r_prs := ?f (r_prs r), r_learner_prs := ?f (r_learner_prs r)\<rparr>)"
    using assms(2) img by (simp add: wf_peers_def)
  then show ?thesis using False lst fst
    by (intro exI[of _ "?f (r_prs r)"] exI[of _ "?f (r_learner_prs r)"]) (simp only: reset_progress_def if_False rbind_simps simp_thms)
qed

text \<open>\<open>reset\<close> never fails on a well-formed node, and what it changes is listed here.\<close>

lemma reset_ok:
  assumes "wf_core r"
  shows "\<exists>r'. reset trm r = Inr r' \<and> wf_core r' \<and> timeout_ok r' \<and> r_fixed r' = r_fixed r
     \<and> r_term r' = trm \<and> r_vote r' = (if r_term r = trm then r_vote r else 0) \<and> r_log r' = r_log r
     \<and> r_msgs r' = r_msgs r \<and> r_state r' = r_state r \<and> r_step r' = r_step r \<and> r_lead r' = 0
     \<and> r_votes r' = [] \<and> r_uncommitted_size r' = 0 \<and> r_election_elapsed r' = 0
     \<and> map fst (r_prs r') = map fst (r_prs r)"
proof -
  define r2 where "r2 = (if r_term r \<noteq> trm then r\<lparr>r_term := trm, r_vote := 0\<rparr> else r)
      \<lparr>r_lead := 0, r_election_elapsed := 0, r_heartbeat_elapsed := 0\<rparr>"
  have r2: "wf_timer r2" "wf_log (r_log r2)" "wf_peers r2" "0 < unat (r_max_inflight r2)"
      "unat (r_max_inflight r2) \<le> 2 ^ 31"
    using assms by (simp_all add: r2_def wf_core_def wf_timer_def wf_peers_def)
  obtain r3 where r3: "reset_randomized_election_timeout r2 = Inr r3" "wf_timer r3" "timeout_ok r3"
      "r3 = r2\<lparr>r_random_device := r_random_device r3,
         r_randomized_election_timeout := r_randomized_election_timeout r3\<rparr>"
    using reset_randomized_ok[OF r2(1)] by blast
  define r3' where "r3' = (abort_leader_transfer r3)\<lparr>r_votes := []\<rparr>"
  have r3': "wf_log (r_log r3')" "wf_peers r3'" "0 < unat (r_max_inflight r3')"
      "unat (r_max_inflight r3') \<le> 2 ^ 31"
    using r2(2-5) unfolding r3'_def abort_leader_transfer_def
    by (subst r3(4), simp add: wf_peers_def)+
  obtain P L where pl: "reset_progress r3' = Inr (r3'\<lparr>r_prs := P, r_learner_prs := L\<rparr>)"
      "map fst P = map fst (r_prs r3')" "wf_peers (r3'\<lparr>r_prs := P, r_learner_prs := L\<rparr>)"
    using reset_progress_ok[OF r3'] by blast
  define r4 where "r4 = r3'\<lparr>r_prs := P, r_learner_prs := L\<rparr>"
  define r' where "r' = r4\<lparr>r_pending_conf_index := 0, r_uncommitted_size := 0,
      r_read_only := (r_read_only r4)\<lparr>ro_pending := [], ro_queue := []\<rparr>\<rparr>"
  have eq: "reset trm r = Inr r'"
    using r3(1) pl(1) by (simp add: reset_def r2_def [symmetric] r3'_def [symmetric] r4_def [symmetric] r'_def Let_def)
  have k: "r_fixed r3 = r_fixed r" "r_term r3 = trm" "r_vote r3 = (if r_term r = trm then r_vote r else 0)"
      "r_log r3 = r_log r" "r_msgs r3 = r_msgs r" "r_state r3 = r_state r" "r_step r3 = r_step r"
      "r_lead r3 = 0" "r_election_elapsed r3 = 0" "r_prs r3 = r_prs r"
    by (subst r3(4), simp add: r2_def r_fixed_def)+
  have "wf_core r'"
    using r3(2) r3'(1,3,4) pl(3) wf_read_only_clear
    by (simp add: r'_def r4_def wf_core_def wf_timer_def wf_peers_def r3'_def abort_leader_transfer_def)
  moreover have "timeout_ok r'" using r3(3)
    by (simp add: r'_def r4_def r3'_def timeout_ok_def abort_leader_transfer_def)
  ultimately show ?thesis using eq k pl(2)
    by (simp add: r'_def r4_def r3'_def abort_leader_transfer_def r_fixed_def)
qed

lemma wf_core_step [simp]: "wf_core (r\<lparr>r_step := s\<rparr>) = wf_core r"
  by (simp add: wf_core_def wf_peers_def wf_timer_def)

lemma r_fixed_step [simp]: "r_fixed (r\<lparr>r_step := s\<rparr>) = r_fixed r"
  by (simp add: r_fixed_def)

lemma become_follower_ok:
  assumes "wf_core r" and "r_term r \<le> trm"
  shows "\<exists>r'. become_follower trm lead r = Inr r' \<and> wf_raft r' \<and> evolves r r' \<and> r_log r' = r_log r
     \<and> r_term r' = trm \<and> r_state r' = Follower \<and> r_lead r' = lead \<and> r_msgs r' = r_msgs r
     \<and> r_vote r' = (if r_term r = trm then r_vote r else 0)
     \<and> map fst (r_prs r') = map fst (r_prs r)"
proof -
  obtain s where s: "reset trm (r\<lparr>r_step := Some StepFollower\<rparr>) = Inr s" "wf_core s" "timeout_ok s"
      "r_fixed s = r_fixed r" "r_term s = trm" "r_vote s = (if r_term r = trm then r_vote r else 0)"
      "r_log s = r_log r" "r_msgs s = r_msgs r" "r_step s = Some StepFollower"
      "map fst (r_prs s) = map fst (r_prs r)"
    using reset_ok[of "r\<lparr>r_step := Some StepFollower\<rparr>" trm] assms(1) by auto
  let ?r' = "s\<lparr>r_tick := Some TickElection, r_lead := lead, r_state := Follower\<rparr>"
  have "wf_raft ?r'" using s(2,3,9)
    by (simp add: wf_raft_def wf_core_def wf_peers_def wf_timer_def timeout_ok_def role_ok_def)
  moreover have "evolves r ?r'" using s assms(2) by (simp add: evolves_def r_fixed_def)
  ultimately show ?thesis using s by (simp add: become_follower_def)
qed

lemma become_candidate_ok:
  assumes "wf_core r" and "r_state r \<noteq> Leader" and "r_term r \<noteq> - 1"
  shows "\<exists>r'. become_candidate r = Inr r' \<and> wf_raft r' \<and> evolves r r' \<and> r_log r' = r_log r
     \<and> r_term r' = r_term r + 1 \<and> r_term r < r_term r' \<and> r_state r' = Candidate \<and> r_vote r' = r_id r
     \<and> r_votes r' = [] \<and> r_msgs r' = r_msgs r \<and> r_id r' = r_id r \<and> map fst (r_prs r') = map fst (r_prs r)"
proof -
  have lt: "r_term r < r_term r + 1" using assms(3) by (rule u64_less_succ)
  obtain s where s: "reset (r_term r + 1) (r\<lparr>r_step := Some StepCandidate\<rparr>) = Inr s" "wf_core s" "timeout_ok s"
      "r_fixed s = r_fixed r" "r_term s = r_term r + 1" "r_log s = r_log r" "r_msgs s = r_msgs r"
      "r_step s = Some StepCandidate" "r_votes s = []" "map fst (r_prs s) = map fst (r_prs r)"
    using reset_ok[of "r\<lparr>r_step := Some StepCandidate\<rparr>" "r_term r + 1"] assms(1) by auto
  have id: "r_id s = r_id r" using s(4) by (simp add: r_fixed_def)
  let ?r' = "s\<lparr>r_tick := Some TickElection, r_vote := r_id s, r_state := Candidate\<rparr>"
  have "wf_raft ?r'" using s(2,3,8)
    by (simp add: wf_raft_def wf_core_def wf_peers_def wf_timer_def timeout_ok_def role_ok_def)
  moreover have "evolves r ?r'" using s lt by (auto simp: evolves_def r_fixed_def)
  ultimately show ?thesis using s id lt assms(2) by (simp add: become_candidate_def)
qed

lemma become_pre_candidate_ok:
  assumes "wf_raft r" and "r_state r \<noteq> Leader"
  shows "\<exists>r'. become_pre_candidate r = Inr r' \<and> wf_raft r' \<and> evolves r r' \<and> r_log r' = r_log r
     \<and> r_term r' = r_term r \<and> r_vote r' = r_vote r \<and> r_state r' = PreCandidate \<and> r_votes r' = []
     \<and> r_msgs r' = r_msgs r \<and> r_id r' = r_id r \<and> r_prs r' = r_prs r"
  using assms
  by (simp add: become_pre_candidate_def wf_raft_def wf_core_def wf_peers_def wf_timer_def
      timeout_ok_def role_ok_def evolves_def r_fixed_def)

section \<open>Progress updates\<close>

lemma peers_ok_update:
  assumes "peers_ok b A" and "good_pr q" and "pr_is_learner q = b"
  shows "peers_ok b (AList.update i q A)"
  using assms set_update_subset[of i q A] by (auto simp: peers_ok_def distinct_update)

lemma peers_ok_delete: "peers_ok b A \<Longrightarrow> peers_ok b (AList.delete i A)"
  by (simp add: peers_ok_def distinct_delete) (auto simp: AList.delete_eq)

lemma fst_update: "fst ` set (AList.update i q A) = insert i (fst ` set A)"
  by (simp add: dom_update)

lemma fst_delete: "fst ` set (AList.delete i A) = fst ` set A - {i}"
  by (auto simp: AList.delete_eq)

lemma fst_update_present: "map_of A i = Some p \<Longrightarrow> map fst (AList.update i q A) = map fst A"
  by (induction A) (auto split: if_splits)

lemma put_progress_cases:
  assumes "get_progress r i = Some p"
  obtains P L where "put_progress i q r = r\<lparr>r_prs := P, r_learner_prs := L\<rparr>"
    and "map fst P = map fst (r_prs r)" and "map fst L = map fst (r_learner_prs r)"
    and "wf_peers r \<Longrightarrow> good_pr q \<Longrightarrow> pr_is_learner q = pr_is_learner p
         \<Longrightarrow> wf_peers (r\<lparr>r_prs := P, r_learner_prs := L\<rparr>)"
proof (cases "map_of (r_prs r) i")
  case None
  then have l: "map_of (r_learner_prs r) i = Some p" using assms by (simp add: get_progress_def)
  then have "(i, p) \<in> set (r_learner_prs r)" by (rule map_of_SomeD)
  then have img: "fst ` set (AList.update i q (r_learner_prs r)) = fst ` set (r_learner_prs r)"
    by (force simp: fst_update)
  show thesis
  proof (rule that [where P = "r_prs r" and L = "AList.update i q (r_learner_prs r)"])
    assume w: "wf_peers r" "good_pr q" "pr_is_learner q = pr_is_learner p"
    then have "pr_is_learner p" using \<open>(i, p) \<in> set (r_learner_prs r)\<close> by (force simp: wf_peers_def peers_ok_def)
    then show "wf_peers (r\<lparr>r_prs := r_prs r, r_learner_prs := AList.update i q (r_learner_prs r)\<rparr>)"
      using w img by (simp add: wf_peers_def peers_ok_update)
  qed (use None l in \<open>simp_all add: put_progress_def fst_update_present\<close>)
next
  case (Some p')
  then have l: "map_of (r_prs r) i = Some p" using assms by (simp add: get_progress_def)
  then have "(i, p) \<in> set (r_prs r)" by (rule map_of_SomeD)
  then have img: "fst ` set (AList.update i q (r_prs r)) = fst ` set (r_prs r)"
    by (force simp: fst_update)
  show thesis
  proof (rule that [where P = "AList.update i q (r_prs r)" and L = "r_learner_prs r"])
    assume w: "wf_peers r" "good_pr q" "pr_is_learner q = pr_is_learner p"
    then have "\<not> pr_is_learner p" using \<open>(i, p) \<in> set (r_prs r)\<close> by (force simp: wf_peers_def peers_ok_def)
    then show "wf_peers (r\<lparr>r_prs := AList.update i q (r_prs r), r_learner_prs := r_learner_prs r\<rparr>)"
      using w img by (simp add: wf_peers_def peers_ok_update)
  qed (use l in \<open>simp_all add: put_progress_def fst_update_present\<close>)
qed

lemma wf_raft_peers:
  "wf_raft r \<Longrightarrow> wf_peers (r\<lparr>r_prs := P, r_learner_prs := L\<rparr>) \<Longrightarrow> wf_raft (r\<lparr>r_prs := P, r_learner_prs := L\<rparr>)"
  by (simp add: wf_raft_def wf_core_def wf_timer_def timeout_ok_def role_ok_def)

lemma put_progress_behaves:
  assumes "get_progress r i = Some p" and "good_pr p \<Longrightarrow> good_pr q" and "pr_is_learner q = pr_is_learner p"
  shows "behaves r (put_progress i q r)"
proof -
  obtain P L where pl: "put_progress i q r = r\<lparr>r_prs := P, r_learner_prs := L\<rparr>"
      "wf_peers r \<Longrightarrow> good_pr q \<Longrightarrow> pr_is_learner q = pr_is_learner p
         \<Longrightarrow> wf_peers (r\<lparr>r_prs := P, r_learner_prs := L\<rparr>)"
    using put_progress_cases[OF assms(1)] by metis
  have "good_pr p" if "wf_peers r"
    using that get_progress_good[OF assms(1)] by (auto simp: wf_peers_def peers_ok_def)
  then show ?thesis using pl assms(2,3)
    by (auto simp: behaves_def wf_raft_peers wf_raftD evolves_def r_fixed_def)
qed

end
