(* ===== verification/Raft_Election.thy ===== *)
theory Raft_Election
  imports Raft_Invariant
begin

text \<open>
  Commitment, appending and elections: what \<open>maybe_commit\<close>, \<open>append_entry\<close>,
  \<open>become_leader\<close>, \<open>poll\<close> and \<open>campaign\<close> do to a well-formed node.
\<close>

section \<open>The commit position\<close>

lemma sorted_kth_count:
  fixes xs :: "'a :: linorder list"
  assumes "sorted xs" and "k < length xs"
  shows "length xs - k \<le> length (filter (\<lambda>x. v \<le> x) xs) \<longleftrightarrow> v \<le> xs ! k"
proof
  assume "v \<le> xs ! k"
  moreover have "xs ! k \<le> xs ! (k + i)" if "i < length xs - k" for i
    using that assms by (intro sorted_nth_mono) auto
  ultimately have "\<forall>x\<in>set (drop k xs). v \<le> x"
    by (auto simp: in_set_conv_nth) (meson order_trans)
  then have "filter (\<lambda>x. v \<le> x) (drop k xs) = drop k xs" by (simp add: filter_id_conv)
  moreover have "filter (\<lambda>x. v \<le> x) xs = filter (\<lambda>x. v \<le> x) (take k xs) @ filter (\<lambda>x. v \<le> x) (drop k xs)"
    by (metis append_take_drop_id filter_append)
  ultimately show "length xs - k \<le> length (filter (\<lambda>x. v \<le> x) xs)" by simp
next
  assume c: "length xs - k \<le> length (filter (\<lambda>x. v \<le> x) xs)"
  show "v \<le> xs ! k"
  proof (rule ccontr)
    assume nv: "\<not> v \<le> xs ! k"
    have small: "xs ! j \<le> xs ! k" if "j \<le> k" for j using that assms by (intro sorted_nth_mono)
    have "\<forall>x\<in>set (take (Suc k) xs). \<not> v \<le> x"
      using nv assms(2) small by (auto simp: in_set_conv_nth less_Suc_eq_le) (meson order_trans)
    then have "filter (\<lambda>x. v \<le> x) (take (Suc k) xs) = []" by (simp add: filter_empty_conv)
    moreover have "filter (\<lambda>x. v \<le> x) xs
        = filter (\<lambda>x. v \<le> x) (take (Suc k) xs) @ filter (\<lambda>x. v \<le> x) (drop (Suc k) xs)"
      by (metis append_take_drop_id filter_append)
    ultimately have "length (filter (\<lambda>x. v \<le> x) xs) \<le> length xs - Suc k"
      using length_filter_le[of "\<lambda>x. v \<le> x" "drop (Suc k) xs"] by simp
    then show False using c assms(2) by linarith
  qed
qed

text \<open>How many voters are known to have the log up to position \<open>i\<close>, and the size of a majority.\<close>

definition matched_by :: "raft \<Rightarrow> u64 \<Rightarrow> nat" where
  "matched_by r i = length (filter (\<lambda>(_, p). i \<le> pr_match p) (r_prs r))"

definition majority :: "raft \<Rightarrow> nat" where
  "majority r = length (r_prs r) div 2 + 1"

lemma quorum_unat: "length (r_prs r) < 2 ^ 32 \<Longrightarrow> unat (quorum r) = majority r"
proof -
  assume "length (r_prs r) < 2 ^ 32"
  then have "length (r_prs r) div 2 + 1 < 2 ^ 32" by simp
  then show ?thesis unfolding quorum_def majority_def by (subst unat_of_nat) (simp add: take_bit_eq_mod)
qed

lemma maybe_commit_index:
  assumes "r_prs r \<noteq> []" and "length (r_prs r) < 2 ^ 32"
  defines "buf \<equiv> sort (map (\<lambda>(_, p). pr_match p) (r_prs r))"
  shows "\<exists>mci. vec_at buf (vec_size buf - ucast (quorum r)) = Inr mci
    \<and> (\<forall>i. majority r \<le> matched_by r i \<longleftrightarrow> i \<le> mci)"
proof -
  let ?n = "length (r_prs r)"
  have len: "length buf = ?n" by (simp add: buf_def)
  have q: "unat (quorum r) = majority r" by (rule quorum_unat [OF assms(2)])
  have mn: "majority r \<le> ?n" "0 < majority r" using assms(1) by (cases "r_prs r"; simp add: majority_def)+
  have "unat (vec_size buf) = ?n" using len assms(2) by (simp add: vec_size_unat)
  then have ix: "unat (vec_size buf - ucast (quorum r)) = ?n - majority r"
    using q mn by (subst unat_sub_u64) (simp_all add: word_le_nat_alt)
  have k: "?n - majority r < length buf" using len mn by simp
  have cnt: "matched_by r i = length (filter (\<lambda>x. i \<le> x) buf)" for i
    by (simp add: matched_by_def buf_def filter_sort filter_map comp_def split_def)
  have "?n - (?n - majority r) = majority r" using mn by simp
  then have "majority r \<le> matched_by r i \<longleftrightarrow> i \<le> buf ! (?n - majority r)" for i
    using sorted_kth_count[of buf "?n - majority r" i] k len cnt by (simp add: buf_def)
  then show ?thesis using ix k by (simp add: vec_at_def)
qed

lemma log_maybe_commit_cases:
  assumes "log_maybe_commit i trm l = Inr (l', b)" and "wf_log l"
  shows "wf_log l' \<and> (if b then l' = l\<lparr>l_committed := i\<rparr> \<and> l_committed l < i \<and> log_term_at l (unat i) = trm
                          \<and> unat i \<le> log_last l
                      else l' = l)"
proof -
  note w = wf_logD(1)[OF assms(2)]
  have ct: "l1 = l\<lparr>l_committed := i\<rparr> \<and> wf_log l1 \<and> unat i \<le> log_last l"
    if "commit_to i l = Inr l1" "l_committed l < i" for l1
  proof -
    have "unat i \<le> log_last l" using commit_to_beyond[OF assms(2), of i] that(1) by (cases "unat i \<le> log_last l") auto
    then show ?thesis using commit_to_ok[OF assms(2), of i] that by (simp add: max_absorb2)
  qed
  show ?thesis using assms ct
    by (auto simp: log_maybe_commit_def log_term_ok[OF w] rbind_Inr_iff split: if_splits)
qed

lemma maybe_commit_cases:
  assumes "maybe_commit r = Inr (r', b)" and "wf_log (r_log r)"
  obtains buf l where "r' = r\<lparr>r_match_buf := buf, r_log := l\<rparr>" and "wf_log l"
    and "l = (r_log r)\<lparr>l_committed := l_committed l\<rparr>" and "l_committed (r_log r) \<le> l_committed l"
proof -
  let ?buf = "sort (map (\<lambda>(_, p). pr_match p) (r_prs r))"
  obtain i l where l: "log_maybe_commit i (r_term r) (r_log r) = Inr (l, b)"
      "r' = r\<lparr>r_match_buf := ?buf, r_log := l\<rparr>"
    using assms(1) by (auto simp: maybe_commit_def Let_def rbind_Inr_iff)
  show thesis
    by (rule that [OF l(2)]) (use log_maybe_commit_cases[OF l(1) assms(2)] in \<open>auto split: if_splits\<close>)
qed

text \<open>
  C8: The commit rule of a leader. On a well-formed node with at least one voter
  \<open>maybe_commit\<close> does not fault. Let \<open>mci\<close> be the largest position that a majority of the
  voters is known to have. The commit position moves exactly when \<open>mci\<close> is past it and the entry
  at \<open>mci\<close> is of the current term; then it becomes \<open>mci\<close>. Nothing else of the log changes.
\<close>

theorem maybe_commit_quorum:
  assumes "wf_log (r_log r)" and "r_prs r \<noteq> []" and "length (r_prs r) < 2 ^ 32" and "r_term r \<noteq> 0"
  shows "\<exists>r' mci. (\<forall>i. majority r \<le> matched_by r i \<longleftrightarrow> i \<le> mci)
     \<and> (let moved = l_committed (r_log r) < mci \<and> log_term_at (r_log r) (unat mci) = r_term r in
        maybe_commit r = Inr (r', moved)
        \<and> r_log r' = (if moved then (r_log r)\<lparr>l_committed := mci\<rparr> else r_log r) \<and> wf_log (r_log r'))"
proof -
  obtain mci where mci: "vec_at (sort (map (\<lambda>(_, p). pr_match p) (r_prs r)))
        (vec_size (sort (map (\<lambda>(_, p). pr_match p) (r_prs r))) - ucast (quorum r)) = Inr mci"
      "\<forall>i. majority r \<le> matched_by r i \<longleftrightarrow> i \<le> mci"
    using maybe_commit_index[OF assms(2,3)] by blast
  show ?thesis
    by (rule exI[of _ "r\<lparr>r_match_buf := sort (map (\<lambda>(_, p). pr_match p) (r_prs r)),
          r_log := (if l_committed (r_log r) < mci \<and> log_term_at (r_log r) (unat mci) = r_term r
                    then (r_log r)\<lparr>l_committed := mci\<rparr> else r_log r)\<rparr>"], rule exI[of _ mci])
      (use mci log_maybe_commit_ok[OF assms(1,4), of mci] assms(1) in \<open>auto simp: maybe_commit_def Let_def\<close>)
qed

section \<open>Appending to the leader's log\<close>

lemma length_number_entries [simp]: "length (number_entries t i es) = length es"
  by (induction t i es rule: number_entries.induct) simp_all

lemma number_entries_contig:
  "unat i + length es < 2 ^ 64 \<Longrightarrow> contig (unat i) (number_entries t i es)"
  by (induction t i es rule: number_entries.induct) (auto simp: unat_add_1 Entry_def)

lemma number_entries_term: "e \<in> set (number_entries t i es) \<Longrightarrow> e_term e = t"
  by (induction t i es rule: number_entries.induct) auto

lemma maybe_update_fields:
  "pr_match (fst (maybe_update n p)) = max (pr_match p) n"
  "pr_is_learner (fst (maybe_update n p)) = pr_is_learner p"
  "pr_state (fst (maybe_update n p)) = pr_state p"
  "snd (maybe_update n p) \<longleftrightarrow> pr_match p < n"
  by (auto simp: maybe_update_def resume_def Let_def max_def)

lemma good_maybe_update:
  "good_pr p \<Longrightarrow> n \<noteq> - 1 \<Longrightarrow> good_pr (fst (maybe_update n p))"
  by (simp add: good_pr_def wf_maybe_update maybe_update_fields max_def)

text \<open>What an append leaves of the node: counters, log and progress are new, the rest is kept.\<close>

definition appended :: "entry list \<Rightarrow> raft \<Rightarrow> raft \<Rightarrow> bool" where
  "appended es r r' \<longleftrightarrow>
     (\<exists>u P L buf l. r' = r\<lparr>r_uncommitted_size := u, r_log := l, r_prs := P, r_learner_prs := L, r_match_buf := buf\<rparr>
        \<and> map fst P = map fst (r_prs r) \<and> wf_peers r' \<and> wf_log l
        \<and> log_base l = log_base (r_log r) \<and> log_base_term l = log_base_term (r_log r)
        \<and> log_ents l = log_ents (r_log r) @ es
        \<and> l_committed (r_log r) \<le> l_committed l \<and> l_storage l = l_storage (r_log r)
        \<and> l_applied l = l_applied (r_log r))"

lemma log_append_tail:
  assumes "wf_log l" and "log_last_index l = Inr li" and "log_last l + length es + 1 < 2 ^ 64"
  shows "\<exists>l' i. log_append (number_entries t (li + 1) es) l = Inr (l', i) \<and> i \<noteq> - 1 \<and> wf_log l'
    \<and> unat i = log_last l + length es
    \<and> log_base l' = log_base l \<and> log_base_term l' = log_base_term l
    \<and> log_ents l' = log_ents l @ number_entries t (li + 1) es
    \<and> l' = l\<lparr>l_unstable := l_unstable l'\<rparr>"
proof -
  note w = wf_logD[OF assms(1)]
  let ?ns = "number_entries t (li + 1) es"
  have li: "unat li = log_last l" using log_last_index_ok[OF w(1)] assms(2) by auto
  have li1: "unat (li + 1) = log_last l + 1" using li assms(3) by (simp add: unat_add_1)
  show ?thesis
  proof (cases "es = []")
    case True
    moreover have "li \<noteq> - 1" using li log_bounded[OF w(1)] by (simp add: u64_not_max)
    ultimately show ?thesis using assms(1,2) li by (simp add: log_append_def)
  next
    case False
    have "contig (log_last l + 1) ?ns" using number_entries_contig[of "li + 1" es t] li1 assms(3) by simp
    moreover have "?ns \<noteq> []" using False by (metis length_0_conv length_number_entries)
    ultimately obtain l' i where l': "log_append ?ns l = Inr (l', i)" "unat i = log_last l + 1 + length ?ns - 1"
        "wf_log l'" "log_base l' = log_base l" "log_base_term l' = log_base_term l"
        "log_ents l' = take (log_last l + 1 - (log_base l + 1)) (log_ents l) @ ?ns"
        "l' = l\<lparr>l_unstable := l_unstable l'\<rparr>"
      using log_append_ok[OF assms(1), of ?ns "log_last l + 1"] w(5) assms(3) by auto
    have "i \<noteq> - 1" using l'(2) assms(3) by (simp add: u64_not_max)
    then show ?thesis using l' by (auto simp: log_last_def)
  qed
qed

lemma append_entry_cases:
  assumes "append_entry es r = Inr (r', ok)" and "wf_log (r_log r)" and "wf_peers r"
    and "log_last (r_log r) + length es + 1 < 2 ^ 64"
  shows "if ok then \<exists>li. log_last_index (r_log r) = Inr li \<and> appended (number_entries (r_term r) (li + 1) es) r r'
         else r' = r"
proof -
  obtain li where li: "log_last_index (r_log r) = Inr li"
    using log_last_index_ok[OF wf_logD(1)[OF assms(2)]] by auto
  let ?ns = "number_entries (r_term r) (li + 1) es"
  obtain l i where l: "log_append ?ns (r_log r) = Inr (l, i)" "i \<noteq> - 1" "wf_log l"
      "log_base l = log_base (r_log r)" "log_base_term l = log_base_term (r_log r)"
      "log_ents l = log_ents (r_log r) @ ?ns" "l = (r_log r)\<lparr>l_unstable := l_unstable l\<rparr>"
    using log_append_tail[OF assms(2) li assms(4)] by blast
  show ?thesis
  proof (cases "snd (increase_uncommitted_size ?ns r)")
    case False
    then show ?thesis using assms(1) li
      by (auto simp: append_entry_def increase_uncommitted_size_def Let_def split: if_splits)
  next
    case True
    define r1 where "r1 = fst (increase_uncommitted_size ?ns r)"
    define r2 where "r2 = r1\<lparr>r_log := l\<rparr>"
    have r1: "r1 = r\<lparr>r_uncommitted_size := r_uncommitted_size r1\<rparr>"
      by (simp add: r1_def increase_uncommitted_size_def Let_def)
    have r2: "r2 = r\<lparr>r_uncommitted_size := r_uncommitted_size r1, r_log := l\<rparr>"
      unfolding r2_def by (subst r1) simp
    have log1: "r_log r1 = r_log r" "r_id r1 = r_id r" by (subst r1, simp)+
    obtain pr b where pr: "get_progress r2 (r_id r) = Some pr"
        "maybe_commit (put_progress (r_id r) (fst (maybe_update i pr)) r2) = Inr (r', b)" "ok"
      using assms(1) li l(1) True log1
      by (auto simp: append_entry_def Let_def rbind_Inr_iff split_def r1_def [symmetric] r2_def [symmetric])
    let ?q = "fst (maybe_update i pr)"
    have wp2: "wf_peers r2" using assms(3) by (simp add: r2 wf_peers_def)
    have "good_pr pr" using get_progress_good[OF pr(1)] wp2 by (auto simp: wf_peers_def peers_ok_def)
    then obtain P L where pl: "put_progress (r_id r) ?q r2 = r2\<lparr>r_prs := P, r_learner_prs := L\<rparr>"
        "map fst P = map fst (r_prs r2)" "wf_peers (r2\<lparr>r_prs := P, r_learner_prs := L\<rparr>)"
      using put_progress_cases[OF pr(1), of ?q] good_maybe_update[of pr i] maybe_update_fields(2) l(2) wp2 by metis
    have rl: "r_log (r2\<lparr>r_prs := P, r_learner_prs := L\<rparr>) = l" by (simp add: r2)
    obtain buf l' where c: "r' = (r2\<lparr>r_prs := P, r_learner_prs := L\<rparr>)\<lparr>r_match_buf := buf, r_log := l'\<rparr>"
        "wf_log l'" "l' = l\<lparr>l_committed := l_committed l'\<rparr>" "l_committed l \<le> l_committed l'"
      using maybe_commit_cases[OF pr(2) [unfolded pl(1)]] l(3) unfolding rl by blast
    have lf: "l_committed l = l_committed (r_log r)" "l_storage l = l_storage (r_log r)"
        "l_applied l = l_applied (r_log r)"
      by (subst l(7), simp)+
    have lf': "log_base l' = log_base l" "log_base_term l' = log_base_term l" "log_ents l' = log_ents l"
        "l_storage l' = l_storage l" "l_applied l' = l_applied l"
      by (subst c(3), simp)+
    have "r' = r\<lparr>r_uncommitted_size := r_uncommitted_size r1, r_log := l', r_prs := P, r_learner_prs := L, r_match_buf := buf\<rparr>"
      by (simp add: c(1) r2)
    moreover have "wf_peers r'" using pl(3) by (simp add: c(1) wf_peers_def)
    ultimately have "appended ?ns r r'"
      unfolding appended_def using pl(2) c(2,4) l(4-6) lf lf'
      by (intro exI[of _ "r_uncommitted_size r1"] exI[of _ P] exI[of _ L] exI[of _ buf] exI[of _ l']) (simp add: r2)
    then show ?thesis using pr(3) li by auto
  qed
qed

section \<open>Elections\<close>

lemma reduce_uncommitted_fields:
  "reduce_uncommitted_size es r = r\<lparr>r_uncommitted_size := r_uncommitted_size (reduce_uncommitted_size es r)\<rparr>"
  by (simp add: reduce_uncommitted_size_def Let_def)

lemma become_replicate_fields:
  "pr_match (become_replicate p) = pr_match p" "pr_is_learner (become_replicate p) = pr_is_learner p"
  by (simp_all add: become_replicate_def reset_state_def Let_def)

lemma good_become_replicate: "good_pr p \<Longrightarrow> good_pr (become_replicate p)"
  by (simp add: good_pr_def become_replicate_fields wf_become_replicate)

lemma become_probe_fields:
  "pr_match (become_probe p) = pr_match p" "pr_is_learner (become_probe p) = pr_is_learner p"
  by (simp_all add: become_probe_def reset_state_def Let_def)

lemma good_become_probe: "good_pr p \<Longrightarrow> good_pr (become_probe p)"
  by (simp add: good_pr_def become_probe_fields wf_become_probe)

text \<open>
  A node that becomes leader keeps its term and vote and appends one empty entry of its term.
\<close>

lemma become_leader_ok:
  assumes "become_leader r = Inr r'" and "wf_core r" and "log_last (r_log r) + 2 < 2 ^ 64"
  shows "wf_raft r' \<and> evolves r r' \<and> r_state r' = Leader \<and> r_term r' = r_term r \<and> r_vote r' = r_vote r
     \<and> r_state r \<noteq> Follower \<and> map fst (r_prs r') = map fst (r_prs r)
     \<and> (\<exists>e. log_ents (r_log r') = log_ents (r_log r) @ [e] \<and> e_term e = r_term r \<and> e_data e = [])"
proof -
  obtain r1 where r1: "reset (r_term r) (r\<lparr>r_step := Some StepLeader\<rparr>) = Inr r1" "wf_core r1" "timeout_ok r1"
      "r_fixed r1 = r_fixed r" "r_term r1 = r_term r" "r_vote r1 = r_vote r" "r_log r1 = r_log r"
      "r_msgs r1 = r_msgs r" "r_step r1 = Some StepLeader" "map fst (r_prs r1) = map fst (r_prs r)"
    using reset_ok[of "r\<lparr>r_step := Some StepLeader\<rparr>" "r_term r"] assms(2) by auto
  define r2 where "r2 = r1\<lparr>r_tick := Some TickHeartbeat, r_lead := r_id r1, r_state := Leader\<rparr>"
  have nf: "r_state r \<noteq> Follower" using assms(1) by (auto simp: become_leader_def split: if_splits)
  then obtain pr lst r4 where pr: "map_of (r_prs r1) (r_id r1) = Some pr"
      "append_entry [Entry] (r2\<lparr>r_prs := AList.update (r_id r1) (become_replicate pr) (r_prs r1),
          r_pending_conf_index := lst\<rparr>) = Inr (r4, True)"
      "r' = reduce_uncommitted_size [Entry] r4"
    using assms(1) r1(1)
    by (auto simp: become_leader_def Let_def rbind_Inr_iff r2_def split: option.splits if_splits)
  define r3 where "r3 = r2\<lparr>r_prs := AList.update (r_id r1) (become_replicate pr) (r_prs r1), r_pending_conf_index := lst\<rparr>"
  have gp: "get_progress r1 (r_id r1) = Some pr" using pr(1) by (simp add: get_progress_def)
  have wp1: "wf_peers r1" using r1(2) by (simp add: wf_core_def)
  have "good_pr pr" using get_progress_good[OF gp] wp1 by (auto simp: wf_peers_def peers_ok_def)
  moreover have "put_progress (r_id r1) (become_replicate pr) r1
      = r1\<lparr>r_prs := AList.update (r_id r1) (become_replicate pr) (r_prs r1)\<rparr>"
    using pr(1) by (simp add: put_progress_def)
  ultimately have "wf_peers (r1\<lparr>r_prs := AList.update (r_id r1) (become_replicate pr) (r_prs r1)\<rparr>)"
    using put_progress_cases[OF gp, of "become_replicate pr"] wp1 good_become_replicate[of pr]
      become_replicate_fields(2)[of pr] by metis
  then have wp3: "wf_peers r3" by (simp add: r3_def r2_def wf_peers_def)
  have log3: "r_log r3 = r_log r" "r_term r3 = r_term r" using r1(5,7) by (simp_all add: r3_def r2_def)
  have wl: "wf_log (r_log r3)" using assms(2) log3 by (simp add: wf_core_def)
  obtain li where ap: "appended (number_entries (r_term r3) (li + 1) [Entry]) r3 r4"
    using append_entry_cases[OF pr(2) [folded r3_def] wl wp3] assms(3) log3 by auto
  obtain u P L buf l where r4: "r4 = r3\<lparr>r_uncommitted_size := u, r_log := l, r_prs := P, r_learner_prs := L, r_match_buf := buf\<rparr>"
      "map fst P = map fst (r_prs r3)" "wf_peers r4" "wf_log l" "log_ents l = log_ents (r_log r) @ number_entries (r_term r3) (li + 1) [Entry]"
      "l_committed (r_log r) \<le> l_committed l" "l_storage l = l_storage (r_log r)" "l_applied l = l_applied (r_log r)"
    using ap log3(1) unfolding appended_def by auto
  obtain u' where r': "r' = r4\<lparr>r_uncommitted_size := u'\<rparr>" using pr(3) reduce_uncommitted_fields by metis
  have "wf_raft r'"
    using r1(2,3,9) r4(3,4)
    by (simp add: r' r4(1) r3_def r2_def wf_raft_def wf_core_def wf_timer_def timeout_ok_def role_ok_def wf_peers_def)
  moreover have "evolves r r'"
    using r1(4-8) r4(6-8) by (simp add: r' r4(1) r3_def r2_def evolves_def r_fixed_def)
  moreover have "r_state r' = Leader \<and> r_term r' = r_term r \<and> r_vote r' = r_vote r"
    using r1(5,6) by (simp add: r' r4(1) r3_def r2_def)
  moreover have "map fst (r_prs r') = map fst (r_prs r)"
    using r4(2) r1(10) pr(1) by (simp add: r' r4(1) r3_def r2_def fst_update_present)
  moreover have "r_log r' = l" by (simp add: r' r4(1))
  ultimately show ?thesis using nf r4(5) log3(2) by (simp add: Entry_def)
qed

lemma poll_cases:
  assumes "poll i t v r = Inr (r', g)"
  obtains votes where "r' = r\<lparr>r_votes := votes\<rparr>" and "g = of_nat (granted_votes votes)"
    and "votes = (if map_of (r_votes r) i = None then AList.update i v (r_votes r) else r_votes r)"
  using assms by (auto simp: poll_def rbind_Inr_iff Let_def)

lemma wf_raft_votes:
  "wf_raft r \<Longrightarrow> distinct (map fst votes) \<Longrightarrow> wf_raft (r\<lparr>r_votes := votes\<rparr>)"
  by (simp add: wf_raft_def wf_core_def wf_timer_def timeout_ok_def role_ok_def wf_peers_def)

lemma evolves_votes: "evolves r (r\<lparr>r_votes := votes\<rparr>)"
  by (simp add: evolves_def r_fixed_def)

lemma poll_behaves:
  assumes "poll i t v r = Inr (r', g)"
  shows "behaves r r'"
proof -
  obtain votes where v: "r' = r\<lparr>r_votes := votes\<rparr>"
      "votes = (if map_of (r_votes r) i = None then AList.update i v (r_votes r) else r_votes r)"
    using poll_cases[OF assms] by metis
  have "distinct (map fst votes)" if "distinct (map fst (r_votes r))"
    using that v(2) by (simp add: distinct_update)
  then show ?thesis using v(1) by (simp add: behaves_def wf_raft_votes wf_raftD evolves_votes)
qed

lemma quorum_cong: "map fst (r_prs s) = map fst (r_prs r) \<Longrightarrow> quorum s = quorum r"
  unfolding quorum_def by (metis length_map)

text \<open>A real campaign: the next term, a vote for itself; victory at once only without other voters.\<close>

lemma campaign_election_ok:
  assumes "campaign ct r = Inr r'" and "ct \<noteq> kCampaignPreElection" and "wf_raft r" and "r_term r \<noteq> - 1"
    and "log_last (r_log r) + 2 < 2 ^ 64"
  shows "wf_raft r' \<and> evolves r r' \<and> r_term r' = r_term r + 1 \<and> r_vote r' = r_id r
     \<and> r_state r' = (if quorum r = 1 then Leader else Candidate)"
proof -
  have nl: "r_state r \<noteq> Leader" using assms(1,2)
    by (subst (asm) campaign.simps) (auto simp: become_candidate_def split: if_splits)
  obtain s where s: "become_candidate r = Inr s" "wf_raft s" "evolves r s" "r_log s = r_log r"
      "r_term s = r_term r + 1" "r_state s = Candidate" "r_vote s = r_id r" "r_votes s = []"
      "map fst (r_prs s) = map fst (r_prs r)"
    using become_candidate_ok[OF wf_raftD(3)[OF assms(3)] nl assms(4)] by blast
  let ?t = "s\<lparr>r_votes := [(r_id s, True)]\<rparr>"
  have p: "poll (r_id s) MsgVoteResp True s = Inr (?t, 1)"
    by (simp add: poll_def msg_type_to_string_def s(8) granted_votes_def)
  have q: "quorum ?t = quorum r" using s(9) by (intro quorum_cong) simp
  have t: "wf_raft ?t" "evolves r ?t"
    using s(2,3) by (auto intro: wf_raft_votes evolves_trans evolves_votes)
  have eq: "campaign ct r = (if quorum r = 1 then become_leader ?t
      else rfold (request_vote ct MsgVote (r_term s)) (map fst (r_prs s)) ?t)"
    using assms(2) s(1) p q by (subst campaign.simps) (simp add: vote_resp_msg_type_def)
  show ?thesis
  proof (cases "quorum r = 1")
    case True
    then have "become_leader ?t = Inr r'" using assms(1) eq by simp
    from become_leader_ok[OF this wf_raftD(3)[OF t(1)]] show ?thesis
      using True assms(5) s(4,5,7) t(2) by (auto intro: evolves_trans)
  next
    case False
    then have "sends ?t r'" using assms(1) eq request_votes_sends by simp
    then show ?thesis using False t s(5-7) sends_behaves[of ?t r'] sends_frame[of ?t r']
      by (auto simp: behaves_def intro: evolves_trans)
  qed
qed

text \<open>A pre-campaign keeps term and vote, unless the node is alone and goes on at once.\<close>

lemma campaign_ok:
  assumes "campaign ct r = Inr r'" and "wf_raft r" and "r_term r \<noteq> - 1"
    and "log_last (r_log r) + 2 < 2 ^ 64"
  shows "wf_raft r' \<and> evolves r r'
     \<and> (if ct = kCampaignPreElection \<and> quorum r \<noteq> 1
        then r_term r' = r_term r \<and> r_vote r' = r_vote r \<and> r_state r' = PreCandidate
        else r_term r' = r_term r + 1 \<and> r_vote r' = r_id r
             \<and> r_state r' = (if quorum r = 1 then Leader else Candidate))"
proof (cases "ct = kCampaignPreElection")
  case False
  then show ?thesis using campaign_election_ok[OF assms(1) False assms(2-4)] by simp
next
  case True
  have nl: "r_state r \<noteq> Leader" using assms(1) True
    by (subst (asm) campaign.simps) (auto simp: become_pre_candidate_def split: if_splits)
  obtain s where s: "become_pre_candidate r = Inr s" "wf_raft s" "evolves r s" "r_log s = r_log r"
      "r_term s = r_term r" "r_vote s = r_vote r" "r_state s = PreCandidate" "r_votes s = []"
      "r_id s = r_id r" "r_prs s = r_prs r"
    using become_pre_candidate_ok[OF assms(2) nl] by blast
  let ?t = "s\<lparr>r_votes := [(r_id s, True)]\<rparr>"
  have p: "poll (r_id s) MsgPreVoteResp True s = Inr (?t, 1)"
    by (simp add: poll_def msg_type_to_string_def s(8) granted_votes_def)
  have q: "quorum ?t = quorum r" using s(10) by (intro quorum_cong) simp
  have t: "wf_raft ?t" "evolves r ?t"
    using s(2,3) by (auto intro: wf_raft_votes evolves_trans evolves_votes)
  have eq: "campaign ct r = (if quorum r = 1 then campaign kCampaignElection ?t
      else rfold (request_vote ct MsgPreVote (r_term s + 1)) (map fst (r_prs s)) ?t)"
    using True s(1) p q by (subst campaign.simps) (simp add: vote_resp_msg_type_def)
  show ?thesis
  proof (cases "quorum r = 1")
    case alone: True
    then have "campaign kCampaignElection ?t = Inr r'" using assms(1) eq by simp
    moreover have "kCampaignElection \<noteq> kCampaignPreElection"
      by (simp add: kCampaignElection_def kCampaignPreElection_def)
    ultimately have "wf_raft r' \<and> evolves ?t r' \<and> r_term r' = r_term ?t + 1 \<and> r_vote r' = r_id ?t
        \<and> r_state r' = (if quorum ?t = 1 then Leader else Candidate)"
      using t(1) assms(3,4) s(4,5) by (intro campaign_election_ok) simp_all
    then show ?thesis using alone q s(5,9) t(2) by (auto intro: evolves_trans)
  next
    case False
    then have "sends ?t r'" using assms(1) eq request_votes_sends by simp
    then show ?thesis using False True t s(5-7) sends_behaves[of ?t r'] sends_frame[of ?t r']
      by (auto simp: behaves_def intro: evolves_trans)
  qed
qed

end
