(* ===== verification/Raft_Safety.thy ===== *)
theory Raft_Safety
  imports Raft_Election
begin

text \<open>
  Every message handler, the dispatcher \<open>step\<close> and the ticks keep the invariant of a node and
  only let it evolve: the lemmas of this theory compose those of the operations the handlers call.
  The properties of the protocol's single node follow: terms and commit positions never go back, a
  vote is never changed within a term, a leader only appends.
\<close>

definition advances :: "raft \<Rightarrow> raft \<Rightarrow> bool" where
  "advances r r' \<longleftrightarrow> wf_raft r' \<and> evolves r r'"

lemma advances_refl: "wf_raft r \<Longrightarrow> advances r r"
  by (simp add: advances_def)

lemma advances_trans: "advances r s \<Longrightarrow> advances s t \<Longrightarrow> advances r t"
  by (auto simp: advances_def intro: evolves_trans)

lemma behaves_advances: "behaves r r' \<Longrightarrow> wf_raft r \<Longrightarrow> advances r r'"
  by (simp add: behaves_def advances_def)

lemma sends_advances: "sends r r' \<Longrightarrow> wf_raft r \<Longrightarrow> advances r r'"
  by (rule behaves_advances [OF sends_behaves])

lemma advances_wf: "advances r r' \<Longrightarrow> wf_raft r'"
  by (simp add: advances_def)

lemma rfold_advances:
  assumes "rfold f xs r = Inr r'" and "wf_raft r"
    and "\<And>x s t. x \<in> set xs \<Longrightarrow> advances r s \<Longrightarrow> f x s = Inr t \<Longrightarrow> advances s t"
  shows "advances r r'"
  by (rule rfold_invariant [where P = "advances r", OF assms(1)])
    (auto intro: advances_trans advances_refl assms(2,3))

section \<open>Single updates\<close>

lemma log_advances:
  assumes "wf_raft r" and "wf_log l" and "l_committed (r_log r) \<le> l_committed l"
    and "l_storage l = l_storage (r_log r)" and "l_applied l = l_applied (r_log r)"
  shows "advances r (r\<lparr>r_log := l\<rparr>)"
  using assms by (simp add: advances_def wf_raft_def wf_core_def wf_timer_def timeout_ok_def role_ok_def
      wf_peers_def evolves_def r_fixed_def)

lemma read_only_advances:
  "wf_raft r \<Longrightarrow> wf_read_only ro \<Longrightarrow> advances r (r\<lparr>r_read_only := ro\<rparr>)"
  by (simp add: advances_def wf_raft_def wf_core_def wf_timer_def timeout_ok_def role_ok_def
      wf_peers_def evolves_def r_fixed_def)

lemma counters_advance:
  "wf_raft r \<Longrightarrow> advances r (r\<lparr>r_read_states := x\<rparr>)"
  "wf_raft r \<Longrightarrow> advances r (r\<lparr>r_pending_conf_index := i\<rparr>)"
  "wf_raft r \<Longrightarrow> advances r (r\<lparr>r_lead_transferee := i\<rparr>)"
  "wf_raft r \<Longrightarrow> advances r (r\<lparr>r_election_elapsed := n\<rparr>)"
  "wf_raft r \<Longrightarrow> advances r (r\<lparr>r_heartbeat_elapsed := n\<rparr>)"
  "wf_raft r \<Longrightarrow> advances r (r\<lparr>r_is_learner := b\<rparr>)"
  by (simp_all add: advances_def wf_raft_def wf_core_def wf_timer_def timeout_ok_def role_ok_def
      wf_peers_def evolves_def r_fixed_def)

lemma lead_advances:
  "wf_raft r \<Longrightarrow> r_state r \<noteq> Leader \<Longrightarrow> advances r (r\<lparr>r_election_elapsed := n, r_lead := l\<rparr>)"
  by (simp add: advances_def wf_raft_def wf_core_def wf_timer_def timeout_ok_def role_ok_def
      wf_peers_def evolves_def r_fixed_def)

lemma peers_advance:
  "wf_raft r \<Longrightarrow> wf_peers (r\<lparr>r_prs := P, r_learner_prs := L\<rparr>) \<Longrightarrow> advances r (r\<lparr>r_prs := P, r_learner_prs := L\<rparr>)"
  by (auto simp: advances_def wf_raft_peers) (simp add: evolves_def r_fixed_def)

lemma put_progress_advances:
  assumes "get_progress r i = Some p" and "wf_raft r" and "good_pr p \<Longrightarrow> good_pr q"
    and "pr_is_learner q = pr_is_learner p"
  shows "advances r (put_progress i q r)"
  using put_progress_behaves[OF assms(1,3,4)] assms(2) by (rule behaves_advances)

lemma good_progress:
  assumes "get_progress r i = Some p" and "wf_raft r"
  shows "good_pr p"
  using get_progress_good[OF assms(1)] wf_raftD(2)[OF assms(2)] by (auto simp: wf_peers_def peers_ok_def)

lemma maybe_commit_advances:
  assumes "maybe_commit r = Inr (r', b)" and "wf_raft r"
  shows "advances r r'"
proof -
  obtain buf l where l: "r' = r\<lparr>r_match_buf := buf, r_log := l\<rparr>" "wf_log l"
      "l = (r_log r)\<lparr>l_committed := l_committed l\<rparr>" "l_committed (r_log r) \<le> l_committed l"
    using maybe_commit_cases[OF assms(1) wf_raftD(1)[OF assms(2)]] by metis
  have "l_storage l = l_storage (r_log r)" "l_applied l = l_applied (r_log r)" by (subst l(3), simp)+
  then show ?thesis using assms(2) l(1,2,4)
    by (simp add: advances_def wf_raft_def wf_core_def wf_timer_def timeout_ok_def role_ok_def
        wf_peers_def evolves_def r_fixed_def)
qed

lemma appended_advances:
  assumes "appended es r r'" and "wf_raft r"
  shows "advances r r'" and "log_ents (r_log r') = log_ents (r_log r) @ es"
    and "log_base (r_log r') = log_base (r_log r)"
proof -
  obtain u P L buf l where a: "r' = r\<lparr>r_uncommitted_size := u, r_log := l, r_prs := P, r_learner_prs := L, r_match_buf := buf\<rparr>"
      "wf_peers r'" "wf_log l" "log_base l = log_base (r_log r)" "log_ents l = log_ents (r_log r) @ es"
      "l_committed (r_log r) \<le> l_committed l" "l_storage l = l_storage (r_log r)" "l_applied l = l_applied (r_log r)"
    using assms(1) unfolding appended_def by blast
  have "wf_peers (r\<lparr>r_uncommitted_size := u, r_log := l, r_prs := P, r_learner_prs := L, r_match_buf := buf\<rparr>)"
    using a(1,2) by simp
  then show "advances r r'" using assms(2) a(3,6-8) unfolding a(1)
    by (simp add: advances_def wf_raft_def wf_core_def wf_timer_def timeout_ok_def role_ok_def evolves_def r_fixed_def)
  show "log_ents (r_log r') = log_ents (r_log r) @ es" "log_base (r_log r') = log_base (r_log r)"
    using a(4,5) by (simp_all add: a(1))
qed

lemma append_entry_advances:
  assumes "append_entry es r = Inr (r', ok)" and "wf_raft r" and "log_last (r_log r) + length es + 1 < 2 ^ 64"
  shows "advances r r'"
  using append_entry_cases[OF assms(1) wf_raftD(1,2)[OF assms(2)] assms(3)]
  by (auto intro: appended_advances advances_refl assms(2) split: if_splits)

lemma campaign_advances:
  assumes "campaign ct r = Inr r'" and "wf_raft r" and "r_term r \<noteq> - 1" and "log_last (r_log r) + 2 < 2 ^ 64"
  shows "advances r r'"
  using campaign_ok[OF assms] by (simp add: advances_def)

lemma become_follower_advances:
  assumes "become_follower trm lead r = Inr r'" and "wf_raft r" and "r_term r \<le> trm"
  shows "advances r r'" "r_log r' = r_log r" "r_state r' = Follower" "r_term r' = trm"
  using become_follower_ok[OF wf_raftD(3)[OF assms(2)] assms(3), of lead] assms(1)
  by (auto simp: advances_def)

section \<open>Messages from the leader\<close>

text \<open>
  What a node may assume of a message: positions and terms below the largest 64-bit value, the
  messages of a leader carrying its term, the entries of an append message consecutive with real
  terms, a previous term of 0 only at the start.
\<close>

definition wf_msg :: "message \<Rightarrow> bool" where
  "wf_msg m \<longleftrightarrow> m_term m \<noteq> - 1 \<and> m_index m \<noteq> - 1
     \<and> (m_type m = MsgApp \<or> m_type m = MsgHeartbeat \<or> m_type m = MsgSnap \<longrightarrow> m_term m \<noteq> 0)
     \<and> (m_type m = MsgApp \<longrightarrow> contig (unat (m_index m) + 1) (m_entries m)
          \<and> unat (m_index m) + length (m_entries m) + 1 < 2 ^ 64
          \<and> (\<forall>e\<in>set (m_entries m). e_term e \<noteq> 0) \<and> (m_log_term m = 0 \<longrightarrow> m_index m = 0))
     \<and> (m_type m = MsgSnap \<longrightarrow> unat (s_index (m_snapshot m)) + 1 < 2 ^ 64)"

lemma log_maybe_append_wf:
  assumes "log_maybe_append idx trm c es l = Inr (l', i)" and "wf_log l" and "app_batch idx trm es l"
  shows "wf_log l' \<and> l_committed l \<le> l_committed l' \<and> l_storage l' = l_storage l \<and> l_applied l' = l_applied l"
proof (cases "log_term_at l (unat idx) = trm")
  case False
  then show ?thesis using log_maybe_append_mismatch[OF assms(2) False] assms(1,2) by simp
next
  case True
  have "unat (l_committed l) \<le> unat idx + j" if "conflict_pos l es = Some j" for j
    using log_maybe_append_committed_conflict[OF assms(2,3) True that, of c] assms(1)
    by (cases "unat (l_committed l) \<le> unat idx + j") auto
  from log_maybe_append_ok[OF assms(2,3) True this, of c] obtain l1 where l1:
      "log_maybe_append idx trm c es l = Inr (l1, Some (idx + vec_size es))" "wf_log l1"
      "l_committed l1 = max (l_committed l) (min c (idx + vec_size es))"
      "l1 = l\<lparr>l_unstable := l_unstable l1, l_committed := l_committed l1\<rparr>" by blast
  have "l_storage l1 = l_storage l" "l_applied l1 = l_applied l" by (subst l1(4), simp)+
  then show ?thesis using l1(1-3) assms(1) by auto
qed

lemma handle_append_entries_advances:
  assumes "handle_append_entries m r = Inr r'" and "wf_raft r" and "wf_msg m" and "m_type m = MsgApp"
  shows "advances r r'"
proof (cases "m_index m < l_committed (r_log r)")
  case True
  then show ?thesis using assms(1,2)
    by (auto simp: handle_append_entries_def intro: sends_advances send_sends)
next
  case False
  note w = wf_logD[OF wf_raftD(1)[OF assms(2)]]
  have b: "app_batch (m_index m) (m_log_term m) (m_entries m) (r_log r)"
    using assms(3,4) False w(4) by (auto simp: app_batch_def wf_msg_def word_less_nat_alt)
  obtain l i where l: "log_maybe_append (m_index m) (m_log_term m) (m_commit m) (m_entries m) (r_log r) = Inr (l, i)"
      and s: "sends (r\<lparr>r_log := l\<rparr>) r'"
    using assms(1) False
    by (auto simp: handle_append_entries_def rbind_Inr_iff Let_def split: option.splits intro: send_sends)
  have "advances r (r\<lparr>r_log := l\<rparr>)"
    using log_maybe_append_wf[OF l wf_raftD(1)[OF assms(2)] b] by (intro log_advances assms(2)) simp_all
  then show ?thesis using sends_advances[OF s] by (auto intro: advances_trans dest: advances_wf)
qed

lemma commit_to_cases:
  assumes "commit_to c l = Inr l'" and "wf_log l"
  shows "wf_log l' \<and> l' = l\<lparr>l_committed := max (l_committed l) c\<rparr>"
  using commit_to_ok[OF assms(2), of c] commit_to_beyond[OF assms(2), of c] assms(1)
  by (cases "unat c \<le> log_last l") auto

lemma handle_heartbeat_advances:
  assumes "handle_heartbeat m r = Inr r'" and "wf_raft r"
  shows "advances r r'"
proof -
  obtain l where l: "commit_to (m_commit m) (r_log r) = Inr l" "sends (r\<lparr>r_log := l\<rparr>) r'"
    using assms(1) by (auto simp: handle_heartbeat_def rbind_Inr_iff intro: send_sends)
  have "advances r (r\<lparr>r_log := l\<rparr>)"
    using commit_to_cases[OF l(1) wf_raftD(1)[OF assms(2)]] by (intro log_advances assms(2)) auto
  then show ?thesis using sends_advances[OF l(2)] by (auto intro: advances_trans dest: advances_wf)
qed

section \<open>Snapshots\<close>

lemma wf_set_progress:
  assumes "set_progress i mt nx b r = Inr r'" and "wf_peers r"
    and "good_pr ((Progress (r_max_inflight r))\<lparr>pr_next := nx, pr_match := mt, pr_is_learner := b\<rparr>)"
  shows "\<exists>P L. r' = r\<lparr>r_prs := P, r_learner_prs := L\<rparr> \<and> wf_peers r'"
proof (cases b)
  case False
  let ?q = "(Progress (r_max_inflight r))\<lparr>pr_next := nx, pr_match := mt\<rparr>"
  have q: "good_pr ?q" "\<not> pr_is_learner ?q" using assms(3) False by (simp_all add: Progress_def)
  have r': "r' = r\<lparr>r_prs := AList.update i ?q (r_prs r), r_learner_prs := AList.delete i (r_learner_prs r)\<rparr>"
    using assms(1) False by (auto simp: set_progress_def Let_def)
  moreover have "wf_peers r'" unfolding r' wf_peers_def
    using assms(2) q by (auto simp: wf_peers_def peers_ok_update peers_ok_delete fst_update fst_delete)
  ultimately show ?thesis by blast
next
  case True
  let ?q = "(Progress (r_max_inflight r))\<lparr>pr_next := nx, pr_match := mt, pr_is_learner := True\<rparr>"
  have q: "good_pr ?q" "pr_is_learner ?q" using assms(3) True by (simp_all add: Progress_def)
  have none: "i \<notin> fst ` set (r_prs r)"
    using assms(1) True by (auto simp: set_progress_def Let_def map_of_eq_None_iff split: if_splits)
  have r': "r' = r\<lparr>r_prs := r_prs r, r_learner_prs := AList.update i ?q (r_learner_prs r)\<rparr>"
    using assms(1) True by (auto simp: set_progress_def Let_def split: if_splits)
  moreover have "wf_peers r'" unfolding r' wf_peers_def
    using assms(2) q none by (auto simp: wf_peers_def peers_ok_update fst_update)
  ultimately show ?thesis by blast
qed

lemma set_progress_advances:
  assumes "set_progress i (if x then lst else 0) (lst + 1) b r = Inr r'" and "wf_raft r"
    and "log_last_index (r_log r) = Inr lst"
  shows "advances r r'" "r_log r' = r_log r"
proof -
  have "good_pr ((Progress (r_max_inflight r))\<lparr>pr_next := lst + 1, pr_match := (if x then lst else 0), pr_is_learner := b\<rparr>)"
    using assms(2) by (intro good_fresh_progress(3)[OF _ assms(3)]) (auto simp: wf_raft_def wf_core_def)
  then obtain P L where "r' = r\<lparr>r_prs := P, r_learner_prs := L\<rparr>" "wf_peers r'"
    using wf_set_progress[OF assms(1) wf_raftD(2)[OF assms(2)]] by blast
  then show "advances r r'" "r_log r' = r_log r" using peers_advance[OF assms(2)] by auto
qed

lemma restore_one_advances:
  assumes "restore_one b i r = Inr r'" and "wf_raft r"
  shows "advances r r'"
proof -
  define r1 where "r1 = (if i = r_id r then r\<lparr>r_is_learner := b\<rparr> else r)"
  obtain lst where lst: "log_last_index (r_log r1) = Inr lst"
      "set_progress i (if i = r_id r then lst else 0) (lst + 1) b r1 = Inr r'"
    using assms(1) by (auto simp: restore_one_def rbind_Inr_iff Let_def r1_def split: if_splits)
  have r1: "advances r r1" using assms(2) by (simp add: r1_def advances_refl counters_advance)
  show ?thesis using set_progress_advances(1)[OF lst(2) advances_wf [OF r1] lst(1)] r1
    by (rule advances_trans [rotated])
qed

lemma restore_node_advances:
  "restore_node ids b r = Inr r' \<Longrightarrow> wf_raft r \<Longrightarrow> advances r r'"
  unfolding restore_node_def
  by (erule rfold_advances) (auto intro: restore_one_advances dest: advances_wf)

lemma restore_advances:
  assumes "restore s r = Inr (r', b)" and "wf_raft r" and "unat (s_index s) + 1 < 2 ^ 64"
  shows "advances r r'"
proof -
  note wl = wf_raftD(1)[OF assms(2)]
  show ?thesis
  proof (cases b)
    case False
    have "r' = r \<or> (\<exists>l. commit_to (s_index s) (r_log r) = Inr l \<and> r' = r\<lparr>r_log := l\<rparr>)"
      using assms(1) False by (simp add: restore_def rbind_Inr_iff split: if_split_asm) blast+
    then consider "r' = r" | l where "commit_to (s_index s) (r_log r) = Inr l" "r' = r\<lparr>r_log := l\<rparr>" by blast
    then show ?thesis
    proof cases
      case (2 l)
      then show ?thesis using commit_to_cases[OF 2(1) wl] by (auto intro!: log_advances assms(2))
    qed (simp add: advances_refl assms(2))
  next
    case True
    define r0 where "r0 = r\<lparr>r_log := log_restore s (r_log r)\<rparr>"
    define r1 where "r1 = r0\<lparr>r_prs := [], r_learner_prs := []\<rparr>"
    have c: "l_committed (r_log r) < s_index s"
      using assms(1) True by (auto simp: restore_def split: if_splits)
    obtain r2 where r2: "restore_node (cs_nodes (md_conf_state (s_metadata s))) False r1 = Inr r2"
        "restore_node (cs_learners (md_conf_state (s_metadata s))) True r2 = Inr r'"
      using assms(1) True by (auto simp: restore_def rbind_Inr_iff r1_def r0_def split: if_splits)
    have a0: "advances r r0" unfolding r0_def
      using wf_log_restore[OF wl assms(3)] c
      by (intro log_advances assms(2)) (simp_all add: log_restore_def)
    have a1: "advances r0 r1" unfolding r1_def
      by (rule peers_advance [OF advances_wf [OF a0]]) (simp add: wf_peers_def peers_ok_def)
    have a2: "advances r1 r2" by (rule restore_node_advances [OF r2(1) advances_wf [OF a1]])
    have a3: "advances r2 r'" by (rule restore_node_advances [OF r2(2) advances_wf [OF a2]])
    show ?thesis using a0 a1 a2 a3 by (blast intro: advances_trans)
  qed
qed

lemma handle_snapshot_advances:
  assumes "handle_snapshot m r = Inr r'" and "wf_raft r" and "wf_msg m" and "m_type m = MsgSnap"
  shows "advances r r'"
proof -
  obtain r1 b where r1: "restore (m_snapshot m) r = Inr (r1, b)" "sends r1 r'"
    using assms(1) by (auto simp: handle_snapshot_def rbind_Inr_iff split: if_splits intro: send_sends)
  have "advances r r1" using assms(3,4) by (intro restore_advances [OF r1(1) assms(2)]) (simp add: wf_msg_def)
  then show ?thesis using sends_advances[OF r1(2)] by (auto intro: advances_trans dest: advances_wf)
qed

section \<open>Followers and candidates\<close>

lemma finish_Inr_iff: "finish x = Inr (r, s) \<longleftrightarrow> x = Inr r \<and> s = Ok"
  by (auto simp: finish_def rbind_Inr_iff)

lemma dropped_Inr_iff: "dropped x = Inr (r, s) \<longleftrightarrow> r = x \<and> s = invalid_argument ''raft proposal dropped''"
  by (auto simp: dropped_def)

text \<open>Room in the numbering: the log and the term can still grow by one message.\<close>

definition room :: "message \<Rightarrow> raft \<Rightarrow> bool" where
  "room m r \<longleftrightarrow> r_term r \<noteq> - 1 \<and> log_last (r_log r) + length (m_entries m) + 2 < 2 ^ 64"

lemma step_follower_advances:
  assumes "step_follower m r = Inr (r', s)" and "wf_raft r" and "r_state r \<noteq> Leader" and "wf_msg m" and "room m r"
  shows "advances r r'"
proof -
  let ?f = "r\<lparr>r_election_elapsed := 0, r_lead := m_from m\<rparr>"
  have f: "advances r ?f" by (rule lead_advances [OF assms(2,3)])
  have "r' = r \<or> send (m\<lparr>m_to := r_lead r\<rparr>) r = Inr r'
      \<or> (m_type m = MsgApp \<and> handle_append_entries m ?f = Inr r') \<or> handle_heartbeat m ?f = Inr r'
      \<or> (m_type m = MsgSnap \<and> handle_snapshot m ?f = Inr r') \<or> campaign kCampaignTransfer r = Inr r'
      \<or> (\<exists>x. r' = r\<lparr>r_read_states := x\<rparr>)"
    using assms(1)
    by (simp add: step_follower_def Let_def finish_Inr_iff dropped_Inr_iff split: if_split_asm list.split_asm) blast
  then consider (same) "r' = r"
    | (fwd) "send (m\<lparr>m_to := r_lead r\<rparr>) r = Inr r'"
    | (app) "m_type m = MsgApp" "handle_append_entries m ?f = Inr r'"
    | (hb) "handle_heartbeat m ?f = Inr r'"
    | (snap) "m_type m = MsgSnap" "handle_snapshot m ?f = Inr r'"
    | (camp) "campaign kCampaignTransfer r = Inr r'"
    | (read) x where "r' = r\<lparr>r_read_states := x\<rparr>" by blast
  then show ?thesis
  proof cases
    case same
    then show ?thesis by (simp add: advances_refl assms(2))
  next
    case fwd
    then show ?thesis by (intro sends_advances send_sends assms(2))
  next
    case app
    then show ?thesis using handle_append_entries_advances[OF _ advances_wf[OF f] assms(4)] f
      by (blast intro: advances_trans)
  next
    case hb
    then show ?thesis using handle_heartbeat_advances[OF _ advances_wf[OF f]] f
      by (blast intro: advances_trans)
  next
    case snap
    then show ?thesis using handle_snapshot_advances[OF _ advances_wf[OF f] assms(4)] f
      by (blast intro: advances_trans)
  next
    case camp
    then show ?thesis using assms(5) by (intro campaign_advances [OF camp assms(2)]) (auto simp: room_def)
  next
    case read
    then show ?thesis by (simp add: counters_advance assms(2))
  qed
qed

lemma bcast_append_advances: "bcast_append r = Inr r' \<Longrightarrow> wf_raft r \<Longrightarrow> advances r r'"
  by (auto intro: sends_advances bcast_append_sends dest: wf_raftD(1))

lemma become_leader_advances:
  assumes "become_leader r = Inr r'" and "wf_raft r" and "log_last (r_log r) + 2 < 2 ^ 64"
  shows "advances r r'"
  using become_leader_ok[OF assms(1) wf_raftD(3)[OF assms(2)] assms(3)] by (simp add: advances_def)

lemma step_vote_resp_advances:
  assumes "step_vote_resp m r = Inr r'" and "wf_raft r" and "room m r"
  shows "advances r r'"
proof -
  obtain r1 g where p: "poll (m_from m) (m_type m) (\<not> m_reject m) r = Inr (r1, g)"
    using assms(1) by (auto simp: step_vote_resp_def rbind_Inr_iff)
  have a1: "advances r r1" using poll_behaves[OF p] assms(2) by (rule behaves_advances)
  note w1 = advances_wf[OF a1]
  obtain votes where "r1 = r\<lparr>r_votes := votes\<rparr>" using poll_cases[OF p] by metis
  then have rm: "r_term r1 \<noteq> - 1" "log_last (r_log r1) + 2 < 2 ^ 64"
    using assms(3) by (auto simp: room_def)
  have "campaign kCampaignElection r1 = Inr r' \<or> (\<exists>r2. become_leader r1 = Inr r2 \<and> bcast_append r2 = Inr r')
      \<or> become_follower (r_term r1) 0 r1 = Inr r' \<or> r' = r1"
    using assms(1) p by (simp add: step_vote_resp_def rbind_Inr_iff Let_def split: if_split_asm)
  then consider (camp) "campaign kCampaignElection r1 = Inr r'"
    | (lead) r2 where "become_leader r1 = Inr r2" "bcast_append r2 = Inr r'"
    | (lost) "become_follower (r_term r1) 0 r1 = Inr r'" | (wait) "r' = r1" by blast
  then have "advances r1 r'"
  proof cases
    case camp
    then show ?thesis by (rule campaign_advances [OF _ w1 rm])
  next
    case (lead r2)
    have "advances r1 r2" by (rule become_leader_advances [OF lead(1) w1 rm(2)])
    then show ?thesis using bcast_append_advances[OF lead(2)] by (blast intro: advances_trans dest: advances_wf)
  next
    case lost
    then show ?thesis by (rule become_follower_advances(1) [OF _ w1]) simp
  qed (simp add: advances_refl w1)
  then show ?thesis by (rule advances_trans [OF a1])
qed

lemma step_candidate_advances:
  assumes "step_candidate m r = Inr (r', s)" and "wf_raft r" and "wf_msg m" and "room m r"
    and "m_term m = 0 \<or> r_term r \<le> m_term m"
  shows "advances r r'"
proof -
  consider (same) "r' = r"
    | (led) r1 where "become_follower (m_term m) (m_from m) r = Inr r1"
        "m_type m = MsgApp \<or> m_type m = MsgHeartbeat \<or> m_type m = MsgSnap"
        "(m_type m = MsgApp \<and> handle_append_entries m r1 = Inr r') \<or> handle_heartbeat m r1 = Inr r'
          \<or> (m_type m = MsgSnap \<and> handle_snapshot m r1 = Inr r')"
    | (resp) "step_vote_resp m r = Inr r'"
    using assms(1)
    by (auto simp: step_candidate_def finish_Inr_iff dropped_Inr_iff rbind_Inr_iff split: if_splits)
  then show ?thesis
  proof cases
    case (led r1)
    have "r_term r \<le> m_term m" using assms(3,5) led(2) by (auto simp: wf_msg_def)
    note a = become_follower_advances(1)[OF led(1) assms(2) this]
    then have "advances r1 r'" using led(3) assms(3)
      by (auto intro: handle_append_entries_advances handle_heartbeat_advances handle_snapshot_advances advances_wf)
    then show ?thesis by (rule advances_trans [OF a])
  next
    case resp
    then show ?thesis by (rule step_vote_resp_advances [OF _ assms(2,4)])
  qed (simp add: advances_refl assms(2))
qed

section \<open>The leader\<close>

text \<open>A leader's handlers advance the node and only ever extend its log.\<close>

definition grows :: "raft \<Rightarrow> raft \<Rightarrow> bool" where
  "grows r r' \<longleftrightarrow> log_base (r_log r') = log_base (r_log r) \<and> log_base_term (r_log r') = log_base_term (r_log r)
     \<and> prefix (log_ents (r_log r)) (log_ents (r_log r'))"

definition leads :: "raft \<Rightarrow> raft \<Rightarrow> bool" where
  "leads r r' \<longleftrightarrow> advances r r' \<and> grows r r'"

lemma leads_refl: "wf_raft r \<Longrightarrow> leads r r"
  by (simp add: leads_def grows_def advances_refl)

lemma leads_trans: "leads r s \<Longrightarrow> leads s t \<Longrightarrow> leads r t"
  by (auto simp: leads_def grows_def intro: advances_trans prefix_order.trans)

lemma leads_wf: "leads r r' \<Longrightarrow> wf_raft r'"
  by (simp add: leads_def advances_def)

lemma leads_same_log: "advances r r' \<Longrightarrow> r_log r' = r_log r \<Longrightarrow> leads r r'"
  by (simp add: leads_def grows_def)

lemma sends_leads: "sends r r' \<Longrightarrow> wf_raft r \<Longrightarrow> leads r r'"
  by (rule leads_same_log [OF sends_advances sends_frame(4)])

lemma rfold_leads:
  assumes "rfold f xs r = Inr r'" and "wf_raft r"
    and "\<And>x s t. x \<in> set xs \<Longrightarrow> leads r s \<Longrightarrow> f x s = Inr t \<Longrightarrow> leads s t"
  shows "leads r r'"
  by (rule rfold_invariant [where P = "leads r", OF assms(1)])
    (auto intro: leads_trans leads_refl assms(2,3))

lemma counters_lead:
  "wf_raft r \<Longrightarrow> leads r (r\<lparr>r_read_states := x\<rparr>)"
  "wf_raft r \<Longrightarrow> leads r (r\<lparr>r_pending_conf_index := i\<rparr>)"
  "wf_raft r \<Longrightarrow> leads r (r\<lparr>r_lead_transferee := i\<rparr>)"
  "wf_raft r \<Longrightarrow> leads r (r\<lparr>r_election_elapsed := n\<rparr>)"
  by (simp_all add: leads_same_log counters_advance)

lemma read_only_leads: "wf_raft r \<Longrightarrow> wf_read_only ro \<Longrightarrow> leads r (r\<lparr>r_read_only := ro\<rparr>)"
  by (simp add: leads_same_log read_only_advances)

lemma put_progress_leads:
  assumes "get_progress r i = Some p" and "wf_raft r" and "good_pr p \<Longrightarrow> good_pr q"
    and "pr_is_learner q = pr_is_learner p"
  shows "leads r (put_progress i q r)"
  using put_progress_advances[OF assms] by (rule leads_same_log) (auto simp: put_progress_def)

lemma maybe_commit_leads:
  assumes "maybe_commit r = Inr (r', b)" and "wf_raft r"
  shows "leads r r'"
proof -
  obtain buf l where l: "r' = r\<lparr>r_match_buf := buf, r_log := l\<rparr>" "l = (r_log r)\<lparr>l_committed := l_committed l\<rparr>"
    using maybe_commit_cases[OF assms(1) wf_raftD(1)[OF assms(2)]] by metis
  have "log_base l = log_base (r_log r)" "log_base_term l = log_base_term (r_log r)" "log_ents l = log_ents (r_log r)"
    by (subst l(2), simp)+
  then show ?thesis using maybe_commit_advances[OF assms] by (simp add: leads_def grows_def l(1))
qed

lemma append_entry_leads:
  assumes "append_entry es r = Inr (r', ok)" and "wf_raft r" and "log_last (r_log r) + length es + 1 < 2 ^ 64"
  shows "leads r r'"
proof (cases ok)
  case True
  then obtain ns where "appended ns r r'"
    using append_entry_cases[OF assms(1) wf_raftD(1,2)[OF assms(2)] assms(3)] by auto
  then show ?thesis using append_entry_advances[OF assms] by (auto simp: leads_def grows_def appended_def)
next
  case False
  then show ?thesis
    using append_entry_cases[OF assms(1) wf_raftD(1,2)[OF assms(2)] assms(3)] leads_refl[OF assms(2)] by simp
qed

lemma become_follower_leads:
  assumes "become_follower trm lead r = Inr r'" and "wf_raft r" and "r_term r \<le> trm"
  shows "leads r r'"
  by (rule leads_same_log [OF become_follower_advances(1,2) [OF assms]])

lemma bcast_append_leads: "bcast_append r = Inr r' \<Longrightarrow> wf_raft r \<Longrightarrow> leads r r'"
  by (auto intro: sends_leads bcast_append_sends dest: wf_raftD(1))

lemma length_screen_conf: "length (snd (screen_conf lst ap i p es)) = length es"
  by (induction lst ap i p es rule: screen_conf.induct) (auto simp: Let_def split_def)

lemma step_leader_prop_leads:
  assumes "step_leader_prop m r = Inr (r', s)" and "wf_raft r" and "room m r"
  shows "leads r r'"
proof -
  have "r' = r \<or> (\<exists>lst r1 ok. log_last_index (r_log r) = Inr lst
      \<and> append_entry (snd (screen_conf lst (l_applied (r_log r)) 0 (r_pending_conf_index r) (m_entries m)))
          (r\<lparr>r_pending_conf_index := fst (screen_conf lst (l_applied (r_log r)) 0 (r_pending_conf_index r) (m_entries m))\<rparr>)
          = Inr (r1, ok)
      \<and> (r' = r1 \<or> bcast_append r1 = Inr r'))"
    using assms(1)
    by (simp add: step_leader_prop_def rbind_Inr_iff Let_def split_def dropped_Inr_iff finish_Inr_iff split: if_split_asm)
      (metis prod.collapse)+
  then show ?thesis
  proof (elim disjE exE conjE)
    fix lst r1 ok
    let ?sc = "screen_conf lst (l_applied (r_log r)) 0 (r_pending_conf_index r) (m_entries m)"
    let ?r0 = "r\<lparr>r_pending_conf_index := fst ?sc\<rparr>"
    assume ap: "append_entry (snd ?sc) ?r0 = Inr (r1, ok)"
    have a0: "leads r ?r0" by (rule counters_lead(2) [OF assms(2)])
    have a1: "leads ?r0 r1"
      using assms(3) by (intro append_entry_leads [OF ap leads_wf [OF a0]]) (simp add: room_def length_screen_conf)
    { assume "r' = r1" then show ?thesis using a0 a1 by (blast intro: leads_trans) }
    { assume "bcast_append r1 = Inr r'"
      then show ?thesis using a0 a1 bcast_append_leads by (blast intro: leads_trans leads_wf) }
  qed (simp add: leads_refl assms(2))
qed

lemma step_leader_read_index_leads:
  assumes "step_leader_read_index m r = Inr r'" and "wf_raft r"
  shows "leads r r'"
proof -
  have "r' = r \<or> (\<exists>x. r' = r\<lparr>r_read_states := x\<rparr>) \<or> (\<exists>m'. send m' r = Inr r')
      \<or> (\<exists>ro ctx. add_request (l_committed (r_log r)) m (r_read_only r) = Inr ro
           \<and> bcast_heartbeat_with_ctx ctx (r\<lparr>r_read_only := ro\<rparr>) = Inr r')"
    using assms(1)
    by (simp add: step_leader_read_index_def rbind_Inr_iff Let_def split: if_split_asm read_only_option.split_asm)
      blast+
  then show ?thesis
  proof (elim disjE exE conjE)
    fix ro ctx
    assume ro: "add_request (l_committed (r_log r)) m (r_read_only r) = Inr ro"
      "bcast_heartbeat_with_ctx ctx (r\<lparr>r_read_only := ro\<rparr>) = Inr r'"
    have "leads r (r\<lparr>r_read_only := ro\<rparr>)"
      by (rule read_only_leads [OF assms(2) wf_add_request [OF wf_raftD(7) [OF assms(2)] ro(1)]])
    then show ?thesis using sends_leads[OF bcast_heartbeat_with_ctx_sends [OF ro(2)]]
      by (blast intro: leads_trans leads_wf)
  qed (auto intro: leads_refl counters_lead sends_leads send_sends assms(2))
qed

lemma maybe_decreases_fields:
  "pr_match (fst (maybe_decreases_to a b p)) = pr_match p"
  "pr_is_learner (fst (maybe_decreases_to a b p)) = pr_is_learner p"
  by (simp_all add: maybe_decreases_to_def resume_def Let_def)

lemma good_maybe_decreases: "good_pr p \<Longrightarrow> good_pr (fst (maybe_decreases_to a b p))"
  by (simp add: good_pr_def maybe_decreases_fields wf_maybe_decreases_to)

lemma send_append_leads: "send_append to r = Inr r' \<Longrightarrow> wf_raft r \<Longrightarrow> leads r r'"
  by (auto intro: sends_leads send_append_sends dest: wf_raftD(1))

lemma step_leader_app_rejected_leads:
  assumes "step_leader_app_rejected m pr r = Inr r'" and "wf_raft r"
    and "get_progress r (m_from m) = Some pr0" and "good_pr pr0 \<Longrightarrow> good_pr pr" and "pr_is_learner pr = pr_is_learner pr0"
  shows "leads r r'"
proof -
  let ?d = "maybe_decreases_to (m_index m) (m_reject_hint m) pr"
  let ?q = "if pr_state (fst ?d) = ProgressStateReplicate then become_probe (fst ?d) else fst ?d"
  have "leads r (put_progress (m_from m) (fst ?d) r)"
    using assms(4,5) by (intro put_progress_leads [OF assms(3,2)]) (simp_all add: good_maybe_decreases maybe_decreases_fields)
  moreover have "leads r (put_progress (m_from m) ?q r)"
    using assms(4,5) by (intro put_progress_leads [OF assms(3,2)])
      (simp_all add: good_maybe_decreases maybe_decreases_fields good_become_probe become_probe_fields)
  moreover have "r' = put_progress (m_from m) (fst ?d) r \<or> send_append (m_from m) (put_progress (m_from m) ?q r) = Inr r'"
    using assms(1) by (simp add: step_leader_app_rejected_def Let_def split_def split: if_split_asm)
  ultimately show ?thesis by (blast intro: leads_trans leads_wf send_append_leads)
qed

lemma progress_acked_good:
  assumes "progress_acked i p = Inr q"
  shows "pr_match q = pr_match p" "pr_is_learner q = pr_is_learner p" "good_pr p \<Longrightarrow> good_pr q"
proof -
  have ft: "wf_inflights g" if "wf_inflights f" "inflights_free_to f i = Inr g" for f g
    using that inflights_free_to_spec[OF that(1), of i] by auto
  show "pr_match q = pr_match p" "pr_is_learner q = pr_is_learner p"
    using assms by (auto simp: progress_acked_def become_replicate_fields become_probe_fields rbind_Inr_iff split: if_splits)
  show "good_pr p \<Longrightarrow> good_pr q"
    using assms good_become_replicate[of p] good_become_probe[of p]
    by (auto simp: progress_acked_def rbind_Inr_iff split: if_splits)
      (auto simp: good_pr_def wf_progress_def intro: ft)
qed

lemma step_leader_app_acked_leads:
  assumes "step_leader_app_acked m pr r = Inr r'" and "wf_raft r" and "m_index m \<noteq> - 1"
    and "get_progress r (m_from m) = Some pr0" and "good_pr pr0 \<Longrightarrow> good_pr pr" and "pr_is_learner pr = pr_is_learner pr0"
  shows "leads r r'"
proof -
  let ?p1 = "fst (maybe_update (m_index m) pr)"
  have p1: "good_pr pr0 \<Longrightarrow> good_pr ?p1" "pr_is_learner ?p1 = pr_is_learner pr0"
    using assms(3,5,6) by (simp_all add: good_maybe_update maybe_update_fields)
  show ?thesis
  proof (cases "snd (maybe_update (m_index m) pr)")
    case False
    then have "r' = put_progress (m_from m) ?p1 r"
      using assms(1) by (simp add: step_leader_app_acked_def Let_def split_def)
    then show ?thesis using put_progress_leads[OF assms(4,2) p1] by simp
  next
    case True
    obtain p2 where ack1: "progress_acked (m_index m) ?p1 = Inr p2"
      using assms(1) True by (auto simp: step_leader_app_acked_def Let_def split_def elim: rbind_InrE)
    obtain r1 c where ack2: "maybe_commit (put_progress (m_from m) p2 r) = Inr (r1, c)"
      using assms(1) True ack1 by (auto simp: step_leader_app_acked_def Let_def split_def elim: rbind_InrE)
    obtain r2 where ack3: "(if c then bcast_append r1 else if is_paused pr then send_append (m_from m) r1 else Inr r1) = Inr r2"
      using assms(1) True ack1 ack2
      by (auto simp: step_leader_app_acked_def Let_def split_def cong: if_cong elim: rbind_InrE)
    obtain r3 where ack4: "send_append_loop (log_fuel (r_log r2)) (m_from m) r2 = Inr r3"
      using assms(1) True ack1 ack2 ack3
      by (simp add: step_leader_app_acked_def Let_def split_def cong: if_cong) (auto elim: rbind_InrE)
    have ack5: "(if m_from m = r_lead_transferee r3
        then rbind (deref (get_progress r3 (m_from m))) (\<lambda>pr3. rbind (log_last_index (r_log r3)) (\<lambda>lst.
               if pr_match pr3 = lst then send_timeout_now (m_from m) r3 else Inr r3))
        else Inr r3) = Inr r'"
      using assms(1) True ack1 ack2 ack3 ack4
      by (simp add: step_leader_app_acked_def Let_def split_def cong: if_cong)
    note ack = ack1 ack2 ack3 ack4 ack5
    have a0: "leads r (put_progress (m_from m) p2 r)"
      using p1 progress_acked_good[OF ack(1)] by (intro put_progress_leads [OF assms(4,2)]) simp_all
    have a1: "leads r r1"
      using leads_trans[OF a0 maybe_commit_leads [OF ack(2) leads_wf [OF a0]]] .
    have s2: "sends r1 r2"
      using ack(3) wf_raftD(1)[OF leads_wf [OF a1]]
      by (auto intro: bcast_append_sends send_append_sends split: if_splits)
    have a2: "leads r r2" using leads_trans[OF a1 sends_leads [OF s2 leads_wf [OF a1]]] .
    have "sends r2 r3" by (rule send_append_loop_sends [OF ack(4) wf_raftD(1) [OF leads_wf [OF a2]]])
    moreover have "sends r3 r'" using ack(5)
      by (auto simp: rbind_Inr_iff intro: send_timeout_now_sends split: if_splits)
    ultimately show ?thesis using leads_trans[OF a2 sends_leads [OF sends_trans]] leads_wf[OF a2] by blast
  qed
qed

lemma good_recent_active [simp]: "good_pr (p\<lparr>pr_recent_active := b\<rparr>) = good_pr p"
  by (simp add: good_pr_def wf_progress_def)

lemma good_resume: "good_pr p \<Longrightarrow> good_pr (resume p)"
  by (simp add: good_pr_def wf_progress_def resume_def)

lemma good_set_pause: "good_pr p \<Longrightarrow> good_pr (set_pause p)"
  by (simp add: good_pr_def wf_progress_def set_pause_def)

lemma step_leader_app_resp_leads:
  assumes "step_leader_app_resp m pr r = Inr r'" and "wf_raft r" and "m_index m \<noteq> - 1"
    and "get_progress r (m_from m) = Some pr"
  shows "leads r r'"
  using assms step_leader_app_rejected_leads[OF _ assms(2,4)] step_leader_app_acked_leads[OF _ assms(2,3,4)]
  by (simp add: step_leader_app_resp_def Let_def split: if_split_asm)

lemma advance_wf:
  assumes "advance m ro = Inr (ro', rss)" and "wf_read_only ro"
  shows "wf_read_only ro'"
proof (cases "m_context m \<in> set (ro_queue ro)")
  case True
  then show ?thesis using advance_ok[OF assms(2) True] assms(1) by auto
next
  case False
  have "\<not> snd (snd x)" if "advance_loop pend ctx q = Inr x" "ctx \<notin> set q" for pend ctx q x
    using that by (induction pend ctx q arbitrary: x rule: advance_loop.induct)
      (auto simp: rbind_Inr_iff split: option.splits)
  then have "ro' = ro" using assms(1) False by (fastforce simp: advance_def rbind_Inr_iff split: if_splits)
  then show ?thesis using assms(2) by simp
qed

lemma answer_read_leads: "answer_read rs r = Inr r' \<Longrightarrow> wf_raft r \<Longrightarrow> leads r r'"
  by (auto simp: answer_read_def Let_def rbind_Inr_iff split: if_splits
      intro: counters_lead sends_leads send_sends)

lemma heartbeat_slot:
  assumes "good_pr pr"
  shows "\<exists>f. inflights_free_first_one (pr_inflights pr) = Inr f \<and> wf_inflights f
    \<or> \<not> inflights_is_full (pr_inflights pr)"
proof (cases "inflights_is_full (pr_inflights pr)")
  case True
  have w: "wf_inflights (pr_inflights pr)" using assms by (simp add: good_pr_def wf_progress_def)
  have "0 < unat (if_count (pr_inflights pr))"
    using True w by (simp add: inflights_is_full_def wf_inflights_def)
  then have "unat (if_start (pr_inflights pr)) < length (if_buffer (pr_inflights pr))"
    using inflights_slot_in_buffer[OF w, of 0] w by (simp add: wf_inflights_def)
  then obtain v where "vec_at (if_buffer (pr_inflights pr)) (ucast (if_start (pr_inflights pr))) = Inr v"
    by (simp add: vec_at_def)
  then show ?thesis using inflights_free_to_spec[OF w, of v] by (auto simp: inflights_free_first_one_def)
qed simp

lemma step_leader_heartbeat_resp_leads:
  assumes "step_leader_heartbeat_resp m pr r = Inr r'" and "wf_raft r" and "get_progress r (m_from m) = Some pr"
  shows "leads r r'"
proof -
  define pr1 where "pr1 = resume (pr\<lparr>pr_recent_active := True\<rparr>)"
  have p1: "good_pr pr1" "pr_is_learner pr1 = pr_is_learner pr"
    using good_progress[OF assms(3,2)] good_resume by (simp_all add: pr1_def resume_def)
  obtain pr2 where pr2: "(if pr_state pr1 = ProgressStateReplicate \<and> inflights_is_full (pr_inflights pr1)
      then rbind (inflights_free_first_one (pr_inflights pr1)) (\<lambda>f. Inr (pr1\<lparr>pr_inflights := f\<rparr>))
      else Inr pr1) = Inr pr2"
    using assms(1) unfolding step_leader_heartbeat_resp_def Let_def pr1_def [symmetric] by (auto elim: rbind_InrE)
  have "good_pr pr2 \<and> pr_is_learner pr2 = pr_is_learner pr"
    using pr2 p1 heartbeat_slot[OF p1(1)]
    by (auto simp: rbind_Inr_iff good_pr_def wf_progress_def split: if_splits)
  then have a0: "leads r (put_progress (m_from m) pr2 r)" by (intro put_progress_leads [OF assms(3,2)]) simp_all
  obtain lst where lst: "log_last_index (r_log r) = Inr lst"
    using log_last_index_ok[OF wf_logD(1)[OF wf_raftD(1)[OF assms(2)]]] by auto
  obtain r1 where r1: "(if pr_match pr2 < lst then send_append (m_from m) (put_progress (m_from m) pr2 r)
             else Inr (put_progress (m_from m) pr2 r)) = Inr r1"
    using assms(1) pr2 lst unfolding step_leader_heartbeat_resp_def Let_def pr1_def [symmetric]
    by (simp del: rbind_simps(2)) (auto elim: rbind_InrE)
  have a1: "leads r r1" using r1 a0
    by (auto intro: leads_trans send_append_leads dest: leads_wf split: if_splits)
  note w1 = leads_wf[OF a1]
  let ?ro = "fst (recv_ack m (r_read_only r1))"
  have a2: "leads r (r1\<lparr>r_read_only := ?ro\<rparr>)"
    using leads_trans[OF a1 read_only_leads [OF w1 wf_recv_ack [OF wf_raftD(7) [OF w1]]]] .
  have "r' = r1 \<or> r' = r1\<lparr>r_read_only := ?ro\<rparr> \<or> (\<exists>ro' rss. advance m ?ro = Inr (ro', rss)
      \<and> rfold answer_read rss (r1\<lparr>r_read_only := ro'\<rparr>) = Inr r')"
    using assms(1) pr2 lst r1 unfolding step_leader_heartbeat_resp_def Let_def pr1_def [symmetric]
    by (simp add: split_def rbind_Inr_iff split: if_split_asm)
  then show ?thesis
  proof (elim disjE exE conjE)
    fix ro' rss
    assume h: "advance m ?ro = Inr (ro', rss)" "rfold answer_read rss (r1\<lparr>r_read_only := ro'\<rparr>) = Inr r'"
    have "wf_read_only ro'" by (rule advance_wf [OF h(1) wf_recv_ack [OF wf_raftD(7) [OF w1]]])
    then have a3: "leads r (r1\<lparr>r_read_only := ro'\<rparr>)" using leads_trans[OF a1 read_only_leads [OF w1]] by simp
    have "leads (r1\<lparr>r_read_only := ro'\<rparr>) r'"
      using h(2) by (rule rfold_leads [OF _ leads_wf [OF a3]]) (auto intro: answer_read_leads dest: leads_wf)
    then show ?thesis by (rule leads_trans [OF a3])
  qed (use a1 a2 in simp_all)
qed

lemma step_leader_snap_status_leads:
  assumes "wf_raft r" and "get_progress r (m_from m) = Some pr"
  shows "leads r (step_leader_snap_status m pr r)"
proof -
  have sf: "good_pr (snapshot_failure pr)" "pr_is_learner (snapshot_failure pr) = pr_is_learner pr"
    using good_progress[OF assms(2,1)] by (simp_all add: good_pr_def wf_progress_def snapshot_failure_def)
  have "leads r (put_progress (m_from m) (set_pause (become_probe p)) r)"
    if "good_pr p" "pr_is_learner p = pr_is_learner pr" for p
    using that by (intro put_progress_leads [OF assms(2,1)])
      (simp_all add: good_set_pause good_become_probe, simp add: set_pause_def become_probe_fields)
  then show ?thesis using sf good_progress[OF assms(2,1)] leads_refl[OF assms(1)]
    by (simp add: step_leader_snap_status_def)
qed

lemma step_leader_unreachable_leads:
  assumes "wf_raft r" and "get_progress r (m_from m) = Some pr"
  shows "leads r (step_leader_unreachable m pr r)"
  using put_progress_leads[OF assms(2,1), of "become_probe pr"] good_become_probe[of pr]
    become_probe_fields[of pr] leads_refl[OF assms(1)]
  by (simp add: step_leader_unreachable_def)

lemma step_leader_transfer_leads:
  assumes "step_leader_transfer m pr r = Inr r'" and "wf_raft r"
  shows "leads r r'"
proof -
  define r1 where "r1 = (if r_lead_transferee r \<noteq> 0 then abort_leader_transfer r else r)"
  have a1: "leads r r1" using counters_lead(3)[OF assms(2)] leads_refl[OF assms(2)]
    by (simp add: r1_def abort_leader_transfer_def)
  let ?r2 = "r1\<lparr>r_election_elapsed := 0, r_lead_transferee := m_from m\<rparr>"
  have a2: "leads r ?r2"
    using leads_trans[OF leads_trans [OF a1 counters_lead(4)] counters_lead(3)]
      leads_wf[OF a1] leads_wf[OF counters_lead(4) [OF leads_wf [OF a1]]] by blast
  have "r' = r \<or> r' = r1 \<or> send_timeout_now (m_from m) ?r2 = Inr r' \<or> send_append (m_from m) ?r2 = Inr r'"
    using assms(1) unfolding step_leader_transfer_def Let_def r1_def [symmetric]
    by (auto elim!: rbind_InrE split: if_split_asm)
  moreover have "leads r r'" if "sends ?r2 r'"
    using leads_trans[OF a2 sends_leads [OF that leads_wf [OF a2]]] .
  ultimately show ?thesis using a1 leads_refl[OF assms(2)] wf_raftD(1)[OF leads_wf [OF a2]]
      send_timeout_now_sends[of "m_from m" ?r2 r'] send_append_sends[of "m_from m" ?r2 r'] by blast
qed

lemma step_leader_leads:
  assumes "step_leader m r = Inr (r', s)" and "wf_raft r" and "wf_msg m" and "room m r"
  shows "leads r r'"
proof -
  have ix: "m_index m \<noteq> - 1" using assms(3) by (simp add: wf_msg_def)
  have "r' = r \<or> bcast_heartbeat r = Inr r' \<or> become_follower (r_term r) 0 r = Inr r'
    \<or> step_leader_prop m r = Inr (r', s) \<or> step_leader_read_index m r = Inr r'
    \<or> (\<exists>pr. get_progress r (m_from m) = Some pr \<and> (step_leader_app_resp m pr r = Inr r'
         \<or> step_leader_heartbeat_resp m pr r = Inr r' \<or> r' = step_leader_snap_status m pr r
         \<or> r' = step_leader_unreachable m pr r \<or> step_leader_transfer m pr r = Inr r'))"
    using assms(1)
    by (auto simp: step_leader_def finish_Inr_iff split: if_split_asm option.split_asm)
  then show ?thesis using assms(2,4) ix leads_refl[OF assms(2)]
    by (elim disjE exE conjE)
      (auto intro: sends_leads bcast_heartbeat_sends become_follower_leads step_leader_prop_leads
        step_leader_read_index_leads step_leader_app_resp_leads step_leader_heartbeat_resp_leads
        step_leader_snap_status_leads step_leader_unreachable_leads step_leader_transfer_leads)
qed

section \<open>The dispatcher\<close>

lemma step_hup_advances:
  assumes "step_hup r = Inr r'" and "wf_raft r" and "room m r"
  shows "advances r r'"
proof -
  have "r' = r \<or> (\<exists>ct. campaign ct r = Inr r')"
    using assms(1) by (auto simp: step_hup_def elim!: rbind_InrE split: if_split_asm sum.split_asm)
  then show ?thesis using assms(2,3) advances_refl[OF assms(2)] campaign_advances[OF _ assms(2)]
    by (auto simp: room_def)
qed

lemma step_vote_cases:
  assumes "step_vote m r = Inr r'"
  shows "r' = r \<or> (\<exists>s. sends r s \<and> (r' = s \<or> (m_type m = MsgVote \<and> can_vote m r
     \<and> r' = s\<lparr>r_election_elapsed := 0, r_vote := m_from m\<rparr>)))"
  using assms
  by (auto simp: step_vote_def rbind_Inr_iff split: if_split_asm intro: send_sends)

lemma step_vote_advances:
  assumes "step_vote m r = Inr r'" and "wf_raft r"
  shows "advances r r'"
proof -
  have "advances s (s\<lparr>r_election_elapsed := 0, r_vote := m_from m\<rparr>)"
    if "sends r s" "m_type m = MsgVote" "can_vote m r" "wf_raft s" for s
  proof -
    have "r_vote s = 0 \<or> r_vote s = m_from m" using that(2,3) sends_frame(3)[OF that(1)] by (auto simp: can_vote_def)
    then have "evolves s (s\<lparr>r_election_elapsed := 0, r_vote := m_from m\<rparr>)"
      by (elim disjE) (simp_all add: evolves_def r_fixed_def)
    moreover have "wf_raft (s\<lparr>r_election_elapsed := 0, r_vote := m_from m\<rparr>)"
      using that(4) by (simp add: wf_raft_def wf_core_def wf_timer_def timeout_ok_def role_ok_def wf_peers_def)
    ultimately show ?thesis by (simp add: advances_def)
  qed
  then have "advances r (s\<lparr>r_election_elapsed := 0, r_vote := m_from m\<rparr>)"
    if "sends r s" "m_type m = MsgVote" "can_vote m r" for s
    using that sends_advances[OF that(1) assms(2)] by (blast intro: advances_trans advances_wf)
  then show ?thesis using step_vote_cases[OF assms(1)] advances_refl[OF assms(2)] sends_advances[OF _ assms(2)]
    by blast
qed

lemma step_role_advances:
  assumes "step_role m r = Inr (r', s)" and "wf_raft r" and "wf_msg m" and "room m r"
    and "m_term m = 0 \<or> r_term r \<le> m_term m"
  shows "advances r r'"
proof -
  have role: "r_step r = Some (step_of (r_state r))" using wf_raftD(4)[OF assms(2)] by (simp add: role_ok_def)
  show ?thesis
  proof (cases "r_state r")
    case Follower
    then show ?thesis using role assms(1) step_follower_advances[OF _ assms(2) _ assms(3,4)] by (simp add: step_role_def)
  next
    case Leader
    then show ?thesis using role assms(1) step_leader_leads[OF _ assms(2-4)] by (simp add: step_role_def leads_def)
  qed (use role assms(1) step_candidate_advances[OF _ assms(2-5)] in \<open>simp_all add: step_role_def\<close>)
qed

lemma step_dispatch_advances:
  assumes "step_dispatch m r = Inr (r', s)" and "wf_raft r" and "wf_msg m" and "room m r"
    and "m_term m = 0 \<or> r_term r \<le> m_term m"
  shows "advances r r'"
  using assms step_hup_advances[OF _ assms(2,4)] step_vote_advances[OF _ assms(2)] step_role_advances[OF _ assms(2-5)]
  by (auto simp: step_dispatch_def finish_Inr_iff split: if_split_asm)

lemma step_higher_term_cases:
  assumes "step_higher_term m r = Inr (r1, go)" and "wf_raft r" and "r_term r < m_term m"
  shows "advances r r1 \<and> r_log r1 = r_log r \<and> r_term r1 \<le> m_term m"
proof -
  have "r1 = r \<or> (\<exists>l. become_follower (m_term m) l r = Inr r1)"
    using assms(1) by (auto simp: step_higher_term_def Let_def rbind_Inr_iff split: if_split_asm)
  then show ?thesis using become_follower_advances[OF _ assms(2), of "m_term m"] assms(3) advances_refl[OF assms(2)]
    by auto
qed

lemma step_advances:
  assumes "step m r = Inr (r', s)" and "wf_raft r" and "wf_msg m" and "room m r"
  shows "advances r r'"
proof -
  consider (go) "m_term m = 0 \<or> m_term m = r_term r" "step_dispatch m r = Inr (r', s)"
    | (higher) r1 go where "r_term r < m_term m" "step_higher_term m r = Inr (r1, go)"
        "(if go then step_dispatch m r1 else Inr (r1, Ok)) = Inr (r', s)"
    | (lower) "step_lower_term m r = Inr r'"
    using assms(1) by (auto simp: step_def rbind_Inr_iff finish_Inr_iff split: if_split_asm)
  then show ?thesis
  proof cases
    case go
    then show ?thesis using step_dispatch_advances[OF go(2) assms(2-4)] by auto
  next
    case (higher r1 go)
    note h = step_higher_term_cases[OF higher(2) assms(2) higher(1)]
    have "m_term m \<noteq> - 1" using assms(3) by (simp add: wf_msg_def)
    then have "r_term r1 \<noteq> - 1" using h max_word_u64 by (metis word_order.extremum_uniqueI)
    then have "room m r1" using assms(4) h by (simp add: room_def)
    then show ?thesis using higher(3) h step_dispatch_advances[OF _ advances_wf [OF conjunct1 [OF h]] assms(3), of r' s]
      by (auto intro: advances_trans split: if_splits)
  next
    case lower
    then show ?thesis by (intro sends_advances step_lower_term_sends assms(2))
  qed
qed

end
