(* ===== verification/Raft_Reach.thy ===== *)
theory Raft_Reach
  imports Raft_Safety
begin

text \<open>
  Ticks, membership changes and the constructor keep the invariant too; the states a node can
  reach from its constructor are well formed.
\<close>

section \<open>Ticks\<close>

lemma local_msg_wf: "wf_msg (Message\<lparr>m_from := i, m_type := t\<rparr>) \<longleftrightarrow> t \<noteq> MsgApp \<and> t \<noteq> MsgHeartbeat \<and> t \<noteq> MsgSnap"
  by (auto simp: wf_msg_def Message_def)

lemma local_msg_room: "room (Message\<lparr>m_from := i, m_type := t\<rparr>) r \<longleftrightarrow> r_term r \<noteq> - 1 \<and> log_last (r_log r) + 2 < 2 ^ 64"
  by (simp add: room_def Message_def)

definition can_grow :: "raft \<Rightarrow> bool" where
  "can_grow r \<longleftrightarrow> r_term r \<noteq> - 1 \<and> log_last (r_log r) + 2 < 2 ^ 64"

lemma leader_local_step:
  assumes "wf_raft r" and "r_state r = Leader" and "m_term m = 0" and "m_type m \<noteq> MsgHup"
    and "m_type m \<noteq> MsgVote" and "m_type m \<noteq> MsgPreVote"
  shows "step m r = step_leader m r"
  using assms wf_raftD(4)[OF assms(1)]
  by (simp add: step_def step_dispatch_def step_role_def role_ok_def)

lemma tick_election_advances:
  assumes "tick_election r = Inr r'" and "wf_raft r" and "can_grow r"
  shows "advances r r'"
proof -
  let ?r1 = "r\<lparr>r_election_elapsed := r_election_elapsed r + 1\<rparr>"
  let ?r0 = "r\<lparr>r_election_elapsed := 0\<rparr>"
  have "r' = ?r1 \<or> (\<exists>s. step (Message\<lparr>m_from := r_id r, m_type := MsgHup\<rparr>) ?r0 = Inr (r', s))"
    using assms(1) by (simp add: tick_election_def Let_def rbind_Inr_iff split: if_split_asm)
  moreover have "advances r r'" if st: "step (Message\<lparr>m_from := r_id r, m_type := MsgHup\<rparr>) ?r0 = Inr (r', s)" for s
  proof -
    have a: "advances r ?r0" by (rule counters_advance(4) [OF assms(2)])
    have "advances ?r0 r'"
      using assms(3) by (intro step_advances [OF st advances_wf [OF a]]) (simp_all add: local_msg_wf local_msg_room can_grow_def)
    then show ?thesis by (rule advances_trans [OF a])
  qed
  ultimately show ?thesis using counters_advance(4)[OF assms(2)] by blast
qed

lemma check_quorum_step:
  assumes "step (Message\<lparr>m_from := i, m_type := MsgCheckQuorum\<rparr>) r = Inr (r', s)" and "wf_raft r" and "r_state r = Leader"
  shows "advances r r'"
proof -
  have "step_leader (Message\<lparr>m_from := i, m_type := MsgCheckQuorum\<rparr>) r = Inr (r', s)"
    using assms(1) by (subst leader_local_step [symmetric, OF assms(2,3)]) (simp_all add: Message_def)
  then have "r' = r \<or> become_follower (r_term r) 0 r = Inr r'"
    by (simp add: step_leader_def finish_Inr_iff split: if_split_asm)
  then show ?thesis using advances_refl[OF assms(2)] become_follower_advances(1)[OF _ assms(2)] by blast
qed

lemma beat_step:
  assumes "step (Message\<lparr>m_from := i, m_type := MsgBeat\<rparr>) r = Inr (r', s)" and "wf_raft r" and "r_state r = Leader"
  shows "advances r r'"
proof -
  have "step_leader (Message\<lparr>m_from := i, m_type := MsgBeat\<rparr>) r = Inr (r', s)"
    using assms(1) by (subst leader_local_step [symmetric, OF assms(2,3)]) (simp_all add: Message_def)
  then have "bcast_heartbeat r = Inr r'" by (simp add: step_leader_def finish_Inr_iff)
  then show ?thesis by (intro sends_advances bcast_heartbeat_sends assms(2))
qed

lemma tick_heartbeat_advances:
  assumes "tick_heartbeat r = Inr r'" and "wf_raft r" and "r_state r = Leader"
  shows "advances r r'"
proof -
  define r1 where "r1 = r\<lparr>r_heartbeat_elapsed := r_heartbeat_elapsed r + 1, r_election_elapsed := r_election_elapsed r + 1\<rparr>"
  define r2 where "r2 = r1\<lparr>r_election_elapsed := 0\<rparr>"
  have a1: "advances r r1"
    using advances_trans[OF counters_advance(5) counters_advance(4)] assms(2) advances_wf[OF counters_advance(5) [OF assms(2)]]
    unfolding r1_def by blast
  have a2: "advances r r2"
    unfolding r2_def using advances_trans[OF a1 counters_advance(4) [OF advances_wf [OF a1]]] .
  have ld: "r_state r2 = Leader" using assms(3) by (simp add: r2_def r1_def)
  obtain r4 where r4: "(if r_election_elapsed r1 \<ge> r_election_timeout r1
       then rbind (if r_check_quorum r2
                   then rbind (step (Message\<lparr>m_from := r_id r2, m_type := MsgCheckQuorum\<rparr>) r2) (\<lambda>(r3, _). Inr r3)
                   else Inr r2) (\<lambda>r3.
              Inr (if r_state r3 = Leader \<and> r_lead_transferee r3 \<noteq> 0 then abort_leader_transfer r3 else r3))
       else Inr r1) = Inr r4"
    and fin: "(if r_state r4 \<noteq> Leader then Inr r4
        else if r_heartbeat_elapsed r4 \<ge> r_heartbeat_timeout r4
        then rbind (step (Message\<lparr>m_from := r_id r4, m_type := MsgBeat\<rparr>) (r4\<lparr>r_heartbeat_elapsed := 0\<rparr>)) (\<lambda>(r5, _). Inr r5)
        else Inr r4) = Inr r'"
    using assms(1) unfolding tick_heartbeat_def Let_def r1_def [symmetric] r2_def [symmetric] by (rule rbind_InrE)
  have a3: "advances r r3"
    if "(if r_check_quorum r2 then rbind (step (Message\<lparr>m_from := r_id r2, m_type := MsgCheckQuorum\<rparr>) r2) (\<lambda>(r3, _). Inr r3)
         else Inr r2) = Inr r3" for r3
    using that a2 check_quorum_step[OF _ advances_wf[OF a2] ld]
    by (auto simp: rbind_Inr_iff intro: advances_trans split: if_split_asm)
  have a4: "advances r r4"
  proof (cases "r_election_elapsed r1 \<ge> r_election_timeout r1")
    case True
    then obtain r3 where r3: "(if r_check_quorum r2 then rbind (step (Message\<lparr>m_from := r_id r2, m_type := MsgCheckQuorum\<rparr>) r2) (\<lambda>(r3, _). Inr r3)
         else Inr r2) = Inr r3" "r4 = (if r_state r3 = Leader \<and> r_lead_transferee r3 \<noteq> 0 then abort_leader_transfer r3 else r3)"
      using r4 by (auto elim: rbind_InrE)
    have "advances r3 (abort_leader_transfer r3)"
      using counters_advance(3)[OF advances_wf [OF a3 [OF r3(1)]]] by (simp add: abort_leader_transfer_def)
    then show ?thesis using r3(2) a3[OF r3(1)] by (auto intro: advances_trans)
  qed (use r4 a1 in simp)
  let ?r5 = "r4\<lparr>r_heartbeat_elapsed := 0\<rparr>"
  have a5: "advances r ?r5" using advances_trans[OF a4 counters_advance(5) [OF advances_wf [OF a4]]] .
  show ?thesis
  proof (cases "r_state r4 = Leader \<and> r_heartbeat_elapsed r4 \<ge> r_heartbeat_timeout r4")
    case True
    then obtain s where "step (Message\<lparr>m_from := r_id r4, m_type := MsgBeat\<rparr>) ?r5 = Inr (r', s)"
      using fin by (auto simp: rbind_Inr_iff)
    then have "advances ?r5 r'" using True by (intro beat_step [OF _ advances_wf [OF a5]]) simp_all
    then show ?thesis by (rule advances_trans [OF a5])
  qed (use fin a4 in \<open>auto split: if_split_asm\<close>)
qed

lemma tick_advances:
  assumes "tick r = Inr r'" and "wf_raft r" and "can_grow r"
  shows "advances r r'"
proof -
  have "r_tick r = Some (tick_of (r_state r))" using wf_raftD(4)[OF assms(2)] by (simp add: role_ok_def)
  then show ?thesis using assms tick_election_advances tick_heartbeat_advances
    by (cases "r_state r") (simp_all add: tick_def)
qed

section \<open>Membership\<close>

lemma del_progress_advances:
  assumes "wf_raft r"
  shows "advances r (del_progress i r)"
proof -
  have "wf_peers (r\<lparr>r_prs := AList.delete i (r_prs r), r_learner_prs := AList.delete i (r_learner_prs r)\<rparr>)"
    using wf_raftD(2)[OF assms] unfolding wf_peers_def by (simp add: peers_ok_delete fst_delete) blast
  then show ?thesis unfolding del_progress_def by (rule peers_advance [OF assms])
qed

lemma remove_node_advances:
  assumes "remove_node i r = Inr r'" and "wf_raft r"
  shows "advances r r'"
proof -
  define r1 where "r1 = del_progress i r"
  have a1: "advances r r1" unfolding r1_def by (rule del_progress_advances [OF assms(2)])
  show ?thesis
  proof (cases "r_prs r1 = [] \<and> r_learner_prs r1 = []")
    case True
    then show ?thesis using assms(1) a1 by (simp add: remove_node_def r1_def Let_def)
  next
    case False
    then obtain r2 c r3 where r2: "maybe_commit r1 = Inr (r2, c)" "(if c then bcast_append r2 else Inr r2) = Inr r3"
        "r' = (if r_state r3 = Leader \<and> r_lead_transferee r3 = i then abort_leader_transfer r3 else r3)"
      using assms(1) unfolding remove_node_def Let_def r1_def [symmetric] by (auto elim!: rbind_InrE)
    have a2: "advances r r2" using advances_trans[OF a1 maybe_commit_advances [OF r2(1) advances_wf [OF a1]]] .
    have a3: "advances r r3" using r2(2) a2 bcast_append_advances[OF _ advances_wf [OF a2]]
      by (auto intro: advances_trans split: if_split_asm)
    have "advances r3 (abort_leader_transfer r3)"
      using counters_advance(3)[OF advances_wf [OF a3]] by (simp add: abort_leader_transfer_def)
    then show ?thesis using r2(3) a3 by (auto intro: advances_trans)
  qed
qed

lemma add_node_or_learner_advances:
  assumes "add_node_or_learner i b r = Inr r'" and "wf_raft r"
  shows "advances r r'"
proof -
  define mark where "mark = (\<lambda>r. let r1 = (if r_id r = i then r\<lparr>r_is_learner := b\<rparr> else r) in
      rbind (deref (get_progress r1 i)) (\<lambda>p. Inr (put_progress i (p\<lparr>pr_recent_active := True\<rparr>) r1)))"
  have mark: "advances s r'" if "mark s = Inr r'" "wf_raft s" for s
  proof -
    define s1 where "s1 = (if r_id s = i then s\<lparr>r_is_learner := b\<rparr> else s)"
    have a: "advances s s1" using that(2) by (simp add: s1_def advances_refl counters_advance)
    have "rbind (deref (get_progress s1 i)) (\<lambda>p. Inr (put_progress i (p\<lparr>pr_recent_active := True\<rparr>) s1)) = Inr r'"
      using that(1) unfolding mark_def Let_def s1_def .
    then obtain p where p: "get_progress s1 i = Some p" "r' = put_progress i (p\<lparr>pr_recent_active := True\<rparr>) s1"
      by (auto elim: rbind_InrE)
    show ?thesis unfolding p(2)
      by (rule advances_trans [OF a put_progress_advances [OF p(1) advances_wf [OF a]]]) simp_all
  qed
  show ?thesis
  proof (cases "get_progress r i")
    case None
    then have "rbind (log_last_index (r_log r)) (\<lambda>lst. rbind (set_progress i 0 (lst + 1) b r) mark) = Inr r'"
      using assms(1) by (simp add: add_node_or_learner_def mark_def Let_def)
    then obtain lst s where s: "log_last_index (r_log r) = Inr lst"
        "set_progress i (if False then lst else 0) (lst + 1) b r = Inr s" "mark s = Inr r'"
      by (auto elim!: rbind_InrE)
    note a = set_progress_advances(1)[OF s(2) assms(2) s(1)]
    show ?thesis by (rule advances_trans [OF a mark [OF s(3) advances_wf [OF a]]])
  next
    case (Some pr)
    let ?s = "r\<lparr>r_prs := AList.update i (pr\<lparr>pr_is_learner := False\<rparr>) (r_prs r), r_learner_prs := AList.delete i (r_learner_prs r)\<rparr>"
    have "good_pr (pr\<lparr>pr_is_learner := False\<rparr>)"
      using good_progress[OF Some assms(2)] by (simp add: good_pr_def wf_progress_def)
    then have "wf_peers ?s" using wf_raftD(2)[OF assms(2)]
      by (auto simp: wf_peers_def peers_ok_update peers_ok_delete fst_update fst_delete)
    then have a: "advances r ?s" by (rule peers_advance [OF assms(2)])
    have "r' = r \<or> mark (r\<lparr>r_learner_prs := AList.delete i (r_learner_prs r),
        r_prs := AList.update i (pr\<lparr>pr_is_learner := False\<rparr>) (r_prs r)\<rparr>) = Inr r'"
      using assms(1) Some by (simp add: add_node_or_learner_def mark_def Let_def split: if_split_asm)
    moreover have "r\<lparr>r_learner_prs := AList.delete i (r_learner_prs r),
        r_prs := AList.update i (pr\<lparr>pr_is_learner := False\<rparr>) (r_prs r)\<rparr> = ?s" by simp
    ultimately have "r' = r \<or> mark ?s = Inr r'" by simp
    then show ?thesis using advances_refl[OF assms(2)] advances_trans[OF a mark [OF _ advances_wf [OF a]]] by blast
  qed
qed

section \<open>The constructor\<close>

text \<open>
  What the constructor relies on: a well-formed storage, timeouts and window sizes that the 32-bit
  arithmetic of the code can hold, and draws of the random device within its bounds.
\<close>

definition wf_config :: "config \<Rightarrow> (nat \<Rightarrow> u32) \<Rightarrow> bool" where
  "wf_config c draws \<longleftrightarrow> (\<forall>st. c_storage c = Some st \<longrightarrow> wf_storage st)
     \<and> (\<forall>n. draws n \<le> c_election_tick c) \<and> unat (c_election_tick c) < 2 ^ 31
     \<and> 0 < unat (c_max_inflight_msgs c) \<and> unat (c_max_inflight_msgs c) \<le> 2 ^ 31"

lemma good_first_progress:
  assumes "0 < unat mx" and "unat mx \<le> 2 ^ 31"
  shows "good_pr ((Progress mx)\<lparr>pr_next := 1\<rparr>)" "good_pr ((Progress mx)\<lparr>pr_next := 1, pr_is_learner := b\<rparr>)"
    "\<not> pr_is_learner ((Progress mx)\<lparr>pr_next := 1\<rparr>)"
  using wf_InFlights[OF assms] by (simp_all add: good_pr_def wf_progress_def Progress_def)

text \<open>While the peers are being added there are no learners yet.\<close>

lemma add_peers_core:
  assumes "wf_core r" and "r_learner_prs r = []"
  shows "wf_core (fold add_peer ps r) \<and> r_learner_prs (fold add_peer ps r) = []
     \<and> r_id (fold add_peer ps r) = r_id r \<and> r_msgs (fold add_peer ps r) = r_msgs r"
  using assms
proof (induction ps arbitrary: r)
  case (Cons i ps)
  have "wf_core (add_peer i r)"
    using Cons.prems good_first_progress[of "r_max_inflight r"]
    by (simp add: add_peer_def wf_core_def wf_peers_def wf_timer_def peers_ok_update)
  moreover have "r_learner_prs (add_peer i r) = []" "r_id (add_peer i r) = r_id r" "r_msgs (add_peer i r) = r_msgs r"
    using Cons.prems by (simp_all add: add_peer_def)
  ultimately show ?case using Cons.IH[of "add_peer i r"] by simp
qed simp

lemma add_learner_core:
  assumes "add_learner i r = Inr r'" and "wf_core r"
  shows "wf_core r'" "r_id r' = r_id r" "r_msgs r' = r_msgs r"
proof -
  let ?q = "(Progress (r_max_inflight r))\<lparr>pr_next := 1, pr_is_learner := True\<rparr>"
  define s where "s = r\<lparr>r_learner_prs := AList.update i ?q (r_learner_prs r)\<rparr>"
  have none: "i \<notin> fst ` set (r_prs r)" and r': "r' = s \<or> r' = s\<lparr>r_is_learner := True\<rparr>"
    using assms(1) by (auto simp: add_learner_def Let_def s_def map_of_eq_None_iff split: if_split_asm)
  have "good_pr ?q" "pr_is_learner ?q"
    using assms(2) good_first_progress(2)[of "r_max_inflight r" True] by (simp_all add: wf_core_def)
  then have "wf_peers s"
    using assms(2) none by (auto simp: s_def wf_core_def wf_peers_def peers_ok_update fst_update)
  then have "wf_core s" using assms(2) by (simp add: s_def wf_core_def wf_timer_def)
  moreover have "wf_core (s\<lparr>r_is_learner := True\<rparr>) = wf_core s"
    by (simp add: wf_core_def wf_timer_def wf_peers_def)
  ultimately show "wf_core r'" "r_id r' = r_id r" "r_msgs r' = r_msgs r" using r' by (auto simp: s_def)
qed

lemma load_state_core:
  assumes "load_state hs r = Inr r'" and "wf_core r"
  shows "wf_core r'" "r_id r' = r_id r" "r_msgs r' = r_msgs r"
proof -
  note wl = wf_logD[of "r_log r"]
  obtain lst where lst: "log_last_index (r_log r) = Inr lst" "unat lst = log_last (r_log r)"
    using log_last_index_ok[of "r_log r"] assms(2) wl(1) by (auto simp: wf_core_def)
  let ?l = "(r_log r)\<lparr>l_committed := hs_commit hs\<rparr>"
  have r': "r' = r\<lparr>r_log := ?l, r_term := hs_term hs, r_vote := hs_vote hs\<rparr>"
    and c: "l_committed (r_log r) \<le> hs_commit hs" "hs_commit hs \<le> lst"
    using assms(1) lst(1) by (auto simp: load_state_def not_less split: if_split_asm)
  have "wf_log ?l"
    using assms(2) c lst(2) by (auto simp: wf_core_def wf_log_def word_le_nat_alt)
  then show "wf_core r'" "r_id r' = r_id r" "r_msgs r' = r_msgs r"
    using assms(2) by (simp_all add: r' wf_core_def wf_timer_def wf_peers_def)
qed

text \<open>The stages of the constructor.\<close>

lemma Raft_stages:
  assumes "Raft c draws = Inr r" and "c_storage c = Some st" and "RaftLog st (c_max_committed_size_per_ready c) = Inr l"
  defines "hs \<equiv> fst (storage_initial_state st)"
    and "app \<equiv> \<lambda>r2. if c_applied c > 0 then r2\<lparr>r_log := applied_to (c_applied c) (r_log r2)\<rparr> else r2"
  obtains peers learners r1 r2 where "rfold add_learner learners (fold add_peer peers (initial_raft c draws l)) = Inr r1"
    and "(if \<not> hs_is_empty_state hs then load_state hs r1 else Inr r1) = Inr r2"
    and "become_follower (r_term (app r2)) 0 (app r2) = Inr r"
proof -
  define cs where "cs = snd (storage_initial_state st)"
  define peers where "peers = (if cs_nodes cs \<noteq> [] \<or> cs_learners cs \<noteq> [] then cs_nodes cs else c_peers c)"
  define learners where "learners = (if cs_nodes cs \<noteq> [] \<or> cs_learners cs \<noteq> [] then cs_learners cs else c_learners c)"
  have "rbind (rfold add_learner learners (fold add_peer peers (initial_raft c draws l))) (\<lambda>r1.
        rbind (if \<not> hs_is_empty_state hs then load_state hs r1 else Inr r1) (\<lambda>r2.
        rbind (become_follower (r_term (app r2)) 0 (app r2)) (\<lambda>r4. rbind (log_position r4) (\<lambda>_. Inr r4)))) = Inr r"
    using assms(1-3) unfolding hs_def cs_def peers_def learners_def app_def
    by (cases "cs_nodes (snd (storage_initial_state st)) = [] \<and> cs_learners (snd (storage_initial_state st)) = []")
      (simp_all add: Raft_def Let_def split_def split: if_split_asm)
  then obtain r1 where r1: "rfold add_learner learners (fold add_peer peers (initial_raft c draws l)) = Inr r1"
      and m1: "rbind (if \<not> hs_is_empty_state hs then load_state hs r1 else Inr r1) (\<lambda>r2.
        rbind (become_follower (r_term (app r2)) 0 (app r2)) (\<lambda>r4. rbind (log_position r4) (\<lambda>_. Inr r4))) = Inr r"
    by (rule rbind_InrE)
  from m1 obtain r2 where r2: "(if \<not> hs_is_empty_state hs then load_state hs r1 else Inr r1) = Inr r2"
      and m2: "rbind (become_follower (r_term (app r2)) 0 (app r2)) (\<lambda>r4. rbind (log_position r4) (\<lambda>_. Inr r4)) = Inr r"
    by (rule rbind_InrE)
  from m2 have "become_follower (r_term (app r2)) 0 (app r2) = Inr r" by (rule rbind_InrE) (auto elim: rbind_InrE)
  with r1 r2 show thesis by (rule that)
qed

lemma Raft_wf:
  assumes "Raft c draws = Inr r" and "wf_config c draws"
  shows "wf_raft r \<and> r_state r = Follower \<and> r_id r = c_id c \<and> r_msgs r = []"
proof -
  obtain st where st: "c_storage c = Some st" using assms(1) by (auto simp: Raft_def elim: rbind_InrE)
  then have "wf_storage st" using assms(2) by (simp add: wf_config_def)
  then obtain l where l: "RaftLog st (c_max_committed_size_per_ready c) = Inr l" "wf_log l"
    using wf_RaftLog[of st "c_max_committed_size_per_ready c"] by blast
  define hs where "hs = fst (storage_initial_state st)"
  have r0: "wf_core (initial_raft c draws l)" "r_learner_prs (initial_raft c draws l) = []"
    using assms(2) l(2)
    by (simp_all add: initial_raft_def wf_core_def wf_peers_def peers_ok_def wf_timer_def wf_config_def
        rd_fair_def RandomDevice_def wf_ReadOnly)
  let ?app = "\<lambda>r2. if c_applied c > 0 then r2\<lparr>r_log := applied_to (c_applied c) (r_log r2)\<rparr> else r2"
  obtain peers learners r1 r2 where r1: "rfold add_learner learners (fold add_peer peers (initial_raft c draws l)) = Inr r1"
      and r2: "(if \<not> hs_is_empty_state hs then load_state hs r1 else Inr r1) = Inr r2"
      and r4: "become_follower (r_term (?app r2)) 0 (?app r2) = Inr r"
    using Raft_stages[OF assms(1) st l(1)] hs_def by metis
  define r3 where r3: "r3 = ?app r2"
  have r4: "become_follower (r_term r3) 0 r3 = Inr r" using r4 unfolding r3 .
  let ?P = "\<lambda>s. wf_core s \<and> r_id s = c_id c \<and> r_msgs s = []"
  have "?P (fold add_peer peers (initial_raft c draws l))"
    using add_peers_core[OF r0, of peers] by (simp add: initial_raft_def)
  then have p1: "?P r1" by (rule rfold_invariant [OF r1]) (auto simp: add_learner_core)
  have p2: "?P r2" using r2 p1 load_state_core[of hs r1 r2] by (simp split: if_split_asm)
  have "wf_core (s\<lparr>r_log := applied_to i (r_log s)\<rparr>) = wf_core s" for s i
    by (simp add: wf_core_def wf_timer_def wf_peers_def applied_to_def)
  then have p3: "?P r3" using p2 r3 by simp
  show ?thesis
    using become_follower_ok[of r3 "r_term r3" 0] p3 r4 by (auto simp: evolves_def r_fixed_def)
qed

section \<open>Reachable states\<close>

text \<open>
  A node lives on messages and ticks, on configuration changes and on having its outgoing messages
  collected. The bounds ask that terms and positions have not used up their 64 bits.
\<close>

inductive raft_reachable :: "raft \<Rightarrow> bool" where
  started: "Raft c draws = Inr r \<Longrightarrow> wf_config c draws \<Longrightarrow> raft_reachable r"
| stepped: "raft_reachable r \<Longrightarrow> wf_msg m \<Longrightarrow> room m r \<Longrightarrow> step m r = Inr (r', s) \<Longrightarrow> raft_reachable r'"
| ticked: "raft_reachable r \<Longrightarrow> can_grow r \<Longrightarrow> tick r = Inr r' \<Longrightarrow> raft_reachable r'"
| added: "raft_reachable r \<Longrightarrow> add_node_or_learner i b r = Inr r' \<Longrightarrow> raft_reachable r'"
| removed: "raft_reachable r \<Longrightarrow> remove_node i r = Inr r' \<Longrightarrow> raft_reachable r'"
| collected: "raft_reachable r \<Longrightarrow> raft_reachable (fst (read_messages r))"

lemma wf_raft_msgs: "wf_raft (r\<lparr>r_msgs := ms\<rparr>) = wf_raft r"
  by (simp add: wf_raft_def wf_core_def wf_timer_def timeout_ok_def role_ok_def wf_peers_def)

lemma raft_reachable_invariant: "raft_reachable r \<Longrightarrow> wf_raft r"
proof (induction rule: raft_reachable.induct)
  case (stepped r m r' s)
  then show ?case using step_advances advances_wf by blast
next
  case (ticked r r')
  then show ?case using tick_advances advances_wf by blast
next
  case (added r i b r')
  then show ?case using add_node_or_learner_advances advances_wf by blast
next
  case (removed r i r')
  then show ?case using remove_node_advances advances_wf by blast
qed (simp_all add: Raft_wf read_messages_def wf_raft_msgs)

end
