(* ===== verification/Raft_Runs.thy ===== *)
theory Raft_Runs
  imports Raft_Reach
begin

text \<open>
  Runs of one node, a sample cluster of three to evaluate the model on, and the properties of the
  protocol that a single node keeps: its promises over terms, votes and commitment, the append-only
  log of a leader, who becomes leader, who gets a vote, and what the answers to heartbeats and
  snapshots say.
\<close>

section \<open>Runs of a node\<close>

text \<open>
  A run: any sequence of messages, ticks, membership changes and collections of the outgoing
  messages, each within the bounds of the 64-bit numbering.
\<close>

inductive raft_run :: "raft \<Rightarrow> raft \<Rightarrow> bool" where
  idle: "raft_run r r"
| on_message: "raft_run r s \<Longrightarrow> wf_msg m \<Longrightarrow> room m s \<Longrightarrow> step m s = Inr (t, st) \<Longrightarrow> raft_run r t"
| on_tick: "raft_run r s \<Longrightarrow> can_grow s \<Longrightarrow> tick s = Inr t \<Longrightarrow> raft_run r t"
| on_add: "raft_run r s \<Longrightarrow> add_node_or_learner i b s = Inr t \<Longrightarrow> raft_run r t"
| on_remove: "raft_run r s \<Longrightarrow> remove_node i s = Inr t \<Longrightarrow> raft_run r t"
| on_collect: "raft_run r s \<Longrightarrow> raft_run r (fst (read_messages s))"

definition hard_le :: "raft \<Rightarrow> raft \<Rightarrow> bool" where
  "hard_le r r' \<longleftrightarrow> r_fixed r' = r_fixed r \<and> r_term r \<le> r_term r'
     \<and> (r_term r' = r_term r \<and> r_vote r \<noteq> 0 \<longrightarrow> r_vote r' = r_vote r)
     \<and> l_committed (r_log r) \<le> l_committed (r_log r') \<and> l_storage (r_log r') = l_storage (r_log r)"

lemma evolves_hard_le: "evolves r r' \<Longrightarrow> hard_le r r'"
  by (simp add: evolves_def hard_le_def)

lemma hard_le_trans:
  assumes "hard_le r s" and "hard_le s t"
  shows "hard_le r t"
proof -
  have "r_vote t = r_vote r" if "r_term t = r_term r" "r_vote r \<noteq> 0"
  proof -
    have "r_term s = r_term r" using assms that(1) by (auto simp: hard_le_def intro: order_antisym)
    then show ?thesis using assms that by (simp add: hard_le_def)
  qed
  moreover have "r_term r \<le> r_term t" "l_committed (r_log r) \<le> l_committed (r_log t)"
    using assms unfolding hard_le_def by (blast intro: order_trans)+
  ultimately show ?thesis using assms by (simp add: hard_le_def)
qed

lemma raft_run_wf: "raft_run r t \<Longrightarrow> wf_raft r \<Longrightarrow> wf_raft t \<and> hard_le r t"
proof (induction rule: raft_run.induct)
  case (idle r)
  then show ?case by (simp add: hard_le_def)
next
  case (on_message r s m t st)
  then have "advances s t" using step_advances by blast
  then show ?case using on_message by (auto simp: advances_def intro: hard_le_trans evolves_hard_le)
next
  case (on_tick r s t)
  then have "advances s t" using tick_advances by blast
  then show ?case using on_tick by (auto simp: advances_def intro: hard_le_trans evolves_hard_le)
next
  case (on_add r s i b t)
  then have "advances s t" using add_node_or_learner_advances by blast
  then show ?case using on_add by (auto simp: advances_def intro: hard_le_trans evolves_hard_le)
next
  case (on_remove r s i t)
  then have "advances s t" using remove_node_advances by blast
  then show ?case using on_remove by (auto simp: advances_def intro: hard_le_trans evolves_hard_le)
next
  case (on_collect r s)
  then show ?case by (simp add: read_messages_def wf_raft_msgs hard_le_def r_fixed_def)
qed

section \<open>A sample node\<close>

definition sample_config :: config where
  "sample_config = Config\<lparr>c_id := 1, c_peers := [1, 2, 3], c_election_tick := 10, c_heartbeat_tick := 1,
     c_storage := Some MemoryStorage, c_max_size_per_msg := - 1, c_max_committed_size_per_ready := - 1,
     c_max_uncommitted_entries_size := - 1, c_max_inflight_msgs := 256, c_pre_vote := True\<rparr>"

definition sample_raft :: raft where
  "sample_raft = projr (Raft sample_config (\<lambda>_. 3))"

lemma sample_raft_started: "Raft sample_config (\<lambda>_. 3) = Inr sample_raft"
proof -
  have "\<not> isl (Raft sample_config (\<lambda>_. 3))" by code_simp
  then show ?thesis by (simp add: sample_raft_def)
qed

lemma wf_sample_config: "wf_config sample_config (\<lambda>_. 3)"
  using wf_MemoryStorage by (simp add: wf_config_def sample_config_def Config_def)

lemma wf_sample_raft: "wf_raft sample_raft"
  using Raft_wf[OF sample_raft_started wf_sample_config] by simp

definition hup :: message where
  "hup = Message\<lparr>m_from := 1, m_type := MsgHup\<rparr>"

definition pre_grant :: "u64 \<Rightarrow> message" where
  "pre_grant i = Message\<lparr>m_from := i, m_to := 1, m_type := MsgPreVoteResp, m_term := 1\<rparr>"

definition grant :: "u64 \<Rightarrow> message" where
  "grant i = Message\<lparr>m_from := i, m_to := 1, m_type := MsgVoteResp, m_term := 1\<rparr>"

definition after :: "message \<Rightarrow> raft \<Rightarrow> raft" where
  "after m r = fst (projr (step m r))"

definition sample_candidate :: raft where
  "sample_candidate = after (pre_grant 2) (after hup sample_raft)"

definition sample_leader :: raft where
  "sample_leader = after (grant 3) sample_candidate"

lemma after_run:
  assumes "raft_run r s" and "wf_msg m" and "room m s" and "\<not> isl (step m s)"
  shows "raft_run r (after m s)" and "step m s = Inr (after m s, snd (projr (step m s)))"
proof -
  show eq: "step m s = Inr (after m s, snd (projr (step m s)))"
    using assms(4) by (cases "step m s") (auto simp: after_def)
  show "raft_run r (after m s)" by (rule on_message [OF assms(1-3) eq])
qed

lemma sample_msgs: "wf_msg hup" "wf_msg (pre_grant i)" "wf_msg (grant i)"
  "m_entries hup = []" "m_entries (pre_grant i) = []" "m_entries (grant i) = []"
  by (simp_all add: wf_msg_def hup_def pre_grant_def grant_def Message_def)

lemma sample_room:
  "room hup sample_raft" "room (pre_grant 2) (after hup sample_raft)" "room (grant 3) sample_candidate"
proof -
  have "r_term sample_raft = 0 \<and> log_last (r_log sample_raft) = 0" by code_simp
  moreover have "r_term (after hup sample_raft) = 0 \<and> log_last (r_log (after hup sample_raft)) = 0" by code_simp
  moreover have "r_term sample_candidate = 1 \<and> log_last (r_log sample_candidate) = 0" by code_simp
  ultimately show "room hup sample_raft" "room (pre_grant 2) (after hup sample_raft)" "room (grant 3) sample_candidate"
    by (simp_all add: room_def sample_msgs)
qed

lemma sample_runs:
  "raft_run sample_raft sample_candidate" "raft_run sample_candidate sample_leader"
  "step (grant 3) sample_candidate = Inr (sample_leader, snd (projr (step (grant 3) sample_candidate)))"
proof -
  have n: "\<not> isl (step hup sample_raft)" "\<not> isl (step (pre_grant 2) (after hup sample_raft))"
    "\<not> isl (step (grant 3) sample_candidate)" by (code_simp, code_simp, code_simp)
  have "raft_run sample_raft (after hup sample_raft)"
    by (rule after_run [OF idle sample_msgs(1) sample_room(1) n(1)])
  from after_run[OF this sample_msgs(2) sample_room(2) n(2)]
  show "raft_run sample_raft sample_candidate" by (simp add: sample_candidate_def)
  from after_run[OF idle sample_msgs(3) sample_room(3) n(3)]
  show "raft_run sample_candidate sample_leader"
    "step (grant 3) sample_candidate = Inr (sample_leader, snd (projr (step (grant 3) sample_candidate)))"
    by (simp_all add: sample_leader_def)
qed

lemma wf_sample_candidate: "wf_raft sample_candidate"
  using raft_run_wf[OF sample_runs(1) wf_sample_raft] by simp

lemma wf_sample_leader: "wf_raft sample_leader"
  using raft_run_wf[OF sample_runs(2) wf_sample_candidate] by simp

text \<open>The replication loop and the commit rule on the sample leader.\<close>

theorem replication_loop_ends_witness:
  "\<exists>r' pr'. send_append_loop (log_fuel (r_log sample_leader) + 7) 2 sample_leader = Inr r'
     \<and> get_progress r' 2 = Some pr'"
proof -
  have "get_progress sample_leader 2 \<noteq> None" by code_simp
  then obtain pr where pr: "get_progress sample_leader 2 = Some pr" by auto
  have "good_pr pr"
    using get_progress_good[OF pr] wf_raftD(2)[OF wf_sample_leader] by (auto simp: wf_peers_def peers_ok_def)
  from replication_loop_ends[OF wf_raftD(1)[OF wf_sample_leader] pr this]
  show ?thesis by (auto dest: spec [where x = "log_fuel (r_log sample_leader) + 7"])
qed

theorem maybe_commit_quorum_witness:
  "\<exists>r' moved. maybe_commit sample_leader = Inr (r', moved) \<and> wf_log (r_log r')"
proof -
  have "r_prs sample_leader \<noteq> [] \<and> length (r_prs sample_leader) = 3 \<and> r_term sample_leader = 1" by code_simp
  then show ?thesis using maybe_commit_quorum[OF wf_raftD(1)[OF wf_sample_leader]] by (auto simp: Let_def)
qed

section \<open>Terms, votes and commitment\<close>

text \<open>
  C5: A node's promises hold over any run of messages, ticks, membership changes and collections of
  its messages: its term never decreases, within a term a vote once cast never changes, its commit
  position never moves back, and it never writes the stable storage, which is the server's.
\<close>

theorem run_keeps_promises:
  assumes "wf_raft r" and "raft_run r r'"
  shows "r_term r \<le> r_term r' \<and> (r_term r' = r_term r \<and> r_vote r \<noteq> 0 \<longrightarrow> r_vote r' = r_vote r)
     \<and> l_committed (r_log r) \<le> l_committed (r_log r') \<and> l_storage (r_log r') = l_storage (r_log r)"
  using raft_run_wf[OF assms(2,1)] by (simp add: hard_le_def)

theorem run_keeps_promises_witness:
  "r_vote sample_candidate = 1 \<and> r_state sample_leader = Leader \<and> r_vote sample_leader = 1"
proof -
  have "r_vote sample_candidate = 1 \<and> r_term sample_leader = r_term sample_candidate \<and> r_state sample_leader = Leader"
    by code_simp
  then show ?thesis using run_keeps_promises[OF wf_sample_candidate sample_runs(2)] by simp
qed

text \<open>
  C19: Every state a node can reach from its constructor is well formed: the bound step and tick
  functions are those of its role, a leader names itself as leader, the randomized election timeout
  lies between the election timeout and twice that, the commit position lies within the log,
  voters and learners are disjoint, and the log reads without error at every position.
\<close>

theorem reachable_well_formed:
  assumes "raft_reachable r"
  shows "wf_raft r \<and> r_step r = Some (step_of (r_state r)) \<and> r_tick r = Some (tick_of (r_state r))
     \<and> (if r_state r = Leader then r_lead r = r_id r else True)
     \<and> unat (r_election_timeout r) \<le> unat (r_randomized_election_timeout r)
     \<and> unat (r_randomized_election_timeout r) \<le> 2 * unat (r_election_timeout r)
     \<and> log_base (r_log r) \<le> unat (l_committed (r_log r)) \<and> unat (l_committed (r_log r)) \<le> log_last (r_log r)
     \<and> fst ` set (r_prs r) \<inter> fst ` set (r_learner_prs r) = {}
     \<and> (\<forall>i. log_term (r_log r) i = Inr (Inr (log_term_at (r_log r) (unat i))))"
proof -
  have w: "wf_raft r" by (rule raft_reachable_invariant [OF assms])
  note l = wf_logD[OF wf_raftD(1)[OF w]]
  have "role_ok r" "timeout_ok r" "wf_peers r" using wf_raftD[OF w] by simp_all
  then show ?thesis using w l(4,5) log_term_ok[OF l(1)]
    by (simp add: role_ok_def timeout_ok_def wf_peers_def word_le_nat_alt)
qed

theorem reachable_well_formed_witness:
  "raft_reachable sample_raft \<and> r_step sample_raft = Some (step_of (r_state sample_raft))"
proof -
  have "raft_reachable sample_raft" by (rule started [OF sample_raft_started wf_sample_config])
  then show ?thesis using reachable_well_formed[of sample_raft] by simp
qed

section \<open>The leader's log\<close>

lemma leader_dispatch_grows:
  assumes "step_dispatch m r = Inr (r', s)" and "wf_raft r" and "r_state r = Leader" and "wf_msg m" and "room m r"
  shows "grows r r'"
proof -
  have hup: "r' = r" if "step_hup r = Inr r'" using that assms(3) by (simp add: step_hup_def)
  have vote: "r_log r' = r_log r" if "step_vote m r = Inr r'"
    using step_vote_cases[OF that] by (auto simp: sends_frame(4))
  have role: "grows r r'" if "step_role m r = Inr (r', s)"
    using that assms wf_raftD(4)[OF assms(2)] step_leader_leads[OF _ assms(2,4,5)]
    by (simp add: step_role_def role_ok_def leads_def)
  show ?thesis using assms(1) hup vote role
    by (auto simp: step_dispatch_def finish_Inr_iff grows_def split: if_split_asm)
qed

text \<open>
  C7: A leader only appends. Whatever message a leader handles, as long as its term stays the same
  the entries of its log stay where they are: the new log extends the old one.
\<close>

theorem leader_append_only:
  assumes "wf_raft r" and "r_state r = Leader" and "wf_msg m" and "room m r"
    and "step m r = Inr (r', s)" and "r_term r' = r_term r"
  shows "log_base (r_log r') = log_base (r_log r) \<and> prefix (log_ents (r_log r)) (log_ents (r_log r'))"
proof -
  have "grows r r'"
  proof (cases "r_term r < m_term m")
    case True
    then have "m_term m \<noteq> 0" by auto
    then obtain r1 go where h: "step_higher_term m r = Inr (r1, go)"
        "(if go then step_dispatch m r1 else Inr (r1, Ok)) = Inr (r', s)"
      using assms(5) True by (auto simp: step_def elim!: rbind_InrE)
    note c = step_higher_term_cases[OF h(1) assms(1) True]
    have "r1 = r \<or> (\<exists>l. become_follower (m_term m) l r = Inr r1)"
      using h(1) by (auto simp: step_higher_term_def Let_def rbind_Inr_iff split: if_split_asm)
    moreover have False if b: "become_follower (m_term m) l r = Inr r1" for l
    proof -
      have t1: "r_term r1 = m_term m" using become_follower_advances(4)[OF b assms(1)] True by simp
      have "m_term m \<noteq> - 1" using assms(3) by (simp add: wf_msg_def)
      then have "room m r1" using assms(4) c t1 by (simp add: room_def)
      then have "r_term r1 \<le> r_term r'"
        using h(2) step_dispatch_advances[OF _ advances_wf [OF conjunct1 [OF c]] assms(3), of r' s] t1
        by (auto simp: advances_def evolves_def split: if_splits)
      then show False using t1 True assms(6) by simp
    qed
    ultimately have "r1 = r" by blast
    then show ?thesis using h(2) leader_dispatch_grows[OF _ assms(1-4)]
      by (auto simp: grows_def split: if_splits)
  next
    case False
    then have "step_dispatch m r = Inr (r', s) \<or> step_lower_term m r = Inr r'"
      using assms(5) by (auto simp: step_def finish_Inr_iff split: if_split_asm)
    then show ?thesis using leader_dispatch_grows[OF _ assms(1-4)] step_lower_term_sends[of m r r']
      by (auto simp: grows_def sends_frame(4))
  qed
  then show ?thesis by (simp add: grows_def)
qed

definition proposal :: message where
  "proposal = Message\<lparr>m_from := 1, m_type := MsgProp, m_entries := [Entry\<lparr>e_data := [7]\<rparr>]\<rparr>"

lemma sample_proposal:
  "wf_msg proposal" "room proposal sample_leader" "\<not> isl (step proposal sample_leader)"
  "step proposal sample_leader = Inr (after proposal sample_leader, snd (projr (step proposal sample_leader)))"
proof -
  show m: "wf_msg proposal" by (simp add: wf_msg_def proposal_def Message_def)
  have "r_term sample_leader = 1 \<and> log_last (r_log sample_leader) = 1" by code_simp
  then show rm: "room proposal sample_leader" by (simp add: room_def proposal_def)
  show n: "\<not> isl (step proposal sample_leader)" by code_simp
  show "step proposal sample_leader = Inr (after proposal sample_leader, snd (projr (step proposal sample_leader)))"
    by (rule after_run(2) [OF idle m rm n])
qed

theorem leader_append_only_witness:
  "prefix (log_ents (r_log sample_leader)) (log_ents (r_log (after proposal sample_leader)))
   \<and> length (log_ents (r_log (after proposal sample_leader))) = 2"
proof -
  have "r_state sample_leader = Leader \<and> r_term (after proposal sample_leader) = r_term sample_leader
      \<and> length (log_ents (r_log (after proposal sample_leader))) = 2" by code_simp
  then show ?thesis
    using leader_append_only[OF wf_sample_leader _ sample_proposal(1,2,4)] by simp
qed

section \<open>Elections\<close>

text \<open>The votes a node has after recording the response \<open>m\<close>; the first answer of a node counts.\<close>

definition votes_with :: "message \<Rightarrow> raft \<Rightarrow> (u64 \<times> bool) list" where
  "votes_with m r = (if map_of (r_votes r) (m_from m) = None
     then AList.update (m_from m) (\<not> m_reject m) (r_votes r) else r_votes r)"

lemma ucast_eq_u32: "(ucast (a :: u32) :: u64) = ucast b \<longleftrightarrow> a = b"
  by (simp add: u64_eq_iff word_unat_eq_iff)

lemma sends_not_leader: "sends r r' \<Longrightarrow> r_state r \<noteq> Leader \<Longrightarrow> r_state r' \<noteq> Leader"
  by (simp add: sends_frame)

lemma campaign_leader:
  assumes "campaign ct r = Inr r'" and "wf_raft r" and "room m r" and "r_state r' = Leader"
  shows "quorum r = 1"
proof -
  have "r_term r \<noteq> - 1" "log_last (r_log r) + 2 < 2 ^ 64" using assms(3) by (simp_all add: room_def)
  from campaign_ok[OF assms(1,2) this] show ?thesis using assms(4) by (auto split: if_splits)
qed

lemma vote_resp_leader:
  assumes "step_vote_resp m r = Inr r'" and "wf_raft r" and "room m r" and "r_state r \<noteq> Leader" and "r_state r' = Leader"
  shows "quorum r = 1 \<or> (r_state r = Candidate \<and> r_term r' = r_term r
     \<and> quorum r = of_nat (granted_votes (votes_with m r)))"
proof -
  obtain r1 g where p: "poll (m_from m) (m_type m) (\<not> m_reject m) r = Inr (r1, g)"
    using assms(1) by (auto simp: step_vote_resp_def rbind_Inr_iff)
  have r1: "r1 = r\<lparr>r_votes := votes_with m r\<rparr>" "g = of_nat (granted_votes (votes_with m r))"
    using p by (auto simp: poll_def rbind_Inr_iff Let_def votes_with_def)
  have a1: "wf_raft r1" "room m r1" "quorum r1 = quorum r"
    using poll_behaves[OF p] assms(2,3) by (simp_all add: behaves_def r1 room_def quorum_def)
  have "(quorum r1 = g \<and> r_state r1 = PreCandidate \<and> campaign kCampaignElection r1 = Inr r')
      \<or> (quorum r1 = g \<and> r_state r1 = Candidate \<and> (\<exists>r2. become_leader r1 = Inr r2 \<and> bcast_append r2 = Inr r'))
      \<or> become_follower (r_term r1) 0 r1 = Inr r' \<or> r' = r1"
    using assms(1) p by (simp add: step_vote_resp_def rbind_Inr_iff Let_def ucast_eq_u32 split: if_split_asm)
  then show ?thesis
  proof (elim disjE conjE exE)
    assume "campaign kCampaignElection r1 = Inr r'"
    then show ?thesis using campaign_leader[OF _ a1(1,2) assms(5)] a1(3) by simp
  next
    fix r2 assume h: "quorum r1 = g" "r_state r1 = Candidate" "become_leader r1 = Inr r2" "bcast_append r2 = Inr r'"
    have lt: "log_last (r_log r1) + 2 < 2 ^ 64" using a1(2) by (simp add: room_def)
    note bl = become_leader_ok[OF h(3) wf_raftD(3)[OF a1(1)] lt]
    have "r_term r' = r_term r2" using bcast_append_sends[OF h(4)] bl wf_raftD(1) by (auto simp: sends_frame)
    then show ?thesis using h(1,2) bl r1 a1(3) by simp
  next
    assume "become_follower (r_term r1) 0 r1 = Inr r'"
    then show ?thesis using become_follower_advances(3)[OF _ a1(1)] assms(5) by auto
  next
    assume "r' = r1"
    then show ?thesis using r1 assms(4,5) by simp
  qed
qed

lemma handle_append_entries_state: "handle_append_entries m r = Inr r' \<Longrightarrow> r_state r' = r_state r"
  by (auto simp: handle_append_entries_def Let_def elim!: rbind_InrE dest!: send_sends
      split: if_split_asm option.split_asm simp: sends_frame)

lemma handle_heartbeat_state: "handle_heartbeat m r = Inr r' \<Longrightarrow> r_state r' = r_state r"
  by (auto simp: handle_heartbeat_def sends_frame elim!: rbind_InrE dest!: send_sends)

lemma restore_node_state: "restore_node ids b r = Inr r' \<Longrightarrow> r_state r' = r_state r"
  unfolding restore_node_def
  by (erule rfold_invariant [where P = "\<lambda>s. r_state s = r_state r"])
    (auto simp: restore_one_def set_progress_def Let_def elim!: rbind_InrE split: if_split_asm)

lemma handle_snapshot_state:
  assumes "handle_snapshot m r = Inr r'"
  shows "r_state r' = r_state r"
proof -
  obtain r1 b where r1: "restore (m_snapshot m) r = Inr (r1, b)" "sends r1 r'"
    using assms by (auto simp: handle_snapshot_def rbind_Inr_iff split: if_splits intro: send_sends)
  have "r_state r1 = r_state r"
    using r1(1) by (auto simp: restore_def dest!: restore_node_state elim!: rbind_InrE split: if_split_asm)
  then show ?thesis using r1(2) by (simp add: sends_frame)
qed

lemma step_follower_leader:
  assumes "step_follower m r = Inr (r', s)" and "wf_raft r" and "room m r" and "r_state r \<noteq> Leader" and "r_state r' = Leader"
  shows "quorum r = 1"
proof -
  let ?f = "r\<lparr>r_election_elapsed := 0, r_lead := m_from m\<rparr>"
  have "r_state r' = r_state r \<or> send (m\<lparr>m_to := r_lead r\<rparr>) r = Inr r' \<or> handle_append_entries m ?f = Inr r'
      \<or> handle_heartbeat m ?f = Inr r' \<or> handle_snapshot m ?f = Inr r' \<or> campaign kCampaignTransfer r = Inr r'"
    using assms(1)
    by (simp add: step_follower_def Let_def finish_Inr_iff dropped_Inr_iff split: if_split_asm list.split_asm) auto
  then show ?thesis
    using assms(4,5) campaign_leader[OF _ assms(2,3,5)] sends_not_leader[OF send_sends]
      handle_append_entries_state[of m ?f r'] handle_heartbeat_state[of m ?f r'] handle_snapshot_state[of m ?f r']
    by auto
qed

lemma step_candidate_leader:
  assumes "step_candidate m r = Inr (r', s)" and "wf_raft r" and "wf_msg m" and "room m r" and "r_state r \<noteq> Leader"
    and "r_state r' = Leader" and "m_term m = 0 \<or> r_term r \<le> m_term m"
  shows "(m_type m = MsgVoteResp \<or> m_type m = MsgPreVoteResp) \<and> step_vote_resp m r = Inr r'"
proof -
  have *: "r' = r \<or> ((m_type m = MsgApp \<or> m_type m = MsgHeartbeat \<or> m_type m = MsgSnap)
       \<and> (\<exists>r1. become_follower (m_term m) (m_from m) r = Inr r1
         \<and> (handle_append_entries m r1 = Inr r' \<or> handle_heartbeat m r1 = Inr r' \<or> handle_snapshot m r1 = Inr r')))
      \<or> ((m_type m = MsgVoteResp \<or> m_type m = MsgPreVoteResp) \<and> step_vote_resp m r = Inr r')"
    using assms(1)
    by (simp add: step_candidate_def finish_Inr_iff dropped_Inr_iff rbind_Inr_iff split: if_split_asm) auto
  have "r_state r' \<noteq> Leader"
    if t: "m_type m = MsgApp \<or> m_type m = MsgHeartbeat \<or> m_type m = MsgSnap"
      and b: "become_follower (m_term m) (m_from m) r = Inr r1"
      and h: "handle_append_entries m r1 = Inr r' \<or> handle_heartbeat m r1 = Inr r' \<or> handle_snapshot m r1 = Inr r'" for r1
  proof -
    have "r_term r \<le> m_term m" using t assms(3,7) by (auto simp: wf_msg_def)
    then have "r_state r1 = Follower" using become_follower_advances(3)[OF b assms(2)] by simp
    then show ?thesis using h handle_append_entries_state handle_heartbeat_state handle_snapshot_state by fastforce
  qed
  then show ?thesis using * assms(5,6) by blast
qed

lemma dispatch_leader:
  assumes "step_dispatch m r = Inr (r', s)" and "wf_raft r" and "wf_msg m" and "room m r" and "r_state r \<noteq> Leader"
    and "r_state r' = Leader" and "m_term m = 0 \<or> r_term r \<le> m_term m"
  shows "quorum r = 1 \<or> (r_state r = Candidate \<and> r_term r' = r_term r
     \<and> (m_type m = MsgVoteResp \<or> m_type m = MsgPreVoteResp) \<and> quorum r = of_nat (granted_votes (votes_with m r)))"
proof -
  have hup: "quorum r = 1" if "step_hup r = Inr r'"
  proof -
    have "r' = r \<or> (\<exists>ct. campaign ct r = Inr r')"
      using that by (auto simp: step_hup_def elim!: rbind_InrE split: if_split_asm sum.split_asm)
    then show ?thesis using assms(5,6) campaign_leader[OF _ assms(2,4,6)] by blast
  qed
  have vote: False if "step_vote m r = Inr r'"
    using step_vote_cases[OF that] assms(5,6) by (auto simp: sends_frame)
  have role: ?thesis if st: "step_role m r = Inr (r', s)"
  proof (cases "r_state r = Follower")
    case True
    then show ?thesis using st wf_raftD(4)[OF assms(2)] step_follower_leader[OF _ assms(2,4,5,6)]
      by (simp add: step_role_def role_ok_def)
  next
    case False
    then have "step_candidate m r = Inr (r', s)"
      using st wf_raftD(4)[OF assms(2)] assms(5) by (cases "r_state r") (simp_all add: step_role_def role_ok_def)
    from step_candidate_leader[OF this assms(2-7)] show ?thesis
      using vote_resp_leader[OF _ assms(2,4,5,6)] by blast
  qed
  show ?thesis using assms(1) hup vote role by (auto simp: step_dispatch_def finish_Inr_iff split: if_split_asm)
qed

lemma length_alist_update: "length (AList.update k v al) \<le> length al + 1"
  by (induction al) auto

lemma granted_bound:
  assumes "length (r_votes r) + 1 < 2 ^ 32"
  shows "unat (of_nat (granted_votes (votes_with m r)) :: u32) = granted_votes (votes_with m r)"
proof -
  have "length (votes_with m r) \<le> length (r_votes r) + 1"
    using length_alist_update[of "m_from m" "\<not> m_reject m" "r_votes r"] by (auto simp: votes_with_def)
  moreover have "granted_votes (votes_with m r) \<le> length (votes_with m r)"
    by (simp add: granted_votes_def)
  ultimately have "granted_votes (votes_with m r) < 2 ^ 32" using assms by linarith
  then show ?thesis by (simp add: unat_of_nat take_bit_eq_mod)
qed

text \<open>
  C6: Who becomes leader. If handling a message makes a node the leader, then either a majority of
  its configuration is the node alone, or it was a candidate, the message is a vote response, its
  term did not change, and with this response the number of distinct nodes that granted it a vote is
  exactly a majority of the voters.
\<close>

theorem leader_elected_by_majority:
  assumes "wf_raft r" and "r_state r \<noteq> Leader" and "wf_msg m" and "room m r"
    and "length (r_prs r) < 2 ^ 32" and "length (r_votes r) + 1 < 2 ^ 32"
    and "step m r = Inr (r', s)" and "r_state r' = Leader"
  shows "majority r = 1 \<or> (r_state r = Candidate \<and> r_term r' = r_term r
     \<and> (m_type m = MsgVoteResp \<or> m_type m = MsgPreVoteResp)
     \<and> distinct (map fst (votes_with m r)) \<and> granted_votes (votes_with m r) = majority r)"
proof -
  have nat: "quorum q = 1 \<Longrightarrow> majority q = 1" if "length (r_prs q) < 2 ^ 32" for q
    using quorum_unat[OF that] by simp
  have fin: ?thesis
    if "quorum r = 1 \<or> (r_state r = Candidate \<and> r_term r' = r_term r
       \<and> (m_type m = MsgVoteResp \<or> m_type m = MsgPreVoteResp) \<and> quorum r = of_nat (granted_votes (votes_with m r)))"
    using that nat[OF assms(5)] quorum_unat[OF assms(5)] granted_bound[OF assms(6), of m]
      wf_raftD(8)[OF assms(1)] by (auto simp: votes_with_def distinct_update)
  show ?thesis
  proof (cases "r_term r < m_term m")
    case True
    then have "m_term m \<noteq> 0" by auto
    then obtain r1 go where h: "step_higher_term m r = Inr (r1, go)"
        "(if go then step_dispatch m r1 else Inr (r1, Ok)) = Inr (r', s)"
      using assms(7) True by (auto simp: step_def elim!: rbind_InrE)
    note c = step_higher_term_cases[OF h(1) assms(1) True]
    have "m_term m \<noteq> - 1" using assms(3) by (simp add: wf_msg_def)
    then have "r_term r1 \<noteq> - 1" using c by (metis word_order.extremum_uniqueI)
    then have rm: "room m r1" using assms(4) c by (auto simp: room_def)
    have "r1 = r \<or> (\<exists>l. become_follower (m_term m) l r = Inr r1)"
      using h(1) by (auto simp: step_higher_term_def Let_def rbind_Inr_iff split: if_split_asm)
    then show ?thesis
    proof (elim disjE exE)
      assume same: "r1 = r"
      have "go" using h(2) assms(2,8) same by (cases go) simp_all
      then have "step_dispatch m r = Inr (r', s)" using h(2) same by simp
      from dispatch_leader[OF this assms(1,3,4,2,8) disjI2 [OF less_imp_le [OF True]]]
      show ?thesis by (rule fin)
    next
      fix l assume b: "become_follower (m_term m) l r = Inr r1"
      have f: "r_state r1 = Follower" using become_follower_advances(3)[OF b assms(1)] True by simp
      have q: "quorum r1 = quorum r"
        using become_follower_ok[OF wf_raftD(3)[OF assms(1)], of "m_term m" l] b True by (auto intro: quorum_cong)
      have "go" using h(2) assms(8) f by (cases go) simp_all
      then have d: "step_dispatch m r1 = Inr (r', s)" using h(2) by simp
      have "r_state r1 \<noteq> Leader" using f by simp
      from dispatch_leader[OF d advances_wf [OF conjunct1 [OF c]] assms(3) rm this assms(8)
          disjI2 [OF conjunct2 [OF conjunct2 [OF c]]]]
      have "quorum r1 = 1" using f by simp
      then show ?thesis using q fin by simp
    qed
  next
    case False
    then have "(step_dispatch m r = Inr (r', s) \<and> (m_term m = 0 \<or> r_term r \<le> m_term m)) \<or> step_lower_term m r = Inr r'"
      using assms(7) by (auto simp: step_def finish_Inr_iff split: if_split_asm)
    then show ?thesis
      using dispatch_leader[OF _ assms(1,3,4,2,8)] fin step_lower_term_sends[of m r r'] sends_not_leader assms(2,8)
      by blast
  qed
qed

theorem leader_elected_by_majority_witness:
  "r_state sample_leader = Leader \<and> granted_votes (votes_with (grant 3) sample_candidate) = 2"
proof -
  have h: "r_state sample_candidate = Candidate \<and> length (r_prs sample_candidate) = 3
      \<and> length (r_votes sample_candidate) = 1 \<and> r_state sample_leader = Leader" by code_simp
  then show ?thesis
    using leader_elected_by_majority[OF wf_sample_candidate _ sample_msgs(3) sample_room(3) _ _ sample_runs(3)]
    by (simp add: majority_def)
qed

text \<open>
  A run that shows a leader without votes. A comment in \<open>step_candidate\<close> says that only vote responses
  corresponding to the candidacy are handled, since a candidate may still receive stale pre-vote
  responses in its term. The code handles both kinds alike: in a cluster of three with pre-vote, a
  node that is granted the pre-vote by node 2 becomes a candidate at term 1, and when the pre-vote
  grant of node 3 arrives after that, it becomes leader of term 1 although no node has voted for it.
\<close>

lemma stale_pre_vote_elects_leader:
  "r_state sample_candidate = Candidate \<and> r_term sample_candidate = 1
   \<and> r_votes sample_candidate = [(1, True)]
   \<and> r_state (after (pre_grant 3) sample_candidate) = Leader
   \<and> r_term (after (pre_grant 3) sample_candidate) = 1"
  by code_simp

end
