(* ===== verification/Raft_Node.thy ===== *)
theory Raft_Node
  imports Raft_Runs
begin

text \<open>
  The interface between the state machine and the server: \<open>struct Ready\<close>
  (src/raft-kv/raft/ready.cpp) collects what the server has to persist, send and apply, and
  \<open>class RawNode\<close> (src/raft-kv/raft/node.cpp) drives a \<open>Raft\<close> with it. The operations of
  \<open>RawNode\<close> that share a name with one of \<open>Raft\<close> carry the prefix \<open>node_\<close>.
  \<open>ConfChange::serialize\<close> calls msgpack and is the parameter \<open>ser\<close> of the operations
  that use it. Both constructors set \<open>prev_soft_state_\<close>, so the pointer is a value here.

  The properties follow one round of the loop in the server: collect a \<open>Ready\<close>, persist its
  entries, report back with \<open>advance\<close>.
\<close>

section \<open>Ready\<close>

record ready =
  rd_soft_state :: "soft_state option"
  rd_hard_state :: hard_state
  rd_read_states :: "read_state list"
  rd_entries :: "entry list"
  rd_snapshot :: snapshot
  rd_committed_entries :: "entry list"
  rd_messages :: "message list"
  rd_must_sync :: bool

definition Ready :: "raft \<Rightarrow> soft_state \<Rightarrow> hard_state \<Rightarrow> (raft \<times> ready) res" where
  "Ready r pre_ss pre_hs =
     (let entries = u_entries (l_unstable (r_log r));
          r1 = r\<lparr>r_msgs := []\<rparr> in
      rbind (next_entries (r_log r1)) (\<lambda>committed.
        let st = soft_state_of r1;
            hs = hard_state_of r1;
            hard = (if \<not> hs_equal hs pre_hs then hs else HardState) in
        Inr (r1, \<lparr>rd_soft_state = (if \<not> soft_state_equal st pre_ss then Some st else None),
                  rd_hard_state = hard,
                  rd_read_states = (if r_read_states r1 \<noteq> [] then r_read_states r1 else []),
                  rd_entries = entries,
                  rd_snapshot = (case u_snapshot (l_unstable (r_log r1)) of None \<Rightarrow> Snapshot | Some s \<Rightarrow> s),
                  rd_committed_entries = committed,
                  rd_messages = r_msgs r,
                  rd_must_sync = is_must_sync hs hard (length entries)\<rparr>)))"

definition contains_updates :: "ready \<Rightarrow> bool" where
  "contains_updates rd \<longleftrightarrow>
     rd_soft_state rd \<noteq> None \<or> \<not> hs_is_empty_state (rd_hard_state rd)
     \<or> \<not> snapshot_is_empty (rd_snapshot rd) \<or> rd_entries rd \<noteq> []
     \<or> rd_committed_entries rd \<noteq> [] \<or> rd_messages rd \<noteq> [] \<or> rd_read_states rd = []"

definition applied_cursor :: "ready \<Rightarrow> u64" where
  "applied_cursor rd =
     (if rd_committed_entries rd \<noteq> [] then e_index (last (rd_committed_entries rd))
      else let idx = s_index (rd_snapshot rd) in if idx > 0 then idx else 0)"

text \<open>
  The loop over the read states reads \<open>rd.read_states[i]\<close> for every index of its own vector; the
  test that should guard it compares the vector's size with itself.
\<close>

fun read_states_equal :: "read_state list \<Rightarrow> read_state list \<Rightarrow> bool res" where
  "read_states_equal [] bs = Inr True"
| "read_states_equal (a # as) [] = Inl OutOfRange"
| "read_states_equal (a # as) (b # bs) =
     (if \<not> read_state_equal a b then Inr False else read_states_equal as bs)"

definition ready_equal :: "ready \<Rightarrow> ready \<Rightarrow> bool res" where
  "ready_equal a b =
     (if (rd_soft_state a = None) \<noteq> (rd_soft_state b = None) then Inr False
      else if (case (rd_soft_state a, rd_soft_state b) of
                 (Some x, Some y) \<Rightarrow> \<not> soft_state_equal x y | _ \<Rightarrow> False) then Inr False
      else if \<not> hs_equal (rd_hard_state a) (rd_hard_state b) then Inr False
      else rbind (read_states_equal (rd_read_states a) (rd_read_states b)) (\<lambda>same.
        Inr (same \<and> rd_entries a = rd_entries b \<and> snapshot_equal (rd_snapshot a) (rd_snapshot b)
           \<and> rd_committed_entries a = rd_committed_entries b \<and> rd_must_sync a = rd_must_sync b)))"

section \<open>RawNode\<close>

record raw_node =
  n_raft :: raft
  n_prev_soft_state :: soft_state
  n_prev_hard_state :: hard_state

record peer_context =
  pc_id :: u64
  pc_context :: bytes

definition SnapshotFinish :: u8 where [simp]: "SnapshotFinish = 1"
definition SnapshotFailure :: u8 where [simp]: "SnapshotFailure = 2"

definition peer_change :: "peer_context \<Rightarrow> conf_change" where
  "peer_change p = \<lparr>cc_id = 0, cc_type = ConfChangeAddNode, cc_node_id = pc_id p, cc_context = pc_context p\<rparr>"

fun peer_entries :: "(conf_change \<Rightarrow> bytes) \<Rightarrow> u64 \<Rightarrow> peer_context list \<Rightarrow> entry list" where
  "peer_entries ser i [] = []"
| "peer_entries ser i (p # ps) =
     Entry\<lparr>e_type := EntryConfChange, e_term := 1, e_index := i + 1, e_data := ser (peer_change p)\<rparr>
       # peer_entries ser (i + 1) ps"

definition initial_hard_state :: "u64 \<Rightarrow> raft \<Rightarrow> hard_state" where
  "initial_hard_state lst r = (if lst = 0 then HardState else hard_state_of r)"

definition start_node :: "(conf_change \<Rightarrow> bytes) \<Rightarrow> config \<Rightarrow> (nat \<Rightarrow> u32) \<Rightarrow> peer_context list \<Rightarrow> raw_node res" where
  "start_node ser c draws peers =
     rbind (Raft c draws) (\<lambda>r0.
     rbind (deref (c_storage c)) (\<lambda>st.
     rbind (storage_last_index st) (\<lambda>lst.
     rbind (if lst = 0
            then rbind (become_follower 1 0 r0) (\<lambda>r1.
              let entries = peer_entries ser 0 peers in
              rbind (log_append entries (r_log r1)) (\<lambda>(l, _).
                rfold (\<lambda>p. add_node (pc_id p)) peers
                  (r1\<lparr>r_log := l\<lparr>l_committed := vec_size entries\<rparr>\<rparr>)))
            else Inr r0) (\<lambda>r2.
       Inr \<lparr>n_raft = r2, n_prev_soft_state = soft_state_of r2, n_prev_hard_state = initial_hard_state lst r2\<rparr>))))"

definition restart_node :: "config \<Rightarrow> (nat \<Rightarrow> u32) \<Rightarrow> raw_node res" where
  "restart_node c draws =
     rbind (deref (c_storage c)) (\<lambda>st.
     rbind (storage_last_index st) (\<lambda>lst.
     rbind (Raft c draws) (\<lambda>r.
       Inr \<lparr>n_raft = r, n_prev_soft_state = soft_state_of r, n_prev_hard_state = initial_hard_state lst r\<rparr>)))"

text \<open>An operation of the state machine, run inside the node.\<close>

definition on_raft :: "(raft \<Rightarrow> (raft \<times> status) res) \<Rightarrow> raw_node \<Rightarrow> (raw_node \<times> status) res" where
  "on_raft f n = rbind (f (n_raft n)) (\<lambda>(r, s). Inr (n\<lparr>n_raft := r\<rparr>, s))"

definition silent :: "(raw_node \<times> status) res \<Rightarrow> raw_node res" where
  "silent m = rbind m (\<lambda>(n, _). Inr n)"

definition node_tick :: "raw_node \<Rightarrow> raw_node res" where
  "node_tick n = rbind (tick (n_raft n)) (\<lambda>r. Inr (n\<lparr>n_raft := r\<rparr>))"

definition node_campaign :: "raw_node \<Rightarrow> (raw_node \<times> status) res" where
  "node_campaign = on_raft (step (Message\<lparr>m_type := MsgHup\<rparr>))"

definition node_propose :: "bytes \<Rightarrow> raw_node \<Rightarrow> (raw_node \<times> status) res" where
  "node_propose data n =
     on_raft (step (Message\<lparr>m_type := MsgProp, m_from := r_id (n_raft n),
       m_entries := [Entry\<lparr>e_type := EntryNormal, e_data := data\<rparr>]\<rparr>)) n"

definition propose_conf_change :: "(conf_change \<Rightarrow> bytes) \<Rightarrow> conf_change \<Rightarrow> raw_node \<Rightarrow> (raw_node \<times> status) res" where
  "propose_conf_change ser cc =
     on_raft (step (Message\<lparr>m_type := MsgProp,
       m_entries := [Entry\<lparr>e_type := EntryConfChange, e_data := ser cc\<rparr>]\<rparr>))"

definition node_step :: "message \<Rightarrow> raw_node \<Rightarrow> (raw_node \<times> status) res" where
  "node_step m n =
     (if msg_is_local_msg m then Inr (n, invalid_argument ''raft: cannot step raft local message'')
      else if get_progress (n_raft n) (m_from m) \<noteq> None \<or> \<not> msg_is_response_msg m then on_raft (step m) n
      else Inr (n, invalid_argument ''raft: cannot step as peer not found''))"

definition node_ready :: "raw_node \<Rightarrow> (raw_node \<times> ready) res" where
  "node_ready n =
     rbind (Ready (n_raft n) (n_prev_soft_state n) (n_prev_hard_state n)) (\<lambda>(r, rd).
       Inr (n\<lparr>n_raft := reduce_uncommitted_size (rd_committed_entries rd) (r\<lparr>r_msgs := []\<rparr>)\<rparr>, rd))"

definition has_ready :: "raw_node \<Rightarrow> bool res" where
  "has_ready n =
     (let r = n_raft n; hs = hard_state_of r in
      if \<not> soft_state_equal (soft_state_of r) (n_prev_soft_state n) then Inr True
      else if \<not> hs_is_empty_state hs \<and> \<not> hs_equal hs (n_prev_hard_state n) then Inr True
      else if (case u_snapshot (l_unstable (r_log r)) of None \<Rightarrow> False | Some s \<Rightarrow> \<not> snapshot_is_empty s) then Inr True
      else if r_msgs r \<noteq> [] \<or> u_entries (l_unstable (r_log r)) \<noteq> [] then Inr True
      else rbind (has_next_entries (r_log r)) (\<lambda>b. if b then Inr True else Inr (r_read_states r \<noteq> [])))"

definition node_advance :: "ready \<Rightarrow> raw_node \<Rightarrow> raw_node res" where
  "node_advance rd n =
     (let n1 = (case rd_soft_state rd of None \<Rightarrow> n | Some ss \<Rightarrow> n\<lparr>n_prev_soft_state := ss\<rparr>);
          n2 = (if \<not> hs_is_empty_state (rd_hard_state rd) then n1\<lparr>n_prev_hard_state := rd_hard_state rd\<rparr> else n1);
          l0 = r_log (n_raft n2);
          l1 = (if applied_cursor rd > 0 then applied_to (applied_cursor rd) l0 else l0) in
      rbind (if rd_entries rd \<noteq> []
             then log_stable_to (e_index (last (rd_entries rd))) (e_term (last (rd_entries rd))) l1
             else Inr l1) (\<lambda>l2.
        let l3 = (if \<not> snapshot_is_empty (rd_snapshot rd) then log_stable_snap_to (s_index (rd_snapshot rd)) l2 else l2);
            r = (n_raft n2)\<lparr>r_log := l3\<rparr> in
        Inr (n2\<lparr>n_raft := (if rd_read_states rd \<noteq> [] then r\<lparr>r_read_states := []\<rparr> else r)\<rparr>)))"

definition conf_state_of :: "raft \<Rightarrow> conf_state" where
  "conf_state_of r = \<lparr>cs_nodes = nodes r, cs_learners = learner_nodes r\<rparr>"

definition apply_conf_change :: "conf_change \<Rightarrow> raw_node \<Rightarrow> (raw_node \<times> conf_state) res" where
  "apply_conf_change cc n =
     (if cc_node_id cc = 0 then Inr (n, conf_state_of (n_raft n))
      else
        rbind (if cc_type cc = ConfChangeAddNode then add_node_or_learner (cc_node_id cc) False (n_raft n)
               else if cc_type cc = ConfChangeAddLearnerNode then add_node_or_learner (cc_node_id cc) True (n_raft n)
               else if cc_type cc = ConfChangeRemoveNode then remove_node (cc_node_id cc) (n_raft n)
               else if cc_type cc = ConfChangeUpdateNode then Inr (n_raft n)
               else Inl (Fatal ''unexpected conf type'')) (\<lambda>r.
          Inr (n\<lparr>n_raft := r\<rparr>, conf_state_of r)))"

definition transfer_leadership :: "u64 \<Rightarrow> u64 \<Rightarrow> raw_node \<Rightarrow> raw_node res" where
  "transfer_leadership lead transferee n =
     silent (on_raft (step (Message\<lparr>m_type := MsgTransferLeader, m_from := transferee, m_to := lead\<rparr>)) n)"

definition read_index :: "bytes \<Rightarrow> raw_node \<Rightarrow> (raw_node \<times> status) res" where
  "read_index rctx =
     on_raft (step (Message\<lparr>m_type := MsgReadIndex,
       m_entries := [Entry\<lparr>e_type := MsgReadIndex, e_data := rctx\<rparr>]\<rparr>))"

definition report_unreachable :: "u64 \<Rightarrow> raw_node \<Rightarrow> raw_node res" where
  "report_unreachable i n = silent (on_raft (step (Message\<lparr>m_type := MsgUnreachable, m_from := i\<rparr>)) n)"

definition report_snapshot :: "u64 \<Rightarrow> u8 \<Rightarrow> raw_node \<Rightarrow> raw_node res" where
  "report_snapshot i st n =
     silent (on_raft (step (Message\<lparr>m_type := MsgSnapStatus, m_from := i, m_reject := (st = SnapshotFailure)\<rparr>)) n)"

text \<open>The server's write of the new entries to the stable storage, which node and server share.\<close>

definition persist_entries :: "entry list \<Rightarrow> raw_node \<Rightarrow> raw_node res" where
  "persist_entries es n =
     (if es = [] then Inr n
      else rbind (storage_append es (l_storage (r_log (n_raft n)))) (\<lambda>(st, _).
        Inr (n\<lparr>n_raft := (n_raft n)\<lparr>r_log := (r_log (n_raft n))\<lparr>l_storage := st\<rparr>\<rparr>\<rparr>)))"

section \<open>One round of the ready loop\<close>

definition wf_node :: "raw_node \<Rightarrow> bool" where
  "wf_node n \<longleftrightarrow> wf_raft (n_raft n) \<and> l_applied (r_log (n_raft n)) \<le> l_committed (r_log (n_raft n))"

text \<open>The position up to which the log has been applied; everything up to the base counts as applied.\<close>

definition applied_pos :: "raft_log \<Rightarrow> nat" where
  "applied_pos l = max (unat (l_applied l)) (log_base l)"

text \<open>The entries that are committed and not yet applied.\<close>

definition todo :: "raft_log \<Rightarrow> entry list" where
  "todo l = log_between l (applied_pos l + 1) (unat (l_committed l) + 1)"

lemma applied_pos_le: "wf_log l \<Longrightarrow> l_applied l \<le> l_committed l \<Longrightarrow> applied_pos l \<le> unat (l_committed l)"
  using wf_logD(4) by (simp add: applied_pos_def word_le_nat_alt)

lemma length_todo:
  assumes "wf_log l"
  shows "length (todo l) = unat (l_committed l) - applied_pos l"
  using length_log_between[of l "applied_pos l + 1" "unat (l_committed l) + 1"] wf_logD(5)[OF assms]
  by (simp add: todo_def applied_pos_def)

lemma contig_todo:
  assumes "wf_log l"
  shows "contig (applied_pos l + 1) (todo l)"
proof -
  have "contig (log_base l + 1 + (applied_pos l - log_base l)) (drop (applied_pos l - log_base l) (log_ents l))"
    by (rule contig_drop [OF log_contig [OF wf_logD(1)[OF assms]]])
  then show ?thesis by (simp add: todo_def log_between_def applied_pos_def contig_take)
qed

lemma next_entries_todo:
  assumes "wf_log l" and "l_applied l \<le> l_committed l"
  shows "next_entries l = Inr (entry_limit_size (l_max_next_ents_size l) (todo l))"
    and "has_next_entries l = Inr (applied_pos l < unat (l_committed l))"
proof -
  note w = wf_logD[OF assms(1)]
  show "next_entries l = Inr (entry_limit_size (l_max_next_ents_size l) (todo l))"
    using next_entries_ok[OF assms(1)] assms(2) by (simp add: todo_def applied_pos_def word_le_nat_alt)
  obtain f where f: "log_first_index l = Inr f" "unat f = log_base l + 1"
    using log_first_index_ok[OF w(1)] by auto
  have "unat (l_committed l + 1) = unat (l_committed l) + 1" "unat (l_applied l + 1) = unat (l_applied l) + 1"
    using assms(2) w(5) log_bounded[OF w(1)] by (simp_all add: unat_add_1 word_le_nat_alt)
  then have "l_committed l + 1 > max (l_applied l + 1) f \<longleftrightarrow> applied_pos l < unat (l_committed l)"
    using f(2) unfolding max_less_iff_conj by (auto simp: word_less_nat_alt applied_pos_def)
  then show "has_next_entries l = Inr (applied_pos l < unat (l_committed l))"
    using f(1) by (simp add: has_next_entries_def)
qed

lemma todo_step:
  assumes "wf_log l" and "es = entry_limit_size mx (todo l)" and "es \<noteq> []"
  shows "unat (e_index (last es)) = applied_pos l + length es"
    and "length es \<le> unat (l_committed l) - applied_pos l"
    and "todo (l\<lparr>l_applied := e_index (last es)\<rparr>) = drop (length es) (todo l)"
    and "applied_pos (l\<lparr>l_applied := e_index (last es)\<rparr>) = applied_pos l + length es"
proof -
  have pre: "prefix es (todo l)" by (simp add: assms(2) entry_limit_size_prefix)
  then have "contig (applied_pos l + 1) es"
    using contig_todo[OF assms(1)] by (auto simp: prefix_def contig_append)
  then show last: "unat (e_index (last es)) = applied_pos l + length es"
    using assms(3) contig_index[of "applied_pos l + 1" es "length es - 1"] by (simp add: last_conv_nth)
  show len: "length es \<le> unat (l_committed l) - applied_pos l"
    using prefix_length_le[OF pre] length_todo[OF assms(1)] by simp
  show pos: "applied_pos (l\<lparr>l_applied := e_index (last es)\<rparr>) = applied_pos l + length es"
    using last by (simp add: applied_pos_def)
  show "todo (l\<lparr>l_applied := e_index (last es)\<rparr>) = drop (length es) (todo l)"
  proof -
    have "log_base l \<le> applied_pos l" by (simp add: applied_pos_def)
    then show ?thesis using pos len by (simp add: todo_def log_between_def drop_take add.commute)
  qed
qed

lemma todo_cong:
  assumes "log_base l' = log_base l" and "log_ents l' = log_ents l" and "l_committed l' = l_committed l"
    and "l_applied l' = l_applied l"
  shows "todo l' = todo l" and "applied_pos l' = applied_pos l"
  using assms by (simp_all add: todo_def log_between_def applied_pos_def)

lemma persist_log:
  assumes "wf_log l" and "u_snapshot (l_unstable l) = None"
  defines "es \<equiv> u_entries (l_unstable l)"
  obtains st' l' where "(if es = [] then Inr (l_storage l, Ok) else storage_append es (l_storage l)) = Inr (st', Ok)"
    and "(if es = [] then Inr (l\<lparr>l_storage := st'\<rparr>)
          else log_stable_to (e_index (last es)) (e_term (last es)) (l\<lparr>l_storage := st'\<rparr>)) = Inr l'"
    and "wf_log l'" and "u_entries (l_unstable l') = []" and "u_snapshot (l_unstable l') = None"
    and "log_base l' = log_base l" and "log_ents l' = log_ents l" and "st_ents (l_storage l') = log_ents l"
    and "l_committed l' = l_committed l" and "l_applied l' = l_applied l"
    and "l_max_next_ents_size l' = l_max_next_ents_size l"
proof (cases "es = []")
  case True
  have "wf_log_parts l" by (rule wf_logD(1) [OF assms(1)])
  then have "st_ents (l_storage l) = log_ents l"
    using True assms(2) by (simp add: wf_log_parts_def log_ents_def es_def)
  then show thesis using that[of "l_storage l" l] True assms by simp
next
  case False
  obtain st' l' where p: "storage_append es (l_storage l) = Inr (st', Ok)"
      "log_stable_to (e_index (last es)) (e_term (last es)) (l\<lparr>l_storage := st'\<rparr>) = Inr l'"
      "wf_log l'" "u_entries (l_unstable l') = []" "log_base l' = log_base l" "log_ents l' = log_ents l"
      "st_ents st' = log_ents l" "l_committed l' = l_committed l" "l_applied l' = l_applied l"
    using log_persist_entries[OF assms(1,2)] False by (auto simp: es_def)
  have "l_storage l' = st' \<and> u_snapshot (l_unstable l') = None \<and> l_max_next_ents_size l' = l_max_next_ents_size l"
    using p(2) assms(2) by (auto simp: log_stable_to_def unstable_stable_to_def rbind_Inr_iff Let_def
        split: option.splits if_splits)
  then show thesis using that[of st' l'] p False by simp
qed

lemma wf_raft_relog:
  assumes "wf_raft r" and "wf_log l"
  shows "wf_raft (r\<lparr>r_log := l, r_msgs := ms, r_uncommitted_size := u, r_read_states := rs\<rparr>)"
  using assms by (simp add: wf_raft_def wf_core_def wf_peers_def wf_timer_def timeout_ok_def role_ok_def)

lemma reduce_uncommitted_eq:
  "reduce_uncommitted_size es r = r\<lparr>r_uncommitted_size := r_uncommitted_size (reduce_uncommitted_size es r)\<rparr>"
  by (simp add: reduce_uncommitted_size_def Let_def)

text \<open>What a well-formed node hands out.\<close>

definition ready_of :: "raw_node \<Rightarrow> ready" where
  "ready_of n = (let r = n_raft n; l = r_log r in \<lparr>
      rd_soft_state = (if soft_state_of r = n_prev_soft_state n then None else Some (soft_state_of r)),
      rd_hard_state = (if hard_state_of r = n_prev_hard_state n then HardState else hard_state_of r),
      rd_read_states = r_read_states r, rd_entries = u_entries (l_unstable l),
      rd_snapshot = (case u_snapshot (l_unstable l) of None \<Rightarrow> Snapshot | Some s \<Rightarrow> s),
      rd_committed_entries = entry_limit_size (l_max_next_ents_size l) (todo l), rd_messages = r_msgs r,
      rd_must_sync = is_must_sync (hard_state_of r)
        (if hard_state_of r = n_prev_hard_state n then HardState else hard_state_of r)
        (length (u_entries (l_unstable l)))\<rparr>)"

lemma node_ready_ok:
  assumes "wf_node n"
  shows "\<exists>u. node_ready n = Inr (n\<lparr>n_raft := (n_raft n)\<lparr>r_msgs := [], r_uncommitted_size := u\<rparr>\<rparr>, ready_of n)"
proof -
  let ?r = "n_raft n" and ?es = "rd_committed_entries (ready_of n)"
  have es: "?es = entry_limit_size (l_max_next_ents_size (r_log ?r)) (todo (r_log ?r))"
    by (simp add: ready_of_def Let_def)
  then have "next_entries (r_log ?r) = Inr ?es"
    using next_entries_todo(1)[of "r_log ?r"] assms wf_raftD(1) by (simp add: wf_node_def)
  moreover have "soft_state_equal a b \<longleftrightarrow> a = b" for a b by (cases a; cases b) (simp add: soft_state_equal_def)
  moreover have "soft_state_of (?r\<lparr>r_msgs := []\<rparr>) = soft_state_of ?r" "hard_state_of (?r\<lparr>r_msgs := []\<rparr>) = hard_state_of ?r"
    by (simp_all add: soft_state_of_def hard_state_of_def)
  ultimately have "Ready ?r (n_prev_soft_state n) (n_prev_hard_state n) = Inr (?r\<lparr>r_msgs := []\<rparr>, ready_of n)"
    by (simp add: Ready_def hs_equal_iff Let_def ready_of_def)
  moreover define u where "u = r_uncommitted_size (reduce_uncommitted_size ?es (?r\<lparr>r_msgs := []\<rparr>))"
  moreover have "reduce_uncommitted_size ?es (?r\<lparr>r_msgs := []\<rparr>) = ?r\<lparr>r_msgs := [], r_uncommitted_size := u\<rparr>"
    unfolding u_def by (rule reduce_uncommitted_eq)
  ultimately show ?thesis by (intro exI [of _ u]) (simp add: node_ready_def)
qed

lemma node_advance_ok:
  assumes "rd_snapshot rd = Snapshot" and "wf_node n" and "u_snapshot (l_unstable (r_log (n_raft n))) = None"
    and "rd_committed_entries rd = entry_limit_size mx (todo (r_log (n_raft n)))"
    and "rd_entries rd = u_entries (l_unstable (r_log (n_raft n)))"
  obtains n2 n3 l where "persist_entries (rd_entries rd) n = Inr n2" and "node_advance rd n2 = Inr n3"
    and "n3 = \<lparr>n_raft = (n_raft n)\<lparr>r_log := l, r_read_states := (if rd_read_states rd = [] then r_read_states (n_raft n) else [])\<rparr>,
        n_prev_soft_state = (case rd_soft_state rd of None \<Rightarrow> n_prev_soft_state n | Some ss \<Rightarrow> ss),
        n_prev_hard_state = (if rd_hard_state rd = HardState then n_prev_hard_state n else rd_hard_state rd)\<rparr>"
    and "wf_log l" and "u_entries (l_unstable l) = []" and "u_snapshot (l_unstable l) = None"
    and "log_base l = log_base (r_log (n_raft n))" and "log_ents l = log_ents (r_log (n_raft n))"
    and "st_ents (l_storage l) = log_ents l" and "l_committed l = l_committed (r_log (n_raft n))"
    and "l_applied l \<le> l_committed l" and "l_max_next_ents_size l = l_max_next_ents_size (r_log (n_raft n))"
    and "applied_pos l = applied_pos (r_log (n_raft n)) + length (rd_committed_entries rd)"
    and "todo l = drop (length (rd_committed_entries rd)) (todo (r_log (n_raft n)))"
proof -
  let ?l = "r_log (n_raft n)" and ?es = "rd_committed_entries rd" and ?ue = "rd_entries rd"
  have wl: "wf_log ?l" "l_applied ?l \<le> l_committed ?l"
    using assms(2) wf_raftD(1) by (simp_all add: wf_node_def)
  define la where "la = (if ?es = [] then ?l else ?l\<lparr>l_applied := e_index (last ?es)\<rparr>)"
  have la: "wf_log la" "applied_pos la = applied_pos ?l + length ?es" "todo la = drop (length ?es) (todo ?l)"
      "l_committed la = l_committed ?l" "l_applied la \<le> l_committed la" "l_storage la = l_storage ?l"
      "l_unstable la = l_unstable ?l" "log_base la = log_base ?l" "log_ents la = log_ents ?l"
      "l_max_next_ents_size la = l_max_next_ents_size ?l"
    using wl todo_step[OF wl(1) assms(4)] applied_pos_le[OF wl] by (auto simp: la_def word_le_nat_alt)
  have pos: "applied_cursor rd = (if ?es = [] then 0 else e_index (last ?es))"
    using assms(1) by (simp add: applied_cursor_def Snapshot_def Let_def)
  have "?es \<noteq> [] \<Longrightarrow> e_index (last ?es) > 0"
    using todo_step(1)[OF wl(1) assms(4)] by (cases ?es) (auto simp: word_less_nat_alt)
  then have ap: "(if applied_cursor rd > 0 then applied_to (applied_cursor rd) x else x)
      = (if ?es = [] then x else x\<lparr>l_applied := e_index (last ?es)\<rparr>)" for x
    using pos by (auto simp: applied_to_def)
  obtain st' l' where p: "(if ?ue = [] then Inr (l_storage la, Ok) else storage_append ?ue (l_storage la)) = Inr (st', Ok)"
      "(if ?ue = [] then Inr (la\<lparr>l_storage := st'\<rparr>)
        else log_stable_to (e_index (last ?ue)) (e_term (last ?ue)) (la\<lparr>l_storage := st'\<rparr>)) = Inr l'"
      "wf_log l'" "u_entries (l_unstable l') = []" "u_snapshot (l_unstable l') = None"
      "log_base l' = log_base la" "log_ents l' = log_ents la" "st_ents (l_storage l') = log_ents la"
      "l_committed l' = l_committed la" "l_applied l' = l_applied la"
      "l_max_next_ents_size l' = l_max_next_ents_size la"
    using persist_log[OF la(1)] assms(3,5) la(7) by metis
  let ?n2 = "n\<lparr>n_raft := (n_raft n)\<lparr>r_log := ?l\<lparr>l_storage := st'\<rparr>\<rparr>\<rparr>"
  have per: "persist_entries ?ue n = Inr ?n2"
    using p(1) la(6) by (auto simp: persist_entries_def split: if_splits)
  have lst: "(if ?es = [] then ?l\<lparr>l_storage := st'\<rparr> else ?l\<lparr>l_storage := st'\<rparr>\<lparr>l_applied := e_index (last ?es)\<rparr>)
      = la\<lparr>l_storage := st'\<rparr>" by (simp add: la_def)
  have adv: "node_advance rd ?n2 = Inr \<lparr>n_raft = (n_raft n)\<lparr>r_log := l', r_read_states := (if rd_read_states rd = [] then r_read_states (n_raft n) else [])\<rparr>,
        n_prev_soft_state = (case rd_soft_state rd of None \<Rightarrow> n_prev_soft_state n | Some ss \<Rightarrow> ss),
        n_prev_hard_state = (if rd_hard_state rd = HardState then n_prev_hard_state n else rd_hard_state rd)\<rparr>"
    using p(2) assms(1) lst
    by (cases n; cases "rd_soft_state rd") (auto simp: node_advance_def Let_def ap hs_is_empty_iff snapshot_is_empty_def Snapshot_def)
  show thesis
  proof (rule that [OF per adv refl p(3-5)])
    show "st_ents (l_storage l') = log_ents l'" by (simp add: p(7,8))
    show "applied_pos l' = applied_pos ?l + length ?es" by (simp add: todo_cong(2) [OF p(6,7,9,10)] la(2))
    show "todo l' = drop (length ?es) (todo ?l)" by (simp add: todo_cong(1) [OF p(6,7,9,10)] la(3))
    show "l_applied l' \<le> l_committed l'" using la(5) by (simp add: p(9,10))
  qed (simp_all only: p(6-11) la(4,8-10))
qed

lemma has_ready_ok:
  assumes "wf_node n" and "u_snapshot (l_unstable (r_log (n_raft n))) = None"
  shows "has_ready n = Inr (soft_state_of (n_raft n) \<noteq> n_prev_soft_state n
     \<or> (hard_state_of (n_raft n) \<noteq> HardState \<and> hard_state_of (n_raft n) \<noteq> n_prev_hard_state n)
     \<or> r_msgs (n_raft n) \<noteq> [] \<or> u_entries (l_unstable (r_log (n_raft n))) \<noteq> []
     \<or> applied_pos (r_log (n_raft n)) < unat (l_committed (r_log (n_raft n))) \<or> r_read_states (n_raft n) \<noteq> [])"
proof -
  have "soft_state_equal a b \<longleftrightarrow> a = b" for a b by (cases a; cases b) (simp add: soft_state_equal_def)
  moreover have "has_next_entries (r_log (n_raft n)) = Inr (applied_pos (r_log (n_raft n)) < unat (l_committed (r_log (n_raft n))))"
    using next_entries_todo(2)[of "r_log (n_raft n)"] assms(1) wf_raftD(1) by (simp add: wf_node_def)
  ultimately show ?thesis using assms(2) by (auto simp: has_ready_def Let_def hs_equal_iff hs_is_empty_iff)
qed

text \<open>
  One round: what is collected, persisted and reported back. The log is the same afterwards, all of
  it stable; the queues are empty; the apply position has moved over exactly the entries handed out.
\<close>

text \<open>What a round does not touch: the role of the node, its term and its view of the others.\<close>

definition same_office :: "raft \<Rightarrow> raft \<Rightarrow> bool" where
  "same_office r r' \<longleftrightarrow> r_state r' = r_state r \<and> r_id r' = r_id r \<and> r_term r' = r_term r \<and> r_prs r' = r_prs r
     \<and> r_learner_prs r' = r_learner_prs r \<and> r_lead_transferee r' = r_lead_transferee r
     \<and> log_base (r_log r') = log_base (r_log r)"

lemma same_office_refl [simp]: "same_office r r"
  by (simp add: same_office_def)

lemma same_office_trans: "same_office r s \<Longrightarrow> same_office s t \<Longrightarrow> same_office r t"
  by (simp add: same_office_def)

lemma round_ok:
  assumes "wf_node n" and "u_snapshot (l_unstable (r_log (n_raft n))) = None"
  defines "l \<equiv> r_log (n_raft n)" and "rd \<equiv> ready_of n"
  obtains n1 n2 n3 where "node_ready n = Inr (n1, rd)" and "persist_entries (rd_entries rd) n1 = Inr n2"
    and "node_advance rd n2 = Inr n3"
    and "wf_node n3" and "u_snapshot (l_unstable (r_log (n_raft n3))) = None"
    and "log_base (r_log (n_raft n3)) = log_base l" and "log_ents (r_log (n_raft n3)) = log_ents l"
    and "st_ents (l_storage (r_log (n_raft n3))) = log_ents l" and "hard_state_of (n_raft n3) = hard_state_of (n_raft n)"
    and "l_max_next_ents_size (r_log (n_raft n3)) = l_max_next_ents_size l"
    and "applied_pos (r_log (n_raft n3)) = applied_pos l + length (rd_committed_entries rd)"
    and "todo (r_log (n_raft n3)) = drop (length (rd_committed_entries rd)) (todo l)"
    and "has_ready n3 = Inr (applied_pos (r_log (n_raft n3)) < unat (l_committed l))" and "same_office (n_raft n) (n_raft n3)"
proof -
  obtain u where rd: "node_ready n = Inr (n\<lparr>n_raft := (n_raft n)\<lparr>r_msgs := [], r_uncommitted_size := u\<rparr>\<rparr>, rd)"
    using node_ready_ok[OF assms(1)] rd_def by auto
  define n1 where "n1 = n\<lparr>n_raft := (n_raft n)\<lparr>r_msgs := [], r_uncommitted_size := u\<rparr>\<rparr>"
  have w1: "wf_node n1" "r_log (n_raft n1) = l"
    using assms(1) wf_raft_relog[of "n_raft n" "r_log (n_raft n)" "r_read_states (n_raft n)" u "[]"] wf_raftD(1)
    by (simp_all add: wf_node_def n1_def l_def)
  have rds: "rd_snapshot rd = Snapshot" "rd_entries rd = u_entries (l_unstable l)"
      "rd_committed_entries rd = entry_limit_size (l_max_next_ents_size l) (todo l)"
    using assms(2) by (simp_all add: rd_def ready_of_def Let_def l_def)
  obtain n2 n3 l' where n: "persist_entries (rd_entries rd) n1 = Inr n2" "node_advance rd n2 = Inr n3"
    "n3 = \<lparr>n_raft = (n_raft n1)\<lparr>r_log := l', r_read_states := (if rd_read_states rd = [] then r_read_states (n_raft n1) else [])\<rparr>,
        n_prev_soft_state = (case rd_soft_state rd of None \<Rightarrow> n_prev_soft_state n1 | Some ss \<Rightarrow> ss),
        n_prev_hard_state = (if rd_hard_state rd = HardState then n_prev_hard_state n1 else rd_hard_state rd)\<rparr>"
    "wf_log l'" "u_entries (l_unstable l') = []" "u_snapshot (l_unstable l') = None" "log_base l' = log_base l"
    "log_ents l' = log_ents l" "st_ents (l_storage l') = log_ents l'" "l_committed l' = l_committed l"
    "l_applied l' \<le> l_committed l'" "l_max_next_ents_size l' = l_max_next_ents_size l"
    "applied_pos l' = applied_pos l + length (rd_committed_entries rd)"
    "todo l' = drop (length (rd_committed_entries rd)) (todo l)"
    using node_advance_ok[OF rds(1) w1(1), unfolded w1(2), OF _ rds(3,2)] assms(2) l_def by metis
  have l3: "r_log (n_raft n3) = l'" using n(3) by simp
  define rs where "rs = r_read_states (n_raft n3)"
  have n3: "n_raft n3 = (n_raft n)\<lparr>r_log := l', r_msgs := [], r_uncommitted_size := u, r_read_states := rs\<rparr>"
    by (rule raft.equality) (simp_all add: n(3) n1_def rs_def)
  then have off: "same_office (n_raft n) (n_raft n3)" using n(7) by (simp add: same_office_def l_def)
  from n3 have w3: "wf_node n3"
    using wf_raft_relog[of "n_raft n" l' rs u "[]"] n(4,11) assms(1) by (simp add: wf_node_def l3)
  have hs: "hard_state_of (n_raft n3) = hard_state_of (n_raft n)" "soft_state_of (n_raft n3) = soft_state_of (n_raft n)"
    using n(3,10) by (simp_all add: hard_state_of_def soft_state_of_def l_def n1_def)
  have pr: "n_prev_soft_state n3 = soft_state_of (n_raft n)" "r_msgs (n_raft n3) = []" "r_read_states (n_raft n3) = []"
      "n_prev_hard_state n3 = (if hard_state_of (n_raft n) = HardState then n_prev_hard_state n3 else hard_state_of (n_raft n))"
    using n(3) by (simp_all add: n1_def rd_def ready_of_def Let_def)
  have "has_ready n3 = Inr (applied_pos l' < unat (l_committed l))"
    using has_ready_ok[OF w3] n(5,6,10) hs pr by (auto simp: l3)
  then show thesis
    using that[OF rd [folded n1_def] n(1,2) w3] n(6-8,12-14) hs(1) n(9) off by (simp add: l3)
qed

section \<open>Properties\<close>

definition sample_busy :: raw_node where
  "sample_busy = \<lparr>n_raft = after proposal sample_leader, n_prev_soft_state = soft_state_of sample_raft,
     n_prev_hard_state = HardState\<rparr>"

lemma wf_sample_busy: "wf_node sample_busy"
proof -
  have "raft_run sample_leader (after proposal sample_leader)"
    by (rule after_run(1) [OF idle sample_proposal(1-3)])
  then have "wf_raft (n_raft sample_busy)"
    using raft_run_wf wf_sample_leader by (simp add: sample_busy_def)
  moreover have "l_applied (r_log (n_raft sample_busy)) \<le> l_committed (r_log (n_raft sample_busy))" by code_simp
  ultimately show ?thesis by (simp add: wf_node_def)
qed

text \<open>
  C10: One round of the server's loop. On a well-formed node without a pending snapshot, collecting a
  ready, writing its entries to the stable storage and advancing never faults. The ready carries the
  unstable entries, the queued messages, and the committed entries not yet applied as far as the
  size limit allows, at least one if there is one. Afterwards the log is unchanged and entirely
  stable, the apply position has moved over exactly the entries handed out, the node is well
  formed, and it is ready again only if committed entries are left over.
\<close>

theorem ready_round:
  assumes "wf_node n" and "u_snapshot (l_unstable (r_log (n_raft n))) = None"
  shows "\<exists>n1 rd n2 n3. node_ready n = Inr (n1, rd) \<and> persist_entries (rd_entries rd) n1 = Inr n2
     \<and> node_advance rd n2 = Inr n3 \<and> wf_node n3
     \<and> rd_entries rd = u_entries (l_unstable (r_log (n_raft n))) \<and> rd_messages rd = r_msgs (n_raft n)
     \<and> prefix (rd_committed_entries rd) (todo (r_log (n_raft n)))
     \<and> (rd_committed_entries rd = [] \<longleftrightarrow> todo (r_log (n_raft n)) = [])
     \<and> log_ents (r_log (n_raft n3)) = log_ents (r_log (n_raft n))
     \<and> st_ents (l_storage (r_log (n_raft n3))) = log_ents (r_log (n_raft n))
     \<and> hard_state_of (n_raft n3) = hard_state_of (n_raft n)
     \<and> todo (r_log (n_raft n)) = rd_committed_entries rd @ todo (r_log (n_raft n3))
     \<and> has_ready n3 = Inr (todo (r_log (n_raft n3)) \<noteq> [])"
proof -
  let ?l = "r_log (n_raft n)" and ?rd = "ready_of n"
  obtain n1 n2 n3 where n: "node_ready n = Inr (n1, ?rd)" "persist_entries (rd_entries ?rd) n1 = Inr n2"
      "node_advance ?rd n2 = Inr n3" "wf_node n3" "log_ents (r_log (n_raft n3)) = log_ents ?l"
      "st_ents (l_storage (r_log (n_raft n3))) = log_ents ?l" "hard_state_of (n_raft n3) = hard_state_of (n_raft n)"
      "todo (r_log (n_raft n3)) = drop (length (rd_committed_entries ?rd)) (todo ?l)"
      "has_ready n3 = Inr (applied_pos (r_log (n_raft n3)) < unat (l_committed ?l))"
    using round_ok[OF assms] by metis
  have es: "rd_committed_entries ?rd = entry_limit_size (l_max_next_ents_size ?l) (todo ?l)"
    by (simp add: ready_of_def Let_def)
  then have pre: "prefix (rd_committed_entries ?rd) (todo ?l)" by (simp add: entry_limit_size_prefix)
  have "l_committed (r_log (n_raft n3)) = l_committed ?l" using n(7) by (simp add: hard_state_of_def)
  then have more: "todo (r_log (n_raft n3)) \<noteq> [] \<longleftrightarrow> applied_pos (r_log (n_raft n3)) < unat (l_committed ?l)"
    using length_todo[of "r_log (n_raft n3)"] n(4) wf_raftD(1) by (auto simp: wf_node_def simp flip: length_0_conv)
  show ?thesis
  proof (intro exI conjI)
    show "node_ready n = Inr (n1, ?rd)" by (rule n(1))
    show "todo ?l = rd_committed_entries ?rd @ todo (r_log (n_raft n3))"
      using pre n(8) by (auto simp: prefix_def)
    show "rd_committed_entries ?rd = [] \<longleftrightarrow> todo ?l = []" by (simp add: es)
    show "rd_entries ?rd = u_entries (l_unstable ?l)" "rd_messages ?rd = r_msgs (n_raft n)"
      by (simp_all add: ready_of_def Let_def)
    show "has_ready n3 = Inr (todo (r_log (n_raft n3)) \<noteq> [])" by (simp only: n(9) more)
  qed (rule n pre)+
qed

theorem ready_round_witness:
  "\<exists>n1 rd n2 n3. node_ready sample_busy = Inr (n1, rd) \<and> persist_entries (rd_entries rd) n1 = Inr n2
     \<and> node_advance rd n2 = Inr n3 \<and> length (rd_entries rd) = 2
     \<and> length (st_ents (l_storage (r_log (n_raft n3)))) = 2"
proof -
  have "u_snapshot (l_unstable (r_log (n_raft sample_busy))) = None"
    "length (u_entries (l_unstable (r_log (n_raft sample_busy)))) = 2
     \<and> length (log_ents (r_log (n_raft sample_busy))) = 2" by (code_simp, code_simp)
  then show ?thesis using ready_round[OF wf_sample_busy] by auto
qed

text \<open>
  The value of \<open>must_sync\<close>. It is documented to say whether the hard state and the entries must be
  written synchronously. The constructor compares the new hard state with the member it has just
  assigned it to, not with the previous one: besides when there are new entries, the flag is set when
  the hard state is as before and has a term or a vote, and not when the term or the vote has changed.
\<close>

lemma must_sync_value:
  assumes "node_ready n = Inr (n1, rd)"
  shows "rd_must_sync rd \<longleftrightarrow> rd_entries rd \<noteq> [] \<or> (hard_state_of (n_raft n) = n_prev_hard_state n
     \<and> (r_term (n_raft n) \<noteq> 0 \<or> r_vote (n_raft n) \<noteq> 0))"
proof -
  have "hard_state_of ((n_raft n)\<lparr>r_msgs := []\<rparr>) = hard_state_of (n_raft n)" by (simp add: hard_state_of_def)
  then have "rd_must_sync rd = is_must_sync (hard_state_of (n_raft n))
      (if hard_state_of (n_raft n) = n_prev_hard_state n then HardState else hard_state_of (n_raft n)) (length (rd_entries rd))"
    using assms by (auto simp: node_ready_def Ready_def Let_def rbind_Inr_iff hs_equal_iff)
  then show ?thesis by (auto simp: is_must_sync_def HardState_def hard_state_of_def)
qed

section \<open>Membership changes\<close>

definition voters :: "raft \<Rightarrow> u64 set" where
  "voters r = fst ` set (r_prs r)"

definition learners :: "raft \<Rightarrow> u64 set" where
  "learners r = fst ` set (r_learner_prs r)"

lemma keys_dom: "voters r = dom (map_of (r_prs r))" "learners r = dom (map_of (r_learner_prs r))"
  by (simp_all add: voters_def learners_def dom_map_of_conv_image_fst)

lemma keys_alist:
  "dom (map_of (AList.update i p xs)) = insert i (dom (map_of xs))"
  "dom (map_of (AList.delete i xs)) = dom (map_of xs) - {i}"
  by (simp_all add: update_conv' delete_conv')

lemma keys_put_progress [simp]:
  "voters (put_progress i p r) = voters r" "learners (put_progress i p r) = learners r"
  by (auto simp: put_progress_def keys_dom keys_alist)

lemma keys_flag [simp]: "voters (r\<lparr>r_is_learner := b\<rparr>) = voters r" "learners (r\<lparr>r_is_learner := b\<rparr>) = learners r"
  by (simp_all add: keys_dom)

lemma get_progress_keys: "get_progress r i = None \<longleftrightarrow> i \<notin> voters r \<and> i \<notin> learners r"
  by (auto simp: get_progress_def keys_dom split: option.splits)

lemma set_progress_keys:
  assumes "set_progress i m nx b r = Inr r'" and "i \<notin> voters r" and "i \<notin> learners r"
  shows "voters r' = (if b then voters r else insert i (voters r))"
    and "learners r' = (if b then insert i (learners r) else learners r)"
  using assms by (auto simp: set_progress_def Let_def keys_dom update_conv' delete_conv' split: if_splits)

lemma learner_of_wf:
  assumes "wf_peers r" and "get_progress r i = Some pr"
  shows "pr_is_learner pr \<longleftrightarrow> i \<in> learners r" and "pr_is_learner pr \<longleftrightarrow> i \<notin> voters r"
proof -
  have "pr_is_learner pr = (map_of (r_prs r) i = None)"
    using assms by (auto simp: get_progress_def wf_peers_def peers_ok_def dest!: map_of_SomeD split: option.splits)
  then show "pr_is_learner pr \<longleftrightarrow> i \<notin> voters r" by (simp add: voters_def map_of_eq_None_iff)
  moreover have "i \<in> voters r \<or> i \<in> learners r" using assms(2) get_progress_keys[of r i] by auto
  moreover have "voters r \<inter> learners r = {}" using assms(1) by (simp add: wf_peers_def voters_def learners_def)
  ultimately show "pr_is_learner pr \<longleftrightarrow> i \<in> learners r" by blast
qed

lemma add_node_keys:
  assumes "add_node_or_learner i b r = Inr r'" and "wf_peers r"
  shows "voters r' = (if b then voters r else insert i (voters r))"
    and "learners r' = (if b then (if i \<in> voters r then learners r else insert i (learners r)) else learners r - {i})"
proof -
  define mark where "mark = (\<lambda>r. let r1 = (if r_id r = i then r\<lparr>r_is_learner := b\<rparr> else r) in
      rbind (deref (get_progress r1 i)) (\<lambda>p. Inr (put_progress i (p\<lparr>pr_recent_active := True\<rparr>) r1)))"
  have mark: "voters r' = voters s \<and> learners r' = learners s" if "mark s = Inr r'" for s
    using that by (auto simp: mark_def Let_def rbind_Inr_iff split: if_splits)
  have "voters r' = (if b then voters r else insert i (voters r))
    \<and> learners r' = (if b then (if i \<in> voters r then learners r else insert i (learners r)) else learners r - {i})"
  proof (cases "get_progress r i")
    case None
    then have "rbind (log_last_index (r_log r)) (\<lambda>lst. rbind (set_progress i 0 (lst + 1) b r) mark) = Inr r'"
      using assms(1) by (simp add: add_node_or_learner_def mark_def Let_def)
    then obtain lst s where s: "set_progress i 0 (lst + 1) b r = Inr s" "mark s = Inr r'"
      by (auto elim!: rbind_InrE)
    then show ?thesis using mark set_progress_keys[OF s(1)] None get_progress_keys[of r i] by auto
  next
    case (Some pr)
    let ?s = "r\<lparr>r_learner_prs := AList.delete i (r_learner_prs r),
        r_prs := AList.update i (pr\<lparr>pr_is_learner := False\<rparr>) (r_prs r)\<rparr>"
    have k: "voters ?s = insert i (voters r)" "learners ?s = learners r - {i}"
      by (simp_all add: keys_dom keys_alist)
    have "r' = r \<and> (b \<or> \<not> pr_is_learner pr) \<or> (\<not> b \<and> pr_is_learner pr \<and> mark ?s = Inr r')"
      using assms(1) Some unfolding add_node_or_learner_def mark_def [symmetric] Let_def
      by (auto simp: mark_def Let_def split: if_splits)
    then show ?thesis using mark[of ?s] k learner_of_wf[OF assms(2) Some] by auto
  qed
  then show "voters r' = (if b then voters r else insert i (voters r))"
    "learners r' = (if b then (if i \<in> voters r then learners r else insert i (learners r)) else learners r - {i})"
    by blast+
qed

lemma remove_node_keys:
  assumes "remove_node i r = Inr r'" and "wf_raft r"
  shows "voters r' = voters r - {i}" and "learners r' = learners r - {i}"
proof -
  let ?r1 = "del_progress i r"
  have k: "voters ?r1 = voters r - {i}" "learners ?r1 = learners r - {i}"
    by (simp_all add: del_progress_def keys_dom keys_alist)
  have w: "wf_log (r_log ?r1)" using wf_raftD(1)[OF assms(2)] by (simp add: del_progress_def)
  consider (none) "r' = ?r1" | (commit) r2 c r3 where "maybe_commit ?r1 = Inr (r2, c)"
      "(if c then bcast_append r2 else Inr r2) = Inr r3"
      "r' = (if r_state r3 = Leader \<and> r_lead_transferee r3 = i then abort_leader_transfer r3 else r3)"
  proof (cases "r_prs ?r1 = [] \<and> r_learner_prs ?r1 = []")
    case True
    then show thesis using assms(1) that(1) by (simp add: remove_node_def Let_def)
  next
    case False
    then show thesis using assms(1) that(2) unfolding remove_node_def Let_def by (auto elim!: rbind_InrE)
  qed
  then have "voters r' = voters r - {i} \<and> learners r' = learners r - {i}"
  proof cases
    case none
    then show ?thesis using k by simp
  next
    case (commit r2 c r3)
    obtain buf l where r2: "r2 = ?r1\<lparr>r_match_buf := buf, r_log := l\<rparr>" "wf_log l"
      using maybe_commit_cases[OF commit(1) w] by metis
    have "voters r3 = voters r2 \<and> learners r3 = learners r2"
    proof (cases c)
      case True
      then have "sends r2 r3" using commit(2) r2 by (intro bcast_append_sends) simp_all
      from sends_frame(15,16)[OF this, THEN arg_cong [where f = set]]
      show ?thesis by (simp add: voters_def learners_def)
    qed (use commit(2) in simp)
    moreover have "voters r2 = voters ?r1" "learners r2 = learners ?r1" using r2 by (simp_all add: keys_dom)
    moreover have "voters r' = voters r3" "learners r' = learners r3"
      using commit(3) by (simp_all add: keys_dom abort_leader_transfer_def)
    ultimately show ?thesis using k by simp
  qed
  then show "voters r' = voters r - {i}" "learners r' = learners r - {i}" by blast+
qed

lemma set_nodes: "set (nodes r) = voters r" "set (learner_nodes r) = learners r"
  by (simp_all add: nodes_def learner_nodes_def voters_def learners_def)

text \<open>
  C31: Applying a configuration change. Whatever the change, the configuration returned lists the
  voters and the learners sorted and without duplicates, and no node is in both. Adding a node makes
  it a voter, promoting it if it was a learner; adding a learner changes nothing for a voter;
  removing takes the node out of both; an update or the node id 0 changes nothing.
\<close>

theorem conf_change_membership:
  assumes "wf_raft (n_raft n)" and "apply_conf_change cc n = Inr (n', cs)"
  defines "i \<equiv> cc_node_id cc" and "V \<equiv> voters (n_raft n)" and "L \<equiv> learners (n_raft n)"
  shows "set (cs_nodes cs) = (if i = 0 then V else if cc_type cc = ConfChangeAddNode then insert i V
       else if cc_type cc = ConfChangeRemoveNode then V - {i} else V)
     \<and> set (cs_learners cs) = (if i = 0 then L else if cc_type cc = ConfChangeAddNode then L - {i}
       else if cc_type cc = ConfChangeAddLearnerNode then (if i \<in> V then L else insert i L)
       else if cc_type cc = ConfChangeRemoveNode then L - {i} else L)
     \<and> set (cs_nodes cs) \<inter> set (cs_learners cs) = {}
     \<and> sorted (cs_nodes cs) \<and> sorted (cs_learners cs) \<and> distinct (cs_nodes cs) \<and> distinct (cs_learners cs)
     \<and> voters (n_raft n') = set (cs_nodes cs) \<and> learners (n_raft n') = set (cs_learners cs)"
proof -
  let ?r = "n_raft n" and ?r' = "n_raft n'"
  have cs: "cs = conf_state_of ?r'"
    using assms(2) by (auto simp: apply_conf_change_def rbind_Inr_iff split: if_splits)
  have c: "(i = 0 \<and> ?r' = ?r) \<or> (i \<noteq> 0 \<and> cc_type cc = ConfChangeAddNode \<and> add_node_or_learner i False ?r = Inr ?r')
      \<or> (i \<noteq> 0 \<and> cc_type cc = ConfChangeAddLearnerNode \<and> add_node_or_learner i True ?r = Inr ?r')
      \<or> (i \<noteq> 0 \<and> cc_type cc = ConfChangeRemoveNode \<and> remove_node i ?r = Inr ?r')
      \<or> (i \<noteq> 0 \<and> cc_type cc = ConfChangeUpdateNode \<and> ?r' = ?r)"
    using assms(2) by (auto simp: apply_conf_change_def rbind_Inr_iff i_def split: if_splits)
  then have "wf_raft ?r'"
    using assms(1) by (elim disjE) (auto intro: advances_wf add_node_or_learner_advances remove_node_advances)
  then have p: "wf_peers ?r'" by (rule wf_raftD(2))
  have keys: "voters ?r' = (if i = 0 then V else if cc_type cc = ConfChangeAddNode then insert i V
       else if cc_type cc = ConfChangeRemoveNode then V - {i} else V)"
    "learners ?r' = (if i = 0 then L else if cc_type cc = ConfChangeAddNode then L - {i}
       else if cc_type cc = ConfChangeAddLearnerNode then (if i \<in> V then L else insert i L)
       else if cc_type cc = ConfChangeRemoveNode then L - {i} else L)"
    using c by (elim disjE conjE; simp add: V_def L_def add_node_keys [OF _ wf_raftD(2) [OF assms(1)]]
        remove_node_keys [OF _ assms(1)])+
  have s: "set (cs_nodes cs) = voters ?r'" "set (cs_learners cs) = learners ?r'"
      "sorted (cs_nodes cs)" "sorted (cs_learners cs)"
    by (simp_all add: cs conf_state_of_def set_nodes) (simp_all add: nodes_def learner_nodes_def)
  moreover have "distinct (cs_nodes cs)" "distinct (cs_learners cs)"
    using p by (simp_all add: cs conf_state_of_def nodes_def learner_nodes_def wf_peers_def peers_ok_def)
  moreover have "voters ?r' \<inter> learners ?r' = {}"
    using p by (simp add: wf_peers_def voters_def learners_def)
  ultimately show ?thesis unfolding keys [symmetric] by blast
qed

text \<open>Adding node 4 to the sample cluster.\<close>

definition sample_change :: conf_change where
  "sample_change = \<lparr>cc_id = 0, cc_type = ConfChangeAddNode, cc_node_id = 4, cc_context = []\<rparr>"

theorem conf_change_membership_witness:
  "4 \<in> set (cs_nodes (snd (projr (apply_conf_change sample_change sample_busy))))"
proof -
  have "\<not> isl (apply_conf_change sample_change sample_busy)" by code_simp
  then obtain n' cs where "apply_conf_change sample_change sample_busy = Inr (n', cs)"
    by (cases "apply_conf_change sample_change sample_busy") auto
  then show ?thesis using conf_change_membership[of sample_busy sample_change n' cs] wf_sample_busy
    by (simp add: wf_node_def sample_change_def)
qed

end
