(* ===== verification/Raft_Bytes.thy ===== *)
theory Raft_Bytes
  imports Raft_Proto "HOL-Library.Char_ord" "HOL-Library.List_Lexorder"
begin

text \<open>
  Bytes, file names and directories for the components that write to disk or to a socket: the byte
  images of integers, the hexadecimal numbers in the names of log and snapshot files with the
  standard library's formatting and extraction, a directory as a map from names to contents, and the
  msgpack functions of the sources as the parameters they are.
\<close>

section \<open>Byte images of integers\<close>

text \<open>
  The \<open>k\<close> low bytes of a number, least significant first: the memory image of an integer that
  \<open>memcpy\<close> moves on the little-endian machines the code targets.
\<close>

fun bytes_le :: "nat \<Rightarrow> nat \<Rightarrow> bytes" where
  "bytes_le 0 n = []"
| "bytes_le (Suc k) n = of_nat (n mod 256) # bytes_le k (n div 256)"

fun nat_le :: "bytes \<Rightarrow> nat" where
  "nat_le [] = 0"
| "nat_le (b # bs) = unat b + 256 * nat_le bs"

definition u32_image :: "u32 \<Rightarrow> bytes" where
  "u32_image w = bytes_le 4 (unat w)"

definition u32_of_image :: "bytes \<Rightarrow> u32" where
  "u32_of_image bs = of_nat (nat_le bs)"

definition u64_image :: "u64 \<Rightarrow> bytes" where
  "u64_image w = bytes_le 8 (unat w)"

definition u64_of_image :: "bytes \<Rightarrow> u64" where
  "u64_of_image bs = of_nat (nat_le bs)"

text \<open>\<open>htonl\<close> as bytes on the wire: most significant first.\<close>

definition u32_net :: "u32 \<Rightarrow> bytes" where
  "u32_net w = rev (u32_image w)"

definition u32_of_net :: "bytes \<Rightarrow> u32" where
  "u32_of_net bs = u32_of_image (rev bs)"

lemma length_bytes_le [simp]: "length (bytes_le k n) = k"
  by (induction k arbitrary: n) simp_all

lemma nat_le_bytes: "nat_le (bytes_le k n) = n mod 256 ^ k"
proof (induction k arbitrary: n)
  case (Suc k)
  have "unat (of_nat (n mod 256) :: u8) = n mod 256"
    by (simp add: unat_of_nat take_bit_eq_mod)
  then show ?case using Suc by (simp add: mod_mult2_eq)
qed simp

lemma length_u32_image [simp]: "length (u32_image w) = 4" "length (u32_net w) = 4"
  by (simp_all add: u32_image_def u32_net_def)

lemma u32_image_inverse [simp]: "u32_of_image (u32_image w) = w" "u32_of_net (u32_net w) = w"
proof -
  have "unat w < 256 ^ 4" using unat_u32_bound[of w] by simp
  then have "nat_le (bytes_le 4 (unat w)) = unat w" by (simp add: nat_le_bytes)
  then show "u32_of_image (u32_image w) = w" "u32_of_net (u32_net w) = w"
    by (simp_all add: u32_of_image_def u32_image_def u32_of_net_def u32_net_def)
qed

lemma length_u64_image [simp]: "length (u64_image w) = 8"
  by (simp add: u64_image_def)

lemma u64_image_inverse [simp]: "u64_of_image (u64_image w) = w"
proof -
  have "unat w < 256 ^ 8" using unat_u64_bound[of w] by simp
  then show ?thesis by (simp add: u64_of_image_def u64_image_def nat_le_bytes)
qed

section \<open>Hexadecimal numbers\<close>

definition hex_char :: "nat \<Rightarrow> char" where
  "hex_char n = char_of (if n < 10 then 48 + n else 87 + n)"

definition hex_val :: "char \<Rightarrow> nat option" where
  "hex_val c = (let v = of_char c in
     if 48 \<le> v \<and> v \<le> 57 then Some (v - 48)
     else if 97 \<le> v \<and> v \<le> 102 then Some (v - 87)
     else if 65 \<le> v \<and> v \<le> 70 then Some (v - 55) else None)"

text \<open>\<open>"%016" PRIx64\<close>: sixteen digits, padded with zeros.\<close>

fun hex_pad :: "nat \<Rightarrow> nat \<Rightarrow> string" where
  "hex_pad 0 n = []"
| "hex_pad (Suc k) n = hex_pad k (n div 16) @ [hex_char (n mod 16)]"

fun hex_nat :: "nat \<Rightarrow> string \<Rightarrow> nat" where
  "hex_nat acc [] = acc"
| "hex_nat acc (c # cs) = hex_nat (16 * acc + the (hex_val c)) cs"

definition is_space :: "char \<Rightarrow> bool" where
  "is_space c \<longleftrightarrow> (let v = (of_char c :: nat) in v = 32 \<or> (9 \<le> v \<and> v \<le> 13))"

text \<open>
  Extraction of an unsigned number from a stream in base sixteen: blanks are skipped, a sign and
  the prefix \<open>0x\<close> are accepted, the longest run of digits is read; no digit gives 0, overflow the
  largest value, and a minus sign negates modulo the width.
\<close>

definition read_hex :: "string \<Rightarrow> u64" where
  "read_hex s =
     (let s1 = dropWhile is_space s;
          neg = (s1 \<noteq> [] \<and> hd s1 = CHR ''-'');
          s2 = (if s1 \<noteq> [] \<and> (hd s1 = CHR ''-'' \<or> hd s1 = CHR ''+'') then tl s1 else s1);
          s3 = (if take 2 s2 = ''0x'' \<or> take 2 s2 = ''0X'' then drop 2 s2 else s2);
          ds = takeWhile (\<lambda>c. hex_val c \<noteq> None) s3;
          v = hex_nat 0 ds in
      if ds = [] then 0
      else if 2 ^ 64 \<le> v then - 1
      else if neg then - of_nat v else of_nat v)"

lemma hex_val_char: "n < 16 \<Longrightarrow> hex_val (hex_char n) = Some n"
  by (cases "n < 10") (auto simp: hex_val_def hex_char_def of_char_of Let_def)

lemma hex_char_code:
  assumes "n < 16"
  shows "(of_char (hex_char n) :: nat) = (if n < 10 then 48 + n else 87 + n)"
  using assms by (simp add: hex_char_def of_char_of)

lemma hex_char_plain:
  assumes "n < 16"
  shows "hex_char n \<noteq> CHR ''-''" and "hex_char n \<noteq> CHR ''+''" and "hex_char n \<noteq> CHR ''x''"
    and "hex_char n \<noteq> CHR ''X''" and "hex_char n \<noteq> CHR ''/''" and "\<not> is_space (hex_char n)"
proof -
  let ?v = "of_char (hex_char n) :: nat"
  have v: "48 \<le> ?v" "?v \<le> 57 \<or> (97 \<le> ?v \<and> ?v \<le> 102)" using hex_char_code[OF assms] assms by auto
  have "?v \<noteq> 45" "?v \<noteq> 43" "?v \<noteq> 120" "?v \<noteq> 88" "?v \<noteq> 47" using v by auto
  then show "hex_char n \<noteq> CHR ''-''" "hex_char n \<noteq> CHR ''+''" "hex_char n \<noteq> CHR ''x''" "hex_char n \<noteq> CHR ''X''"
      "hex_char n \<noteq> CHR ''/''" by auto
  show "\<not> is_space (hex_char n)" using v by (auto simp: is_space_def Let_def)
qed

lemma length_hex_pad [simp]: "length (hex_pad k n) = k"
  by (induction k arbitrary: n) simp_all

lemma hex_pad_chars: "c \<in> set (hex_pad k n) \<Longrightarrow> \<exists>d<16. c = hex_char d"
proof (induction k arbitrary: n)
  case (Suc k)
  have "\<exists>d<16. hex_char (n mod 16) = hex_char d" by (rule exI [of _ "n mod 16"]) simp
  then show ?case using Suc by auto
qed simp

lemma hex_nat_append: "hex_nat acc (xs @ ys) = hex_nat (hex_nat acc xs) ys"
  by (induction xs arbitrary: acc) simp_all

lemma hex_nat_pad: "hex_nat 0 (hex_pad k n) = n mod 16 ^ k"
proof (induction k arbitrary: n)
  case (Suc k)
  have "hex_val (hex_char (n mod 16)) = Some (n mod 16)" by (simp add: hex_val_char)
  then show ?case using Suc by (simp add: hex_nat_append mod_mult2_eq)
qed simp

text \<open>What the formatting writes, the extraction reads.\<close>

lemma read_hex_pad [simp]: "read_hex (hex_pad 16 (unat w)) = (w :: u64)"
proof -
  define s where "s = hex_pad 16 (unat w)"
  have len: "length s = 16" by (simp add: s_def)
  then obtain c r where cr: "s = c # r" "length r = 15" by (cases s) auto
  then obtain d cs where s: "s = c # d # cs" by (cases r) auto
  have all: "hex_val x \<noteq> None \<and> \<not> is_space x \<and> x \<noteq> CHR ''-'' \<and> x \<noteq> CHR ''+'' \<and> x \<noteq> CHR ''x'' \<and> x \<noteq> CHR ''X''"
    if x: "x \<in> set s" for x
  proof -
    obtain k where "k < 16" "x = hex_char k" using hex_pad_chars x unfolding s_def by blast
    then show ?thesis using hex_val_char[of k] hex_char_plain[of k] by simp
  qed
  have "dropWhile is_space s = s" using all[of c] by (simp add: s)
  moreover have "takeWhile (\<lambda>x. hex_val x \<noteq> None) s = s"
    using all by (intro takeWhile_eq_all_conv [THEN iffD2]) blast
  moreover have "hd s \<noteq> CHR ''-''" "hd s \<noteq> CHR ''+''" "take 2 s \<noteq> ''0x''" "take 2 s \<noteq> ''0X''" "s \<noteq> []"
    using all[of c] all[of d] by (simp_all add: s)
  moreover have "hex_nat 0 s = unat w"
    using unat_u64_bound[of w] by (simp add: hex_nat_pad s_def)
  moreover have "\<not> 2 ^ 64 \<le> unat w" using unat_u64_bound[of w] by simp
  ultimately have "read_hex s = w" unfolding read_hex_def Let_def
    by (simp del: not_None_eq takeWhile_eq_all_conv)
  then show ?thesis by (simp add: s_def)
qed

section \<open>Parameters\<close>

text \<open>
  What msgpack does with a type of the sources: \<open>pk\<close> is \<open>msgpack::pack\<close>, \<open>up\<close> is
  \<open>msgpack::unpack\<close> followed by \<open>convert\<close>, \<open>None\<close> where these throw. The documented
  behaviour relied on is that unpacking a packed value gives it back.
\<close>

record 'a packer =
  pk :: "'a \<Rightarrow> bytes"
  up :: "bytes \<Rightarrow> 'a option"

definition faithful :: "'a packer \<Rightarrow> bool" where
  "faithful p \<longleftrightarrow> (\<forall>x. up p (pk p x) = Some x)"

text \<open>
  A directory: the names of its files with their contents. \<open>ext\<close> stands for
  \<open>boost::filesystem::path::extension\<close>; relied on is that a name with a stem and the
  suffix, which is not in another directory, has that extension.
\<close>

type_synonym directory = "(string \<times> bytes) list"

definition has_extension :: "(string \<Rightarrow> string) \<Rightarrow> string \<Rightarrow> bool" where
  "has_extension ext sfx \<longleftrightarrow> (\<forall>s. s \<noteq> [] \<and> CHR ''/'' \<notin> set s \<longrightarrow> ext (s @ sfx) = sfx)"

text \<open>\<open>std::stringstream\<close> and \<open>snprintf\<close> work on these names: two numbers and a suffix.\<close>

definition numbered_name :: "string \<Rightarrow> u64 \<Rightarrow> u64 \<Rightarrow> string" where
  "numbered_name sfx a b = hex_pad 16 (unat a) @ ''-'' @ hex_pad 16 (unat b) @ sfx"

lemma hex_pad_plain: "c \<in> set (hex_pad k n) \<Longrightarrow> c \<noteq> CHR ''-'' \<and> c \<noteq> CHR ''/''"
  using hex_pad_chars[of c k n] hex_char_plain by auto

lemma takeWhile_hex_pad [simp]: "takeWhile (\<lambda>c. c \<noteq> CHR ''-'') (hex_pad k n @ CHR ''-'' # r) = hex_pad k n"
  using hex_pad_plain by (subst takeWhile_append2) auto

lemma ext_numbered:
  assumes "has_extension ext sfx"
  shows "ext (numbered_name sfx a b) = sfx"
proof -
  let ?s = "hex_pad 16 (unat a) @ ''-'' @ hex_pad 16 (unat b)"
  have "CHR ''/'' \<notin> set ?s" using hex_pad_plain by auto
  moreover have "?s \<noteq> []" by simp
  ultimately have "ext (?s @ sfx) = sfx" using assms unfolding has_extension_def by blast
  then show ?thesis by (simp add: numbered_name_def)
qed

lemma ext_broken:
  assumes "has_extension ext sfx" and "CHR ''/'' \<notin> set sfx0"
  shows "ext (numbered_name sfx0 a b @ sfx) = sfx"
proof -
  have "CHR ''/'' \<notin> set (numbered_name sfx0 a b)" using hex_pad_plain assms(2) by (auto simp: numbered_name_def)
  moreover have "numbered_name sfx0 a b \<noteq> []" by (simp add: numbered_name_def)
  ultimately show ?thesis using assms(1) unfolding has_extension_def by blast
qed

text \<open>The names sort as the pairs of numbers in them do.\<close>

lemma append_less_append:
  "length xs = length ys \<Longrightarrow> xs @ us < ys @ vs \<longleftrightarrow> xs < ys \<or> (xs = ys \<and> us < vs)"
  for xs :: "'a::linorder list"
  by (induction xs ys rule: list_induct2) auto

lemma hex_char_less: "n < 16 \<Longrightarrow> m < 16 \<Longrightarrow> hex_char n < hex_char m \<longleftrightarrow> n < m"
  by (simp add: less_char_def hex_char_code)

lemma digits_less: "b < 16 \<Longrightarrow> d < 16 \<Longrightarrow> a * 16 + b < c * 16 + (d :: nat) \<longleftrightarrow> a < c \<or> (a = c \<and> b < d)"
  by linarith

lemma hex_pad_less: "n < 16 ^ k \<Longrightarrow> m < 16 ^ k \<Longrightarrow> hex_pad k n < hex_pad k m \<longleftrightarrow> n < m"
proof (induction k arbitrary: n m)
  case (Suc k)
  have eq: "hex_pad k (n div 16) = hex_pad k (m div 16) \<longleftrightarrow> n div 16 = m div 16"
    using Suc by (metis div_less_iff_less_mult hex_nat_pad mod_less mult.commute power_Suc zero_less_numeral)
  have "n div 16 < 16 ^ k" "m div 16 < 16 ^ k" using Suc.prems by (simp_all add: div_less_iff_less_mult mult.commute)
  then have "hex_pad (Suc k) n < hex_pad (Suc k) m \<longleftrightarrow> n div 16 < m div 16 \<or> (n div 16 = m div 16 \<and> n mod 16 < m mod 16)"
    using Suc.IH eq by (simp add: append_less_append hex_char_less)
  also have "\<dots> \<longleftrightarrow> n < m"
    using digits_less[of "n mod 16" "m mod 16" "n div 16" "m div 16"] by simp
  finally show ?case .
qed simp

lemma hex_pad_inj: "hex_pad 16 (unat a) = hex_pad 16 (unat b) \<longleftrightarrow> a = (b :: u64)"
  by (metis read_hex_pad)

lemma numbered_name_less:
  "numbered_name sfx a b < numbered_name sfx c d \<longleftrightarrow> a < c \<or> (a = c \<and> b < d)"
proof -
  have "unat w < 16 ^ 16" for w :: u64 using unat_u64_bound[of w] by simp
  then have "hex_pad 16 (unat v) < hex_pad 16 (unat w) \<longleftrightarrow> v < w" for v w :: u64
    by (simp add: hex_pad_less word_less_nat_alt)
  then show ?thesis by (simp add: numbered_name_def append_less_append hex_pad_inj)
qed

lemma numbered_name_inj: "numbered_name sfx a b = numbered_name sfx c d \<longleftrightarrow> a = c \<and> b = d"
  by (simp add: numbered_name_def hex_pad_inj)

lemma length_numbered_name [simp]: "length (numbered_name sfx a b) = 33 + length sfx"
  by (simp add: numbered_name_def)

text \<open>The first element of a descending list with a property is the greatest one.\<close>

lemma find_descending:
  fixes ys :: "'a::linorder list"
  assumes "sorted_wrt (\<ge>) ys"
  shows "find P ys = (if \<exists>y\<in>set ys. P y then Some (Max {y\<in>set ys. P y}) else None)"
  using assms
proof (induction ys)
  case (Cons y ys)
  show ?case
  proof (cases "P y")
    case True
    have "Max {z\<in>set (y # ys). P z} = y" using Cons.prems True by (intro Max_eqI) auto
    then show ?thesis using True by simp
  next
    case False
    then have "{z\<in>set (y # ys). P z} = {z\<in>set ys. P z}" by auto
    then show ?thesis using Cons False by simp
  qed
qed simp

text \<open>The extension of a name: from the last dot on.\<close>

definition suffix_of :: "string \<Rightarrow> string" where
  "suffix_of s = (let t = takeWhile (\<lambda>c. c \<noteq> CHR ''.'') (rev s) in
     if length t = length s then [] else CHR ''.'' # rev t)"

lemma suffix_of_ext: "CHR ''.'' \<notin> set t \<Longrightarrow> suffix_of (s @ CHR ''.'' # t) = CHR ''.'' # t"
proof -
  assume "CHR ''.'' \<notin> set t"
  then have "takeWhile (\<lambda>c. c \<noteq> CHR ''.'') (rev t @ CHR ''.'' # rev s) = rev t"
    by (subst takeWhile_append2) auto
  then show ?thesis by (simp add: suffix_of_def)
qed

section \<open>Streams of records\<close>

text \<open>
  Repeatedly taking one record off the front of a byte stream, with fuel for the number of records:
  the records and the bytes that are left.
\<close>

fun scan_all :: "nat \<Rightarrow> (bytes \<Rightarrow> ('r \<times> bytes) option) \<Rightarrow> bytes \<Rightarrow> 'r list \<times> bytes" where
  "scan_all 0 scan bs = ([], bs)"
| "scan_all (Suc k) scan bs =
     (case scan bs of
        None \<Rightarrow> ([], bs)
      | Some (r, rest) \<Rightarrow> let (rs, t) = scan_all k scan rest in (r # rs, t))"

text \<open>
  The contract of a record format: an encoded record is recognised whatever follows it, a record
  that is cut short is not recognised as anything, and a record takes at least one byte.
\<close>

locale record_format =
  fixes enc :: "'r \<Rightarrow> bytes"
    and scan :: "bytes \<Rightarrow> ('r \<times> bytes) option"
    and ok :: "'r \<Rightarrow> bool"
  assumes scan_enc: "ok r \<Longrightarrow> scan (enc r @ rest) = Some (r, rest)"
    and scan_torn: "ok r \<Longrightarrow> strict_prefix p (enc r) \<Longrightarrow> scan p = None"
    and scan_shorter: "scan bs = Some (r, rest) \<Longrightarrow> length rest < length bs"
begin

lemma scan_Nil: "scan [] = None"
  using scan_shorter[of "[]"] by (cases "scan []") auto

lemma enc_nonempty: "ok r \<Longrightarrow> enc r \<noteq> []"
  using scan_enc[of r "[]"] scan_Nil by auto

text \<open>A sequence of records followed by what is no record reads back as the sequence.\<close>

lemma scan_all_stop:
  assumes "\<forall>r\<in>set rs. ok r" and "scan rest = None" and "length rs < k"
  shows "scan_all k scan (concat (map enc rs) @ rest) = (rs, rest)"
  using assms
proof (induction rs arbitrary: k)
  case Nil
  then show ?case by (cases k) auto
next
  case (Cons r rs)
  then obtain k' where k: "k = Suc k'" "length rs < k'" by (cases k) auto
  have "scan (enc r @ concat (map enc rs) @ rest) = Some (r, concat (map enc rs) @ rest)"
    using Cons.prems(1) by (intro scan_enc) simp
  then show ?case using Cons k by simp
qed

lemma scan_all_torn:
  assumes "\<forall>r\<in>set rs. ok r" and "torn = [] \<or> (\<exists>r. ok r \<and> strict_prefix torn (enc r))"
    and "length rs < k"
  shows "scan_all k scan (concat (map enc rs) @ torn) = (rs, torn)"
  using assms scan_all_stop scan_Nil scan_torn by blast

lemma no_record_in_torn:
  assumes "torn = [] \<or> (\<exists>r. ok r \<and> strict_prefix torn (enc r))" and "ok r"
  shows "\<not> prefix (enc r) torn"
proof
  assume "prefix (enc r) torn"
  then obtain rest where "torn = enc r @ rest" by (auto simp: prefix_def)
  then have "scan torn = Some (r, rest)" using scan_enc[OF assms(2)] by simp
  then show False using assms(1) scan_Nil scan_torn by auto
qed

text \<open>The records that a stream holds completely: every prefix of the records that is in it.\<close>

lemma whole_records:
  assumes "reached = concat (map enc rs) @ torn" and "torn = [] \<or> (\<exists>r. ok r \<and> strict_prefix torn (enc r))"
    and "prefix rs all" and "prefix base all" and "\<forall>r\<in>set all. ok r" and "prefix (concat (map enc base)) reached"
  shows "prefix base rs"
proof (rule ccontr)
  assume no: "\<not> prefix base rs"
  then have "prefix rs base" using assms(3,4) prefix_same_cases by blast
  then obtain r more where base: "base = rs @ r # more" using no by (metis neq_Nil_conv append_Nil2 prefix_def prefix_order.refl)
  then have "prefix (enc r) torn" using assms(1,6) by (simp add: append_prefixD)
  moreover have "ok r" using base assms(4,5) by (auto dest: set_mono_prefix)
  ultimately show False using no_record_in_torn[OF assms(2)] by blast
qed

lemma length_records: "\<forall>r\<in>set rs. ok r \<Longrightarrow> length rs \<le> length (concat (map enc rs))"
proof (induction rs)
  case (Cons r rs)
  then have "enc r \<noteq> []" using enc_nonempty by simp
  then obtain b bs where "enc r = b # bs" by (cases "enc r") auto
  then show ?case using Cons by simp
qed simp

text \<open>The encoding is uniquely readable.\<close>

lemma enc_unique:
  assumes "\<forall>r\<in>set rs. ok r" and "\<forall>r\<in>set qs. ok r" and "concat (map enc rs) = concat (map enc qs)"
  shows "rs = qs"
proof -
  let ?k = "Suc (length rs + length qs)"
  have "scan_all ?k scan (concat (map enc rs) @ []) = (rs, [])" by (rule scan_all_torn [OF assms(1)]) simp_all
  moreover have "scan_all ?k scan (concat (map enc qs) @ []) = (qs, [])" by (rule scan_all_torn [OF assms(2)]) simp_all
  ultimately show ?thesis using assms(3) by simp
qed

end

text \<open>The part of a stream of records that made it to a file: whole records and one cut short.\<close>

lemma split_records:
  assumes "prefix p (concat (map enc rs))"
  obtains rs1 torn where "p = concat (map enc rs1) @ torn" and "prefix rs1 rs"
    and "torn = [] \<or> (\<exists>r\<in>set rs. strict_prefix torn (enc r))"
proof -
  have "\<exists>rs1 torn. p = concat (map enc rs1) @ torn \<and> prefix rs1 rs
      \<and> (torn = [] \<or> (\<exists>r\<in>set rs. strict_prefix torn (enc r)))"
    using assms
  proof (induction rs arbitrary: p)
    case (Cons r rs)
    then have "prefix p (enc r) \<or> (\<exists>q. p = enc r @ q \<and> prefix q (concat (map enc rs)))"
      by (simp add: prefix_append)
    then show ?case
    proof (elim disjE exE conjE)
      assume "prefix p (enc r)"
      then consider "p = enc r" | "strict_prefix p (enc r)" by (auto simp: strict_prefix_def)
      then show ?thesis
      proof cases
        case 1
        then show ?thesis by (intro exI [of _ "[r]"] exI [of _ "[]"]) simp
      next
        case 2
        then show ?thesis by (intro exI [of _ "[]"] exI [of _ p]) simp
      qed
    next
      fix q assume q: "p = enc r @ q" "prefix q (concat (map enc rs))"
      from Cons.IH[OF q(2)] obtain rs1 torn where "q = concat (map enc rs1) @ torn" "prefix rs1 rs"
          "torn = [] \<or> (\<exists>r\<in>set rs. strict_prefix torn (enc r))" by blast
      then show ?thesis using q(1) by (intro exI [of _ "r # rs1"] exI [of _ torn]) auto
    qed
  qed simp
  then show thesis using that by blast
qed

end
