(* ===== verification/Raft_WAL.thy ===== *)
theory Raft_WAL
  imports Raft_Bytes Raft_Storage
begin

unbundle bit_operations_syntax

text \<open>
  The write-ahead log (src/raft-kv/wal/wal.h, wal.cpp): records with a length and a checksum in
  numbered files, the writer with its buffer, opening a directory, and the replay that rebuilds the
  hard state and the entries after a restart.

  A file is its contents as its stream shows them, the position of the stream and the buffer of the
  writer. \<open>sync\<close> moves the buffer into the stream with \<open>fwrite\<close> and does not flush it, so
  after a crash the file may hold any initial part of the contents. Operations that
  fail only when the operating system does (\<open>fopen\<close>, \<open>ftell\<close>, \<open>fseek\<close>,
  \<open>ftruncate\<close>, a short \<open>fwrite\<close>) are taken to succeed. Parameters: msgpack for the three
  record payloads, the checksum function, the extension of a path, and the position that
  \<open>ftell\<close> reports for a file just opened for appending, which the C standard leaves open.
\<close>

section \<open>Records\<close>

record wal_snapshot =
  ws_index :: u64
  ws_term :: u64

type_synonym wal_type = u8

definition wal_InvalidType :: wal_type where [simp]: "wal_InvalidType = 0"
definition wal_EntryType :: wal_type where [simp]: "wal_EntryType = 1"
definition wal_StateType :: wal_type where [simp]: "wal_StateType = 2"
definition wal_CrcType :: wal_type where [simp]: "wal_CrcType = 3"
definition wal_snapshot_Type :: wal_type where [simp]: "wal_snapshot_Type = 4"

definition SegmentSizeBytes :: int where "SegmentSizeBytes = 64 * 1000 * 1000"
definition MAX_WAL_RECORD_LEN :: u32 where [simp]: "MAX_WAL_RECORD_LEN = 0x00FFFFFF"

record wal_record =
  wr_type :: wal_type
  wr_len :: "u8 list"
  wr_crc :: u32

definition WAL_Record_len :: "wal_record \<Rightarrow> u32" where
  "WAL_Record_len r =
     (push_bit 16 (ucast (wr_len r ! 2)) OR push_bit 8 (ucast (wr_len r ! 1))) OR push_bit 0 (ucast (wr_len r ! 0))"

definition set_WAL_Record_len :: "wal_record \<Rightarrow> u32 \<Rightarrow> wal_record" where
  "set_WAL_Record_len r len =
     (let n = min len MAX_WAL_RECORD_LEN in
      r\<lparr>wr_len := [ucast (drop_bit 0 n AND 0xFF), ucast (drop_bit 8 n AND 0xFF), ucast (drop_bit 16 n AND 0xFF)]\<rparr>)"

text \<open>The packed structure in memory: eight bytes.\<close>

definition record_image :: "wal_record \<Rightarrow> bytes" where
  "record_image r = wr_type r # wr_len r @ u32_image (wr_crc r)"

definition record_of_image :: "bytes \<Rightarrow> wal_record" where
  "record_of_image bs = \<lparr>wr_type = hd bs, wr_len = take 3 (tl bs), wr_crc = u32_of_image (take 4 (drop 4 bs))\<rparr>"

section \<open>Files\<close>

record wal_file =
  wf_buffer :: bytes
  wf_seq :: u64
  wf_size :: int
  wf_content :: bytes
  wf_pos :: nat

definition WAL_File :: "(nat \<Rightarrow> int) \<Rightarrow> bytes \<Rightarrow> u64 \<Rightarrow> wal_file" where
  "WAL_File ftell content seq =
     \<lparr>wf_buffer = [], wf_seq = seq, wf_size = ftell (length content), wf_content = content, wf_pos = 0\<rparr>"

definition file_truncate :: "nat \<Rightarrow> wal_file \<Rightarrow> wal_file" where
  "file_truncate offset f =
     f\<lparr>wf_content := vec_resize (wf_content f) offset 0, wf_pos := offset, wf_size := int offset, wf_buffer := []\<rparr>"

definition encode_record :: "(bytes \<Rightarrow> u32) \<Rightarrow> wal_type \<Rightarrow> bytes \<Rightarrow> bytes" where
  "encode_record crc t data =
     (let r = \<lparr>wr_type = t, wr_len = [], wr_crc = crc data\<rparr>
      in record_image (set_WAL_Record_len r (of_nat (length data))) @ data)"

definition file_append :: "(bytes \<Rightarrow> u32) \<Rightarrow> wal_type \<Rightarrow> bytes \<Rightarrow> wal_file \<Rightarrow> wal_file" where
  "file_append crc t data f = f\<lparr>wf_buffer := wf_buffer f @ encode_record crc t data\<rparr>"

text \<open>The stream is in append mode: a write goes to the end whatever the position.\<close>

definition file_sync :: "wal_file \<Rightarrow> wal_file" where
  "file_sync f =
     (if wf_buffer f = [] then f
      else f\<lparr>wf_content := wf_content f @ wf_buffer f, wf_size := wf_size f + int (length (wf_buffer f)),
             wf_pos := length (wf_content f @ wf_buffer f), wf_buffer := []\<rparr>)"

definition file_read_all :: "wal_file \<Rightarrow> wal_file \<times> bytes" where
  "file_read_all f = (f\<lparr>wf_pos := length (wf_content f)\<rparr>, drop (wf_pos f) (wf_content f))"

section \<open>File names\<close>

definition wal_name :: "u64 \<Rightarrow> u64 \<Rightarrow> string" where
  "wal_name seq idx = numbered_name ''.wal'' seq idx"

definition parse_wal_name :: "(string \<Rightarrow> string) \<Rightarrow> string \<Rightarrow> (u64 \<times> u64) option" where
  "parse_wal_name ext name =
     (if ext name \<noteq> ''.wal'' then None
      else
        let filename = take (if length name < 4 then length name else length name - 4) name;
            pos = length (takeWhile (\<lambda>c. c \<noteq> CHR ''-'') filename) in
        if pos = length filename then None
        else if pos = length filename - 1 then None
        else Some (read_hex (take pos filename), read_hex (drop (pos + 1) filename)))"

definition get_wal_names :: "(string \<Rightarrow> string) \<Rightarrow> directory \<Rightarrow> string list" where
  "get_wal_names ext dir = sort (filter (\<lambda>n. ext n = ''.wal'') (map fst dir))"

fun valid_seq_loop :: "(string \<Rightarrow> string) \<Rightarrow> u64 \<Rightarrow> string list \<Rightarrow> bool res" where
  "valid_seq_loop ext lst [] = Inr True"
| "valid_seq_loop ext lst (n # ns) =
     (case parse_wal_name ext n of
        None \<Rightarrow> Inl (Fatal ''parse correct name should never fail'')
      | Some (cur, _) \<Rightarrow>
          if lst \<noteq> 0 \<and> lst \<noteq> cur - 1 then Inr False else valid_seq_loop ext cur ns)"

definition is_valid_seq :: "(string \<Rightarrow> string) \<Rightarrow> string list \<Rightarrow> bool res" where
  "is_valid_seq ext names = valid_seq_loop ext 0 names"

text \<open>
  The loop of \<open>search_index\<close> runs from the last name down to position 0, where it breaks; on an
  empty vector its first index wraps around and is out of range.
\<close>

fun search_loop :: "(string \<Rightarrow> string) \<Rightarrow> string list \<Rightarrow> u64 \<Rightarrow> nat \<Rightarrow> nat option res" where
  "search_loop ext names idx i =
     (case parse_wal_name ext (names ! i) of
        None \<Rightarrow> Inl (Fatal ''invalid wal name'')
      | Some (_, cur) \<Rightarrow>
          if idx \<ge> cur then Inr (Some i)
          else (case i of 0 \<Rightarrow> Inr None | Suc j \<Rightarrow> search_loop ext names idx j))"

declare search_loop.simps [simp del]

definition search_index :: "(string \<Rightarrow> string) \<Rightarrow> string list \<Rightarrow> u64 \<Rightarrow> nat option res" where
  "search_index ext names idx =
     (if names = [] then Inl OutOfRange else search_loop ext names idx (length names - 1))"

section \<open>The log\<close>

record wal_codec =
  wc_entry :: "entry packer"
  wc_state :: "hard_state packer"
  wc_snap :: "wal_snapshot packer"
  wc_crc :: "bytes \<Rightarrow> u32"

record wal =
  w_state :: hard_state
  w_start :: wal_snapshot
  w_enti :: u64
  w_files :: "wal_file list"

definition wal_create :: "wal_codec \<Rightarrow> (nat \<Rightarrow> int) \<Rightarrow> directory \<Rightarrow> directory" where
  "wal_create c ftell dir =
     (let walFile = wal_name 0 0;
          tmpPath = walFile @ ''.tmp'';
          dir1 = AList.delete tmpPath dir;
          f = file_sync (file_append (wc_crc c) wal_snapshot_Type
                (pk (wc_snap c) \<lparr>ws_index = 0, ws_term = 0\<rparr>) (WAL_File ftell [] 0))
      in AList.update walFile (wf_content f) dir1)"

fun open_files :: "(string \<Rightarrow> string) \<Rightarrow> (nat \<Rightarrow> int) \<Rightarrow> directory \<Rightarrow> string list \<Rightarrow> wal_file list res" where
  "open_files ext ftell dir [] = Inr []"
| "open_files ext ftell dir (n # ns) =
     (case parse_wal_name ext n of
        None \<Rightarrow> Inl (Fatal ''invalid wal name'')
      | Some (seq, _) \<Rightarrow>
          rbind (open_files ext ftell dir ns) (\<lambda>fs.
            Inr (WAL_File ftell (case map_of dir n of None \<Rightarrow> [] | Some c \<Rightarrow> c) seq # fs)))"

definition wal_open :: "(string \<Rightarrow> string) \<Rightarrow> (nat \<Rightarrow> int) \<Rightarrow> directory \<Rightarrow> wal_snapshot \<Rightarrow> wal res" where
  "wal_open ext ftell dir snap =
     (let names = get_wal_names ext dir in
      if names = [] then Inl (Fatal ''wal not found'')
      else rbind (search_index ext names (ws_index snap)) (\<lambda>found.
        case found of
          None \<Rightarrow> Inl (Fatal ''wal not found'')
        | Some i \<Rightarrow>
            let check_names = drop i names in
            rbind (is_valid_seq ext check_names) (\<lambda>valid.
              if \<not> valid then Inl (Fatal ''invalid wal seq'')
              else rbind (open_files ext ftell dir check_names) (\<lambda>fs.
                Inr \<lparr>w_state = HardState, w_start = snap, w_enti = 0, w_files = fs\<rparr>))))"

text \<open>\<open>files_.back()\<close>.\<close>

definition on_back :: "(wal_file \<Rightarrow> wal_file) \<Rightarrow> wal \<Rightarrow> wal res" where
  "on_back f w =
     (if w_files w = [] then Inl OutOfRange
      else Inr (w\<lparr>w_files := butlast (w_files w) @ [f (last (w_files w))]\<rparr>))"

definition save_entry :: "wal_codec \<Rightarrow> entry \<Rightarrow> wal \<Rightarrow> wal res" where
  "save_entry c e w =
     rbind (on_back (file_append (wc_crc c) wal_EntryType (pk (wc_entry c) e)) w) (\<lambda>w1.
       Inr (w1\<lparr>w_enti := e_index e\<rparr>))"

definition save_hard_state :: "wal_codec \<Rightarrow> hard_state \<Rightarrow> wal \<Rightarrow> wal res" where
  "save_hard_state c hs w =
     (if hs_is_empty_state hs then Inr w
      else on_back (file_append (wc_crc c) wal_StateType (pk (wc_state c) hs)) (w\<lparr>w_state := hs\<rparr>))"

definition cut :: "wal \<Rightarrow> wal res" where
  "cut w = on_back file_sync w"

definition wal_save :: "wal_codec \<Rightarrow> hard_state \<Rightarrow> entry list \<Rightarrow> wal \<Rightarrow> wal res" where
  "wal_save c hs ents w =
     (if hs_is_empty_state hs \<and> ents = [] then Inr w
      else
        let mustSync = is_must_sync hs (w_state w) (length ents) in
        rbind (rfold (save_entry c) ents w) (\<lambda>w1.
        rbind (save_hard_state c hs w1) (\<lambda>w2.
        rbind (vec_back (w_files w2)) (\<lambda>f.
          if wf_size f < SegmentSizeBytes
          then if mustSync then on_back file_sync w2 else Inr w2
          else cut w2))))"

definition save_snapshot :: "wal_codec \<Rightarrow> wal_snapshot \<Rightarrow> wal \<Rightarrow> wal res" where
  "save_snapshot c snap w =
     rbind (on_back (file_append (wc_crc c) wal_snapshot_Type (pk (wc_snap c) snap)) w) (\<lambda>w1.
     let w2 = (if w_enti w1 < ws_index snap then w1\<lparr>w_enti := ws_index snap\<rparr> else w1) in
     on_back file_sync w2)"

definition release_to :: "u64 \<Rightarrow> wal \<Rightarrow> wal \<times> status" where
  "release_to idx w = (w, Ok)"

section \<open>Replay\<close>

text \<open>
  What the replay accumulates. The vector of entry pointers is grown with null pointers when an
  entry is ahead of it.
\<close>

record replay =
  rp_match :: bool
  rp_hs :: hard_state
  rp_ents :: "entry option list"
  rp_enti :: u64

definition unpacked :: "'a option \<Rightarrow> 'a res" where
  "unpacked x = (case x of None \<Rightarrow> Inl (Fatal ''msgpack'') | Some v \<Rightarrow> Inr v)"

definition handle_record :: "wal_codec \<Rightarrow> wal_snapshot \<Rightarrow> wal_type \<Rightarrow> bytes \<Rightarrow> replay \<Rightarrow> replay res" where
  "handle_record c start t data rp =
     (if t = wal_EntryType then
        rbind (unpacked (up (wc_entry c) data)) (\<lambda>e.
          let rp1 = (if e_index e > ws_index start
                     then rp\<lparr>rp_ents := vec_resize (rp_ents rp) (unat (e_index e - ws_index start - 1)) None @ [Some e]\<rparr>
                     else rp)
          in Inr (rp1\<lparr>rp_enti := e_index e\<rparr>))
      else if t = wal_StateType then
        rbind (unpacked (up (wc_state c) data)) (\<lambda>hs. Inr (rp\<lparr>rp_hs := hs\<rparr>))
      else if t = wal_snapshot_Type then
        rbind (unpacked (up (wc_snap c) data)) (\<lambda>snap.
          if ws_index snap = ws_index start
          then if ws_term snap \<noteq> ws_term start then Inl (Fatal ''wal: snapshot mismatch'')
               else Inr (rp\<lparr>rp_match := True\<rparr>)
          else Inr rp)
      else if t = wal_CrcType then Inl (Fatal ''wal crc type'')
      else Inl (Fatal ''invalid record type''))"

text \<open>One turn of the loop over the bytes of a file: what is at the front of the rest.\<close>

datatype wal_scan = ScanEnd | ScanTorn | ScanStop | ScanRecord wal_type bytes bytes

definition scan_record :: "(bytes \<Rightarrow> u32) \<Rightarrow> bytes \<Rightarrow> wal_scan" where
  "scan_record crc bs =
     (if bs = [] then ScanEnd
      else if length bs < 8 then ScanTorn
      else
        let r = record_of_image (take 8 bs); left = drop 8 bs; n = unat (WAL_Record_len r) in
        if wr_type r = wal_InvalidType then ScanStop
        else if length left < n then ScanTorn
        else if wr_crc r \<noteq> 0 \<and> crc (take n left) \<noteq> wr_crc r then ScanTorn
        else ScanRecord (wr_type r) (take n left) (drop n left))"

lemma scan_record_shorter:
  "scan_record crc bs = ScanRecord t data rest \<Longrightarrow> length rest < length bs"
  by (auto simp: scan_record_def Let_def split: if_splits)

text \<open>The loop: the offset at which the file is to be truncated, if it is, and what was replayed.\<close>

function read_loop :: "wal_codec \<Rightarrow> wal_snapshot \<Rightarrow> nat \<Rightarrow> bytes \<Rightarrow> replay \<Rightarrow> (nat option \<times> replay) res" where
  "read_loop c start offset bs rp =
     (case scan_record (wc_crc c) bs of
        ScanEnd \<Rightarrow> Inr (None, rp)
      | ScanTorn \<Rightarrow> Inr (Some offset, rp)
      | ScanStop \<Rightarrow> Inr (None, rp)
      | ScanRecord t data rest \<Rightarrow>
          rbind (handle_record c start t data rp) (\<lambda>rp1.
            read_loop c start (offset + (length bs - length rest)) rest
              (if t = wal_snapshot_Type then rp1\<lparr>rp_match := True\<rparr> else rp1)))"
  by pat_completeness auto

termination
  by (relation "measure (\<lambda>(c, start, offset, bs, rp). length bs)") (auto dest: scan_record_shorter)

declare read_loop.simps [simp del]

fun read_files :: "wal_codec \<Rightarrow> wal_snapshot \<Rightarrow> wal_file list \<Rightarrow> replay \<Rightarrow> (wal_file list \<times> replay) res" where
  "read_files c start [] rp = Inr ([], rp)"
| "read_files c start (f # fs) rp =
     (let (f1, data) = file_read_all f in
      rbind (read_loop c start 0 data (rp\<lparr>rp_match := False\<rparr>)) (\<lambda>(cutoff, rp1).
        let f2 = (case cutoff of None \<Rightarrow> f1 | Some offset \<Rightarrow> file_truncate offset f1) in
        if \<not> rp_match rp1 then Inl (Fatal ''wal: snapshot not found'')
        else rbind (read_files c start fs rp1) (\<lambda>(fs1, rp2). Inr (f2 # fs1, rp2))))"

definition wal_read_all :: "wal_codec \<Rightarrow> hard_state \<Rightarrow> entry option list \<Rightarrow> wal
    \<Rightarrow> (wal \<times> hard_state \<times> entry option list \<times> status) res" where
  "wal_read_all c hs ents w =
     rbind (read_files c (w_start w) (w_files w) \<lparr>rp_match = False, rp_hs = hs, rp_ents = ents, rp_enti = w_enti w\<rparr>)
       (\<lambda>(fs, rp). Inr (w\<lparr>w_files := fs, w_enti := rp_enti rp\<rparr>, rp_hs rp, rp_ents rp, Ok))"

section \<open>The record format\<close>

lemma three_bytes:
  fixes n :: u32
  assumes "n \<le> 0x00FFFFFF"
  shows "(push_bit 16 (ucast (ucast (drop_bit 16 n AND 0xFF) :: u8)) OR push_bit 8 (ucast (ucast (drop_bit 8 n AND 0xFF) :: u8)))
     OR push_bit 0 (ucast (ucast (drop_bit 0 n AND 0xFF) :: u8)) = n"
proof -
  have "unat n < 2 ^ 24" using assms by (simp add: word_le_nat_alt)
  then have "unat (take_bit 24 n) = unat n" unfolding unsigned_take_bit_eq by (rule take_bit_nat_eq_self)
  then have m: "take_bit 24 n = n" by (simp add: word_unat_eq_iff)
  have ff: "(0xFF :: u32) = mask 8" by (simp add: mask_eq_exp_minus_1)
  have hi: "i < 24" if "bit n i" for i
    using m that by (metis bit_take_bit_iff)
  show ?thesis unfolding ff
  proof (rule bit_word_eqI)
    fix i assume "i < LENGTH(32)"
    consider "i < 8" | k where "i = 8 + k" "k < 8" | k where "i = 16 + k"
      by (metis add.commute le_add_diff_inverse2 less_diff_conv2 not_less numeral_Bit0)
    then show "bit ((push_bit 16 (ucast (ucast (drop_bit 16 n AND mask 8) :: u8)) OR push_bit 8 (ucast (ucast (drop_bit 8 n AND mask 8) :: u8)))
       OR push_bit 0 (ucast (ucast (drop_bit 0 n AND mask 8) :: u8)) :: u32) i = bit n i"
      by cases (use hi [of i] \<open>i < LENGTH(32)\<close> in \<open>auto simp: bit_simps\<close>)
  qed
qed

lemma WAL_Record_len_set:
  "WAL_Record_len (set_WAL_Record_len r len) = min len MAX_WAL_RECORD_LEN"
proof -
  have "min len MAX_WAL_RECORD_LEN \<le> 0x00FFFFFF" by simp
  from three_bytes[OF this] show ?thesis
    by (simp add: WAL_Record_len_def set_WAL_Record_len_def Let_def del: push_bit_0_id drop_bit_0)
qed

lemma length_set_len [simp]: "length (wr_len (set_WAL_Record_len r n)) = 3"
  by (simp add: set_WAL_Record_len_def Let_def)

lemma set_len_fields [simp]:
  "wr_type (set_WAL_Record_len r n) = wr_type r" "wr_crc (set_WAL_Record_len r n) = wr_crc r"
  by (simp_all add: set_WAL_Record_len_def Let_def)

lemma record_image_inverse:
  assumes "length (wr_len r) = 3"
  shows "record_of_image (record_image r) = r" and "length (record_image r) = 8"
  using assms by (cases r; simp add: record_of_image_def record_image_def)+

text \<open>The header of a record and what it says of the length of the data.\<close>

definition wal_header :: "(bytes \<Rightarrow> u32) \<Rightarrow> wal_type \<Rightarrow> bytes \<Rightarrow> bytes" where
  "wal_header crc t data =
     record_image (set_WAL_Record_len \<lparr>wr_type = t, wr_len = [], wr_crc = crc data\<rparr> (of_nat (length data)))"

lemma encode_record_split: "encode_record crc t data = wal_header crc t data @ data"
  by (simp add: encode_record_def wal_header_def Let_def)

lemma length_wal_header [simp]: "length (wal_header crc t data) = 8"
  by (simp add: wal_header_def record_image_inverse)

lemma wal_header_fields:
  "wr_type (record_of_image (wal_header crc t data)) = t"
  "wr_crc (record_of_image (wal_header crc t data)) = crc data"
  "WAL_Record_len (record_of_image (wal_header crc t data)) = min (of_nat (length data)) MAX_WAL_RECORD_LEN"
  by (simp_all add: wal_header_def record_image_inverse WAL_Record_len_set)

lemma header_len:
  assumes "length data \<le> 0x00FFFFFF"
  shows "unat (WAL_Record_len (record_of_image (wal_header crc t data))) = length data"
proof -
  have "unat (of_nat (length data) :: u32) = length data"
    using assms by (simp add: unat_of_nat take_bit_eq_mod)
  moreover from this have "(of_nat (length data) :: u32) \<le> MAX_WAL_RECORD_LEN"
    using assms by (simp add: word_le_nat_alt)
  ultimately show ?thesis unfolding wal_header_fields by (simp add: min_def)
qed

lemma scan_header:
  assumes "length bs = 8" and "wr_type (record_of_image bs) \<noteq> 0"
  shows "scan_record crc (bs @ left) =
     (let r = record_of_image bs; n = unat (WAL_Record_len r) in
      if length left < n then ScanTorn
      else if wr_crc r \<noteq> 0 \<and> crc (take n left) \<noteq> wr_crc r then ScanTorn
      else ScanRecord (wr_type r) (take n left) (drop n left))"
proof -
  have "bs \<noteq> []" "\<not> length (bs @ left) < 8" "take 8 (bs @ left) = bs" "drop 8 (bs @ left) = left"
    using assms(1) by auto
  then show ?thesis using assms(2) by (simp only: scan_record_def Let_def append_is_Nil_conv simp_thms if_False wal_InvalidType_def)
qed

definition wal_ok :: "wal_type \<times> bytes \<Rightarrow> bool" where
  "wal_ok r \<longleftrightarrow> fst r \<noteq> 0 \<and> length (snd r) \<le> 0x00FFFFFF"

definition scan_next :: "(bytes \<Rightarrow> u32) \<Rightarrow> bytes \<Rightarrow> ((wal_type \<times> bytes) \<times> bytes) option" where
  "scan_next crc bs = (case scan_record crc bs of ScanRecord t data rest \<Rightarrow> Some ((t, data), rest) | _ \<Rightarrow> None)"

lemma scan_record_enc:
  assumes "t \<noteq> 0" and "length data \<le> 0x00FFFFFF"
  shows "scan_record crc (encode_record crc t data @ rest) = ScanRecord t data rest"
proof -
  have "wr_type (record_of_image (wal_header crc t data)) \<noteq> 0" using assms(1) by (simp add: wal_header_fields)
  from scan_header[OF length_wal_header this, of crc "data @ rest"] show ?thesis
    by (simp add: encode_record_split wal_header_fields(1,2) header_len [OF assms(2)])
qed

lemma scan_record_torn:
  assumes "t \<noteq> 0" and "length data \<le> 0x00FFFFFF" and "strict_prefix p (encode_record crc t data)" and "p \<noteq> []"
  shows "scan_record crc p = ScanTorn"
proof (cases "length p < 8")
  case True
  then show ?thesis using assms(4) by (simp add: scan_record_def)
next
  case False
  have pre: "prefix p (wal_header crc t data @ data)" and len: "length p < 8 + length data"
    using assms(3) prefix_length_less[OF assms(3)] by (auto simp: encode_record_split)
  then obtain zs where zs: "wal_header crc t data @ data = p @ zs" by (auto simp: prefix_def)
  have "take 8 (wal_header crc t data @ data) = wal_header crc t data" by simp
  moreover have "take 8 (p @ zs) = take 8 p" using False by simp
  ultimately have h: "take 8 p = wal_header crc t data" using zs by simp
  then have p: "p = wal_header crc t data @ drop 8 p" by (metis append_take_drop_id)
  have ty: "wr_type (record_of_image (wal_header crc t data)) \<noteq> 0" using assms(1) by (simp add: wal_header_fields)
  have "length p - 8 < length data" using len False by linarith
  then show ?thesis
    by (subst p, subst scan_header [OF length_wal_header ty]) (simp add: header_len [OF assms(2)] Let_def)
qed

interpretation wal_format: record_format "\<lambda>(t, data). encode_record crc t data" "scan_next crc" wal_ok
  for crc
proof (unfold_locales, goal_cases)
  case (1 r rest)
  then show ?case by (cases r) (simp add: wal_ok_def scan_next_def scan_record_enc)
next
  case (2 r p)
  then show ?case
    using scan_record_torn[of "fst r" "snd r" p crc]
    by (cases "p = []") (auto simp: wal_ok_def scan_next_def scan_record_def [of crc "[]"] case_prod_unfold)
next
  case (3 bs r rest)
  then show ?case by (auto simp: scan_next_def dest: scan_record_shorter split: wal_scan.splits)
qed

section \<open>Replay of a file\<close>

definition replay_record :: "wal_codec \<Rightarrow> wal_snapshot \<Rightarrow> wal_type \<times> bytes \<Rightarrow> replay \<Rightarrow> replay res" where
  "replay_record c start r rp =
     rbind (handle_record c start (fst r) (snd r) rp) (\<lambda>rp1.
       Inr (if fst r = wal_snapshot_Type then rp1\<lparr>rp_match := True\<rparr> else rp1))"

abbreviation wal_bytes :: "(bytes \<Rightarrow> u32) \<Rightarrow> (wal_type \<times> bytes) list \<Rightarrow> bytes" where
  "wal_bytes crc rs \<equiv> concat (map (\<lambda>(t, data). encode_record crc t data) rs)"

text \<open>The loop replays the records that can be read off the front of the file.\<close>

lemma read_loop_scan:
  assumes "length bs < k" and "scan_all k (scan_next (wc_crc c)) bs = (rs, t)"
  shows "read_loop c start offset bs rp = rbind (rfold (replay_record c start) rs rp) (\<lambda>rp1.
     Inr (if scan_record (wc_crc c) t = ScanTorn then Some (offset + (length bs - length t)) else None, rp1))"
    and "length t \<le> length bs"
proof -
  have "read_loop c start offset bs rp = rbind (rfold (replay_record c start) rs rp) (\<lambda>rp1.
     Inr (if scan_record (wc_crc c) t = ScanTorn then Some (offset + (length bs - length t)) else None, rp1))
     \<and> length t \<le> length bs"
    using assms
  proof (induction k arbitrary: bs offset rp rs)
    case (Suc k)
    show ?case
    proof (cases "scan_record (wc_crc c) bs")
      case (ScanRecord ty data rest)
      then have "scan_next (wc_crc c) bs = Some ((ty, data), rest)" by (simp add: scan_next_def)
      then obtain rs' where rs: "rs = (ty, data) # rs'" "scan_all k (scan_next (wc_crc c)) rest = (rs', t)"
        using Suc.prems(2) by (auto split: prod.splits)
      have len: "length rest < length bs" by (rule scan_record_shorter [OF ScanRecord])
      then have lk: "length rest < k" using Suc.prems(1) by simp
      have ih: "length t \<le> length rest" "\<And>off q. read_loop c start off rest q = rbind (rfold (replay_record c start) rs' q) (\<lambda>rp1.
          Inr (if scan_record (wc_crc c) t = ScanTorn then Some (off + (length rest - length t)) else None, rp1))"
        using Suc.IH[OF lk rs(2)] by blast+
      have off: "offset + (length bs - length rest) + (length rest - length t) = offset + (length bs - length t)"
        using len ih(1) by simp
      show ?thesis using len ih(1) off
        by (subst read_loop.simps) (cases "handle_record c start ty data rp"; simp add: ScanRecord rs(1) replay_record_def ih(2))
    qed (use Suc.prems(2) in \<open>auto simp: read_loop.simps [of c start offset t rp] scan_next_def\<close>)
  qed simp
  then show "read_loop c start offset bs rp = rbind (rfold (replay_record c start) rs rp) (\<lambda>rp1.
     Inr (if scan_record (wc_crc c) t = ScanTorn then Some (offset + (length bs - length t)) else None, rp1))"
    "length t \<le> length bs" by blast+
qed

lemma read_loop_records:
  assumes "\<forall>r\<in>set rs. wal_ok r"
    and "torn = [] \<or> (\<exists>t data. wal_ok (t, data) \<and> strict_prefix torn (encode_record (wc_crc c) t data))"
  shows "read_loop c start 0 (wal_bytes (wc_crc c) rs @ torn) rp =
     rbind (rfold (replay_record c start) rs rp) (\<lambda>rp1.
       Inr (if torn = [] then None else Some (length (wal_bytes (wc_crc c) rs)), rp1))"
proof -
  let ?bs = "wal_bytes (wc_crc c) rs @ torn"
  let ?k = "Suc (length ?bs)"
  have "length rs < ?k" using wal_format.length_records[OF assms(1), of "wc_crc c"] by simp
  then have "scan_all ?k (scan_next (wc_crc c)) ?bs = (rs, torn)"
    using wal_format.scan_all_torn[OF assms(1), of torn "wc_crc c" ?k] assms(2) by auto
  moreover have "(scan_record (wc_crc c) torn = ScanTorn) = (torn \<noteq> [])"
    using assms(2) scan_record_torn by (auto simp: wal_ok_def scan_record_def [of _ "[]"])
  ultimately show ?thesis using read_loop_scan(1)[of ?bs ?k c rs torn start 0 rp] by simp
qed

section \<open>What the log holds\<close>

text \<open>The three kinds of things that are logged, and the replay on that level.\<close>

datatype wal_item = ItemEntry entry | ItemState hard_state | ItemSnap wal_snapshot

fun item_record :: "wal_codec \<Rightarrow> wal_item \<Rightarrow> wal_type \<times> bytes" where
  "item_record c (ItemEntry e) = (wal_EntryType, pk (wc_entry c) e)"
| "item_record c (ItemState hs) = (wal_StateType, pk (wc_state c) hs)"
| "item_record c (ItemSnap s) = (wal_snapshot_Type, pk (wc_snap c) s)"

definition good_codec :: "wal_codec \<Rightarrow> bool" where
  "good_codec c \<longleftrightarrow> faithful (wc_entry c) \<and> faithful (wc_state c) \<and> faithful (wc_snap c)"

definition fits :: "wal_codec \<Rightarrow> wal_item \<Rightarrow> bool" where
  "fits c it \<longleftrightarrow> length (snd (item_record c it)) \<le> 0x00FFFFFF"

fun matches :: "wal_snapshot \<Rightarrow> wal_item \<Rightarrow> bool" where
  "matches start (ItemSnap s) \<longleftrightarrow> (ws_index s = ws_index start \<longrightarrow> ws_term s = ws_term start)"
| "matches start it \<longleftrightarrow> True"

fun apply_item :: "wal_snapshot \<Rightarrow> wal_item \<Rightarrow> replay \<Rightarrow> replay" where
  "apply_item start (ItemEntry e) rp =
     (if e_index e > ws_index start
      then rp\<lparr>rp_ents := vec_resize (rp_ents rp) (unat (e_index e - ws_index start - 1)) None @ [Some e]\<rparr>
      else rp)\<lparr>rp_enti := e_index e\<rparr>"
| "apply_item start (ItemState hs) rp = rp\<lparr>rp_hs := hs\<rparr>"
| "apply_item start (ItemSnap s) rp = rp\<lparr>rp_match := True\<rparr>"

lemma item_ok: "fits c it \<Longrightarrow> wal_ok (item_record c it)"
  by (cases it) (simp_all add: fits_def wal_ok_def)

lemma replay_item:
  assumes "good_codec c" and "matches start it"
  shows "replay_record c start (item_record c it) rp = Inr (apply_item start it rp)"
  using assms by (cases it) (auto simp: replay_record_def handle_record_def good_codec_def faithful_def unpacked_def Let_def)

lemma replay_items:
  assumes "good_codec c" and "\<forall>it\<in>set its. matches start it"
  shows "rfold (replay_record c start) (map (item_record c) its) rp = Inr (fold (apply_item start) its rp)"
  using assms(2) by (induction its arbitrary: rp) (simp_all add: replay_item [OF assms(1)])

text \<open>One file with these items on disk and these in the buffer of the writer.\<close>

definition wal_has :: "wal_codec \<Rightarrow> wal \<Rightarrow> wal_item list \<Rightarrow> wal_item list \<Rightarrow> bool" where
  "wal_has c w disk pend \<longleftrightarrow> (\<exists>f. w_files w = [f]
     \<and> wf_content f = wal_bytes (wc_crc c) (map (item_record c) disk)
     \<and> wf_buffer f = wal_bytes (wc_crc c) (map (item_record c) pend))"

lemma append_has:
  assumes "wal_has c w disk pend"
  shows "\<exists>w'. on_back (file_append (wc_crc c) (fst (item_record c it)) (snd (item_record c it))) w = Inr w'
     \<and> wal_has c w' disk (pend @ [it]) \<and> w_state w' = w_state w \<and> w_start w' = w_start w"
  using assms by (auto simp: wal_has_def on_back_def file_append_def case_prod_unfold)

lemma sync_has:
  assumes "wal_has c w disk pend"
  shows "\<exists>w'. on_back file_sync w = Inr w' \<and> wal_has c w' (disk @ pend) []
     \<and> w_state w' = w_state w \<and> w_start w' = w_start w"
  using assms by (auto simp: wal_has_def on_back_def file_sync_def)

lemma wal_has_fields [simp]:
  "wal_has c (w\<lparr>w_enti := i\<rparr>) disk pend = wal_has c w disk pend"
  "wal_has c (w\<lparr>w_state := hs\<rparr>) disk pend = wal_has c w disk pend"
  by (simp_all add: wal_has_def)

lemma save_entries_has:
  assumes "wal_has c w disk pend"
  shows "\<exists>w'. rfold (save_entry c) es w = Inr w' \<and> wal_has c w' disk (pend @ map ItemEntry es)
     \<and> w_state w' = w_state w \<and> w_start w' = w_start w"
  using assms
proof (induction es arbitrary: w pend)
  case (Cons e es)
  obtain w1 where w1: "on_back (file_append (wc_crc c) wal_EntryType (pk (wc_entry c) e)) w = Inr w1"
      "wal_has c w1 disk (pend @ [ItemEntry e])" "w_state w1 = w_state w" "w_start w1 = w_start w"
    using append_has[OF Cons.prems, of "ItemEntry e"] by auto
  have "wal_has c (w1\<lparr>w_enti := e_index e\<rparr>) disk (pend @ [ItemEntry e])" using w1(2) by simp
  from Cons.IH[OF this] show ?case using w1 by (auto simp: save_entry_def)
qed simp

definition saved_items :: "hard_state \<Rightarrow> entry list \<Rightarrow> wal_item list" where
  "saved_items hs es = map ItemEntry es @ (if hs = HardState then [] else [ItemState hs])"

lemma wal_save_has:
  assumes "wal_has c w disk pend"
  shows "\<exists>w'. wal_save c hs es w = Inr w' \<and> w_start w' = w_start w
     \<and> (wal_has c w' (disk @ pend @ saved_items hs es) []
        \<or> (wal_has c w' disk (pend @ saved_items hs es)
           \<and> es = [] \<and> (hs = HardState \<or> (hs_vote hs = hs_vote (w_state w) \<and> hs_term hs = hs_term (w_state w)))))
     \<and> w_state w' = (if hs = HardState then w_state w else hs)"
proof (cases "hs = HardState \<and> es = []")
  case True
  then show ?thesis using assms by (auto simp: wal_save_def hs_is_empty_iff saved_items_def)
next
  case False
  obtain w1 where w1: "rfold (save_entry c) es w = Inr w1" "wal_has c w1 disk (pend @ map ItemEntry es)"
      "w_state w1 = w_state w" "w_start w1 = w_start w"
    using save_entries_has[OF assms] by blast
  obtain w2 where w2: "save_hard_state c hs w1 = Inr w2" "wal_has c w2 disk (pend @ saved_items hs es)"
      "w_state w2 = (if hs = HardState then w_state w else hs)" "w_start w2 = w_start w"
  proof (cases "hs = HardState")
    case True
    then show thesis using that[of w1] w1 by (simp add: save_hard_state_def hs_is_empty_iff saved_items_def)
  next
    case hs: False
    have "wal_has c (w1\<lparr>w_state := hs\<rparr>) disk (pend @ map ItemEntry es)" using w1(2) by simp
    from append_has[OF this, of "ItemState hs"] show thesis
      using that w1 hs by (auto simp: save_hard_state_def hs_is_empty_iff saved_items_def)
  qed
  obtain f where f: "w_files w2 = [f]" using w2(2) by (auto simp: wal_has_def)
  obtain w3 where w3: "on_back file_sync w2 = Inr w3" "wal_has c w3 (disk @ pend @ saved_items hs es) []"
      "w_state w3 = w_state w2" "w_start w3 = w_start w2"
    using sync_has[OF w2(2)] by auto
  have "wal_save c hs es w = (if wf_size f < SegmentSizeBytes \<and> \<not> is_must_sync hs (w_state w) (length es)
      then Inr w2 else Inr w3)"
    using False w1(1) w2(1) w3(1) f
    by (auto simp: wal_save_def hs_is_empty_iff Let_def vec_back_def cut_def)
  then show ?thesis using w2 w3 by (auto simp: is_must_sync_def)
qed

section \<open>Recovery\<close>

text \<open>The log as a restart finds it: one file with some bytes, nothing in the buffer.\<close>

definition reopened :: "(nat \<Rightarrow> int) \<Rightarrow> bytes \<Rightarrow> u64 \<Rightarrow> wal_snapshot \<Rightarrow> wal" where
  "reopened ftell content seq start =
     \<lparr>w_state = HardState, w_start = start, w_enti = 0, w_files = [WAL_File ftell content seq]\<rparr>"

definition replayed :: "wal_snapshot \<Rightarrow> wal_item list \<Rightarrow> replay" where
  "replayed start its =
     fold (apply_item start) its \<lparr>rp_match = False, rp_hs = HardState, rp_ents = [], rp_enti = 0\<rparr>"

lemma apply_item_match: "rp_match rp \<Longrightarrow> rp_match (apply_item start it rp)"
  by (cases it) auto

lemma fold_match: "rp_match rp \<Longrightarrow> rp_match (fold (apply_item start) its rp)"
  by (induction its arbitrary: rp) (simp_all add: apply_item_match)

lemma replayed_match: "ItemSnap s \<in> set its \<Longrightarrow> rp_match (replayed start its)"
  unfolding replayed_def
  by (induction its arbitrary: start rule: rev_induct) (auto simp: apply_item_match)

lemma map_prefix_records:
  assumes "prefix rs (map f xs)"
  obtains ys where "rs = map f ys" and "prefix ys xs"
proof -
  have "rs = map f (take (length rs) xs)" using assms by (auto simp: prefix_def take_map [symmetric] map_eq_append_conv)
  then show thesis using that take_is_prefix by metis
qed

lemma read_reopened:
  assumes "good_codec c" and "\<forall>it\<in>set its. fits c it \<and> matches start it" and "ItemSnap s \<in> set its"
    and "torn = [] \<or> (\<exists>it. fits c it \<and> strict_prefix torn (encode_record (wc_crc c) (fst (item_record c it)) (snd (item_record c it))))"
  shows "\<exists>w'. wal_read_all c HardState [] (reopened ftell (wal_bytes (wc_crc c) (map (item_record c) its) @ torn) seq start)
      = Inr (w', rp_hs (replayed start its), rp_ents (replayed start its), Ok)
     \<and> wal_has c w' its [] \<and> w_start w' = start"
proof -
  let ?rs = "map (item_record c) its"
  let ?bytes = "wal_bytes (wc_crc c) ?rs"
  let ?rp = "\<lparr>rp_match = False, rp_hs = HardState, rp_ents = [], rp_enti = 0\<rparr>"
  have ok: "\<forall>r\<in>set ?rs. wal_ok r" using assms(2) by (auto intro: item_ok)
  have torn: "torn = [] \<or> (\<exists>t data. wal_ok (t, data) \<and> strict_prefix torn (encode_record (wc_crc c) t data))"
    using assms(4) by (metis item_ok prod.collapse)
  have "rfold (replay_record c start) ?rs ?rp = Inr (replayed start its)"
    using replay_items[OF assms(1), of its start ?rp] assms(2) by (simp add: replayed_def)
  then have loop: "read_loop c start 0 (?bytes @ torn) ?rp
      = Inr (if torn = [] then None else Some (length ?bytes), replayed start its)"
    using read_loop_records[OF ok torn, of start ?rp] by simp
  have "rp_match (replayed start its)" by (rule replayed_match [OF assms(3)])
  then show ?thesis
    using loop by (auto simp: wal_read_all_def reopened_def WAL_File_def file_read_all_def wal_has_def
        file_truncate_def vec_resize_def)
qed

abbreviation item_bytes :: "wal_codec \<Rightarrow> wal_item list \<Rightarrow> bytes" where
  "item_bytes c its \<equiv> wal_bytes (wc_crc c) (map (item_record c) its)"

lemma crash_items:
  assumes "good_codec c" and "\<forall>it\<in>set all. fits c it \<and> matches start it" and "prefix reached (item_bytes c all)"
    and "prefix base all" and "prefix (item_bytes c base) reached" and "ItemSnap s \<in> set base"
  shows "\<exists>its w'. prefix its all
     \<and> (\<forall>part. prefix part all \<and> prefix (item_bytes c part) reached \<longrightarrow> prefix part its)
     \<and> wal_read_all c HardState [] (reopened ftell reached seq start)
       = Inr (w', rp_hs (replayed start its), rp_ents (replayed start its), Ok)
     \<and> wal_has c w' its []"
proof -
  let ?enc = "\<lambda>(t, data). encode_record (wc_crc c) t data"
  obtain rs torn where r: "reached = concat (map ?enc rs) @ torn" "prefix rs (map (item_record c) all)"
      "torn = [] \<or> (\<exists>r\<in>set (map (item_record c) all). strict_prefix torn (?enc r))"
    using split_records[OF assms(3)] by metis
  obtain its where its: "rs = map (item_record c) its" "prefix its all"
    using map_prefix_records[OF r(2)] by metis
  have ok: "\<forall>r\<in>set (map (item_record c) all). wal_ok r" using assms(2) by (auto intro: item_ok)
  then have torn: "torn = [] \<or> (\<exists>r. wal_ok r \<and> strict_prefix torn (?enc r))" using r(3) by blast
  have whole: "prefix part its" if "prefix part all" "prefix (item_bytes c part) reached" for part
  proof -
    have "prefix (map (item_record c) part) (map (item_record c) its)"
      using wal_format.whole_records[OF r(1) torn r(2) map_mono_prefix [OF that(1)] ok that(2)] its(1) by simp
    then have "length part \<le> length its" using prefix_length_le by fastforce
    then show ?thesis using that(1) its(2) by (metis prefix_length_prefix)
  qed
  have all: "\<forall>it\<in>set its. fits c it \<and> matches start it" using assms(2) its(2) by (auto dest: set_mono_prefix)
  have snap: "ItemSnap s \<in> set its" using whole[OF assms(4,5)] assms(6) by (auto dest: set_mono_prefix)
  have torn': "torn = [] \<or> (\<exists>it. fits c it \<and> strict_prefix torn (encode_record (wc_crc c) (fst (item_record c it)) (snd (item_record c it))))"
    using r(3) assms(2) by (auto simp: case_prod_unfold)
  obtain w' where "wal_read_all c HardState [] (reopened ftell reached seq start)
       = Inr (w', rp_hs (replayed start its), rp_ents (replayed start its), Ok)" "wal_has c w' its []"
    using read_reopened[OF assms(1) all snap torn', of ftell seq] r(1) its(1) by auto
  then show ?thesis using its(2) whole by (intro exI [of _ its] exI [of _ w']) simp
qed

text \<open>
  C28: Crash recovery. Take a log to which items have been written, part of them handed to the
  stream by \<open>sync\<close> and the others still in the writer's buffer, and let the process stop when only
  an initial part of those bytes, possibly ending in the middle of a record, has reached the file;
  the record of a snapshot is in it. Reopening the file and replaying it does not fail: it returns
  the hard state and the entries of an initial part of the items, in their order, with every item
  that is in the file completely. The torn end is cut off, so that the log goes on after the last
  whole record.
\<close>

theorem wal_crash_recovery:
  assumes "good_codec c" and "wal_has c w disk pend" and "\<forall>it\<in>set (disk @ pend). fits c it \<and> matches start it"
    and "prefix reached (wf_content (last (w_files w)) @ wf_buffer (last (w_files w)))"
    and "prefix base (disk @ pend)" and "prefix (item_bytes c base) reached" and "ItemSnap s \<in> set base"
  shows "\<exists>its w'. prefix its (disk @ pend)
     \<and> (\<forall>part. prefix part (disk @ pend) \<and> prefix (item_bytes c part) reached \<longrightarrow> prefix part its)
     \<and> wal_read_all c HardState [] (reopened ftell reached seq start)
       = Inr (w', rp_hs (replayed start its), rp_ents (replayed start its), Ok)
     \<and> wal_has c w' its []"
proof -
  have "wf_content (last (w_files w)) @ wf_buffer (last (w_files w)) = item_bytes c (disk @ pend)"
    using assms(2) by (auto simp: wal_has_def)
  then show ?thesis using crash_items[OF assms(1,3) _ assms(5-7)] assms(4) by simp
qed

section \<open>The log mirrors the storage\<close>

lemma vec_resize_shrink: "n \<le> length xs \<Longrightarrow> vec_resize xs n d = take n xs"
  by (simp add: vec_resize_def)

text \<open>Replaying a batch of entries does to the vector what appending it does to the storage.\<close>

lemma replay_entries:
  assumes "rp_ents rp = map Some xs" and "contig k es" and "k \<le> unat (ws_index start) + length xs + 1"
  shows "rp_ents (fold (apply_item start) (map ItemEntry es) rp) = map Some (splice (unat (ws_index start)) xs es)
     \<and> rp_hs (fold (apply_item start) (map ItemEntry es) rp) = rp_hs rp"
  using assms
proof (induction es arbitrary: rp xs k)
  case Nil
  then show ?case by (simp add: splice_def)
next
  case (Cons e es)
  let ?b = "unat (ws_index start)" and ?rp = "apply_item start (ItemEntry e) rp"
  have k: "unat (e_index e) = k" "contig (Suc k) es" using Cons.prems(2) by simp_all
  show ?case
  proof (cases "?b < k")
    case False
    then have "rp_ents ?rp = map Some xs" "rp_hs ?rp = rp_hs rp"
      using k(1) Cons.prems(1) by (simp_all add: word_less_nat_alt)
    moreover have "splice ?b xs (e # es) = splice ?b xs es"
      using False k by (cases es) (auto simp: splice_def Let_def Suc_diff_le not_less)
    ultimately show ?thesis using Cons.IH[of ?rp xs "Suc k"] Cons.prems(3) False k(2) by simp
  next
    case True
    let ?xs = "take (k - (?b + 1)) xs @ [e]"
    have "ws_index start < e_index e" using True k(1) by (simp add: word_less_nat_alt)
    moreover from this have "unat (e_index e - ws_index start - 1) = k - (?b + 1)"
      using True k(1) by (simp add: unat_sub word_le_nat_alt word_less_nat_alt unat_sub_1)
    ultimately have "rp_ents ?rp = map Some ?xs" "rp_hs ?rp = rp_hs rp"
      using Cons.prems(1,3) True by (simp_all add: vec_resize_shrink take_map)
    moreover have "Suc k \<le> ?b + length ?xs + 1" using Cons.prems(3) True by simp
    moreover have "splice ?b ?xs es = splice ?b xs (e # es)"
      using True k Cons.prems(3) by (cases es) (auto simp: splice_def Let_def)
    ultimately show ?thesis using Cons.IH[of ?rp ?xs "Suc k"] k(2) by simp
  qed
qed

definition same_vote :: "hard_state \<Rightarrow> hard_state \<Rightarrow> bool" where
  "same_vote a b \<longleftrightarrow> hs_term a = hs_term b \<and> hs_vote a = hs_vote b"

definition commit_only :: "wal \<Rightarrow> wal_item \<Rightarrow> bool" where
  "commit_only w it \<longleftrightarrow> (\<exists>h. it = ItemState h \<and> same_vote h (w_state w))"

lemma replay_commits:
  assumes "\<forall>it\<in>set its. commit_only w it" and "same_vote (rp_hs rp) (w_state w)"
  shows "rp_ents (fold (apply_item start) its rp) = rp_ents rp
     \<and> same_vote (rp_hs (fold (apply_item start) its rp)) (w_state w)"
  using assms by (induction its arbitrary: rp) (auto simp: commit_only_def)

text \<open>
  The log and the storage agree: what is in the file replays to the entries of the storage and to a
  hard state with the last saved term and vote; what is only in the buffer are hard states that
  differ from it in the commit position.
\<close>

definition mirrors :: "wal_codec \<Rightarrow> wal_snapshot \<Rightarrow> wal \<Rightarrow> mem_storage \<Rightarrow> bool" where
  "mirrors c start w st \<longleftrightarrow> wf_storage st \<and> st_base st = unat (ws_index start) \<and>
     (\<exists>disk pend s. wal_has c w disk pend \<and> ItemSnap s \<in> set disk
        \<and> (\<forall>it\<in>set (disk @ pend). fits c it \<and> matches start it)
        \<and> (\<forall>it\<in>set pend. commit_only w it)
        \<and> rp_ents (replayed start disk) = map Some (st_ents st)
        \<and> same_vote (rp_hs (replayed start disk)) (w_state w))"

lemma mirrorsI:
  assumes "wal_has c w disk pend" and "ItemSnap s \<in> set disk"
    and "\<forall>it\<in>set (disk @ pend). fits c it \<and> matches start it" and "\<forall>it\<in>set pend. commit_only w it"
    and "rp_ents (replayed start disk) = map Some (st_ents st)" and "same_vote (rp_hs (replayed start disk)) (w_state w)"
    and "wf_storage st" and "st_base st = unat (ws_index start)"
  shows "mirrors c start w st"
  unfolding mirrors_def using assms by blast

definition batch_ok :: "mem_storage \<Rightarrow> entry list \<Rightarrow> bool" where
  "batch_ok st es \<longleftrightarrow> es = [] \<or>
     (let k = unat (e_index (hd es)) in
      contig k es \<and> k \<le> st_base st + length (st_ents st) + 1 \<and> k + length es < 2 ^ 64)"

lemma replayed_append: "replayed start (xs @ ys) = fold (apply_item start) ys (replayed start xs)"
  by (simp add: replayed_def)

lemma mirrors_save:
  assumes "mirrors c start w st" and "batch_ok st es" and "\<forall>it\<in>set (saved_items hs es). fits c it"
  shows "\<exists>w' st'. wal_save c hs es w = Inr w' \<and> storage_append es st = Inr (st', Ok) \<and> mirrors c start w' st'
     \<and> w_state w' = (if hs = HardState then w_state w else hs)"
proof -
  obtain disk pend s where m: "wal_has c w disk pend" "ItemSnap s \<in> set disk"
      "\<forall>it\<in>set (disk @ pend). fits c it \<and> matches start it" "\<forall>it\<in>set pend. commit_only w it"
      "rp_ents (replayed start disk) = map Some (st_ents st)" "same_vote (rp_hs (replayed start disk)) (w_state w)"
      "wf_storage st" "st_base st = unat (ws_index start)"
    using assms(1) unfolding mirrors_def by blast
  obtain k where k: "contig k es" "k \<le> st_base st + length (st_ents st) + 1" "k + length es < 2 ^ 64"
  proof (cases "es = []")
    case True
    then show ?thesis using that [of 0] by simp
  next
    case False
    then show ?thesis using assms(2) that [of "unat (e_index (hd es))"] by (simp add: batch_ok_def Let_def)
  qed
  obtain st' where st': "storage_append es st = Inr (st', Ok)" "wf_storage st'" "st_base st' = st_base st"
      "st_ents st' = splice (st_base st) (st_ents st) es"
    using storage_append_ok[OF m(7) k] by auto
  have sm: "\<forall>it\<in>set (saved_items hs es). matches start it" by (auto simp: saved_items_def)
  obtain w' where w': "wal_save c hs es w = Inr w'" "w_state w' = (if hs = HardState then w_state w else hs)"
      "wal_has c w' (disk @ pend @ saved_items hs es) []
       \<or> (wal_has c w' disk (pend @ saved_items hs es)
          \<and> es = [] \<and> (hs = HardState \<or> (hs_vote hs = hs_vote (w_state w) \<and> hs_term hs = hs_term (w_state w))))"
    using wal_save_has[OF m(1), of hs es] by auto
  from w'(3) have "mirrors c start w' st'"
  proof (rule disjE)
    assume has: "wal_has c w' (disk @ pend @ saved_items hs es) []"
    let ?rp = "replayed start (disk @ pend)"
    have rp: "rp_ents ?rp = map Some (st_ents st)" "same_vote (rp_hs ?rp) (w_state w)"
      using replay_commits[OF m(4,6), of start] m(5) by (simp_all add: replayed_append)
    note es = replay_entries[OF rp(1) k(1) k(2) [unfolded m(8)]]
    have "rp_ents (replayed start (disk @ pend @ saved_items hs es)) = map Some (st_ents st')"
      using es st'(4) m(8) by (simp add: replayed_append saved_items_def)
    moreover have "same_vote (rp_hs (replayed start (disk @ pend @ saved_items hs es))) (w_state w')"
      using es rp(2) w'(2) by (simp add: replayed_append saved_items_def same_vote_def)
    moreover have "\<forall>it\<in>set (disk @ pend @ saved_items hs es). fits c it \<and> matches start it"
      using m(3) assms(3) sm by (simp add: ball_Un)
    ultimately show ?thesis
      using m(2,8) st'(2,3) by (intro mirrorsI [OF has, of s]) simp_all
  next
    assume buf: "wal_has c w' disk (pend @ saved_items hs es) \<and> es = []
      \<and> (hs = HardState \<or> (hs_vote hs = hs_vote (w_state w) \<and> hs_term hs = hs_term (w_state w)))"
    then have has: "wal_has c w' disk (pend @ saved_items hs es)" and e: "es = []"
      and v: "hs = HardState \<or> (hs_vote hs = hs_vote (w_state w) \<and> hs_term hs = hs_term (w_state w))" by blast+
    have sv: "same_vote (w_state w) (w_state w')" using v w'(2) by (auto simp: same_vote_def)
    have co: "\<forall>it\<in>set (pend @ saved_items hs es). commit_only w' it"
    proof
      fix it assume "it \<in> set (pend @ saved_items hs es)"
      then consider "it \<in> set pend" | "hs \<noteq> HardState" "it = ItemState hs"
        using e by (auto simp: saved_items_def split: if_splits)
      then show "commit_only w' it"
      proof cases
        case 1
        then obtain h where "it = ItemState h" "same_vote h (w_state w)" using m(4) by (auto simp: commit_only_def)
        then show ?thesis using sv by (simp add: commit_only_def same_vote_def)
      next
        case 2
        then show ?thesis using w'(2) by (simp add: commit_only_def same_vote_def)
      qed
    qed
    have "st_ents st' = st_ents st" using st'(4) e by (simp add: splice_def)
    moreover have "\<forall>it\<in>set (disk @ pend @ saved_items hs es). fits c it \<and> matches start it"
      using m(3) assms(3) sm by (simp add: ball_Un)
    moreover have "same_vote (rp_hs (replayed start disk)) (w_state w')" using m(6) sv by (simp add: same_vote_def)
    ultimately show ?thesis
      using m(5,8) st'(2,3) by (intro mirrorsI [OF has m(2) _ co]) simp_all
  qed
  then show ?thesis using w'(1,2) st'(1) by blast
qed


section \<open>Names and the search for the first file\<close>

lemma parse_wal_name_inverse:
  assumes "has_extension ext ''.wal''"
  shows "parse_wal_name ext (wal_name seq idx) = Some (seq, idx)"
proof -
  let ?a = "hex_pad 16 (unat seq)" and ?b = "hex_pad 16 (unat idx)"
  have "ext (wal_name seq idx) = ''.wal''" using ext_numbered[OF assms] by (simp add: wal_name_def)
  moreover have "take (length (wal_name seq idx) - 4) (wal_name seq idx) = ?a @ CHR ''-'' # ?b"
    by (simp add: wal_name_def numbered_name_def)
  ultimately show ?thesis
    by (simp add: parse_wal_name_def Let_def wal_name_def numbered_name_def)
qed

lemma search_loop_segments:
  assumes "has_extension ext ''.wal''" and "i < length segs"
  shows "search_loop ext (map (\<lambda>(s, k). wal_name s k) segs) idx i =
     Inr (if \<exists>j\<le>i. snd (segs ! j) \<le> idx then Some (GREATEST j. j \<le> i \<and> snd (segs ! j) \<le> idx) else None)"
  using assms(2)
proof (induction i)
  case 0
  have "(GREATEST j. j = 0 \<and> snd (segs ! j) \<le> idx) = 0" if "snd (segs ! 0) \<le> idx"
    using that by (intro Greatest_equality) auto
  then show ?case using 0
    by (subst search_loop.simps) (auto simp: parse_wal_name_inverse [OF assms(1)] case_prod_unfold)
next
  case (Suc i)
  show ?case
  proof (cases "snd (segs ! Suc i) \<le> idx")
    case True
    then have "(GREATEST j. j \<le> Suc i \<and> snd (segs ! j) \<le> idx) = Suc i" by (intro Greatest_equality) auto
    then show ?thesis using True Suc.prems
      by (subst search_loop.simps) (auto simp: parse_wal_name_inverse [OF assms(1)] case_prod_unfold)
  next
    case False
    then have "j \<le> Suc i \<and> snd (segs ! j) \<le> idx \<longleftrightarrow> j \<le> i \<and> snd (segs ! j) \<le> idx" for j
      by (auto simp: le_Suc_eq)
    then show ?thesis using False Suc
      by (subst search_loop.simps) (simp add: parse_wal_name_inverse [OF assms(1)] case_prod_unfold)
  qed
qed

text \<open>
  The search for the file to start the replay from. Given the names of the segments in order,
  each written with the sequence number and the first index of its segment, it returns the position
  of the last segment whose first index is not past the snapshot, and reports that there is none
  exactly when every segment starts past it.
\<close>

lemma search_index_finds:
  assumes "has_extension ext ''.wal''" and "segs \<noteq> []"
  shows "\<exists>found. search_index ext (map (\<lambda>(s, k). wal_name s k) segs) idx = Inr found
     \<and> (found = None \<longleftrightarrow> (\<forall>(s, k)\<in>set segs. idx < k))
     \<and> (\<forall>i. found = Some i \<longrightarrow> i < length segs \<and> snd (segs ! i) \<le> idx
          \<and> (\<forall>j. i < j \<and> j < length segs \<longrightarrow> idx < snd (segs ! j)))"
proof -
  let ?n = "length segs - 1" and ?P = "\<lambda>j. j \<le> length segs - 1 \<and> snd (segs ! j) \<le> idx"
  have n: "?n < length segs" using assms(2) by (cases segs) auto
  let ?found = "if \<exists>j\<le>?n. snd (segs ! j) \<le> idx then Some (Greatest ?P) else None"
  have "search_index ext (map (\<lambda>(s, k). wal_name s k) segs) idx = Inr ?found"
    using search_loop_segments[OF assms(1) n] assms(2) by (simp add: search_index_def)
  moreover have "?found = None \<longleftrightarrow> (\<forall>(s, k)\<in>set segs. idx < k)"
  proof -
    have "j \<le> ?n \<longleftrightarrow> j < length segs" for j using n by linarith
    then show ?thesis by (force simp: all_set_conv_all_nth case_prod_unfold not_le [symmetric])
  qed
  moreover have "i < length segs \<and> snd (segs ! i) \<le> idx \<and> (\<forall>j. i < j \<and> j < length segs \<longrightarrow> idx < snd (segs ! j))"
    if "?found = Some i" for i
  proof -
    have ex: "\<exists>j. ?P j" and i: "i = Greatest ?P" using that by (auto split: if_splits)
    have P: "?P i" unfolding i by (rule GreatestI_ex_nat [OF ex, of ?n]) simp
    have "j \<le> i" if "?P j" for j unfolding i by (rule Greatest_le_nat [of ?P j ?n]) (use that in auto)
    then show ?thesis using P n by (fastforce simp: not_le [symmetric])
  qed
  ultimately show ?thesis by (intro exI [of _ ?found] conjI allI impI) blast+
qed

lemma suffix_of_wal: "has_extension suffix_of ''.wal''"
  using suffix_of_ext[of "''wal''"] by (simp add: has_extension_def)

section \<open>Durability\<close>

text \<open>
  The rounds of a server: every hard state and every batch of entries is first saved to the log and
  the entries are then appended to the storage (\<open>RaftNode::pull_ready_events\<close>).
\<close>

fun save_rounds :: "wal_codec \<Rightarrow> (hard_state \<times> entry list) list \<Rightarrow> wal \<Rightarrow> mem_storage \<Rightarrow> (wal \<times> mem_storage) res" where
  "save_rounds c [] w st = Inr (w, st)"
| "save_rounds c ((hs, es) # rs) w st =
     rbind (wal_save c hs es w) (\<lambda>w1.
     rbind (storage_append es st) (\<lambda>(st1, _). save_rounds c rs w1 st1))"

fun rounds_ok :: "wal_codec \<Rightarrow> (hard_state \<times> entry list) list \<Rightarrow> mem_storage \<Rightarrow> bool" where
  "rounds_ok c [] st \<longleftrightarrow> True"
| "rounds_ok c ((hs, es) # rs) st \<longleftrightarrow> batch_ok st es \<and> (\<forall>it\<in>set (saved_items hs es). fits c it)
     \<and> (case storage_append es st of Inl _ \<Rightarrow> False | Inr (st1, _) \<Rightarrow> rounds_ok c rs st1)"

text \<open>The last hard state handed to the log that was not empty.\<close>

fun last_state :: "hard_state \<Rightarrow> (hard_state \<times> entry list) list \<Rightarrow> hard_state" where
  "last_state h [] = h"
| "last_state h ((hs, es) # rs) = last_state (if hs = HardState then h else hs) rs"

lemma save_rounds_mirror:
  assumes "mirrors c start w st" and "rounds_ok c rs st"
  shows "\<exists>w' st'. save_rounds c rs w st = Inr (w', st') \<and> mirrors c start w' st' \<and> w_state w' = last_state (w_state w) rs"
  using assms
proof (induction rs arbitrary: w st)
  case (Cons r rs)
  obtain hs es where r: "r = (hs, es)" by (cases r)
  then have ok: "batch_ok st es" "\<forall>it\<in>set (saved_items hs es). fits c it" using Cons.prems(2) by auto
  obtain w1 st1 where 1: "wal_save c hs es w = Inr w1" "storage_append es st = Inr (st1, Ok)" "mirrors c start w1 st1"
      "w_state w1 = (if hs = HardState then w_state w else hs)"
    using mirrors_save[OF Cons.prems(1) ok] by blast
  have "rounds_ok c rs st1" using Cons.prems(2) r 1(2) by simp
  from Cons.IH[OF 1(3) this] show ?case using r 1(1,2,4) by simp
qed simp

text \<open>A log that has just been created and opened is the log of an empty storage.\<close>

definition wal_start :: wal_snapshot where
  "wal_start = \<lparr>ws_index = 0, ws_term = 0\<rparr>"

lemma open_single:
  assumes "has_extension ext ''.wal''"
  shows "wal_open ext ftell [(wal_name 0 0, content)] start = Inr (reopened ftell content 0 start)"
proof -
  have "ext (wal_name 0 0) = ''.wal''" using ext_numbered[OF assms] by (simp add: wal_name_def)
  then show ?thesis
    by (simp add: wal_open_def get_wal_names_def search_index_def search_loop.simps is_valid_seq_def
        parse_wal_name_inverse [OF assms] reopened_def Let_def)
qed

lemma open_created:
  assumes "has_extension ext ''.wal''"
  shows "wal_open ext ftell (wal_create c ftell []) wal_start
     = Inr \<lparr>w_state = HardState, w_start = wal_start, w_enti = 0,
            w_files = [WAL_File ftell (wal_bytes (wc_crc c) [item_record c (ItemSnap wal_start)]) 0]\<rparr>"
proof -
  let ?bytes = "encode_record (wc_crc c) 4 (pk (wc_snap c) \<lparr>ws_index = 0, ws_term = 0\<rparr>)"
  have "?bytes \<noteq> []" by (simp add: encode_record_split length_0_conv [symmetric] del: length_0_conv)
  then have dir: "wal_create c ftell [] = [(wal_name 0 0, ?bytes)]"
    by (simp add: wal_create_def Let_def file_sync_def file_append_def WAL_File_def)
  show ?thesis unfolding dir using open_single[OF assms] by (simp add: reopened_def wal_start_def)
qed

lemma open_created_mirrors:
  assumes "fits c (ItemSnap wal_start)"
    and "w = \<lparr>w_state = HardState, w_start = wal_start, w_enti = 0,
            w_files = [WAL_File ftell (wal_bytes (wc_crc c) [item_record c (ItemSnap wal_start)]) 0]\<rparr>"
  shows "mirrors c wal_start w MemoryStorage"
  using assms wf_MemoryStorage
  by (intro mirrorsI [of _ _ "[ItemSnap wal_start]" "[]" wal_start])
     (simp_all add: wal_has_def WAL_File_def replayed_def same_vote_def MemoryStorage_def st_ents_def st_base_def
        Entry_def wal_start_def)

lemma crash_mirror:
  assumes "good_codec c" and "mirrors c start w st" and "prefix reached (wf_buffer (last (w_files w)))"
  shows "\<exists>w' hs. wal_read_all c HardState [] (reopened ftell (wf_content (last (w_files w)) @ reached) seq start)
       = Inr (w', hs, map Some (st_ents st), Ok) \<and> same_vote hs (w_state w)"
proof -
  obtain disk pend s where m: "wal_has c w disk pend" "ItemSnap s \<in> set disk"
      "\<forall>it\<in>set (disk @ pend). fits c it \<and> matches start it" "\<forall>it\<in>set pend. commit_only w it"
      "rp_ents (replayed start disk) = map Some (st_ents st)" "same_vote (rp_hs (replayed start disk)) (w_state w)"
    using assms(2) unfolding mirrors_def by blast
  have f: "wf_content (last (w_files w)) = item_bytes c disk" "wf_buffer (last (w_files w)) = item_bytes c pend"
    using m(1) by (auto simp: wal_has_def)
  have "prefix (item_bytes c disk @ reached) (item_bytes c (disk @ pend))" using assms(3) f(2) by simp
  from crash_items[OF assms(1) m(3) this _ _ m(2), of ftell seq]
  obtain its w' where i: "prefix its (disk @ pend)"
      "\<forall>part. prefix part (disk @ pend) \<and> prefix (item_bytes c part) (item_bytes c disk @ reached) \<longrightarrow> prefix part its"
      "wal_read_all c HardState [] (reopened ftell (item_bytes c disk @ reached) seq start)
       = Inr (w', rp_hs (replayed start its), rp_ents (replayed start its), Ok)" by auto
  then have r: "prefix disk its" "prefix its (disk @ pend)"
      "wal_read_all c HardState [] (reopened ftell (wf_content (last (w_files w)) @ reached) seq start)
       = Inr (w', rp_hs (replayed start its), rp_ents (replayed start its), Ok)" using f(1) by simp_all
  obtain more where more: "its = disk @ more" "prefix more pend" using r(1,2) by (auto simp: prefix_def)
  then have "\<forall>it\<in>set more. commit_only w it" using m(4) by (auto dest: set_mono_prefix)
  from replay_commits[OF this m(6), of start] show ?thesis using r(3) m(5) more(1) by (simp add: replayed_append)
qed

text \<open>
  C9: Durability. Start from a freshly created and opened log and an empty storage and save any
  number of rounds, each with a batch that attaches to the entries before it (overwriting a suffix of
  them is allowed). If what \<open>sync\<close> handed to the stream is in the file when the process stops
  (\<open>sync\<close> itself only calls \<open>fwrite\<close>), then whatever part of the writer's own buffer has
  reached the file too, the replay returns exactly the entries of the storage, in order and without
  gaps, and a hard state with the last saved term and vote: the rule by which \<open>save\<close> decides to
  sync leaves nothing in the buffer that a restart depends on.
\<close>

theorem wal_durability:
  assumes "good_codec c" and "has_extension ext ''.wal''" and "fits c (ItemSnap wal_start)"
    and "rounds_ok c rs MemoryStorage"
  shows "\<exists>w w' st'. wal_open ext ftell (wal_create c ftell []) wal_start = Inr w
     \<and> save_rounds c rs w MemoryStorage = Inr (w', st')
     \<and> (\<forall>reached. prefix reached (wf_buffer (last (w_files w'))) \<longrightarrow>
          (\<exists>w'' hs. wal_read_all c HardState [] (reopened ftell (wf_content (last (w_files w')) @ reached) 0 wal_start)
             = Inr (w'', hs, map Some (st_ents st'), Ok) \<and> same_vote hs (last_state HardState rs)))"
proof -
  define w where "w = \<lparr>w_state = HardState, w_start = wal_start, w_enti = 0,
      w_files = [WAL_File ftell (wal_bytes (wc_crc c) [item_record c (ItemSnap wal_start)]) 0]\<rparr>"
  have m: "mirrors c wal_start w MemoryStorage" by (rule open_created_mirrors [OF assms(3) w_def])
  obtain w' st' where r: "save_rounds c rs w MemoryStorage = Inr (w', st')" "mirrors c wal_start w' st'"
      "w_state w' = last_state HardState rs"
    using save_rounds_mirror[OF m assms(4)] by (auto simp: w_def)
  have "wal_open ext ftell (wal_create c ftell []) wal_start = Inr w"
    using open_created[OF assms(2)] by (simp add: w_def)
  then show ?thesis
    using r crash_mirror[OF assms(1) r(2), of _ ftell 0] by (intro exI [of _ w] exI [of _ w'] exI [of _ st']) simp
qed

section \<open>A record that is too long\<close>

text \<open>
  C34: A record with more data than the three bytes of its length field can say is written with
  the length clamped to 0xFFFFFF and all its data. The replay then takes the first 0xFFFFFF bytes for
  the data: unless their checksum happens to be that of the whole, it stops there, cuts the file off
  before the record and drops it together with everything that was saved after it.
\<close>

theorem oversize_record_lost:
  assumes "t \<noteq> 0" and "0x00FFFFFF < length data" and "length data < 2 ^ 32"
    and "wc_crc c data \<noteq> 0" and "wc_crc c (take 0x00FFFFFF data) \<noteq> wc_crc c data"
    and "\<forall>r\<in>set rs. wal_ok r"
  shows "read_loop c start 0 (wal_bytes (wc_crc c) rs @ encode_record (wc_crc c) t data @ later) rp =
     rbind (rfold (replay_record c start) rs rp) (\<lambda>rp1. Inr (Some (length (wal_bytes (wc_crc c) rs)), rp1))"
proof -
  let ?rest = "encode_record (wc_crc c) t data @ later"
  let ?bs = "wal_bytes (wc_crc c) rs @ ?rest" and ?k = "Suc (length (wal_bytes (wc_crc c) rs @ encode_record (wc_crc c) t data @ later))"
  have n: "unat (of_nat (length data) :: u32) = length data" using assms(3) by (simp add: unat_of_nat take_bit_eq_mod)
  then have "min (of_nat (length data)) MAX_WAL_RECORD_LEN = (0x00FFFFFF :: u32)"
    using assms(2) by (simp add: min_def word_le_nat_alt)
  then have "unat (WAL_Record_len (record_of_image (wal_header (wc_crc c) t data))) = 0x00FFFFFF"
    unfolding wal_header_fields by simp
  then obtain m where m: "m = (0x00FFFFFF :: nat)"
      and len: "unat (WAL_Record_len (record_of_image (wal_header (wc_crc c) t data))) = m" by blast
  have ty: "wr_type (record_of_image (wal_header (wc_crc c) t data)) \<noteq> 0" using assms(1) by (simp add: wal_header_fields)
  note short = assms(2) [folded m] and crc = assms(5) [folded m]
  have "\<not> length (data @ later) < m" "take m (data @ later) = take m data"
    using short by simp_all
  then have torn: "scan_record (wc_crc c) ?rest = ScanTorn"
    using scan_header[OF length_wal_header ty, of "wc_crc c" "data @ later"] assms(4) crc
    by (simp only: encode_record_split append_assoc Let_def len wal_header_fields(2) if_False if_True simp_thms)
  then have "scan_next (wc_crc c) ?rest = None" by (simp add: scan_next_def)
  moreover have "length rs < ?k" using wal_format.length_records[OF assms(6), of "wc_crc c"] by simp
  ultimately have "scan_all ?k (scan_next (wc_crc c)) ?bs = (rs, ?rest)"
    by (rule wal_format.scan_all_stop [OF assms(6)])
  from read_loop_scan(1)[OF _ this, of start 0 rp] show ?thesis using torn by simp
qed

section \<open>Witnesses\<close>

text \<open>A concrete instance of the parameters: fixed-width fields in the order of the structures.\<close>

definition sample_codec :: wal_codec where
  "sample_codec =
     \<lparr>wc_entry = \<lparr>pk = (\<lambda>e. e_type e
          # u64_image (e_term e) @ u64_image (e_index e) @ e_data e),
        up = (\<lambda>bs. Some \<lparr>e_type = hd bs,
          e_term = u64_of_image (take 8 (drop 1 bs)), e_index = u64_of_image (take 8 (drop 9 bs)), e_data = drop 17 bs\<rparr>)\<rparr>,
      wc_state = \<lparr>pk = (\<lambda>h. u64_image (hs_term h) @ u64_image (hs_vote h) @ u64_image (hs_commit h)),
        up = (\<lambda>bs. Some \<lparr>hs_term = u64_of_image (take 8 bs), hs_vote = u64_of_image (take 8 (drop 8 bs)),
          hs_commit = u64_of_image (drop 16 bs)\<rparr>)\<rparr>,
      wc_snap = \<lparr>pk = (\<lambda>s. u64_image (ws_index s) @ u64_image (ws_term s)),
        up = (\<lambda>bs. Some \<lparr>ws_index = u64_of_image (take 8 bs), ws_term = u64_of_image (drop 8 bs)\<rparr>)\<rparr>,
      wc_crc = (\<lambda>bs. of_nat (length bs))\<rparr>"

lemma good_sample_codec: "good_codec sample_codec"
  by (auto simp: good_codec_def faithful_def sample_codec_def)

definition sample_batch :: "entry list" where
  "sample_batch = [Entry\<lparr>e_index := 1, e_term := 1\<rparr>, Entry\<lparr>e_index := 2, e_term := 1\<rparr>]"

definition sample_rounds :: "(hard_state \<times> entry list) list" where
  "sample_rounds = [(HardState\<lparr>hs_term := 1, hs_vote := 1\<rparr>, []), (HardState\<lparr>hs_term := 1, hs_vote := 1\<rparr>, sample_batch),
     (HardState\<lparr>hs_term := 1, hs_vote := 1, hs_commit := 2\<rparr>, [])]"

lemma sample_fits: "length (e_data e) < 100 \<Longrightarrow> fits sample_codec (ItemEntry e)" "fits sample_codec (ItemState h)"
    "fits sample_codec (ItemSnap s)"
  by (simp_all add: fits_def sample_codec_def)

lemma sample_batch_ok: "contig 1 sample_batch" "batch_ok MemoryStorage sample_batch" "batch_ok st []"
  by (simp_all add: contig_def sample_batch_def batch_ok_def MemoryStorage_def st_base_def st_ents_def Entry_def
      less_Suc_eq nth_Cons split: nat.splits)

lemma sample_rounds_ok: "rounds_ok sample_codec sample_rounds MemoryStorage"
proof -
  obtain st where "storage_append sample_batch MemoryStorage = Inr (st, Ok)"
    using storage_append_ok[OF wf_MemoryStorage sample_batch_ok(1)] by (auto simp: sample_batch_def)
  moreover have "\<forall>it\<in>set (saved_items hs es). fits sample_codec it" if "es = [] \<or> es = sample_batch" for hs es
    using that by (auto simp: saved_items_def sample_batch_def Entry_def intro!: sample_fits)
  then have "Ball (set (saved_items hs [])) (fits sample_codec)" "Ball (set (saved_items hs sample_batch)) (fits sample_codec)" for hs
    by blast+
  ultimately show ?thesis by (simp add: sample_rounds_def sample_batch_ok storage_append_def [of "[]"])
qed

definition sample_wal :: "wal_item list \<Rightarrow> wal_item list \<Rightarrow> wal" where
  "sample_wal disk pend = \<lparr>w_state = HardState, w_start = wal_start, w_enti = 0,
     w_files = [\<lparr>wf_buffer = wal_bytes (wc_crc sample_codec) (map (item_record sample_codec) pend), wf_seq = 0, wf_size = 0,
       wf_content = wal_bytes (wc_crc sample_codec) (map (item_record sample_codec) disk), wf_pos = 0\<rparr>]\<rparr>"

lemma sample_wal_has: "wal_has sample_codec (sample_wal disk pend) disk pend"
  by (simp add: wal_has_def sample_wal_def)

theorem wal_crash_recovery_witness:
  "\<exists>its w'. prefix its ([ItemSnap wal_start] @ map ItemEntry sample_batch)
     \<and> (\<forall>part. prefix part ([ItemSnap wal_start] @ map ItemEntry sample_batch)
          \<and> prefix (item_bytes sample_codec part) (item_bytes sample_codec [ItemSnap wal_start] @ [1, 17]) \<longrightarrow> prefix part its)
     \<and> wal_read_all sample_codec HardState []
         (reopened int (item_bytes sample_codec [ItemSnap wal_start] @ [1, 17]) 0 wal_start)
       = Inr (w', rp_hs (replayed wal_start its), rp_ents (replayed wal_start its), Ok)
     \<and> wal_has sample_codec w' its []"
proof -
  have "prefix (item_bytes sample_codec [ItemSnap wal_start] @ [1, 17])
      (item_bytes sample_codec ([ItemSnap wal_start] @ map ItemEntry sample_batch))"
    by (simp add: sample_batch_def encode_record_def record_image_def set_WAL_Record_len_def sample_codec_def Entry_def)
  then show ?thesis
    by (intro wal_crash_recovery [OF good_sample_codec sample_wal_has, of _ _ _ _ "[ItemSnap wal_start]" wal_start])
       (auto simp: sample_fits sample_batch_def Entry_def sample_wal_def)
qed

theorem wal_durability_witness:
  "\<exists>w w' st'. wal_open suffix_of int (wal_create sample_codec int []) wal_start = Inr w
     \<and> save_rounds sample_codec sample_rounds w MemoryStorage = Inr (w', st')
     \<and> (\<exists>w'' hs. wal_read_all sample_codec HardState []
            (reopened int (wf_content (last (w_files w')) @ wf_buffer (last (w_files w'))) 0 wal_start)
          = Inr (w'', hs, map Some (st_ents st'), Ok) \<and> hs_term hs = 1 \<and> hs_vote hs = 1)"
  using wal_durability[OF good_sample_codec suffix_of_wal sample_fits(3) sample_rounds_ok, of int]
  by (fastforce simp: sample_rounds_def same_vote_def HardState_def)

lemma sample_crc_zeros: "wc_crc sample_codec (replicate n b) = of_nat n"
  by (simp add: sample_codec_def)

theorem oversize_record_lost_witness:
  "\<forall>rp. read_loop sample_codec wal_start 0
     (encode_record (wc_crc sample_codec) wal_EntryType (replicate 0x01000000 0)) rp = Inr (Some 0, rp)"
proof -
  obtain n m where n: "n = (0x01000000 :: nat)" and m: "m = (0x00FFFFFF :: nat)" by blast
  have "min m n = m" "of_nat n \<noteq> (0 :: u32)" "of_nat m \<noteq> (of_nat n :: u32)" "m < n" "n < 2 ^ 32"
    by (simp_all add: n m)
  then show ?thesis
    using oversize_record_lost[of wal_EntryType "replicate n 0" sample_codec "[]" wal_start "[]", folded m]
    by (simp add: n [symmetric] sample_crc_zeros take_replicate)
qed

end
