(* ===== verification/Raft_Snap.thy ===== *)
theory Raft_Snap
  imports Raft_Bytes Raft_Status
begin

text \<open>
  The snapshot files (src/raft-kv/snap/snapshotter.h, snapshotter.cpp): one file per snapshot with a
  length, a checksum and the packed snapshot, named by term and index; loading tries the files from
  the newest name down and sets broken ones aside.

  The state is the directory. Parameters: msgpack for snapshots, the checksum, the extension of a
  path and \<open>fopen\<close>, which for a path to write to gives nothing or the error message. A
  conversion that fails is taken to leave the snapshot it was to fill as it was.
\<close>

section \<open>Names\<close>

definition snap_name :: "u64 \<Rightarrow> u64 \<Rightarrow> string" where
  "snap_name t i = numbered_name ''.snap'' t i"

definition get_snap_names :: "(string \<Rightarrow> string) \<Rightarrow> directory \<Rightarrow> string list" where
  "get_snap_names ext files = rev (sort (filter (\<lambda>n. ext n = ''.snap'') (map fst files)))"

section \<open>Files\<close>

record snapshot_record =
  sr_data_len :: u32
  sr_crc32 :: u32
  sr_data :: bytes

definition snapshot_image :: "snapshot_record \<Rightarrow> bytes" where
  "snapshot_image r = u32_image (sr_data_len r) @ u32_image (sr_crc32 r) @ take (unat (sr_data_len r)) (sr_data r)"

record snap_env =
  se_pack :: "snapshot packer"
  se_crc :: "bytes \<Rightarrow> u32"
  se_ext :: "string \<Rightarrow> string"
  se_fopen :: "string \<Rightarrow> string option"
  se_dir :: string

text \<open>The path is formatted into a buffer of 128 bytes; a path cut short may leave the directory.\<close>

definition save_path :: "snap_env \<Rightarrow> snapshot \<Rightarrow> string" where
  "save_path e s = take 127 (se_dir e @ ''/'' @ snap_name (md_term (s_metadata s)) (md_index (s_metadata s)))"

definition save_snap :: "snap_env \<Rightarrow> snapshot \<Rightarrow> directory \<Rightarrow> directory \<times> status" where
  "save_snap e s files =
     (let sbuf = pk (se_pack e) s;
          r = \<lparr>sr_data_len = of_nat (length sbuf), sr_crc32 = se_crc e sbuf, sr_data = sbuf\<rparr>;
          path = save_path e s;
          d = length (se_dir e) + 1 in
      case se_fopen e path of
        Some msg \<Rightarrow> (files, io_error msg)
      | None \<Rightarrow> ((if d < length path then AList.update (drop d path) (snapshot_image r) files else files), Ok))"

text \<open>What is read from the contents of a file; \<open>None\<close> is the jump to \<open>invalid_snap\<close>.\<close>

definition decode_snap :: "snap_env \<Rightarrow> bytes \<Rightarrow> snapshot option" where
  "decode_snap e content =
     (if length content < 8 then None
      else
        let data_len = u32_of_image (take 4 content);
            crc32 = u32_of_image (take 4 (drop 4 content));
            data = take (unat data_len) (drop 8 content) in
        if data_len = 0 \<or> crc32 = 0 then None
        else if length data \<noteq> unat data_len then None
        else if se_crc e data \<noteq> crc32 then None
        else up (se_pack e) data)"

definition load_snap :: "snap_env \<Rightarrow> string \<Rightarrow> snapshot \<Rightarrow> directory \<Rightarrow> (directory \<times> snapshot \<times> status) res" where
  "load_snap e name s files =
     (case map_of files name of
        None \<Rightarrow> Inl (Fatal ''rename: no such file'')
      | Some content \<Rightarrow>
          (case decode_snap e content of
             Some s1 \<Rightarrow> Inr (files, s1, Ok)
           | None \<Rightarrow> Inr (AList.update (name @ ''.broken'') content (AList.delete name files), s,
                        io_error ''unexpected empty snapshot'')))"

fun load_loop :: "snap_env \<Rightarrow> string list \<Rightarrow> snapshot \<Rightarrow> directory \<Rightarrow> (directory \<times> snapshot \<times> status) res" where
  "load_loop e [] s files = Inr (files, s, not_found ''snap not found'')"
| "load_loop e (n # ns) s files =
     rbind (load_snap e n s files) (\<lambda>(files1, s1, st).
       if is_ok st then Inr (files1, s1, Ok) else load_loop e ns s1 files1)"

definition load :: "snap_env \<Rightarrow> snapshot \<Rightarrow> directory \<Rightarrow> (directory \<times> snapshot \<times> status) res" where
  "load e s files = load_loop e (get_snap_names (se_ext e) files) s files"

section \<open>Loading\<close>

text \<open>
  What a directory promises: the snapshot in its newest intact file.
\<close>

definition intact :: "snap_env \<Rightarrow> directory \<Rightarrow> string \<Rightarrow> snapshot option" where
  "intact e files n = Option.bind (map_of files n) (decode_snap e)"

definition newest :: "snap_env \<Rightarrow> directory \<Rightarrow> string option" where
  "newest e files = find (\<lambda>n. intact e files n \<noteq> None) (get_snap_names (se_ext e) files)"

lemma status_simps [simp]: "is_ok Ok" "\<not> is_ok (io_error m)" "\<not> is_ok (not_found m)"
  by (simp_all add: io_error_def not_found_def)

lemma load_loop_finds:
  assumes "\<forall>n\<in>set ns. map_of files n \<noteq> None \<and> (\<forall>m\<in>set ns. n \<noteq> m @ ''.broken'')" and "distinct ns"
  shows "\<exists>files'. load_loop e ns s files =
       (case find (\<lambda>n. intact e files n \<noteq> None) ns of
          None \<Rightarrow> Inr (files', s, not_found ''snap not found'')
        | Some n \<Rightarrow> Inr (files', the (intact e files n), Ok))
     \<and> (\<forall>n. intact e files n \<noteq> None \<and> n \<in> set ns \<longrightarrow> map_of files' n = map_of files n)
     \<and> (\<forall>n. n \<notin> set ns \<and> (\<forall>m\<in>set ns. n \<noteq> m @ ''.broken'') \<longrightarrow> map_of files' n = map_of files n)"
  using assms
proof (induction ns arbitrary: files)
  case (Cons n ns)
  obtain content where c: "map_of files n = Some content" using Cons.prems(1) by auto
  show ?case
  proof (cases "decode_snap e content")
    case (Some s1)
    then show ?thesis using c by (intro exI [of _ files]) (simp add: load_snap_def intact_def)
  next
    case None
    let ?files = "AList.update (n @ ''.broken'') content (AList.delete n files)"
    have other: "map_of ?files m = map_of files m" if "m \<noteq> n" "m \<noteq> n @ ''.broken''" for m
      using that by (simp add: update_conv' delete_conv')
    have ne: "m \<noteq> n" "m \<noteq> n @ ''.broken''" if "m \<in> set ns" for m using Cons.prems that by auto
    have int: "intact e ?files m = intact e files m" if "m \<in> set ns" for m
      using other[OF ne[OF that]] by (simp add: intact_def)
    have p: "\<forall>m\<in>set ns. map_of ?files m \<noteq> None \<and> (\<forall>k\<in>set ns. m \<noteq> k @ ''.broken'')"
      using Cons.prems other ne by auto
    have find: "find (\<lambda>m. intact e ?files m \<noteq> None) ns = find (\<lambda>m. intact e files m \<noteq> None) ns"
      using int by (intro find_cong) auto
    obtain files' where f: "load_loop e ns s ?files =
         (case find (\<lambda>m. intact e files m \<noteq> None) ns of
            None \<Rightarrow> Inr (files', s, not_found ''snap not found'')
          | Some m \<Rightarrow> Inr (files', the (intact e ?files m), Ok))"
        "\<forall>m. intact e ?files m \<noteq> None \<and> m \<in> set ns \<longrightarrow> map_of files' m = map_of ?files m"
        "\<forall>m. m \<notin> set ns \<and> (\<forall>k\<in>set ns. m \<noteq> k @ ''.broken'') \<longrightarrow> map_of files' m = map_of ?files m"
      using Cons.IH[OF p] Cons.prems(2) unfolding find by auto
    have none: "intact e files n = None" using c None by (simp add: intact_def)
    have step: "load_loop e (n # ns) s files = load_loop e ns s ?files"
      using c None by (simp add: load_snap_def)
    have "load_loop e (n # ns) s files =
         (case find (\<lambda>m. intact e files m \<noteq> None) (n # ns) of
            None \<Rightarrow> Inr (files', s, not_found ''snap not found'')
          | Some m \<Rightarrow> Inr (files', the (intact e files m), Ok))"
    proof (cases "find (\<lambda>m. intact e files m \<noteq> None) ns")
      case (Some m)
      then have "m \<in> set ns" by (auto simp: find_Some_iff)
      then show ?thesis using Some none step f(1) int by simp
    qed (use none step f(1) in simp)
    moreover have "\<forall>m. intact e files m \<noteq> None \<and> m \<in> set (n # ns) \<longrightarrow> map_of files' m = map_of files m"
      using f(2) int other ne none by auto
    moreover have "\<forall>m. m \<notin> set (n # ns) \<and> (\<forall>k\<in>set (n # ns). m \<noteq> k @ ''.broken'') \<longrightarrow> map_of files' m = map_of files m"
      using f(3) other by auto
    ultimately show ?thesis by blast
  qed
qed simp

text \<open>The names with the extension, and the files among them that are intact.\<close>

definition snap_files :: "snap_env \<Rightarrow> directory \<Rightarrow> string set" where
  "snap_files e files = {n\<in>fst ` set files. se_ext e n = ''.snap'' \<and> intact e files n \<noteq> None}"

lemma newest_Max: "newest e files = (if snap_files e files = {} then None else Some (Max (snap_files e files)))"
proof -
  let ?ns = "get_snap_names (se_ext e) files"
  have "sorted_wrt (\<ge>) ?ns" by (simp add: get_snap_names_def sorted_wrt_rev)
  note found = find_descending[OF this, of "\<lambda>n. intact e files n \<noteq> None"]
  have eq: "{n\<in>set ?ns. intact e files n \<noteq> None} = snap_files e files"
    by (auto simp: get_snap_names_def snap_files_def)
  moreover have "(\<exists>n\<in>set ?ns. intact e files n \<noteq> None) \<longleftrightarrow> snap_files e files \<noteq> {}" unfolding eq [symmetric] by blast
  ultimately show ?thesis using found unfolding newest_def by simp
qed

definition wf_dir :: "snap_env \<Rightarrow> directory \<Rightarrow> bool" where
  "wf_dir e files \<longleftrightarrow> distinct (map fst files)
     \<and> (\<forall>n\<in>fst ` set files. se_ext e n = ''.snap'' \<longrightarrow> se_ext e (n @ ''.broken'') \<noteq> ''.snap'')"

lemma load_newest:
  assumes "wf_dir e files"
  shows "\<exists>files'. load e s files =
       (case newest e files of
          None \<Rightarrow> Inr (files', s, not_found ''snap not found'')
        | Some n \<Rightarrow> Inr (files', the (intact e files n), Ok))
     \<and> (\<forall>n\<in>snap_files e files. map_of files' n = map_of files n)"
proof -
  let ?ns = "get_snap_names (se_ext e) files"
  have set: "set ?ns = {n\<in>fst ` set files. se_ext e n = ''.snap''}" by (auto simp: get_snap_names_def)
  have "\<forall>n\<in>set ?ns. map_of files n \<noteq> None \<and> (\<forall>m\<in>set ?ns. n \<noteq> m @ ''.broken'')"
    using assms unfolding set wf_dir_def by (auto simp: map_of_eq_None_iff)
  moreover have "distinct ?ns"
    using assms by (simp add: get_snap_names_def wf_dir_def)
  ultimately obtain files' where "load_loop e ?ns s files =
       (case find (\<lambda>n. intact e files n \<noteq> None) ?ns of
          None \<Rightarrow> Inr (files', s, not_found ''snap not found'')
        | Some n \<Rightarrow> Inr (files', the (intact e files n), Ok))"
      "\<forall>n. intact e files n \<noteq> None \<and> n \<in> set ?ns \<longrightarrow> map_of files' n = map_of files n"
    using load_loop_finds[of ?ns files e s] by blast
  then show ?thesis
    unfolding load_def newest_def by (intro exI [of _ files']) (auto simp: set snap_files_def)
qed

section \<open>Saving\<close>

lemma image_parts:
  "take 4 (snapshot_image r) = u32_image (sr_data_len r)" "take 4 (drop 4 (snapshot_image r)) = u32_image (sr_crc32 r)"
  "drop 8 (snapshot_image r) = take (unat (sr_data_len r)) (sr_data r)" "8 \<le> length (snapshot_image r)"
  by (simp_all add: snapshot_image_def)

definition saved_image :: "snap_env \<Rightarrow> snapshot \<Rightarrow> bytes" where
  "saved_image e s = (let sbuf = pk (se_pack e) s in
     snapshot_image \<lparr>sr_data_len = of_nat (length sbuf), sr_crc32 = se_crc e sbuf, sr_data = sbuf\<rparr>)"

text \<open>What the format needs of a snapshot: msgpack round trip, a length of 32 bits, a checksum other than 0.\<close>

definition storable :: "snap_env \<Rightarrow> snapshot \<Rightarrow> bool" where
  "storable e s \<longleftrightarrow> (let sbuf = pk (se_pack e) s in
     up (se_pack e) sbuf = Some s \<and> sbuf \<noteq> [] \<and> length sbuf < 2 ^ 32 \<and> se_crc e sbuf \<noteq> 0)"

lemma decode_saved: "storable e s \<Longrightarrow> decode_snap e (saved_image e s) = Some s"
  by (simp add: decode_snap_def saved_image_def image_parts storable_def Let_def unat_of_nat take_bit_eq_mod
      not_less word_unat_eq_iff)

lemma decode_torn:
  assumes "storable e s" and "strict_prefix torn (saved_image e s)"
  shows "decode_snap e torn = None"
proof (cases "length torn < 8")
  case True
  then show ?thesis by (simp add: decode_snap_def)
next
  case False
  let ?img = "saved_image e s" and ?n = "length (pk (se_pack e) s)"
  have n: "unat (of_nat ?n :: u32) = ?n" using assms(1) by (simp add: storable_def Let_def unat_of_nat take_bit_eq_mod)
  obtain zs where zs: "?img = torn @ zs" "zs \<noteq> []" using assms(2) by (auto simp: strict_prefix_def prefix_def)
  have len: "length ?img = 8 + ?n" using n by (simp add: saved_image_def snapshot_image_def Let_def)
  have "take 4 torn = take 4 ?img" unfolding zs(1) using False by simp
  also have "\<dots> = u32_image (of_nat ?n)" by (simp add: saved_image_def image_parts Let_def)
  finally have "u32_of_image (take 4 torn) = of_nat ?n" by simp
  moreover have "length (drop 8 torn) < ?n" using len zs False by (auto simp: neq_Nil_conv)
  ultimately show ?thesis using n by (simp add: decode_snap_def Let_def)
qed

lemma save_snap_ok:
  assumes "se_fopen e (save_path e s) = None" and "length (se_dir e) \<le> 88"
  shows "save_snap e s files =
     (AList.update (snap_name (md_term (s_metadata s)) (md_index (s_metadata s))) (saved_image e s) files, Ok)"
  using assms by (simp add: save_snap_def save_path_def snap_name_def saved_image_def Let_def)

lemma snap_files_update:
  assumes "se_ext e n = ''.snap''"
  shows "snap_files e (AList.update n content files) =
     (if decode_snap e content = None then snap_files e files - {n} else insert n (snap_files e files - {n}))"
proof -
  have k: "fst ` set (AList.update n content files) = insert n (fst ` set files)" by (simp add: dom_update)
  have i: "intact e (AList.update n content files) m = (if m = n then decode_snap e content else intact e files m)" for m
    by (simp add: intact_def update_conv')
  show ?thesis unfolding snap_files_def k using assms by (auto simp: i)
qed

lemma finite_snap_files: "finite (snap_files e files)"
  by (simp add: snap_files_def)

lemma wf_dir_update:
  assumes "wf_dir e files" and "se_ext e (n @ ''.broken'') \<noteq> ''.snap''"
  shows "wf_dir e (AList.update n content files)"
  using assms by (auto simp: wf_dir_def dom_update distinct_update)


text \<open>
  C29: A saved snapshot is the one that is loaded. Save a snapshot into a directory in which every
  snapshot file belongs to one that is not newer, by term and then by index. Saving succeeds, and
  loading afterwards returns exactly the saved snapshot, whatever the other files contain; no intact
  file is touched.
\<close>

theorem snapshot_save_load:
  assumes "wf_dir e files" and "has_extension (se_ext e) ''.snap''" and "has_extension (se_ext e) ''.broken''"
    and "storable e s" and "se_fopen e (save_path e s) = None" and "length (se_dir e) \<le> 88"
    and "\<forall>n\<in>fst ` set files. se_ext e n = ''.snap'' \<longrightarrow> (\<exists>t i. n = snap_name t i
       \<and> (t < md_term (s_metadata s) \<or> (t = md_term (s_metadata s) \<and> i \<le> md_index (s_metadata s))))"
  shows "\<exists>files1 files2. save_snap e s files = (files1, Ok) \<and> load e s0 files1 = Inr (files2, s, Ok)
     \<and> (\<forall>n\<in>snap_files e files1. map_of files2 n = map_of files1 n)"
proof -
  let ?n = "snap_name (md_term (s_metadata s)) (md_index (s_metadata s))"
  let ?files = "AList.update ?n (saved_image e s) files"
  have ext: "se_ext e ?n = ''.snap''" using ext_numbered[OF assms(2)] by (simp add: snap_name_def)
  have "se_ext e (?n @ ''.broken'') \<noteq> ''.snap''"
    using ext_broken[OF assms(3)] by (simp add: snap_name_def)
  then have wf: "wf_dir e ?files" by (rule wf_dir_update [OF assms(1)])
  have sf: "snap_files e ?files = insert ?n (snap_files e files - {?n})"
    using snap_files_update[OF ext] decode_saved[OF assms(4)] by simp
  have "m \<le> ?n" if "m \<in> snap_files e files" for m
    using that assms(7) by (fastforce simp: snap_files_def snap_name_def numbered_name_less le_less numbered_name_inj)
  then have "Max (snap_files e ?files) = ?n" unfolding sf using finite_snap_files by (intro Max_eqI) auto
  then have "newest e ?files = Some ?n" using sf by (simp add: newest_Max)
  moreover have "intact e ?files ?n = Some s" by (simp add: intact_def update_conv' decode_saved [OF assms(4)])
  ultimately obtain files' where "load e s0 ?files = Inr (files', s, Ok)"
      "\<forall>n\<in>snap_files e ?files. map_of files' n = map_of ?files n"
    using load_newest[OF wf, of s0] by auto
  then show ?thesis using save_snap_ok[OF assms(5,6)] by blast
qed

text \<open>
  C30: An interrupted save does no harm. If the process stops while a snapshot file is written, so
  that only a proper initial part of it is on disk, the next load returns the same snapshot and the
  same status as it would have without that file, and every intact file is kept.
\<close>

theorem torn_snapshot_ignored:
  assumes "wf_dir e files" and "has_extension (se_ext e) ''.snap''" and "has_extension (se_ext e) ''.broken''"
    and "storable e s" and "strict_prefix torn (saved_image e s)"
    and "snap_name (md_term (s_metadata s)) (md_index (s_metadata s)) \<notin> fst ` set files"
  shows "\<exists>files1 files2 s1 st. load e s0 files = Inr (files1, s1, st)
     \<and> load e s0 (AList.update (snap_name (md_term (s_metadata s)) (md_index (s_metadata s))) torn files) = Inr (files2, s1, st)
     \<and> (\<forall>n\<in>snap_files e files. map_of files2 n = map_of files n)"
proof -
  let ?n = "snap_name (md_term (s_metadata s)) (md_index (s_metadata s))"
  let ?files = "AList.update ?n torn files"
  have ext: "se_ext e ?n = ''.snap''" using ext_numbered[OF assms(2)] by (simp add: snap_name_def)
  have "se_ext e (?n @ ''.broken'') \<noteq> ''.snap''"
    using ext_broken[OF assms(3)] by (simp add: snap_name_def)
  then have wf: "wf_dir e ?files" by (rule wf_dir_update [OF assms(1)])
  have nf: "?n \<notin> snap_files e files" using assms(6) by (simp add: snap_files_def)
  then have sf: "snap_files e ?files = snap_files e files"
    using snap_files_update[OF ext] decode_torn[OF assms(4,5)] by simp
  then have new: "newest e ?files = newest e files" by (simp add: newest_Max)
  have same: "map_of ?files n = map_of files n \<and> intact e ?files n = intact e files n" if "n \<in> snap_files e files" for n
    using that nf by (auto simp: intact_def update_conv')
  have "n \<in> snap_files e files" if "newest e files = Some n" for n
    using that finite_snap_files[of e files] Max_in by (auto simp: newest_Max split: if_splits)
  then have "newest e files = Some n \<Longrightarrow> intact e ?files n = intact e files n" for n using same by blast
  moreover obtain files1 where "load e s0 files =
       (case newest e files of
          None \<Rightarrow> Inr (files1, s0, not_found ''snap not found'')
        | Some n \<Rightarrow> Inr (files1, the (intact e files n), Ok))"
    using load_newest[OF assms(1), of s0] by blast
  moreover obtain files2 where "load e s0 ?files =
       (case newest e ?files of
          None \<Rightarrow> Inr (files2, s0, not_found ''snap not found'')
        | Some n \<Rightarrow> Inr (files2, the (intact e ?files n), Ok))"
      "\<forall>n\<in>snap_files e ?files. map_of files2 n = map_of ?files n"
    using load_newest[OF wf, of s0] by blast
  ultimately show ?thesis using new sf same by (cases "newest e files") auto
qed

section \<open>Witnesses\<close>

definition sample_snapshot :: snapshot where
  "sample_snapshot = Snapshot\<lparr>s_data := [7], s_metadata := (s_metadata Snapshot)\<lparr>md_index := 5, md_term := 2\<rparr>\<rparr>"

definition sample_env :: snap_env where
  "sample_env = \<lparr>se_pack = \<lparr>pk = (\<lambda>s. u64_image (md_index (s_metadata s)) @ u64_image (md_term (s_metadata s)) @ s_data s),
       up = (\<lambda>bs. Some (Snapshot\<lparr>s_data := drop 16 bs, s_metadata := (s_metadata Snapshot)\<lparr>
         md_index := u64_of_image (take 8 bs), md_term := u64_of_image (take 8 (drop 8 bs))\<rparr>\<rparr>))\<rparr>,
     se_crc = (\<lambda>bs. of_nat (length bs)), se_ext = suffix_of, se_fopen = (\<lambda>_. None), se_dir = ''node_1/snap''\<rparr>"

definition sample_files :: directory where
  "sample_files = [(snap_name 1 3, [0])]"

lemma sample_ext: "has_extension suffix_of ''.snap''" "has_extension suffix_of ''.broken''"
  using suffix_of_ext[of "''snap''"] suffix_of_ext[of "''broken''"] by (simp_all add: has_extension_def)

lemma sample_env_ok: "wf_dir sample_env sample_files" "storable sample_env sample_snapshot"
    "se_ext sample_env = suffix_of" "se_fopen sample_env p = None" "length (se_dir sample_env) \<le> 88"
  using ext_broken[OF sample_ext(2), of "''.snap''"]
  by (simp_all add: wf_dir_def sample_env_def sample_files_def storable_def sample_snapshot_def snap_name_def Snapshot_def)

theorem snapshot_save_load_witness:
  "\<exists>files1 files2. save_snap sample_env sample_snapshot sample_files = (files1, Ok)
     \<and> load sample_env Snapshot files1 = Inr (files2, sample_snapshot, Ok)"
proof -
  have "\<forall>n\<in>fst ` set sample_files. \<exists>t i. n = snap_name t i
       \<and> (t < md_term (s_metadata sample_snapshot) \<or> (t = md_term (s_metadata sample_snapshot) \<and> i \<le> md_index (s_metadata sample_snapshot)))"
  proof -
    have "1 < md_term (s_metadata sample_snapshot)" by (simp add: sample_snapshot_def)
    then show ?thesis unfolding sample_files_def by auto
  qed
  then show ?thesis
    using snapshot_save_load[OF sample_env_ok(1) _ _ sample_env_ok(2,4,5), of Snapshot] sample_ext
    by (auto simp: sample_env_ok(3))
qed

theorem torn_snapshot_ignored_witness:
  "\<exists>files1 files2 s1 st. load sample_env Snapshot sample_files = Inr (files1, s1, st)
     \<and> load sample_env Snapshot (AList.update (snap_name 2 5) (take 9 (saved_image sample_env sample_snapshot)) sample_files)
       = Inr (files2, s1, st)"
proof -
  have "strict_prefix (take 9 (saved_image sample_env sample_snapshot)) (saved_image sample_env sample_snapshot)"
  proof -
    have "length (saved_image sample_env sample_snapshot) = 25"
      by (simp add: saved_image_def snapshot_image_def sample_env_def sample_snapshot_def Snapshot_def)
    then have "length (take 9 (saved_image sample_env sample_snapshot)) \<noteq> length (saved_image sample_env sample_snapshot)"
      by simp
    then have "take 9 (saved_image sample_env sample_snapshot) \<noteq> saved_image sample_env sample_snapshot" by metis
    then show ?thesis by (simp add: strict_prefix_def take_is_prefix)
  qed
  moreover have "snap_name (md_term (s_metadata sample_snapshot)) (md_index (s_metadata sample_snapshot)) = snap_name 2 5"
      "snap_name 2 5 \<notin> fst ` set sample_files"
    by (simp_all add: sample_snapshot_def sample_files_def snap_name_def numbered_name_inj)
  ultimately show ?thesis
    using torn_snapshot_ignored[OF sample_env_ok(1) _ _ sample_env_ok(2),
        of "take 9 (saved_image sample_env sample_snapshot)" Snapshot] sample_ext
    by (auto simp: sample_env_ok(3))
qed

end
