(* ===== verification/Raft_Buffer.thy ===== *)
theory Raft_Buffer
  imports Raft_Bytes
begin

text \<open>
  The byte buffer of the network sessions (src/raft-kv/common/bytebuffer.h, bytebuffer.cpp), with
  its 32-bit cursors, and the views on bytes it hands out (src/raft-kv/common/slice.h). The
  contract of a byte queue is a locale that the buffer is an instance of; the sessions rest on it.
\<close>

section \<open>Slices\<close>

text \<open>
  A slice is the bytes it refers to. \<open>memcmp\<close> compares as unsigned bytes; only the sign of its
  result is specified, and the model returns the sign.
\<close>

type_synonym slice = bytes

definition Slice :: slice where
  "Slice = []"

definition slice_size :: "slice \<Rightarrow> u64" where
  "slice_size s = vec_size s"

definition slice_empty :: "slice \<Rightarrow> bool" where
  "slice_empty s \<longleftrightarrow> slice_size s = 0"

definition slice_at :: "slice \<Rightarrow> u64 \<Rightarrow> u8 res" where
  "slice_at s n = rbind (rassert ''n < size()'' (n < slice_size s)) (\<lambda>_. vec_at s n)"

definition slice_clear :: "slice \<Rightarrow> slice" where
  "slice_clear s = []"

definition remove_prefix :: "u64 \<Rightarrow> slice \<Rightarrow> slice res" where
  "remove_prefix n s = rbind (rassert ''n <= size()'' (n \<le> slice_size s)) (\<lambda>_. Inr (drop (unat n) s))"

fun memcmp :: "nat \<Rightarrow> bytes \<Rightarrow> bytes \<Rightarrow> int" where
  "memcmp 0 xs ys = 0"
| "memcmp (Suc n) (x # xs) (y # ys) = (if x < y then -1 else if y < x then 1 else memcmp n xs ys)"
| "memcmp (Suc n) _ _ = 0"

definition slice_compare :: "slice \<Rightarrow> slice \<Rightarrow> int" where
  "slice_compare a b =
     (let min_len = (if slice_size a < slice_size b then slice_size a else slice_size b);
          r = memcmp (unat min_len) a b in
      if r = 0
      then if slice_size a < slice_size b then -1 else if slice_size b < slice_size a then 1 else r
      else r)"

definition starts_with :: "slice \<Rightarrow> slice \<Rightarrow> bool" where
  "starts_with s x \<longleftrightarrow> slice_size x \<le> slice_size s \<and> memcmp (unat (slice_size x)) s x = 0"

definition slice_equal :: "slice \<Rightarrow> slice \<Rightarrow> bool" where
  "slice_equal x y \<longleftrightarrow> slice_size x = slice_size y \<and> memcmp (unat (slice_size x)) x y = 0"

section \<open>The buffer\<close>

record byte_buffer =
  bb_reader :: u32
  bb_writer :: u32
  bb_buff :: bytes

definition MIN_BUFFERING :: u32 where "MIN_BUFFERING = 4096"

definition ByteBuffer :: byte_buffer where
  "ByteBuffer = \<lparr>bb_reader = 0, bb_writer = 0, bb_buff = replicate (unat MIN_BUFFERING) 0\<rparr>"

text \<open>
  \<open>put(data, len)\<close> with as many bytes as it is told; a \<open>memcpy\<close> past the end of the vector is
  a fault.
\<close>

definition bb_put :: "bytes \<Rightarrow> byte_buffer \<Rightarrow> byte_buffer res" where
  "bb_put data b =
     (let len = (of_nat (length data) :: u32);
          left = of_nat (length (bb_buff b)) - bb_writer b;
          buff = (if left < len then vec_resize (bb_buff b) (length (bb_buff b) * 2 + unat len) 0 else bb_buff b) in
      if length buff < unat (bb_writer b) + length data then Inl OutOfRange
      else Inr (b\<lparr>bb_buff := take (unat (bb_writer b)) buff @ data @ drop (unat (bb_writer b) + length data) buff,
                  bb_writer := bb_writer b + len\<rparr>))"

definition readable_bytes :: "byte_buffer \<Rightarrow> u32 res" where
  "readable_bytes b =
     rbind (rassert ''writer_ >= reader_'' (bb_writer b \<ge> bb_reader b)) (\<lambda>_. Inr (bb_writer b - bb_reader b))"

definition bb_readable :: "byte_buffer \<Rightarrow> bool" where
  "bb_readable b \<longleftrightarrow> bb_writer b > bb_reader b"

definition may_shrink_to_fit :: "byte_buffer \<Rightarrow> byte_buffer" where
  "may_shrink_to_fit b = (if bb_reader b = bb_writer b then b\<lparr>bb_reader := 0, bb_writer := 0\<rparr> else b)"

definition read_bytes :: "u32 \<Rightarrow> byte_buffer \<Rightarrow> byte_buffer res" where
  "read_bytes n b =
     rbind (readable_bytes b) (\<lambda>avail.
     rbind (rassert ''readable_bytes() >= bytes'' (avail \<ge> n)) (\<lambda>_.
       Inr (may_shrink_to_fit (b\<lparr>bb_reader := bb_reader b + n\<rparr>))))"

definition bb_reset :: "byte_buffer \<Rightarrow> byte_buffer" where
  "bb_reset b = \<lparr>bb_reader = 0, bb_writer = 0, bb_buff = vec_resize (bb_buff b) (unat MIN_BUFFERING) 0\<rparr>"

text \<open>The bytes from \<open>reader()\<close> on, as many as are readable.\<close>

definition bb_slice :: "byte_buffer \<Rightarrow> slice res" where
  "bb_slice b = rbind (readable_bytes b) (\<lambda>n.
     if unat (bb_reader b) + unat n \<le> length (bb_buff b)
     then Inr (take (unat n) (drop (unat (bb_reader b)) (bb_buff b))) else Inl OutOfRange)"

section \<open>Comparison is the lexicographic order\<close>

lemma memcmp_range: "memcmp n xs ys \<in> {-1, 0, 1}"
  by (induction n xs ys rule: memcmp.induct) auto

lemma memcmp_prefix:
  "length xs = n \<Longrightarrow> length ys = n \<Longrightarrow> memcmp n xs ys = 0 \<longleftrightarrow> xs = ys"
  by (induction n xs ys rule: memcmp.induct) auto

lemma memcmp_take: "memcmp n (take n xs) (take n ys) = memcmp n xs ys"
  by (induction n xs ys rule: memcmp.induct) auto

lemma memcmp_less:
  "n \<le> length xs \<Longrightarrow> n \<le> length ys \<Longrightarrow> memcmp n xs ys = -1 \<longleftrightarrow> take n xs < take n ys"
  by (induction n xs ys rule: memcmp.induct) auto

lemma memcmp_antisym: "n \<le> length xs \<Longrightarrow> n \<le> length ys \<Longrightarrow> memcmp n ys xs = - memcmp n xs ys"
  by (induction n xs ys rule: memcmp.induct) auto

lemma less_append_iff_take:
  fixes xs ys :: "'a::linorder list"
  assumes "n = min (length xs) (length ys)"
  shows "xs < ys \<longleftrightarrow> take n xs < take n ys \<or> (take n xs = take n ys \<and> length xs < length ys)"
  using assms
proof (induction xs arbitrary: ys n)
  case Nil
  then show ?case by (cases ys) auto
next
  case (Cons x xs)
  then show ?case by (cases ys) auto
qed

lemma slice_size_unat:
  assumes "length a < 2 ^ 64"
  shows "unat (slice_size a) = length a"
  using assms by (simp add: slice_size_def vec_size_unat)

lemma slice_compare_cases:
  assumes "length a < 2 ^ 64" and "length b < 2 ^ 64"
  shows "slice_compare a b =
     (if take (min (length a) (length b)) a = take (min (length a) (length b)) b
      then if length a < length b then -1 else if length b < length a then 1 else 0
      else if take (min (length a) (length b)) a < take (min (length a) (length b)) b then -1 else 1)"
proof -
  let ?n = "min (length a) (length b)"
  have size: "slice_size a < slice_size b \<longleftrightarrow> length a < length b" "slice_size b < slice_size a \<longleftrightarrow> length b < length a"
    using assms by (simp_all add: word_less_nat_alt slice_size_unat)
  have min: "unat (if slice_size a < slice_size b then slice_size a else slice_size b) = ?n"
    using assms by (simp add: slice_size_unat size min_def)
  have n: "?n \<le> length a" "?n \<le> length b" by simp_all
  have zero: "memcmp ?n a b = 0 \<longleftrightarrow> take ?n a = take ?n b"
    using memcmp_prefix[of "take ?n a" ?n "take ?n b"] by (simp add: memcmp_take)
  have "memcmp ?n a b = (if take ?n a = take ?n b then 0 else if take ?n a < take ?n b then -1 else 1)"
    using memcmp_range[of ?n a b] memcmp_less[OF n] zero by auto
  then show ?thesis unfolding slice_compare_def Let_def min by (simp only: size) simp
qed

text \<open>
  The three-way comparison of slices is the lexicographic order of unsigned bytes: negative,
  zero and positive exactly for less, equal and greater; and \<open>starts_with\<close> and \<open>==\<close> decide
  prefix and equality.
\<close>

lemma slice_order:
  assumes "length a < 2 ^ 64" and "length b < 2 ^ 64"
  shows "(slice_compare a b < 0 \<longleftrightarrow> a < b) \<and> (slice_compare a b = 0 \<longleftrightarrow> a = b) \<and> (slice_compare a b > 0 \<longleftrightarrow> b < a)
     \<and> (starts_with a b \<longleftrightarrow> prefix b a) \<and> (slice_equal a b \<longleftrightarrow> a = b)"
proof -
  let ?n = "min (length a) (length b)"
  note less = less_append_iff_take[of ?n a b] less_append_iff_take[of ?n b a]
  have eq: "a = b \<longleftrightarrow> take ?n a = take ?n b \<and> length a = length b" by auto
  have "starts_with a b \<longleftrightarrow> length b \<le> length a \<and> take (length b) a = b"
    using assms memcmp_prefix[of "take (length b) a" "length b" b] memcmp_take[of "length b" a b]
    by (auto simp: starts_with_def word_le_nat_alt slice_size_unat)
  then have "starts_with a b \<longleftrightarrow> prefix b a" by (auto simp: prefix_def intro: exI [of _ "drop (length b) a"])
       (metis append_take_drop_id)
  moreover have "slice_equal a b \<longleftrightarrow> a = b"
    using assms memcmp_prefix[of a "length a" b]
    by (auto simp: slice_equal_def word_unat_eq_iff slice_size_unat)
  moreover have "(slice_compare a b < 0 \<longleftrightarrow> a < b) \<and> (slice_compare a b = 0 \<longleftrightarrow> a = b) \<and> (slice_compare a b > 0 \<longleftrightarrow> b < a)"
  proof -
    obtain u v where uv: "u = take ?n a" "v = take ?n b" by blast
    have "a < b \<longleftrightarrow> u < v \<or> (u = v \<and> length a < length b)" "b < a \<longleftrightarrow> v < u \<or> (u = v \<and> length b < length a)"
        "a = b \<longleftrightarrow> u = v \<and> length a = length b"
      using less eq unfolding uv by (auto simp: min.commute)
    then show ?thesis unfolding slice_compare_cases[OF assms] uv [symmetric] by auto
  qed
  ultimately show ?thesis by blast
qed

section \<open>The buffer is a byte queue\<close>

text \<open>
  What a session relies on: bytes put come out in order, reading takes from the front, as long as
  not more than \<open>limit\<close> bytes go through the queue between two points where it is empty.
\<close>

locale byte_queue =
  fixes put :: "bytes \<Rightarrow> 'b \<Rightarrow> 'b res"
    and take_off :: "u32 \<Rightarrow> 'b \<Rightarrow> 'b res"
    and available :: "'b \<Rightarrow> u32 res"
    and content :: "'b \<Rightarrow> bytes"
    and inv :: "nat \<Rightarrow> 'b \<Rightarrow> bool"
    and limit :: nat
  assumes put_ok: "inv t b \<Longrightarrow> t + length data \<le> limit \<Longrightarrow>
      \<exists>b'. put data b = Inr b' \<and> inv (t + length data) b' \<and> content b' = content b @ data"
    and take_ok: "inv t b \<Longrightarrow> unat n \<le> length (content b) \<Longrightarrow>
      \<exists>b'. take_off n b = Inr b' \<and> inv t b' \<and> content b' = drop (unat n) (content b)"
    and available_ok: "inv t b \<Longrightarrow> \<exists>n. available b = Inr n \<and> unat n = length (content b)"
    and content_bound: "inv t b \<Longrightarrow> length (content b) \<le> t"
begin

lemma put_two:
  assumes "inv t b" and "t + length d1 + length d2 \<le> limit"
  shows "\<exists>b'. rbind (put d1 b) (put d2) = Inr b' \<and> inv (t + length d1 + length d2) b' \<and> content b' = content b @ d1 @ d2"
proof -
  obtain b1 where 1: "put d1 b = Inr b1" "inv (t + length d1) b1" "content b1 = content b @ d1"
    using put_ok[OF assms(1), of d1] assms(2) by auto
  then show ?thesis using put_ok[OF 1(2), of d2] assms(2) by auto
qed

lemma take_all:
  assumes "inv t b" and "available b = Inr n"
  shows "\<exists>b'. take_off n b = Inr b' \<and> inv t b' \<and> content b' = []"
  using take_ok[OF assms(1), of n] available_ok[OF assms(1)] assms(2) by auto

end

definition bb_content :: "byte_buffer \<Rightarrow> bytes" where
  "bb_content b = take (unat (bb_writer b) - unat (bb_reader b)) (drop (unat (bb_reader b)) (bb_buff b))"

definition bb_limit :: nat where
  "bb_limit = 2 ^ 30"

definition wf_buffer :: "nat \<Rightarrow> byte_buffer \<Rightarrow> bool" where
  "wf_buffer t b \<longleftrightarrow> bb_reader b \<le> bb_writer b \<and> unat (bb_writer b) \<le> length (bb_buff b)
     \<and> unat (bb_writer b) \<le> t \<and> length (bb_buff b) \<le> max 4096 (3 * t) \<and> t \<le> bb_limit"

lemma wf_ByteBuffer: "wf_buffer 0 ByteBuffer" "bb_content ByteBuffer = []"
  by (simp_all add: wf_buffer_def ByteBuffer_def bb_content_def MIN_BUFFERING_def bb_limit_def)

lemma bb_slice_content: "wf_buffer t b \<Longrightarrow> bb_slice b = Inr (bb_content b)"
  by (simp add: bb_slice_def readable_bytes_def rassert_def wf_buffer_def bb_content_def unat_sub word_le_nat_alt)

lemma put_cases:
  assumes "wf_buffer t b" and "t + length data \<le> bb_limit"
  shows "\<exists>buff. bb_put data b = Inr (b\<lparr>bb_buff := take (unat (bb_writer b)) buff @ data @ drop (unat (bb_writer b) + length data) buff,
        bb_writer := bb_writer b + of_nat (length data)\<rparr>)
     \<and> unat (bb_writer b) + length data \<le> length buff \<and> length buff \<le> max 4096 (3 * (t + length data))
     \<and> take (unat (bb_writer b)) buff = take (unat (bb_writer b)) (bb_buff b)"
proof -
  let ?w = "unat (bb_writer b)" and ?n = "length (bb_buff b)" and ?l = "length data"
  have b: "?w \<le> ?n" "?w \<le> t" "?n \<le> max 4096 (3 * t)" "t + ?l \<le> 2 ^ 30"
    using assms by (simp_all add: wf_buffer_def bb_limit_def)
  then have n: "?n < 2 ^ 32" "?l < 2 ^ 32" by simp_all
  then have "unat (of_nat ?l :: u32) = ?l" "unat (of_nat ?n :: u32) = ?n"
    by (simp_all add: unat_of_nat take_bit_eq_mod)
  then have u: "unat (of_nat ?l :: u32) = ?l" "unat (of_nat ?n - bb_writer b) = ?n - ?w"
    using b(1) by (simp_all add: unat_sub word_le_nat_alt)
  show ?thesis
  proof (cases "?n - ?w < ?l")
    case True
    let ?buff = "vec_resize (bb_buff b) (?n * 2 + ?l) 0"
    have "length ?buff = ?n * 2 + ?l" by (simp add: vec_resize_def)
    moreover have "?n < t + ?l" using True b(1,2) by linarith
    moreover have "take ?w ?buff = take ?w (bb_buff b)" using b(1) by (simp add: vec_resize_def)
    ultimately show ?thesis using True u b(1)
      by (intro exI [of _ ?buff]) (auto simp: bb_put_def Let_def word_less_nat_alt)
  next
    case False
    then show ?thesis using u b
      by (intro exI [of _ "bb_buff b"]) (auto simp: bb_put_def Let_def word_less_nat_alt)
  qed
qed

interpretation bb: byte_queue bb_put read_bytes readable_bytes bb_content wf_buffer bb_limit
proof (unfold_locales, goal_cases)
  case (1 t b data)
  then obtain buff where p: "bb_put data b = Inr (b\<lparr>bb_buff := take (unat (bb_writer b)) buff @ data @ drop (unat (bb_writer b) + length data) buff,
        bb_writer := bb_writer b + of_nat (length data)\<rparr>)"
      "unat (bb_writer b) + length data \<le> length buff" "length buff \<le> max 4096 (3 * (t + length data))"
      "take (unat (bb_writer b)) buff = take (unat (bb_writer b)) (bb_buff b)"
    using put_cases[of t b data] by blast
  have w: "bb_reader b \<le> bb_writer b" "unat (bb_writer b) \<le> length (bb_buff b)" "unat (bb_writer b) \<le> t" "t + length data \<le> 2 ^ 30"
    using 1 by (simp_all add: wf_buffer_def bb_limit_def)
  have u: "unat (bb_writer b + of_nat (length data)) = unat (bb_writer b) + length data"
    using w by (simp add: unat_word_ariths unat_of_nat take_bit_eq_mod)
  let ?b = "b\<lparr>bb_buff := take (unat (bb_writer b)) buff @ data @ drop (unat (bb_writer b) + length data) buff,
        bb_writer := bb_writer b + of_nat (length data)\<rparr>"
  have "wf_buffer (t + length data) ?b"
    using w p(2,3) u 1(2) by (simp add: wf_buffer_def word_le_nat_alt)
  moreover have "bb_content ?b = bb_content b @ data"
    using w p(2,4) u by (simp add: bb_content_def word_le_nat_alt take_drop [symmetric] drop_take)
  ultimately show ?case using p(1) by blast
next
  case (2 t b n)
  have w: "bb_reader b \<le> bb_writer b" "unat (bb_writer b) \<le> length (bb_buff b)" using 2(1) by (simp_all add: wf_buffer_def)
  then have n: "unat n \<le> unat (bb_writer b) - unat (bb_reader b)" using 2(2) by (simp add: bb_content_def)
  then have u: "unat (bb_reader b + n) = unat (bb_reader b) + unat n"
    using unat_u32_bound[of "bb_writer b"] w(1) by (simp add: unat_word_ariths word_le_nat_alt)
  let ?b = "may_shrink_to_fit (b\<lparr>bb_reader := bb_reader b + n\<rparr>)"
  have "read_bytes n b = Inr ?b"
    using n w(1) by (simp add: read_bytes_def readable_bytes_def rassert_def word_le_nat_alt unat_sub)
  moreover have "wf_buffer t ?b"
    using 2(1) u n w(1) by (auto simp: wf_buffer_def may_shrink_to_fit_def word_le_nat_alt)
  moreover have "bb_content ?b = drop (unat n) (bb_content b)"
    using u n w by (auto simp: bb_content_def may_shrink_to_fit_def drop_take add.commute)
  ultimately show ?case by blast
next
  case (3 t b)
  then show ?case
    by (auto simp: wf_buffer_def readable_bytes_def rassert_def bb_content_def unat_sub word_le_nat_alt)
next
  case (4 t b)
  then show ?case by (auto simp: wf_buffer_def bb_content_def)
qed


text \<open>Any use of the buffer, and the same on a plain list of bytes.\<close>

datatype bb_op = Put bytes | Consume u32

fun bb_run :: "bb_op list \<Rightarrow> byte_buffer \<Rightarrow> byte_buffer res" where
  "bb_run [] b = Inr b"
| "bb_run (Put d # ops) b = rbind (bb_put d b) (bb_run ops)"
| "bb_run (Consume n # ops) b = rbind (read_bytes n b) (bb_run ops)"

fun queue_run :: "bb_op list \<Rightarrow> bytes \<Rightarrow> bytes option" where
  "queue_run [] q = Some q"
| "queue_run (Put d # ops) q = queue_run ops (q @ d)"
| "queue_run (Consume n # ops) q = (if unat n \<le> length q then queue_run ops (drop (unat n) q) else None)"

fun total_put :: "bb_op list \<Rightarrow> nat" where
  "total_put [] = 0"
| "total_put (Put d # ops) = length d + total_put ops"
| "total_put (Consume n # ops) = total_put ops"

lemma bb_run_queue:
  assumes "wf_buffer t b" and "t + total_put ops \<le> bb_limit" and "queue_run ops (bb_content b) = Some q"
  shows "\<exists>b'. bb_run ops b = Inr b' \<and> wf_buffer (t + total_put ops) b' \<and> bb_content b' = q"
  using assms
proof (induction ops arbitrary: b t)
  case (Cons op ops)
  show ?case
  proof (cases op)
    case (Put d)
    obtain b1 where "bb_put d b = Inr b1" "wf_buffer (t + length d) b1" "bb_content b1 = bb_content b @ d"
      using bb.put_ok[OF Cons.prems(1), of d] Cons.prems(2) Put by auto
    then show ?thesis using Cons.IH[of "t + length d" b1] Cons.prems(2,3) Put by (simp add: add.assoc)
  next
    case (Consume n)
    then have n: "unat n \<le> length (bb_content b)" using Cons.prems(3) by (simp split: if_splits)
    obtain b1 where "read_bytes n b = Inr b1" "wf_buffer t b1" "bb_content b1 = drop (unat n) (bb_content b)"
      using bb.take_ok[OF Cons.prems(1) n] by auto
    then show ?thesis using Cons.IH[of t b1] Cons.prems(2,3) Consume n by simp
  qed
qed simp

text \<open>
  C32: The buffer implements a queue of bytes. Any sequence of writes and reads that reads no more
  than is there and writes at most a gigabyte in all runs on the buffer without a failed
  assertion and without leaving the vector, and what it shows as readable is what the same sequence
  leaves in a list that is appended to at the back and consumed at the front.
\<close>

theorem buffer_refines_queue:
  assumes "queue_run ops [] = Some q" and "total_put ops \<le> bb_limit"
  shows "\<exists>b. bb_run ops ByteBuffer = Inr b \<and> bb_slice b = Inr q \<and> (bb_readable b \<longleftrightarrow> q \<noteq> [])"
proof -
  obtain b where b: "bb_run ops ByteBuffer = Inr b" "wf_buffer (total_put ops) b" "bb_content b = q"
    using bb_run_queue[OF wf_ByteBuffer(1), of ops q] assms wf_ByteBuffer(2) by auto
  have "bb_readable b \<longleftrightarrow> bb_content b \<noteq> []"
    using b(2) by (auto simp: bb_readable_def bb_content_def wf_buffer_def word_le_nat_alt word_less_nat_alt)
  then show ?thesis using b bb_slice_content[OF b(2)] by blast
qed

theorem buffer_refines_queue_witness:
  "\<exists>b. bb_run [Put [1, 2, 3], Consume 2, Put (replicate 5000 9)] ByteBuffer = Inr b
     \<and> bb_slice b = Inr (3 # replicate 5000 9) \<and> bb_readable b"
  using buffer_refines_queue[of "[Put [1, 2, 3], Consume 2, Put (replicate 5000 9)]" "3 # replicate 5000 9"]
  by (simp add: bb_limit_def)

end
