(* ===== verification/Raft_Transport.thy ===== *)
theory Raft_Transport
  imports Raft_Buffer Raft_Status
begin

text \<open>
  The network between the nodes (src/raft-kv/transport): frames of a type, a length and a payload
  (proto.h), the client session that buffers and writes them, the peer that owns a session
  (peer.cpp), the server that accepts connections with the sessions that read them
  (raft_server.cpp) and the table of peers (transport.cpp).

  The asynchronous calls of the network library are split at their callbacks: an operation that
  starts one records it in the state and the callback is an operation of its own. A connection is
  the sequence of bytes written to it. msgpack for messages is a parameter; addresses are not
  modelled beyond the split of a host string.
\<close>

section \<open>Frames\<close>

definition TransportTypeStream :: u8 where [simp]: "TransportTypeStream = 1"
definition TransportTypePipeline :: u8 where [simp]: "TransportTypePipeline = 3"
definition TransportTypeDebug :: u8 where [simp]: "TransportTypeDebug = 5"

text \<open>The packed structure as it is sent; the length is in network order.\<close>

record transport_meta =
  tm_type :: u8
  tm_len :: u32

definition meta_image :: "transport_meta \<Rightarrow> bytes" where
  "meta_image m = tm_type m # u32_net (tm_len m)"

definition meta_of_image :: "bytes \<Rightarrow> transport_meta" where
  "meta_of_image bs = \<lparr>tm_type = hd bs, tm_len = u32_of_net (take 4 (tl bs))\<rparr>"

record debug_message =
  dm_a :: u32
  dm_b :: u32

definition debug_image :: "debug_message \<Rightarrow> bytes" where
  "debug_image d = u32_image (dm_a d) @ u32_image (dm_b d)"

definition debug_of_image :: "bytes \<Rightarrow> debug_message" where
  "debug_of_image bs = \<lparr>dm_a = u32_of_image (take 4 bs), dm_b = u32_of_image (take 4 (drop 4 bs))\<rparr>"

section \<open>The sending side\<close>

text \<open>
  \<open>cs_writes\<close> holds the sizes of the writes that have been started and not completed. Such a write
  reads from the vector of the buffer: putting more bytes must not move the vector meanwhile.
\<close>

record client_session =
  cs_peer_id :: u64
  cs_buffer :: byte_buffer
  cs_connected :: bool
  cs_writes :: "u32 list"

definition ClientSession :: "u64 \<Rightarrow> client_session" where
  "ClientSession i = \<lparr>cs_peer_id = i, cs_buffer = ByteBuffer, cs_connected = False, cs_writes = []\<rparr>"

definition start_write :: "client_session \<Rightarrow> client_session res" where
  "start_write s =
     (if \<not> bb_readable (cs_buffer s) then Inr s
      else rbind (readable_bytes (cs_buffer s)) (\<lambda>remaining. Inr (s\<lparr>cs_writes := cs_writes s @ [remaining]\<rparr>)))"

definition session_send :: "u8 \<Rightarrow> bytes \<Rightarrow> client_session \<Rightarrow> client_session res" where
  "session_send t data s =
     rbind (readable_bytes (cs_buffer s)) (\<lambda>remaining.
     let meta = \<lparr>tm_type = t, tm_len = of_nat (length data)\<rparr> in
     rbind (bb_put (meta_image meta) (cs_buffer s)) (\<lambda>b1.
     rbind (bb_put data b1) (\<lambda>b2.
     rbind (readable_bytes b2) (\<lambda>now.
     rbind (rassert ''remaining + sizeof(TransportMeta) + len == buffer_.readable_bytes()''
              (unat remaining + 5 + unat (of_nat (length data) :: u32) = unat now)) (\<lambda>_.
       if cs_writes s \<noteq> [] \<and> length (bb_buff b2) \<noteq> length (bb_buff (cs_buffer s)) then Inl OutOfRange
       else
         let s1 = s\<lparr>cs_buffer := b2\<rparr> in
         if cs_connected s1 \<and> remaining = 0 then start_write s1 else Inr s1)))))"

text \<open>The callbacks of \<open>async_connect\<close> and \<open>async_write\<close>; no session is a closed one.\<close>

definition on_connect :: "bool \<Rightarrow> client_session \<Rightarrow> client_session option res" where
  "on_connect err s =
     (if err then Inr None
      else
        let s1 = s\<lparr>cs_connected := True\<rparr> in
        if bb_readable (cs_buffer s1) then rbind (start_write s1) (\<lambda>s2. Inr (Some s2)) else Inr (Some s1))"

definition on_written :: "bool \<Rightarrow> u32 \<Rightarrow> client_session \<Rightarrow> client_session option res" where
  "on_written err n s =
     (let s1 = s\<lparr>cs_writes := tl (cs_writes s)\<rparr> in
      if err \<or> n = 0 then Inr None
      else rbind (read_bytes n (cs_buffer s1)) (\<lambda>b.
        rbind (start_write (s1\<lparr>cs_buffer := b\<rparr>)) (\<lambda>s2. Inr (Some s2))))"

record peer =
  pe_peer :: u64
  pe_session :: "client_session option"

text \<open>\<open>boost::split\<close> of a host at its colons: exactly two parts, or the process exits.\<close>

definition parse_host :: "string \<Rightarrow> (string \<times> string) res" where
  "parse_host s =
     (let a = takeWhile (\<lambda>c. c \<noteq> CHR '':'') s; r = dropWhile (\<lambda>c. c \<noteq> CHR '':'') s in
      if r = [] \<or> CHR '':'' \<in> set (tl r) then Inl (Fatal ''invalid host'') else Inr (a, tl r))"

definition PeerImpl :: "u64 \<Rightarrow> string \<Rightarrow> peer res" where
  "PeerImpl i host = rbind (parse_host host) (\<lambda>_. Inr \<lparr>pe_peer = i, pe_session = None\<rparr>)"

definition do_send_data :: "u8 \<Rightarrow> bytes \<Rightarrow> peer \<Rightarrow> peer res" where
  "do_send_data t data p =
     (let s = (case pe_session p of None \<Rightarrow> ClientSession (pe_peer p) | Some s \<Rightarrow> s) in
      rbind (session_send t data s) (\<lambda>s1. Inr (p\<lparr>pe_session := Some s1\<rparr>)))"

definition peer_send :: "message packer \<Rightarrow> message \<Rightarrow> peer \<Rightarrow> peer res" where
  "peer_send mp m = do_send_data TransportTypeStream (pk mp m)"

text \<open>The timer of a peer sends two successive values of a counter all peers share.\<close>

definition start_timer :: "u32 \<Rightarrow> peer \<Rightarrow> (u32 \<times> peer) res" where
  "start_timer tick p =
     rbind (do_send_data TransportTypeDebug (debug_image \<lparr>dm_a = tick, dm_b = tick + 1\<rparr>) p) (\<lambda>p1. Inr (tick + 2, p1))"

definition close_session :: "peer \<Rightarrow> peer" where
  "close_session p = p\<lparr>pe_session := None\<rparr>"

section \<open>The receiving side\<close>

text \<open>
  What a server session is waiting for, and what msgpack does with a message of the transport:
  \<open>part_type\<close> is the type that a failed \<open>unpack\<close> or \<open>convert\<close> leaves in the new \<open>Message\<close>. The fields
  are converted in their order, the type first, so this is \<open>MsgHup\<close> of the constructor or a byte of
  the payload.
\<close>

datatype reading = ReadMeta | ReadMessage u8 u32 | Stopped

record message_packer = "message packer" +
  part_type :: "bytes \<Rightarrow> u8"

text \<open>
  \<open>decode_message\<close> returns the message that is handed to the node, if any, and whether the session
  goes on reading. The handler of the exception names the type that was left in the message, which
  throws out of the completion handler when there is no such type.
\<close>

definition decode_message :: "message_packer \<Rightarrow> u8 \<Rightarrow> bytes \<Rightarrow> (message option \<times> bool) res" where
  "decode_message mp t data =
     (if t = TransportTypeDebug then
        rbind (rassert ''len == sizeof(DebugMessage)'' (length data = 8)) (\<lambda>_.
        let dbg = debug_of_image data in
        rbind (rassert ''dbg->a + 1 == dbg->b'' (dm_a dbg + 1 = dm_b dbg)) (\<lambda>_. Inr (None, True)))
      else if t = TransportTypeStream then
        (case up mp data of
          None \<Rightarrow> rbind (msg_type_to_string (part_type mp data)) (\<lambda>_. Inr (None, False))
        | Some m \<Rightarrow> Inr (Some m, True))
      else Inr (None, False))"

text \<open>
  The session on the bytes that have arrived so far: the messages handed on, what it is waiting for,
  and the bytes not yet taken. A read of no bytes at all ends the session.
\<close>

lemma rest_shorter: "len \<noteq> (0 :: u32) \<Longrightarrow> \<not> n < unat len \<Longrightarrow> n - unat len < n"
  using unat_gt_0[of len] by linarith

function server_read :: "message_packer \<Rightarrow> reading \<Rightarrow> bytes \<Rightarrow> (message list \<times> reading \<times> bytes) res" where
  "server_read mp Stopped bs = Inr ([], Stopped, bs)"
| "server_read mp ReadMeta bs =
     (if length bs < 5 then Inr ([], ReadMeta, bs)
      else let meta = meta_of_image (take 5 bs) in
        server_read mp (ReadMessage (tm_type meta) (tm_len meta)) (drop 5 bs))"
| "server_read mp (ReadMessage t len) bs =
     (if len = 0 then Inr ([], Stopped, bs)
      else if length bs < unat len then Inr ([], ReadMessage t len, bs)
      else rbind (decode_message mp t (take (unat len) bs)) (\<lambda>(m, go_on).
        if \<not> go_on then Inr ([], Stopped, drop (unat len) bs)
        else rbind (server_read mp ReadMeta (drop (unat len) bs)) (\<lambda>(ms, r, rest).
          Inr ((case m of None \<Rightarrow> ms | Some x \<Rightarrow> x # ms), r, rest))))"
  by pat_completeness auto

termination
  by (relation "measure (\<lambda>(mp, r, bs). length bs)") (auto intro: rest_shorter)

declare server_read.simps [simp del]

section \<open>The accepting side\<close>

text \<open>
  \<open>AsioServer\<close> listens at its host and keeps a session per accepted connection, each with what it
  is waiting for and the bytes that have arrived and are not taken. A failed accept is logged and no
  other is started.
\<close>

record io_server =
  io_host :: "string \<times> string"
  io_accepting :: bool
  io_sessions :: "(reading \<times> bytes) list"

definition AsioServer :: "string \<Rightarrow> io_server res" where
  "AsioServer host = rbind (parse_host host) (\<lambda>h. Inr \<lparr>io_host = h, io_accepting = False, io_sessions = []\<rparr>)"

definition io_start :: "io_server \<Rightarrow> io_server" where
  "io_start s = s\<lparr>io_accepting := True\<rparr>"

text \<open>The callback of \<open>async_accept\<close>.\<close>

definition on_accept :: "bool \<Rightarrow> io_server \<Rightarrow> io_server" where
  "on_accept err s =
     (let s1 = s\<lparr>io_accepting := False\<rparr> in
      if err then s1
      else let s2 = io_start s1 in s2\<lparr>io_sessions := io_sessions s2 @ [(ReadMeta, [])]\<rparr>)"

text \<open>Bytes arrive on the connection of session \<open>k\<close>; the messages are those handed to \<open>on_message\<close>.\<close>

definition on_receive :: "message_packer \<Rightarrow> nat \<Rightarrow> bytes \<Rightarrow> io_server \<Rightarrow> (io_server \<times> message list) res" where
  "on_receive mp k bs s =
     (if k < length (io_sessions s)
      then let (r, rest) = io_sessions s ! k in
        rbind (server_read mp r (rest @ bs)) (\<lambda>(ms, r1, rest1).
          Inr (s\<lparr>io_sessions := (io_sessions s)[k := (r1, rest1)]\<rparr>, ms))
      else Inl OutOfRange)"

section \<open>The table of peers\<close>

record transport =
  tr_id :: u64
  tr_peers :: "(u64 \<times> peer) list"
  tr_tick :: u32
  tr_server :: "io_server option"

definition TransportImpl :: "u64 \<Rightarrow> transport" where
  "TransportImpl i = \<lparr>tr_id = i, tr_peers = [], tr_tick = 0, tr_server = None\<rparr>"

definition transport_start :: "string \<Rightarrow> transport \<Rightarrow> transport res" where
  "transport_start host t = rbind (AsioServer host) (\<lambda>io. Inr (t\<lparr>tr_server := Some (io_start io)\<rparr>))"

definition transport_add_peer :: "u64 \<Rightarrow> string \<Rightarrow> transport \<Rightarrow> transport res" where
  "transport_add_peer i host t =
     (case map_of (tr_peers t) i of
        Some _ \<Rightarrow> Inr t
      | None \<Rightarrow>
          rbind (PeerImpl i host) (\<lambda>p.
          rbind (start_timer (tr_tick t) p) (\<lambda>(tick, p1).
            Inr (t\<lparr>tr_peers := AList.update i p1 (tr_peers t), tr_tick := tick\<rparr>))))"

definition transport_remove_peer :: "u64 \<Rightarrow> transport \<Rightarrow> transport" where
  "transport_remove_peer i t = t"

definition transport_send_one :: "message packer \<Rightarrow> message \<Rightarrow> transport \<Rightarrow> transport res" where
  "transport_send_one mp m t =
     (if m_to m = 0 then Inr t
      else case map_of (tr_peers t) (m_to m) of
        Some p \<Rightarrow> rbind (peer_send mp m p) (\<lambda>p1. Inr (t\<lparr>tr_peers := AList.update (m_to m) p1 (tr_peers t)\<rparr>))
      | None \<Rightarrow> Inr t)"

definition transport_send :: "message packer \<Rightarrow> message list \<Rightarrow> transport \<Rightarrow> transport res" where
  "transport_send mp = rfold (transport_send_one mp)"

section \<open>The format of frames\<close>

definition frame :: "u8 \<times> bytes \<Rightarrow> bytes" where
  "frame f = meta_image \<lparr>tm_type = fst f, tm_len = of_nat (length (snd f))\<rparr> @ snd f"

definition frame_ok :: "u8 \<times> bytes \<Rightarrow> bool" where
  "frame_ok f \<longleftrightarrow> length (snd f) < 2 ^ 32"

definition scan_frame :: "bytes \<Rightarrow> ((u8 \<times> bytes) \<times> bytes) option" where
  "scan_frame bs =
     (if length bs < 5 then None
      else let meta = meta_of_image (take 5 bs); n = unat (tm_len meta); rest = drop 5 bs in
        if length rest < n then None else Some ((tm_type meta, take n rest), drop n rest))"

lemma length_meta_image [simp]: "length (meta_image m) = 5"
  by (simp add: meta_image_def)

lemma meta_inverse [simp]: "meta_of_image (meta_image m) = m"
  by (simp add: meta_of_image_def meta_image_def)

lemma unat_frame_len: "frame_ok f \<Longrightarrow> unat (of_nat (length (snd f)) :: u32) = length (snd f)"
  by (simp add: frame_ok_def unat_of_nat take_bit_eq_mod)

lemma meta_take: "take 5 (meta_image m @ bs) = meta_image m" "drop 5 (meta_image m @ bs) = bs"
  by simp_all

interpretation frames: record_format frame scan_frame frame_ok
proof (unfold_locales, goal_cases)
  case (1 f rest)
  then show ?case by (simp add: frame_def scan_frame_def meta_take unat_frame_len Let_def)
next
  case (2 f p)
  obtain zs where zs: "frame f = p @ zs" "zs \<noteq> []" using 2(2) by (auto simp: strict_prefix_def prefix_def)
  show ?case
  proof (cases "length p < 5")
    case True
    then show ?thesis by (simp add: scan_frame_def)
  next
    case False
    have "take 5 p = take 5 (frame f)" unfolding zs(1) using False by simp
    then have "take 5 p = meta_image \<lparr>tm_type = fst f, tm_len = of_nat (length (snd f))\<rparr>"
      by (simp add: frame_def meta_take)
    moreover have "length p + length zs = 5 + length (snd f)" using arg_cong[OF zs(1), of length] by (simp add: frame_def)
    moreover have "length p - 5 < length (snd f)" if "length p + length zs = 5 + length (snd f)"
      using that zs(2) False by (cases zs) simp_all
    ultimately show ?thesis using False unat_frame_len[OF 2(1)] by (simp add: scan_frame_def Let_def)
  qed
next
  case (3 bs r rest)
  then show ?case by (auto simp: scan_frame_def Let_def split: if_splits)
qed

text \<open>What the server makes of a frame: a message, nothing (a tick), or something else.\<close>

definition understood :: "message_packer \<Rightarrow> u8 \<times> bytes \<Rightarrow> message option \<Rightarrow> bool" where
  "understood mp f m \<longleftrightarrow> frame_ok f \<and> snd f \<noteq> [] \<and> decode_message mp (fst f) (snd f) = Inr (m, True)"

lemma server_read_frame:
  assumes "understood mp f m"
  shows "server_read mp ReadMeta (frame f @ bs) =
     rbind (server_read mp ReadMeta bs) (\<lambda>(ms, r, rest). Inr ((case m of None \<Rightarrow> ms | Some x \<Rightarrow> x # ms), r, rest))"
proof -
  have f: "frame_ok f" "snd f \<noteq> []" "decode_message mp (fst f) (snd f) = Inr (m, True)"
    using assms by (simp_all add: understood_def)
  have u: "unat (of_nat (length (snd f)) :: u32) = length (snd f)" by (rule unat_frame_len [OF f(1)])
  then have nz: "(of_nat (length (snd f)) :: u32) \<noteq> 0" using f(2) by (metis length_0_conv unat_0)
  have "server_read mp ReadMeta (frame f @ bs) = server_read mp (ReadMessage (fst f) (of_nat (length (snd f)))) (snd f @ bs)"
    by (subst server_read.simps) (simp add: frame_def meta_take Let_def)
  also have "\<dots> = rbind (server_read mp ReadMeta bs) (\<lambda>(ms, r, rest). Inr ((case m of None \<Rightarrow> ms | Some x \<Rightarrow> x # ms), r, rest))"
    using f u nz by (subst server_read.simps) simp
  finally show ?thesis .
qed

lemma server_read_torn:
  assumes "frame_ok f" and "snd f \<noteq> []" and "strict_prefix torn (frame f)"
  shows "\<exists>r rest. server_read mp ReadMeta torn = Inr ([], r, rest) \<and> r \<noteq> Stopped"
proof (cases "length torn < 5")
  case True
  then show ?thesis by (simp add: server_read.simps)
next
  case False
  obtain zs where zs: "frame f = torn @ zs" "zs \<noteq> []" using assms(3) by (auto simp: strict_prefix_def prefix_def)
  have "take 5 torn = take 5 (frame f)" unfolding zs(1) using False by simp
  then have m: "take 5 torn = meta_image \<lparr>tm_type = fst f, tm_len = of_nat (length (snd f))\<rparr>"
    by (simp add: frame_def meta_take)
  have u: "unat (of_nat (length (snd f)) :: u32) = length (snd f)" by (rule unat_frame_len [OF assms(1)])
  then have nz: "(of_nat (length (snd f)) :: u32) \<noteq> 0" using assms(2) by (metis length_0_conv unat_0)
  have "length torn + length zs = 5 + length (snd f)" using arg_cong[OF zs(1), of length] by (simp add: frame_def)
  then have "length (drop 5 torn) < length (snd f)" using zs(2) False by (auto simp: neq_Nil_conv)
  then show ?thesis using False m u nz by (simp add: server_read.simps Let_def)
qed

text \<open>Where the packets of a connection end makes no difference.\<close>

lemma server_read_append:
  "server_read mp r (as @ bs) = rbind (server_read mp r as) (\<lambda>(ms, r1, rest).
     rbind (server_read mp r1 (rest @ bs)) (\<lambda>(ms1, r2, rest1). Inr (ms @ ms1, r2, rest1)))"
proof (induction mp r as rule: server_read.induct)
  case (1 mp as)
  then show ?case by (simp add: server_read.simps)
next
  case (2 mp as)
  show ?case
  proof (cases "length as < 5")
    case True
    then show ?thesis
      by (cases "server_read mp ReadMeta (as @ bs)") (simp_all add: server_read.simps(2)[of mp as])
  next
    case False
    then show ?thesis using 2 by (simp add: server_read.simps(2)[of mp as] server_read.simps(2)[of mp "as @ bs"] Let_def)
  qed
next
  case (3 mp t len as)
  consider "len = 0" | "len \<noteq> 0" "length as < unat len" | "len \<noteq> 0" "\<not> length as < unat len" by blast
  then show ?case
  proof cases
    case 1
    then show ?thesis by (simp add: server_read.simps(1) server_read.simps(3))
  next
    case 2
    then have "server_read mp (ReadMessage t len) as = Inr ([], ReadMessage t len, as)" by (simp add: server_read.simps(3))
    then show ?thesis by (cases "server_read mp (ReadMessage t len) (as @ bs)") auto
  next
    case c: 3
    then show ?thesis using 3
      by (auto simp: server_read.simps(1) server_read.simps(3)[of mp t len] rbind_def split: sum.splits option.splits)
  qed
qed

lemma server_read_idle:
  "server_read mp r bs = Inr (ms, r1, rest) \<Longrightarrow> server_read mp r1 rest = Inr ([], r1, rest)"
proof (induction mp r bs arbitrary: ms rule: server_read.induct)
  case (1 mp bs)
  then show ?case by (auto simp: server_read.simps(1))
next
  case (2 mp bs)
  then show ?case by (cases "length bs < 5") (auto simp: server_read.simps(2) Let_def)
next
  case (3 mp t len bs)
  consider "len = 0" | "len \<noteq> 0" "length bs < unat len" | "len \<noteq> 0" "\<not> length bs < unat len" by blast
  then show ?case
  proof cases
    case c: 3
    show ?thesis using 3(2) 3(1)[OF c]
      by (auto simp: server_read.simps(3)[of mp t len bs] server_read.simps(1) c elim!: rbind_InrE split: if_split_asm)
  qed (use 3(2) in \<open>auto simp: server_read.simps(1,3)\<close>)
qed

text \<open>
  Bytes arriving on several connections, in pieces and interleaved: the messages handed on, with the
  session they came from. What a session hands on depends on its own connection only.
\<close>

fun arrive :: "message_packer \<Rightarrow> (nat \<times> bytes) list \<Rightarrow> io_server \<Rightarrow> (io_server \<times> (nat \<times> message) list) res" where
  "arrive mp [] s = Inr (s, [])"
| "arrive mp ((k, bs) # es) s =
     rbind (on_receive mp k bs s) (\<lambda>(s1, ms). rbind (arrive mp es s1) (\<lambda>(s2, l). Inr (s2, map (Pair k) ms @ l)))"

definition of_session :: "nat \<Rightarrow> (nat \<times> 'a) list \<Rightarrow> 'a list" where
  "of_session k xs = map snd (filter (\<lambda>x. fst x = k) xs)"

lemma of_session_simps [simp]:
  "of_session k [] = []" "of_session k ((j, x) # xs) = (if j = k then x # of_session k xs else of_session k xs)"
  "of_session k (xs @ ys) = of_session k xs @ of_session k ys"
  "of_session k (map (Pair j) zs) = (if j = k then zs else [])"
  by (simp_all add: of_session_def filter_map comp_def)

lemma arrive_independent:
  assumes "arrive mp es s = Inr (s1, l)" and "k < length (io_sessions s)" and "io_sessions s ! k = (r, rest)"
    and "server_read mp r rest = Inr ([], r, rest)"
  shows "server_read mp r (rest @ concat (of_session k es)) = Inr (of_session k l, io_sessions s1 ! k)"
  using assms
proof (induction es arbitrary: s r rest l)
  case (Cons e es)
  obtain j bs where e: "e = (j, bs)" by (cases e)
  obtain s2 ms l' where h: "on_receive mp j bs s = Inr (s2, ms)" "arrive mp es s2 = Inr (s1, l')" "l = map (Pair j) ms @ l'"
    using Cons.prems(1) by (auto simp: e elim!: rbind_InrE)
  obtain q left q1 left1 where o: "j < length (io_sessions s)" "io_sessions s ! j = (q, left)"
      "server_read mp q (left @ bs) = Inr (ms, q1, left1)" "s2 = s\<lparr>io_sessions := (io_sessions s)[j := (q1, left1)]\<rparr>"
    using h(1) by (cases "io_sessions s ! j") (auto simp: on_receive_def elim!: rbind_InrE split: if_split_asm)
  show ?case
  proof (cases "j = k")
    case True
    have "server_read mp q1 (left1 @ concat (of_session k es)) = Inr (of_session k l', io_sessions s1 ! k)"
      using Cons.IH[OF h(2)] server_read_idle[OF o(3)] o(1,4) True by simp
    then show ?thesis
      using o(2,3) True Cons.prems(3) h(3) server_read_append[of mp q "left @ bs" "concat (of_session k es)"] by (simp add: e)
  next
    case False
    then show ?thesis using Cons.IH[OF h(2)] Cons.prems(2-4) o(4) h(3) by (simp add: e)
  qed
qed auto

lemma understood_ok: "list_all2 (understood mp) fs ms \<Longrightarrow> \<forall>f\<in>set fs. frame_ok f \<and> snd f \<noteq> []"
  by (induction fs ms rule: list_all2_induct) (auto simp: understood_def)

lemma server_read_frames:
  assumes "list_all2 (understood mp) fs ms" and "torn = [] \<or> (\<exists>f. frame_ok f \<and> snd f \<noteq> [] \<and> strict_prefix torn (frame f))"
  shows "\<exists>r rest. server_read mp ReadMeta (concat (map frame fs) @ torn) = Inr (List.map_filter id ms, r, rest) \<and> r \<noteq> Stopped"
  using assms
proof (induction fs ms rule: list_all2_induct)
  case Nil
  then show ?case using server_read_torn[of _ torn mp] by (auto simp: server_read.simps map_filter_simps)
next
  case (Cons f fs m ms)
  then show ?case using server_read_frame[OF Cons(1), of "concat (map frame fs) @ torn"]
    by (auto simp: map_filter_simps split: option.splits)
qed

section \<open>A session from its first frame on\<close>

text \<open>
  The life of a session that meets no error: frames are sent, the connection is established, writes
  complete. A completed write has put the bytes it was started with on the connection.
\<close>

datatype session_event = SendFrame u8 bytes | Connected | Written

definition written_bytes :: "client_session \<Rightarrow> bytes" where
  "written_bytes s = take (unat (hd (cs_writes s))) (drop (unat (bb_reader (cs_buffer s))) (bb_buff (cs_buffer s)))"

fun session_step :: "session_event \<Rightarrow> client_session \<times> bytes \<Rightarrow> (client_session \<times> bytes) res" where
  "session_step (SendFrame t data) (s, wire) = rbind (session_send t data s) (\<lambda>s1. Inr (s1, wire))"
| "session_step Connected (s, wire) = rbind (on_connect False s) (\<lambda>s1. rbind (deref s1) (\<lambda>s2. Inr (s2, wire)))"
| "session_step Written (s, wire) =
     (if cs_writes s = [] then Inl OutOfRange
      else rbind (on_written False (hd (cs_writes s)) s) (\<lambda>s1. rbind (deref s1) (\<lambda>s2. Inr (s2, wire @ written_bytes s))))"

text \<open>
  The events that can happen: one connection, a completion for every write, and a buffer that is not
  moved while a write reads from it.
\<close>

definition would_move :: "u8 \<Rightarrow> bytes \<Rightarrow> client_session \<Rightarrow> bool" where
  "would_move t data s \<longleftrightarrow> length (bb_buff (cs_buffer s)) <
     unat (bb_writer (cs_buffer s)) + 5 + length data"

fun possible :: "session_event list \<Rightarrow> client_session \<times> bytes \<Rightarrow> bool" where
  "possible [] sw \<longleftrightarrow> True"
| "possible (ev # evs) sw \<longleftrightarrow>
     (case ev of
        SendFrame t data \<Rightarrow> \<not> (cs_writes (fst sw) \<noteq> [] \<and> would_move t data (fst sw))
      | Connected \<Rightarrow> \<not> cs_connected (fst sw)
      | Written \<Rightarrow> cs_writes (fst sw) \<noteq> [])
     \<and> (case session_step ev sw of Inl _ \<Rightarrow> True | Inr sw1 \<Rightarrow> possible evs sw1)"

fun frames_sent :: "session_event list \<Rightarrow> (u8 \<times> bytes) list" where
  "frames_sent [] = []"
| "frames_sent (SendFrame t data # evs) = (t, data) # frames_sent evs"
| "frames_sent (_ # evs) = frames_sent evs"

text \<open>
  The invariant: what is on the wire and what is in the buffer are together the frames sent so far;
  one write is in flight exactly when the session is connected and has bytes, and it is for a part
  of them.
\<close>

definition session_inv :: "nat \<Rightarrow> (u8 \<times> bytes) list \<Rightarrow> client_session \<times> bytes \<Rightarrow> bool" where
  "session_inv t fs sw \<longleftrightarrow> wf_buffer t (cs_buffer (fst sw)) \<and> t = length (concat (map frame fs))
     \<and> snd sw @ bb_content (cs_buffer (fst sw)) = concat (map frame fs)
     \<and> (if cs_connected (fst sw) \<and> bb_content (cs_buffer (fst sw)) \<noteq> []
        then \<exists>n. cs_writes (fst sw) = [n] \<and> n \<noteq> 0 \<and> unat n \<le> length (bb_content (cs_buffer (fst sw)))
        else cs_writes (fst sw) = [])"

lemma readable_content: "wf_buffer t b \<Longrightarrow> bb_readable b \<longleftrightarrow> bb_content b \<noteq> []"
  by (auto simp: bb_readable_def bb_content_def wf_buffer_def word_le_nat_alt word_less_nat_alt)

lemma start_write_ok:
  assumes "wf_buffer t (cs_buffer s)"
  shows "\<exists>n. start_write s = Inr (if bb_content (cs_buffer s) = [] then s else s\<lparr>cs_writes := cs_writes s @ [n]\<rparr>)
     \<and> unat n = length (bb_content (cs_buffer s)) \<and> readable_bytes (cs_buffer s) = Inr n"
proof -
  obtain n where "readable_bytes (cs_buffer s) = Inr n" "unat n = length (bb_content (cs_buffer s))"
    using bb.available_ok[OF assms] by blast
  then show ?thesis by (intro exI [of _ n]) (simp add: start_write_def readable_content [OF assms])
qed

lemma no_growth:
  assumes "wf_buffer t b" and "t + length data \<le> bb_limit" and "unat (bb_writer b) + length data \<le> length (bb_buff b)"
    and "bb_put data b = Inr b1"
  shows "length (bb_buff b1) = length (bb_buff b) \<and> unat (bb_writer b1) = unat (bb_writer b) + length data"
proof -
  have b: "length (bb_buff b) < 2 ^ 32" "length data < 2 ^ 32" "unat (bb_writer b) \<le> length (bb_buff b)"
    using assms(1,2) by (auto simp: wf_buffer_def bb_limit_def)
  then have "unat (of_nat (length data) :: u32) = length data" "unat (of_nat (length (bb_buff b)) :: u32) = length (bb_buff b)"
    by (simp_all add: unat_of_nat take_bit_eq_mod)
  then have "\<not> (of_nat (length (bb_buff b)) - bb_writer b < (of_nat (length data) :: u32))"
    using b(3) assms(3) by (simp add: word_less_nat_alt unat_sub word_le_nat_alt)
  then have "b1 = b\<lparr>bb_buff := take (unat (bb_writer b)) (bb_buff b) @ data @ drop (unat (bb_writer b) + length data) (bb_buff b),
      bb_writer := bb_writer b + of_nat (length data)\<rparr>"
    using assms(3,4) by (simp add: bb_put_def Let_def)
  moreover have "unat (bb_writer b + of_nat (length data)) = unat (bb_writer b) + length data"
    using b assms(3) by (simp add: unat_word_ariths unat_of_nat take_bit_eq_mod)
  ultimately show ?thesis using assms(3) by simp
qed

lemma session_send_ok:
  assumes "wf_buffer t (cs_buffer s)" and "t + 5 + length data \<le> bb_limit" and "\<not> (cs_writes s \<noteq> [] \<and> would_move ty data s)"
  shows "\<exists>b. wf_buffer (t + 5 + length data) b \<and> bb_content b = bb_content (cs_buffer s) @ frame (ty, data)
     \<and> session_send ty data s = (let s1 = s\<lparr>cs_buffer := b\<rparr> in
         if cs_connected s \<and> bb_content (cs_buffer s) = [] then start_write s1 else Inr s1)"
proof -
  let ?b = "cs_buffer s" and ?meta = "meta_image \<lparr>tm_type = ty, tm_len = of_nat (length data)\<rparr>"
  obtain b1 where 1: "bb_put ?meta ?b = Inr b1" "wf_buffer (t + 5) b1" "bb_content b1 = bb_content ?b @ ?meta"
    using bb.put_ok[OF assms(1), of ?meta] assms(2) by auto
  obtain b2 where 2: "bb_put data b1 = Inr b2" "wf_buffer (t + 5 + length data) b2" "bb_content b2 = bb_content b1 @ data"
    using bb.put_ok[OF 1(2), of data] assms(2) by auto
  obtain n0 where n0: "readable_bytes ?b = Inr n0" "unat n0 = length (bb_content ?b)" using bb.available_ok[OF assms(1)] by auto
  obtain n2 where n2: "readable_bytes b2 = Inr n2" "unat n2 = length (bb_content b2)" using bb.available_ok[OF 2(2)] by auto
  have same: "length (bb_buff b2) = length (bb_buff ?b)" if "cs_writes s \<noteq> []"
  proof -
    have room: "unat (bb_writer ?b) + 5 + length data \<le> length (bb_buff ?b)" using assms(3) that by (simp add: would_move_def)
    have "length (bb_buff b1) = length (bb_buff ?b) \<and> unat (bb_writer b1) = unat (bb_writer ?b) + 5"
      using no_growth[OF assms(1) _ _ 1(1)] room assms(2) by simp
    then show ?thesis using no_growth[OF 1(2) _ _ 2(1)] room assms(2) by simp
  qed
  have len: "length data < 2 ^ 32" using assms(2) by (simp add: bb_limit_def)
  have "n0 = 0 \<longleftrightarrow> bb_content ?b = []" using n0(2) by (metis length_0_conv unat_eq_zero)
  then have "session_send ty data s = (let s1 = s\<lparr>cs_buffer := b2\<rparr> in
         if cs_connected s \<and> bb_content ?b = [] then start_write s1 else Inr s1)"
    using n0 n2 1 2 same len
    by (auto simp: session_send_def Let_def rassert_def unat_of_nat take_bit_eq_mod)
  moreover have "bb_content b2 = bb_content ?b @ frame (ty, data)" using 1(3) 2(3) by (simp add: frame_def)
  ultimately show ?thesis using 2(2) by blast
qed

lemma frame_nonempty [simp]: "frame f \<noteq> []" "length (frame f) = 5 + length (snd f)"
  by (simp_all add: frame_def length_0_conv [symmetric] del: length_0_conv)

lemma session_invD:
  assumes "session_inv t fs (s, wire)"
  shows "wf_buffer t (cs_buffer s)" and "t = length (concat (map frame fs))"
    and "wire @ bb_content (cs_buffer s) = concat (map frame fs)" and "\<not> cs_connected s \<Longrightarrow> cs_writes s = []"
    and "bb_content (cs_buffer s) = [] \<Longrightarrow> cs_writes s = []"
  using assms unfolding session_inv_def by auto

lemma send_step_inv:
  assumes "session_inv t fs (s, wire)" and "t + 5 + length data \<le> bb_limit" and "\<not> (cs_writes s \<noteq> [] \<and> would_move ty data s)"
  shows "\<exists>sw. session_step (SendFrame ty data) (s, wire) = Inr sw \<and> session_inv (t + 5 + length data) (fs @ [(ty, data)]) sw"
proof -
  note i = session_invD[OF assms(1)]
  obtain b where b: "wf_buffer (t + 5 + length data) b" "bb_content b = bb_content (cs_buffer s) @ frame (ty, data)"
      "session_send ty data s = (let s1 = s\<lparr>cs_buffer := b\<rparr> in
         if cs_connected s \<and> bb_content (cs_buffer s) = [] then start_write s1 else Inr s1)"
    using session_send_ok[OF i(1) assms(2,3)] by blast
  have all: "wire @ bb_content b = concat (map frame (fs @ [(ty, data)]))" using i(3) b(2) by simp
  show ?thesis
  proof (cases "cs_connected s \<and> bb_content (cs_buffer s) = []")
    case True
    then have "cs_writes s = []" using i(5) by simp
    moreover obtain n where "start_write (s\<lparr>cs_buffer := b\<rparr>) = Inr (s\<lparr>cs_buffer := b, cs_writes := cs_writes s @ [n]\<rparr>)"
        "unat n = length (bb_content b)"
      using start_write_ok[of "t + 5 + length data" "s\<lparr>cs_buffer := b\<rparr>"] b(1,2) by auto
    moreover from this(2) have "n \<noteq> 0" using b(2) by auto
    ultimately show ?thesis using True b i(2) all by (simp add: session_inv_def Let_def)
  next
    case False
    then show ?thesis using assms(1) b i(2) all by (auto simp: session_inv_def Let_def)
  qed
qed

lemma connect_step_inv:
  assumes "session_inv t fs (s, wire)" and "\<not> cs_connected s"
  shows "\<exists>sw. session_step Connected (s, wire) = Inr sw \<and> session_inv t fs sw"
proof -
  let ?s = "s\<lparr>cs_connected := True\<rparr>"
  have w: "wf_buffer t (cs_buffer ?s)" "cs_writes s = []" using session_invD(1,4)[OF assms(1)] assms(2) by simp_all
  obtain n where "start_write ?s = Inr (if bb_content (cs_buffer ?s) = [] then ?s else ?s\<lparr>cs_writes := cs_writes ?s @ [n]\<rparr>)"
      "unat n = length (bb_content (cs_buffer ?s))"
    using start_write_ok[OF w(1)] by blast
  then have sw: "start_write ?s = Inr (if bb_content (cs_buffer s) = [] then ?s else ?s\<lparr>cs_writes := [n]\<rparr>)"
    and n: "unat n = length (bb_content (cs_buffer s))" using w(2) by simp_all
  then have nz: "bb_content (cs_buffer s) \<noteq> [] \<Longrightarrow> n \<noteq> 0" by auto
  show ?thesis
  proof (cases "bb_content (cs_buffer s) = []")
    case True
    then have "session_step Connected (s, wire) = Inr (?s, wire)"
      using readable_content[OF w(1)] by (simp add: on_connect_def deref_def Let_def)
    then show ?thesis using True session_invD[OF assms(1)] w(2) by (simp add: session_inv_def)
  next
    case False
    then have "session_step Connected (s, wire) = Inr (?s\<lparr>cs_writes := [n]\<rparr>, wire)"
      using readable_content[OF w(1)] sw by (simp add: on_connect_def deref_def Let_def)
    then show ?thesis using False session_invD(1-3)[OF assms(1)] n nz by (simp add: session_inv_def)
  qed
qed

lemma written_step_inv:
  assumes "session_inv t fs (s, wire)" and "cs_writes s \<noteq> []"
  shows "\<exists>sw. session_step Written (s, wire) = Inr sw \<and> session_inv t fs sw"
proof -
  obtain n where n: "cs_writes s = [n]" "n \<noteq> 0" "unat n \<le> length (bb_content (cs_buffer s))" "cs_connected s"
    using assms by (auto simp: session_inv_def split: if_splits)
  note w = session_invD(1)[OF assms(1)]
  obtain b where b: "read_bytes n (cs_buffer s) = Inr b" "wf_buffer t b" "bb_content b = drop (unat n) (bb_content (cs_buffer s))"
    using bb.take_ok[OF w n(3)] by blast
  let ?s = "s\<lparr>cs_writes := [], cs_buffer := b\<rparr>"
  obtain k where k: "start_write ?s = Inr (if bb_content b = [] then ?s else ?s\<lparr>cs_writes := [k]\<rparr>)"
      "unat k = length (bb_content b)"
    using start_write_ok[of t ?s] b(2) by force
  then have kz: "bb_content b \<noteq> [] \<Longrightarrow> k \<noteq> 0" by auto
  have "written_bytes s = take (unat n) (bb_content (cs_buffer s))"
    using n(1,3) by (simp add: written_bytes_def bb_content_def min.absorb1)
  then have "(wire @ written_bytes s) @ bb_content b = concat (map frame fs)"
    using session_invD(3)[OF assms(1)] b(3) by simp
  then show ?thesis using assms(1) n b k kz
    by (auto simp: on_written_def deref_def session_inv_def Let_def)
qed

lemma session_run_inv:
  assumes "session_inv t fs sw" and "possible evs sw" and "length (concat (map frame (fs @ frames_sent evs))) \<le> bb_limit"
  shows "\<exists>sw' t'. rfold session_step evs sw = Inr sw' \<and> session_inv t' (fs @ frames_sent evs) sw'"
  using assms
proof (induction evs arbitrary: t fs sw)
  case (Cons ev evs)
  obtain s wire where sw: "sw = (s, wire)" by (cases sw)
  obtain t1 fs1 sw1 where 1: "session_step ev sw = Inr sw1" "session_inv t1 fs1 sw1" "fs1 @ frames_sent evs = fs @ frames_sent (ev # evs)"
  proof (cases ev)
    case (SendFrame ty data)
    have "t + 5 + length data \<le> bb_limit" using Cons.prems(1,3) SendFrame by (simp add: session_inv_def)
    then show thesis using send_step_inv[of t fs s wire data ty] Cons.prems(1,2) SendFrame sw that by force
  next
    case Connected
    then show thesis using connect_step_inv[of t fs s wire] Cons.prems(1,2) sw that by force
  next
    case Written
    then show thesis using written_step_inv[of t fs s wire] Cons.prems(1,2) sw that by force
  qed
  have "possible evs sw1" using Cons.prems(2) 1(1) by simp
  then show ?case using Cons.IH[OF 1(2)] Cons.prems(3) 1(1,3) by simp
qed auto

text \<open>
  C17: In-order delivery over a connection. Let a session send frames that its counterpart understands
  (\<open>understood\<close>), less than a gigabyte in all, before and after it is connected, with writes completing
  at any time, but with no frame that makes the buffer grow while a write is under way (\<open>possible\<close>),
  since the code would then write from freed memory. No assertion fails. What the server has read from
  the connection are the messages of an initial part of the frames, each once and in the order of
  sending; every frame that is on the connection completely is in it, and all are once the buffer is
  empty. The server session is still reading, and while frames are left on a connected session a
  write is under way. The messages handed on are the same in whatever pieces the bytes arrive and
  whatever arrives on other connections in between, as long as nothing there ends the process.
\<close>

theorem transport_fifo:
  assumes "list_all2 (understood mp) (frames_sent evs) ms" and "possible evs (ClientSession i, [])"
    and "length (concat (map frame (frames_sent evs))) \<le> bb_limit"
  shows "\<exists>s wire k r rest. rfold session_step evs (ClientSession i, []) = Inr (s, wire)
     \<and> server_read mp ReadMeta wire = Inr (List.map_filter id (take k ms), r, rest) \<and> r \<noteq> Stopped
     \<and> (\<forall>io io1 n es l. arrive mp es io = Inr (io1, l) \<and> n < length (io_sessions io)
          \<and> io_sessions io ! n = (ReadMeta, []) \<and> concat (of_session n es) = wire
          \<longrightarrow> of_session n l = List.map_filter id (take k ms) \<and> io_sessions io1 ! n = (r, rest))
     \<and> (\<forall>j\<le>length ms. prefix (concat (map frame (take j (frames_sent evs)))) wire \<longrightarrow> j \<le> k) \<and> k \<le> length ms
     \<and> (bb_content (cs_buffer s) = [] \<longrightarrow> k = length ms)
     \<and> (cs_connected s \<and> bb_content (cs_buffer s) \<noteq> [] \<longrightarrow> (\<exists>n. cs_writes s = [n]))"
proof -
  let ?fs = "frames_sent evs"
  have "session_inv 0 [] (ClientSession i, [])" using wf_ByteBuffer by (simp add: session_inv_def ClientSession_def)
  from session_run_inv[OF this assms(2)] assms(3) obtain sw t where
      "rfold session_step evs (ClientSession i, []) = Inr sw" "session_inv t ?fs sw" by auto
  then obtain s wire where r: "rfold session_step evs (ClientSession i, []) = Inr (s, wire)" "session_inv t ?fs (s, wire)"
    by (cases sw) simp
  have wire: "wire @ bb_content (cs_buffer s) = concat (map frame ?fs)" by (rule session_invD(3) [OF r(2)])
  have lens: "length ?fs = length ms" using assms(1) by (rule list_all2_lengthD)
  note ok = understood_ok[OF assms(1)]
  obtain fs1 torn where f: "wire = concat (map frame fs1) @ torn" "prefix fs1 ?fs"
      "torn = [] \<or> (\<exists>f\<in>set ?fs. strict_prefix torn (frame f))"
    using split_records[of wire frame ?fs] wire by (metis prefixI)
  let ?k = "length fs1"
  have fs1: "fs1 = take ?k ?fs" using f(2) by (auto simp: prefix_def)
  have k: "?k \<le> length ms" using prefix_length_le[OF f(2)] lens by simp
  have "list_all2 (understood mp) fs1 (take ?k ms)" using list_all2_takeI[OF assms(1), of ?k] fs1 by simp
  moreover have "torn = [] \<or> (\<exists>f. frame_ok f \<and> snd f \<noteq> [] \<and> strict_prefix torn (frame f))" using f(3) ok by blast
  ultimately obtain rd rest where read: "server_read mp ReadMeta wire = Inr (List.map_filter id (take ?k ms), rd, rest)" "rd \<noteq> Stopped"
    using server_read_frames[of mp fs1 "take ?k ms" torn] f(1) by blast
  have whole: "j \<le> ?k" if "j \<le> length ms" "prefix (concat (map frame (take j ?fs))) wire" for j
  proof -
    have "prefix (take j ?fs) fs1"
      using frames.whole_records[OF f(1) _ f(2) take_is_prefix _ that(2)] f(3) ok by blast
    from prefix_length_le[OF this] show ?thesis using that(1) lens by simp
  qed
  moreover have "?k = length ms" if "bb_content (cs_buffer s) = []"
    using whole[of "length ms"] wire lens k that by simp
  moreover have "\<exists>n. cs_writes s = [n]" if "cs_connected s" "bb_content (cs_buffer s) \<noteq> []"
    using r(2) that by (auto simp: session_inv_def)
  moreover have "of_session n l = List.map_filter id (take ?k ms) \<and> io_sessions io1 ! n = (rd, rest)"
    if "arrive mp es io = Inr (io1, l)" "n < length (io_sessions io)" "io_sessions io ! n = (ReadMeta, [])"
      "concat (of_session n es) = wire" for io io1 n es l
    using arrive_independent[OF that(1-3)] read(1) that(4) by (simp add: server_read.simps(2))
  ultimately show ?thesis using r(1) read k
    by - (rule exI [of _ s], rule exI [of _ wire], rule exI [of _ ?k], rule exI [of _ rd], rule exI [of _ rest], blast)
qed

section \<open>Frames that are not understood\<close>

lemma known_type: "t < 19 \<Longrightarrow> \<exists>name. msg_type_to_string t = Inr name"
proof -
  assume "t < 19"
  then have "unat t < 19" by (simp add: word_less_nat_alt)
  then have "unat t \<in> set [0..<19]" by simp
  moreover have "of_nat (unat t) = t" by simp
  ultimately have "t \<in> set (map of_nat [0..<19])" by (metis image_eqI set_map)
  then show ?thesis by (auto simp: msg_type_to_string_def upt_conv_Cons)
qed

lemma unknown_type: "19 \<le> t \<Longrightarrow> \<exists>what. msg_type_to_string t = Inl (Fatal what)"
  by (auto simp: msg_type_to_string_def word_le_nat_alt)

text \<open>
  C33: How a server session ends. A frame without payload, one with an unknown frame type, and one
  whose payload does not unpack while the message has still a known type, stop the reading of that
  session silently. But the process ends, whoever sent the frame, with a debug frame that has not
  exactly eight bytes or whose two counters are not successive, by a failed assertion, and with a
  stream frame that does not unpack after it has set a type that is not one of the nineteen, since
  the handler of the exception throws when it names that type.
\<close>

theorem bad_frames:
  assumes "frame_ok (t, data)"
  shows "(data = [] \<longrightarrow> server_read mp ReadMeta (frame (t, data) @ bs) = Inr ([], Stopped, bs))
     \<and> (data \<noteq> [] \<and> t \<noteq> TransportTypeDebug \<and> t \<noteq> TransportTypeStream \<longrightarrow>
          server_read mp ReadMeta (frame (t, data) @ bs) = Inr ([], Stopped, bs))
     \<and> (data \<noteq> [] \<and> t = TransportTypeStream \<and> up mp data = None \<and> part_type mp data < 19 \<longrightarrow>
          server_read mp ReadMeta (frame (t, data) @ bs) = Inr ([], Stopped, bs))
     \<and> (data \<noteq> [] \<and> t = TransportTypeStream \<and> up mp data = None \<and> 19 \<le> part_type mp data \<longrightarrow>
          (\<exists>what. server_read mp ReadMeta (frame (t, data) @ bs) = Inl (Fatal what)))
     \<and> (data \<noteq> [] \<and> t = TransportTypeDebug \<and> (length data \<noteq> 8 \<or> dm_a (debug_of_image data) + 1 \<noteq> dm_b (debug_of_image data)) \<longrightarrow>
          (\<exists>what. server_read mp ReadMeta (frame (t, data) @ bs) = Inl (Assertion what)))"
proof -
  have u: "unat (of_nat (length data) :: u32) = length data" using unat_frame_len[OF assms] by simp
  then have z: "(of_nat (length data) :: u32) = 0 \<longleftrightarrow> data = []" by (metis length_0_conv unat_eq_zero)
  have "server_read mp ReadMeta (frame (t, data) @ bs) = server_read mp (ReadMessage t (of_nat (length data))) (data @ bs)"
    by (subst server_read.simps) (simp add: frame_def meta_take Let_def)
  also have "\<dots> = (if data = [] then Inr ([], Stopped, bs)
      else rbind (decode_message mp t data) (\<lambda>(m, go_on).
        if \<not> go_on then Inr ([], Stopped, bs)
        else rbind (server_read mp ReadMeta bs) (\<lambda>(ms, r, rest).
          Inr ((case m of None \<Rightarrow> ms | Some x \<Rightarrow> x # ms), r, rest))))"
    using u z by (subst server_read.simps(3)) (simp add: case_prod_unfold cong: if_cong)
  finally show ?thesis
    using known_type[of "part_type mp data"] unknown_type[of "part_type mp data"]
    by (auto simp: decode_message_def rassert_def Let_def)
qed

section \<open>Witnesses\<close>

definition sample_packer :: "message_packer" where
  "sample_packer = \<lparr>pk = (\<lambda>m. u64_image (m_term m)), up = (\<lambda>bs. if length bs = 8 then Some (Message\<lparr>m_term := u64_of_image bs\<rparr>) else None),
     part_type = (\<lambda>bs. if bs = [] then MsgHup else hd bs)\<rparr>"

definition sample_events :: "session_event list" where
  "sample_events = [SendFrame 5 (debug_image \<lparr>dm_a = 0, dm_b = 1\<rparr>), SendFrame 1 (pk sample_packer (Message\<lparr>m_term := 7\<rparr>)),
     Connected, SendFrame 1 (pk sample_packer (Message\<lparr>m_term := 8\<rparr>)), Written]"

lemma sample_understood:
  "list_all2 (understood sample_packer) (frames_sent sample_events)
     [None, Some (Message\<lparr>m_term := 7\<rparr>), Some (Message\<lparr>m_term := 8\<rparr>)]"
  by (simp add: sample_events_def understood_def frame_ok_def decode_message_def rassert_def debug_of_image_def
      debug_image_def sample_packer_def length_0_conv [symmetric] del: length_0_conv)

lemma sample_possible: "possible sample_events (ClientSession 2, [])"
  by (simp add: sample_events_def sample_packer_def ClientSession_def ByteBuffer_def MIN_BUFFERING_def
      session_send_def readable_bytes_def rassert_def bb_put_def Let_def start_write_def bb_readable_def
      on_connect_def on_written_def deref_def read_bytes_def may_shrink_to_fit_def would_move_def debug_image_def)

theorem transport_fifo_witness:
  "\<exists>s wire k r rest. rfold session_step sample_events (ClientSession 2, []) = Inr (s, wire)
     \<and> server_read sample_packer ReadMeta wire
       = Inr (List.map_filter id (take k [None, Some (Message\<lparr>m_term := 7\<rparr>), Some (Message\<lparr>m_term := 8\<rparr>)]), r, rest)"
proof -
  have "length (concat (map frame (frames_sent sample_events))) \<le> bb_limit"
    by (simp add: sample_events_def bb_limit_def debug_image_def sample_packer_def)
  from transport_fifo[OF sample_understood sample_possible this] show ?thesis by blast
qed

theorem bad_frames_witness:
  "(\<exists>what. server_read sample_packer ReadMeta (frame (TransportTypeDebug, [1]) @ []) = Inl (Assertion what))
     \<and> (\<exists>what. server_read sample_packer ReadMeta (frame (TransportTypeStream, [77]) @ []) = Inl (Fatal what))
     \<and> server_read sample_packer ReadMeta (frame (TransportTypeStream, [3]) @ []) = Inr ([], Stopped, [])"
  using bad_frames[of TransportTypeDebug "[1]" sample_packer "[]"]
    bad_frames[of TransportTypeStream "[77]" sample_packer "[]"] bad_frames[of TransportTypeStream "[3]" sample_packer "[]"]
  by (simp add: frame_ok_def sample_packer_def)

end
