(* ===== verification/Raft_Glob.thy ===== *)
theory Raft_Glob
  imports Raft_Prelude
begin

text \<open>
  The pattern matching behind the \<open>KEYS\<close> command: \<open>string_match_len\<close>
  (src/raft-kv/server/redis_store.cpp), and its equivalence with a declarative meaning of
  patterns.

  A pattern or string with its length is the list of its bytes. The code looks at most one byte past
  the end, which is the terminating zero of both arguments (\<open>c_str()\<close> and the strings of the
  protocol reader have one): no special character, so the tests on it are false. Bytes are
  compared as \<open>char\<close>, which is signed on the machines the code targets.
\<close>

section \<open>The matcher\<close>

abbreviation "chr_star \<equiv> (42 :: u8)"
abbreviation "chr_any \<equiv> (63 :: u8)"
abbreviation "chr_open \<equiv> (91 :: u8)"
abbreviation "chr_close \<equiv> (93 :: u8)"
abbreviation "chr_not \<equiv> (94 :: u8)"
abbreviation "chr_dash \<equiv> (45 :: u8)"
abbreviation "chr_escape \<equiv> (92 :: u8)"

definition to_lower :: "int \<Rightarrow> int" where
  "to_lower c = (if 65 \<le> c \<and> c \<le> 90 then c + 32 else c)"

definition same_chr :: "bool \<Rightarrow> u8 \<Rightarrow> u8 \<Rightarrow> bool" where
  "same_chr nocase a b \<longleftrightarrow> (if \<not> nocase then a = b else to_lower (sint a) = to_lower (sint b))"

definition in_range :: "bool \<Rightarrow> u8 \<Rightarrow> u8 \<Rightarrow> u8 \<Rightarrow> bool" where
  "in_range nocase a b c \<longleftrightarrow>
     (let lo = min (sint a) (sint b); hi = max (sint a) (sint b); x = sint c in
      if nocase then to_lower lo \<le> to_lower x \<and> to_lower x \<le> to_lower hi else lo \<le> x \<and> x \<le> hi)"

text \<open>
  The loop over a bracket expression: whether the byte matched so far, and the pattern after the
  closing bracket; a missing bracket ends the pattern.
\<close>

function glob_class :: "bool \<Rightarrow> bytes \<Rightarrow> u8 \<Rightarrow> bool \<Rightarrow> bool \<times> bytes" where
  "glob_class nocase [] c m = (m, [])"
| "glob_class nocase (x # xs) c m =
     (if x = chr_escape \<and> xs \<noteq> [] then glob_class nocase (tl xs) c (m \<or> hd xs = c)
      else if x = chr_close then (m, xs)
      else if 2 \<le> length xs \<and> hd xs = chr_dash
      then glob_class nocase (drop 2 xs) c (m \<or> in_range nocase x (xs ! 1) c)
      else glob_class nocase xs c (m \<or> same_chr nocase x c))"
  by pat_completeness auto

termination
  by (relation "measure (\<lambda>(nocase, p, c, m). length p)") auto

lemma glob_class_shorter: "length (snd (glob_class nocase p c m)) \<le> length p"
  by (induction nocase p c m rule: glob_class.induct) auto

lemma length_dropWhile_less: "3 * length (dropWhile P xs) \<le> Suc (3 * length xs)"
  by (induction xs) auto

lemma glob_class_less:
  assumes "(m, rest) = glob_class nocase (if b then tl ps else ps) c False"
  shows "length rest \<le> length ps"
proof -
  have "length rest \<le> length (if b then tl ps else ps)"
    using glob_class_shorter[of nocase "if b then tl ps else ps" c False] assms by (metis snd_conv)
  then show ?thesis by (simp split: if_splits)
qed

text \<open>
  The matcher. \<open>match_rest\<close> is the end of the outer loop's body, \<open>match_star\<close> the inner loop
  that tries the rest of the pattern on every remaining part of the string.
\<close>

function (sequential) string_match_len :: "bool \<Rightarrow> bytes \<Rightarrow> bytes \<Rightarrow> bool"
  and match_rest :: "bool \<Rightarrow> bytes \<Rightarrow> bytes \<Rightarrow> bool"
  and match_star :: "bool \<Rightarrow> bytes \<Rightarrow> bytes \<Rightarrow> bool" where
  "string_match_len nocase [] s = (s = [])"
| "string_match_len nocase (x # ps) [] = False"
| "string_match_len nocase (x # ps) (c # cs) =
     (if x = chr_star then
        let ps1 = dropWhile (\<lambda>y. y = chr_star) ps in
        if ps1 = [] then True else match_star nocase ps1 (c # cs)
      else if x = chr_any then match_rest nocase ps cs
      else if x = chr_open then
        let not_match = (ps \<noteq> [] \<and> hd ps = chr_not);
            (m, rest) = glob_class nocase (if not_match then tl ps else ps) c False in
        if (if not_match then \<not> m else m) then match_rest nocase rest cs else False
      else if x = chr_escape \<and> ps \<noteq> [] then
        if same_chr nocase (hd ps) c then match_rest nocase (tl ps) cs else False
      else if same_chr nocase x c then match_rest nocase ps cs else False)"
| "match_rest nocase ps [] = (dropWhile (\<lambda>y. y = chr_star) ps = [])"
| "match_rest nocase ps (c # cs) = string_match_len nocase ps (c # cs)"
| "match_star nocase ps [] = False"
| "match_star nocase ps (c # cs) = (string_match_len nocase ps (c # cs) \<or> match_star nocase ps cs)"
  by pat_completeness auto

termination
  by (relation "measure (\<lambda>x. case x of Inl (_, p, s) \<Rightarrow> 3 * (length p + length s)
        | Inr (Inl (_, p, s)) \<Rightarrow> 3 * (length p + length s) + 1 | Inr (Inr (_, p, s)) \<Rightarrow> 3 * (length p + length s) + 1)")
     (auto simp: less_Suc_eq_le intro: length_dropWhile_less dest: glob_class_less)

section \<open>What a pattern means\<close>

text \<open>
  A pattern is a sequence of tokens: a star stands for any sequence of bytes, every other token for
  one byte with a property. A bracket expression is a list of ranges of (signed) byte values.
\<close>

datatype glob_token = Star | One "u8 \<Rightarrow> bool"

function class_ranges :: "bytes \<Rightarrow> (int \<times> int) list \<times> bytes" where
  "class_ranges [] = ([], [])"
| "class_ranges (x # xs) =
     (if x = chr_escape \<and> xs \<noteq> [] then
        let (rs, rest) = class_ranges (tl xs) in ((sint (hd xs), sint (hd xs)) # rs, rest)
      else if x = chr_close then ([], xs)
      else if 2 \<le> length xs \<and> hd xs = chr_dash then
        let (rs, rest) = class_ranges (drop 2 xs) in ((min (sint x) (sint (xs ! 1)), max (sint x) (sint (xs ! 1))) # rs, rest)
      else let (rs, rest) = class_ranges xs in ((sint x, sint x) # rs, rest))"
  by pat_completeness auto

termination
  by (relation "measure length") auto

definition in_class :: "bytes \<Rightarrow> u8 \<Rightarrow> bool" where
  "in_class p c \<longleftrightarrow> list_ex (\<lambda>(lo, hi). lo \<le> sint c \<and> sint c \<le> hi) (fst (class_ranges p))"

lemma class_ranges_shorter: "length (snd (class_ranges p)) \<le> length p"
  by (induction p rule: class_ranges.induct) (auto simp: case_prod_unfold Let_def)

function parse_glob :: "bytes \<Rightarrow> glob_token list" where
  "parse_glob [] = []"
| "parse_glob (x # ps) =
     (if x = chr_star then Star # parse_glob ps
      else if x = chr_any then One (\<lambda>_. True) # parse_glob ps
      else if x = chr_open then
        let neg = (ps \<noteq> [] \<and> hd ps = chr_not); body = (if neg then tl ps else ps) in
        One (\<lambda>c. in_class body c \<noteq> neg) # parse_glob (snd (class_ranges body))
      else if x = chr_escape \<and> ps \<noteq> [] then One (\<lambda>c. c = hd ps) # parse_glob (tl ps)
      else One (\<lambda>c. c = x) # parse_glob ps)"
  by pat_completeness auto

termination
  by (relation "measure length")
     (auto simp: less_Suc_eq_le intro: order_trans [OF class_ranges_shorter])

fun token_match :: "glob_token list \<Rightarrow> bytes \<Rightarrow> bool" where
  "token_match [] s \<longleftrightarrow> s = []"
| "token_match (Star # ts) s \<longleftrightarrow> list_ex (token_match ts) (suffixes s)"
| "token_match (One P # ts) [] \<longleftrightarrow> False"
| "token_match (One P # ts) (c # cs) \<longleftrightarrow> P c \<and> token_match ts cs"

section \<open>The matcher decides the meaning\<close>

lemma same_chr_False [simp]: "same_chr False a b \<longleftrightarrow> a = b"
  by (simp add: same_chr_def)

lemma sint_eq_iff [simp]: "sint a = sint b \<longleftrightarrow> a = (b :: u8)"
  using signed_word_eqI[of a b] by auto

lemma glob_class_ranges: "glob_class False p c m = (m \<or> in_class p c, snd (class_ranges p))"
proof (induction p arbitrary: m rule: class_ranges.induct)
  case (2 x xs)
  have eq: "hd xs = c \<longleftrightarrow> sint (hd xs) \<le> sint c \<and> sint c \<le> sint (hd xs)" "x = c \<longleftrightarrow> sint x \<le> sint c \<and> sint c \<le> sint x"
    by (auto simp flip: sint_eq_iff)
  show ?case using 2
    by (auto simp: in_class_def case_prod_unfold Let_def in_range_def eq)
qed (simp add: in_class_def)

lemma token_match_Star: "token_match (Star # ts) s \<longleftrightarrow> (\<exists>v. suffix v s \<and> token_match ts v)"
  by (auto simp: list_ex_iff)

lemma star_absorbs: "token_match (Star # parse_glob ps) s \<longleftrightarrow> token_match (Star # parse_glob (dropWhile (\<lambda>y. y = chr_star) ps)) s"
proof (induction ps arbitrary: s)
  case (Cons x ps)
  show ?case
  proof (cases "x = chr_star")
    case True
    then have "token_match (Star # parse_glob (x # ps)) s \<longleftrightarrow> (\<exists>v. suffix v s \<and> token_match (Star # parse_glob ps) v)"
      by (simp add: token_match_Star del: token_match.simps)
    also have "\<dots> \<longleftrightarrow> token_match (Star # parse_glob ps) s"
      by (auto simp: token_match_Star simp del: token_match.simps intro: suffix_order.trans)
    finally show ?thesis using Cons True by simp
  qed simp
qed simp

lemma parse_glob_One:
  assumes "ps \<noteq> []" and "hd ps \<noteq> chr_star"
  shows "\<exists>P ts. parse_glob ps = One P # ts"
  using assms by (cases ps) (auto simp: Let_def)

lemma match_nothing: "token_match (parse_glob ps) [] \<longleftrightarrow> dropWhile (\<lambda>y. y = chr_star) ps = []"
proof (induction ps)
  case (Cons x ps)
  show ?case
  proof (cases "x = chr_star")
    case True
    then show ?thesis using Cons by (simp add: list_ex_iff)
  next
    case False
    then obtain P ts where "parse_glob (x # ps) = One P # ts" using parse_glob_One[of "x # ps"] by auto
    then show ?thesis using False by simp
  qed
qed simp

lemma matcher_meaning:
  "\<not> nocase \<Longrightarrow> string_match_len nocase p s \<longleftrightarrow> (if s = [] then p = [] else token_match (parse_glob p) s)"
  "\<not> nocase \<Longrightarrow> match_rest nocase p s \<longleftrightarrow> token_match (parse_glob p) s"
  "\<not> nocase \<Longrightarrow> match_star nocase p s \<longleftrightarrow> (\<exists>v. v \<noteq> [] \<and> suffix v s \<and> token_match (parse_glob p) v)"
proof (induction nocase p s and nocase p s and nocase p s rule: string_match_len_match_rest_match_star.induct)
  case (3 nocase x ps c cs)
  show ?case
  proof (cases "x = chr_star")
    case True
    let ?ps = "dropWhile (\<lambda>y. y = chr_star) ps"
    show ?thesis
    proof (cases "?ps = []")
      case ps: True
      have "token_match [Star] (c # cs)" unfolding token_match_Star by (rule exI [of _ "[]"]) simp
      then have "token_match (Star # parse_glob ps) (c # cs)"
        using star_absorbs[of ps "c # cs"] ps by (simp del: token_match.simps)
      then show ?thesis using True ps by (simp del: token_match.simps)
    next
      case ps: False
      have "hd ?ps \<noteq> chr_star" using hd_dropWhile[OF ps] .
      then obtain P ts where "parse_glob ?ps = One P # ts" using parse_glob_One[OF ps] by blast
      then have "token_match (parse_glob ?ps) v \<Longrightarrow> v \<noteq> []" for v by auto
      then have "token_match (parse_glob (x # ps)) (c # cs) \<longleftrightarrow> (\<exists>v. v \<noteq> [] \<and> suffix v (c # cs) \<and> token_match (parse_glob ?ps) v)"
        using True star_absorbs[of ps "c # cs"] token_match_Star[of "parse_glob ?ps" "c # cs"] by auto
      then show ?thesis using True ps 3(1)[OF True refl ps] 3(6) by (auto simp: Let_def)
    qed
  next
    case False
    then show ?thesis using 3 by (auto simp: Let_def glob_class_ranges)
  qed
qed (auto simp: match_nothing suffix_Cons)

text \<open>
  C16: The matcher decides what a pattern means. On a string that is not empty, case-sensitive as
  the command calls it, it succeeds exactly if the string is a sequence of parts that match the
  tokens of the pattern: any bytes for a star, one byte for a question mark, one byte in (or not in)
  the ranges of a bracket expression, the byte itself otherwise, taken literally after a backslash.
  It always ends. An empty string, though, matches only the empty pattern: \<open>KEYS *\<close> does not
  list an empty key.
\<close>

theorem glob_match_correct:
  "string_match_len False p s \<longleftrightarrow> (if s = [] then p = [] else token_match (parse_glob p) s)"
  by (rule matcher_meaning(1)) simp

end
