(* ===== verification/Raft_Redis.thy ===== *)
theory Raft_Redis
  imports Raft_Glob Raft_Bytes Raft_Status
begin

text \<open>
  The key-value store (src/raft-kv/server/redis_store.h, redis_store.cpp): the commands that are
  proposed to the cluster, the requests waiting for their outcome, the application of committed
  entries, snapshots and the listing of keys.

  The store runs on one thread; what it posts to itself, and what the node posts to it, are separate
  operations here, run in the order of the queue. A callback is a number that stands for the
  session's continuation; an operation returns the callbacks it calls. Parameters: msgpack for
  commands and for the map of keys, where \<open>sc_unpacks\<close> tells whether \<open>unpack\<close> throws before the
  conversion starts. A conversion that throws is taken to have filled in nothing.
\<close>

section \<open>Commands\<close>

record redis_commit_data =
  cd_type :: u8
  cd_strs :: "bytes list"

record raft_commit =
  co_node_id :: u32
  co_commit_id :: u32
  co_redis_data :: redis_commit_data

definition kCommitSet :: u8 where [simp]: "kCommitSet = 0"
definition kCommitDel :: u8 where [simp]: "kCommitDel = 1"

type_synonym key_values = "(bytes \<times> bytes) list"

record store_codec =
  sc_commit :: "raft_commit packer"
  sc_map :: "key_values packer"
  sc_unpacks :: "bytes \<Rightarrow> bool"

section \<open>The store\<close>

record redis_store =
  rs_key_values :: key_values
  rs_next_request_id :: u32
  rs_pending_requests :: "(u32 \<times> nat) list"

definition RedisStore :: "store_codec \<Rightarrow> bytes \<Rightarrow> redis_store res" where
  "RedisStore c snap =
     (let st = \<lparr>rs_key_values = [], rs_next_request_id = 0, rs_pending_requests = []\<rparr> in
      if snap = [] then Inr st
      else if \<not> sc_unpacks c snap then Inl (Fatal ''msgpack'')
      else Inr (st\<lparr>rs_key_values := (case up (sc_map c) snap of None \<Rightarrow> [] | Some kv \<Rightarrow> kv)\<rparr>))"

definition store_get :: "bytes \<Rightarrow> redis_store \<Rightarrow> bytes option" where
  "store_get key st = map_of (rs_key_values st) key"

text \<open>A request: the command to propose, and the callback kept under its number.\<close>

definition store_request :: "store_codec \<Rightarrow> u64 \<Rightarrow> redis_commit_data \<Rightarrow> nat \<Rightarrow> redis_store \<Rightarrow> redis_store \<times> bytes \<times> u32" where
  "store_request c node d cb st =
     (let commit_id = rs_next_request_id st;
          commit = \<lparr>co_node_id = ucast node, co_commit_id = commit_id, co_redis_data = d\<rparr> in
      (st\<lparr>rs_next_request_id := commit_id + 1,
          rs_pending_requests := AList.update commit_id cb (rs_pending_requests st)\<rparr>,
       pk (sc_commit c) commit, commit_id))"

definition store_set :: "store_codec \<Rightarrow> u64 \<Rightarrow> bytes \<Rightarrow> bytes \<Rightarrow> nat \<Rightarrow> redis_store \<Rightarrow> redis_store \<times> bytes \<times> u32" where
  "store_set c node key val = store_request c node \<lparr>cd_type = kCommitSet, cd_strs = [key, val]\<rparr>"

definition store_del :: "store_codec \<Rightarrow> u64 \<Rightarrow> bytes list \<Rightarrow> nat \<Rightarrow> redis_store \<Rightarrow> redis_store \<times> bytes \<times> u32" where
  "store_del c node keys = store_request c node \<lparr>cd_type = kCommitDel, cd_strs = keys\<rparr>"

definition call_pending :: "u32 \<Rightarrow> status \<Rightarrow> redis_store \<Rightarrow> redis_store \<times> (nat \<times> status) list" where
  "call_pending i s st =
     (case map_of (rs_pending_requests st) i of
        None \<Rightarrow> (st, [])
      | Some cb \<Rightarrow> (st\<lparr>rs_pending_requests := AList.delete i (rs_pending_requests st)\<rparr>, [(cb, s)]))"

text \<open>The callbacks that \<open>set\<close> and \<open>del\<close> give to \<open>propose\<close>, with the status of the proposal.\<close>

definition set_proposed :: "u32 \<Rightarrow> status \<Rightarrow> redis_store \<Rightarrow> redis_store \<times> (nat \<times> status) list" where
  "set_proposed i s st = (if is_ok s then (st, []) else call_pending i s st)"

definition del_proposed :: "u32 \<Rightarrow> status \<Rightarrow> redis_store \<Rightarrow> redis_store \<times> (nat \<times> status) list" where
  "del_proposed i s st = call_pending i s st"

definition get_snapshot :: "store_codec \<Rightarrow> redis_store \<Rightarrow> bytes" where
  "get_snapshot c st = pk (sc_map c) (rs_key_values st)"

definition recover_from_snapshot :: "store_codec \<Rightarrow> bytes \<Rightarrow> redis_store \<Rightarrow> (redis_store \<times> status) res" where
  "recover_from_snapshot c snap st =
     (if \<not> sc_unpacks c snap then Inl (Fatal ''msgpack'')
      else case up (sc_map c) snap of
        None \<Rightarrow> Inr (st, io_error ''invalid snapshot'')
      | Some kv \<Rightarrow> Inr (st\<lparr>rs_key_values := kv\<rparr>, Ok))"

definition store_keys :: "bytes \<Rightarrow> redis_store \<Rightarrow> bytes list" where
  "store_keys pattern st = filter (string_match_len False pattern) (map fst (rs_key_values st))"

definition apply_data :: "redis_commit_data \<Rightarrow> key_values \<Rightarrow> key_values res" where
  "apply_data d kv =
     (if cd_type d = kCommitSet then
        (case cd_strs d of
           [k, v] \<Rightarrow> Inr (AList.update k v kv)
         | _ \<Rightarrow> Inl (Assertion ''data.strs.size() == 2''))
      else if cd_type d = kCommitDel then Inr (fold AList.delete (cd_strs d) kv)
      else Inr kv)"

definition read_commit :: "store_codec \<Rightarrow> u64 \<Rightarrow> bytes \<Rightarrow> redis_store \<Rightarrow> (redis_store \<times> (nat \<times> status) list) res" where
  "read_commit c node data st =
     (case up (sc_commit c) data of
        None \<Rightarrow> Inr (st, [])
      | Some commit \<Rightarrow>
          rbind (apply_data (co_redis_data commit) (rs_key_values st)) (\<lambda>kv.
            let st1 = st\<lparr>rs_key_values := kv\<rparr> in
            Inr (if ucast (co_node_id commit) = node then call_pending (co_commit_id commit) Ok st1 else (st1, []))))"

section \<open>Committed entries determine the store\<close>

fun apply_commits :: "store_codec \<Rightarrow> u64 \<Rightarrow> bytes list \<Rightarrow> redis_store \<Rightarrow> (redis_store \<times> (nat \<times> status) list) res" where
  "apply_commits c node [] st = Inr (st, [])"
| "apply_commits c node (d # ds) st =
     rbind (read_commit c node d st) (\<lambda>(st1, calls1).
     rbind (apply_commits c node ds st1) (\<lambda>(st2, calls2). Inr (st2, calls1 @ calls2)))"

text \<open>The effect of an entry on the keys alone.\<close>

definition kv_step :: "store_codec \<Rightarrow> bytes \<Rightarrow> key_values \<Rightarrow> key_values res" where
  "kv_step c data kv = (case up (sc_commit c) data of None \<Rightarrow> Inr kv | Some commit \<Rightarrow> apply_data (co_redis_data commit) kv)"

lemma call_pending_kv [simp]: "rs_key_values (fst (call_pending i s st)) = rs_key_values st"
  by (simp add: call_pending_def split: option.splits)

lemma read_commit_kv:
  "rbind (read_commit c node d st) (\<lambda>x. Inr (rs_key_values (fst x))) = kv_step c d (rs_key_values st)"
proof (cases "up (sc_commit c) d")
  case (Some commit)
  then show ?thesis
    by (cases "apply_data (co_redis_data commit) (rs_key_values st)") (simp_all add: read_commit_def kv_step_def Let_def)
qed (simp add: read_commit_def kv_step_def)

lemma apply_commits_kv:
  "rbind (apply_commits c node ds st) (\<lambda>x. Inr (rs_key_values (fst x))) = rfold (kv_step c) ds (rs_key_values st)"
proof (induction ds arbitrary: st)
  case (Cons d ds)
  note step = read_commit_kv[of c node d st]
  show ?case
  proof (cases "read_commit c node d st")
    case (Inl e)
    then show ?thesis using step by (cases "kv_step c d (rs_key_values st)") simp_all
  next
    case (Inr x)
    obtain st1 calls where x: "x = (st1, calls)" by (cases x)
    show ?thesis using step Cons.IH[of st1] Inr x
      by (cases "apply_commits c node ds st1") (auto simp: case_prod_unfold dest: sym)
  qed
qed simp

text \<open>
  C15: Replicas agree, with and without snapshots. If one replica has applied a sequence of committed
  entries, then a replica with another number and other requests waiting, which starts from a
  snapshot that the first one took on the way and applies the entries after it, applies them without
  failing and ends with the same keys and values.
\<close>

theorem snapshot_then_apply:
  assumes "apply_commits c n1 (ds1 @ ds2) st1 = Inr (end1, calls)"
    and "apply_commits c n1 ds1 st1 = Inr (mid, calls1)"
    and "sc_unpacks c (get_snapshot c mid)" and "up (sc_map c) (pk (sc_map c) (rs_key_values mid)) = Some (rs_key_values mid)"
  shows "\<exists>st2' end2 calls2. recover_from_snapshot c (get_snapshot c mid) st2 = Inr (st2', Ok)
     \<and> apply_commits c n2 ds2 st2' = Inr (end2, calls2) \<and> rs_key_values end2 = rs_key_values end1"
proof -
  let ?st2 = "st2\<lparr>rs_key_values := rs_key_values mid\<rparr>"
  have rec: "recover_from_snapshot c (get_snapshot c mid) st2 = Inr (?st2, Ok)"
    using assms(3,4) by (simp add: recover_from_snapshot_def get_snapshot_def)
  have "rfold (kv_step c) ds1 (rs_key_values st1) = Inr (rs_key_values mid)"
    using apply_commits_kv[of c n1 ds1 st1] assms(2) by simp
  moreover have "rfold (kv_step c) (ds1 @ ds2) (rs_key_values st1) = Inr (rs_key_values end1)"
    using apply_commits_kv[of c n1 "ds1 @ ds2" st1] assms(1) by simp
  ultimately have "rfold (kv_step c) ds2 (rs_key_values mid) = Inr (rs_key_values end1)" by (simp add: rfold_append)
  then have "rbind (apply_commits c n2 ds2 ?st2) (\<lambda>x. Inr (rs_key_values (fst x))) = Inr (rs_key_values end1)"
    using apply_commits_kv[of c n2 ds2 ?st2] by simp
  then show ?thesis using rec by (auto simp: rbind_Inr_iff)
qed

section \<open>Requests and their answers\<close>

text \<open>What happens to a store, one event after the other, with the answers given so far.\<close>

datatype store_event =
    ReqSet bytes bytes nat
  | ReqDel "bytes list" nat
  | SetProposed u32 status
  | DelProposed u32 status
  | Committed bytes

fun store_step :: "store_codec \<Rightarrow> u64 \<Rightarrow> store_event \<Rightarrow> redis_store \<Rightarrow> (redis_store \<times> (nat \<times> status) list) res" where
  "store_step c n (ReqSet k v cb) st = Inr (fst (store_set c n k v cb st), [])"
| "store_step c n (ReqDel ks cb) st = Inr (fst (store_del c n ks cb st), [])"
| "store_step c n (SetProposed i s) st = Inr (set_proposed i s st)"
| "store_step c n (DelProposed i s) st = Inr (del_proposed i s st)"
| "store_step c n (Committed d) st = read_commit c n d st"

fun store_run :: "store_codec \<Rightarrow> u64 \<Rightarrow> store_event list \<Rightarrow> redis_store \<Rightarrow> (redis_store \<times> (nat \<times> status) list) res" where
  "store_run c n [] st = Inr (st, [])"
| "store_run c n (ev # evs) st =
     rbind (store_step c n ev st) (\<lambda>(st1, a1).
     rbind (store_run c n evs st1) (\<lambda>(st2, a2). Inr (st2, a1 @ a2)))"

text \<open>The requests among the events, in order: the callback and what was asked for.\<close>

fun requests :: "store_event list \<Rightarrow> (nat \<times> redis_commit_data) list" where
  "requests [] = []"
| "requests (ReqSet k v cb # evs) = (cb, \<lparr>cd_type = kCommitSet, cd_strs = [k, v]\<rparr>) # requests evs"
| "requests (ReqDel ks cb # evs) = (cb, \<lparr>cd_type = kCommitDel, cd_strs = ks\<rparr>) # requests evs"
| "requests (_ # evs) = requests evs"

text \<open>
  The events a node can cause after those that have happened: the outcome of a proposal comes for a
  request of its kind, and a committed command with this node's number is one that it proposed.
\<close>

definition proposal_of :: "u64 \<Rightarrow> (nat \<times> redis_commit_data) list \<Rightarrow> nat \<Rightarrow> raft_commit" where
  "proposal_of n rs i = \<lparr>co_node_id = ucast n, co_commit_id = of_nat i, co_redis_data = snd (rs ! i)\<rparr>"

fun caused :: "store_codec \<Rightarrow> u64 \<Rightarrow> (nat \<times> redis_commit_data) list \<Rightarrow> store_event \<Rightarrow> bool" where
  "caused c n rs (ReqSet k v cb) \<longleftrightarrow> cb \<notin> fst ` set rs \<and> length rs < 2 ^ 32 - 1"
| "caused c n rs (ReqDel ks cb) \<longleftrightarrow> cb \<notin> fst ` set rs \<and> length rs < 2 ^ 32 - 1"
| "caused c n rs (SetProposed i s) \<longleftrightarrow> unat i < length rs \<and> cd_type (snd (rs ! unat i)) = kCommitSet"
| "caused c n rs (DelProposed i s) \<longleftrightarrow> unat i < length rs \<and> cd_type (snd (rs ! unat i)) = kCommitDel"
| "caused c n rs (Committed d) \<longleftrightarrow>
     (\<forall>m. up (sc_commit c) d = Some m \<and> ucast (co_node_id m) = n \<longrightarrow> (\<exists>i<length rs. m = proposal_of n rs i))"

fun history_ok :: "store_codec \<Rightarrow> u64 \<Rightarrow> (nat \<times> redis_commit_data) list \<Rightarrow> store_event list \<Rightarrow> bool" where
  "history_ok c n rs [] \<longleftrightarrow> True"
| "history_ok c n rs (ev # evs) \<longleftrightarrow> caused c n rs ev \<and> history_ok c n (rs @ requests [ev]) evs"

text \<open>The invariant between the store, the requests made and the answers given.\<close>

definition store_inv :: "(nat \<times> redis_commit_data) list \<Rightarrow> nat list \<Rightarrow> redis_store \<Rightarrow> bool" where
  "store_inv rs answered st \<longleftrightarrow> rs_next_request_id st = of_nat (length rs) \<and> length rs < 2 ^ 32
     \<and> distinct (map fst rs) \<and> distinct answered \<and> set answered \<subseteq> fst ` set rs
     \<and> distinct (map fst (rs_pending_requests st))
     \<and> (\<forall>i cb. map_of (rs_pending_requests st) i = Some cb \<longrightarrow>
          unat i < length rs \<and> fst (rs ! unat i) = cb \<and> cb \<notin> set answered)"

lemma unat_of_nat_u32: "k < 2 ^ 32 \<Longrightarrow> unat (of_nat k :: u32) = k"
  by (simp add: unat_of_nat take_bit_eq_mod)

lemma request_inv:
  assumes "store_inv rs answered st" and "cb \<notin> fst ` set rs" and "length rs < 2 ^ 32 - 1"
  shows "store_inv (rs @ [(cb, d)]) answered (fst (store_request c n d cb st))"
proof -
  have k: "unat (of_nat (length rs) :: u32) = length rs" using assms(3) by (simp add: unat_of_nat_u32)
  show ?thesis using assms k
    by (auto simp: store_inv_def store_request_def Let_def update_conv' distinct_update nth_append intro: less_SucI)
qed

lemma call_pending_inv:
  assumes "store_inv rs answered st" and "call_pending i s st = (st1, a)"
  shows "store_inv rs (answered @ map fst a) st1" and "\<forall>x\<in>set a. snd x = s \<and> unat i < length rs \<and> fst x = fst (rs ! unat i)"
proof -
  have inj: "fst (rs ! j) = fst (rs ! k) \<Longrightarrow> j < length rs \<Longrightarrow> k < length rs \<Longrightarrow> j = k" for j k
    using assms(1) nth_eq_iff_index_eq[of "map fst rs" j k] by (simp add: store_inv_def)
  show "store_inv rs (answered @ map fst a) st1"
  proof (cases "map_of (rs_pending_requests st) i")
    case None
    then show ?thesis using assms by (simp add: call_pending_def)
  next
    case (Some cb)
    then have st1: "st1 = st\<lparr>rs_pending_requests := AList.delete i (rs_pending_requests st)\<rparr>" "a = [(cb, s)]"
      using assms(2) by (simp_all add: call_pending_def)
    have cb: "unat i < length rs" "fst (rs ! unat i) = cb" "cb \<notin> set answered" using assms(1) Some by (auto simp: store_inv_def)
    have "unat j < length rs \<and> fst (rs ! unat j) = cb' \<and> cb' \<notin> set answered \<and> cb' \<noteq> cb"
      if "map_of (rs_pending_requests st) j = Some cb'" "j \<noteq> i" for j cb'
    proof -
      have j: "unat j < length rs" "fst (rs ! unat j) = cb'" "cb' \<notin> set answered" using assms(1) that(1) unfolding store_inv_def by blast+
      moreover have "cb' \<noteq> cb" using inj[of "unat j" "unat i"] j cb that(2) by (auto simp: word_unat_eq_iff)
      ultimately show ?thesis by blast
    qed
    moreover have "cb \<in> fst ` set rs" using cb nth_mem by blast
    ultimately show ?thesis using assms(1) cb unfolding store_inv_def st1
      by (simp add: delete_conv' distinct_delete)
  qed
  show "\<forall>x\<in>set a. snd x = s \<and> unat i < length rs \<and> fst x = fst (rs ! unat i)"
    using assms by (auto simp: store_inv_def call_pending_def split: option.splits)
qed

lemma inv_kv [simp]: "store_inv rs answered (st\<lparr>rs_key_values := kv\<rparr>) = store_inv rs answered st"
  by (simp add: store_inv_def)

text \<open>One event: the invariant is kept, and an answer to a set says \<open>OK\<close> only when it is visible.\<close>

lemma store_step_inv:
  assumes "store_inv rs answered st" and "caused c n rs ev" and "store_step c n ev st = Inr (st1, a)"
  shows "store_inv (rs @ requests [ev]) (answered @ map fst a) st1"
    and "(cb, \<lparr>cd_type = kCommitSet, cd_strs = [k, v]\<rparr>) \<in> set rs \<Longrightarrow> (cb, Ok) \<in> set a \<Longrightarrow> store_get k st1 = Some v"
proof -
  have uniq: "d = snd (rs ! i)" if "(fst (rs ! i), d) \<in> set rs" "i < length rs" for d i
  proof -
    obtain j where "j < length rs" "rs ! j = (fst (rs ! i), d)" using \<open>(fst (rs ! i), d) \<in> set rs\<close> by (auto simp: in_set_conv_nth)
    moreover from this have "j = i"
      using assms(1) that(2) nth_eq_iff_index_eq[of "map fst rs" j i] by (simp add: store_inv_def)
    ultimately show ?thesis by (metis snd_conv)
  qed
  have *: "store_inv (rs @ requests [ev]) (answered @ map fst a) st1
     \<and> ((cb, \<lparr>cd_type = kCommitSet, cd_strs = [k, v]\<rparr>) \<in> set rs \<longrightarrow> (cb, Ok) \<in> set a \<longrightarrow> store_get k st1 = Some v)"
  proof (cases ev)
    case (ReqSet k' v' cb')
    then show ?thesis using assms request_inv[OF assms(1)] by (auto simp: store_set_def)
  next
    case (ReqDel ks cb')
    then show ?thesis using assms request_inv[OF assms(1)] by (auto simp: store_del_def)
  next
    case (SetProposed i s)
    then show ?thesis using assms call_pending_inv[OF assms(1), of i s st1 a]
      by (cases "is_ok s") (auto simp: set_proposed_def)
  next
    case (DelProposed i s)
    then have cp: "call_pending i s st = (st1, a)" using assms(3) by (simp add: del_proposed_def)
    note p = call_pending_inv[OF assms(1) cp]
    have "\<not> ((cb, \<lparr>cd_type = kCommitSet, cd_strs = [k, v]\<rparr>) \<in> set rs \<and> (cb, Ok) \<in> set a)"
      using p(2) uniq assms(2) DelProposed by fastforce
    then show ?thesis using p(1) DelProposed by auto
  next
    case (Committed d)
    show ?thesis
    proof (cases "up (sc_commit c) d")
      case None
      then show ?thesis using assms(1,3) Committed by (simp add: read_commit_def)
    next
      case (Some m)
      then obtain kv where kv: "apply_data (co_redis_data m) (rs_key_values st) = Inr kv"
          "(st1, a) = (if ucast (co_node_id m) = n then call_pending (co_commit_id m) Ok (st\<lparr>rs_key_values := kv\<rparr>)
             else (st\<lparr>rs_key_values := kv\<rparr>, []))"
        using assms(3) Committed by (auto simp: read_commit_def rbind_Inr_iff Let_def)
      show ?thesis
      proof (cases "ucast (co_node_id m) = n")
        case False
        then show ?thesis using kv assms(1) Committed by simp
      next
        case True
        then have cp: "call_pending (co_commit_id m) Ok (st\<lparr>rs_key_values := kv\<rparr>) = (st1, a)" using kv(2) by simp
        have si: "store_inv rs answered (st\<lparr>rs_key_values := kv\<rparr>)" using assms(1) by simp
        note p = call_pending_inv[OF si cp]
        obtain i where i: "i < length rs" "m = proposal_of n rs i" using assms(2) Committed Some True by auto
        then have ii: "unat (co_commit_id m) = i"
          using assms(1) by (simp add: proposal_of_def store_inv_def unat_of_nat_u32)
        have kv1: "rs_key_values st1 = kv" using call_pending_kv[of "co_commit_id m" Ok "st\<lparr>rs_key_values := kv\<rparr>"] cp by simp
        have "store_get k st1 = Some v"
          if "(cb, \<lparr>cd_type = kCommitSet, cd_strs = [k, v]\<rparr>) \<in> set rs" "(cb, Ok) \<in> set a"
        proof -
          have "cb = fst (rs ! i)" using p(2) that(2) ii by auto
          then have "snd (rs ! i) = \<lparr>cd_type = kCommitSet, cd_strs = [k, v]\<rparr>" using uniq[of i] that(1) i(1) by auto
          then have "kv = AList.update k v (rs_key_values st)" using kv(1) i(2) by (simp add: proposal_of_def apply_data_def)
          then show ?thesis using kv1 by (simp add: store_get_def update_conv')
        qed
        then show ?thesis using p(1) Committed by auto
      qed
    qed
  qed
  then show "store_inv (rs @ requests [ev]) (answered @ map fst a) st1"
    "(cb, \<lparr>cd_type = kCommitSet, cd_strs = [k, v]\<rparr>) \<in> set rs \<Longrightarrow> (cb, Ok) \<in> set a \<Longrightarrow> store_get k st1 = Some v" by auto
qed

lemma requests_Cons: "requests (ev # evs) = requests [ev] @ requests evs"
  by (cases ev) simp_all

lemma history_ok_append: "history_ok c n rs (xs @ ys) \<longleftrightarrow> history_ok c n rs xs \<and> history_ok c n (rs @ requests xs) ys"
proof (induction xs arbitrary: rs)
  case (Cons x xs)
  then show ?case by (simp add: requests_Cons [of x xs])
qed simp

lemma store_run_inv:
  assumes "store_inv rs answered st" and "history_ok c n rs evs" and "store_run c n evs st = Inr (st', a)"
  shows "store_inv (rs @ requests evs) (answered @ map fst a) st'"
  using assms
proof (induction evs arbitrary: rs answered st a)
  case (Cons ev evs)
  obtain st1 a1 a2 where 1: "store_step c n ev st = Inr (st1, a1)" "store_run c n evs st1 = Inr (st', a2)" "a = a1 @ a2"
    using Cons.prems(3) by (auto simp: rbind_Inr_iff)
  have "store_inv (rs @ requests [ev]) (answered @ map fst a1) st1"
    using store_step_inv(1)[OF Cons.prems(1) _ 1(1)] Cons.prems(2) by simp
  from Cons.IH[OF this _ 1(2)] show ?case using Cons.prems(2) 1(3) by (simp add: requests_Cons [of ev evs])
qed simp

text \<open>
  C14: Acknowledged writes are visible, as long as no command of an earlier incarnation of the node
  comes back. Let a store that was started without a snapshot go through any requests, outcomes of
  proposals and committed entries of the cluster, where every committed command that carries this
  node's number is one it has proposed since it was started (\<open>history_ok\<close>). No request is answered
  twice; and whenever a set is answered with \<open>OK\<close>, the store has the value under the key from that
  moment on, until a later entry changes it: the answer never comes before the write is committed and
  applied. The condition is needed: after a restart the numbers of requests begin at 0 again, and an old
  command of the node that is committed or applied again can answer a new request.
\<close>

theorem set_acknowledged_visible:
  assumes "RedisStore c [] = Inr st0" and "history_ok c n [] (evs @ [ev])"
    and "store_run c n evs st0 = Inr (st, answers)" and "store_step c n ev st = Inr (st1, a)"
  shows "distinct (map fst (answers @ a))
     \<and> (\<forall>cb k v. (cb, \<lparr>cd_type = kCommitSet, cd_strs = [k, v]\<rparr>) \<in> set (requests evs) \<and> (cb, Ok) \<in> set a
          \<longrightarrow> store_get k st1 = Some v)"
proof -
  have "store_inv [] [] st0" using assms(1) by (auto simp: RedisStore_def store_inv_def)
  from store_run_inv[OF this _ assms(3)] have inv: "store_inv (requests evs) (map fst answers) st"
    using assms(2) by (simp add: history_ok_append)
  have "caused c n (requests evs) ev" using assms(2) by (simp add: history_ok_append)
  note s = store_step_inv[OF inv this assms(4)]
  have "distinct (map fst answers @ map fst a)" using s(1) by (simp add: store_inv_def)
  then show ?thesis using s(2) by auto
qed

text \<open>
  C40: Deletions are acknowledged too early. Whatever the store holds, a deletion is answered with
  \<open>OK\<close> as soon as its proposal has been accepted by the node; at that moment no key has been
  deleted, and the proposal may still be lost.
\<close>

theorem del_acknowledged_early:
  "\<exists>st1 st2 prop i. store_del c n ks cb st = (st1, prop, i) \<and> del_proposed i Ok st1 = (st2, [(cb, Ok)])
     \<and> rs_key_values st2 = rs_key_values st"
  by (simp add: store_del_def store_request_def del_proposed_def call_pending_def Let_def update_conv')

section \<open>Witnesses\<close>

text \<open>A codec for commands, and for maps of one entry, that set a key of one byte, under the first number.\<close>

definition sample_store_codec :: store_codec where
  "sample_store_codec =
     \<lparr>sc_commit = \<lparr>pk = (\<lambda>m. concat (cd_strs (co_redis_data m))),
        up = (\<lambda>bs. Some \<lparr>co_node_id = 1, co_commit_id = 0,
          co_redis_data = \<lparr>cd_type = kCommitSet, cd_strs = [take 1 bs, drop 1 bs]\<rparr>\<rparr>)\<rparr>,
      sc_map = \<lparr>pk = (\<lambda>kv. concat (map (\<lambda>(k, v). k @ v) kv)), up = (\<lambda>bs. Some [(take 1 bs, drop 1 bs)])\<rparr>, sc_unpacks = (\<lambda>_. True)\<rparr>"

definition sample_store :: redis_store where
  "sample_store = \<lparr>rs_key_values = [([7], [8])], rs_next_request_id = 0, rs_pending_requests = []\<rparr>"

definition fresh_store :: redis_store where
  "fresh_store = \<lparr>rs_key_values = [], rs_next_request_id = 0, rs_pending_requests = []\<rparr>"

lemma fresh_store: "RedisStore c [] = Inr fresh_store"
  by (simp add: RedisStore_def fresh_store_def)

theorem set_acknowledged_visible_witness:
  "\<exists>st1. store_run sample_store_codec 1 [ReqSet [7] [8] 0, Committed [7, 8]] fresh_store = Inr (st1, [(0, Ok)])
     \<and> store_get [7] st1 = Some [8]"
proof -
  define st where "st = fresh_store\<lparr>rs_next_request_id := 1, rs_pending_requests := [(0, 0)]\<rparr>"
  define st1 where "st1 = st\<lparr>rs_key_values := [([7], [8])], rs_pending_requests := []\<rparr>"
  have h: "history_ok sample_store_codec 1 [] ([ReqSet [7] [8] 0] @ [Committed [7, 8]])"
    by (simp add: sample_store_codec_def proposal_of_def)
  have r: "store_run sample_store_codec 1 [ReqSet [7] [8] 0] fresh_store = Inr (st, [])"
    by (simp add: store_set_def store_request_def st_def fresh_store_def)
  have s: "store_step sample_store_codec 1 (Committed [7, 8]) st = Inr (st1, [(0, Ok)])"
    by (simp add: read_commit_def sample_store_codec_def apply_data_def call_pending_def st_def st1_def fresh_store_def)
  have "store_get [7] st1 = Some [8]"
    using set_acknowledged_visible[OF fresh_store h r s] by simp
  then show ?thesis using r s by simp
qed

theorem snapshot_then_apply_witness:
  "\<exists>st2' end2 calls2. recover_from_snapshot sample_store_codec (get_snapshot sample_store_codec sample_store)
       (sample_store\<lparr>rs_key_values := [], rs_pending_requests := [(3, 4)]\<rparr>) = Inr (st2', Ok)
     \<and> apply_commits sample_store_codec 2 [[7, 9]] st2' = Inr (end2, calls2) \<and> rs_key_values end2 = [([7], [9])]"
proof -
  have "apply_commits sample_store_codec 5 ([] @ [[7, 9]]) sample_store = Inr (sample_store\<lparr>rs_key_values := [([7], [9])]\<rparr>, [])"
    by (simp add: read_commit_def sample_store_codec_def sample_store_def apply_data_def)
  from snapshot_then_apply[OF this, of sample_store "[]"] show ?thesis
    by (force simp: sample_store_codec_def sample_store_def)
qed

end
