(* ===== verification/Raft_Session.thy ===== *)
theory Raft_Session
  imports Raft_Redis Raft_Buffer
begin

text \<open>
  The sessions of the clients (src/raft-kv/server/redis_session.h, redis_session.cpp): reading the
  protocol, the table of commands, the replies and their sending.

  The protocol reader is a third-party library and a parameter: what feeding it bytes does to it, and
  what it returns when asked for a reply (nothing at all in case of an error). Its reply objects are
  given by the type, the elements and the bytes the code looks at. Reads and writes of the socket are
  split at their callbacks, as in the transport.
\<close>

section \<open>Texts\<close>

definition ascii :: "string \<Rightarrow> bytes" where
  "ascii s = map of_char s"

abbreviation "crlf \<equiv> ([13, 10] :: bytes)"

text \<open>\<open>%lu\<close>, and a string up to its first zero byte, as \<open>%s\<close> and \<open>strlen\<close> see it.\<close>

fun decimal :: "nat \<Rightarrow> bytes" where
  "decimal n = (if n < 10 then [of_nat (48 + n)] else decimal (n div 10) @ [of_nat (48 + n mod 10)])"

declare decimal.simps [simp del]

definition c_str :: "bytes \<Rightarrow> bytes" where
  "c_str s = takeWhile (\<lambda>b. b \<noteq> 0) s"

text \<open>
  A reply formatted by \<open>snprintf\<close> into a buffer of 256 bytes and sent with the length that
  \<open>snprintf\<close> returns, which is that of the whole text.
\<close>

definition formatted :: "bytes \<Rightarrow> bytes res" where
  "formatted s =
     (let buffer = take 255 s @ [0] in
      if length s \<le> 255 then Inr s
      else if length s = 256 then Inr buffer
      else Inl OutOfRange)"

definition shared_ok :: bytes where "shared_ok = ascii ''+OK'' @ crlf"
definition shared_err :: "bytes \<Rightarrow> bytes" where "shared_err s = ascii ''-ERR '' @ s @ crlf"
definition shared_wrong_type :: bytes where
  "shared_wrong_type = ascii ''-WRONGTYPE Operation against a key holding the wrong kind of value'' @ crlf"
definition shared_unknown_command :: "bytes \<Rightarrow> bytes" where
  "shared_unknown_command s = ascii ''-ERR unknown command `'' @ s @ ascii ''`'' @ crlf"
definition shared_wrong_number_arguments :: "bytes \<Rightarrow> bytes" where
  "shared_wrong_number_arguments s = ascii ''-ERR wrong number of arguments for '' @ [39] @ s @ [39] @ ascii '' command'' @ crlf"
definition shared_pong :: bytes where "shared_pong = ascii ''+PONG'' @ crlf"
definition shared_null :: bytes where "shared_null = ascii ''$-1'' @ crlf"

definition build_string :: "bytes \<Rightarrow> bytes" where
  "build_string s = ascii ''$'' @ decimal (length s) @ crlf @ (if s \<noteq> [] then s @ crlf else [])"

definition build_redis_string_array_reply :: "bytes list \<Rightarrow> bytes" where
  "build_redis_string_array_reply strs = ascii ''*'' @ decimal (length strs) @ crlf @ concat (map build_string strs)"

section \<open>Commands\<close>

datatype redis_reply = ReplyArray "redis_reply list" | ReplyString bytes | ReplyOther int

text \<open>What a command does: answer at once, or hand a request to the store.\<close>

datatype session_action = SendReply bytes | CallSet bytes bytes | CallDel "bytes list"

definition send_formatted :: "bytes \<Rightarrow> session_action res" where
  "send_formatted s = rbind (formatted s) (\<lambda>b. Inr (SendReply b))"

definition ping_command :: "redis_store \<Rightarrow> redis_reply list \<Rightarrow> session_action res" where
  "ping_command st args = Inr (SendReply shared_pong)"

definition get_reply :: "bytes \<Rightarrow> bytes" where
  "get_reply v = c_str (ascii ''$'' @ decimal (length v) @ crlf @ c_str v @ crlf)"

definition get_command :: "redis_store \<Rightarrow> redis_reply list \<Rightarrow> session_action res" where
  "get_command st args =
     (if length args \<noteq> 2 then send_formatted (shared_wrong_number_arguments (ascii ''get''))
      else case args ! 1 of
        ReplyString key \<Rightarrow>
          (case store_get key st of
             None \<Rightarrow> Inr (SendReply shared_null)
           | Some v \<Rightarrow> Inr (SendReply (get_reply v)))
      | _ \<Rightarrow> Inr (SendReply shared_wrong_type))"

definition set_command :: "redis_store \<Rightarrow> redis_reply list \<Rightarrow> session_action res" where
  "set_command st args =
     (if length args \<noteq> 3 then send_formatted (shared_wrong_number_arguments (ascii ''set''))
      else case (args ! 1, args ! 2) of
        (ReplyString key, ReplyString v) \<Rightarrow> Inr (CallSet key v)
      | _ \<Rightarrow> Inr (SendReply shared_wrong_type))"

fun string_elements :: "redis_reply list \<Rightarrow> bytes list option" where
  "string_elements [] = Some []"
| "string_elements (ReplyString s # rs) = (case string_elements rs of None \<Rightarrow> None | Some ss \<Rightarrow> Some (s # ss))"
| "string_elements (_ # rs) = None"

definition del_command :: "redis_store \<Rightarrow> redis_reply list \<Rightarrow> session_action res" where
  "del_command st args =
     (if length args \<le> 1 then send_formatted (shared_wrong_number_arguments (ascii ''del''))
      else case string_elements (tl args) of
        None \<Rightarrow> Inr (SendReply shared_wrong_type)
      | Some keys \<Rightarrow> Inr (CallDel keys))"

definition keys_command :: "redis_store \<Rightarrow> redis_reply list \<Rightarrow> session_action res" where
  "keys_command st args =
     (if length args \<noteq> 2 then send_formatted (shared_wrong_number_arguments (ascii ''keys''))
      else case args ! 1 of
        ReplyString pattern \<Rightarrow> Inr (SendReply (build_redis_string_array_reply (store_keys pattern st)))
      | _ \<Rightarrow> Inr (SendReply shared_wrong_type))"

definition command_table :: "(bytes \<times> (redis_store \<Rightarrow> redis_reply list \<Rightarrow> session_action res)) list" where
  "command_table =
     [(ascii ''ping'', ping_command), (ascii ''PING'', ping_command), (ascii ''get'', get_command), (ascii ''GET'', get_command),
      (ascii ''set'', set_command), (ascii ''SET'', set_command), (ascii ''del'', del_command), (ascii ''DEL'', del_command),
      (ascii ''keys'', keys_command), (ascii ''KEYS'', keys_command)]"

text \<open>The choices of \<open>on_redis_reply\<close>: the answer that is sent, or the request for the store.\<close>

definition command_action :: "redis_store \<Rightarrow> redis_reply \<Rightarrow> session_action res" where
  "command_action st r =
     (case r of
        ReplyArray args \<Rightarrow>
          (case args of
             [] \<Rightarrow> send_formatted (shared_wrong_number_arguments [])
           | ReplyString command # _ \<Rightarrow>
               (case map_of command_table command of
                  None \<Rightarrow> send_formatted (shared_unknown_command (c_str command))
                | Some cb \<Rightarrow> cb st args)
           | _ \<Rightarrow> Inr (SendReply shared_wrong_type))
      | _ \<Rightarrow> Inr (SendReply shared_wrong_type))"

text \<open>The callback that \<open>set\<close> and \<open>del\<close> give to the store.\<close>

definition request_done :: "status \<Rightarrow> bytes res" where
  "request_done s = (if is_ok s then Inr shared_ok else formatted (shared_err (c_str (ascii (status_to_string s)))))"

section \<open>Reading and sending\<close>

record 'r redis_reader =
  rr_feed :: "bytes \<Rightarrow> 'r \<Rightarrow> 'r option"
  rr_get :: "'r \<Rightarrow> ('r \<times> redis_reply option) option"

text \<open>
  The loop over the bytes of a read: the reader, the replies found, whether no error occurred, and
  how many new reads it has started.
\<close>

function read_lines :: "'r redis_reader \<Rightarrow> 'r \<Rightarrow> bytes \<Rightarrow> 'r \<times> redis_reply list \<times> bool \<times> nat" where
  "read_lines R r bs =
     (if bs = [] then (r, [], True, 0)
      else if 10 \<notin> set bs then (r, [], True, 1)
      else
        let n = length (takeWhile (\<lambda>b. b \<noteq> 10) bs) + 1 in
        case rr_feed R (take n bs) r of
          None \<Rightarrow> (r, [], False, 0)
        | Some r1 \<Rightarrow>
            (case rr_get R r1 of
               None \<Rightarrow> (r1, [], False, 0)
             | Some (r2, rep) \<Rightarrow>
                 let (r3, reps, ok, starts) = read_lines R r2 (drop n bs) in
                 (r3, (case rep of None \<Rightarrow> reps | Some x \<Rightarrow> x # reps), ok, starts)))"
  by pat_completeness auto

termination
  by (relation "measure (\<lambda>(R, r, bs). length bs)") auto

declare read_lines.simps [simp del]

record redis_session =
  rn_quit :: bool
  rn_send_buffer :: byte_buffer
  rn_writes :: "u32 list"

text \<open>The replies that are answered, whether the session ends, and the number of reads started.\<close>

definition handle_read :: "'r redis_reader \<Rightarrow> bytes \<Rightarrow> 'r \<Rightarrow> redis_session \<Rightarrow> 'r \<times> redis_reply list \<times> redis_session \<times> nat" where
  "handle_read R bs r s =
     (if rn_quit s then (r, [], s, 0)
      else let (r1, reps, ok, starts) = read_lines R r bs in
        if ok then (r1, reps, s, starts + 1) else (r1, [], s\<lparr>rn_quit := True\<rparr>, starts))"

definition start_send :: "redis_session \<Rightarrow> redis_session res" where
  "start_send s =
     (if \<not> bb_readable (rn_send_buffer s) then Inr s
      else rbind (readable_bytes (rn_send_buffer s)) (\<lambda>remaining. Inr (s\<lparr>rn_writes := rn_writes s @ [remaining]\<rparr>)))"

definition send_reply :: "bytes \<Rightarrow> redis_session \<Rightarrow> redis_session res" where
  "send_reply data s =
     rbind (readable_bytes (rn_send_buffer s)) (\<lambda>bytes.
     rbind (bb_put data (rn_send_buffer s)) (\<lambda>b.
       if rn_writes s \<noteq> [] \<and> length (bb_buff b) \<noteq> length (bb_buff (rn_send_buffer s)) then Inl OutOfRange
       else
         let s1 = s\<lparr>rn_send_buffer := b\<rparr> in
         if bytes = 0 then start_send s1 else Inr s1))"

text \<open>
  \<open>on_redis_reply\<close>, with the calls of \<open>send_reply\<close> that it and the commands make: the session after
  it, and the request that is handed to the store, if any.
\<close>

definition on_redis_reply :: "redis_store \<Rightarrow> redis_reply \<Rightarrow> redis_session \<Rightarrow> (redis_session \<times> session_action option) res" where
  "on_redis_reply st r s =
     rbind (command_action st r) (\<lambda>a.
       case a of
         SendReply data \<Rightarrow> rbind (send_reply data s) (\<lambda>s1. Inr (s1, None))
       | call \<Rightarrow> Inr (s, Some call))"

definition on_sent :: "bool \<Rightarrow> u32 \<Rightarrow> redis_session \<Rightarrow> redis_session res" where
  "on_sent err n s =
     (let s1 = s\<lparr>rn_writes := tl (rn_writes s)\<rparr> in
      if n = 0 \<or> err then Inr s1
      else rbind (read_bytes n (rn_send_buffer s1)) (\<lambda>b. start_send (s1\<lparr>rn_send_buffer := b\<rparr>)))"

section \<open>Replies and the protocol\<close>

text \<open>How the protocol writes a string and an array of strings.\<close>

definition bulk_string :: "bytes \<Rightarrow> bytes" where
  "bulk_string s = ascii ''$'' @ decimal (length s) @ crlf @ s @ crlf"

definition bulk_array :: "bytes list \<Rightarrow> bytes" where
  "bulk_array strs = ascii ''*'' @ decimal (length strs) @ crlf @ concat (map bulk_string strs)"

lemma decimal_no_zero: "0 \<notin> set (decimal n)"
proof (induction n rule: decimal.induct)
  case (1 n)
  have d: "(of_nat (48 + k) :: u8) \<noteq> 0" if "k < 10" for k
  proof -
    have "unat (of_nat (48 + k) :: u8) = 48 + k" using that by (simp add: unat_of_nat take_bit_eq_mod del: of_nat_add)
    then show ?thesis by auto
  qed
  show ?case
    by (subst decimal.simps) (use 1 d [of n] d [of "n mod 10"] in auto)
qed

lemma c_str_id: "c_str s = s \<longleftrightarrow> 0 \<notin> set s"
  by (auto simp: c_str_def)

lemma c_str_no_zero: "0 \<notin> set (c_str s)"
  by (auto simp: c_str_def dest: set_takeWhileD)

lemma get_reply_text: "get_reply v = ascii ''$'' @ decimal (length v) @ crlf @ c_str v @ crlf"
  unfolding get_reply_def c_str_id using decimal_no_zero c_str_no_zero by (simp add: ascii_def)

lemma length_build_string: "length (build_string s) + (if s = [] then 2 else 0) = length (bulk_string s)"
  by (simp add: build_string_def bulk_string_def)

lemma build_string_eq: "build_string s = bulk_string s \<longleftrightarrow> s \<noteq> []"
  using length_build_string[of s] by (auto simp: build_string_def bulk_string_def)

lemma length_build_strings:
  "length (concat (map build_string ss)) \<le> length (concat (map bulk_string ss))
   \<and> ([] \<in> set ss \<longrightarrow> length (concat (map build_string ss)) < length (concat (map bulk_string ss)))"
proof (induction ss)
  case (Cons s ss)
  then show ?case using length_build_string[of s] by (cases "s = []") auto
qed simp

text \<open>
  C35: When the replies follow the protocol. The reply to \<open>GET\<close> is the protocol's form of the value
  exactly if the value has no zero byte (its length is counted with the bytes after a zero, which
  are not sent), and the reply to \<open>KEYS\<close> is that of the list exactly if no key in it is empty (the
  line end of an empty string is left out).
\<close>

theorem replies_well_formed:
  "(get_reply v = bulk_string v \<longleftrightarrow> 0 \<notin> set v) \<and> (build_redis_string_array_reply ks = bulk_array ks \<longleftrightarrow> [] \<notin> set ks)"
proof -
  have "get_reply v = bulk_string v \<longleftrightarrow> c_str v = v" by (simp add: get_reply_text bulk_string_def)
  moreover have "concat (map build_string ks) = concat (map bulk_string ks) \<longleftrightarrow> [] \<notin> set ks"
  proof (cases "[] \<in> set ks")
    case True
    then have "length (concat (map build_string ks)) \<noteq> length (concat (map bulk_string ks))"
      using length_build_strings[of ks] by simp
    then show ?thesis using True by metis
  next
    case False
    then have "map build_string ks = map bulk_string ks" using build_string_eq by (intro map_cong) auto
    then show ?thesis using False by metis
  qed
  ultimately show ?thesis by (simp add: c_str_id build_redis_string_array_reply_def bulk_array_def)
qed

section \<open>Faults\<close>

lemma wrong_number_fits: "length name \<le> 200 \<Longrightarrow> send_formatted (shared_wrong_number_arguments name) \<noteq> Inl f"
  by (simp add: send_formatted_def formatted_def shared_wrong_number_arguments_def ascii_def)

lemma command_no_fault:
  assumes "map_of command_table cmd = Some cb"
  shows "cb st args \<noteq> Inl f"
proof -
  have "cb \<in> {ping_command, get_command, set_command, del_command, keys_command}"
    using map_of_SomeD[OF assms] by (auto simp: command_table_def)
  then show ?thesis
    using wrong_number_fits[of "ascii ''get''" f] wrong_number_fits[of "ascii ''set''" f] wrong_number_fits[of "ascii ''del''" f]
      wrong_number_fits[of "ascii ''keys''" f]
    by (auto simp: ping_command_def get_command_def set_command_def del_command_def keys_command_def ascii_def
        split: redis_reply.splits option.splits if_splits)
qed

text \<open>The names of commands that are too long for the reply that quotes them.\<close>

definition overlong :: "redis_reply \<Rightarrow> bool" where
  "overlong r \<longleftrightarrow>
     (case r of
        ReplyArray (ReplyString cmd # args) \<Rightarrow> map_of command_table cmd = None \<and> 231 < length (c_str cmd)
      | _ \<Rightarrow> False)"

lemma command_action_fault: "command_action st r = Inl f \<longleftrightarrow> f = OutOfRange \<and> overlong r"
proof (cases "\<exists>cmd args. r = ReplyArray (ReplyString cmd # args)")
  case True
  then obtain cmd args where r: "r = ReplyArray (ReplyString cmd # args)" by blast
  show ?thesis
  proof (cases "map_of command_table cmd")
    case None
    then show ?thesis unfolding r
      by (auto simp: overlong_def command_action_def send_formatted_def formatted_def shared_unknown_command_def ascii_def Let_def)
  next
    case (Some cb)
    then show ?thesis using command_no_fault[OF Some] by (simp add: r overlong_def command_action_def)
  qed
next
  case False
  then show ?thesis
    by (auto simp: overlong_def command_action_def send_formatted_def formatted_def shared_wrong_number_arguments_def ascii_def
        split: redis_reply.splits list.splits)
qed

text \<open>Whether the buffer has to grow for some bytes, which moves what it holds.\<close>

definition grows_for :: "bytes \<Rightarrow> byte_buffer \<Rightarrow> bool" where
  "grows_for data b \<longleftrightarrow> length (bb_buff b) < unat (bb_writer b) + length data"

lemma put_grows:
  assumes "wf_buffer t b" and "t + length data \<le> bb_limit" and "bb_put data b = Inr b'"
  shows "length (bb_buff b') \<noteq> length (bb_buff b) \<longleftrightarrow> grows_for data b"
proof -
  let ?w = "unat (bb_writer b)" and ?n = "length (bb_buff b)" and ?l = "length data"
  have b: "?w \<le> ?n" "?n \<le> max 4096 (3 * t)" "t + ?l \<le> 2 ^ 30"
    using assms(1,2) by (simp_all add: wf_buffer_def bb_limit_def)
  then have "unat (of_nat ?l :: u32) = ?l" "unat (of_nat ?n :: u32) = ?n"
    by (simp_all add: unat_of_nat take_bit_eq_mod)
  then have "unat (of_nat ?l :: u32) = ?l" "unat (of_nat ?n - bb_writer b) = ?n - ?w"
    using b(1) by (simp_all add: unat_sub word_le_nat_alt)
  then show ?thesis using assms(3) b(1)
    by (auto simp: bb_put_def Let_def word_less_nat_alt grows_for_def vec_resize_def split: if_split_asm)
qed

lemma start_send_keeps:
  assumes "wf_buffer t (rn_send_buffer s)"
  shows "\<exists>s'. start_send s = Inr s' \<and> rn_send_buffer s' = rn_send_buffer s"
  using assms by (auto simp: start_send_def readable_bytes_def rassert_def wf_buffer_def)

lemma send_reply_cases:
  assumes "wf_buffer t (rn_send_buffer s)" and "t + length data \<le> bb_limit"
  shows "if rn_writes s \<noteq> [] \<and> grows_for data (rn_send_buffer s) then send_reply data s = Inl OutOfRange
     else \<exists>s'. send_reply data s = Inr s' \<and> bb_content (rn_send_buffer s') = bb_content (rn_send_buffer s) @ data"
proof -
  obtain b where b: "bb_put data (rn_send_buffer s) = Inr b" "wf_buffer (t + length data) b"
      "bb_content b = bb_content (rn_send_buffer s) @ data"
    using bb.put_ok[OF assms] by blast
  obtain n where "readable_bytes (rn_send_buffer s) = Inr n" using bb.available_ok[OF assms(1)] by blast
  then have run: "send_reply data s =
      (if rn_writes s \<noteq> [] \<and> grows_for data (rn_send_buffer s) then Inl OutOfRange
       else if n = 0 then start_send (s\<lparr>rn_send_buffer := b\<rparr>) else Inr (s\<lparr>rn_send_buffer := b\<rparr>))"
    using b(1) put_grows[OF assms b(1)] by (simp add: send_reply_def Let_def)
  obtain s2 where "start_send (s\<lparr>rn_send_buffer := b\<rparr>) = Inr s2" "rn_send_buffer s2 = b"
    using start_send_keeps[of _ "s\<lparr>rn_send_buffer := b\<rparr>"] b(2) by auto
  then show ?thesis unfolding run using b(3) by (cases "n = 0") (simp_all split del: if_split cong: if_cong)
qed

text \<open>
  C36: When the answer to a request is a fault. While less than a gigabyte has gone through the send
  buffer, the handling of a request is a memory fault exactly in two cases: the request is an array
  whose first element is a string that is no command and has more than 231 bytes before its first
  zero byte, since \<open>snprintf\<close> returns the length that the text would have and so many bytes of the
  256-byte buffer are sent; or the reply does not fit into the send buffer while a write is in
  progress, which moves the bytes that are being written. Otherwise the reply, if there is one, is
  appended to the bytes to be sent: no other request, however malformed, is a fault.
\<close>

theorem request_faults:
  assumes "wf_buffer t (rn_send_buffer s)" and "\<And>data. command_action st r = Inr (SendReply data) \<Longrightarrow> t + length data \<le> bb_limit"
  shows "(on_redis_reply st r s = Inl f \<longleftrightarrow> f = OutOfRange
       \<and> (overlong r \<or> (\<exists>data. command_action st r = Inr (SendReply data) \<and> rn_writes s \<noteq> [] \<and> grows_for data (rn_send_buffer s))))
     \<and> (on_redis_reply st r s = Inr (s', call) \<longrightarrow> bb_content (rn_send_buffer s') =
          bb_content (rn_send_buffer s) @ (case command_action st r of Inr (SendReply data) \<Rightarrow> data | _ \<Rightarrow> []))"
proof (cases "command_action st r")
  case (Inl g)
  then have "g = OutOfRange" "overlong r" using command_action_fault[of st r g] by blast+
  then show ?thesis using Inl by (auto simp: on_redis_reply_def)
next
  case (Inr a)
  then have no: "\<not> overlong r" using command_action_fault[of st r OutOfRange] by auto
  show ?thesis
  proof (cases a)
    case (SendReply data)
    let ?bad = "rn_writes s \<noteq> [] \<and> grows_for data (rn_send_buffer s)"
    have act: "command_action st r = Inr (SendReply d) \<longleftrightarrow> d = data" for d using Inr SendReply by auto
    have run: "on_redis_reply st r s = rbind (send_reply data s) (\<lambda>s1. Inr (s1, None))"
      using Inr SendReply by (simp add: on_redis_reply_def)
    note sent = send_reply_cases[OF assms(1) assms(2)[of data, unfolded act, OF refl]]
    show ?thesis
    proof (cases ?bad)
      case True
      then have "on_redis_reply st r s = Inl OutOfRange" using sent run by simp
      then show ?thesis using True act by auto
    next
      case False
      then obtain s2 where "send_reply data s = Inr s2" "bb_content (rn_send_buffer s2) = bb_content (rn_send_buffer s) @ data"
        using sent by (simp only: if_False) blast
      then show ?thesis using run no False Inr SendReply by auto
    qed
  qed (use Inr no in \<open>auto simp: on_redis_reply_def\<close>)
qed

lemma line_shorter: "x \<in> set bs \<Longrightarrow> length (takeWhile (\<lambda>b. b \<noteq> x) bs) < length bs"
  by (induction bs) auto

lemma read_lines_step:
  assumes "10 \<in> set bs" and "n = length (takeWhile (\<lambda>b. b \<noteq> 10) bs) + 1"
  shows "read_lines R r bs =
     (case rr_feed R (take n bs) r of
        None \<Rightarrow> (r, [], False, 0)
      | Some r1 \<Rightarrow>
          (case rr_get R r1 of
             None \<Rightarrow> (r1, [], False, 0)
           | Some (r2, rep) \<Rightarrow>
               let (r3, reps, ok, starts) = read_lines R r2 (drop n bs) in
               (r3, (case rep of None \<Rightarrow> reps | Some x \<Rightarrow> x # reps), ok, starts)))"
proof -
  have "bs \<noteq> []" using assms(1) by auto
  then show ?thesis using assms by (subst read_lines.simps) (simp only: Let_def if_False simp_thms)
qed

text \<open>
  C37: The end of a read is lost. The bytes of a read after its last line end never reach the
  protocol reader: the reader and the requests found are as if they had not been received, and in
  place of one new read two are started. A command whose argument is split between two reads is
  misread.
\<close>

theorem unterminated_tail_lost:
  assumes "10 \<notin> set tail" and "tail \<noteq> []" and "bs = [] \<or> last bs = 10" and "read_lines R r bs = (r1, reps, ok, starts)"
  shows "read_lines R r (bs @ tail) = (r1, reps, ok, if ok then starts + 1 else starts)"
  using assms(3,4)
proof (induction R r bs arbitrary: r1 reps ok starts rule: read_lines.induct)
  case (1 R r bs)
  show ?case
  proof (cases "bs = []")
    case True
    then show ?thesis using 1 assms(1,2) by (simp add: read_lines.simps)
  next
    case False
    then have nl: "10 \<in> set bs" using 1(2) last_in_set by metis
    let ?n = "length (takeWhile (\<lambda>b. b \<noteq> 10) bs) + 1"
    have n: "?n \<le> length bs" using line_shorter[OF nl] by simp
    have same: "length (takeWhile (\<lambda>b. b \<noteq> 10) (bs @ tail)) + 1 = ?n" "take ?n (bs @ tail) = take ?n bs"
        "drop ?n (bs @ tail) = drop ?n bs @ tail"
      using nl n by (simp_all add: takeWhile_append1 [of 10])
    have l: "drop ?n bs = [] \<or> last (drop ?n bs) = 10" using 1(2) False by (metis last_drop not_less drop_eq_Nil2)
    have nl': "10 \<in> set (bs @ tail)" using nl by simp
    note step = read_lines_step[OF nl refl, of R r] read_lines_step[OF nl' same(1) [symmetric], of R r, unfolded same(2,3)]
    show ?thesis
    proof (cases "rr_feed R (take ?n bs) r")
      case None
      then show ?thesis using 1(3) step by simp
    next
      case (Some r')
      show ?thesis
      proof (cases "rr_get R r'")
        case None
        then show ?thesis using 1(3) Some step by simp
      next
        case get: (Some x)
        obtain r2 rep where x: "x = (r2, rep)" by (cases x)
        obtain r3 reps3 ok3 n3 where rest: "read_lines R r2 (drop ?n bs) = (r3, reps3, ok3, n3)" by (metis prod_cases4)
        have ih: "read_lines R r2 (drop ?n bs @ tail) = (r3, reps3, ok3, if ok3 then n3 + 1 else n3)"
          using 1(1)[OF False _ refl Some get x [symmetric] l rest] nl by simp
        show ?thesis using 1(3) Some get x rest ih step by simp
      qed
    qed
  qed
qed

definition long_request :: redis_reply where
  "long_request = ReplyArray [ReplyString (replicate 232 7)]"

theorem request_faults_witness:
  "\<exists>st. on_redis_reply st long_request \<lparr>rn_quit = False, rn_send_buffer = ByteBuffer, rn_writes = []\<rparr> = Inl OutOfRange"
proof -
  have "c_str (replicate 232 7) = replicate 232 7" by (simp add: c_str_id)
  moreover have "length cmd < 232" if "cmd \<in> fst ` set command_table" for cmd
    using that by (auto simp: command_table_def ascii_def)
  then have "map_of command_table (replicate 232 7) = None" unfolding map_of_eq_None_iff by (metis length_replicate less_irrefl)
  ultimately have long: "overlong long_request" by (simp add: overlong_def long_request_def)
  have "command_action st long_request \<noteq> Inr x" for st x
    using long command_action_fault[of st long_request OutOfRange] by auto
  then show ?thesis
    using request_faults[of 0 "\<lparr>rn_quit = False, rn_send_buffer = ByteBuffer, rn_writes = []\<rparr>" _ long_request OutOfRange] wf_ByteBuffer long
    by auto
qed

theorem unterminated_tail_lost_witness:
  "read_lines \<lparr>rr_feed = (\<lambda>b r. Some (r @ b)), rr_get = (\<lambda>r. Some (r, None))\<rparr> [] ([1, 10] @ [7, 8]) = ([1, 10], [], True, 0 + 1)"
  using unterminated_tail_lost[of "[7, 8]" "[1, 10]" "\<lparr>rr_feed = (\<lambda>b r. Some (r @ b)), rr_get = (\<lambda>r. Some (r, None))\<rparr>" "[]"
      "[1, 10]" "[]" True 0] by (simp add: read_lines.simps)

end
