(* ===== verification/Raft_Server.thy ===== *)
theory Raft_Server
  imports Raft_Node Raft_WAL Raft_Snap Raft_Transport Raft_Session
begin

text \<open>
  The server process (src/raft-kv/server/raft_node.h, raft_node.cpp) and the program's entry: it restores a node from its
  snapshots and its log, drives it with ticks, messages and proposals, and after each of them runs
  the loop that saves, sends and applies what the node hands out.

  The storage that \<open>RaftNode\<close> shares with its node is the one in the node's log. Work for other
  threads is posted: messages go to \<open>sv_outbox\<close>, from which the transport takes them, and calls of
  the store to \<open>sv_jobs\<close>, which the store runs in order. \<open>get_snapshot\<close> waits for its answer and so
  for all jobs before it. Parameters are those of the parts, the unpacking of membership changes
  and the draws of the random timeouts.
\<close>

section \<open>State\<close>

datatype store_job = JobCommit bytes | JobRecover bytes

record server_env =
  ev_wal :: wal_codec
  ev_snap :: snap_env
  ev_store :: store_codec
  ev_ser :: "conf_change \<Rightarrow> bytes"
  ev_conf :: "bytes \<Rightarrow> conf_change option"
  ev_draws :: "nat \<Rightarrow> u32"
  ev_ftell :: "nat \<Rightarrow> int"

record server =
  sv_id :: u64
  sv_peers :: "string list"
  sv_last_index :: u64
  sv_conf_state :: conf_state
  sv_snapshot_index :: u64
  sv_applied_index :: u64
  sv_node :: raw_node
  sv_transport :: transport
  sv_outbox :: "message list"
  sv_store :: redis_store
  sv_jobs :: "store_job list"
  sv_answers :: "(nat \<times> status) list"
  sv_snap_data :: bytes
  sv_snap_count :: u64
  sv_snap_files :: directory
  sv_wal :: wal

definition defaultSnapCount :: u64 where "defaultSnapCount = 100000"
definition snapshotCatchUpEntriesN :: u64 where "snapshotCatchUpEntriesN = 100000"

definition sv_storage :: "server \<Rightarrow> mem_storage" where
  "sv_storage s = l_storage (r_log (n_raft (sv_node s)))"

definition set_storage :: "mem_storage \<Rightarrow> server \<Rightarrow> server" where
  "set_storage st s = s\<lparr>sv_node := (sv_node s)\<lparr>n_raft := (n_raft (sv_node s))\<lparr>r_log := (r_log (n_raft (sv_node s)))\<lparr>l_storage := st\<rparr>\<rparr>\<rparr>\<rparr>"

section \<open>Snapshots\<close>

definition server_save_snap :: "server_env \<Rightarrow> snapshot \<Rightarrow> server \<Rightarrow> (server \<times> status) res" where
  "server_save_snap e snap s =
     rbind (save_snapshot (ev_wal e) \<lparr>ws_index = s_index snap, ws_term = s_term snap\<rparr> (sv_wal s)) (\<lambda>w.
     let s1 = s\<lparr>sv_wal := w\<rparr>;
         (files, st) = save_snap (ev_snap e) snap (sv_snap_files s1);
         s2 = s1\<lparr>sv_snap_files := files\<rparr> in
     if \<not> is_ok st then Inl (Fatal ''save snapshot error'') else Inr (s2, st))"

definition publish_snapshot :: "snapshot \<Rightarrow> server \<Rightarrow> server res" where
  "publish_snapshot snap s =
     (if snapshot_is_empty snap then Inr s
      else if s_index snap \<le> sv_applied_index s then Inl (Fatal ''snapshot index should > progress.appliedIndex + 1'')
      else Inr (s\<lparr>sv_conf_state := md_conf_state (s_metadata snap), sv_snapshot_index := s_index snap,
                  sv_applied_index := s_index snap, sv_jobs := sv_jobs s @ [JobRecover (s_data snap)]\<rparr>))"

text \<open>One posted job, on the thread of the store. A recovery that fails ends the process.\<close>

fun run_job :: "server_env \<Rightarrow> store_job \<Rightarrow> server \<Rightarrow> server res" where
  "run_job e (JobCommit data) s =
     rbind (read_commit (ev_store e) (sv_id s) data (sv_store s)) (\<lambda>(st, calls).
       Inr (s\<lparr>sv_store := st, sv_answers := sv_answers s @ calls\<rparr>))"
| "run_job e (JobRecover data) s =
     rbind (recover_from_snapshot (ev_store e) data (sv_store s)) (\<lambda>(st, status).
       if \<not> is_ok status then Inl (Fatal ''recover from snapshot error'') else Inr (s\<lparr>sv_store := st\<rparr>))"

definition run_jobs :: "server_env \<Rightarrow> server \<Rightarrow> server res" where
  "run_jobs e s = rfold (run_job e) (sv_jobs s) (s\<lparr>sv_jobs := []\<rparr>)"

definition maybe_trigger_snapshot :: "server_env \<Rightarrow> server \<Rightarrow> server res" where
  "maybe_trigger_snapshot e s =
     (if sv_applied_index s - sv_snapshot_index s \<le> sv_snap_count s then Inr s
      else
        rbind (run_jobs e s) (\<lambda>s1.
        rbind (storage_create_snapshot (sv_applied_index s1) (Some (sv_conf_state s1)) (get_snapshot (ev_store e) (sv_store s1))
                 (sv_storage s1)) (\<lambda>(st, snap, status).
        if \<not> is_ok status then Inl (Fatal ''create snapshot error'')
        else
          rbind (server_save_snap e snap (set_storage st s1)) (\<lambda>(s2, status2).
          if \<not> is_ok status2 then Inl (Fatal ''save snapshot error'')
          else
            let compactIndex = (if sv_applied_index s2 > snapshotCatchUpEntriesN
                                then sv_applied_index s2 - snapshotCatchUpEntriesN else 1) in
            rbind (storage_compact compactIndex (sv_storage s2)) (\<lambda>(st3, status3).
              if \<not> is_ok status3 then Inl (Fatal ''compact error'')
              else Inr ((set_storage st3 s2)\<lparr>sv_snapshot_index := sv_applied_index s2\<rparr>))))))"

section \<open>Applying\<close>

definition entries_to_apply :: "entry list \<Rightarrow> u64 \<Rightarrow> entry list res" where
  "entries_to_apply entries applied =
     (case entries of
        [] \<Rightarrow> Inr []
      | e # _ \<Rightarrow>
          if e_index e > applied + 1 then Inl (Fatal ''first index of committed entry should <= progress.appliedIndex+1'')
          else if applied - e_index e + 1 < vec_size entries
          then vec_erase_front entries (applied - e_index e + 1)
          else Inr [])"

text \<open>
  The body of \<open>publish_entries\<close> for a membership change: the server after it, whether the loop goes
  on, and whether the applied position is moved.
\<close>

definition publish_conf_change :: "server_env \<Rightarrow> bytes \<Rightarrow> server \<Rightarrow> (server \<times> bool \<times> bool) res" where
  "publish_conf_change e data s =
     (case ev_conf e data of
        None \<Rightarrow> Inr (s, True, False)
      | Some cc \<Rightarrow>
          rbind (apply_conf_change cc (sv_node s)) (\<lambda>(n, cs).
          let s1 = s\<lparr>sv_node := n, sv_conf_state := cs\<rparr> in
          if cc_type cc = ConfChangeAddNode then
            if cc_context cc \<noteq> [] then
              rbind (transport_add_peer (cc_node_id cc) (map (\<lambda>b. char_of (unat b)) (cc_context cc)) (sv_transport s1)) (\<lambda>t.
                Inr (s1\<lparr>sv_transport := t\<rparr>, True, True))
            else Inr (s1, True, True)
          else if cc_type cc = ConfChangeRemoveNode then
            if cc_node_id cc = sv_id s1 then Inr (s1, False, False)
            else Inr (s1\<lparr>sv_transport := transport_remove_peer (cc_node_id cc) (sv_transport s1)\<rparr>, True, True)
          else Inr (s1, True, True)))"

fun publish_entries :: "server_env \<Rightarrow> entry list \<Rightarrow> server \<Rightarrow> (server \<times> bool) res" where
  "publish_entries e [] s = Inr (s, True)"
| "publish_entries e (x # xs) s =
     rbind (if e_type x = EntryNormal then
              Inr (if e_data x = [] then s else s\<lparr>sv_jobs := sv_jobs s @ [JobCommit (e_data x)]\<rparr>, True, True)
            else if e_type x = EntryConfChange then publish_conf_change e (e_data x) s
            else Inl (Fatal ''unknown type'')) (\<lambda>(s1, go_on, moved).
       if \<not> go_on then Inr (s1, False)
       else publish_entries e xs (if moved then s1\<lparr>sv_applied_index := e_index x\<rparr> else s1))"

section \<open>The loop\<close>

text \<open>One turn of the loop, for a ready that contains updates, with two of its steps by name.\<close>

definition post_messages :: "message list \<Rightarrow> server \<Rightarrow> server" where
  "post_messages ms s = (if ms \<noteq> [] then s\<lparr>sv_outbox := sv_outbox s @ ms\<rparr> else s)"

definition apply_committed :: "server_env \<Rightarrow> entry list \<Rightarrow> server \<Rightarrow> server res" where
  "apply_committed e committed s =
     (if committed \<noteq> []
      then rbind (entries_to_apply committed (sv_applied_index s)) (\<lambda>ents.
        if ents \<noteq> [] then rbind (publish_entries e ents s) (\<lambda>(s1, _). Inr s1) else Inr s)
      else Inr s)"

definition handle_ready :: "server_env \<Rightarrow> ready \<Rightarrow> server \<Rightarrow> server res" where
  "handle_ready e rd s =
     rbind (wal_save (ev_wal e) (rd_hard_state rd) (rd_entries rd) (sv_wal s)) (\<lambda>w.
     let s1 = s\<lparr>sv_wal := w\<rparr> in
     rbind (if \<not> snapshot_is_empty (rd_snapshot rd)
            then rbind (server_save_snap e (rd_snapshot rd) s1) (\<lambda>(s2, status).
              if \<not> is_ok status then Inl (Fatal ''save snapshot error'')
              else publish_snapshot (rd_snapshot rd)
                (set_storage (fst (storage_apply_snapshot (rd_snapshot rd) (sv_storage s2))) s2))
            else Inr s1) (\<lambda>s3.
     rbind (persist_entries (rd_entries rd) (sv_node s3)) (\<lambda>n.
     rbind (apply_committed e (rd_committed_entries rd) (post_messages (rd_messages rd) (s3\<lparr>sv_node := n\<rparr>))) (\<lambda>s6.
     rbind (maybe_trigger_snapshot e s6) (\<lambda>s7.
     rbind (node_advance rd (sv_node s7)) (\<lambda>n.
       Inr (s7\<lparr>sv_node := n\<rparr>)))))))"

fun pull_ready_events :: "server_env \<Rightarrow> nat \<Rightarrow> server \<Rightarrow> server res" where
  "pull_ready_events e 0 s = Inl OutOfFuel"
| "pull_ready_events e (Suc k) s =
     rbind (has_ready (sv_node s)) (\<lambda>b.
       if \<not> b then Inr s
       else rbind (node_ready (sv_node s)) (\<lambda>(n, rd).
         let s1 = s\<lparr>sv_node := n\<rparr> in
         if \<not> contains_updates rd then Inr s1
         else rbind (handle_ready e rd s1) (pull_ready_events e k)))"

text \<open>What wakes the server: its timer, a message from another node, a request of the store.\<close>

definition timer_tick :: "server_env \<Rightarrow> nat \<Rightarrow> server \<Rightarrow> server res" where
  "timer_tick e k s =
     rbind (node_tick (sv_node s)) (\<lambda>n. pull_ready_events e k (s\<lparr>sv_node := n\<rparr>))"

definition server_propose :: "server_env \<Rightarrow> nat \<Rightarrow> bytes \<Rightarrow> server \<Rightarrow> (server \<times> status) res" where
  "server_propose e k data s =
     rbind (node_propose data (sv_node s)) (\<lambda>(n, status).
     rbind (pull_ready_events e k (s\<lparr>sv_node := n\<rparr>)) (\<lambda>s1. Inr (s1, status)))"

definition process :: "server_env \<Rightarrow> nat \<Rightarrow> message \<Rightarrow> server \<Rightarrow> (server \<times> status) res" where
  "process e k m s =
     rbind (node_step m (sv_node s)) (\<lambda>(n, status).
     rbind (pull_ready_events e k (s\<lparr>sv_node := n\<rparr>)) (\<lambda>s1. Inr (s1, status)))"

text \<open>
  What the sessions of the transport do with a message, and the way from bytes on a connection to
  the node; the status of a message is only logged.
\<close>

definition on_message :: "server_env \<Rightarrow> nat \<Rightarrow> message \<Rightarrow> server \<Rightarrow> server res" where
  "on_message e k m s = rbind (process e k m s) (\<lambda>(s1, _). Inr s1)"

definition server_receive :: "server_env \<Rightarrow> message_packer \<Rightarrow> nat \<Rightarrow> nat \<Rightarrow> bytes \<Rightarrow> server \<Rightarrow> server res" where
  "server_receive e mp k n bs s =
     rbind (deref (tr_server (sv_transport s))) (\<lambda>io.
     rbind (on_receive mp n bs io) (\<lambda>(io1, ms).
       rfold (on_message e k) ms (s\<lparr>sv_transport := (sv_transport s)\<lparr>tr_server := Some io1\<rparr>\<rparr>)))"

section \<open>Starting\<close>

fun all_some :: "'a option list \<Rightarrow> 'a list option" where
  "all_some [] = Some []"
| "all_some (None # xs) = None"
| "all_some (Some x # xs) = map_option ((#) x) (all_some xs)"

text \<open>
  \<open>replay_WAL\<close> with \<open>open_WAL\<close>: the directory of the log, if there is one, the snapshot files; it
  returns the storage, the log, the snapshot files, the last index and the data for the store.
  Appending a vector with a null pointer in it dereferences it.
\<close>

definition open_WAL :: "server_env \<Rightarrow> snapshot \<Rightarrow> directory option \<Rightarrow> wal res" where
  "open_WAL e snap wal_dir =
     wal_open (se_ext (ev_snap e)) (ev_ftell e)
       (case wal_dir of None \<Rightarrow> wal_create (ev_wal e) (ev_ftell e) [] | Some d \<Rightarrow> d)
       \<lparr>ws_index = s_index snap, ws_term = s_term snap\<rparr>"

definition replay_WAL :: "server_env \<Rightarrow> directory option \<Rightarrow> directory \<Rightarrow> (mem_storage \<times> wal \<times> directory \<times> u64 \<times> bytes) res" where
  "replay_WAL e wal_dir snap_dir =
     rbind (load (ev_snap e) Snapshot snap_dir) (\<lambda>(files, snap, status).
     rbind (if is_ok status then Inr (fst (storage_apply_snapshot snap MemoryStorage))
            else if is_not_found status then Inr MemoryStorage
            else Inl (Fatal ''error loading snapshot'')) (\<lambda>st0.
     rbind (open_WAL e snap wal_dir) (\<lambda>w.
     rbind (wal_read_all (ev_wal e) HardState [] w) (\<lambda>(w1, hs, ents, status1).
     if \<not> is_ok status1 then Inl (Fatal ''failed to read WAL'')
     else
       rbind (deref (all_some ents)) (\<lambda>es.
       rbind (storage_append es (storage_set_hard_state hs st0)) (\<lambda>(st1, _).
         Inr (st1, w1, files, if es \<noteq> [] then e_index (last es) else 0, if es \<noteq> [] then [] else s_data snap)))))))"

definition server_config :: "u64 \<Rightarrow> mem_storage \<Rightarrow> config" where
  "server_config i st = Config\<lparr>c_id := i, c_election_tick := 10, c_heartbeat_tick := 1, c_storage := Some st, c_applied := 0,
     c_max_size_per_msg := 1024 * 1024, c_max_committed_size_per_ready := 0, c_max_uncommitted_entries_size := 2 ^ 30,
     c_max_inflight_msgs := 256, c_check_quorum := True, c_pre_vote := True, c_read_only_option := ReadOnlySafe,
     c_disable_proposal_forwarding := False\<rparr>"

fun split_comma :: "string \<Rightarrow> string list" where
  "split_comma [] = [[]]"
| "split_comma (c # cs) =
     (if c = CHR '','' then [] # split_comma cs
      else case split_comma cs of [] \<Rightarrow> [[c]] | s # ss \<Rightarrow> (c # s) # ss)"

definition peer_contexts :: "string list \<Rightarrow> peer_context list" where
  "peer_contexts peers = map (\<lambda>i. \<lparr>pc_id = of_nat (i + 1), pc_context = []\<rparr>) [0..<length peers]"

text \<open>The constructor, and the part of \<open>schedule\<close> that sets the positions and creates the store.\<close>

definition RaftNode :: "server_env \<Rightarrow> u64 \<Rightarrow> string \<Rightarrow> directory option \<Rightarrow> directory \<Rightarrow> server res" where
  "RaftNode e i cluster wal_dir snap_dir =
     (let peers = split_comma cluster in
      if peers = [] then Inl (Fatal ''invalid args'') else
      rbind (replay_WAL e wal_dir snap_dir) (\<lambda>(st, w, files, lst, data).
      let (c, status) = config_validate (server_config i st) in
      if \<not> is_ok status then Inl (Fatal ''invalid configure'')
      else
        rbind (if wal_dir \<noteq> None then restart_node c (ev_draws e) else start_node (ev_ser e) c (ev_draws e) (peer_contexts peers)) (\<lambda>n.
          Inr \<lparr>sv_id = i, sv_peers = peers, sv_last_index = lst, sv_conf_state = ConfState, sv_snapshot_index = 0,
               sv_applied_index = 0, sv_node = n, sv_transport = TransportImpl i,
               sv_outbox = [], sv_store = \<lparr>rs_key_values = [], rs_next_request_id = 0, rs_pending_requests = []\<rparr>, sv_jobs = [],
               sv_answers = [], sv_snap_data = data, sv_snap_count = defaultSnapCount, sv_snap_files = files, sv_wal = w\<rparr>)))"

definition schedule :: "server_env \<Rightarrow> server \<Rightarrow> server res" where
  "schedule e s =
     (let md = s_metadata (ms_snapshot (sv_storage s)) in
      rbind (RedisStore (ev_store e) (sv_snap_data s)) (\<lambda>store.
        Inr (s\<lparr>sv_conf_state := md_conf_state md, sv_snapshot_index := md_index md, sv_applied_index := md_index md,
               sv_store := store, sv_snap_data := []\<rparr>)))"

fun add_peers :: "u64 \<Rightarrow> string list \<Rightarrow> u64 \<Rightarrow> transport \<Rightarrow> transport res" where
  "add_peers k [] i t = Inr t"
| "add_peers k (p # ps) i t =
     rbind (if k = i then Inr t else transport_add_peer k p t) (add_peers (k + 1) ps i)"

definition server_main :: "server_env \<Rightarrow> u64 \<Rightarrow> string \<Rightarrow> directory option \<Rightarrow> directory \<Rightarrow> server res" where
  "server_main e i cluster wal_dir snap_dir =
     rbind (RaftNode e i cluster wal_dir snap_dir) (\<lambda>s.
     rbind (vec_at (sv_peers s) (i - 1)) (\<lambda>host.
     rbind (transport_start host (sv_transport s)) (\<lambda>t0.
     rbind (add_peers 1 (sv_peers s) i t0) (\<lambda>t.
       schedule e (s\<lparr>sv_transport := t\<rparr>)))))"

section \<open>The program\<close>

text \<open>
  \<open>main\<close> (src/raft-kv/raft-kv.cpp): what the option parser of glib leaves in the three variables,
  if it succeeds, is a parameter. A cluster that is not given stays a null pointer, from which a
  \<open>std::string\<close> is then made. The port of the store is only used to open its socket.
\<close>

record options =
  op_id :: u64
  op_cluster :: "string option"
  op_port :: "16 word"

definition kv_main :: "server_env \<Rightarrow> options option \<Rightarrow> directory option \<Rightarrow> directory \<Rightarrow> server res" where
  "kv_main e parsed wal_dir snap_dir =
     (case parsed of
        None \<Rightarrow> Inl (Fatal ''option parsing failed'')
      | Some opts \<Rightarrow>
          if op_id opts = 0 \<or> op_port opts = 0 then Inl (Fatal ''usage'')
          else rbind (deref (op_cluster opts)) (\<lambda>cluster. server_main e (op_id opts) cluster wal_dir snap_dir))"

end
