(* ===== verification/Raft_Service.thy ===== *)
theory Raft_Service
  imports Raft_Server
begin

text \<open>
  What the server process does (model: Raft_Server): a turn of its loop, the loop until the node has
  nothing to hand out, a proposal in a cluster of one node, and a restart. The lemmas put together
  those of the node (Raft_Node), the log files (Raft_WAL) and the snapshot files (Raft_Snap).
\<close>

section \<open>Applying in order\<close>

text \<open>What \<open>entries_to_apply\<close> leaves out of consecutive entries are exactly those applied before.\<close>

lemma entries_to_apply_ok:
  assumes "contig k es" and "0 < k" and "k \<le> unat applied + 1" and "unat applied + 1 < 2 ^ 64"
  shows "entries_to_apply es applied = Inr (drop (unat applied + 1 - k) es)"
proof (cases es)
  case (Cons x xs)
  have x: "unat (e_index x) = k" using assms(1) Cons by simp
  have "unat (e_index (es ! (length es - 1))) = k + (length es - 1)"
    using contig_index[OF assms(1)] Cons by simp
  then have "length es < 2 ^ 64"
    using assms(2) Cons unat_u64_bound[of "e_index (es ! (length es - 1))"] by simp
  then have size: "unat (vec_size es) = length es"
    by (simp add: vec_size_def unat_of_nat take_bit_eq_mod)
  have a: "unat (applied + 1) = unat applied + 1" using assms(4) by (rule unat_add_1)
  then have le: "e_index x \<le> applied + 1" using assms(3) x by (simp add: word_le_nat_alt)
  have "applied - e_index x + 1 = applied + 1 - e_index x" by (simp add: algebra_simps)
  then have n: "unat (applied - e_index x + 1) = unat applied + 1 - k"
    using unat_sub_u64[OF le] a x by metis
  show ?thesis
    using le n size Cons by (auto simp: entries_to_apply_def vec_erase_front_def word_nat not_less)
qed (simp add: entries_to_apply_def)

lemma publish_normal:
  assumes "\<forall>x\<in>set es. e_type x = EntryNormal"
  shows "publish_entries e es s = Inr (s\<lparr>
     sv_jobs := sv_jobs s @ map (\<lambda>x. JobCommit (e_data x)) (filter (\<lambda>x. e_data x \<noteq> []) es),
     sv_applied_index := if es = [] then sv_applied_index s else e_index (last es)\<rparr>, True)"
  using assms by (induction es arbitrary: s) simp_all

section \<open>A turn of the loop\<close>

lemma batch_ok_unstable:
  assumes "wf_log l" and "u_snapshot (l_unstable l) = None"
  shows "batch_ok (l_storage l) (u_entries (l_unstable l))"
proof (cases "u_entries (l_unstable l) = []")
  case False
  have "contig (unat (u_offset (l_unstable l))) (u_entries (l_unstable l))"
    using wf_unstableD(1)[OF wf_logD(3)[OF assms(1)]] by simp
  moreover have "unat (u_offset (l_unstable l)) + length (u_entries (l_unstable l)) < 2 ^ 64"
    using log_upper[OF wf_logD(1)[OF assms(1)]] log_bounded[OF wf_logD(1)[OF assms(1)]] by simp
  moreover have "unat (u_offset (l_unstable l)) \<le> st_base (l_storage l) + length (st_ents (l_storage l)) + 1"
    using wf_logD(1)[OF assms(1)] assms(2) by (simp add: wf_log_parts_def)
  ultimately show ?thesis using contig_hd False by (simp add: batch_ok_def Let_def)
qed (simp add: batch_ok_def)

lemma stable_to_frame:
  assumes "log_stable_to i t l = Inr l'"
  shows "l_storage l' = l_storage l"
  using assms by (auto simp: log_stable_to_def rbind_Inr_iff)

lemma advance_frame:
  assumes "node_advance rd n = Inr n'"
  shows "r_msgs (n_raft n') = r_msgs (n_raft n) \<and> l_storage (r_log (n_raft n')) = l_storage (r_log (n_raft n))
     \<and> r_read_states (n_raft n') = (if rd_read_states rd = [] then r_read_states (n_raft n) else [])"
proof -
  define ss where "ss = (case rd_soft_state rd of None \<Rightarrow> n_prev_soft_state n | Some x \<Rightarrow> x)"
  define n1 where "n1 = n\<lparr>n_prev_soft_state := ss\<rparr>"
  have n1: "(case rd_soft_state rd of None \<Rightarrow> n | Some x \<Rightarrow> n\<lparr>n_prev_soft_state := x\<rparr>) = n1"
    by (cases n; cases "rd_soft_state rd") (simp_all add: n1_def ss_def)
  define n2 where "n2 = (if \<not> hs_is_empty_state (rd_hard_state rd) then n1\<lparr>n_prev_hard_state := rd_hard_state rd\<rparr> else n1)"
  have raft: "n_raft n2 = n_raft n" by (simp add: n2_def n1_def)
  define l1 where "l1 = (if applied_cursor rd > 0 then applied_to (applied_cursor rd) (r_log (n_raft n)) else r_log (n_raft n))"
  have l1: "l_storage l1 = l_storage (r_log (n_raft n))" by (simp add: l1_def applied_to_def)
  obtain l2 where l2: "(if rd_entries rd \<noteq> []
             then log_stable_to (e_index (last (rd_entries rd))) (e_term (last (rd_entries rd))) l1
             else Inr l1) = Inr l2"
      and n': "n' = (let l3 = (if \<not> snapshot_is_empty (rd_snapshot rd) then log_stable_snap_to (s_index (rd_snapshot rd)) l2 else l2);
            r = (n_raft n2)\<lparr>r_log := l3\<rparr> in
        n2\<lparr>n_raft := (if rd_read_states rd \<noteq> [] then r\<lparr>r_read_states := []\<rparr> else r)\<rparr>)"
    using assms unfolding node_advance_def Let_def n1 n2_def [symmetric] raft l1_def [symmetric] rbind_Inr_iff
    by auto
  have "l_storage l2 = l_storage l1" using l2 stable_to_frame by (auto split: if_splits)
  then show ?thesis using n' l1 raft by (simp add: Let_def log_stable_snap_to_def)
qed

lemma persist_frame:
  assumes "persist_entries es n = Inr n'"
  shows "r_msgs (n_raft n') = r_msgs (n_raft n) \<and> r_read_states (n_raft n') = r_read_states (n_raft n)"
  using assms by (auto simp: persist_entries_def rbind_Inr_iff split: if_splits)

lemma persist_storage:
  assumes "persist_entries es n = Inr n'" and "storage_append es (l_storage (r_log (n_raft n))) = Inr (st, status)"
  shows "l_storage (r_log (n_raft n')) = st"
  using assms by (cases es) (auto simp: persist_entries_def storage_append_def)

text \<open>
  A server at work: its node is well formed and has no snapshot to restore, its applied position is
  the node's, no snapshot is due before everything committed is applied, what is to be applied are
  request_jobs, and its log file mirrors the storage and can hold what is to be saved.
\<close>

definition serving :: "server_env \<Rightarrow> wal_snapshot \<Rightarrow> server \<Rightarrow> bool" where
  "serving e start s \<longleftrightarrow> (let n = sv_node s; l = r_log (n_raft n) in
     wf_node n \<and> u_snapshot (l_unstable l) = None
     \<and> unat (sv_applied_index s) = applied_pos l \<and> sv_snapshot_index s \<le> sv_applied_index s
     \<and> l_committed l - sv_snapshot_index s \<le> sv_snap_count s
     \<and> (\<forall>x\<in>set (todo l). e_type x = EntryNormal)
     \<and> mirrors (ev_wal e) start (sv_wal s) (sv_storage s)
     \<and> (\<forall>x\<in>set (log_ents l). fits (ev_wal e) (ItemEntry x)) \<and> fits (ev_wal e) (ItemState (hard_state_of (n_raft n))))"

lemma servingD:
  assumes "serving e start s"
  shows "wf_node (sv_node s)" and "u_snapshot (l_unstable (r_log (n_raft (sv_node s)))) = None"
    and "unat (sv_applied_index s) = applied_pos (r_log (n_raft (sv_node s)))"
    and "sv_snapshot_index s \<le> sv_applied_index s"
    and "l_committed (r_log (n_raft (sv_node s))) - sv_snapshot_index s \<le> sv_snap_count s"
    and "\<forall>x\<in>set (todo (r_log (n_raft (sv_node s)))). e_type x = EntryNormal"
    and "mirrors (ev_wal e) start (sv_wal s) (sv_storage s)"
    and "\<forall>x\<in>set (log_ents (r_log (n_raft (sv_node s)))). fits (ev_wal e) (ItemEntry x)"
    and "fits (ev_wal e) (ItemState (hard_state_of (n_raft (sv_node s))))"
  using assms by (simp_all add: serving_def Let_def)

definition request_jobs :: "entry list \<Rightarrow> store_job list" where
  "request_jobs es = map (\<lambda>x. JobCommit (e_data x)) (filter (\<lambda>x. e_data x \<noteq> []) es)"

lemma request_jobs_append: "request_jobs (xs @ ys) = request_jobs xs @ request_jobs ys"
  by (simp add: request_jobs_def)

lemma no_trigger:
  assumes "sv_snapshot_index s \<le> sv_applied_index s" and "sv_applied_index s \<le> c"
    and "c - sv_snapshot_index s \<le> sv_snap_count s"
  shows "maybe_trigger_snapshot e s = Inr s"
proof -
  have "sv_applied_index s - sv_snapshot_index s \<le> c - sv_snapshot_index s"
    using assms(1,2) unat_sub_u64[OF assms(1)] unat_sub_u64[OF order_trans[OF assms(1,2)]] by (simp add: word_le_nat_alt)
  from order_trans[OF this assms(3)] show ?thesis by (simp add: maybe_trigger_snapshot_def)
qed

lemma apply_turn:
  assumes "contig (unat (sv_applied_index s) + 1) es" and "\<forall>x\<in>set es. e_type x = EntryNormal"
  shows "apply_committed e es s = Inr (s\<lparr>sv_jobs := sv_jobs s @ request_jobs es,
              sv_applied_index := if es = [] then sv_applied_index s else e_index (last es)\<rparr>)"
proof (cases es)
  case (Cons x xs)
  then have "unat (e_index x) = unat (sv_applied_index s) + 1" using assms(1) by simp
  then have "unat (sv_applied_index s) + 1 < 2 ^ 64" using unat_u64_bound[of "e_index x"] by simp
  then have "entries_to_apply es (sv_applied_index s) = Inr es"
    using entries_to_apply_ok[OF assms(1), of "sv_applied_index s"] by simp
  then show ?thesis using publish_normal[OF assms(2)] Cons by (simp add: apply_committed_def request_jobs_def)
qed (simp add: apply_committed_def request_jobs_def)

text \<open>A turn without a snapshot and with requests only, from the calls it makes.\<close>

lemma handle_ready_plain:
  assumes "rd_snapshot rd = Snapshot"
    and "wal_save (ev_wal e) (rd_hard_state rd) (rd_entries rd) (sv_wal s) = Inr w"
    and "persist_entries (rd_entries rd) (sv_node s) = Inr n2" and "node_advance rd n2 = Inr n3"
    and "contig (unat (sv_applied_index s) + 1) (rd_committed_entries rd)"
    and "\<forall>x\<in>set (rd_committed_entries rd). e_type x = EntryNormal"
    and "a = (if rd_committed_entries rd = [] then sv_applied_index s else e_index (last (rd_committed_entries rd)))"
    and "sv_snapshot_index s \<le> a" and "a \<le> c" and "c - sv_snapshot_index s \<le> sv_snap_count s"
  shows "handle_ready e rd s = Inr (s\<lparr>sv_node := n3, sv_wal := w, sv_outbox := sv_outbox s @ rd_messages rd,
     sv_jobs := sv_jobs s @ request_jobs (rd_committed_entries rd), sv_applied_index := a\<rparr>)"
proof -
  let ?s5 = "s\<lparr>sv_wal := w, sv_node := n2, sv_outbox := sv_outbox s @ rd_messages rd\<rparr>"
  let ?s6 = "?s5\<lparr>sv_jobs := sv_jobs s @ request_jobs (rd_committed_entries rd), sv_applied_index := a\<rparr>"
  have s5: "post_messages (rd_messages rd) (s\<lparr>sv_wal := w, sv_node := n2\<rparr>) = ?s5" by (simp add: post_messages_def)
  have ap: "apply_committed e (rd_committed_entries rd) ?s5 = Inr ?s6"
    using apply_turn[of ?s5 "rd_committed_entries rd" e] assms(5-7) by simp
  have tr: "maybe_trigger_snapshot e ?s6 = Inr ?s6" using no_trigger[of ?s6 c e] assms(8-10) by simp
  have "snapshot_is_empty (rd_snapshot rd)" using assms(1) by (simp add: snapshot_is_empty_def Snapshot_def)
  then show ?thesis
    using assms(2-4) ap tr by (simp add: handle_ready_def s5)
qed

lemma save_turn:
  assumes "serving e start s"
  defines "l \<equiv> r_log (n_raft (sv_node s))" and "rd \<equiv> ready_of (sv_node s)"
  obtains w st where "wal_save (ev_wal e) (rd_hard_state rd) (rd_entries rd) (sv_wal s) = Inr w"
    and "storage_append (rd_entries rd) (l_storage l) = Inr (st, Ok)" and "mirrors (ev_wal e) start w st"
proof -
  note d = servingD[OF assms(1), folded l_def]
  have rd: "rd_entries rd = u_entries (l_unstable l)"
      "rd_hard_state rd = HardState \<or> rd_hard_state rd = hard_state_of (n_raft (sv_node s))"
    by (simp_all add: rd_def ready_of_def Let_def l_def)
  have wl: "wf_log l" using d(1) wf_raftD(1) by (simp add: wf_node_def l_def)
  have "set (u_entries (l_unstable l)) \<subseteq> set (log_ents l)" using d(2) by (simp add: log_ents_def)
  then have "\<forall>it\<in>set (saved_items (rd_hard_state rd) (rd_entries rd)). fits (ev_wal e) it"
    using d(8,9) rd by (auto simp: saved_items_def)
  then show thesis
    using that mirrors_save[OF d(7), of "rd_entries rd" "rd_hard_state rd"] batch_ok_unstable[OF wl d(2)] rd(1)
    by (auto simp: sv_storage_def l_def)
qed

lemma turn_ok:
  assumes "serving e start s"
  defines "l \<equiv> r_log (n_raft (sv_node s))" and "rd \<equiv> ready_of (sv_node s)"
  obtains n1 s' where "node_ready (sv_node s) = Inr (n1, rd)" and "handle_ready e rd (s\<lparr>sv_node := n1\<rparr>) = Inr s'"
    and "serving e start s'" and "sv_outbox s' = sv_outbox s @ r_msgs (n_raft (sv_node s))"
    and "sv_jobs s' = sv_jobs s @ request_jobs (rd_committed_entries rd)"
    and "log_ents (r_log (n_raft (sv_node s'))) = log_ents l" and "st_ents (sv_storage s') = log_ents l"
    and "hard_state_of (n_raft (sv_node s')) = hard_state_of (n_raft (sv_node s))"
    and "todo l = rd_committed_entries rd @ todo (r_log (n_raft (sv_node s')))"
    and "r_msgs (n_raft (sv_node s')) = []" and "r_read_states (n_raft (sv_node s')) = []"
    and "has_ready (sv_node s') = Inr (todo (r_log (n_raft (sv_node s'))) \<noteq> [])"
    and "sv_answers s' = sv_answers s" and "sv_store s' = sv_store s"
    and "same_office (n_raft (sv_node s)) (n_raft (sv_node s'))"
proof -
  note d = servingD[OF assms(1), folded l_def]
  let ?n = "sv_node s" and ?es = "rd_committed_entries rd"
  obtain n1 n2 n3 where n: "node_ready ?n = Inr (n1, rd)" "persist_entries (rd_entries rd) n1 = Inr n2"
      "node_advance rd n2 = Inr n3" "wf_node n3" "u_snapshot (l_unstable (r_log (n_raft n3))) = None"
      "log_base (r_log (n_raft n3)) = log_base l" "log_ents (r_log (n_raft n3)) = log_ents l"
      "st_ents (l_storage (r_log (n_raft n3))) = log_ents l" "hard_state_of (n_raft n3) = hard_state_of (n_raft ?n)"
      "applied_pos (r_log (n_raft n3)) = applied_pos l + length ?es"
      "todo (r_log (n_raft n3)) = drop (length ?es) (todo l)"
      "has_ready n3 = Inr (applied_pos (r_log (n_raft n3)) < unat (l_committed l))" "same_office (n_raft ?n) (n_raft n3)"
    using round_ok[OF d(1) d(2) [unfolded l_def], folded l_def rd_def] by metis
  obtain u where n1: "n1 = ?n\<lparr>n_raft := (n_raft ?n)\<lparr>r_msgs := [], r_uncommitted_size := u\<rparr>\<rparr>"
    using node_ready_ok[OF d(1)] n(1) by auto
  have rd: "rd_entries rd = u_entries (l_unstable l)" "rd_messages rd = r_msgs (n_raft ?n)"
      "rd_hard_state rd = HardState \<or> rd_hard_state rd = hard_state_of (n_raft ?n)" "rd_snapshot rd = Snapshot"
      "?es = entry_limit_size (l_max_next_ents_size l) (todo l)" "rd_read_states rd = r_read_states (n_raft ?n)"
    using d(2) by (simp_all add: rd_def ready_of_def Let_def l_def)
  have wl: "wf_log l" "l_applied l \<le> l_committed l" using d(1) wf_raftD(1) by (simp_all add: wf_node_def l_def)
  obtain w st where w: "wal_save (ev_wal e) (rd_hard_state rd) (rd_entries rd) (sv_wal s) = Inr w"
      "storage_append (rd_entries rd) (l_storage l) = Inr (st, Ok)" "mirrors (ev_wal e) start w st"
    using save_turn[OF assms(1), folded l_def rd_def] by metis
  have st: "l_storage (r_log (n_raft n3)) = st"
    using advance_frame[OF n(3)] persist_storage[OF n(2)] w(2) n1 by (simp add: l_def)
  have pre: "prefix ?es (todo l)" by (simp add: rd(5) entry_limit_size_prefix)
  then have es: "contig (unat (sv_applied_index s) + 1) ?es" "\<forall>x\<in>set ?es. e_type x = EntryNormal"
    using contig_todo[OF wl(1)] d(3,6) by (auto simp: prefix_def contig_append)
  define a where "a = (if ?es = [] then sv_applied_index s else e_index (last ?es))"
  have a0: "a = (if ?es = [] then sv_applied_index (s\<lparr>sv_node := n1\<rparr>) else e_index (last ?es))" by (simp add: a_def)
  have a: "unat a = applied_pos l + length ?es" using todo_step(1)[OF wl(1) rd(5)] d(3) by (simp add: a_def)
  have "applied_pos l + length ?es \<le> unat (l_committed l)"
    using todo_step(2)[OF wl(1) rd(5)] applied_pos_le[OF wl] by (cases "?es = []") auto
  then have ac: "sv_snapshot_index s \<le> a" "a \<le> l_committed l" using a d(3,4) by (simp_all add: word_le_nat_alt)
  define s' where "s' = s\<lparr>sv_node := n3, sv_wal := w, sv_outbox := sv_outbox s @ r_msgs (n_raft ?n),
      sv_jobs := sv_jobs s @ request_jobs ?es, sv_applied_index := a\<rparr>"
  have "handle_ready e rd (s\<lparr>sv_node := n1\<rparr>) = Inr s'"
    using handle_ready_plain[OF rd(4) _ _ n(3) _ _ a0, of e w "l_committed l"] w(1) n(2) es ac d(5)
    by (simp add: s'_def rd(2))
  moreover have "l_committed (r_log (n_raft n3)) = l_committed l"
    using n(9) by (simp add: hard_state_of_def l_def)
  moreover have "serving e start s'"
    using n(4,5,7,9,10,11) d(5,6,8,9) a ac w(3) st \<open>l_committed (r_log (n_raft n3)) = l_committed l\<close>
    by (auto simp: serving_def Let_def s'_def sv_storage_def dest: in_set_dropD)
  moreover have "r_msgs (n_raft n3) = []" "r_read_states (n_raft n3) = []"
    using advance_frame[OF n(3)] persist_frame[OF n(2)] n1 rd(6) by simp_all
  moreover have "has_ready n3 = Inr (todo (r_log (n_raft n3)) \<noteq> [])"
    using n(4,12) length_todo[of "r_log (n_raft n3)"] wf_raftD(1) \<open>l_committed (r_log (n_raft n3)) = l_committed l\<close>
    by (auto simp: wf_node_def simp flip: length_0_conv)
  moreover have "todo l = ?es @ todo (r_log (n_raft n3))" using pre n(11) by (auto simp: prefix_def)
  ultimately show thesis using that[OF n(1), of s'] n(7-9,13) st by (simp add: s'_def sv_storage_def)
qed

text \<open>The loop, from a server whose queues are empty and whose log is stable.\<close>

lemma pull_rest:
  assumes "serving e start s" and "has_ready (sv_node s) = Inr (todo (r_log (n_raft (sv_node s))) \<noteq> [])"
    and "r_msgs (n_raft (sv_node s)) = []" and "st_ents (sv_storage s) = log_ents (r_log (n_raft (sv_node s)))"
    and "length (todo (r_log (n_raft (sv_node s)))) < k"
  shows "\<exists>s'. pull_ready_events e k s = Inr s' \<and> serving e start s' \<and> has_ready (sv_node s') = Inr False
     \<and> sv_outbox s' = sv_outbox s \<and> sv_jobs s' = sv_jobs s @ request_jobs (todo (r_log (n_raft (sv_node s))))
     \<and> todo (r_log (n_raft (sv_node s'))) = []
     \<and> log_ents (r_log (n_raft (sv_node s'))) = log_ents (r_log (n_raft (sv_node s)))
     \<and> st_ents (sv_storage s') = log_ents (r_log (n_raft (sv_node s)))
     \<and> hard_state_of (n_raft (sv_node s')) = hard_state_of (n_raft (sv_node s))
     \<and> same_office (n_raft (sv_node s)) (n_raft (sv_node s'))"
  using assms
proof (induction k arbitrary: s)
  case (Suc k)
  let ?l = "\<lambda>s. r_log (n_raft (sv_node s))"
  show ?case
  proof (cases "todo (?l s) = []")
    case True
    then show ?thesis using Suc.prems by (simp add: request_jobs_def)
  next
    case False
    let ?rd = "ready_of (sv_node s)" and ?es = "rd_committed_entries (ready_of (sv_node s))"
    obtain n1 s1 where t: "node_ready (sv_node s) = Inr (n1, ?rd)" "handle_ready e ?rd (s\<lparr>sv_node := n1\<rparr>) = Inr s1"
        "serving e start s1" "sv_outbox s1 = sv_outbox s @ r_msgs (n_raft (sv_node s))"
        "sv_jobs s1 = sv_jobs s @ request_jobs ?es" "log_ents (?l s1) = log_ents (?l s)" "st_ents (sv_storage s1) = log_ents (?l s)"
        "hard_state_of (n_raft (sv_node s1)) = hard_state_of (n_raft (sv_node s))"
        "todo (?l s) = ?es @ todo (?l s1)" "r_msgs (n_raft (sv_node s1)) = []"
        "has_ready (sv_node s1) = Inr (todo (?l s1) \<noteq> [])" "same_office (n_raft (sv_node s)) (n_raft (sv_node s1))"
      using turn_ok[OF Suc.prems(1)] by metis
    have es: "?es = entry_limit_size (l_max_next_ents_size (?l s)) (todo (?l s))" by (simp add: ready_of_def Let_def)
    then have ne: "?es \<noteq> []" using False by simp
    have "length (todo (?l s1)) < length (todo (?l s))" using ne arg_cong[OF t(9), of length] by simp
    then have "length (todo (?l s1)) < k" using Suc.prems(5) by simp
    from Suc.IH[OF t(3,11,10) _ this] obtain s' where s': "pull_ready_events e k s1 = Inr s'" "serving e start s'"
        "has_ready (sv_node s') = Inr False" "sv_outbox s' = sv_outbox s1" "sv_jobs s' = sv_jobs s1 @ request_jobs (todo (?l s1))"
        "todo (?l s') = []" "log_ents (?l s') = log_ents (?l s1)" "st_ents (sv_storage s') = log_ents (?l s1)"
        "hard_state_of (n_raft (sv_node s')) = hard_state_of (n_raft (sv_node s1))"
        "same_office (n_raft (sv_node s1)) (n_raft (sv_node s'))"
      using t(6,7) by auto
    have "contains_updates ?rd" using ne by (simp add: contains_updates_def)
    then have "pull_ready_events e (Suc k) s = Inr s'" using Suc.prems(2) False t(1,2) s'(1) by simp
    moreover have "sv_jobs s' = sv_jobs s @ request_jobs (todo (?l s))"
      using s'(5) t(5) arg_cong[OF t(9), of request_jobs] by (simp add: request_jobs_append)
    moreover have "same_office (n_raft (sv_node s)) (n_raft (sv_node s'))" by (rule same_office_trans [OF t(12) s'(10)])
    ultimately show ?thesis using s'(2-9) t(3-11) Suc.prems(3) by simp
  qed
qed simp

section \<open>Restarting\<close>

lemma all_some_map [simp]: "all_some (map Some xs) = Some xs"
  by (induction xs) simp_all

text \<open>The snapshot a restart begins with.\<close>

definition start_snapshot :: "snap_env \<Rightarrow> directory \<Rightarrow> snapshot" where
  "start_snapshot e files = (case newest e files of None \<Rightarrow> Snapshot | Some n \<Rightarrow> the (intact e files n))"

definition walsnap_of :: "snapshot \<Rightarrow> wal_snapshot" where
  "walsnap_of snap = \<lparr>ws_index = s_index snap, ws_term = s_term snap\<rparr>"

lemma load_start:
  assumes "wf_dir e files"
  shows "\<exists>files' st. load e Snapshot files = Inr (files', start_snapshot e files, st)
     \<and> (if newest e files = None then is_not_found st \<and> \<not> is_ok st else is_ok st)"
proof -
  obtain files' where "load e Snapshot files = (case newest e files of
      None \<Rightarrow> Inr (files', Snapshot, not_found ''snap not found'') | Some n \<Rightarrow> Inr (files', the (intact e files n), Ok))"
    using load_newest[OF assms] by blast
  then show ?thesis
    by (cases "newest e files") (auto simp: start_snapshot_def not_found_def)
qed

lemma append_to_base:
  assumes "wf_storage st0" and "st_ents st0 = []" and "contig (st_base st0 + 1) es" and "st_base st0 + 1 + length es < 2 ^ 64"
  shows "\<exists>st. storage_append es st0 = Inr (st, Ok) \<and> wf_storage st \<and> st_base st = st_base st0 \<and> st_ents st = es
     \<and> ms_snapshot st = ms_snapshot st0 \<and> ms_hard_state st = ms_hard_state st0"
proof -
  have "splice (st_base st0) [] es = es" using contig_hd[OF assms(3)] by (cases es) (simp_all add: splice_def Let_def)
  then show ?thesis using storage_append_ok[OF assms(1,3)] assms(2,4) by auto
qed

lemma start_storage:
  assumes "newest e files \<noteq> None \<longrightarrow> 0 < s_index (start_snapshot e files)"
    and "unat (s_index (start_snapshot e files)) + 1 < 2 ^ 64"
  defines "snap \<equiv> start_snapshot e files"
  defines "st0 \<equiv> (if newest e files = None then MemoryStorage else fst (storage_apply_snapshot snap MemoryStorage))"
  shows "wf_storage st0" and "st_ents st0 = []" and "st_base st0 = unat (s_index snap)" and "ms_snapshot st0 = snap"
proof -
  have "wf_storage st0 \<and> st_ents st0 = [] \<and> st_base st0 = unat (s_index snap) \<and> ms_snapshot st0 = snap"
  proof (cases "newest e files")
    case None
    then show ?thesis using wf_MemoryStorage
      by (simp add: st0_def snap_def start_snapshot_def MemoryStorage_def st_ents_def st_base_def Entry_def Snapshot_def)
  next
    case (Some n)
    then show ?thesis
      using storage_apply_snapshot_ok[of snap MemoryStorage] assms(1,2)
      by (auto simp: st0_def snap_def MemoryStorage_def Snapshot_def)
  qed
  then show "wf_storage st0" and "st_ents st0 = []" and "st_base st0 = unat (s_index snap)" and "ms_snapshot st0 = snap"
    by blast+
qed

lemma replay_ok:
  assumes "good_codec (ev_wal e)" and "has_extension (se_ext (ev_snap e)) ''.wal''" and "wf_dir (ev_snap e) files"
    and "newest (ev_snap e) files \<noteq> None \<longrightarrow> 0 < s_index (start_snapshot (ev_snap e) files)"
    and "mirrors (ev_wal e) (walsnap_of (start_snapshot (ev_snap e) files)) w st"
    and "prefix reached (wal_file.wf_buffer (last (w_files w)))"
  defines "snap \<equiv> start_snapshot (ev_snap e) files" and "es \<equiv> st_ents st"
  shows "\<exists>st' w' files'. replay_WAL e (Some [(wal_name 0 0, wf_content (last (w_files w)) @ reached)]) files
       = Inr (st', w', files', if es \<noteq> [] then e_index (last es) else 0, if es \<noteq> [] then [] else s_data snap)
     \<and> wf_storage st' \<and> st_base st' = st_base st \<and> st_ents st' = es \<and> ms_snapshot st' = snap
     \<and> same_vote (ms_hard_state st') (w_state w)"
proof -
  let ?st0 = "if newest (ev_snap e) files = None then MemoryStorage else fst (storage_apply_snapshot snap MemoryStorage)"
  have m: "wf_storage st" "st_base st = unat (s_index snap)"
    using assms(5) by (auto simp: mirrors_def walsnap_of_def snap_def)
  have lim: "st_base st + 1 + length es < 2 ^ 64"
    using m(1) by (auto simp: wf_storage_def st_base_def st_ents_def es_def neq_Nil_conv)
  then have "unat (s_index snap) + 1 < 2 ^ 64" using m(2) by simp
  note st0 = start_storage[OF assms(4) this[unfolded snap_def], folded snap_def]
  obtain files' status where ld: "load (ev_snap e) Snapshot files = Inr (files', snap, status)"
      "if newest (ev_snap e) files = None then is_not_found status \<and> \<not> is_ok status else is_ok status"
    using load_start[OF assms(3)] snap_def by auto
  obtain w' hs where rd: "wal_read_all (ev_wal e) HardState []
        (reopened (ev_ftell e) (wf_content (last (w_files w)) @ reached) 0 (walsnap_of snap))
      = Inr (w', hs, map Some es, Ok)" "same_vote hs (w_state w)"
    using crash_mirror[OF assms(1,5,6)] snap_def es_def by metis
  have "wf_storage (storage_set_hard_state hs ?st0) \<and> st_ents (storage_set_hard_state hs ?st0) = []
      \<and> st_base (storage_set_hard_state hs ?st0) = st_base st"
    using st0(1-3) m(2) by (simp add: storage_set_hard_state_def wf_storage_def st_ents_def st_base_def)
  moreover have "contig (st_base st + 1) es" using stor.contiguous[OF m(1)] by (simp add: es_def)
  ultimately obtain st' where st': "storage_append es (storage_set_hard_state hs ?st0) = Inr (st', Ok)" "wf_storage st'"
      "st_base st' = st_base st" "st_ents st' = es" "ms_snapshot st' = ms_snapshot ?st0" "ms_hard_state st' = hs"
    using append_to_base[of "storage_set_hard_state hs ?st0" es] lim by (auto simp: storage_set_hard_state_def)
  have op: "open_WAL e snap (Some [(wal_name 0 0, wf_content (last (w_files w)) @ reached)])
      = Inr (reopened (ev_ftell e) (wf_content (last (w_files w)) @ reached) 0 (walsnap_of snap))"
    using open_single[OF assms(2)] by (simp add: open_WAL_def walsnap_of_def)
  have b: "(if is_ok status then Inr (fst (storage_apply_snapshot snap MemoryStorage))
            else if is_not_found status then Inr MemoryStorage else Inl (Fatal ''error loading snapshot'')) = Inr ?st0"
    using ld(2) by (auto split: if_splits)
  have "replay_WAL e (Some [(wal_name 0 0, wf_content (last (w_files w)) @ reached)]) files
      = Inr (st', w', files', if es \<noteq> [] then e_index (last es) else 0, if es \<noteq> [] then [] else s_data snap)"
    using b by (simp add: replay_WAL_def ld(1) op rd(1) deref_def st'(1) del: if_split cong: if_weak_cong)
  then show ?thesis using st' st0(4) rd(2) by auto
qed

text \<open>The node that a restart creates runs on the storage that was replayed.\<close>

lemma reset_parts_keep_log:
  "reset_randomized_election_timeout r = Inr r' \<Longrightarrow> r_log r' = r_log r"
  "reset_progress r = Inr r' \<Longrightarrow> r_log r' = r_log r"
  by (auto simp: reset_progress_def reset_randomized_election_timeout_def rbind_Inr_iff Let_def
      split: prod.splits if_split_asm)

lemma follower_keeps_log:
  assumes "become_follower trm lead r = Inr r'"
  shows "r_log r' = r_log r"
proof -
  obtain r3 r4 where "reset_randomized_election_timeout ((if r_term r \<noteq> trm
        then r\<lparr>r_step := Some StepFollower, r_term := trm, r_vote := 0\<rparr> else r\<lparr>r_step := Some StepFollower\<rparr>)
        \<lparr>r_lead := 0, r_election_elapsed := 0, r_heartbeat_elapsed := 0\<rparr>) = Inr r3"
      "reset_progress ((abort_leader_transfer r3)\<lparr>r_votes := []\<rparr>) = Inr r4" "r_log r' = r_log r4"
    using assms unfolding become_follower_def reset_def Let_def rbind_Inr_iff by auto
  then show ?thesis
    using reset_parts_keep_log(1)[of _ r3] reset_parts_keep_log(2)[of _ r4] by (auto simp: abort_leader_transfer_def)
qed

lemma Raft_storage:
  assumes "Raft c draws = Inr r" and "c_storage c = Some st"
  shows "l_storage (r_log r) = st"
proof -
  obtain l where l: "RaftLog st (c_max_committed_size_per_ready c) = Inr l"
    using assms by (auto simp: Raft_def deref_def rbind_Inr_iff)
  let ?hs = "fst (storage_initial_state st)"
  obtain peers learners r1 r2 where r: "rfold add_learner learners (fold add_peer peers (initial_raft c draws l)) = Inr r1"
      "(if \<not> hs_is_empty_state ?hs then load_state ?hs r1 else Inr r1) = Inr r2"
      "\<exists>t. become_follower t 0 (if c_applied c > 0 then r2\<lparr>r_log := applied_to (c_applied c) (r_log r2)\<rparr> else r2) = Inr r"
    using Raft_stages[OF assms l] by metis
  have "l_storage (r_log (initial_raft c draws l)) = st"
    using l by (auto simp: RaftLog_def rbind_Inr_iff initial_raft_def Let_def)
  then have "l_storage (r_log (fold add_peer peers (initial_raft c draws l))) = st"
    by (induction peers rule: rev_induct) (simp_all add: add_peer_def)
  then have "l_storage (r_log r1) = st"
    by (rule rfold_invariant [OF r(1)]) (auto simp: add_learner_def Let_def split: if_split_asm)
  then have "l_storage (r_log r2) = st" using r(2) by (auto simp: load_state_def rbind_Inr_iff split: if_split_asm)
  then show ?thesis using r(3) by (auto simp: applied_to_def dest: follower_keeps_log split: if_split_asm)
qed
lemma validate_storage: "c_storage (fst (config_validate c)) = c_storage c"
  by (simp add: config_validate_def Let_def)

lemma restart_parts:
  assumes "RaftNode e i cluster (Some d) files = Inr s" and "replay_WAL e (Some d) files = Inr (st, w, files', lst, data)"
  shows "sv_storage s = st" and "sv_snap_data s = data"
proof -
  define c where "c = fst (config_validate (server_config i st))"
  have c: "c_storage c = Some st" by (simp add: c_def validate_storage server_config_def)
  obtain n where n: "restart_node c (ev_draws e) = Inr n" "n = sv_node s" "sv_snap_data s = data"
    using assms by (auto simp: RaftNode_def Let_def rbind_Inr_iff c_def split_def split: if_split_asm)
  obtain r where "Raft c (ev_draws e) = Inr r" "n_raft n = r"
    using n(1) by (auto simp: restart_node_def rbind_Inr_iff)
  then show "sv_storage s = st" "sv_snap_data s = data" using Raft_storage[of c "ev_draws e" r, OF _ c] n(2,3) by (simp_all add: sv_storage_def)
qed

section \<open>The whole loop\<close>

lemma not_ready_quiet:
  assumes "serving e start s" and "has_ready (sv_node s) = Inr False"
  shows "r_msgs (n_raft (sv_node s)) = []" and "todo (r_log (n_raft (sv_node s))) = []"
    and "st_ents (sv_storage s) = log_ents (r_log (n_raft (sv_node s)))" and "r_read_states (n_raft (sv_node s)) = []"
proof -
  let ?l = "r_log (n_raft (sv_node s))"
  note d = servingD[OF assms(1)]
  have wl: "wf_log ?l" using d(1) wf_raftD(1) by (simp add: wf_node_def)
  have q: "r_msgs (n_raft (sv_node s)) = []" "u_entries (l_unstable ?l) = []" "\<not> applied_pos ?l < unat (l_committed ?l)"
    using has_ready_ok[OF d(1,2)] assms(2) by simp_all
  show "r_msgs (n_raft (sv_node s)) = []" by (rule q(1))
  show "r_read_states (n_raft (sv_node s)) = []" using has_ready_ok[OF d(1,2)] assms(2) by simp
  show "todo ?l = []" using q(3) length_todo[OF wl] by simp
  show "st_ents (sv_storage s) = log_ents ?l"
    using wf_logD(1)[OF wl] d(2) q(2) by (simp add: wf_log_parts_def log_ents_def sv_storage_def)
qed

lemma applied_all:
  assumes "serving e start s" and "todo (r_log (n_raft (sv_node s))) = []"
  shows "sv_applied_index s = l_committed (r_log (n_raft (sv_node s)))"
proof -
  let ?l = "r_log (n_raft (sv_node s))"
  note d = servingD[OF assms(1)]
  have "wf_log ?l" "l_applied ?l \<le> l_committed ?l" using d(1) wf_raftD(1) by (simp_all add: wf_node_def)
  then have "applied_pos ?l = unat (l_committed ?l)" using length_todo[of ?l] applied_pos_le[of ?l] assms(2) by simp
  then show ?thesis using d(3) by (simp add: u64_eq_iff)
qed

lemma pull_ok:
  assumes "serving e start s" and "r_read_states (n_raft (sv_node s)) = []"
    and "length (todo (r_log (n_raft (sv_node s)))) + 2 \<le> k"
  shows "\<exists>s'. pull_ready_events e k s = Inr s' \<and> serving e start s' \<and> has_ready (sv_node s') = Inr False
     \<and> sv_outbox s' = sv_outbox s @ r_msgs (n_raft (sv_node s))
     \<and> sv_jobs s' = sv_jobs s @ request_jobs (todo (r_log (n_raft (sv_node s))))
     \<and> sv_applied_index s' = l_committed (r_log (n_raft (sv_node s)))
     \<and> log_ents (r_log (n_raft (sv_node s'))) = log_ents (r_log (n_raft (sv_node s)))
     \<and> st_ents (sv_storage s') = log_ents (r_log (n_raft (sv_node s)))
     \<and> todo (r_log (n_raft (sv_node s'))) = [] \<and> r_read_states (n_raft (sv_node s')) = []
     \<and> same_office (n_raft (sv_node s)) (n_raft (sv_node s'))"
proof -
  let ?l = "\<lambda>s. r_log (n_raft (sv_node s))"
  obtain j where k: "k = Suc j" "length (todo (?l s)) < j" using assms(3) by (cases k) auto
  obtain b where b: "has_ready (sv_node s) = Inr b" using has_ready_ok[OF servingD(1,2)[OF assms(1)]] by blast
  show ?thesis
  proof (cases b)
    case False
    then have "has_ready (sv_node s) = Inr False" using b by simp
    note q = not_ready_quiet[OF assms(1) this]
    show ?thesis using q applied_all[OF assms(1) q(2)] assms(1,2) b False k(1) by (simp add: request_jobs_def)
  next
    case True
    let ?rd = "ready_of (sv_node s)" and ?es = "rd_committed_entries (ready_of (sv_node s))"
    obtain n1 s1 where t: "node_ready (sv_node s) = Inr (n1, ?rd)" "handle_ready e ?rd (s\<lparr>sv_node := n1\<rparr>) = Inr s1"
        "serving e start s1" "sv_outbox s1 = sv_outbox s @ r_msgs (n_raft (sv_node s))"
        "sv_jobs s1 = sv_jobs s @ request_jobs ?es" "log_ents (?l s1) = log_ents (?l s)" "st_ents (sv_storage s1) = log_ents (?l s)"
        "hard_state_of (n_raft (sv_node s1)) = hard_state_of (n_raft (sv_node s))"
        "todo (?l s) = ?es @ todo (?l s1)" "r_msgs (n_raft (sv_node s1)) = []"
        "has_ready (sv_node s1) = Inr (todo (?l s1) \<noteq> [])" "same_office (n_raft (sv_node s)) (n_raft (sv_node s1))"
      using turn_ok[OF assms(1)] by metis
    have "length (todo (?l s1)) < j" using arg_cong[OF t(9), of length] k(2) by simp
    from pull_rest[OF t(3,11,10) _ this] obtain s' where s': "pull_ready_events e j s1 = Inr s'" "serving e start s'"
        "has_ready (sv_node s') = Inr False" "sv_outbox s' = sv_outbox s1" "sv_jobs s' = sv_jobs s1 @ request_jobs (todo (?l s1))"
        "todo (?l s') = []" "log_ents (?l s') = log_ents (?l s1)" "st_ents (sv_storage s') = log_ents (?l s1)"
        "hard_state_of (n_raft (sv_node s')) = hard_state_of (n_raft (sv_node s1))"
        "same_office (n_raft (sv_node s1)) (n_raft (sv_node s'))"
      using t(6,7) by auto
    have "contains_updates ?rd" using assms(2) by (simp add: contains_updates_def ready_of_def Let_def)
    then have "pull_ready_events e k s = Inr s'" using True b t(1,2) s'(1) k(1) by simp
    moreover have "request_jobs (todo (?l s)) = request_jobs ?es @ request_jobs (todo (?l s1))"
      using arg_cong[OF t(9), of request_jobs] by (simp only: request_jobs_append)
    moreover have "l_committed (?l s') = l_committed (?l s)" using s'(9) t(8) by (simp add: hard_state_of_def)
    moreover have "same_office (n_raft (sv_node s)) (n_raft (sv_node s'))" by (rule same_office_trans [OF t(12) s'(10)])
    moreover have "r_read_states (n_raft (sv_node s')) = []" by (rule not_ready_quiet(4) [OF s'(2,3)])
    ultimately show ?thesis using s'(2-9) t(4-7) applied_all[OF s'(2,6)] by simp
  qed
qed

section \<open>A cluster of one\<close>

text \<open>A leader that is its own only voter and has committed all it has.\<close>

definition alone :: "raft \<Rightarrow> progress \<Rightarrow> bool" where
  "alone r pr \<longleftrightarrow> r_state r = Leader \<and> r_prs r = [(r_id r, pr)] \<and> r_learner_prs r = [] \<and> r_lead_transferee r = 0
     \<and> r_term r \<noteq> 0 \<and> unat (pr_match pr) \<le> log_last (r_log r) \<and> unat (l_committed (r_log r)) = log_last (r_log r)"

definition proposed :: "bytes \<Rightarrow> raft \<Rightarrow> entry" where
  "proposed data r = \<lparr>e_type = EntryNormal, e_term = r_term r, e_index = l_committed (r_log r) + 1, e_data = data\<rparr>"

lemma increase_accepted:
  assumes "snd (increase_uncommitted_size es r)"
  shows "increase_uncommitted_size es r = (r\<lparr>r_uncommitted_size := r_uncommitted_size (fst (increase_uncommitted_size es r))\<rparr>, True)"
  using assms unfolding increase_uncommitted_size_def Let_def by (simp split: if_split_asm)

lemma append_alone:
  assumes "alone r pr" and "wf_raft r" and "log_last (r_log r) + 2 < 2 ^ 64"
    and "snd (increase_uncommitted_size [proposed data r] r)"
  obtains l u p buf where "append_entry [Entry\<lparr>e_type := EntryNormal, e_data := data\<rparr>] r = Inr (r\<lparr>r_uncommitted_size := u, r_log := l,
        r_prs := [(r_id r, p)], r_match_buf := buf\<rparr>, True)"
    and "wf_log l" and "log_base l = log_base (r_log r)" and "log_ents l = log_ents (r_log r) @ [proposed data r]"
    and "l_committed l = l_committed (r_log r) + 1" and "l_storage l = l_storage (r_log r)"
    and "l_applied l = l_applied (r_log r)" and "u_snapshot (l_unstable l) = u_snapshot (l_unstable (r_log r))"
    and "good_pr p" and "pr_is_learner p = pr_is_learner pr" and "pr_match p = l_committed (r_log r) + 1"
proof -
  note w = wf_logD[OF wf_raftD(1)[OF assms(2)]]
  let ?x = "proposed data r" and ?c = "l_committed (r_log r)"
  have al: "r_prs r = [(r_id r, pr)]" "r_term r \<noteq> 0" "unat (pr_match pr) \<le> log_last (r_log r)" "unat ?c = log_last (r_log r)"
      "r_learner_prs r = []" using assms(1) by (simp_all add: alone_def)
  obtain li where "log_last_index (r_log r) = Inr li" "unat li = log_last (r_log r)"
    using log_last_index_ok[OF w(1)] by auto
  then have li: "log_last_index (r_log r) = Inr ?c" using al(4) by (simp add: u64_eq_iff)
  have c1: "unat (?c + 1) = log_last (r_log r) + 1" using al(4) assms(3) by (simp add: unat_add_1)
  have num: "number_entries (r_term r) (?c + 1) [Entry\<lparr>e_type := EntryNormal, e_data := data\<rparr>] = [?x]"
    by (simp add: proposed_def Entry_def)
  obtain l i where l: "log_append [?x] (r_log r) = Inr (l, i)" "unat i = log_last (r_log r) + 1" "wf_log l"
      "log_base l = log_base (r_log r)" "log_ents l = log_ents (r_log r) @ [?x]"
      "l = (r_log r)\<lparr>l_unstable := l_unstable l\<rparr>" "u_snapshot (l_unstable l) = u_snapshot (l_unstable (r_log r))"
    using log_append_ok[OF wf_raftD(1)[OF assms(2)], of "[?x]" "log_last (r_log r) + 1"] c1 al(4) assms(3)
    by (auto simp: proposed_def log_last_def)
  have ic: "i = ?c + 1" using l(2) c1 by (simp add: u64_eq_iff)
  have lf: "l_committed l = ?c" "l_storage l = l_storage (r_log r)" "l_applied l = l_applied (r_log r)"
    by (subst l(6), simp)+
  define p where "p = fst (maybe_update i pr)"
  have p: "pr_match p = ?c + 1" "pr_is_learner p = pr_is_learner pr"
    using maybe_update_fields(1,2)[of i pr] al(3) c1 ic by (auto simp: p_def max_def word_le_nat_alt)
  have "good_pr pr" using wf_raftD(2)[OF assms(2)] al(1) by (simp add: wf_peers_def peers_ok_def)
  moreover have "i \<noteq> - 1" using l(2) assms(3) by (simp add: u64_not_max)
  ultimately have gp: "good_pr p" unfolding p_def by (rule good_maybe_update)
  have "log_term_at l (unat (?c + 1)) = r_term r"
    using l(4,5) c1 by (simp add: log_term_at_def term_at_def log_last_def nth_append proposed_def)
  moreover have "l_committed l < ?c + 1" using lf(1) c1 al(4) by (simp add: word_less_nat_alt)
  ultimately have mc: "log_maybe_commit (?c + 1) (r_term r) l = Inr (l\<lparr>l_committed := ?c + 1\<rparr>, True)"
      "wf_log (l\<lparr>l_committed := ?c + 1\<rparr>)"
    using log_maybe_commit_ok[OF l(3) al(2), of "?c + 1"] by simp_all
  define u where "u = r_uncommitted_size (fst (increase_uncommitted_size [?x] r))"
  have u: "increase_uncommitted_size [?x] r = (r\<lparr>r_uncommitted_size := u\<rparr>, True)"
    using assms(4) increase_accepted[of "[?x]" r] u_def by simp
  have "append_entry [Entry\<lparr>e_type := EntryNormal, e_data := data\<rparr>] r = Inr (r\<lparr>r_uncommitted_size := u, r_log := l\<lparr>l_committed := ?c + 1\<rparr>,
        r_prs := [(r_id r, p)], r_match_buf := [?c + 1]\<rparr>, True)"
    using li num u l(1) al(1,5) mc(1) p(1)
    by (simp add: append_entry_def get_progress_def put_progress_def deref_def maybe_commit_def quorum_def vec_at_def
        vec_size_def p_def [symmetric])
  from that[OF this mc(2)] show thesis using l(4,5,7) lf p gp by simp
qed

lemma propose_alone:
  assumes "alone r pr" and "wf_raft r"
    and "append_entry [Entry\<lparr>e_type := EntryNormal, e_data := data\<rparr>] r = Inr (r1, True)"
    and "r_prs r1 = [(r_id r1, p)]" and "r_learner_prs r1 = []"
  shows "step (Message\<lparr>m_type := MsgProp, m_from := r_id r, m_entries := [Entry\<lparr>e_type := EntryNormal, e_data := data\<rparr>]\<rparr>) r
     = Inr (r1, Ok)"
proof -
  let ?m = "Message\<lparr>m_type := MsgProp, m_from := r_id r, m_entries := [Entry\<lparr>e_type := EntryNormal, e_data := data\<rparr>]\<rparr>"
  have al: "r_prs r = [(r_id r, pr)]" "r_state r = Leader" "r_lead_transferee r = 0" using assms(1) by (simp_all add: alone_def)
  obtain li where li: "log_last_index (r_log r) = Inr li"
    using log_last_index_ok[OF wf_logD(1)[OF wf_raftD(1)[OF assms(2)]]] by auto
  have "bcast_append r1 = Inr r1" by (simp add: bcast_append_def for_others_def progress_ids_def assms(4,5))
  then have "step_leader_prop ?m r = Inr (r1, Ok)"
    using al li assms(3) by (simp add: step_leader_prop_def finish_def)
  moreover have "r_step r = Some StepLeader" using assms(2) al(2) by (simp add: wf_raft_def role_ok_def)
  ultimately show ?thesis by (simp add: step_def step_dispatch_def step_role_def step_leader_def Message_def)
qed

lemma todo_grows:
  assumes "wf_log l" and "l_applied l \<le> l_committed l" and "unat (l_committed l) = log_last l"
    and "log_base l' = log_base l" and "log_ents l' = log_ents l @ [x]" and "l_applied l' = l_applied l"
    and "unat (l_committed l') = log_last l + 1"
  shows "todo l' = todo l @ [x]" and "applied_pos l' = applied_pos l"
proof -
  show pos: "applied_pos l' = applied_pos l" using assms(4,6) by (simp add: applied_pos_def)
  have "log_base l \<le> applied_pos l" "applied_pos l \<le> log_last l"
    using applied_pos_le[OF assms(1,2)] assms(3) by (simp_all add: applied_pos_def)
  then show "todo l' = todo l @ [x]"
    using assms(3-5,7) pos by (simp add: todo_def log_between_def log_last_def)
qed

definition can_save :: "server_env \<Rightarrow> bytes \<Rightarrow> server \<Rightarrow> bool" where
  "can_save e data s \<longleftrightarrow> (let r = n_raft (sv_node s) in
     log_last (r_log r) + 2 < 2 ^ 64 \<and> snd (increase_uncommitted_size [proposed data r] r)
     \<and> l_committed (r_log r) + 1 - sv_snapshot_index s \<le> sv_snap_count s
     \<and> fits (ev_wal e) (ItemEntry (proposed data r))
     \<and> fits (ev_wal e) (ItemState ((hard_state_of r)\<lparr>hs_commit := l_committed (r_log r) + 1\<rparr>)))"

lemma propose_serving:
  assumes "serving e start s" and "alone (n_raft (sv_node s)) pr" and "can_save e data s"
  defines "r \<equiv> n_raft (sv_node s)"
  obtains r1 where "node_propose data (sv_node s) = Inr ((sv_node s)\<lparr>n_raft := r1\<rparr>, Ok)"
    and "serving e start (s\<lparr>sv_node := (sv_node s)\<lparr>n_raft := r1\<rparr>\<rparr>)"
    and "todo (r_log r1) = todo (r_log r) @ [proposed data r]" and "log_ents (r_log r1) = log_ents (r_log r) @ [proposed data r]"
    and "l_committed (r_log r1) = l_committed (r_log r) + 1" and "r_read_states r1 = r_read_states r"
    and "r_msgs r1 = r_msgs r" and "\<exists>pr1. alone r1 pr1"
proof -
  note d = servingD[OF assms(1), folded r_def]
  note al = assms(2) [folded r_def]
  have cs: "log_last (r_log r) + 2 < 2 ^ 64" "snd (increase_uncommitted_size [proposed data r] r)"
      "l_committed (r_log r) + 1 - sv_snapshot_index s \<le> sv_snap_count s" "fits (ev_wal e) (ItemEntry (proposed data r))"
      "fits (ev_wal e) (ItemState ((hard_state_of r)\<lparr>hs_commit := l_committed (r_log r) + 1\<rparr>))"
    using assms(3) by (simp_all add: can_save_def Let_def r_def)
  have w: "wf_raft r" "l_applied (r_log r) \<le> l_committed (r_log r)" using d(1) by (simp_all add: wf_node_def r_def)
  obtain l u p buf where a: "append_entry [Entry\<lparr>e_type := EntryNormal, e_data := data\<rparr>] r = Inr (r\<lparr>r_uncommitted_size := u, r_log := l,
        r_prs := [(r_id r, p)], r_match_buf := buf\<rparr>, True)"
      "wf_log l" "log_base l = log_base (r_log r)" "log_ents l = log_ents (r_log r) @ [proposed data r]"
      "l_committed l = l_committed (r_log r) + 1" "l_storage l = l_storage (r_log r)"
      "l_applied l = l_applied (r_log r)" "u_snapshot (l_unstable l) = u_snapshot (l_unstable (r_log r))"
      "pr_match p = l_committed (r_log r) + 1"
    using append_alone[OF al w(1) cs(1,2)] by metis
  define r1 where "r1 = r\<lparr>r_uncommitted_size := u, r_log := l, r_prs := [(r_id r, p)], r_match_buf := buf\<rparr>"
  have r1: "append_entry [Entry\<lparr>e_type := EntryNormal, e_data := data\<rparr>] r = Inr (r1, True)" using a(1) by (simp add: r1_def)
  have wr: "wf_raft r1" using append_entry_advances[OF r1 w(1)] cs(1) by (simp add: advances_def)
  have com: "unat (l_committed (r_log r)) = log_last (r_log r)" using al by (simp add: alone_def)
  then have com1: "unat (l_committed l) = log_last (r_log r) + 1" using cs(1) a(5) by (simp add: unat_add_1)
  note td = todo_grows[OF wf_raftD(1)[OF w(1)] w(2) com a(3,4,7) com1]
  have "step (Message\<lparr>m_type := MsgProp, m_from := r_id r, m_entries := [Entry\<lparr>e_type := EntryNormal, e_data := data\<rparr>]\<rparr>) r
      = Inr (r1, Ok)"
    by (rule propose_alone [OF al w(1) r1, of p]) (use al in \<open>simp_all add: r1_def alone_def\<close>)
  then have np: "node_propose data (sv_node s) = Inr ((sv_node s)\<lparr>n_raft := r1\<rparr>, Ok)"
    by (simp add: node_propose_def on_raft_def r_def)
  have "l_applied l \<le> l_committed l" using a(7) w(2) com com1 by (simp add: word_le_nat_alt)
  moreover have "hard_state_of r1 = (hard_state_of r)\<lparr>hs_commit := l_committed (r_log r) + 1\<rparr>"
    using a(5) by (simp add: hard_state_of_def r1_def)
  ultimately have "serving e start (s\<lparr>sv_node := (sv_node s)\<lparr>n_raft := r1\<rparr>\<rparr>)"
    using d wr a(4-6,8) td cs(3-5) by (auto simp: serving_def Let_def wf_node_def r1_def sv_storage_def r_def proposed_def)
  moreover have "alone r1 p"
    using al a(3-5,9) com1 com cs(1) by (simp add: alone_def r1_def log_last_def)
  ultimately show thesis using that[OF np] td(1) a(4,5) by (simp add: r1_def) blast
qed

section \<open>Properties\<close>

text \<open>
  C11: The loop applies what is committed. From a server at work, and with fuel for one turn per
  entry to be applied and two more, \<open>pull_ready_events\<close> returns: every message the node had queued
  is handed to the transport, every committed request not yet applied is handed to the store, in the
  order of the log and once, the applied position is the commit position, the whole log is in the
  stable storage and the log file mirrors it, and the node has nothing more to hand out.
\<close>

theorem server_applies_committed:
  assumes "serving e start s" and "r_read_states (n_raft (sv_node s)) = []"
    and "length (todo (r_log (n_raft (sv_node s)))) + 2 \<le> k"
  shows "\<exists>s'. pull_ready_events e k s = Inr s' \<and> has_ready (sv_node s') = Inr False
     \<and> sv_outbox s' = sv_outbox s @ r_msgs (n_raft (sv_node s))
     \<and> sv_jobs s' = sv_jobs s @ request_jobs (todo (r_log (n_raft (sv_node s))))
     \<and> sv_applied_index s' = l_committed (r_log (n_raft (sv_node s)))
     \<and> st_ents (sv_storage s') = log_ents (r_log (n_raft (sv_node s)))
     \<and> mirrors (ev_wal e) start (sv_wal s') (sv_storage s') \<and> serving e start s'"
  using pull_ok[OF assms] servingD(7) by blast

text \<open>
  C12: A cluster of one node serves. A proposal to the server of a leader that is its own only
  voter, with room in its log and its log file for one more entry, is accepted; when the call returns
  it is committed, saved to the log file, in the stable storage, and handed to the store after
  everything committed before it. The node is then still the leader that is its own only voter, with
  nothing left to apply and no reads to answer, so that the same holds again of the next proposal as
  long as there is room for it.
\<close>

theorem single_node_serves:
  assumes "serving e start s" and "alone (n_raft (sv_node s)) pr" and "can_save e data s"
    and "r_read_states (n_raft (sv_node s)) = []" and "data \<noteq> []"
    and "length (todo (r_log (n_raft (sv_node s)))) + 3 \<le> k"
  shows "\<exists>s'. server_propose e k data s = Inr (s', Ok)
     \<and> sv_jobs s' = sv_jobs s @ request_jobs (todo (r_log (n_raft (sv_node s)))) @ [JobCommit data]
     \<and> sv_applied_index s' = l_committed (r_log (n_raft (sv_node s))) + 1
     \<and> st_ents (sv_storage s') = log_ents (r_log (n_raft (sv_node s))) @ [proposed data (n_raft (sv_node s))]
     \<and> serving e start s' \<and> (\<exists>pr'. alone (n_raft (sv_node s')) pr')
     \<and> r_read_states (n_raft (sv_node s')) = [] \<and> todo (r_log (n_raft (sv_node s'))) = []"
proof -
  let ?r = "n_raft (sv_node s)"
  obtain r1 where r1: "node_propose data (sv_node s) = Inr ((sv_node s)\<lparr>n_raft := r1\<rparr>, Ok)"
      "serving e start (s\<lparr>sv_node := (sv_node s)\<lparr>n_raft := r1\<rparr>\<rparr>)"
      "todo (r_log r1) = todo (r_log ?r) @ [proposed data ?r]" "log_ents (r_log r1) = log_ents (r_log ?r) @ [proposed data ?r]"
      "l_committed (r_log r1) = l_committed (r_log ?r) + 1" "r_read_states r1 = r_read_states ?r"
      "\<exists>pr1. alone r1 pr1"
    using propose_serving[OF assms(1-3)] by metis
  let ?s1 = "s\<lparr>sv_node := (sv_node s)\<lparr>n_raft := r1\<rparr>\<rparr>"
  have "length (todo (r_log (n_raft (sv_node ?s1)))) + 2 \<le> k" using assms(6) r1(3) by simp
  from pull_ok[OF r1(2) _ this] obtain s' where s': "pull_ready_events e k ?s1 = Inr s'" "serving e start s'"
      "sv_jobs s' = sv_jobs s @ request_jobs (todo (r_log r1))" "sv_applied_index s' = l_committed (r_log r1)"
      "st_ents (sv_storage s') = log_ents (r_log r1)" "log_ents (r_log (n_raft (sv_node s'))) = log_ents (r_log r1)"
      "todo (r_log (n_raft (sv_node s'))) = []" "r_read_states (n_raft (sv_node s')) = []" "same_office r1 (n_raft (sv_node s'))"
    using r1(6) assms(4) by auto
  have "l_committed (r_log (n_raft (sv_node s'))) = l_committed (r_log r1)"
    using applied_all[OF s'(2,7)] s'(4) by simp
  then have "\<exists>pr'. alone (n_raft (sv_node s')) pr'"
    using r1(7) s'(6,9) by (auto simp: alone_def same_office_def log_last_def)
  have "request_jobs (todo (r_log r1)) = request_jobs (todo (r_log ?r)) @ [JobCommit data]"
    using r1(3) assms(5) by (simp add: request_jobs_append) (simp add: request_jobs_def proposed_def)
  then show ?thesis using r1(1,4,5) s'(1-5,7,8) \<open>\<exists>pr'. alone (n_raft (sv_node s')) pr'\<close> by (simp add: server_propose_def)
qed

text \<open>
  C13: A restart finds the log again. Let a server at work (\<open>serving\<close>: no membership change waiting to
  be applied, and the storage not yet compacted or replaced since the server was started) stop between
  two turns of its loop. Suppose that everything its log writer has handed to the stream with \<open>fwrite\<close>
  is in the file, which the code does not enforce since it never flushes the stream, and with it any
  initial part of what the writer still buffers. From the directory of the log and the snapshot files
  the server was started with, \<open>replay_WAL\<close> then succeeds and rebuilds a storage with exactly the same
  entries from the same position on, the snapshot it was started with, and a hard state with the last
  saved term and vote.
\<close>

theorem server_restart_recovers:
  assumes "serving e (walsnap_of (start_snapshot (ev_snap e) files)) s" and "good_codec (ev_wal e)"
    and "has_extension (se_ext (ev_snap e)) ''.wal''" and "wf_dir (ev_snap e) files"
    and "newest (ev_snap e) files \<noteq> None \<longrightarrow> 0 < s_index (start_snapshot (ev_snap e) files)"
    and "prefix reached (wal_file.wf_buffer (last (w_files (sv_wal s))))"
  shows "\<exists>st w files' lst data.
     replay_WAL e (Some [(wal_name 0 0, wf_content (last (w_files (sv_wal s))) @ reached)]) files = Inr (st, w, files', lst, data)
     \<and> wf_storage st \<and> st_base st = st_base (sv_storage s) \<and> st_ents st = st_ents (sv_storage s)
     \<and> ms_snapshot st = start_snapshot (ev_snap e) files \<and> same_vote (ms_hard_state st) (w_state (sv_wal s))"
  using replay_ok[OF assms(2-5) servingD(7)[OF assms(1)] assms(6)] by auto

text \<open>
  C38: A restart loses the keys of the snapshot. When the log holds an entry after the snapshot,
  \<open>replay_WAL\<close> keeps the last index instead of the data of the snapshot: the store of the restarted
  server is empty, although its applied position is that of the snapshot, so that no entry before it
  is applied again.
\<close>

theorem snapshot_keys_lost_on_restart:
  assumes "serving e (walsnap_of (start_snapshot (ev_snap e) files)) s" and "good_codec (ev_wal e)"
    and "has_extension (se_ext (ev_snap e)) ''.wal''" and "wf_dir (ev_snap e) files"
    and "0 < s_index (start_snapshot (ev_snap e) files)" and "st_ents (sv_storage s) \<noteq> []"
    and "RaftNode e i cluster (Some [(wal_name 0 0, wf_content (last (w_files (sv_wal s))))]) files = Inr s1"
  shows "\<exists>s2. schedule e s1 = Inr s2 \<and> rs_key_values (sv_store s2) = []
     \<and> sv_applied_index s2 = s_index (start_snapshot (ev_snap e) files)"
proof -
  have pos: "newest (ev_snap e) files \<noteq> None \<longrightarrow> 0 < s_index (start_snapshot (ev_snap e) files)" using assms(5) by simp
  have pre: "prefix [] (wal_file.wf_buffer (last (w_files (sv_wal s))))" by simp
  obtain st w files' lst where
      r: "replay_WAL e (Some [(wal_name 0 0, wf_content (last (w_files (sv_wal s))))]) files = Inr (st, w, files', lst, [])"
      "ms_snapshot st = start_snapshot (ev_snap e) files"
    using replay_ok[OF assms(2-4) pos servingD(7)[OF assms(1)] pre] assms(6) by auto
  have "sv_storage s1 = st" "sv_snap_data s1 = []" using restart_parts[OF assms(7) r(1)] by simp_all
  then show ?thesis using r(2) by (simp add: schedule_def RedisStore_def Let_def)
qed

lemma succ_eqI:
  assumes "unat a + 1 = unat (b :: u64)"
  shows "a + 1 = b"
proof -
  have "unat a + 1 < 2 ^ 64" unfolding assms by (rule unat_u64_bound)
  then show ?thesis using assms by (simp add: word_unat_eq_iff unat_add_1)
qed

lemma publish_then:
  assumes "\<forall>x\<in>set xs. e_type x = EntryNormal"
  shows "publish_entries e (xs @ ys) s = publish_entries e ys (s\<lparr>sv_jobs := sv_jobs s @ request_jobs xs,
     sv_applied_index := if xs = [] then sv_applied_index s else e_index (last xs)\<rparr>)"
  using assms by (induction xs arbitrary: s) (simp_all add: request_jobs_def)

text \<open>
  C39: A membership change that cannot be unpacked stops the server later, when it is the last entry
  of its batch. Let a batch of committed entries follow the applied position, all of them requests but
  the last one, which is such a change: \<open>publish_entries\<close> hands over the requests and skips the change
  with \<open>continue\<close>, past the line that moves the applied position, which stays at the entry before it.
  The next batch, whose first entry follows the change, is then not next to the applied position, and
  \<open>entries_to_apply\<close> ends the process.
\<close>

theorem bad_conf_change_stops_server:
  assumes "\<forall>x\<in>set xs. e_type x = EntryNormal" and "e_type x = EntryConfChange" and "ev_conf e (e_data x) = None"
    and "contig (unat (sv_applied_index s) + 1) (xs @ [x] @ y # ys)"
  shows "\<exists>s'. apply_committed e (xs @ [x]) s = Inr s' \<and> sv_jobs s' = sv_jobs s @ request_jobs xs
     \<and> sv_applied_index s' = e_index x - 1 \<and> (\<exists>msg. apply_committed e (y # ys) s' = Inl (Fatal msg))"
proof -
  let ?a = "if xs = [] then sv_applied_index s else e_index (last xs)"
  let ?s = "s\<lparr>sv_jobs := sv_jobs s @ request_jobs xs, sv_applied_index := ?a\<rparr>"
  have c: "contig (unat (sv_applied_index s) + 1) xs" "unat (e_index x) = unat (sv_applied_index s) + 1 + length xs"
      "unat (e_index y) = unat (e_index x) + 1"
    using assms(4) by (simp_all add: contig_append)
  have room: "unat (sv_applied_index s) + 1 < 2 ^ 64" using c(2,3) unat_u64_bound[of "e_index y"] by simp
  have "contig (unat (sv_applied_index s) + 1) (xs @ [x])" using assms(4) by (simp add: contig_append)
  then have "entries_to_apply (xs @ [x]) (sv_applied_index s) = Inr (xs @ [x])"
    using entries_to_apply_ok[OF _ _ _ room] by simp
  moreover have "publish_entries e (xs @ [x]) s = Inr (?s, True)"
    using assms(2,3) by (simp add: publish_then[OF assms(1)] publish_conf_change_def)
  ultimately have run: "apply_committed e (xs @ [x]) s = Inr ?s" by (simp add: apply_committed_def)
  have a: "unat ?a + 1 = unat (e_index x)"
  proof (cases "xs = []")
    case False
    then have "unat (e_index (last xs)) = unat (sv_applied_index s) + 1 + (length xs - 1)"
      using contig_index[OF c(1), of "length xs - 1"] by (simp add: last_conv_nth)
    then show ?thesis using False c(2) by (simp add: Suc_leI)
  qed (use c(2) in simp)
  then have a1: "?a + 1 = e_index x" by (rule succ_eqI)
  then have "?a = e_index x - 1" by (simp only: a1 [symmetric] add_diff_cancel_right')
  moreover have "?a + 1 < e_index y" using c(3) unfolding a1 by (simp add: word_less_nat_alt)
  then have "\<exists>msg. apply_committed e (y # ys) ?s = Inl (Fatal msg)"
    by (simp add: apply_committed_def entries_to_apply_def [of "y # ys"])
  ultimately show ?thesis using run by (intro exI [of _ ?s]) simp
qed

section \<open>Witnesses\<close>

definition sample_server_env :: server_env where
  "sample_server_env = \<lparr>ev_wal = sample_codec, ev_snap = sample_env, ev_store = sample_store_codec, ev_ser = (\<lambda>_. []),
     ev_conf = (\<lambda>_. None), ev_draws = (\<lambda>_. 3), ev_ftell = int\<rparr>"

definition sample_server :: "raft \<Rightarrow> wal_item list \<Rightarrow> u64 \<Rightarrow> server" where
  "sample_server r disk i = \<lparr>sv_id = 1, sv_peers = [''127.0.0.1:7000''], sv_last_index = 0, sv_conf_state = ConfState,
     sv_snapshot_index = i, sv_applied_index = i,
     sv_node = \<lparr>n_raft = r, n_prev_soft_state = soft_state_of r, n_prev_hard_state = HardState\<rparr>,
     sv_transport = TransportImpl 1,
     sv_outbox = [], sv_store = fresh_store, sv_jobs = [], sv_answers = [], sv_snap_data = [], sv_snap_count = defaultSnapCount,
     sv_snap_files = [], sv_wal = sample_wal disk []\<rparr>"

lemma sample_server_simps [simp]:
  "sv_node (sample_server r disk i) = \<lparr>n_raft = r, n_prev_soft_state = soft_state_of r, n_prev_hard_state = HardState\<rparr>"
  "sv_wal (sample_server r disk i) = sample_wal disk []" "sv_applied_index (sample_server r disk i) = i"
  "sv_snapshot_index (sample_server r disk i) = i" "sv_snap_count (sample_server r disk i) = defaultSnapCount"
  "sv_jobs (sample_server r disk i) = []" "sv_storage (sample_server r disk i) = l_storage (r_log r)"
  by (simp_all add: sample_server_def sv_storage_def)

lemma sample_server_env_simps [simp]:
  "ev_wal sample_server_env = sample_codec" "ev_snap sample_server_env = sample_env" "ev_conf sample_server_env d = None"
  by (simp_all add: sample_server_env_def)

lemma sample_mirrors:
  assumes "wf_storage st" and "st_base st = unat (ws_index start)" and "ItemSnap s \<in> set disk"
    and "\<forall>it\<in>set disk. fits sample_codec it \<and> matches start it"
    and "rp_ents (replayed start disk) = map Some (st_ents st)" and "same_vote (rp_hs (replayed start disk)) HardState"
  shows "mirrors sample_codec start (sample_wal disk []) st"
  using assms by (intro mirrorsI [OF sample_wal_has]) (simp_all add: sample_wal_def)

text \<open>A node that is its own cluster and has just been elected.\<close>

definition alone_config :: config where
  "alone_config = sample_config\<lparr>c_peers := [1]\<rparr>"

definition alone_raft :: raft where
  "alone_raft = projr (Raft alone_config (\<lambda>_. 3))"

definition alone_leader :: raft where
  "alone_leader = after hup alone_raft"

abbreviation alone_server :: server where
  "alone_server \<equiv> sample_server alone_leader [ItemSnap wal_start] 0"

lemma wf_alone_leader: "wf_raft alone_leader"
proof -
  have "\<not> isl (Raft alone_config (\<lambda>_. 3))" by code_simp
  then have "Raft alone_config (\<lambda>_. 3) = Inr alone_raft" by (simp add: alone_raft_def)
  moreover have "wf_config alone_config (\<lambda>_. 3)" using wf_sample_config by (simp add: alone_config_def wf_config_def)
  ultimately have w: "wf_raft alone_raft" using Raft_wf by blast
  have "r_term alone_raft = 0 \<and> log_last (r_log alone_raft) = 0" by code_simp
  then have "room hup alone_raft" by (simp add: room_def sample_msgs)
  moreover have "\<not> isl (step hup alone_raft)" by code_simp
  ultimately show ?thesis
    using raft_run_wf[OF after_run(1)[OF idle sample_msgs(1)] w] by (simp add: alone_leader_def)
qed

lemma alone_leader_facts:
  "l_storage (r_log alone_leader) = MemoryStorage" "u_snapshot (l_unstable (r_log alone_leader)) = None"
  "l_applied (r_log alone_leader) = 0" "l_committed (r_log alone_leader) = 1" "applied_pos (r_log alone_leader) = 0"
  "todo (r_log alone_leader) = [Entry\<lparr>e_term := 1, e_index := 1\<rparr>]" "log_ents (r_log alone_leader) = [Entry\<lparr>e_term := 1, e_index := 1\<rparr>]"
  "log_last (r_log alone_leader) = 1" "r_read_states alone_leader = []"
  by (code_simp, code_simp, code_simp, code_simp, code_simp, code_simp, code_simp, code_simp, code_simp)

lemma alone_serving: "serving sample_server_env wal_start alone_server"
proof -
  have "mirrors sample_codec wal_start (sample_wal [ItemSnap wal_start] []) MemoryStorage"
    by (rule sample_mirrors [OF wf_MemoryStorage, of _ wal_start])
      (simp_all add: sample_fits MemoryStorage_def st_base_def st_ents_def Entry_def wal_start_def replayed_def same_vote_def)
  then show ?thesis
    using wf_alone_leader
    by (simp add: serving_def Let_def alone_leader_facts wf_node_def defaultSnapCount_def sample_fits Entry_def)
qed

theorem server_applies_committed_witness:
  "\<exists>s'. pull_ready_events sample_server_env 3 alone_server = Inr s' \<and> sv_applied_index s' = 1 \<and> sv_jobs s' = []
     \<and> length (st_ents (sv_storage s')) = 1"
  using server_applies_committed[OF alone_serving, of 3] by (auto simp: alone_leader_facts request_jobs_def Entry_def)

theorem single_node_serves_witness:
  "\<exists>s'. server_propose sample_server_env 4 [7, 8] alone_server = Inr (s', Ok) \<and> sv_jobs s' = [JobCommit [7, 8]]
     \<and> sv_applied_index s' = 2 \<and> length (st_ents (sv_storage s')) = 2"
proof -
  have "r_state alone_leader = Leader \<and> map fst (r_prs alone_leader) = [1] \<and> r_id alone_leader = 1 \<and> r_learner_prs alone_leader = []
      \<and> r_lead_transferee alone_leader = 0 \<and> r_term alone_leader = 1 \<and> pr_match (snd (hd (r_prs alone_leader))) = 1
      \<and> r_uncommitted_size alone_leader = 0"
    by code_simp
  moreover from this obtain pr where "r_prs alone_leader = [(1, pr)]" by auto
  ultimately have "alone alone_leader pr" "r_uncommitted_size alone_leader = 0"
    by (simp_all add: alone_def alone_leader_facts)
  moreover from this(2) have "can_save sample_server_env [7, 8] alone_server"
    by (simp add: can_save_def alone_leader_facts increase_uncommitted_size_def defaultSnapCount_def sample_fits proposed_def Let_def)
  ultimately show ?thesis
    using single_node_serves[OF alone_serving, of pr "[7, 8]" 4] by (auto simp: alone_leader_facts request_jobs_def Entry_def)
qed

theorem server_restart_recovers_witness:
  "\<exists>st w files' lst data. replay_WAL sample_server_env
      (Some [(wal_name 0 0, wf_content (last (w_files (sv_wal alone_server))))]) [] = Inr (st, w, files', lst, data)
     \<and> wf_storage st \<and> st_ents st = []"
proof -
  have "newest sample_env [] = None" by (simp add: newest_def get_snap_names_def)
  moreover from this have "walsnap_of (start_snapshot sample_env []) = wal_start"
    by (simp add: start_snapshot_def walsnap_of_def wal_start_def Snapshot_def)
  moreover have "wf_dir sample_env []" by (simp add: wf_dir_def)
  moreover have "has_extension (se_ext sample_env) ''.wal''" using suffix_of_wal by (simp add: sample_env_ok(3))
  ultimately show ?thesis
    using server_restart_recovers[of sample_server_env "[]" alone_server "[]"] alone_serving good_sample_codec
    by (auto simp: alone_leader_facts MemoryStorage_def st_ents_def)
qed

text \<open>A server that was started from a snapshot and has one entry after it.\<close>

definition snap_storage :: mem_storage where
  "snap_storage = \<lparr>ms_hard_state = HardState, ms_snapshot = sample_snapshot,
     ms_entries = [Entry\<lparr>e_term := 2, e_index := 5\<rparr>, Entry\<lparr>e_term := 2, e_index := 6\<rparr>]\<rparr>"

definition snap_raft :: raft where
  "snap_raft = projr (Raft (alone_config\<lparr>c_storage := Some snap_storage\<rparr>) (\<lambda>_. 3))"

definition snap_dir :: directory where
  "snap_dir = [(snap_name 2 5, saved_image sample_env sample_snapshot)]"

abbreviation snap_server :: server where
  "snap_server \<equiv> sample_server snap_raft [ItemSnap \<lparr>ws_index = 5, ws_term = 2\<rparr>, ItemEntry (Entry\<lparr>e_term := 2, e_index := 6\<rparr>)] 5"

lemma wf_snap_storage: "wf_storage snap_storage"
  by (simp add: snap_storage_def wf_storage_def Entry_def)

lemma wf_snap_raft: "wf_raft snap_raft"
proof -
  have "\<not> isl (Raft (alone_config\<lparr>c_storage := Some snap_storage\<rparr>) (\<lambda>_. 3))" by code_simp
  then have "Raft (alone_config\<lparr>c_storage := Some snap_storage\<rparr>) (\<lambda>_. 3) = Inr snap_raft" by (simp add: snap_raft_def)
  moreover have "wf_config (alone_config\<lparr>c_storage := Some snap_storage\<rparr>) (\<lambda>_. 3)"
    using wf_sample_config wf_snap_storage by (simp add: alone_config_def wf_config_def)
  ultimately show ?thesis using Raft_wf by blast
qed

lemma snap_raft_facts:
  "l_storage (r_log snap_raft) = snap_storage" "u_snapshot (l_unstable (r_log snap_raft)) = None"
  "l_applied (r_log snap_raft) = 5" "l_committed (r_log snap_raft) = 5" "applied_pos (r_log snap_raft) = 5"
  "todo (r_log snap_raft) = []" "log_ents (r_log snap_raft) = [Entry\<lparr>e_term := 2, e_index := 6\<rparr>]"
  by (code_simp, code_simp, code_simp, code_simp, code_simp, code_simp, code_simp)

lemma snap_serving: "serving sample_server_env \<lparr>ws_index = 5, ws_term = 2\<rparr> snap_server"
proof -
  have "mirrors sample_codec \<lparr>ws_index = 5, ws_term = 2\<rparr>
      (sample_wal [ItemSnap \<lparr>ws_index = 5, ws_term = 2\<rparr>, ItemEntry (Entry\<lparr>e_term := 2, e_index := 6\<rparr>)] []) snap_storage"
    by (rule sample_mirrors [OF wf_snap_storage, of _ "\<lparr>ws_index = 5, ws_term = 2\<rparr>"])
      (simp_all add: sample_fits snap_storage_def st_base_def st_ents_def Entry_def replayed_def same_vote_def vec_resize_def)
  then show ?thesis
    using wf_snap_raft
    by (simp add: serving_def Let_def snap_raft_facts wf_node_def defaultSnapCount_def sample_fits Entry_def)
qed

lemma snap_dir_start: "start_snapshot sample_env snap_dir = sample_snapshot" "wf_dir sample_env snap_dir"
  "newest sample_env snap_dir \<noteq> None"
proof -
  have "se_ext sample_env (snap_name 2 5) = ''.snap''" using ext_numbered[OF sample_ext(1)] by (simp add: snap_name_def sample_env_ok(3))
  then have "newest sample_env snap_dir = Some (snap_name 2 5)" "intact sample_env snap_dir (snap_name 2 5) = Some sample_snapshot"
    using decode_saved[OF sample_env_ok(2)] by (simp_all add: newest_def get_snap_names_def snap_dir_def intact_def)
  then show "start_snapshot sample_env snap_dir = sample_snapshot" "newest sample_env snap_dir \<noteq> None"
    by (simp_all add: start_snapshot_def)
  show "wf_dir sample_env snap_dir"
    using ext_broken[OF sample_ext(2), of "''.snap''"] by (simp add: wf_dir_def snap_dir_def sample_env_ok(3) snap_name_def)
qed

lemma snap_restart:
  "\<exists>s1. RaftNode sample_server_env 1 ''127.0.0.1:7000''
     (Some [(wal_name 0 0, wf_content (last (w_files (sv_wal snap_server))))]) snap_dir = Inr s1"
proof -
  let ?start = "\<lparr>ws_index = 5, ws_term = 2\<rparr>"
  let ?its = "[ItemSnap ?start, ItemEntry (Entry\<lparr>e_term := 2, e_index := 6\<rparr>)]"
  have content: "wf_content (last (w_files (sv_wal snap_server))) = item_bytes sample_codec ?its" by (simp add: sample_wal_def)
  obtain w where rd: "wal_read_all sample_codec HardState [] (reopened int (item_bytes sample_codec ?its) 0 ?start)
      = Inr (w, rp_hs (replayed ?start ?its), rp_ents (replayed ?start ?its), Ok)"
    using read_reopened[OF good_sample_codec, of ?its ?start ?start "[]" int 0] by (auto simp: sample_fits Entry_def)
  have rp: "rp_hs (replayed ?start ?its) = HardState" "rp_ents (replayed ?start ?its) = [Some (Entry\<lparr>e_term := 2, e_index := 6\<rparr>)]"
    by (simp_all add: replayed_def Entry_def vec_resize_def)
  have op: "open_WAL sample_server_env sample_snapshot (Some [(wal_name 0 0, item_bytes sample_codec ?its)])
      = Inr (reopened int (item_bytes sample_codec ?its) 0 ?start)"
    using open_single[OF suffix_of_wal] by (simp add: open_WAL_def sample_env_ok(3) sample_server_env_def sample_snapshot_def)
  obtain files' status where ld: "load sample_env Snapshot snap_dir = Inr (files', sample_snapshot, status)" "is_ok status"
    using load_start[OF snap_dir_start(2)] snap_dir_start(1,3) by auto
  have st: "storage_append [Entry\<lparr>e_term := 2, e_index := 6\<rparr>]
      (storage_set_hard_state HardState (fst (storage_apply_snapshot sample_snapshot MemoryStorage))) = Inr (snap_storage, Ok)"
    by code_simp
  have "replay_WAL sample_server_env (Some [(wal_name 0 0, item_bytes sample_codec ?its)]) snap_dir = Inr (snap_storage, w, files', 6, [])"
    using ld op rd rp st by (simp add: replay_WAL_def deref_def)
  moreover have "is_ok (snd (config_validate (server_config 1 snap_storage)))
      \<and> \<not> isl (restart_node (fst (config_validate (server_config 1 snap_storage))) (\<lambda>_. 3))" by code_simp
  then obtain n where "is_ok (snd (config_validate (server_config 1 snap_storage)))"
      "restart_node (fst (config_validate (server_config 1 snap_storage))) (\<lambda>_. 3) = Inr n"
    by (cases "restart_node (fst (config_validate (server_config 1 snap_storage))) (\<lambda>_. 3)") auto
  ultimately show ?thesis
    unfolding content by (simp add: RaftNode_def Let_def split_def sample_server_env_def)
qed

theorem snapshot_keys_lost_on_restart_witness:
  "\<exists>s1 s2. RaftNode sample_server_env 1 ''127.0.0.1:7000''
       (Some [(wal_name 0 0, wf_content (last (w_files (sv_wal snap_server))))]) snap_dir = Inr s1
     \<and> schedule sample_server_env s1 = Inr s2 \<and> s_data (start_snapshot sample_env snap_dir) = [7]
     \<and> rs_key_values (sv_store s2) = [] \<and> sv_applied_index s2 = 5"
proof -
  let ?wal = "Some [(wal_name 0 0, wf_content (last (w_files (sv_wal snap_server))))]"
  obtain s1 where s1: "RaftNode sample_server_env 1 ''127.0.0.1:7000'' ?wal snap_dir = Inr s1" using snap_restart by blast
  have "walsnap_of (start_snapshot sample_env snap_dir) = \<lparr>ws_index = 5, ws_term = 2\<rparr>" "s_data sample_snapshot = [7]"
      "s_index sample_snapshot = 5"
    by (simp_all add: snap_dir_start walsnap_of_def sample_snapshot_def)
  then show ?thesis
    using snapshot_keys_lost_on_restart[OF _ _ _ _ _ _ s1] snap_serving good_sample_codec suffix_of_wal s1
    by (simp add: snap_dir_start sample_env_ok(3) snap_raft_facts st_ents_def snap_storage_def)
qed

theorem bad_conf_change_stops_server_witness:
  "\<exists>s'. apply_committed sample_server_env [Entry\<lparr>e_index := 1, e_data := [9]\<rparr>, Entry\<lparr>e_type := EntryConfChange, e_index := 2\<rparr>] alone_server = Inr s'
   \<and> sv_jobs s' = [JobCommit [9]] \<and> (\<exists>msg. apply_committed sample_server_env [Entry\<lparr>e_index := 3\<rparr>] s' = Inl (Fatal msg))"
  using bad_conf_change_stops_server[of "[Entry\<lparr>e_index := 1, e_data := [9]\<rparr>]" "Entry\<lparr>e_type := EntryConfChange, e_index := 2\<rparr>"
      sample_server_env alone_server "Entry\<lparr>e_index := 3\<rparr>" "[]"]
  by (auto simp: Entry_def request_jobs_def)

end
