(* ===== verification/Raft_Calm.thy ===== *)
theory Raft_Calm
  imports Raft_Runs
begin

text \<open>
  Most operations of a node only send messages, move the commit position and keep books. The locale
  \<open>calm\<close> states what it takes for a preorder on nodes to hold across all of them: it covers fields
  that neither the log nor elections depend on, the flow control of a receiver, an acknowledgement
  that is allowed by \<open>may\<close>, sending, moving the commit position and stepping down. Inside it every
  handler of the leader but the one for proposals, and the heartbeat clock, are shown to respect such
  a preorder. The locale \<open>calm_members\<close> adds the membership changes, for preorders that do not look
  at the progress of the other nodes.
\<close>

definition electing :: "raft \<Rightarrow> raft_state \<times> u64 \<times> u64 \<times> (u64 \<times> bool) list" where
  "electing r = (r_state r, r_term r, r_vote r, r_votes r)"

locale calm =
  fixes R :: "raft \<Rightarrow> raft \<Rightarrow> bool"
    and may :: "u64 \<Rightarrow> u64 \<Rightarrow> bool"
  assumes same: "r_id r' = r_id r \<Longrightarrow> r_msgs r' = r_msgs r \<Longrightarrow> r_log r' = r_log r \<Longrightarrow> electing r' = electing r
      \<Longrightarrow> r_prs r' = r_prs r \<Longrightarrow> r_learner_prs r' = r_learner_prs r \<Longrightarrow> R r r'"
    and trans: "R r s \<Longrightarrow> R s t \<Longrightarrow> R r t"
    and put: "get_progress r i = Some p \<Longrightarrow> pr_match q = pr_match p \<or> may i (pr_match q) \<Longrightarrow> R r (put_progress i q r)"
    and send_calm: "send m r = Inr r' \<Longrightarrow> m_type m \<notin> {MsgVote, MsgVoteResp, MsgApp, MsgHeartbeat, MsgSnap}
      \<Longrightarrow> m_type m = MsgAppResp \<longrightarrow> m_index m = 0 \<Longrightarrow> R r r'"
    and send_heartbeat_calm: "send_heartbeat i c r = Inr r' \<Longrightarrow> i \<noteq> r_id r \<Longrightarrow> R r r'"
    and maybe_send_append_calm: "maybe_send_append to e r = Inr (r', b) \<Longrightarrow> R r r'"
    and maybe_commit_calm: "maybe_commit r = Inr (r', b) \<Longrightarrow> R r r'"
    and become_follower_calm: "become_follower (r_term r) lead r = Inr r' \<Longrightarrow> R r r'"
begin

lemma refl [simp]: "R r r"
  by (simp add: same)

lemma fields [simp]:
  "R r (r\<lparr>r_read_states := x\<rparr>)" "R r (r\<lparr>r_read_only := ro\<rparr>)" "R r (r\<lparr>r_pending_conf_index := i\<rparr>)"
  "R r (r\<lparr>r_lead_transferee := i\<rparr>)" "R r (r\<lparr>r_election_elapsed := n\<rparr>)" "R r (r\<lparr>r_heartbeat_elapsed := n\<rparr>)"
  "R r (r\<lparr>r_uncommitted_size := u\<rparr>)" "R r (r\<lparr>r_election_elapsed := n, r_lead := i\<rparr>)"
  "R r (r\<lparr>r_election_elapsed := n, r_lead_transferee := i\<rparr>)" "R r (r\<lparr>r_is_learner := c\<rparr>)"
  by (simp_all add: same electing_def)

lemma put_match: "get_progress r i = Some p \<Longrightarrow> pr_match q = pr_match p \<Longrightarrow> R r (put_progress i q r)"
  by (rule put [OF _ disjI1])

lemma rfold_calm:
  assumes "rfold f xs r = Inr r'" and "\<And>x s t. f x s = Inr t \<Longrightarrow> R s t"
  shows "R r r'"
  by (rule rfold_invariant [where P = "R r", OF assms(1)]) (auto intro: trans assms(2))

lemma rbind_calm:
  assumes "rbind x f = Inr t" and "\<And>s. x = Inr s \<Longrightarrow> R r s" and "\<And>s. f s = Inr t \<Longrightarrow> R s t"
  shows "R r t"
  using assms by (auto elim!: rbind_InrE intro: trans)

lemma calm_if:
  assumes "(if b then x else y) = Inr t" and "\<And>t. x = Inr t \<Longrightarrow> R r t" and "\<And>t. y = Inr t \<Longrightarrow> R r t"
  shows "R r t"
  using assms by (auto split: if_splits)

lemma send_append_calm: "send_append to r = Inr r' \<Longrightarrow> R r r'"
  by (auto simp: send_append_def rbind_Inr_iff intro: maybe_send_append_calm)

lemma send_append_loop_calm: "send_append_loop n to r = Inr r' \<Longrightarrow> R r r'"
proof (induction n arbitrary: r)
  case (Suc n)
  then show ?case
    by (auto simp: rbind_Inr_iff intro: trans maybe_send_append_calm split: if_split_asm)
qed simp

lemma for_others_calm:
  assumes "for_others f r = Inr r'" and "\<And>i s t. f i s = Inr t \<Longrightarrow> i \<noteq> r_id s \<Longrightarrow> R s t"
  shows "R r r'"
  by (rule rfold_calm [OF assms(1) [unfolded for_others_def]]) (auto intro: assms(2) split: if_split_asm)

lemma bcast_calm:
  "bcast_append r = Inr r' \<Longrightarrow> R r r'"
  "bcast_heartbeat_with_ctx ctx r = Inr r' \<Longrightarrow> R r r'"
  "bcast_heartbeat r = Inr r' \<Longrightarrow> R r r'"
proof -
  show "bcast_append r = Inr r' \<Longrightarrow> R r r'"
    unfolding bcast_append_def by (erule for_others_calm) (rule send_append_calm)
  show "bcast_heartbeat_with_ctx ctx r = Inr r' \<Longrightarrow> R r r'" for ctx
    unfolding bcast_heartbeat_with_ctx_def by (erule for_others_calm) (rule send_heartbeat_calm)
  then show "bcast_heartbeat r = Inr r' \<Longrightarrow> R r r'" by (simp add: bcast_heartbeat_def)
qed

lemma send_timeout_now_calm: "send_timeout_now to r = Inr r' \<Longrightarrow> R r r'"
  by (auto simp: send_timeout_now_def elim!: send_calm)

lemma step_lower_term_calm: "step_lower_term m r = Inr r' \<Longrightarrow> R r r'"
  by (auto simp: step_lower_term_def rbind_Inr_iff Message_def elim!: send_calm split: if_split_asm)

lemma step_leader_read_index_calm: "step_leader_read_index m r = Inr r' \<Longrightarrow> R r r'"
  by (auto simp: step_leader_read_index_def rbind_Inr_iff Let_def elim!: send_calm
      dest!: bcast_calm(2) intro: trans [OF fields(2)]
      split: if_split_asm read_only_option.split_asm)

lemma put_append_calm:
  "send_append to (put_progress i q r) = Inr r' \<Longrightarrow> get_progress r i = Some p \<Longrightarrow> pr_match q = pr_match p \<Longrightarrow> R r r'"
  using trans[OF put_match send_append_calm] .

lemma step_leader_app_resp_calm:
  assumes "step_leader_app_resp m pr r = Inr r'" and "get_progress r (m_from m) = Some pr"
    and "\<not> m_reject m \<Longrightarrow> may (m_from m) (m_index m)"
  shows "R r r'"
proof -
  have rej: "R r r'" if "step_leader_app_rejected m (pr\<lparr>pr_recent_active := True\<rparr>) r = Inr r'"
    using that assms(2) by (auto simp: step_leader_app_rejected_def split_def Let_def maybe_decreases_fields become_probe_fields
        elim!: put_append_calm intro: put_match split: if_split_asm)
  have ack: "R r r'" if a: "step_leader_app_acked m (pr\<lparr>pr_recent_active := True\<rparr>) r = Inr r'" and "\<not> m_reject m"
  proof (cases "snd (maybe_update (m_index m) (pr\<lparr>pr_recent_active := True\<rparr>))")
    case True
    let ?m = "m_from m" and ?p = "pr\<lparr>pr_recent_active := True\<rparr>"
    note d = step_leader_app_acked_def Let_def split_def
    obtain p2 where h1: "progress_acked (m_index m) (fst (maybe_update (m_index m) ?p)) = Inr p2"
      using a True by (auto simp: d elim: rbind_InrE)
    obtain r1 c where h2: "maybe_commit (put_progress ?m p2 r) = Inr (r1, c)"
      using a True h1 by (auto simp: d elim: rbind_InrE)
    obtain r2 where h3: "(if c then bcast_append r1 else if is_paused ?p then send_append ?m r1 else Inr r1) = Inr r2"
      using a True h1 h2 by (auto simp: d cong: if_cong elim: rbind_InrE)
    obtain r3 where h4: "send_append_loop (log_fuel (r_log r2)) ?m r2 = Inr r3"
      using a True h1 h2 h3 by (simp add: d cong: if_cong) (auto elim: rbind_InrE)
    have h5: "r' = r3 \<or> send_timeout_now ?m r3 = Inr r'"
      using a True h1 h2 h3 h4 by (simp add: d rbind_Inr_iff split: if_split_asm cong: if_cong)
    have "pr_match p2 = m_index m"
      using progress_acked_good(1)[OF h1] maybe_update_fields(1,4)[of "m_index m" ?p] True by simp
    then have "R r (put_progress ?m p2 r)" using assms(2,3) that(2) by (intro put) simp_all
    then have "R r r1" by (rule trans [OF _ maybe_commit_calm [OF h2]])
    moreover have "R r1 r2" using h3 bcast_calm(1) send_append_calm by (auto split: if_splits)
    moreover have "R r2 r3" by (rule send_append_loop_calm [OF h4])
    moreover have "R r3 r'" using h5 send_timeout_now_calm by auto
    ultimately show ?thesis by (blast intro: trans)
  next
    case False
    then have "pr_match (fst (maybe_update (m_index m) (pr\<lparr>pr_recent_active := True\<rparr>))) = pr_match pr"
      using maybe_update_fields(1,4)[of "m_index m" "pr\<lparr>pr_recent_active := True\<rparr>"] by simp
    then show ?thesis using a False assms(2) by (auto simp: step_leader_app_acked_def split_def Let_def intro: put_match)
  qed
  show ?thesis using assms(1) rej ack by (auto simp: step_leader_app_resp_def Let_def split: if_split_asm)
qed

lemma answer_read_calm: "answer_read rs r = Inr r' \<Longrightarrow> R r r'"
  by (auto simp: answer_read_def Let_def rbind_Inr_iff elim!: send_calm split: if_splits)

lemma step_leader_heartbeat_resp_calm:
  assumes "step_leader_heartbeat_resp m pr r = Inr r'" and "get_progress r (m_from m) = Some pr"
  shows "R r r'"
proof -
  define pr1 where "pr1 = resume (pr\<lparr>pr_recent_active := True\<rparr>)"
  note d = step_leader_heartbeat_resp_def Let_def pr1_def [symmetric]
  obtain pr2 where pr2: "(if pr_state pr1 = ProgressStateReplicate \<and> inflights_is_full (pr_inflights pr1)
      then rbind (inflights_free_first_one (pr_inflights pr1)) (\<lambda>f. Inr (pr1\<lparr>pr_inflights := f\<rparr>))
      else Inr pr1) = Inr pr2"
    using assms(1) unfolding d by (auto elim: rbind_InrE)
  obtain lst where lst: "log_last_index (r_log r) = Inr lst"
    using assms(1) pr2 unfolding d by (simp del: rbind_simps(2)) (auto elim: rbind_InrE)
  obtain r1 where r1: "(if pr_match pr2 < lst then send_append (m_from m) (put_progress (m_from m) pr2 r)
             else Inr (put_progress (m_from m) pr2 r)) = Inr r1"
    using assms(1) pr2 lst unfolding d by (simp del: rbind_simps(2)) (auto elim: rbind_InrE)
  have "pr_match pr2 = pr_match pr" using pr2 by (auto simp: pr1_def resume_def rbind_Inr_iff split: if_splits)
  then have a1: "R r r1" using r1 assms(2) by (auto intro: put_append_calm put_match split: if_splits)
  have "(\<exists>ro. r' = r1\<lparr>r_read_only := ro\<rparr>) \<or> r' = r1 \<or> (\<exists>ro rss. rfold answer_read rss (r1\<lparr>r_read_only := ro\<rparr>) = Inr r')"
    using assms(1) pr2 lst r1 unfolding d by (auto simp: split_def rbind_Inr_iff split: if_split_asm)
  moreover have "R r1 r'" if "rfold answer_read rss (r1\<lparr>r_read_only := ro\<rparr>) = Inr r'" for ro rss
    using trans[OF fields(2) rfold_calm [OF that answer_read_calm]] .
  ultimately show ?thesis using a1 by (auto intro: trans)
qed

lemma step_leader_transfer_calm:
  assumes "step_leader_transfer m pr r = Inr r'"
  shows "R r r'"
proof -
  define r1 where "r1 = (if r_lead_transferee r \<noteq> 0 then abort_leader_transfer r else r)"
  have a1: "R r r1" by (simp add: r1_def abort_leader_transfer_def)
  let ?r2 = "r1\<lparr>r_election_elapsed := 0, r_lead_transferee := m_from m\<rparr>"
  have "r' = r \<or> r' = r1 \<or> send_timeout_now (m_from m) ?r2 = Inr r' \<or> send_append (m_from m) ?r2 = Inr r'"
    using assms(1) unfolding step_leader_transfer_def Let_def r1_def [symmetric]
    by (auto elim!: rbind_InrE split: if_split_asm)
  then show ?thesis
    using a1 trans[OF a1 trans [OF fields(9)], of _ _ r']
      send_timeout_now_calm[of "m_from m" ?r2 r'] send_append_calm[of "m_from m" ?r2 r'] by auto
qed

lemma step_leader_calm:
  assumes "step_leader m r = Inr (r', s)" and "m_type m \<noteq> MsgProp"
    and "m_type m = MsgAppResp \<Longrightarrow> \<not> m_reject m \<Longrightarrow> may (m_from m) (m_index m)"
  shows "R r r'"
proof -
  have p: "R r (step_leader_snap_status m pr r)" "R r (step_leader_unreachable m pr r)"
    if "get_progress r (m_from m) = Some pr" for pr
    using that by (simp_all add: step_leader_snap_status_def step_leader_unreachable_def put_match become_probe_fields
        set_pause_def snapshot_failure_def)
  have "r' = r \<or> bcast_heartbeat r = Inr r' \<or> become_follower (r_term r) 0 r = Inr r'
    \<or> step_leader_read_index m r = Inr r'
    \<or> (\<exists>pr. get_progress r (m_from m) = Some pr
         \<and> ((m_type m = MsgAppResp \<and> step_leader_app_resp m pr r = Inr r')
         \<or> step_leader_heartbeat_resp m pr r = Inr r' \<or> r' = step_leader_snap_status m pr r
         \<or> r' = step_leader_unreachable m pr r \<or> step_leader_transfer m pr r = Inr r'))"
    using assms(1,2)
    by (auto simp: step_leader_def finish_Inr_iff split: if_split_asm option.split_asm)
  moreover have "R r r'" if "step_leader_app_resp m pr r = Inr r'" "get_progress r (m_from m) = Some pr" "m_type m = MsgAppResp" for pr
    by (rule step_leader_app_resp_calm [OF that(1,2) assms(3) [OF that(3)]])
  ultimately show ?thesis
    by (elim disjE exE conjE)
      (auto intro: p step_leader_heartbeat_resp_calm step_leader_transfer_calm
        bcast_calm(3) become_follower_calm step_leader_read_index_calm)
qed

lemma timer_step_calm:
  assumes "step (Message\<lparr>m_from := i, m_type := t\<rparr>) r = Inr (r', s)" and "t = MsgCheckQuorum \<or> t = MsgBeat"
  shows "R r r'"
proof -
  let ?m = "Message\<lparr>m_from := i, m_type := t\<rparr>"
  have "step_role ?m r = Inr (r', s)" using assms by (auto simp: step_def step_dispatch_def Message_def)
  then show ?thesis
    using assms(2) step_leader_calm[of ?m r r' s]
    by (auto simp: step_role_def step_follower_def step_candidate_def Message_def split: option.split_asm step_fun.split_asm)
qed

lemma tick_heartbeat_calm:
  assumes "tick_heartbeat r = Inr r'"
  shows "R r r'"
proof (rule rbind_calm [OF assms [unfolded tick_heartbeat_def Let_def]], goal_cases)
  case (1 s)
  let ?r = "r\<lparr>r_heartbeat_elapsed := r_heartbeat_elapsed r + 1, r_election_elapsed := r_election_elapsed r + 1\<rparr>"
  have r: "R r ?r" "R r (?r\<lparr>r_election_elapsed := 0\<rparr>)" by (simp_all add: same electing_def)
  show ?case
  proof (rule calm_if [OF 1])
    fix t
    assume "rbind (if r_check_quorum (?r\<lparr>r_election_elapsed := 0\<rparr>)
        then rbind (step (Message\<lparr>m_from := r_id (?r\<lparr>r_election_elapsed := 0\<rparr>), m_type := MsgCheckQuorum\<rparr>)
               (?r\<lparr>r_election_elapsed := 0\<rparr>)) (\<lambda>(r3, _). Inr r3)
        else Inr (?r\<lparr>r_election_elapsed := 0\<rparr>))
        (\<lambda>r3. Inr (if r_state r3 = Leader \<and> r_lead_transferee r3 \<noteq> 0 then abort_leader_transfer r3 else r3)) = Inr t"
    then show "R r t"
    proof (rule rbind_calm)
      fix u
      assume "(if r_check_quorum (?r\<lparr>r_election_elapsed := 0\<rparr>)
        then rbind (step (Message\<lparr>m_from := r_id (?r\<lparr>r_election_elapsed := 0\<rparr>), m_type := MsgCheckQuorum\<rparr>)
               (?r\<lparr>r_election_elapsed := 0\<rparr>)) (\<lambda>(r3, _). Inr r3)
        else Inr (?r\<lparr>r_election_elapsed := 0\<rparr>)) = Inr u"
      then show "R r u"
        by (rule calm_if) (use r(2) in \<open>auto elim!: rbind_InrE dest!: timer_step_calm intro: trans\<close>)
    qed (auto simp: abort_leader_transfer_def)
  qed (use r(1) in simp)
next
  case (2 s)
  have beat: "R s t" if "rbind (step (Message\<lparr>m_from := r_id s, m_type := MsgBeat\<rparr>) (s\<lparr>r_heartbeat_elapsed := 0\<rparr>))
      (\<lambda>(r5, _). Inr r5) = Inr t" for t
    using that trans[OF fields(6) timer_step_calm] by (auto elim!: rbind_InrE)
  show ?case by (rule calm_if [OF 2], simp, erule calm_if) (auto intro: beat)
qed

end

locale calm_members = calm +
  assumes members: "R r (r\<lparr>r_prs := A, r_learner_prs := B, r_is_learner := c\<rparr>)"
begin

lemma commute: "r\<lparr>r_learner_prs := B, r_prs := A\<rparr> = r\<lparr>r_prs := A, r_learner_prs := B\<rparr>"
  by simp

lemma progress_calm [simp]:
  "R r (r\<lparr>r_prs := A\<rparr>)" "R r (r\<lparr>r_learner_prs := A\<rparr>)" "R r (r\<lparr>r_prs := A, r_learner_prs := B\<rparr>)"
  using members[where A = A and B = "r_learner_prs r" and c = "r_is_learner r" and r = r]
    members[where A = "r_prs r" and B = A and c = "r_is_learner r" and r = r]
    members[where A = A and B = B and c = "r_is_learner r" and r = r]
  by simp_all

lemma progress_swapped [simp]: "R r (r\<lparr>r_learner_prs := B, r_prs := A\<rparr>)"
  by (subst commute) simp

lemma put_progress_calm [simp]: "R r (put_progress i p r)"
  by (simp add: put_progress_def)

lemma add_node_calm:
  assumes "add_node_or_learner i b r = Inr r'"
  shows "R r r'"
proof -
  let ?mark = "\<lambda>r. let r1 = (if r_id r = i then r\<lparr>r_is_learner := b\<rparr> else r) in
            rbind (deref (get_progress r1 i)) (\<lambda>p. Inr (put_progress i (p\<lparr>pr_recent_active := True\<rparr>) r1))"
  have mark: "R q q'" if "?mark q = Inr q'" for q q'
    using that trans[OF fields(10) put_progress_calm] by (auto simp: Let_def rbind_Inr_iff split: if_split_asm)
  have set: "R q q'" if "set_progress j x y c q = Inr q'" for j x y c q q'
    using that by (auto simp: set_progress_def Let_def split: if_split_asm)
  show ?thesis
  proof (cases "get_progress r i")
    case None
    then obtain lst q where "set_progress i 0 (lst + 1) b r = Inr q" "?mark q = Inr r'"
      using assms by (auto simp: add_node_or_learner_def elim!: rbind_InrE)
    then show ?thesis using trans[OF set mark] by blast
  next
    case (Some p)
    then have "r' = r \<or> ?mark (r\<lparr>r_learner_prs := AList.delete i (r_learner_prs r),
        r_prs := AList.update i (p\<lparr>pr_is_learner := False\<rparr>) (r_prs r)\<rparr>) = Inr r'"
      using assms by (simp add: add_node_or_learner_def split: if_split_asm)
    moreover have "R r (r\<lparr>r_learner_prs := A, r_prs := B\<rparr>)" for A B by simp
    ultimately show ?thesis by (elim disjE) (simp, rule trans [OF _ mark], assumption+)
  qed
qed

lemma remove_node_calm:
  assumes "remove_node i r = Inr r'"
  shows "R r r'"
proof -
  have r0: "R r (del_progress i r)" by (simp add: del_progress_def)
  have "r' = del_progress i r \<or> (\<exists>r2 b r3. maybe_commit (del_progress i r) = Inr (r2, b)
      \<and> (r3 = r2 \<or> bcast_append r2 = Inr r3) \<and> (r' = r3 \<or> r' = abort_leader_transfer r3))"
    using assms by (auto simp: remove_node_def Let_def elim!: rbind_InrE split: if_split_asm)
  moreover have "R r r'" if "maybe_commit (del_progress i r) = Inr (r2, b)" "r3 = r2 \<or> bcast_append r2 = Inr r3"
    "r' = r3 \<or> r' = abort_leader_transfer r3" for r2 b r3
  proof -
    have "R r r2" by (rule trans [OF r0 maybe_commit_calm [OF that(1)]])
    moreover have "R r2 r3" "R r3 r'"
      using that(2,3) bcast_calm(1) by (auto simp: abort_leader_transfer_def)
    ultimately show ?thesis by (blast intro: trans)
  qed
  ultimately show ?thesis using r0 by blast
qed

end

end
