(* ===== verification/Raft_Quiet.thy ===== *)
theory Raft_Quiet
  imports Raft_Calm
begin

text \<open>
  The operations of a node that leave elections alone. \<open>quiet\<close> says that an operation sends no vote
  response, keeps the configuration, and either leaves role, term, vote and the votes received as
  they are or ends as follower or pre-candidate. It is a preorder and needs no invariant; every
  handler has it except those that campaign, vote or count votes, whose effect is given separately.
\<close>

section \<open>The relation\<close>

definition stands_down :: "raft \<Rightarrow> raft \<Rightarrow> bool" where
  "stands_down r r' \<longleftrightarrow> (r_state r' = Follower \<or> r_state r' = PreCandidate)
     \<and> (r_vote r' = 0 \<or> (r_term r' = r_term r \<and> r_vote r' = r_vote r))"

definition no_votes :: "u64 \<Rightarrow> message list \<Rightarrow> bool" where
  "no_votes i ms \<longleftrightarrow> (\<forall>m\<in>set ms. m_from m = i \<and> m_type m \<noteq> MsgVote \<and> m_type m \<noteq> MsgVoteResp)"

definition quiet :: "raft \<Rightarrow> raft \<Rightarrow> bool" where
  "quiet r r' \<longleftrightarrow> r_id r' = r_id r \<and> (\<exists>ms. r_msgs r' = r_msgs r @ ms \<and> no_votes (r_id r) ms)
     \<and> (electing r' = electing r \<or> stands_down r r')"

lemma quiet_refl [simp]: "quiet r r"
  by (auto simp: quiet_def no_votes_def)

lemma quiet_trans:
  assumes "quiet r s" and "quiet s t"
  shows "quiet r t"
proof -
  obtain ms ms' where "r_msgs s = r_msgs r @ ms" "no_votes (r_id r) ms" "r_msgs t = r_msgs s @ ms'" "no_votes (r_id r) ms'"
    using assms by (auto simp: quiet_def)
  then have "\<exists>ms. r_msgs t = r_msgs r @ ms \<and> no_votes (r_id r) ms" by (auto simp: no_votes_def)
  then show ?thesis using assms by (auto simp: quiet_def electing_def stands_down_def)
qed

lemma quiet_eq:
  assumes "r_id r' = r_id r" and "r_msgs r' = r_msgs r" and "electing r' = electing r"
  shows "quiet r r'"
  using assms by (auto simp: quiet_def no_votes_def)

lemma quiet_fields [simp]:
  "quiet r (r\<lparr>r_log := l\<rparr>)" "quiet r (r\<lparr>r_read_states := x\<rparr>)" "quiet r (r\<lparr>r_read_only := ro\<rparr>)"
  "quiet r (r\<lparr>r_pending_conf_index := i\<rparr>)" "quiet r (r\<lparr>r_lead_transferee := i\<rparr>)"
  "quiet r (r\<lparr>r_election_elapsed := n\<rparr>)" "quiet r (r\<lparr>r_heartbeat_elapsed := n\<rparr>)" "quiet r (r\<lparr>r_uncommitted_size := u\<rparr>)"
  "quiet r (r\<lparr>r_election_elapsed := n, r_lead := i\<rparr>)" "quiet r (r\<lparr>r_match_buf := b, r_log := l\<rparr>)"
  "quiet r (r\<lparr>r_election_elapsed := n, r_lead_transferee := i\<rparr>)" "quiet r (r\<lparr>r_is_learner := c\<rparr>)"
  "quiet r (r\<lparr>r_prs := A\<rparr>)" "quiet r (r\<lparr>r_learner_prs := A\<rparr>)" "quiet r (r\<lparr>r_prs := A, r_learner_prs := B\<rparr>)"
  "quiet r (r\<lparr>r_log := l, r_prs := A, r_learner_prs := B\<rparr>)"
  by (simp_all add: quiet_eq electing_def)

lemma put_progress_quiet [simp]: "quiet r (put_progress i p r)"
  by (simp add: put_progress_def)

lemma send_quiet:
  assumes "send m r = Inr r'" and "m_type m \<noteq> MsgVote" and "m_type m \<noteq> MsgVoteResp"
  shows "quiet r r'"
proof -
  obtain m' where r': "r' = r\<lparr>r_msgs := r_msgs r @ [m']\<rparr>" "m' = m\<lparr>m_from := r_id r, m_term := m_term m'\<rparr>"
    using assms(1) by (rule send_cases)
  have "m_type m' = m_type m \<and> m_from m' = r_id r" by (subst (1 2) r'(2)) simp
  then have "no_votes (r_id r) [m']" using assms(2,3) by (simp add: no_votes_def)
  then show ?thesis using r'(1) by (auto simp: quiet_def electing_def)
qed

section \<open>Sending\<close>

lemma put_send_quiet:
  assumes "send m (put_progress i p r) = Inr r'" and "m_type m \<noteq> MsgVote" and "m_type m \<noteq> MsgVoteResp"
  shows "quiet r r'"
  using quiet_trans[OF put_progress_quiet send_quiet [OF assms]] .

lemma send_snapshot_quiet:
  assumes "send_snapshot to pr r = Inr (r', b)"
  shows "quiet r r'"
proof -
  obtain s where "log_snapshot (r_log r) = Inr (Inr s)" using log_snapshot_ok by blast
  then show ?thesis using assms
    by (auto simp: send_snapshot_def rbind_Inr_iff split: if_splits elim!: put_send_quiet)
qed

lemma maybe_send_append_quiet:
  assumes "maybe_send_append to e r = Inr (r', b)"
  shows "quiet r r'"
proof -
  have "r' = r \<or> (\<exists>pr. send_snapshot to pr r = Inr (r', b))
      \<or> (\<exists>m p. send m (put_progress to p r) = Inr r' \<and> m_type m = MsgApp)"
  proof -
    obtain pr where pr: "get_progress r to = Some pr" using assms by (auto simp: maybe_send_append_def rbind_Inr_iff)
    show ?thesis
    proof (cases "is_paused pr")
      case False
      then obtain trm ents where "log_term (r_log r) (pr_next pr - 1) = Inr trm"
          "log_entries (r_log r) (pr_next pr) (r_max_msg_size r) = Inr ents"
        using assms pr by (auto simp: maybe_send_append_def rbind_Inr_iff)
      then show ?thesis using assms pr False
        by (cases trm; cases ents) (auto simp: maybe_send_append_def rbind_Inr_iff Let_def split: if_split_asm)
    qed (use assms pr in \<open>simp add: maybe_send_append_def\<close>)
  qed
  then show ?thesis by (auto elim!: put_send_quiet intro: send_snapshot_quiet)
qed

section \<open>Role changes and the log\<close>

lemma maybe_commit_quiet: "maybe_commit r = Inr (r', b) \<Longrightarrow> quiet r r'"
  by (auto simp: maybe_commit_def rbind_Inr_iff Let_def)

text \<open>What \<open>reset\<close> keeps.\<close>

lemma reset_frame:
  assumes "reset trm r = Inr r'"
  shows "r_id r' = r_id r \<and> r_msgs r' = r_msgs r \<and> r_log r' = r_log r \<and> quorum r' = quorum r \<and> r_state r' = r_state r \<and> r_step r' = r_step r \<and> r_term r' = trm
     \<and> r_votes r' = [] \<and> r_vote r' = (if r_term r = trm then r_vote r else 0)"
proof -
  define r2 where "r2 = (if r_term r \<noteq> trm then r\<lparr>r_term := trm, r_vote := 0\<rparr> else r)
      \<lparr>r_lead := 0, r_election_elapsed := 0, r_heartbeat_elapsed := 0\<rparr>"
  obtain r3 r4 where r: "reset_randomized_election_timeout r2 = Inr r3"
      "reset_progress ((abort_leader_transfer r3)\<lparr>r_votes := []\<rparr>) = Inr r4"
      "r' = r4\<lparr>r_pending_conf_index := 0, r_uncommitted_size := 0,
               r_read_only := (r_read_only r4)\<lparr>ro_pending := [], ro_queue := []\<rparr>\<rparr>"
    using assms unfolding reset_def Let_def r2_def [symmetric] rbind_Inr_iff by auto
  obtain d t where r3: "r3 = r2\<lparr>r_random_device := d, r_randomized_election_timeout := t\<rparr>"
    using r(1) by (auto simp: reset_randomized_election_timeout_def rbind_Inr_iff Let_def split: prod.split_asm)
  have "r4 = r3\<lparr>r_lead_transferee := 0, r_votes := []\<rparr>
      \<or> (\<exists>A B. r4 = r3\<lparr>r_lead_transferee := 0, r_votes := [], r_prs := A, r_learner_prs := B\<rparr>
            \<and> length A = length (r_prs r3))"
    using r(2) by (auto simp: reset_progress_def abort_leader_transfer_def rbind_Inr_iff split: if_split_asm)
  then show ?thesis using r3 r(3) by (auto simp: r2_def quorum_def)
qed

lemma become_follower_quiet:
  assumes "become_follower trm lead r = Inr r'"
  shows "quiet r r'" and "r_state r' = Follower" and "r_term r' = trm" and "r_step r' = Some StepFollower"
    and "quorum r' = quorum r"
proof -
  obtain s where "reset trm (r\<lparr>r_step := Some StepFollower\<rparr>) = Inr s"
      "r' = s\<lparr>r_tick := Some TickElection, r_lead := lead, r_state := Follower\<rparr>"
    using assms by (auto simp: become_follower_def rbind_Inr_iff)
  then show "quiet r r'" "r_state r' = Follower" "r_term r' = trm" "r_step r' = Some StepFollower" "quorum r' = quorum r"
    using reset_frame[of trm "r\<lparr>r_step := Some StepFollower\<rparr>" s]
    by (auto simp: quiet_def stands_down_def no_votes_def quorum_def)
qed

text \<open>Every operation that keeps books and sends is quiet.\<close>

interpretation quiet: calm_members quiet "\<lambda>_ _. True"
proof
  show "quiet r r'" if "send_heartbeat i c r = Inr r'" for i c r r'
    using that by (auto simp: send_heartbeat_def rbind_Inr_iff elim!: send_quiet)
  show "quiet r r'" if "become_follower (r_term r) lead r = Inr r'" for lead r r' by (rule become_follower_quiet [OF that])
  show "quiet r (r\<lparr>r_prs := A, r_learner_prs := B, r_is_learner := c\<rparr>)" for r A B c by (rule quiet_eq) (simp_all add: electing_def)
qed (auto intro: quiet_eq quiet_trans send_quiet maybe_send_append_quiet maybe_commit_quiet)

lemmas bcast_quiet = quiet.bcast_calm
lemmas rfold_quiet = quiet.rfold_calm

lemma increase_uncommitted_quiet: "quiet r (fst (increase_uncommitted_size es r))"
  by (simp add: increase_uncommitted_size_def Let_def)

lemma append_entry_quiet:
  assumes "append_entry es r = Inr (r', ok)"
  shows "quiet r r'"
proof -
  have "\<exists>es' r1. r1 = fst (increase_uncommitted_size es' r)
      \<and> (r' = r1 \<or> (\<exists>l i p b. maybe_commit (put_progress i p (r1\<lparr>r_log := l\<rparr>)) = Inr (r', b)))"
    using assms by (auto simp: append_entry_def rbind_Inr_iff Let_def split_def split: if_split_asm) blast+
  then obtain es' r1 where r1: "r1 = fst (increase_uncommitted_size es' r)"
    and r': "r' = r1 \<or> (\<exists>l i p b. maybe_commit (put_progress i p (r1\<lparr>r_log := l\<rparr>)) = Inr (r', b))" by blast
  have "quiet r1 r'" if "maybe_commit (put_progress i p (r1\<lparr>r_log := l\<rparr>)) = Inr (r', b)" for l i p b
    using quiet_trans[OF quiet_fields(1) quiet_trans [OF put_progress_quiet maybe_commit_quiet [OF that]]] .
  then have "quiet r1 r'" using r' by auto
  then show ?thesis using quiet_trans[OF increase_uncommitted_quiet] r1 by blast
qed

section \<open>The handlers\<close>

lemma log_send_quiet:
  assumes "send m (r\<lparr>r_log := l\<rparr>) = Inr r'" and "m_type m \<noteq> MsgVote" and "m_type m \<noteq> MsgVoteResp"
  shows "quiet r r'"
  using quiet_trans[OF quiet_fields(1) send_quiet [OF assms]] .

lemma handle_append_entries_quiet: "handle_append_entries m r = Inr r' \<Longrightarrow> quiet r r'"
  by (auto simp: handle_append_entries_def Let_def elim!: rbind_InrE log_send_quiet send_quiet
      split: if_split_asm option.split_asm)

lemma handle_heartbeat_quiet: "handle_heartbeat m r = Inr r' \<Longrightarrow> quiet r r'"
  by (auto simp: handle_heartbeat_def elim!: rbind_InrE log_send_quiet)

lemma restore_one_quiet: "restore_one b i r = Inr r' \<Longrightarrow> quiet r r'"
  by (auto simp: restore_one_def set_progress_def Let_def quiet_eq electing_def elim!: rbind_InrE split: if_split_asm)

lemma restore_quiet:
  assumes "restore s r = Inr (r', b)"
  shows "quiet r r'"
proof -
  let ?r0 = "r\<lparr>r_log := log_restore s (r_log r), r_prs := [], r_learner_prs := []\<rparr>"
  have n: "restore_node ids c q = Inr q' \<Longrightarrow> quiet q q'" for ids c q q'
    unfolding restore_node_def by (erule rfold_quiet) (rule restore_one_quiet)
  have "r' = r \<or> (\<exists>l. r' = r\<lparr>r_log := l\<rparr>)
      \<or> (\<exists>r1 ids ids'. restore_node ids False ?r0 = Inr r1 \<and> restore_node ids' True r1 = Inr r')"
    using assms by (auto simp: restore_def elim!: rbind_InrE split: if_split_asm) blast+
  moreover have "quiet r r'" if "restore_node ids False ?r0 = Inr r1" "restore_node ids' True r1 = Inr r'" for r1 ids ids'
    using quiet_trans[OF quiet_fields(16) quiet_trans [OF n [OF that(1)] n [OF that(2)]]] .
  ultimately show ?thesis by auto
qed

lemma handle_snapshot_quiet:
  assumes "handle_snapshot m r = Inr r'"
  shows "quiet r r'"
proof -
  obtain r1 b where r1: "restore (m_snapshot m) r = Inr (r1, b)"
      "send (Message\<lparr>m_to := m_from m, m_type := MsgAppResp\<rparr>) r1 = Inr r'"
    using assms by (auto simp: handle_snapshot_def rbind_Inr_iff split: if_splits)
  have "quiet r1 r'" using r1(2) by (rule send_quiet) simp_all
  then show ?thesis using restore_quiet[OF r1(1)] quiet_trans by blast
qed

lemmas from_leader_quiet = handle_append_entries_quiet handle_heartbeat_quiet handle_snapshot_quiet

text \<open>A follower is quiet, unless it is told to campaign.\<close>

lemma step_follower_effect:
  assumes "step_follower m r = Inr (r', s)"
  shows "quiet r r' \<or> (m_type m = MsgTimeoutNow \<and> campaign kCampaignTransfer r = Inr r')"
proof -
  let ?f = "r\<lparr>r_election_elapsed := 0, r_lead := m_from m\<rparr>"
  have "quiet r r' \<or> handle_append_entries m ?f = Inr r' \<or> handle_heartbeat m ?f = Inr r'
      \<or> handle_snapshot m ?f = Inr r' \<or> (m_type m = MsgTimeoutNow \<and> campaign kCampaignTransfer r = Inr r')"
    using assms
    by (auto simp: step_follower_def Let_def finish_Inr_iff dropped_Inr_iff dest!: send_quiet
        split: if_split_asm list.split_asm)
  then show ?thesis using quiet_trans[OF quiet_fields(9)] from_leader_quiet by blast
qed

text \<open>A candidate is quiet, unless it gets the answer to a vote request.\<close>

lemma step_candidate_effect:
  assumes "step_candidate m r = Inr (r', s)"
  shows "quiet r r' \<or> ((m_type m = MsgVoteResp \<or> m_type m = MsgPreVoteResp) \<and> step_vote_resp m r = Inr r')"
proof -
  have "quiet r r'" if "become_follower (m_term m) (m_from m) r = Inr q"
    "handle_append_entries m q = Inr r' \<or> handle_heartbeat m q = Inr r' \<or> handle_snapshot m q = Inr r'" for q
    using quiet_trans[OF become_follower_quiet(1)[OF that(1)]] that(2) from_leader_quiet by blast
  then show ?thesis using assms
    by (auto simp: step_candidate_def finish_Inr_iff dropped_Inr_iff rbind_Inr_iff split: if_split_asm)
qed

section \<open>The leader\<close>

lemma step_leader_prop_quiet:
  assumes "step_leader_prop m r = Inr (r', s)"
  shows "quiet r r'"
proof -
  have "r' = r \<or> (\<exists>es p r1 ok. append_entry es (r\<lparr>r_pending_conf_index := p\<rparr>) = Inr (r1, ok)
      \<and> (r' = r1 \<or> bcast_append r1 = Inr r'))"
    using assms by (auto simp: step_leader_prop_def dropped_Inr_iff finish_Inr_iff rbind_Inr_iff Let_def split_def
        split: if_split_asm)
  moreover have "quiet r r1" if "append_entry es (r\<lparr>r_pending_conf_index := p\<rparr>) = Inr (r1, ok)" for es p r1 ok
    using quiet_trans[OF quiet_fields(4) append_entry_quiet [OF that]] .
  ultimately show ?thesis using bcast_quiet(1) quiet_trans by (metis quiet_refl)
qed

lemma step_leader_quiet:
  assumes "step_leader m r = Inr (r', s)"
  shows "quiet r r'"
proof (cases "m_type m = MsgProp")
  case True
  then show ?thesis using assms step_leader_prop_quiet by (auto simp: step_leader_def)
qed (rule quiet.step_leader_calm [OF assms _ TrueI])

section \<open>What an operation does to elections\<close>

text \<open>
  The vote requests and grants among the messages sent state the term and the vote of the node as it
  is after the operation.
\<close>

definition ballots :: "raft \<Rightarrow> message list \<Rightarrow> bool" where
  "ballots r ms \<longleftrightarrow> (\<forall>x\<in>set ms. m_from x = r_id r
     \<and> (m_type x = MsgVote \<longrightarrow> m_term x = r_term r \<and> r_vote r = r_id r)
     \<and> (m_type x = MsgVoteResp \<and> \<not> m_reject x \<longrightarrow> m_term x = r_term r \<and> m_term x \<noteq> 0 \<and> r_vote r = m_to x))"

text \<open>
  The votes \<open>V\<close> of a candidate in term \<open>t\<close> are its own, those it had in that term before, and the one
  that \<open>m\<close> grants.
\<close>

definition backed :: "message \<Rightarrow> raft \<Rightarrow> u64 \<Rightarrow> (u64 \<times> bool) list \<Rightarrow> bool" where
  "backed m r t V \<longleftrightarrow> (\<forall>j. (j, True) \<in> set V \<longrightarrow> j = r_id r
     \<or> (r_state r = Candidate \<and> r_term r = t \<and> ((j, True) \<in> set (r_votes r)
         \<or> (m_type m = MsgVoteResp \<and> \<not> m_reject m \<and> m_term m = t \<and> m_from m = j))))"

definition effect :: "message \<Rightarrow> raft \<Rightarrow> raft \<Rightarrow> bool" where
  "effect m r r' \<longleftrightarrow> r_id r' = r_id r
     \<and> (\<exists>ms. r_msgs r' = r_msgs r @ ms \<and> ballots r' ms)
     \<and> (r_vote r' = 0 \<or> r_vote r' = r_id r \<or> (r_term r' = r_term r \<and> r_vote r' = r_vote r)
         \<or> (m_type m = MsgVote \<and> m_term m = r_term r' \<and> r_vote r' = m_from m))
     \<and> (r_state r' = Candidate \<longrightarrow> backed m r (r_term r') (r_votes r'))
     \<and> (r_state r' = Leader \<longrightarrow> (r_state r = Leader \<and> r_term r' = r_term r)
         \<or> (\<exists>V. distinct (map fst V) \<and> quorum r = of_nat (granted_votes V) \<and> backed m r (r_term r') V))"

lemma quiet_effect: "quiet r r' \<Longrightarrow> effect m r r'"
  by (auto simp: quiet_def effect_def electing_def stands_down_def no_votes_def ballots_def backed_def)

lemma effect_quiet:
  assumes "quiet r s" and "effect m s t" and "quorum s = quorum r"
  shows "effect m r t"
proof -
  obtain ms ms' where ms: "r_msgs s = r_msgs r @ ms" "no_votes (r_id r) ms" "r_msgs t = r_msgs s @ ms'" "ballots t ms'"
    using assms(1,2) by (auto simp: quiet_def effect_def)
  have id: "r_id s = r_id r" "r_id t = r_id r" using assms(1,2) by (auto simp: quiet_def effect_def)
  have "ballots t (ms @ ms')" using ms(2,4) id by (auto simp: ballots_def no_votes_def)
  then have m: "\<exists>ms. r_msgs t = r_msgs r @ ms \<and> ballots t ms" using ms(1,3) by auto
  have "backed m r u V" if "backed m s u V" for u V
    using that assms(1) by (auto simp: backed_def quiet_def electing_def stands_down_def)
  then show ?thesis using assms m id unfolding effect_def
    by (auto simp: quiet_def electing_def stands_down_def)
qed

lemma request_votes_sent:
  assumes "rfold (request_vote ct v trm) ids r = Inr r'" and "is_vote_type v"
  shows "\<exists>ms. r' = r\<lparr>r_msgs := r_msgs r @ ms\<rparr> \<and> (\<forall>x\<in>set ms. m_from x = r_id r \<and> m_type x = v \<and> m_term x = trm)"
proof (rule rfold_invariant [OF assms(1), where P = "\<lambda>s. \<exists>ms. s = r\<lparr>r_msgs := r_msgs r @ ms\<rparr>
      \<and> (\<forall>x\<in>set ms. m_from x = r_id r \<and> m_type x = v \<and> m_term x = trm)"])
  show "\<exists>ms. r = r\<lparr>r_msgs := r_msgs r @ ms\<rparr> \<and> (\<forall>x\<in>set ms. m_from x = r_id r \<and> m_type x = v \<and> m_term x = trm)"
    by (rule exI [of _ "[]"]) simp
next
  fix i s t
  assume s: "\<exists>ms. s = r\<lparr>r_msgs := r_msgs r @ ms\<rparr> \<and> (\<forall>x\<in>set ms. m_from x = r_id r \<and> m_type x = v \<and> m_term x = trm)"
    and st: "request_vote ct v trm i s = Inr t"
  obtain ms where ms: "s = r\<lparr>r_msgs := r_msgs r @ ms\<rparr>" "\<forall>x\<in>set ms. m_from x = r_id r \<and> m_type x = v \<and> m_term x = trm"
    using s by blast
  have "t = s \<or> (\<exists>x. t = s\<lparr>r_msgs := r_msgs s @ [x]\<rparr> \<and> m_from x = r_id s \<and> m_type x = v \<and> m_term x = trm)"
    using st assms(2) by (auto simp: request_vote_def send_def rbind_Inr_iff Let_def split: if_split_asm)
  then show "\<exists>ms. t = r\<lparr>r_msgs := r_msgs r @ ms\<rparr> \<and> (\<forall>x\<in>set ms. m_from x = r_id r \<and> m_type x = v \<and> m_term x = trm)"
  proof (elim disjE exE conjE)
    fix x assume "t = s\<lparr>r_msgs := r_msgs s @ [x]\<rparr>" "m_from x = r_id s" "m_type x = v" "m_term x = trm"
    then show ?thesis using ms by (intro exI [of _ "ms @ [x]"]) auto
  qed (use s in simp)
qed

section \<open>Campaigns\<close>

lemma become_leader_frame:
  assumes "become_leader r = Inr r'"
  shows "\<exists>s. r_id s = r_id r \<and> r_msgs s = r_msgs r \<and> r_state s = Leader \<and> r_term s = r_term r \<and> r_vote s = r_vote r
     \<and> quiet s r'"
proof -
  obtain r1 where r1: "reset (r_term r) (r\<lparr>r_step := Some StepLeader\<rparr>) = Inr r1"
    using assms by (auto simp: become_leader_def rbind_Inr_iff split: if_split_asm)
  let ?r2 = "r1\<lparr>r_tick := Some TickHeartbeat, r_lead := r_id r1, r_state := Leader\<rparr>"
  obtain A i r4 where r4: "append_entry [Entry] (?r2\<lparr>r_prs := A, r_pending_conf_index := i\<rparr>) = Inr (r4, True)"
      "r' = reduce_uncommitted_size [Entry] r4"
    using assms r1 by (auto simp: become_leader_def Let_def elim!: rbind_InrE split: if_split_asm option.split_asm)
  have "quiet r4 r'" by (simp add: r4(2) reduce_uncommitted_size_def Let_def)
  then have "quiet (?r2\<lparr>r_prs := A, r_pending_conf_index := i\<rparr>) r'"
    using quiet_trans[OF append_entry_quiet [OF r4(1)]] by simp
  then show ?thesis using reset_frame[OF r1]
    by (intro exI [of _ "?r2\<lparr>r_prs := A, r_pending_conf_index := i\<rparr>"]) simp
qed

lemma become_candidate_frame:
  assumes "become_candidate r = Inr r'"
  shows "r_id r' = r_id r \<and> r_msgs r' = r_msgs r \<and> r_state r' = Candidate \<and> r_vote r' = r_id r
     \<and> r_votes r' = [] \<and> quorum r' = quorum r"
proof -
  obtain s where "reset (r_term r + 1) (r\<lparr>r_step := Some StepCandidate\<rparr>) = Inr s"
      "r' = s\<lparr>r_tick := Some TickElection, r_vote := r_id s, r_state := Candidate\<rparr>"
    using assms by (auto simp: become_candidate_def rbind_Inr_iff split: if_split_asm)
  then show ?thesis using reset_frame[of _ "r\<lparr>r_step := Some StepCandidate\<rparr>" s] by (simp add: quorum_def)
qed

lemma quiet_msgs: "quiet r r' \<Longrightarrow> \<exists>ms. r_msgs r' = r_msgs r @ ms \<and> ballots r' ms"
  by (auto simp: quiet_def no_votes_def ballots_def)

lemma elected_effect:
  assumes "r_id s = r_id r" and "r_msgs s = r_msgs r" and "r_state s = Leader" and "quiet s r'"
    and "r_vote s = r_id r \<or> (r_vote s = r_vote r \<and> r_term s = r_term r)"
    and "distinct (map fst V)" and "quorum r = of_nat (granted_votes V)" and "backed m r (r_term s) V"
  shows "effect m r r'"
  using assms quiet_msgs[OF assms(4)] unfolding effect_def
  by (auto simp: quiet_def electing_def stands_down_def)

lemma election_effect:
  assumes "campaign ct r = Inr r'" and "ct \<noteq> kCampaignPreElection"
  shows "effect m r r'"
proof -
  obtain c where c: "become_candidate r = Inr c"
    using assms by (auto simp: campaign.simps [of ct r] rbind_Inr_iff)
  note f = become_candidate_frame[OF c]
  let ?c = "c\<lparr>r_votes := [(r_id r, True)]\<rparr>"
  have b: "backed m r t [(r_id r, True)]" for t by (simp add: backed_def)
  have q: "quorum ?c = quorum r" using f by (simp add: quorum_def)
  have "(quorum r = 1 \<and> become_leader ?c = Inr r')
      \<or> rfold (request_vote ct MsgVote (r_term c)) (map fst (r_prs c)) ?c = Inr r'"
    using assms c f q
    by (auto simp: campaign.simps [of ct r] rbind_Inr_iff poll_def Let_def vote_resp_msg_type_def granted_votes_def
        split: if_split_asm)
  then show ?thesis
  proof (elim disjE conjE)
    assume l: "quorum r = 1" "become_leader ?c = Inr r'"
    then obtain s where "r_id s = r_id r" "r_msgs s = r_msgs r" "r_state s = Leader" "r_vote s = r_id r" "quiet s r'"
      using become_leader_frame[OF l(2)] f by auto
    then show ?thesis using elected_effect[of s r r' "[(r_id r, True)]" m] b l(1) by (simp add: granted_votes_def)
  next
    assume rf: "rfold (request_vote ct MsgVote (r_term c)) (map fst (r_prs c)) ?c = Inr r'"
    obtain ms where ms: "r' = ?c\<lparr>r_msgs := r_msgs ?c @ ms\<rparr>"
        "\<forall>x\<in>set ms. m_from x = r_id ?c \<and> m_type x = MsgVote \<and> m_term x = r_term c"
      using request_votes_sent[OF rf] by (auto simp: is_vote_type_def)
    then have "ballots r' ms" using f by (auto simp: ballots_def)
    then show ?thesis using ms(1) f b by (auto simp: effect_def)
  qed
qed

lemma campaign_effect:
  assumes "campaign ct r = Inr r'"
  shows "effect m r r'"
proof (cases "ct = kCampaignPreElection")
  case True
  obtain c where c: "become_pre_candidate r = Inr c"
    using assms True by (auto simp: campaign.simps [of kCampaignPreElection r] rbind_Inr_iff)
  let ?c = "c\<lparr>r_votes := [(r_id c, True)]\<rparr>"
  have f: "quiet r ?c" "quorum ?c = quorum r" "r_votes c = []" "r_state c = PreCandidate"
    using c by (auto simp: become_pre_candidate_def quiet_def stands_down_def no_votes_def quorum_def split: if_split_asm)
  have "campaign kCampaignElection ?c = Inr r'
      \<or> rfold (request_vote ct MsgPreVote (r_term c + 1)) (map fst (r_prs c)) ?c = Inr r'"
    using assms c True f(3)
    by (auto simp: campaign.simps [of kCampaignPreElection r] rbind_Inr_iff poll_def Let_def vote_resp_msg_type_def
        split: if_split_asm)
  then have "effect m ?c r'"
  proof
    assume "campaign kCampaignElection ?c = Inr r'"
    then show ?thesis by (rule election_effect) (simp add: kCampaignElection_def kCampaignPreElection_def)
  next
    assume rf: "rfold (request_vote ct MsgPreVote (r_term c + 1)) (map fst (r_prs c)) ?c = Inr r'"
    obtain ms where "r' = ?c\<lparr>r_msgs := r_msgs ?c @ ms\<rparr>"
        "\<forall>x\<in>set ms. m_from x = r_id ?c \<and> m_type x = MsgPreVote \<and> m_term x = r_term c + 1"
      using request_votes_sent[OF rf] by (auto simp: is_vote_type_def)
    then have "quiet ?c r'" by (auto simp: quiet_def no_votes_def electing_def)
    then show ?thesis by (rule quiet_effect)
  qed
  then show ?thesis by (rule effect_quiet [OF f(1) _ f(2)])
qed (rule election_effect [OF assms])

section \<open>Voting and counting votes\<close>

lemma step_vote_effect:
  assumes "step_vote m r = Inr r'" and "m_type m = MsgVote \<or> m_type m = MsgPreVote"
    and "m_type m = MsgVote \<Longrightarrow> m_term m = r_term r \<or> m_term m = 0"
  shows "effect m r r'"
proof -
  have s: "\<exists>x. s = r\<lparr>r_msgs := r_msgs r @ [x]\<rparr> \<and> m_from x = r_id r \<and> m_type x = m_type y \<and> m_term x = m_term y
      \<and> m_to x = m_to y \<and> m_reject x = m_reject y \<and> m_term y \<noteq> 0" if "send y r = Inr s" "is_vote_type (m_type y)" for y s
    using that by (auto simp: send_def rbind_Inr_iff Let_def split: if_split_asm)
  have "r' = r \<or> (\<exists>y. send y r = Inr r' \<and> is_vote_type (m_type y) \<and> m_type y \<noteq> MsgVote
           \<and> (m_type y = MsgVoteResp \<longrightarrow> m_reject y))
      \<or> (m_type m = MsgVote \<and> (\<exists>s. send (Message\<lparr>m_to := m_from m, m_term := m_term m, m_type := MsgVoteResp\<rparr>) r = Inr s
           \<and> r' = s\<lparr>r_election_elapsed := 0, r_vote := m_from m\<rparr>))"
    using assms(1,2)
    by (auto simp: step_vote_def rbind_Inr_iff vote_resp_msg_type_def is_vote_type_def split: if_split_asm)
  then show ?thesis
  proof (elim disjE exE conjE)
    assume "r' = r" then show ?thesis by (simp add: quiet_effect)
  next
    fix y assume y: "send y r = Inr r'" "is_vote_type (m_type y)" "m_type y \<noteq> MsgVote" "m_type y = MsgVoteResp \<longrightarrow> m_reject y"
    then show ?thesis using s[OF y(1,2)] by (auto simp: effect_def ballots_def backed_def)
  next
    fix q
    let ?y = "Message\<lparr>m_to := m_from m, m_term := m_term m, m_type := MsgVoteResp\<rparr>"
    assume q: "m_type m = MsgVote" "send ?y r = Inr q" "r' = q\<lparr>r_election_elapsed := 0, r_vote := m_from m\<rparr>"
    then obtain x where "q = r\<lparr>r_msgs := r_msgs r @ [x]\<rparr>" "m_from x = r_id r" "m_type x = MsgVoteResp"
        "m_term x = m_term m" "m_to x = m_from m" "m_term m \<noteq> 0"
      using s[OF q(2)] by (auto simp: is_vote_type_def)
    then show ?thesis using q assms(3) by (auto simp: effect_def ballots_def backed_def)
  qed
qed

lemma set_alist_update: "set (AList.update k v al) \<subseteq> insert (k, v) (set al)"
  by (induction al) auto

lemma vote_resp_effect:
  assumes "step_vote_resp m r = Inr r'" and "r_state r = Candidate \<or> r_state r = PreCandidate"
    and "distinct (map fst (r_votes r))"
    and "r_state r = Candidate \<Longrightarrow> \<not> m_reject m \<Longrightarrow> m_type m = MsgVoteResp \<and> m_term m = r_term r"
  shows "effect m r r'"
proof -
  let ?r = "r\<lparr>r_votes := votes_with m r\<rparr>"
  have q: "quorum ?r = quorum r" by (simp add: quorum_def)
  have pre: "quiet r ?r" if "r_state r = PreCandidate"
    using that by (auto simp: quiet_def no_votes_def stands_down_def)
  have bk: "backed m r (r_term r) (votes_with m r)" if c: "r_state r = Candidate"
  proof -
    have "(j, True) \<in> set (votes_with m r) \<Longrightarrow> (j, True) \<in> set (r_votes r) \<or> (\<not> m_reject m \<and> j = m_from m)" for j
      using set_alist_update[of "m_from m" "\<not> m_reject m" "r_votes r"] by (auto simp: votes_with_def split: if_splits)
    then show ?thesis using assms(4)[OF c] c by (auto simp: backed_def)
  qed
  obtain r1 g where p: "poll (m_from m) (m_type m) (\<not> m_reject m) r = Inr (r1, g)"
    using assms(1) by (auto simp: step_vote_resp_def rbind_Inr_iff)
  have r1: "r1 = ?r" "g = of_nat (granted_votes (votes_with m r))"
    using p by (auto simp: poll_def rbind_Inr_iff Let_def votes_with_def)
  have "(r_state r = PreCandidate \<and> campaign kCampaignElection ?r = Inr r')
      \<or> (quorum ?r = g \<and> r_state r = Candidate \<and> (\<exists>r2. become_leader ?r = Inr r2 \<and> bcast_append r2 = Inr r'))
      \<or> become_follower (r_term r) 0 ?r = Inr r' \<or> r' = ?r"
    using assms(1) p r1(1) by (simp add: step_vote_resp_def rbind_Inr_iff Let_def ucast_eq_u32 split: if_split_asm)
  then show ?thesis
  proof (elim disjE conjE exE)
    assume "r_state r = PreCandidate" "campaign kCampaignElection ?r = Inr r'"
    then show ?thesis using effect_quiet[OF pre campaign_effect q] by blast
  next
    fix r2 assume h: "quorum ?r = g" "r_state r = Candidate" "become_leader ?r = Inr r2" "bcast_append r2 = Inr r'"
    obtain s where s: "r_id s = r_id r" "r_msgs s = r_msgs r" "r_state s = Leader" "r_term s = r_term r" "r_vote s = r_vote r"
        "quiet s r2"
      using become_leader_frame[OF h(3)] by auto
    have "distinct (map fst (votes_with m r))" using assms(3) by (auto simp: votes_with_def distinct_update)
    then show ?thesis
      using elected_effect[OF s(1-3) quiet_trans [OF s(6) bcast_quiet(1) [OF h(4)]], of "votes_with m r" m] s h(1,2) r1(2) q bk
      by simp
  next
    assume "become_follower (r_term r) 0 ?r = Inr r'"
    then have "quiet ?r r'" "r_state r' = Follower" by (auto dest: become_follower_quiet)
    then have "quiet r r'" by (auto simp: quiet_def electing_def stands_down_def)
    then show ?thesis by (rule quiet_effect)
  next
    assume "r' = ?r"
    then show ?thesis using assms(2) quiet_effect[OF pre] bk by (auto simp: effect_def ballots_def)
  qed
qed

section \<open>Steps and ticks\<close>

text \<open>
  What the theorems on elections ask of a message: a granted vote carries its term, and no granted
  pre-vote reaches a node that is already a candidate.
\<close>

definition timely :: "message \<Rightarrow> raft \<Rightarrow> bool" where
  "timely m r \<longleftrightarrow> \<not> (m_type m = MsgPreVoteResp \<and> \<not> m_reject m \<and> r_state r = Candidate)
     \<and> \<not> (m_type m = MsgVoteResp \<and> \<not> m_reject m \<and> m_term m = 0)"

lemma dispatch_effect:
  assumes "step_dispatch m r = Inr (r', s)" and "r_step r = Some (step_of (r_state r))" and "timely m r"
    and "distinct (map fst (r_votes r))" and "m_term m = 0 \<or> m_term m = r_term r \<or> m_type m = MsgPreVote
      \<or> (m_type m = MsgPreVoteResp \<and> \<not> m_reject m)"
  shows "effect m r r'"
proof -
  have hup: "effect m r r'" if "step_hup r = Inr r'"
  proof -
    have "r' = r \<or> (\<exists>ct. campaign ct r = Inr r')"
      using that by (auto simp: step_hup_def elim!: rbind_InrE split: if_split_asm sum.split_asm)
    then show ?thesis using campaign_effect quiet_effect by auto
  qed
  have vote: "effect m r r'" if "step_vote m r = Inr r'" "m_type m = MsgVote \<or> m_type m = MsgPreVote"
    using that assms(5) by (intro step_vote_effect) auto
  have cand: "effect m r r'" if "step_candidate m r = Inr (r', s)" "r_state r = Candidate \<or> r_state r = PreCandidate"
  proof -
    have "m_type m = MsgVoteResp \<and> m_term m = r_term r"
      if "m_type m = MsgVoteResp \<or> m_type m = MsgPreVoteResp" "r_state r = Candidate" "\<not> m_reject m"
      using that assms(3,5) by (auto simp: timely_def)
    then show ?thesis
      using step_candidate_effect[OF that(1)] quiet_effect[of r r'] vote_resp_effect[OF _ that(2) assms(4), of m r'] by blast
  qed
  have role: "effect m r r'" if "step_role m r = Inr (r', s)"
    using that assms(2) cand step_follower_effect[of m r r' s] step_leader_quiet[of m r r' s]
      quiet_effect[of r r' m] campaign_effect[of _ r r' m]
    by (cases "r_state r") (auto simp: step_role_def)
  show ?thesis using assms(1) hup vote role by (auto simp: step_dispatch_def finish_Inr_iff split: if_split_asm)
qed

lemma step_effect:
  assumes "step m r = Inr (r', s)" and "wf_raft r" and "timely m r"
  shows "effect m r r'"
proof -
  have role: "r_step r = Some (step_of (r_state r))" "distinct (map fst (r_votes r))"
    using wf_raftD[OF assms(2)] by (simp_all add: role_ok_def)
  show ?thesis
  proof (cases "m_term m \<noteq> 0 \<and> r_term r < m_term m")
    case True
    then obtain r1 go where h: "step_higher_term m r = Inr (r1, go)"
        "(if go then step_dispatch m r1 else Inr (r1, Ok)) = Inr (r', s)"
      using assms(1) by (auto simp: step_def elim!: rbind_InrE)
    have "(r1 = r \<and> (go \<longrightarrow> m_type m = MsgPreVote \<or> (m_type m = MsgPreVoteResp \<and> \<not> m_reject m)))
        \<or> (\<exists>l. become_follower (m_term m) l r = Inr r1)"
      using h(1) by (auto simp: step_higher_term_def Let_def rbind_Inr_iff split: if_split_asm)
    then show ?thesis
    proof (elim disjE exE conjE)
      assume "r1 = r" "go \<longrightarrow> m_type m = MsgPreVote \<or> (m_type m = MsgPreVoteResp \<and> \<not> m_reject m)"
      then show ?thesis using h(2) dispatch_effect[OF _ role(1) assms(3) role(2)] quiet_effect
        by (auto split: if_splits)
    next
      fix l assume b: "become_follower (m_term m) l r = Inr r1"
      note f = become_follower_quiet[OF b]
      have v: "r_votes r1 = []" using b reset_frame[of "m_term m" "r\<lparr>r_step := Some StepFollower\<rparr>"]
        by (auto simp: become_follower_def rbind_Inr_iff)
      have "effect m r1 r'" if "step_dispatch m r1 = Inr (r', s)"
        using that assms(3) f v by (intro dispatch_effect) (auto simp: timely_def)
      then have "effect m r1 r'" using h(2) quiet_effect by (auto split: if_splits)
      then show ?thesis by (rule effect_quiet [OF f(1) _ f(5)])
    qed
  next
    case False
    then have "(step_dispatch m r = Inr (r', s) \<and> (m_term m = 0 \<or> m_term m = r_term r)) \<or> step_lower_term m r = Inr r'"
      using assms(1) by (auto simp: step_def finish_Inr_iff split: if_split_asm)
    then show ?thesis
      using dispatch_effect[OF _ role(1) assms(3) role(2)] quiet_effect quiet.step_lower_term_calm by blast
  qed
qed

lemma tick_effect:
  assumes "tick r = Inr r'" and "wf_raft r"
  shows "effect m r r'"
proof -
  let ?r = "r\<lparr>r_election_elapsed := 0\<rparr>"
  have e: "effect m r r'" if t: "tick_election r = Inr r'"
  proof -
    have "quiet r r' \<or> (\<exists>ct. campaign ct ?r = Inr r')"
      using t by (auto simp: tick_election_def step_def step_dispatch_def step_hup_def Message_def finish_Inr_iff Let_def
          elim!: rbind_InrE split: if_split_asm sum.split_asm)
    moreover have "effect m r r'" if "campaign ct ?r = Inr r'" for ct
      by (rule effect_quiet [OF quiet_fields(6) campaign_effect [OF that]]) (simp add: quorum_def)
    ultimately show ?thesis using quiet_effect by blast
  qed
  show ?thesis using e assms(1) quiet_effect quiet.tick_heartbeat_calm by (auto simp: tick_def split: option.split_asm tick_fun.split_asm)
qed

section \<open>New candidates\<close>

text \<open>A node becomes a candidate only together with a larger term.\<close>

definition renews :: "raft \<Rightarrow> raft \<Rightarrow> bool" where
  "renews r r' \<longleftrightarrow> (r_state r' = Candidate \<longrightarrow> (r_state r = Candidate \<and> r_term r' = r_term r) \<or> r_term r < r_term r')"

lemma quiet_renews: "quiet r r' \<Longrightarrow> renews r r'"
  by (auto simp: renews_def quiet_def electing_def stands_down_def)

lemma become_leader_renews: "become_leader r = Inr s \<Longrightarrow> quiet s r' \<Longrightarrow> r_state r' \<noteq> Candidate"
  by (drule become_leader_frame) (auto simp: quiet_def electing_def stands_down_def)

lemma election_renews:
  assumes "campaign ct r = Inr r'" and "ct \<noteq> kCampaignPreElection" and "r_term r \<noteq> - 1"
  shows "renews r r'"
proof -
  obtain c where c: "become_candidate r = Inr c"
    using assms by (auto simp: campaign.simps [of ct r] rbind_Inr_iff)
  have t: "r_term c = r_term r + 1"
    using c by (auto simp: become_candidate_def elim!: rbind_InrE dest!: reset_frame split: if_split_asm)
  let ?c = "c\<lparr>r_votes := [(r_id r, True)]\<rparr>"
  have "become_leader ?c = Inr r' \<or> rfold (request_vote ct MsgVote (r_term c)) (map fst (r_prs c)) ?c = Inr r'"
    using assms c become_candidate_frame[OF c]
    by (auto simp: campaign.simps [of ct r] rbind_Inr_iff poll_def Let_def vote_resp_msg_type_def split: if_split_asm)
  then show ?thesis
  proof
    assume "become_leader ?c = Inr r'"
    then show ?thesis using become_leader_renews[OF _ quiet_refl] by (auto simp: renews_def)
  next
    assume rf: "rfold (request_vote ct MsgVote (r_term c)) (map fst (r_prs c)) ?c = Inr r'"
    have "r_term r' = r_term c" using request_votes_sent[OF rf] by (auto simp: is_vote_type_def)
    moreover have "r_term r < r_term r + 1" using assms(3) by (simp add: word_less_nat_alt u64_not_max unat_add_1)
    ultimately show ?thesis using t by (simp add: renews_def)
  qed
qed

lemma campaign_renews:
  assumes "campaign ct r = Inr r'" and "r_term r \<noteq> - 1"
  shows "renews r r'"
proof (cases "ct = kCampaignPreElection")
  case True
  obtain c where c: "become_pre_candidate r = Inr c"
    using assms True by (auto simp: campaign.simps [of kCampaignPreElection r] rbind_Inr_iff)
  let ?c = "c\<lparr>r_votes := [(r_id c, True)]\<rparr>"
  have f: "r_votes c = []" "r_state ?c = PreCandidate" "r_term ?c = r_term r"
    using c by (auto simp: become_pre_candidate_def split: if_split_asm)
  have "campaign kCampaignElection ?c = Inr r'
      \<or> rfold (request_vote ct MsgPreVote (r_term c + 1)) (map fst (r_prs c)) ?c = Inr r'"
    using assms c True f(1)
    by (auto simp: campaign.simps [of kCampaignPreElection r] rbind_Inr_iff poll_def Let_def vote_resp_msg_type_def
        split: if_split_asm)
  then have "renews ?c r'"
  proof
    assume "campaign kCampaignElection ?c = Inr r'"
    then show ?thesis by (rule election_renews) (use assms(2) f(3) in \<open>auto simp: kCampaignElection_def kCampaignPreElection_def\<close>)
  next
    assume rf: "rfold (request_vote ct MsgPreVote (r_term c + 1)) (map fst (r_prs c)) ?c = Inr r'"
    have "r_state r' = PreCandidate" using request_votes_sent[OF rf] f(2) by (auto simp: is_vote_type_def)
    then show ?thesis by (simp add: renews_def)
  qed
  then show ?thesis using f(2,3) by (simp add: renews_def)
qed (rule election_renews [OF assms(1) _ assms(2)])

lemma vote_resp_renews:
  assumes "step_vote_resp m r = Inr r'" and "r_term r \<noteq> - 1"
  shows "renews r r'"
proof -
  obtain r1 g where p: "poll (m_from m) (m_type m) (\<not> m_reject m) r = Inr (r1, g)"
    using assms(1) by (auto simp: step_vote_resp_def rbind_Inr_iff)
  obtain votes where r1: "r1 = r\<lparr>r_votes := votes\<rparr>" using poll_cases[OF p] by metis
  have "campaign kCampaignElection r1 = Inr r' \<or> (\<exists>r2. become_leader r1 = Inr r2 \<and> bcast_append r2 = Inr r')
      \<or> become_follower (r_term r1) 0 r1 = Inr r' \<or> r' = r1"
    using assms(1) p by (simp add: step_vote_resp_def rbind_Inr_iff Let_def split: if_split_asm)
  moreover have "renews r r'" if "campaign kCampaignElection r1 = Inr r'"
    using campaign_renews[OF that] assms(2) r1 by (simp add: renews_def)
  ultimately show ?thesis using r1 become_leader_renews bcast_quiet(1) become_follower_quiet(2)
    by (auto simp: renews_def)
qed

lemma dispatch_renews:
  assumes "step_dispatch m r = Inr (r', s)" and "r_step r = Some (step_of (r_state r))" and "r_term r \<noteq> - 1"
  shows "renews r r'"
proof -
  have hup: "renews r r'" if "step_hup r = Inr r'"
  proof -
    have "r' = r \<or> (\<exists>ct. campaign ct r = Inr r')"
      using that by (auto simp: step_hup_def elim!: rbind_InrE split: if_split_asm sum.split_asm)
    then show ?thesis using campaign_renews assms(3) quiet_renews by auto
  qed
  have vote: "renews r r'" if "step_vote m r = Inr r'"
    using step_vote_cases[OF that] by (auto simp: renews_def sends_frame)
  have "renews r r'" if "step_role m r = Inr (r', s)"
    using that assms(2,3) step_follower_effect[of m r r' s] step_candidate_effect[of m r r' s] step_leader_quiet[of m r r' s]
      quiet_renews[of r r'] campaign_renews[of _ r r'] vote_resp_renews[of m r r']
    by (cases "r_state r") (auto simp: step_role_def)
  then show ?thesis using assms(1) hup vote by (auto simp: step_dispatch_def finish_Inr_iff split: if_split_asm)
qed

lemma step_renews:
  assumes "step m r = Inr (r', s)" and "wf_raft r" and "wf_msg m" and "room m r"
  shows "renews r r'"
proof -
  have role: "r_step r = Some (step_of (r_state r))" "r_term r \<noteq> - 1" "m_term m \<noteq> - 1"
    using wf_raftD[OF assms(2)] assms(3,4) by (simp_all add: role_ok_def room_def wf_msg_def)
  show ?thesis
  proof (cases "m_term m \<noteq> 0 \<and> r_term r < m_term m")
    case True
    then obtain r1 go where h: "step_higher_term m r = Inr (r1, go)"
        "(if go then step_dispatch m r1 else Inr (r1, Ok)) = Inr (r', s)"
      using assms(1) by (auto simp: step_def elim!: rbind_InrE)
    have "r1 = r \<or> (\<exists>l. become_follower (m_term m) l r = Inr r1)"
      using h(1) by (auto simp: step_higher_term_def Let_def rbind_Inr_iff split: if_split_asm)
    then show ?thesis
    proof (elim disjE exE)
      assume "r1 = r"
      then show ?thesis using h(2) dispatch_renews[OF _ role(1,2)] quiet_renews by (auto split: if_splits)
    next
      fix l assume "become_follower (m_term m) l r = Inr r1"
      note f = become_follower_quiet[OF this]
      have "renews r1 r'" using h(2) dispatch_renews[of m r1 r' s] f(2-4) role(3) quiet_renews by (auto split: if_splits)
      then show ?thesis using f(2,3) True by (auto simp: renews_def)
    qed
  next
    case False
    then have "step_dispatch m r = Inr (r', s) \<or> step_lower_term m r = Inr r'"
      using assms(1) by (auto simp: step_def finish_Inr_iff split: if_split_asm)
    then show ?thesis using dispatch_renews[OF _ role(1,2)] quiet_renews quiet.step_lower_term_calm by blast
  qed
qed

lemma tick_renews:
  assumes "tick r = Inr r'" and "r_term r \<noteq> - 1"
  shows "renews r r'"
proof -
  let ?r = "r\<lparr>r_election_elapsed := 0\<rparr>"
  have e: "renews r r'" if t: "tick_election r = Inr r'"
  proof -
    have "quiet r r' \<or> (\<exists>ct. campaign ct ?r = Inr r')"
      using t by (auto simp: tick_election_def step_def step_dispatch_def step_hup_def Message_def finish_Inr_iff Let_def
          elim!: rbind_InrE split: if_split_asm sum.split_asm)
    then show ?thesis using quiet_renews campaign_renews[of _ ?r r'] assms(2) by (auto simp: renews_def)
  qed
  show ?thesis using e assms(1) quiet_renews quiet.tick_heartbeat_calm
    by (auto simp: tick_def split: option.split_asm tick_fun.split_asm)
qed

section \<open>Restarts\<close>

text \<open>A node that is constructed on a storage has the term and the vote saved there.\<close>

lemma restart_hard_state:
  assumes "Raft c draws = Inr r" and "c_storage c = Some st"
  shows "r_term r = hs_term (ms_hard_state st)" and "r_vote r = hs_vote (ms_hard_state st)" and "r_votes r = []"
proof -
  obtain l where l: "RaftLog st (c_max_committed_size_per_ready c) = Inr l"
    using assms by (auto simp: Raft_def deref_def rbind_Inr_iff)
  let ?hs = "fst (storage_initial_state st)"
  let ?app = "\<lambda>r2. if c_applied c > 0 then r2\<lparr>r_log := applied_to (c_applied c) (r_log r2)\<rparr> else r2"
  obtain peers learners r1 r2 where r: "rfold add_learner learners (fold add_peer peers (initial_raft c draws l)) = Inr r1"
      "(if \<not> hs_is_empty_state ?hs then load_state ?hs r1 else Inr r1) = Inr r2"
      "become_follower (r_term (?app r2)) 0 (?app r2) = Inr r"
    using Raft_stages[OF assms l] by metis
  have "r_term (fold add_peer peers (initial_raft c draws l)) = 0 \<and> r_vote (fold add_peer peers (initial_raft c draws l)) = 0"
    by (induction peers rule: rev_induct) (simp_all add: add_peer_def initial_raft_def)
  then have "r_term r1 = 0 \<and> r_vote r1 = 0"
    by (rule rfold_invariant [OF r(1)]) (auto simp: add_learner_def Let_def split: if_split_asm)
  then have r2: "r_term r2 = hs_term ?hs \<and> r_vote r2 = hs_vote ?hs"
    using r(2) by (auto simp: load_state_def rbind_Inr_iff hs_is_empty_state_def hs_equal_def HardState_def split: if_split_asm)
  obtain s where "reset (r_term (?app r2)) ((?app r2)\<lparr>r_step := Some StepFollower\<rparr>) = Inr s"
      "r = s\<lparr>r_tick := Some TickElection, r_lead := 0, r_state := Follower\<rparr>"
    using r(3) by (auto simp: become_follower_def elim!: rbind_InrE)
  then show "r_term r = hs_term (ms_hard_state st)" "r_vote r = hs_vote (ms_hard_state st)" "r_votes r = []"
    using reset_frame[of "r_term (?app r2)" "(?app r2)\<lparr>r_step := Some StepFollower\<rparr>" s] r2
    by (auto simp: storage_initial_state_def split: if_splits)
qed

end
