(* ===== verification/Raft_Links.thy ===== *)
theory Raft_Links
  imports Raft_Quiet
begin

text \<open>
  Where the entries of a log come from. A link is an entry together with the term of the position
  before it; a log, and an append message, is a chain of links on top of a base. The relation
  \<open>ships\<close> says that an operation keeps the log and that the append messages it sends carry links of
  that log; it is the second instance of the locale \<open>calm\<close>. \<open>grafts\<close> then describes every step and
  tick: a link of the log afterwards was in the log before, or comes with the append message that is
  handled, or is an entry of the present term that a leader puts at the end.
\<close>

section \<open>Links\<close>

definition links :: "nat \<Rightarrow> u64 \<Rightarrow> entry list \<Rightarrow> (u64 \<times> entry) set" where
  "links b t es = (\<lambda>k. (term_at b t es (b + k), es ! k)) ` {..<length es}"

definition log_links :: "raft_log \<Rightarrow> (u64 \<times> entry) set" where
  "log_links l = links (log_base l) (log_base_term l) (log_ents l)"

definition msg_links :: "message \<Rightarrow> (u64 \<times> entry) set" where
  "msg_links m = (if m_type m = MsgApp then links (unat (m_index m)) (m_log_term m) (m_entries m) else {})"

lemma links_Nil [simp]: "links b t [] = {}"
  by (simp add: links_def)

lemma links_Cons: "links b t (e # es) = insert (t, e) (links (b + 1) (e_term e) es)"
proof -
  have "term_at b t (e # es) (b + Suc k) = term_at (b + 1) (e_term e) es (b + 1 + k)" if "k < length es" for k
    using that by (cases k) (auto simp: term_at_def)
  then show ?thesis by (auto simp: links_def lessThan_Suc_eq_insert_0 image_image term_at_def intro!: image_cong)
qed

lemma links_base: "links b t es = links b' t es"
  by (induction es arbitrary: b b' t) (auto simp: links_Cons)

lemma term_at_Cons: "b < i \<Longrightarrow> term_at b t (e # es) i = term_at (b + 1) (e_term e) es i"
  by (cases "i - b - 1") (auto simp: term_at_def)

lemma links_append:
  "links b t (xs @ ys) = links b t xs \<union> links (b + length xs) (term_at b t xs (b + length xs)) ys"
proof (induction xs arbitrary: b t)
  case (Cons e xs)
  show ?case using Cons.IH[of "b + 1" "e_term e"] by (simp add: links_Cons term_at_Cons)
qed (simp add: term_at_def)

lemma links_take: "links b t (take n es) \<subseteq> links b t es"
  using links_append[of b t "take n es" "drop n es"] by auto

lemma links_drop:
  assumes "n \<le> length es"
  shows "links (b + n) (term_at b t es (b + n)) (drop n es) \<subseteq> links b t es"
proof -
  have "term_at b t (take n es) (b + n) = term_at b t es (b + n)" using assms by (simp add: term_at_take)
  then show ?thesis using links_append[of b t "take n es" "drop n es"] assms by (simp add: min_absorb2)
qed

lemma links_in: "(p, e) \<in> links b t es \<Longrightarrow> e \<in> set es"
  by (auto simp: links_def)

lemma links_at: "b < i \<Longrightarrow> i \<le> b + length es \<Longrightarrow> (term_at b t es (i - 1), es ! (i - b - 1)) \<in> links b t es"
  unfolding links_def by (rule image_eqI [where x = "i - b - 1"]) auto

text \<open>What \<open>maybe_append\<close> leaves in the log comes from the log or from the batch.\<close>

lemma batch_links:
  assumes "app_batch idx trm es l" and "log_term_at l (unat idx) = trm"
    and "log_base l' = log_base l" "log_base_term l' = log_base_term l" "log_ents l' = batch_result idx es l"
  shows "log_links l' \<subseteq> log_links l \<union> links (unat idx) trm es"
proof (cases "conflict_pos l es")
  case None
  then show ?thesis using assms(3-5) by (simp add: batch_result_def log_links_def)
next
  case (Some j)
  note b = app_batchD[OF assms(1)] and c = conflict_pos_SomeD[OF Some]
  let ?n = "unat idx + j - log_base l"
  have in_log: "unat idx + j \<le> log_last l" using batch_in_log[OF assms(1,2), of j] c by simp
  have n: "?n \<le> length (log_ents l)" "log_base l + ?n = unat idx + j"
    using in_log b(4) by (simp_all add: log_last_def)
  have "log_term_at l (unat idx + j) = term_at (unat idx) trm es (unat idx + j)"
  proof (cases j)
    case (Suc i)
    then show ?thesis using c(1) c(3)[of i] contig_index[OF b(1), of i] by (simp add: term_at_def)
  qed (use assms(2) in \<open>simp add: term_at_def\<close>)
  then have joint: "term_at (log_base l) (log_base_term l) (take ?n (log_ents l)) (log_base l + ?n)
      = term_at (unat idx) trm es (unat idx + j)"
    using n by (simp add: log_term_at_def term_at_take)
  have "log_links l' = links (log_base l) (log_base_term l) (take ?n (log_ents l))
      \<union> links (log_base l + ?n) (term_at (unat idx) trm es (unat idx + j)) (drop j es)"
    using Some assms(3-5) n(1) joint by (simp add: batch_result_def log_links_def links_append min_absorb2)
  then show ?thesis
    using links_take[of "log_base l"] links_drop[of j es "unat idx" trm] c(1) n(2) by (fastforce simp: log_links_def)
qed

lemma log_maybe_append_links:
  assumes "log_maybe_append idx trm c es l = Inr (l', i)" and "wf_log l" and "app_batch idx trm es l"
  shows "log_links l' \<subseteq> log_links l \<union> links (unat idx) trm es"
proof (cases "log_term_at l (unat idx) = trm")
  case False
  then show ?thesis using log_maybe_append_mismatch[OF assms(2) False] assms(1) by auto
next
  case True
  have "unat (l_committed l) \<le> unat idx + j" if "conflict_pos l es = Some j" for j
    using log_maybe_append_committed_conflict[OF assms(2,3) True that, of c] assms(1)
    by (cases "unat (l_committed l) \<le> unat idx + j") auto
  from log_maybe_append_ok[OF assms(2,3) True this, of c] obtain l1 where
      "log_maybe_append idx trm c es l = Inr (l1, Some (idx + vec_size es))" "log_base l1 = log_base l"
      "log_base_term l1 = log_base_term l" "log_ents l1 = batch_result idx es l" by blast
  then show ?thesis using batch_links[OF assms(3) True] assms(1) by auto
qed

section \<open>Operations that keep the log\<close>

definition log_view :: "raft_log \<Rightarrow> nat \<times> u64 \<times> entry list" where
  "log_view l = (log_base l, log_base_term l, log_ents l)"

text \<open>The second view of a log is the first one with entries dropped from the front.\<close>

fun trimmed :: "nat \<times> u64 \<times> entry list \<Rightarrow> nat \<times> u64 \<times> entry list \<Rightarrow> bool" where
  "trimmed (b, t, es) (b', t', es') \<longleftrightarrow>
     b \<le> b' \<and> b' \<le> b + length es \<and> t' = term_at b t es b' \<and> es' = drop (b' - b) es"

lemma trimmed_refl [simp]: "trimmed v v"
  by (cases v) (simp add: term_at_def)

lemma trimmed_links:
  assumes "trimmed (b, t, es) (b', t', es')"
  shows "links b' t' es' \<subseteq> links b t es" and "b' + length es' = b + length es"
proof -
  have k: "b' - b \<le> length es" "b + (b' - b) = b'" "t' = term_at b t es b'" "es' = drop (b' - b) es" using assms by auto
  then show "links b' t' es' \<subseteq> links b t es" using links_drop[OF k(1), of b t] by simp
  show "b' + length es' = b + length es" using k assms by simp
qed

lemma trimmed_log:
  assumes "trimmed (log_view l) (log_view l')"
  shows "log_links l' \<subseteq> log_links l" and "log_last l' = log_last l"
  using trimmed_links[OF assms[unfolded log_view_def]] by (simp_all add: log_links_def log_last_def)

lemma log_view_committed [simp]: "log_view (l\<lparr>l_committed := c\<rparr>) = log_view l"
  by (simp add: log_view_def)

lemma log_view_links: "log_view l = log_view l' \<Longrightarrow> log_links l = log_links l' \<and> log_last l = log_last l'"
  by (simp add: log_view_def log_links_def log_last_def)

text \<open>The messages sent by an operation carry links in \<open>A\<close>.\<close>

definition cut_from :: "(u64 \<times> entry) set \<Rightarrow> raft \<Rightarrow> raft \<Rightarrow> bool" where
  "cut_from A r r' \<longleftrightarrow> (\<exists>ms. r_msgs r' = r_msgs r @ ms \<and> (\<forall>x\<in>set ms. msg_links x \<subseteq> A))"

definition ships :: "raft \<Rightarrow> raft \<Rightarrow> bool" where
  "ships r r' \<longleftrightarrow> (wf_log (r_log r) \<longrightarrow>
     wf_log (r_log r') \<and> log_view (r_log r') = log_view (r_log r) \<and> cut_from (log_links (r_log r)) r r')"

lemma cut_from_none: "r_msgs r' = r_msgs r \<Longrightarrow> cut_from A r r'"
  by (simp add: cut_from_def)

lemma cut_from_trans:
  assumes "cut_from A r s" and "cut_from B s t" and "A \<subseteq> C" and "B \<subseteq> C"
  shows "cut_from C r t"
proof -
  obtain ms ms' where "r_msgs s = r_msgs r @ ms" "\<forall>x\<in>set ms. msg_links x \<subseteq> A"
      "r_msgs t = r_msgs s @ ms'" "\<forall>x\<in>set ms'. msg_links x \<subseteq> B"
    using assms(1,2) unfolding cut_from_def by blast
  then show ?thesis unfolding cut_from_def using assms(3,4) by (intro exI [of _ "ms @ ms'"]) (simp add: ball_Un, blast)
qed

lemma cut_from_mono: "cut_from A r r' \<Longrightarrow> A \<subseteq> B \<Longrightarrow> cut_from B r r'"
  by (auto simp: cut_from_def)

lemma shipsD:
  assumes "ships r r'" and "wf_log (r_log r)"
  shows "wf_log (r_log r')" "log_view (r_log r') = log_view (r_log r)" "cut_from (log_links (r_log r)) r r'"
    "log_links (r_log r') = log_links (r_log r)" "log_last (r_log r') = log_last (r_log r)"
  using assms log_view_links[of "r_log r'" "r_log r"] by (simp_all add: ships_def)

lemma ships_trans:
  assumes "ships r s" and "ships s t"
  shows "ships r t"
proof -
  have "wf_log (r_log t) \<and> log_view (r_log t) = log_view (r_log r) \<and> cut_from (log_links (r_log r)) r t" if w: "wf_log (r_log r)"
  proof -
    note a = shipsD[OF assms(1) w]
    note b = shipsD[OF assms(2) a(1)]
    show ?thesis using b(1,2) a(2) cut_from_trans[OF a(3) b(3), of "log_links (r_log r)"] a(4) by simp
  qed
  then show ?thesis by (simp add: ships_def)
qed

lemma ships_eq: "r_msgs r' = r_msgs r \<Longrightarrow> r_log r' = r_log r \<Longrightarrow> ships r r'"
  by (simp add: ships_def cut_from_none)

lemma send_ships:
  assumes "send m r = Inr r'" and "wf_log (r_log r) \<Longrightarrow> msg_links m \<subseteq> log_links (r_log r)"
  shows "ships r r'"
proof -
  obtain m' where r': "r' = r\<lparr>r_msgs := r_msgs r @ [m']\<rparr>" "m' = m\<lparr>m_from := r_id r, m_term := m_term m'\<rparr>"
    using assms(1) by (rule send_cases)
  have "msg_links m' = msg_links m" by (subst r'(2)) (simp add: msg_links_def)
  then show ?thesis using r'(1) assms(2) by (simp add: ships_def cut_from_def)
qed

lemma put_send_ships:
  assumes "send m (put_progress i p r) = Inr r'" and "wf_log (r_log r) \<Longrightarrow> msg_links m \<subseteq> log_links (r_log r)"
  shows "ships r r'"
proof -
  have l: "r_msgs (put_progress i p r) = r_msgs r" "r_log (put_progress i p r) = r_log r" by (simp_all add: put_progress_def)
  show ?thesis by (rule ships_trans [OF ships_eq [OF l] send_ships [OF assms(1)]]) (use assms(2) l in simp)
qed

text \<open>The entries that the log hands out for a position, with the term before it, are links of the log.\<close>

lemma log_entries_links:
  assumes "wf_log l" and "log_term l (i - 1) = Inr (Inr t)" and "log_entries l i mx = Inr (Inr es)"
  shows "links b t es \<subseteq> log_links l"
proof (cases "es = []")
  case False
  note w = wf_logD(1)[OF assms(1)] and s = sent_index[OF assms(1,3) False]
  let ?n = "unat i - (log_base l + 1)"
  have n: "?n \<le> length (log_ents l)" "log_base l + ?n = unat (i - 1)"
    using s(1,4) False unat_sub_1[of i] by (auto simp: log_last_def length_greater_0_conv [symmetric] simp del: length_greater_0_conv)
  have "t = term_at (log_base l) (log_base_term l) (log_ents l) (log_base l + ?n)"
    using log_term_ok[OF w, of "i - 1"] assms(2) n(2) by (simp add: log_term_at_def)
  then have "links (log_base l + ?n) t (drop ?n (log_ents l)) \<subseteq> log_links l"
    using links_drop[OF n(1)] by (simp add: log_links_def)
  moreover have "es = take (length es) (drop ?n (log_ents l))" using s(2) by (auto simp: prefix_def)
  ultimately show ?thesis using links_take[of "log_base l + ?n" t "length es" "drop ?n (log_ents l)"] links_base[of b t es]
    by (metis order_trans)
qed simp

lemma maybe_send_append_ships:
  assumes "maybe_send_append to e r = Inr (r', b)"
  shows "ships r r'"
proof -
  obtain s where s: "log_snapshot (r_log r) = Inr (Inr s)" using log_snapshot_ok by blast
  have snap: "ships r r'" if "send_snapshot to pr r = Inr (r', b)" for pr
    using that s by (auto simp: send_snapshot_def rbind_Inr_iff ships_eq msg_links_def split: if_splits elim!: put_send_ships)
  obtain pr where pr: "get_progress r to = Some pr" using assms by (auto simp: maybe_send_append_def rbind_Inr_iff)
  show ?thesis
  proof (cases "is_paused pr")
    case False
    then obtain trm ents where te: "log_term (r_log r) (pr_next pr - 1) = Inr trm"
        "log_entries (r_log r) (pr_next pr) (r_max_msg_size r) = Inr ents"
      using assms pr by (auto simp: maybe_send_append_def rbind_Inr_iff)
    show ?thesis
    proof (cases "\<exists>t es. trm = Inr t \<and> ents = Inr es")
      case True
      then obtain t es where h: "trm = Inr t" "ents = Inr es" by blast
      have "r' = r \<or> (\<exists>p. send (Message\<lparr>m_to := to, m_type := MsgApp, m_index := pr_next pr - 1,
            m_log_term := t, m_entries := es, m_commit := l_committed (r_log r)\<rparr>) (put_progress to p r) = Inr r')"
        using assms pr False te h by (auto simp: maybe_send_append_def rbind_Inr_iff Let_def split: if_split_asm)
      moreover have "wf_log (r_log r) \<Longrightarrow> links (unat (pr_next pr - 1)) t es \<subseteq> log_links (r_log r)"
        using log_entries_links te h by blast
      ultimately show ?thesis by (auto simp: ships_eq msg_links_def elim!: put_send_ships)
    next
      case F: False
      then have "r' = r \<or> send_snapshot to pr r = Inr (r', b)"
        using assms pr False te
        by (cases trm; cases ents) (auto simp: maybe_send_append_def rbind_Inr_iff Let_def split: if_split_asm)
      then show ?thesis using snap ships_eq by blast
    qed
  qed (use assms pr in \<open>simp add: maybe_send_append_def ships_eq\<close>)
qed

lemma maybe_commit_ships:
  assumes "maybe_commit r = Inr (r', b)"
  shows "ships r r'"
proof -
  have "wf_log (r_log r') \<and> log_view (r_log r') = log_view (r_log r) \<and> cut_from (log_links (r_log r)) r r'" if w: "wf_log (r_log r)"
  proof -
    obtain buf l where l: "r' = r\<lparr>r_match_buf := buf, r_log := l\<rparr>" "wf_log l" "l = (r_log r)\<lparr>l_committed := l_committed l\<rparr>"
      using maybe_commit_cases[OF assms w] by metis
    have "log_view l = log_view (r_log r)" by (subst l(3)) simp
    then show ?thesis using l(1,2) by (simp add: cut_from_none)
  qed
  then show ?thesis by (simp add: ships_def)
qed

lemma become_follower_ships: "become_follower trm lead r = Inr r' \<Longrightarrow> ships r r'"
  by (auto simp: become_follower_def elim!: rbind_InrE dest!: reset_frame intro!: ships_eq)

interpretation ships: calm_members ships "\<lambda>_ _. True"
proof
  show "ships r r'" if "send m r = Inr r'" "m_type m \<notin> {MsgVote, MsgVoteResp, MsgApp, MsgHeartbeat, MsgSnap}" for m r r'
    by (rule send_ships [OF that(1)]) (use that(2) in \<open>simp add: msg_links_def\<close>)
  show "ships r r'" if "send_heartbeat i c r = Inr r'" for i c r r'
    using that by (auto simp: send_heartbeat_def rbind_Inr_iff msg_links_def elim!: send_ships)
qed (auto simp: put_progress_def intro: ships_eq ships_trans maybe_send_append_ships maybe_commit_ships become_follower_ships)

section \<open>Operations that change the log\<close>

definition fresh :: "raft \<Rightarrow> raft \<Rightarrow> (u64 \<times> entry) set" where
  "fresh r r' = {(p, e). r_state r' = Leader \<and> e_term e = r_term r' \<and> log_last (r_log r) < unat (e_index e)}"

definition grafts :: "message \<Rightarrow> raft \<Rightarrow> raft \<Rightarrow> bool" where
  "grafts m r r' \<longleftrightarrow> log_links (r_log r') \<subseteq> log_links (r_log r) \<union> msg_links m \<union> fresh r r'
     \<and> cut_from (log_links (r_log r) \<union> log_links (r_log r')) r r'
     \<and> (r_state r' = Leader \<longrightarrow> log_last (r_log r) \<le> log_last (r_log r'))"

lemma ships_grafts:
  assumes "ships r r'" and "wf_log (r_log r)"
  shows "grafts m r r'"
  using shipsD[OF assms] by (auto simp: grafts_def)

lemma ships_then_grafts:
  assumes "ships r s" and "wf_log (r_log r)" and "grafts m s t"
  shows "grafts m r t"
proof -
  note s = shipsD[OF assms(1,2)]
  have "cut_from (log_links (r_log s) \<union> log_links (r_log t)) s t" using assms(3) by (simp add: grafts_def)
  then have "cut_from (log_links (r_log r) \<union> log_links (r_log t)) r t"
    by (rule cut_from_trans [OF s(3)]) (use s(4) in auto)
  moreover have "fresh s t = fresh r t" using s(5) by (simp add: fresh_def)
  ultimately show ?thesis using assms(3) s(4,5) by (simp add: grafts_def)
qed

lemma grafts_then_ships:
  assumes "grafts m r s" and "ships s t" and "wf_log (r_log s)" and "r_state t = r_state s" and "r_term t = r_term s"
  shows "grafts m r t"
proof -
  note t = shipsD[OF assms(2,3)]
  have "cut_from (log_links (r_log r) \<union> log_links (r_log s)) r s" using assms(1) by (simp add: grafts_def)
  then have "cut_from (log_links (r_log r) \<union> log_links (r_log t)) r t"
    by (rule cut_from_trans [OF _ t(3)]) (use t(4) in auto)
  moreover have "fresh r t = fresh r s" using assms(4,5) by (simp add: fresh_def)
  ultimately show ?thesis using assms(1,4) t(4,5) by (simp add: grafts_def)
qed

text \<open>A leader that puts entries of its term at the end of its log.\<close>

definition extends :: "raft \<Rightarrow> raft \<Rightarrow> bool" where
  "extends r r' \<longleftrightarrow> wf_log (r_log r') \<and> r_msgs r' = r_msgs r \<and> r_state r' = r_state r \<and> r_term r' = r_term r
     \<and> log_base (r_log r') = log_base (r_log r) \<and> log_base_term (r_log r') = log_base_term (r_log r)
     \<and> (\<exists>ns. log_ents (r_log r') = log_ents (r_log r) @ ns \<and> (\<forall>e\<in>set ns. e_term e = r_term r))"

lemma extends_grafts:
  assumes "extends r r'" and "r_state r = Leader"
  shows "grafts m r r'"
proof -
  obtain ns where ns: "log_ents (r_log r') = log_ents (r_log r) @ ns" "\<forall>e\<in>set ns. e_term e = r_term r"
    using assms(1) by (auto simp: extends_def)
  have b: "log_base (r_log r') = log_base (r_log r)" "log_base_term (r_log r') = log_base_term (r_log r)"
    using assms(1) by (simp_all add: extends_def)
  have "contig (log_base (r_log r) + 1) (log_ents (r_log r) @ ns)"
    using assms(1) log_contig[OF wf_logD(1)] ns(1) b by (metis extends_def)
  then have "contig (log_last (r_log r) + 1) ns" by (simp add: contig_append log_last_def add.assoc add.commute)
  then have "log_last (r_log r) < unat (e_index e)" if "e \<in> set ns" for e
    using that contig_index by (fastforce simp: in_set_conv_nth)
  then have "log_links (r_log r') \<subseteq> log_links (r_log r) \<union> fresh r r'"
    using ns b assms by (auto simp: log_links_def links_append fresh_def extends_def dest: links_in)
  then show ?thesis using assms(1) ns(1) b by (auto simp: grafts_def extends_def log_last_def cut_from_none)
qed

lemma append_entry_extends:
  assumes "append_entry es r = Inr (r', ok)" and "wf_log (r_log r)" and "log_last (r_log r) + length es + 1 < 2 ^ 64"
  shows "extends r r'" and "ok \<Longrightarrow> log_last (r_log r') = log_last (r_log r) + length es"
proof -
  obtain li where li: "log_last_index (r_log r) = Inr li"
    using log_last_index_ok[OF wf_logD(1)[OF assms(2)]] by auto
  let ?ns = "number_entries (r_term r) (li + 1) es"
  obtain l i where l: "log_append ?ns (r_log r) = Inr (l, i)" "wf_log l"
      "log_base l = log_base (r_log r)" "log_base_term l = log_base_term (r_log r)"
      "log_ents l = log_ents (r_log r) @ ?ns"
    using log_append_tail[OF assms(2) li assms(3)] by blast
  define r1 where "r1 = fst (increase_uncommitted_size ?ns r)"
  have r1: "r_msgs r1 = r_msgs r" "r_state r1 = r_state r" "r_term r1 = r_term r" "r_log r1 = r_log r"
    by (simp_all add: r1_def increase_uncommitted_size_def Let_def)
  have "(r' = r1 \<and> \<not> ok) \<or> (\<exists>p b. maybe_commit (put_progress (r_id r) p (r1\<lparr>r_log := l\<rparr>)) = Inr (r', b))"
  proof (cases "snd (increase_uncommitted_size ?ns r)")
    case True
    have "r_id r1 = r_id r" by (simp add: r1_def increase_uncommitted_size_def Let_def)
    then show ?thesis using assms(1) li l(1) True r1(4)
      by (auto simp: append_entry_def Let_def rbind_Inr_iff split_def r1_def [symmetric])
  qed (use assms(1) li in \<open>auto simp: append_entry_def Let_def rbind_Inr_iff split_def r1_def\<close>)
  then have "extends r r' \<and> (ok \<longrightarrow> log_last (r_log r') = log_last (r_log r) + length es)"
  proof (elim disjE exE conjE)
    fix p b
    let ?r = "put_progress (r_id r) p (r1\<lparr>r_log := l\<rparr>)"
    assume c: "maybe_commit ?r = Inr (r', b)"
    have k: "r_msgs ?r = r_msgs r" "r_state ?r = r_state r" "r_term ?r = r_term r" "r_log ?r = l"
      using r1 by (simp_all add: put_progress_def)
    obtain buf l' where c': "r' = ?r\<lparr>r_match_buf := buf, r_log := l'\<rparr>" "wf_log l'" "l' = l\<lparr>l_committed := l_committed l'\<rparr>"
      using maybe_commit_cases[OF c] l(2) k(4) by metis
    have "log_base l' = log_base l" "log_base_term l' = log_base_term l" "log_ents l' = log_ents l"
      by (subst c'(3), simp)+
    then show ?thesis using k c'(1,2) l number_entries_term by (auto simp: extends_def log_last_def)
  qed (use r1 assms(2) in \<open>simp add: extends_def\<close>)
  then show "extends r r'" and "ok \<Longrightarrow> log_last (r_log r') = log_last (r_log r) + length es" by simp_all
qed

lemma become_leader_grafts:
  assumes "become_leader r = Inr r'" and "wf_log (r_log r)" and "log_last (r_log r) + 2 < 2 ^ 64"
  shows "grafts m r r'" and "wf_log (r_log r')"
proof -
  obtain r1 where r1: "reset (r_term r) (r\<lparr>r_step := Some StepLeader\<rparr>) = Inr r1"
    using assms by (auto simp: become_leader_def rbind_Inr_iff split: if_split_asm)
  let ?r2 = "\<lambda>A i. r1\<lparr>r_tick := Some TickHeartbeat, r_lead := r_id r1, r_state := Leader, r_prs := A, r_pending_conf_index := i\<rparr>"
  obtain A i r4 where r4: "append_entry [Entry] (?r2 A i) = Inr (r4, True)" "r' = reduce_uncommitted_size [Entry] r4"
    using assms(1) r1 by (auto simp: become_leader_def Let_def elim!: rbind_InrE split: if_split_asm option.split_asm)
  have f: "ships r (?r2 A i)" "r_log (?r2 A i) = r_log r" using reset_frame[OF r1] by (auto intro: ships_eq)
  have e: "extends (?r2 A i) r4" by (rule append_entry_extends(1) [OF r4(1)]) (use assms(2,3) f(2) in simp_all)
  then have w: "wf_log (r_log r4)" by (simp add: extends_def)
  have "ships r4 r'" "r_state r' = r_state r4" "r_term r' = r_term r4" "r_log r' = r_log r4"
    by (auto simp: r4(2) reduce_uncommitted_size_def Let_def intro: ships_eq)
  then show "wf_log (r_log r')" "grafts m r r'"
    using w ships_then_grafts[OF f(1) assms(2) grafts_then_ships [OF extends_grafts [OF e]]] by simp_all
qed

lemma votes_ship:
  assumes "rfold (request_vote ct v trm) ids r = Inr r'" and "is_vote_type v"
  shows "ships r r'"
proof -
  have "v \<noteq> MsgApp" using assms(2) by (auto simp: is_vote_type_def)
  then show ?thesis using request_votes_sent[OF assms] by (auto simp: ships_def cut_from_def msg_links_def)
qed

lemma election_grafts:
  assumes "campaign ct r = Inr r'" and "ct \<noteq> kCampaignPreElection" and "wf_log (r_log r)" and "log_last (r_log r) + 2 < 2 ^ 64"
  shows "grafts m r r'"
proof -
  obtain c where c: "become_candidate r = Inr c"
    using assms by (auto simp: campaign.simps [of ct r] rbind_Inr_iff)
  have f: "r_msgs c = r_msgs r" "r_log c = r_log r"
    using c by (auto simp: become_candidate_def elim!: rbind_InrE dest!: reset_frame split: if_split_asm)
  let ?c = "c\<lparr>r_votes := [(r_id r, True)]\<rparr>"
  have V: "become_leader ?c = Inr r' \<or> rfold (request_vote ct MsgVote (r_term c)) (map fst (r_prs c)) ?c = Inr r'"
    using assms c become_candidate_frame[OF c]
    by (auto simp: campaign.simps [of ct r] rbind_Inr_iff poll_def Let_def vote_resp_msg_type_def split: if_split_asm)
  have c': "ships r ?c" "wf_log (r_log ?c)" "log_last (r_log ?c) + 2 < 2 ^ 64" using f assms(3,4) by (simp_all add: ships_eq)
  from V have "grafts m ?c r'"
    using become_leader_grafts[OF _ c'(2,3)] ships_grafts[OF votes_ship c'(2)] by (auto simp: is_vote_type_def)
  then show ?thesis by (rule ships_then_grafts [OF c'(1) assms(3)])
qed

lemma campaign_grafts:
  assumes "campaign ct r = Inr r'" and "wf_log (r_log r)" and "log_last (r_log r) + 2 < 2 ^ 64"
  shows "grafts m r r'"
proof (cases "ct = kCampaignPreElection")
  case True
  obtain c where c: "become_pre_candidate r = Inr c"
    using assms True by (auto simp: campaign.simps [of kCampaignPreElection r] rbind_Inr_iff)
  let ?c = "c\<lparr>r_votes := [(r_id c, True)]\<rparr>"
  have f: "ships r ?c" "r_votes c = []" "r_log ?c = r_log r"
    using c by (auto simp: become_pre_candidate_def intro!: ships_eq split: if_split_asm)
  have "campaign kCampaignElection ?c = Inr r'
      \<or> rfold (request_vote ct MsgPreVote (r_term c + 1)) (map fst (r_prs c)) ?c = Inr r'"
    using assms c True f(2)
    by (auto simp: campaign.simps [of kCampaignPreElection r] rbind_Inr_iff poll_def Let_def vote_resp_msg_type_def
        split: if_split_asm)
  then have "grafts m ?c r'"
    using election_grafts[of kCampaignElection ?c r'] votes_ship[of ct MsgPreVote _ _ ?c r'] ships_grafts[of ?c r'] assms(2,3) f(3)
    by (auto simp: is_vote_type_def kCampaignElection_def kCampaignPreElection_def)
  then show ?thesis by (rule ships_then_grafts [OF f(1) assms(2)])
qed (rule election_grafts [OF assms(1) _ assms(2,3)])

section \<open>The handlers\<close>

lemma send_reply_ships: "send x r = Inr r' \<Longrightarrow> m_type x \<noteq> MsgApp \<Longrightarrow> ships r r'"
  by (erule send_ships) (simp add: msg_links_def)

lemma grafts_reply:
  assumes "grafts m r s" and "send x s = Inr r'" and "m_type x \<noteq> MsgApp" and "wf_log (r_log s)"
  shows "grafts m r r'"
  by (rule grafts_then_ships [OF assms(1) send_reply_ships [OF assms(2,3)] assms(4)])
    (simp_all add: sends_frame[OF send_sends [OF assms(2)]])

text \<open>A node that is no leader takes the log \<open>l\<close> and answers.\<close>

lemma reply_grafts:
  assumes "send x (r\<lparr>r_log := l\<rparr>) = Inr r'" and "m_type x \<noteq> MsgApp" and "wf_log l" and "r_state r \<noteq> Leader"
    and "log_links l \<subseteq> log_links (r_log r) \<union> msg_links m"
  shows "grafts m r r'"
  by (rule grafts_reply [OF _ assms(1,2)]) (use assms(3-5) in \<open>auto simp: grafts_def cut_from_none\<close>)

lemma handle_append_entries_grafts:
  assumes "handle_append_entries m r = Inr r'" and "wf_raft r" and "wf_msg m" and "m_type m = MsgApp" and "r_state r \<noteq> Leader"
  shows "grafts m r r'"
proof (cases "m_index m < l_committed (r_log r)")
  case True
  then have "ships r r'" using assms(1) by (auto simp: handle_append_entries_def elim!: send_reply_ships)
  then show ?thesis using ships_grafts wf_raftD(1)[OF assms(2)] by blast
next
  case False
  note wl = wf_raftD(1)[OF assms(2)] and w = wf_logD[OF wf_raftD(1)[OF assms(2)]]
  have b: "app_batch (m_index m) (m_log_term m) (m_entries m) (r_log r)"
    using assms(3,4) False w(4) by (auto simp: app_batch_def wf_msg_def word_less_nat_alt)
  obtain l i where l: "log_maybe_append (m_index m) (m_log_term m) (m_commit m) (m_entries m) (r_log r) = Inr (l, i)"
    using assms(1) False by (auto simp: handle_append_entries_def elim: rbind_InrE)
  have "\<exists>x. send x (r\<lparr>r_log := l\<rparr>) = Inr r' \<and> m_type x \<noteq> MsgApp"
  proof (cases i)
    case None
    then obtain h where "send (Message\<lparr>m_to := m_from m, m_type := MsgAppResp, m_index := m_index m,
        m_reject := True, m_reject_hint := h\<rparr>) (r\<lparr>r_log := l\<rparr>) = Inr r'"
      using assms(1) False l by (auto simp: handle_append_entries_def Let_def elim!: rbind_InrE)
    then show ?thesis by (intro exI conjI, assumption) simp
  next
    case (Some k)
    then have "send (Message\<lparr>m_to := m_from m, m_type := MsgAppResp, m_index := k\<rparr>) (r\<lparr>r_log := l\<rparr>) = Inr r'"
      using assms(1) False l by (simp add: handle_append_entries_def Let_def)
    then show ?thesis by (intro exI conjI, assumption) simp
  qed
  then obtain x where s: "send x (r\<lparr>r_log := l\<rparr>) = Inr r'" "m_type x \<noteq> MsgApp" by blast
  have "log_links l \<subseteq> log_links (r_log r) \<union> msg_links m"
    using log_maybe_append_links[OF l wl b] assms(4) by (simp add: msg_links_def)
  then show ?thesis using reply_grafts[OF s _ assms(5)] log_maybe_append_wf[OF l wl b] by blast
qed

lemma commit_to_view:
  assumes "commit_to c l = Inr l'" and "wf_log l"
  shows "wf_log l'" "log_view l' = log_view l"
proof -
  have h: "wf_log l' \<and> l' = l\<lparr>l_committed := max (l_committed l) c\<rparr>" by (rule commit_to_cases [OF assms])
  then show "wf_log l'" by (rule conjunct1)
  show "log_view l' = log_view l" using h log_view_committed by metis
qed

lemma handle_heartbeat_grafts:
  assumes "handle_heartbeat m r = Inr r'" and "wf_log (r_log r)" and "r_state r \<noteq> Leader"
  shows "grafts m r r'"
proof -
  obtain l x where l: "commit_to (m_commit m) (r_log r) = Inr l" "send x (r\<lparr>r_log := l\<rparr>) = Inr r'" "m_type x \<noteq> MsgApp"
    using assms(1) by (auto simp: handle_heartbeat_def rbind_Inr_iff)
  note c = commit_to_view[OF l(1) assms(2)]
  show ?thesis by (rule reply_grafts [OF l(2,3) c(1) assms(3)]) (use log_view_links[OF c(2)] in auto)
qed

lemma restore_node_frame:
  assumes "restore_node ids c r = Inr r'"
  shows "r_log r' = r_log r \<and> r_msgs r' = r_msgs r \<and> r_state r' = r_state r"
  by (rule rfold_invariant [OF assms [unfolded restore_node_def]])
    (auto simp: restore_one_def set_progress_def Let_def elim!: rbind_InrE split: if_split_asm)

lemma restore_grafts:
  assumes "restore s r = Inr (r', b)" and "wf_log (r_log r)" and "r_state r \<noteq> Leader" and "unat (s_index s) + 1 < 2 ^ 64"
  shows "grafts m r r'" and "wf_log (r_log r')"
proof -
  let ?r0 = "r\<lparr>r_log := log_restore s (r_log r), r_prs := [], r_learner_prs := []\<rparr>"
  have "r' = r \<or> (\<exists>l. commit_to (s_index s) (r_log r) = Inr l \<and> r' = r\<lparr>r_log := l\<rparr>)
      \<or> (\<exists>r1 ids ids'. restore_node ids False ?r0 = Inr r1 \<and> restore_node ids' True r1 = Inr r')"
    using assms(1) by (auto simp: restore_def elim!: rbind_InrE split: if_split_asm) blast+
  then have "grafts m r r' \<and> wf_log (r_log r')"
  proof (elim disjE exE conjE)
    fix l assume l: "commit_to (s_index s) (r_log r) = Inr l" "r' = r\<lparr>r_log := l\<rparr>"
    note c = commit_to_view[OF l(1) assms(2)]
    then show ?thesis using l(2) log_view_links[OF c(2)] assms(3) by (auto simp: grafts_def cut_from_none)
  next
    fix r1 ids ids' assume n: "restore_node ids False ?r0 = Inr r1" "restore_node ids' True r1 = Inr r'"
    have "r_log r' = log_restore s (r_log r)" "r_msgs r' = r_msgs r" "r_state r' = r_state r"
      using restore_node_frame[OF n(1)] restore_node_frame[OF n(2)] by simp_all
    then show ?thesis using wf_log_restore[OF assms(2,4)] assms(3) by (simp add: grafts_def cut_from_none log_links_def)
  qed (use assms(2) in \<open>simp_all add: ships_grafts\<close>)
  then show "grafts m r r'" "wf_log (r_log r')" by simp_all
qed

lemma handle_snapshot_grafts:
  assumes "handle_snapshot m r = Inr r'" and "wf_log (r_log r)" and "r_state r \<noteq> Leader" and "wf_msg m" and "m_type m = MsgSnap"
  shows "grafts m r r'"
proof -
  obtain r1 b where r1: "restore (m_snapshot m) r = Inr (r1, b)"
      "send (Message\<lparr>m_to := m_from m, m_type := MsgAppResp\<rparr>) r1 = Inr r'"
    using assms(1) by (auto simp: handle_snapshot_def rbind_Inr_iff split: if_splits)
  have "unat (s_index (m_snapshot m)) + 1 < 2 ^ 64" using assms(4,5) by (simp add: wf_msg_def)
  note g = restore_grafts[OF r1(1) assms(2,3) this]
  show ?thesis by (rule grafts_reply [OF g(1) r1(2) _ g(2)]) simp
qed

text \<open>A follower, on whatever message.\<close>

lemma from_leader_grafts:
  assumes "(m_type m = MsgApp \<and> handle_append_entries m r = Inr r') \<or> handle_heartbeat m r = Inr r'
      \<or> (m_type m = MsgSnap \<and> handle_snapshot m r = Inr r')"
    and "wf_raft r" and "wf_msg m" and "r_state r \<noteq> Leader"
  shows "grafts m r r'"
  using assms handle_append_entries_grafts handle_heartbeat_grafts handle_snapshot_grafts wf_raftD(1)[OF assms(2)] by blast

lemma step_follower_grafts:
  assumes "step_follower m r = Inr (r', s)" and "wf_raft r" and "wf_msg m" and "room m r" and "r_state r = Follower"
  shows "grafts m r r'"
proof -
  let ?f = "r\<lparr>r_election_elapsed := 0, r_lead := m_from m\<rparr>"
  note wl = wf_raftD(1)[OF assms(2)]
  have f: "wf_raft ?f" using lead_advances[OF assms(2)] assms(5) by (intro advances_wf) auto
  have "ships r r' \<or> ((m_type m = MsgApp \<and> handle_append_entries m ?f = Inr r') \<or> handle_heartbeat m ?f = Inr r'
      \<or> (m_type m = MsgSnap \<and> handle_snapshot m ?f = Inr r')) \<or> campaign kCampaignTransfer r = Inr r'"
    using assms(1)
    by (auto simp: step_follower_def Let_def finish_Inr_iff dropped_Inr_iff dest!: send_reply_ships
        split: if_split_asm list.split_asm)
  then show ?thesis
  proof (elim disjE [of "ships r r'"] disjE [of _ "campaign kCampaignTransfer r = Inr r'"])
    assume "(m_type m = MsgApp \<and> handle_append_entries m ?f = Inr r') \<or> handle_heartbeat m ?f = Inr r'
      \<or> (m_type m = MsgSnap \<and> handle_snapshot m ?f = Inr r')"
    then have "grafts m ?f r'" using f assms(3,5) by (intro from_leader_grafts) simp_all
    then show ?thesis by (rule ships_then_grafts [OF ships_eq wl, rotated 2]) simp_all
  next
    assume "campaign kCampaignTransfer r = Inr r'"
    then show ?thesis by (rule campaign_grafts [OF _ wl]) (use assms(4) in \<open>simp add: room_def\<close>)
  qed (rule ships_grafts [OF _ wl])
qed

lemma step_vote_resp_grafts:
  assumes "step_vote_resp m r = Inr r'" and "wf_log (r_log r)" and "log_last (r_log r) + 2 < 2 ^ 64"
  shows "grafts m r r'"
proof -
  obtain r1 g where p: "poll (m_from m) (m_type m) (\<not> m_reject m) r = Inr (r1, g)"
    using assms(1) by (auto simp: step_vote_resp_def rbind_Inr_iff)
  obtain votes where v: "r1 = r\<lparr>r_votes := votes\<rparr>" using poll_cases[OF p] by metis
  have r1: "ships r r1" "wf_log (r_log r1)" "log_last (r_log r1) + 2 < 2 ^ 64" using v assms(2,3) by (simp_all add: ships_eq)
  have "campaign kCampaignElection r1 = Inr r' \<or> (\<exists>r2. become_leader r1 = Inr r2 \<and> bcast_append r2 = Inr r')
      \<or> ships r1 r'"
    using assms(1) p by (auto simp: step_vote_resp_def rbind_Inr_iff Let_def split: if_split_asm intro: become_follower_ships)
  moreover have "grafts m r1 r'" if h: "become_leader r1 = Inr r2" "bcast_append r2 = Inr r'" for r2
  proof -
    note b = become_leader_grafts[OF h(1) r1(2,3)]
    show ?thesis by (rule grafts_then_ships [OF b(1) ships.bcast_calm(1) [OF h(2)] b(2)])
        (simp_all add: sends_frame[OF bcast_append_sends [OF h(2) b(2)]])
  qed
  ultimately have "grafts m r1 r'" using campaign_grafts[OF _ r1(2,3)] ships_grafts[OF _ r1(2)] by blast
  then show ?thesis by (rule ships_then_grafts [OF r1(1) assms(2)])
qed

lemma step_candidate_grafts:
  assumes "step_candidate m r = Inr (r', s)" and "wf_raft r" and "wf_msg m" and "room m r"
    and "m_term m = 0 \<or> r_term r \<le> m_term m"
  shows "grafts m r r'"
proof -
  note wl = wf_raftD(1)[OF assms(2)]
  consider (same) "r' = r"
    | (led) r1 where "become_follower (m_term m) (m_from m) r = Inr r1"
        "m_type m = MsgApp \<or> m_type m = MsgHeartbeat \<or> m_type m = MsgSnap"
        "(m_type m = MsgApp \<and> handle_append_entries m r1 = Inr r') \<or> handle_heartbeat m r1 = Inr r'
          \<or> (m_type m = MsgSnap \<and> handle_snapshot m r1 = Inr r')"
    | (resp) "step_vote_resp m r = Inr r'"
    using assms(1)
    by (auto simp: step_candidate_def finish_Inr_iff dropped_Inr_iff rbind_Inr_iff split: if_splits)
  then show ?thesis
  proof cases
    case (led r1)
    have "r_term r \<le> m_term m" using assms(3,5) led(2) by (auto simp: wf_msg_def)
    note a = become_follower_advances[OF led(1) assms(2) this]
    have "grafts m r1 r'" by (rule from_leader_grafts [OF led(3) advances_wf [OF a(1)] assms(3)]) (simp add: a(3))
    then show ?thesis by (rule ships_then_grafts [OF become_follower_ships [OF led(1)] wl])
  next
    case resp
    then show ?thesis by (rule step_vote_resp_grafts [OF _ wl]) (use assms(4) in \<open>simp add: room_def\<close>)
  qed (simp add: ships_grafts wl)
qed

lemma step_leader_grafts:
  assumes "step_leader m r = Inr (r', s)" and "wf_log (r_log r)" and "room m r" and "r_state r = Leader"
  shows "grafts m r r'"
proof (cases "m_type m = MsgProp")
  case True
  then have "step_leader_prop m r = Inr (r', s)" using assms(1) by (simp add: step_leader_def)
  then have "r' = r \<or> (\<exists>lst r1 ok. append_entry (snd (screen_conf lst (l_applied (r_log r)) 0 (r_pending_conf_index r) (m_entries m)))
          (r\<lparr>r_pending_conf_index := fst (screen_conf lst (l_applied (r_log r)) 0 (r_pending_conf_index r) (m_entries m))\<rparr>)
          = Inr (r1, ok)
      \<and> (r' = r1 \<or> bcast_append r1 = Inr r'))"
    by (simp add: step_leader_prop_def rbind_Inr_iff Let_def split_def dropped_Inr_iff finish_Inr_iff split: if_split_asm)
      (metis prod.collapse)+
  moreover have "grafts m r r'" if ap: "append_entry (snd (screen_conf lst a 0 p (m_entries m)))
        (r\<lparr>r_pending_conf_index := i\<rparr>) = Inr (r1, ok)" and r': "r' = r1 \<or> bcast_append r1 = Inr r'" for lst a p i r1 ok
  proof -
    let ?r = "r\<lparr>r_pending_conf_index := i\<rparr>"
    have e: "extends ?r r1"
      using assms(2,3) by (intro append_entry_extends(1) [OF ap]) (simp_all add: room_def length_screen_conf)
    then have w: "wf_log (r_log r1)" by (simp add: extends_def)
    have g: "grafts m r r1"
      by (rule ships_then_grafts [OF ships.fields(3) assms(2) extends_grafts [OF e]]) (use assms(4) in simp)
    have "grafts m r r'" if b: "bcast_append r1 = Inr r'"
      by (rule grafts_then_ships [OF g ships.bcast_calm(1) [OF b] w]) (simp_all add: sends_frame[OF bcast_append_sends [OF b w]])
    then show ?thesis using r' g by auto
  qed
  ultimately show ?thesis using ships_grafts[OF ships.refl assms(2)] by blast
qed (rule ships_grafts [OF ships.step_leader_calm [OF assms(1) _ TrueI] assms(2)])

section \<open>Steps and ticks\<close>

lemma step_vote_ships: "step_vote m r = Inr r' \<Longrightarrow> m_type m = MsgVote \<or> m_type m = MsgPreVote \<Longrightarrow> ships r r'"
proof -
  have set: "ships s (s\<lparr>r_election_elapsed := 0, r_vote := v\<rparr>)" for s v by (simp add: ships_eq)
  assume "step_vote m r = Inr r'" "m_type m = MsgVote \<or> m_type m = MsgPreVote"
  then show ?thesis
    by (auto simp: step_vote_def rbind_Inr_iff vote_resp_msg_type_def dest!: send_reply_ships
        intro: ships_trans [OF _ set] split: if_split_asm)
qed

lemma step_dispatch_grafts:
  assumes "step_dispatch m r = Inr (r', s)" and "wf_raft r" and "wf_msg m" and "room m r"
    and "m_term m = 0 \<or> r_term r \<le> m_term m"
  shows "grafts m r r'"
proof -
  note wl = wf_raftD(1)[OF assms(2)]
  have role: "r_step r = Some (step_of (r_state r))" using wf_raftD(4)[OF assms(2)] by (simp add: role_ok_def)
  have hup: "grafts m r r'" if "step_hup r = Inr r'"
  proof -
    have "r' = r \<or> (\<exists>ct. campaign ct r = Inr r')"
      using that by (auto simp: step_hup_def elim!: rbind_InrE split: if_split_asm sum.split_asm)
    then show ?thesis using campaign_grafts[OF _ wl] ships_grafts[OF ships.refl wl] assms(4) by (auto simp: room_def)
  qed
  have "grafts m r r'" if "step_role m r = Inr (r', s)"
    using that role step_follower_grafts[OF _ assms(2-4)] step_candidate_grafts[OF _ assms(2-5)]
      step_leader_grafts[OF _ wl assms(4)]
    by (cases "r_state r") (auto simp: step_role_def)
  then show ?thesis using assms(1) hup ships_grafts[OF step_vote_ships wl]
    by (auto simp: step_dispatch_def finish_Inr_iff split: if_split_asm)
qed

lemma step_grafts:
  assumes "step m r = Inr (r', s)" and "wf_raft r" and "wf_msg m" and "room m r"
  shows "grafts m r r'"
proof -
  note wl = wf_raftD(1)[OF assms(2)]
  consider (go) "m_term m = 0 \<or> m_term m = r_term r" "step_dispatch m r = Inr (r', s)"
    | (higher) r1 go where "r_term r < m_term m" "step_higher_term m r = Inr (r1, go)"
        "(if go then step_dispatch m r1 else Inr (r1, Ok)) = Inr (r', s)"
    | (lower) "step_lower_term m r = Inr r'"
    using assms(1) by (auto simp: step_def rbind_Inr_iff finish_Inr_iff split: if_split_asm)
  then show ?thesis
  proof cases
    case go
    then show ?thesis using step_dispatch_grafts[OF go(2) assms(2-4)] by auto
  next
    case (higher r1 go)
    note h = step_higher_term_cases[OF higher(2) assms(2) higher(1)]
    have "m_term m \<noteq> - 1" using assms(3) by (simp add: wf_msg_def)
    then have "r_term r1 \<noteq> - 1" using h max_word_u64 by (metis word_order.extremum_uniqueI)
    then have rm: "room m r1" using assms(4) h by (simp add: room_def)
    have "r1 = r \<or> (\<exists>l. become_follower (m_term m) l r = Inr r1)"
      using higher(2) by (auto simp: step_higher_term_def Let_def rbind_Inr_iff split: if_split_asm)
    then have sh: "ships r r1" using become_follower_ships by auto
    have w1: "wf_raft r1" using h by (blast intro: advances_wf)
    have "grafts m r1 r'" using higher(3) h step_dispatch_grafts[OF _ w1 assms(3) rm, of r' s]
        ships_grafts[OF ships.refl wf_raftD(1) [OF w1]] by (auto split: if_splits)
    then show ?thesis by (rule ships_then_grafts [OF sh wl])
  next
    case lower
    then show ?thesis by (intro ships_grafts ships.step_lower_term_calm wl)
  qed
qed

lemma tick_grafts:
  assumes "tick r = Inr r'" and "wf_raft r" and "can_grow r"
  shows "grafts m r r'"
proof -
  note wl = wf_raftD(1)[OF assms(2)]
  have "grafts m r r'" if t: "tick_election r = Inr r'"
  proof -
    let ?r = "r\<lparr>r_election_elapsed := 0\<rparr>"
    have "ships r r' \<or> (\<exists>ct. campaign ct ?r = Inr r')"
      using t by (auto simp: tick_election_def step_def step_dispatch_def step_hup_def Message_def finish_Inr_iff Let_def
          elim!: rbind_InrE split: if_split_asm sum.split_asm)
    moreover have "grafts m r r'" if "campaign ct ?r = Inr r'" for ct
      by (rule ships_then_grafts [OF ships.fields(5) wl campaign_grafts [OF that]])
        (use wl assms(3) in \<open>simp_all add: can_grow_def\<close>)
    ultimately show ?thesis using ships_grafts[OF _ wl] by blast
  qed
  then show ?thesis using assms(1) ships_grafts[OF ships.tick_heartbeat_calm wl] ships_grafts[OF ships.refl wl]
    by (auto simp: tick_def split: option.split_asm tick_fun.split_asm)
qed

section \<open>Restarts and the work of the server\<close>

text \<open>A node that is constructed on a storage has the log of the storage.\<close>

lemma Raft_view:
  assumes "Raft cfg draws = Inr r" and "c_storage cfg = Some st" and "wf_storage st"
  shows "log_view (r_log r) = (st_base st, st_base_term st, st_ents st)"
proof -
  obtain l where l: "RaftLog st (c_max_committed_size_per_ready cfg) = Inr l"
      "log_view l = (st_base st, st_base_term st, st_ents st)"
    using wf_RaftLog[OF assms(3), of "c_max_committed_size_per_ready cfg"] by (auto simp: log_view_def)
  let ?hs = "fst (storage_initial_state st)"
  let ?app = "\<lambda>r2. if c_applied cfg > 0 then r2\<lparr>r_log := applied_to (c_applied cfg) (r_log r2)\<rparr> else r2"
  obtain peers learners r1 r2 where r: "rfold add_learner learners (fold add_peer peers (initial_raft cfg draws l)) = Inr r1"
      "(if \<not> hs_is_empty_state ?hs then load_state ?hs r1 else Inr r1) = Inr r2"
      "become_follower (r_term (?app r2)) 0 (?app r2) = Inr r"
    using Raft_stages[OF assms(1,2) l(1)] by metis
  have "r_log (fold add_peer peers (initial_raft cfg draws l)) = l"
    by (induction peers rule: rev_induct) (simp_all add: add_peer_def initial_raft_def)
  then have "r_log r1 = l" by (rule rfold_invariant [OF r(1)]) (auto simp: add_learner_def Let_def split: if_split_asm)
  then have "log_view (r_log r2) = log_view l" using r(2) by (auto simp: load_state_def rbind_Inr_iff split: if_split_asm)
  then have "log_view (r_log (?app r2)) = log_view l" by (simp add: applied_to_def log_view_def)
  moreover have "r_log r = r_log (?app r2)"
    using r(3) by (auto simp: become_follower_def elim!: rbind_InrE dest!: reset_frame)
  ultimately show ?thesis using l(2) by simp
qed

text \<open>
  What the server does to a log between two steps: it stores the unstable entries, installs the
  pending snapshot, moves the applied position, and compacts the stable entries. The view of the log
  stays, or is trimmed.
\<close>

lemma persist_view:
  assumes "wf_log l" and "u_snapshot (l_unstable l) = None" and "u_entries (l_unstable l) \<noteq> []"
    and "storage_append (u_entries (l_unstable l)) (l_storage l) = Inr (st, s)"
    and "log_stable_to (e_index (last (u_entries (l_unstable l)))) (e_term (last (u_entries (l_unstable l))))
           (l\<lparr>l_storage := st\<rparr>) = Inr l'"
  shows "log_view l' = log_view l"
  using log_persist_entries[OF assms(1-3)] assms(4,5) by (auto simp: log_view_def)

lemma install_view:
  assumes "wf_log l" and "u_snapshot (l_unstable l) = Some s" and "u_entries (l_unstable l) = []"
    and "s_index (ms_snapshot (l_storage l)) < s_index s" and "storage_apply_snapshot s (l_storage l) = (st, x)"
  shows "log_view (log_stable_snap_to (s_index s) (l\<lparr>l_storage := st\<rparr>)) = log_view l"
  using log_persist_snapshot[OF assms(1-4)] assms(5) by (auto simp: log_view_def)

lemma applied_view: "log_view (applied_to i l) = log_view l"
  by (simp add: applied_to_def log_view_def)

lemma compact_trimmed:
  assumes "wf_log l" and "u_snapshot (l_unstable l) = None" and "ci < u_offset (l_unstable l)"
    and "storage_compact ci (l_storage l) = Inr (st, s)"
  shows "trimmed (log_view l) (log_view (l\<lparr>l_storage := st\<rparr>))"
proof (cases "unat ci \<le> st_base (l_storage l)")
  case True
  then have "st = l_storage l" using storage_compact_refused[OF wf_logD(2) [OF assms(1)] True] assms(4) by simp
  then show ?thesis by simp
next
  case False
  let ?st = "l_storage l" and ?o = "unat (u_offset (l_unstable l))"
  have o: "unat ci < ?o" "?o \<le> st_base ?st + length (st_ents ?st) + 1"
    using wf_logD(1)[OF assms(1)] assms(2,3) by (simp_all add: wf_log_parts_def word_less_nat_alt)
  then obtain st' where "storage_compact ci ?st = Inr (st', Ok)" "st_base st' = unat ci"
      "st_base_term st' = term_at (st_base ?st) (st_base_term ?st) (st_ents ?st) (unat ci)"
      "st_ents st' = drop (unat ci - st_base ?st) (st_ents ?st)"
    using storage_compact_ok[OF wf_logD(2) [OF assms(1)], of ci] False by auto
  moreover define n where "n = unat ci - st_base ?st"
  moreover define m where "m = ?o - (st_base ?st + 1)"
  ultimately have st: "st_base st = st_base ?st + n" "st_base_term st = term_at (st_base ?st) (st_base_term ?st) (st_ents ?st) (st_base ?st + n)"
      "st_ents st = drop n (st_ents ?st)" "n \<le> m" "m \<le> length (st_ents ?st)" "?o - (st_base st + 1) = m - n"
    using assms(4) False o by auto
  have "term_at (st_base ?st) (st_base_term ?st) (st_ents ?st) (st_base ?st + n)
      = term_at (st_base ?st) (st_base_term ?st) (take m (st_ents ?st) @ u_entries (l_unstable l)) (st_base ?st + n)"
    using st(4,5) by (simp add: term_at_append_left term_at_take)
  moreover have "take (m - n) (drop n (st_ents ?st)) = drop n (take m (st_ents ?st))" by (simp add: drop_take)
  moreover have "?o - Suc (st_base ?st) = m" by (simp add: m_def)
  ultimately show ?thesis using st assms(2)
    by (simp add: log_view_def log_base_def log_base_term_def log_ents_def)
qed

end
