(* ===== verification/Raft_Tree.thy ===== *)
theory Raft_Tree
  imports Raft_Links
begin

text \<open>
  The tree of positions. A point is a position together with a term. Every link leads from the point
  before its entry to the point of the entry; when index and term determine the link, every point has
  at most one parent, so that the links of a cluster form a tree in which every log is a path. The
  lemmas compare points of the tree, first for any set of links, then for one whose entries were made
  by the leaders of their terms, each on top of the last point of the log it was elected with.
\<close>

section \<open>Points and paths\<close>

type_synonym point = "nat \<times> u64"

definition coherent :: "(u64 \<times> entry) set \<Rightarrow> bool" where
  "coherent M \<longleftrightarrow> (\<forall>x\<in>M. \<forall>y\<in>M. e_index (snd x) = e_index (snd y) \<and> e_term (snd x) = e_term (snd y) \<longrightarrow> x = y)"

definition parent :: "u64 \<times> entry \<Rightarrow> point" where
  "parent x = (unat (e_index (snd x)) - 1, fst x)"

definition child :: "u64 \<times> entry \<Rightarrow> point" where
  "child x = (unat (e_index (snd x)), e_term (snd x))"

definition edges :: "(u64 \<times> entry) set \<Rightarrow> (point \<times> point) set" where
  "edges M = {(parent x, child x) | x. x \<in> M \<and> e_index (snd x) \<noteq> 0}"

definition made :: "(u64 \<times> entry) set \<Rightarrow> point set" where
  "made M = snd ` edges M"

definition anc :: "(u64 \<times> entry) set \<Rightarrow> point \<Rightarrow> point \<Rightarrow> bool" where
  "anc M a b \<longleftrightarrow> (a, b) \<in> (edges M)\<^sup>*"

lemma edgesI: "x \<in> M \<Longrightarrow> e_index (snd x) \<noteq> 0 \<Longrightarrow> parent x = a \<Longrightarrow> child x = c \<Longrightarrow> (a, c) \<in> edges M"
  unfolding edges_def by blast

lemma edges_next: "(a, b) \<in> edges M \<Longrightarrow> fst b = fst a + 1"
  by (auto simp: edges_def parent_def child_def unat_gt_0 [symmetric])

lemma edges_unique: "coherent M \<Longrightarrow> (a, c) \<in> edges M \<Longrightarrow> (b, c) \<in> edges M \<Longrightarrow> a = b"
  unfolding edges_def coherent_def by (fastforce simp: child_def word_unat_eq_iff)

lemma edges_mono: "M \<subseteq> M' \<Longrightarrow> edges M \<subseteq> edges M'"
  by (auto simp: edges_def)

lemma made_mono: "M \<subseteq> M' \<Longrightarrow> made M \<subseteq> made M'"
  unfolding made_def by (intro image_mono edges_mono)

lemma made_edge: "y \<in> made M \<Longrightarrow> \<exists>x. (x, y) \<in> edges M"
  unfolding made_def by (metis imageE prod.collapse)

lemma edge_made: "(x, y) \<in> edges M \<Longrightarrow> y \<in> made M"
  by (force simp: made_def)

lemma anc_refl [simp]: "anc M a a"
  by (simp add: anc_def)

lemma anc_trans: "anc M a b \<Longrightarrow> anc M b c \<Longrightarrow> anc M a c"
  by (simp add: anc_def)

lemma anc_mono: "anc M a b \<Longrightarrow> M \<subseteq> M' \<Longrightarrow> anc M' a b"
  unfolding anc_def using rtrancl_mono[OF edges_mono] by blast

lemma edge_anc: "(a, b) \<in> edges M \<Longrightarrow> anc M a b"
  by (auto simp: anc_def)

lemma anc_le: "anc M a b \<Longrightarrow> fst a \<le> fst b"
  unfolding anc_def by (induction rule: rtrancl_induct) (auto dest: edges_next)

lemma anc_cases: "anc M a b \<Longrightarrow> a = b \<or> (\<exists>c. anc M a c \<and> (c, b) \<in> edges M)"
  unfolding anc_def by (erule rtranclE) auto

lemma anc_eq:
  assumes "anc M a b" and "fst b \<le> fst a"
  shows "a = b"
proof (rule ccontr)
  assume "a \<noteq> b"
  then obtain c where c: "anc M a c" "(c, b) \<in> edges M" using anc_cases[OF assms(1)] by blast
  then show False using anc_le[OF c(1)] edges_next[OF c(2)] assms(2) by simp
qed

lemma anc_made: "anc M a b \<Longrightarrow> a \<noteq> b \<Longrightarrow> b \<in> made M"
  by (drule anc_cases) (auto dest: edge_made)

text \<open>The points below a point are linearly ordered by their positions, without gaps.\<close>

lemma anc_linear:
  assumes "coherent M" and "anc M a c" and "anc M b c" and "fst a \<le> fst b"
  shows "anc M a b"
  using assms(2-4)
proof (induction "fst c" arbitrary: c)
  case 0
  then have "fst b = 0" using anc_le[OF 0(3)] by simp
  then show ?case using anc_eq[OF 0(2)] anc_eq[OF 0(3)] 0 by simp
next
  case (Suc n)
  show ?case
  proof (cases "b = c")
    case False
    then obtain d where d: "anc M b d" "(d, c) \<in> edges M" using anc_cases[OF Suc.prems(2)] by blast
    have "a \<noteq> c" using Suc.prems(3) anc_le[OF d(1)] edges_next[OF d(2)] by auto
    then obtain e where e: "anc M a e" "(e, c) \<in> edges M" using anc_cases[OF Suc.prems(1)] by blast
    have "e = d" by (rule edges_unique [OF assms(1) e(2) d(2)])
    then show ?thesis using Suc.hyps(1)[of d] Suc.hyps(2) e(1) d Suc.prems(3) edges_next[OF d(2)] by simp
  qed (use Suc.prems(1) in simp)
qed

lemma anc_same: "coherent M \<Longrightarrow> anc M a c \<Longrightarrow> anc M b c \<Longrightarrow> fst a = fst b \<Longrightarrow> a = b"
  using anc_linear[of M a c b] anc_eq[of M a b] by simp

lemma anc_at:
  assumes "anc M a c" and "fst a \<le> n" and "n \<le> fst c"
  shows "\<exists>x. fst x = n \<and> anc M a x \<and> anc M x c"
  using assms
proof (induction "fst c" arbitrary: c)
  case 0
  then show ?case using anc_le[OF 0(2)] by (intro exI [of _ c]) simp
next
  case (Suc k)
  show ?case
  proof (cases "n = fst c \<or> a = c")
    case True
    then have "fst c = n" using Suc.prems(2,3) by auto
    then show ?thesis using Suc.prems(1) anc_refl by blast
  next
    case False
    then obtain d where d: "anc M a d" "(d, c) \<in> edges M" using anc_cases[OF Suc.prems(1)] by blast
    then obtain x where "fst x = n" "anc M a x" "anc M x d"
      using Suc.hyps(1)[of d] Suc.hyps(2) Suc.prems False edges_next[OF d(2)] by auto
    then show ?thesis using edge_anc[OF d(2)] anc_trans by blast
  qed
qed

section \<open>The path of a log\<close>

definition point_at :: "raft_log \<Rightarrow> nat \<Rightarrow> point" where
  "point_at l i = (i, log_term_at l i)"

abbreviation base_point :: "raft_log \<Rightarrow> point" where
  "base_point l \<equiv> point_at l (log_base l)"

abbreviation last_point :: "raft_log \<Rightarrow> point" where
  "last_point l \<equiv> point_at l (log_last l)"

lemma fst_point_at [simp]: "fst (point_at l i) = i"
  by (simp add: point_at_def)

lemma log_edge:
  assumes "wf_log l" and "log_links l \<subseteq> M" and "log_base l \<le> i" and "i < log_last l"
  shows "(point_at l i, point_at l (i + 1)) \<in> edges M"
proof -
  let ?k = "i - log_base l"
  let ?x = "(log_term_at l i, log_ents l ! ?k)"
  have k: "?k < length (log_ents l)" using assms(3,4) by (simp add: log_last_def)
  have x: "?x \<in> log_links l" using links_at[of "log_base l" "i + 1" "log_ents l" "log_base_term l"] assms(3) k
    by (simp add: log_links_def log_term_at_def)
  have ix: "unat (e_index (log_ents l ! ?k)) = i + 1"
    using contig_index[OF log_contig [OF wf_logD(1) [OF assms(1)]] k] assms(3) by simp
  have "log_term_at l (i + 1) = e_term (log_ents l ! ?k)"
    using assms(3,4) by (simp add: log_term_at_def term_at_def log_last_def)
  then have "parent ?x = point_at l i" "child ?x = point_at l (i + 1)" using ix by (simp_all add: parent_def child_def point_at_def)
  moreover have "e_index (snd ?x) \<noteq> 0" using ix by auto
  ultimately show ?thesis using x assms(2) by (intro edgesI) auto
qed

lemma log_path:
  assumes "wf_log l" and "log_links l \<subseteq> M" and "log_base l \<le> i" and "i \<le> j" and "j \<le> log_last l"
  shows "anc M (point_at l i) (point_at l j)"
  using assms(4,5)
proof (induction j rule: dec_induct)
  case (step j)
  then have "(point_at l j, point_at l (j + 1)) \<in> edges M" using assms(1-3) by (intro log_edge) auto
  then show ?case using step anc_trans[OF _ edge_anc] by simp
qed simp

lemma log_on_path:
  "wf_log l \<Longrightarrow> log_links l \<subseteq> M \<Longrightarrow> log_base l \<le> i \<Longrightarrow> i \<le> log_last l \<Longrightarrow> anc M (point_at l i) (last_point l)"
  by (rule log_path) auto

text \<open>A point below the last point of a log, at a position the log holds, is the point of the log there.\<close>

lemma log_holds:
  assumes "coherent M" and "wf_log l" and "log_links l \<subseteq> M" and "anc M a (last_point l)" and "log_base l \<le> fst a"
  shows "a = point_at l (fst a)"
proof -
  have "fst a \<le> log_last l" using anc_le[OF assms(4)] by simp
  then show ?thesis using anc_same[OF assms(1,4) log_on_path [OF assms(2,3,5)]] by simp
qed

section \<open>Trees grown by leaders\<close>

text \<open>
  A tree with the terms of its leaders: no entry that the cluster starts with has a term beyond
  \<open>t_bound\<close>, and all of them lie below \<open>t_trunk\<close>. In a later term \<open>t\<close> the first point is made on top of
  \<open>t_start t\<close>, where the log of the leader ended, and the others on top of points of the same term.
\<close>

record tree =
  t_links :: "(u64 \<times> entry) set"
  t_bound :: u64
  t_trunk :: point
  t_start :: "u64 \<Rightarrow> point"

abbreviation below :: "tree \<Rightarrow> point \<Rightarrow> point \<Rightarrow> bool" where
  "below g a c \<equiv> anc (t_links g) a c"

definition own :: "tree \<Rightarrow> u64 \<Rightarrow> point \<Rightarrow> bool" where
  "own g t y \<longleftrightarrow> y \<in> made (t_links g) \<and> snd y = t"

definition grown :: "tree \<Rightarrow> bool" where
  "grown g \<longleftrightarrow> coherent (t_links g) \<and> snd (t_trunk g) \<le> t_bound g
     \<and> (\<forall>x y. (x, y) \<in> edges (t_links g) \<longrightarrow>
          (snd y \<le> t_bound g \<longrightarrow> below g y (t_trunk g) \<and> snd x \<le> t_bound g)
        \<and> (t_bound g < snd y \<longrightarrow> x = t_start g (snd y) \<or> own g (snd y) x))"

text \<open>The points on the path of the leader of term \<open>t\<close>.\<close>

definition ruled :: "tree \<Rightarrow> u64 \<Rightarrow> point \<Rightarrow> bool" where
  "ruled g t x \<longleftrightarrow> (\<exists>y. (y = t_start g t \<or> own g t y) \<and> below g x y)"

lemma grownD:
  assumes "grown g"
  shows "coherent (t_links g)" and "snd (t_trunk g) \<le> t_bound g"
    and "(x, y) \<in> edges (t_links g) \<Longrightarrow> snd y \<le> t_bound g \<Longrightarrow> below g y (t_trunk g) \<and> snd x \<le> t_bound g"
    and "(x, y) \<in> edges (t_links g) \<Longrightarrow> t_bound g < snd y \<Longrightarrow> x = t_start g (snd y) \<or> own g (snd y) x"
  using assms unfolding grown_def by blast+

lemma ruled_start: "below g x (t_start g t) \<Longrightarrow> ruled g t x"
  unfolding ruled_def by blast

lemma ruled_own: "own g t x \<Longrightarrow> ruled g t x"
  unfolding ruled_def using anc_refl by blast

lemma ruled_down: "ruled g t y \<Longrightarrow> below g x y \<Longrightarrow> ruled g t x"
  unfolding ruled_def using anc_trans by blast

lemma own_made: "own g t y \<Longrightarrow> \<exists>x. (x, y) \<in> edges (t_links g)"
  unfolding own_def by (rule made_edge) simp

text \<open>The points of one term form a line on top of its start.\<close>

lemma own_at:
  assumes "grown g" and "own g t y" and "t_bound g < t" and "fst (t_start g t) < n" and "n \<le> fst y"
  shows "below g (n, t) y"
  using assms(2,5)
proof (induction "fst y" arbitrary: y)
  case 0
  then show ?case using assms(4) by simp
next
  case (Suc k)
  show ?case
  proof (cases "n = fst y")
    case True
    then have "(n, t) = y" using Suc.prems(1) by (cases y) (simp add: own_def)
    then show ?thesis by simp
  next
    case False
    obtain x where x: "(x, y) \<in> edges (t_links g)" using own_made[OF Suc.prems(1)] by blast
    have "x = t_start g t \<or> own g t x" using grownD(4)[OF assms(1) x] Suc.prems(1) assms(3) by (simp add: own_def)
    then have "below g (n, t) x" using Suc.hyps(1)[of x] Suc.hyps(2) Suc.prems(2) False assms(4) edges_next[OF x] by auto
    then show ?thesis using anc_trans edge_anc[OF x] by blast
  qed
qed

lemma start_below:
  assumes "grown g" and "own g t y" and "t_bound g < t"
  shows "below g (t_start g t) y"
  using assms(2)
proof (induction "fst y" arbitrary: y rule: less_induct)
  case less
  obtain x where x: "(x, y) \<in> edges (t_links g)" using own_made[OF less.prems] by blast
  have "x = t_start g t \<or> own g t x" using grownD(4)[OF assms(1) x] less.prems assms(3) by (simp add: own_def)
  then have "below g (t_start g t) x" using less.hyps[of x] edges_next[OF x] by auto
  then show ?case using anc_trans edge_anc[OF x] by blast
qed

lemma own_line:
  assumes "grown g" and "t_bound g < t" and "own g t y" and "own g t z" and "fst y \<le> fst z"
  shows "below g y z"
proof (cases "fst y \<le> fst (t_start g t)")
  case True
  then show ?thesis using anc_eq[OF start_below [OF assms(1,3,2)]] start_below[OF assms(1,4,2)] by simp
next
  case False
  have "(fst y, t) = y" using assms(3) by (cases y) (simp add: own_def)
  then show ?thesis using own_at[OF assms(1,4,2), of "fst y"] False assms(5) by simp
qed

text \<open>The path of a leader is linear.\<close>

lemma ruled_top:
  assumes "grown g" and "t_bound g < t" and "ruled g t x" and "ruled g t y"
  shows "\<exists>z. below g x z \<and> below g y z"
proof -
  obtain u v where u: "u = t_start g t \<or> own g t u" "below g x u" and v: "v = t_start g t \<or> own g t v" "below g y v"
    using assms(3,4) unfolding ruled_def by blast
  have "below g u v \<or> below g v u"
    using u(1) v(1) start_below[OF assms(1) _ assms(2)] own_line[OF assms(1,2)] by (metis anc_refl linear)
  then show ?thesis using u(2) v(2) anc_trans by blast
qed

lemma ruled_line:
  assumes "grown g" and "t_bound g < t" and "ruled g t x" and "ruled g t y" and "fst x \<le> fst y"
  shows "below g x y"
  using ruled_top[OF assms(1-4)] anc_linear[OF grownD(1) [OF assms(1)] _ _ assms(5)] by blast

lemma ruled_cases:
  assumes "grown g" and "t_bound g < t" and "ruled g t x"
  shows "below g x (t_start g t) \<or> own g t x"
proof (cases "fst x \<le> fst (t_start g t)")
  case True
  then show ?thesis using ruled_line[OF assms(1-3) ruled_start [OF anc_refl]] by simp
next
  case False
  obtain y where y: "own g t y" "below g x y" using assms(3) False anc_le unfolding ruled_def by blast
  have "below g (fst x, t) y" using False anc_le[OF y(2)] by (intro own_at [OF assms(1) y(1) assms(2)]) auto
  then have "snd x = t" using anc_same[OF grownD(1) [OF assms(1)] y(2), of "(fst x, t)"] by (metis fst_conv snd_conv)
  moreover have "below g (t_start g t) x"
    using anc_linear[OF grownD(1) [OF assms(1)] start_below [OF assms(1) y(1) assms(2)] y(2)] False by simp
  ultimately show ?thesis using anc_made False by (fastforce simp: own_def)
qed

section \<open>The terms elected so far\<close>

text \<open>
  A point is rooted if it lies above the trunk and all points below it belong to the start or to terms
  in \<open>L\<close>; the terms in \<open>L\<close> start at rooted points of smaller terms.
\<close>

definition rooted :: "tree \<Rightarrow> u64 set \<Rightarrow> point \<Rightarrow> bool" where
  "rooted g L x \<longleftrightarrow> below g (t_trunk g) x \<and> (\<forall>a. below g a x \<longrightarrow> snd a \<le> t_bound g \<or> snd a \<in> L)"

definition sprouted :: "tree \<Rightarrow> u64 set \<Rightarrow> bool" where
  "sprouted g L \<longleftrightarrow> (\<forall>t\<in>L. t_bound g < t \<and> snd (t_start g t) < t \<and> rooted g L (t_start g t))"

lemma rootedD: "rooted g L x \<Longrightarrow> below g (t_trunk g) x" "rooted g L x \<Longrightarrow> below g a x \<Longrightarrow> t_bound g < snd a \<Longrightarrow> snd a \<in> L"
  unfolding rooted_def using leD by blast+

lemma sproutedD:
  "sprouted g L \<Longrightarrow> t \<in> L \<Longrightarrow> t_bound g < t" "sprouted g L \<Longrightarrow> t \<in> L \<Longrightarrow> snd (t_start g t) < t"
  "sprouted g L \<Longrightarrow> t \<in> L \<Longrightarrow> rooted g L (t_start g t)"
  by (auto simp: sprouted_def)

lemma rooted_mono: "rooted g L x \<Longrightarrow> L \<subseteq> L' \<Longrightarrow> rooted g L' x"
  by (auto simp: rooted_def)

lemma rooted_down: "rooted g L x \<Longrightarrow> below g y x \<Longrightarrow> below g (t_trunk g) y \<Longrightarrow> rooted g L y"
  using anc_trans unfolding rooted_def by blast

lemma ruled_trunk: "sprouted g L \<Longrightarrow> t \<in> L \<Longrightarrow> ruled g t (t_trunk g)"
  using sproutedD(3) rootedD(1) ruled_start by blast

lemma rooted_own:
  assumes "grown g" and "rooted g L x" and "t_bound g < snd x"
  shows "own g (snd x) x" and "snd x \<in> L"
proof -
  have "t_trunk g \<noteq> x" using grownD(2)[OF assms(1)] assms(3) by auto
  then show "own g (snd x) x" using anc_made[OF rootedD(1) [OF assms(2)]] by (simp add: own_def)
  show "snd x \<in> L" using rootedD(2)[OF assms(2) anc_refl assms(3)] .
qed

lemma rooted_terms:
  assumes "grown g" and "sprouted g L" and "rooted g L x" and "below g a x" and "t_bound g < snd a"
  shows "snd a \<le> snd x"
proof -
  have "snd a \<le> snd y" if "(a, y) \<in> (edges (t_links g))\<^sup>*" "below g y x" for y
    using that
  proof (induction rule: rtrancl_induct)
    case (step y z)
    have y: "below g y x" using anc_trans edge_anc[OF step(2)] step(4) by blast
    then have le: "snd a \<le> snd y" using step(3) by blast
    have "t_bound g < snd z" using grownD(3)[OF assms(1) step(2)] le assms(5) by (meson le_less_trans not_le)
    moreover from this have "snd z \<in> L" using rootedD(2)[OF assms(3) step(4)] by blast
    ultimately have "snd y \<le> snd z" using grownD(4)[OF assms(1) step(2)] sproutedD(2)[OF assms(2), of "snd z"]
      by (auto simp: own_def)
    then show ?case using le by simp
  qed simp
  then show ?thesis using assms(4) anc_refl unfolding anc_def by blast
qed

lemma ruled_term:
  assumes "grown g" and "sprouted g L" and "t \<in> L" and "ruled g t x"
  shows "snd x \<le> t"
proof (cases "own g t x \<or> snd x \<le> t_bound g")
  case True
  then show ?thesis using sproutedD(1)[OF assms(2,3)] by (auto simp: own_def)
next
  case False
  then have "snd x \<le> snd (t_start g t)"
    using ruled_cases[OF assms(1) sproutedD(1) [OF assms(2,3)] assms(4)]
      rooted_terms[OF assms(1,2) sproutedD(3) [OF assms(2,3)], of x] by auto
  then show ?thesis using sproutedD(2)[OF assms(2,3)] by simp
qed

lemma ruled_rooted:
  assumes "grown g" and "sprouted g L" and "t \<in> L" and "ruled g t x" and "below g (t_trunk g) x"
  shows "rooted g L x"
proof -
  have "snd a \<le> t_bound g \<or> snd a \<in> L" if "below g a x" for a
    using ruled_cases[OF assms(1) sproutedD(1) [OF assms(2,3)] ruled_down [OF assms(4) that]] assms(3)
      rootedD(2)[OF sproutedD(3) [OF assms(2,3)]] unfolding own_def using leI by blast
  then show ?thesis using assms(5) by (simp add: rooted_def)
qed

text \<open>
  The heart of the election restriction: a point of term \<open>t\<close> that a voter holds, and that the starts
  of all terms elected since lie above, is below the last point of every candidate whose log is as up
  to date as that of the voter.
\<close>

lemma up_to_date_holds:
  assumes "grown g" and "sprouted g L" and "t_bound g < t" and "own g t a"
    and "rooted g L x" and "below g a x" and "rooted g L y"
    and "snd x < snd y \<or> (snd x = snd y \<and> fst x \<le> fst y)"
    and "\<And>u. u \<in> L \<Longrightarrow> t < u \<Longrightarrow> u \<le> snd y \<Longrightarrow> below g a (t_start g u)"
  shows "below g a y"
proof -
  have a: "snd a = t" using assms(4) by (simp add: own_def)
  then have tx: "t \<le> snd x" using rooted_terms[OF assms(1,2,5,6)] assms(3) by simp
  then have b: "t_bound g < snd x" "t_bound g < snd y" using assms(3,8) by auto
  note x = rooted_own[OF assms(1,5) b(1)] and y = rooted_own[OF assms(1,7) b(2)]
  show ?thesis
  proof (cases "t < snd y")
    case True
    then show ?thesis using assms(9)[OF y(2)] start_below[OF assms(1) y(1) b(2)] anc_trans by blast
  next
    case False
    then have "snd y = t" "snd x = t" "fst x \<le> fst y" using tx assms(8) by auto
    then have "below g x y" using own_line[OF assms(1,3), of x y] x(1) y(1) by simp
    then show ?thesis using assms(6) anc_trans by blast
  qed
qed

end
