(* ===== verification/Raft_Acts.thy ===== *)
theory Raft_Acts
  imports Raft_Tree Raft_Node
begin

text \<open>
  What a step or a tick of a node does to its log, its commit position, its knowledge of the other
  nodes and its messages, in terms of points. A leader \<open>tends\<close> its followers: it adds entries of its
  term at the end, commits what a majority is known to have, and sends cuts of its log; \<open>tends\<close> is the
  third instance of the locale \<open>calm\<close>. The other nodes answer: a follower follows a message of its
  leader. \<open>acts\<close> puts the two together, after what campaigns and changes of role do at the start.
\<close>

section \<open>Logs and messages as points\<close>

definition log_snap :: "raft_log \<Rightarrow> snapshot" where
  "log_snap l = (case u_snapshot (l_unstable l) of Some s \<Rightarrow> s | None \<Rightarrow> ms_snapshot (l_storage l))"

definition snap_point :: "snapshot \<Rightarrow> point" where
  "snap_point s = (unat (s_index s), s_term s)"

text \<open>The last point that an append message or a snapshot reaches.\<close>

definition reach :: "message \<Rightarrow> point" where
  "reach m = (if m_type m = MsgSnap then snap_point (m_snapshot m)
     else (unat (m_index m) + length (m_entries m),
           term_at (unat (m_index m)) (m_log_term m) (m_entries m) (unat (m_index m) + length (m_entries m))))"

definition from_point :: "message \<Rightarrow> point" where
  "from_point m = (unat (m_index m), m_log_term m)"

definition commit_offer :: "message \<Rightarrow> u64" where
  "commit_offer m = (if m_type m = MsgSnap then s_index (m_snapshot m) else m_commit m)"

definition holds :: "raft_log \<Rightarrow> point \<Rightarrow> bool" where
  "holds l x \<longleftrightarrow> log_base l \<le> fst x \<and> fst x \<le> log_last l \<and> point_at l (fst x) = x"

lemma log_snapshot_snap: "log_snapshot l = Inr (Inr (log_snap l))"
  by (simp add: log_snapshot_def log_snap_def storage_snapshot_def split: option.split)

lemma log_snap_committed [simp]: "log_snap (l\<lparr>l_committed := c\<rparr>) = log_snap l"
  by (simp add: log_snap_def cong: option.case_cong)

lemma log_append_snap: "log_append es l = Inr (l', i) \<Longrightarrow> log_snap l' = log_snap l"
  by (auto simp: log_append_def log_snap_def truncate_and_append_def rbind_Inr_iff Let_def cong: option.case_cong split: if_split_asm list.split_asm)

section \<open>The leader\<close>

text \<open>A log that only grows, by entries of term \<open>t\<close>.\<close>

definition grew :: "u64 \<Rightarrow> raft_log \<Rightarrow> raft_log \<Rightarrow> bool" where
  "grew t l l' \<longleftrightarrow> wf_log l' \<and> log_base l' = log_base l \<and> log_base_term l' = log_base_term l
     \<and> (\<exists>ns. log_ents l' = log_ents l @ ns \<and> (\<forall>e\<in>set ns. e_term e = t))
     \<and> log_snap l' = log_snap l \<and> l_committed l \<le> l_committed l'"

lemma grew_refl: "wf_log l \<Longrightarrow> grew t l l"
  by (auto simp: grew_def)

lemma grew_trans: "grew t l k \<Longrightarrow> grew t k j \<Longrightarrow> grew t l j"
  by (auto simp: grew_def)

lemma grew_last: "grew t l l' \<Longrightarrow> log_last l \<le> log_last l'"
  by (auto simp: grew_def log_last_def)

lemma grew_point: "grew t l l' \<Longrightarrow> i \<le> log_last l \<Longrightarrow> point_at l' i = point_at l i"
  by (auto simp: grew_def point_at_def log_term_at_def log_last_def term_at_append_left)

lemma grew_holds: "grew t l l' \<Longrightarrow> holds l x \<Longrightarrow> holds l' x"
  using grew_last[of t l l'] grew_point[of t l l' "fst x"] by (auto simp: holds_def grew_def)

text \<open>
  What a leader knows of the others: nothing, or a position that was known before, or one that \<open>may\<close>
  allows. What it knows of itself does not matter.
\<close>

definition knows :: "(u64 \<Rightarrow> u64 \<Rightarrow> bool) \<Rightarrow> raft \<Rightarrow> u64 \<Rightarrow> u64 \<Rightarrow> bool" where
  "knows may r j n \<longleftrightarrow> j = r_id r \<or> n = 0 \<or> (\<exists>p. get_progress r j = Some p \<and> pr_match p = n) \<or> may j n"

definition backed_by :: "(u64 \<Rightarrow> u64 \<Rightarrow> bool) \<Rightarrow> raft \<Rightarrow> u64 \<Rightarrow> bool" where
  "backed_by may r c \<longleftrightarrow>
     (\<exists>W \<subseteq> voters r. card (voters r) div 2 + 1 \<le> card W \<and> (\<forall>j\<in>W. \<exists>n. knows may r j n \<and> c \<le> n))"

definition speaks :: "(u64 \<Rightarrow> u64 \<Rightarrow> bool) \<Rightarrow> raft \<Rightarrow> raft_log \<Rightarrow> message \<Rightarrow> bool" where
  "speaks may r l x \<longleftrightarrow> m_type x \<noteq> MsgVote \<and> (m_type x = MsgAppResp \<longrightarrow> m_index x = 0)
     \<and> (m_type x = MsgApp \<longrightarrow> m_term x = r_term r \<and> m_commit x \<le> l_committed l
          \<and> (wf_msg x \<longrightarrow> holds l (from_point x) \<and> holds l (reach x)))
     \<and> (m_type x = MsgSnap \<longrightarrow> m_term x = r_term r \<and> m_snapshot x = log_snap l \<and> s_index (log_snap l) \<noteq> 0)
     \<and> (m_type x = MsgHeartbeat \<longrightarrow> m_term x = r_term r \<and> m_to x \<noteq> r_id r \<and> m_commit x \<le> l_committed l
          \<and> (\<exists>n. knows may r (m_to x) n \<and> m_commit x \<le> n))"

definition sound :: "raft \<Rightarrow> bool" where
  "sound r \<longleftrightarrow> wf_log (r_log r) \<and> distinct (map fst (r_prs r)) \<and> r_prs r \<noteq> [] \<and> length (r_prs r) < 2 ^ 32"

definition tends :: "(u64 \<Rightarrow> u64 \<Rightarrow> bool) \<Rightarrow> raft \<Rightarrow> raft \<Rightarrow> bool" where
  "tends may r r' \<longleftrightarrow> (sound r \<longrightarrow> r_id r' = r_id r \<and> r_term r' = r_term r
     \<and> map fst (r_prs r') = map fst (r_prs r) \<and> grew (r_term r) (r_log r) (r_log r')
     \<and> (l_committed (r_log r') = l_committed (r_log r)
         \<or> (holds (r_log r') (unat (l_committed (r_log r')), r_term r) \<and> backed_by may r (l_committed (r_log r'))))
     \<and> (\<forall>j p. get_progress r' j = Some p \<longrightarrow> knows may r j (pr_match p))
     \<and> (\<exists>ms. r_msgs r' = r_msgs r @ ms \<and> (\<forall>x\<in>set ms. speaks may r (r_log r') x)))"

lemma tendsD:
  assumes "tends may r r'" and "sound r"
  shows "r_id r' = r_id r" "r_term r' = r_term r" "map fst (r_prs r') = map fst (r_prs r)"
    "grew (r_term r) (r_log r) (r_log r')"
    "l_committed (r_log r') = l_committed (r_log r)
       \<or> (holds (r_log r') (unat (l_committed (r_log r')), r_term r) \<and> backed_by may r (l_committed (r_log r')))"
    "get_progress r' j = Some p \<Longrightarrow> knows may r j (pr_match p)"
    "\<exists>ms. r_msgs r' = r_msgs r @ ms \<and> (\<forall>x\<in>set ms. speaks may r (r_log r') x)"
  using assms by (simp_all add: tends_def)

lemma sound_cong: "wf_log (r_log r') \<Longrightarrow> map fst (r_prs r') = map fst (r_prs r) \<Longrightarrow> sound r \<Longrightarrow> sound r'"
  unfolding sound_def by (metis length_map map_is_Nil_conv)

lemma tends_sound: "tends may r r' \<Longrightarrow> sound r \<Longrightarrow> sound r'"
  using tendsD(3,4)[of may r r'] by (auto simp: grew_def intro: sound_cong)

lemma voters_cong: "map fst (r_prs r') = map fst (r_prs r) \<Longrightarrow> voters r' = voters r"
  unfolding voters_def by (metis set_map)

lemma speaks_grew:
  assumes "speaks may r l x" and "grew t l l'"
  shows "speaks may r l' x"
proof -
  have "l_committed l \<le> l_committed l'" "log_snap l' = log_snap l" using assms(2) by (auto simp: grew_def)
  then show ?thesis using assms(1) grew_holds[OF assms(2)] by (auto simp: speaks_def)
qed

lemma tends_trans:
  assumes a: "tends may r s" and b: "tends may s t"
  shows "tends may r t"
proof -
  have "r_id t = r_id r \<and> r_term t = r_term r \<and> map fst (r_prs t) = map fst (r_prs r) \<and> grew (r_term r) (r_log r) (r_log t)
     \<and> (l_committed (r_log t) = l_committed (r_log r)
         \<or> (holds (r_log t) (unat (l_committed (r_log t)), r_term r) \<and> backed_by may r (l_committed (r_log t))))
     \<and> (\<forall>j p. get_progress t j = Some p \<longrightarrow> knows may r j (pr_match p))
     \<and> (\<exists>ms. r_msgs t = r_msgs r @ ms \<and> (\<forall>x\<in>set ms. speaks may r (r_log t) x))" if w: "sound r"
  proof -
    note r = tendsD[OF a w] and s = tendsD[OF b tends_sound [OF a w]]
    have k: "knows may s j n \<Longrightarrow> knows may r j n" for j n using r(1,6) by (auto simp: knows_def)
    then have bb: "backed_by may s c \<Longrightarrow> backed_by may r c" for c
      using voters_cong[OF r(3)] unfolding backed_by_def by metis
    have sp: "speaks may s l x \<Longrightarrow> speaks may r l x" for l x using r(1,2) k by (auto simp: speaks_def)
    have g: "grew (r_term r) (r_log s) (r_log t)" using s(4) r(2) by simp
    obtain ms where ms: "r_msgs s = r_msgs r @ ms" "\<forall>x\<in>set ms. speaks may r (r_log s) x" using r(7) by blast
    obtain ms' where ms': "r_msgs t = r_msgs s @ ms'" "\<forall>x\<in>set ms'. speaks may s (r_log t) x" using s(7) by blast
    have "\<exists>ms. r_msgs t = r_msgs r @ ms \<and> (\<forall>x\<in>set ms. speaks may r (r_log t) x)"
      using ms ms' sp speaks_grew[OF _ g] by (intro exI [of _ "ms @ ms'"]) auto
    moreover have "l_committed (r_log t) = l_committed (r_log r)
         \<or> (holds (r_log t) (unat (l_committed (r_log t)), r_term r) \<and> backed_by may r (l_committed (r_log t)))"
      using r(2,5) s(5) bb grew_holds[OF g] by metis
    ultimately show ?thesis using r(1-4) s(1-4) g grew_trans k s(6) by (metis (no_types, lifting))
  qed
  then show ?thesis by (simp add: tends_def)
qed

text \<open>Operations that keep the log.\<close>

lemma tendsI:
  assumes "r_id r' = r_id r" and "r_term r' = r_term r" and "map fst (r_prs r') = map fst (r_prs r)" and "r_log r' = r_log r"
    and "\<And>j p. get_progress r' j = Some p \<Longrightarrow> knows may r j (pr_match p)"
    and "r_msgs r' = r_msgs r @ ms" and "\<And>x. x \<in> set ms \<Longrightarrow> sound r \<Longrightarrow> speaks may r (r_log r) x"
  shows "tends may r r'"
  using assms grew_refl by (auto simp: tends_def sound_def)

lemma knows_old: "get_progress r j = Some p \<Longrightarrow> knows may r j (pr_match p)"
  by (auto simp: knows_def)

lemma sends_match:
  assumes "sends r r'" and "get_progress r' j = Some q"
  shows "\<exists>p. get_progress r j = Some p \<and> pr_match p = pr_match q"
proof -
  obtain P L ms where r': "r' = r\<lparr>r_msgs := ms, r_prs := P, r_learner_prs := L\<rparr>" "same_peers (r_prs r) P"
      "same_peers (r_learner_prs r) L"
    using assms(1) by (auto simp: sends_def)
  note P = map_of_same_peers[OF r'(2)] and L = map_of_same_peers[OF r'(3)]
  show ?thesis
  proof (cases "map_of (r_prs r) j")
    case None
    then have "map_of P j = None" "map_of L j = Some q" using P(1)[of j] assms(2) r'(1) by (auto simp: get_progress_def)
    then show ?thesis using None L(1)[of j] L(2)[of j] by (cases "map_of (r_learner_prs r) j") (auto simp: get_progress_def flow_only_def)
  next
    case (Some p)
    then show ?thesis using P(2)[OF Some] assms(2) r'(1) by (auto simp: get_progress_def flow_only_def)
  qed
qed

lemma sends_tends:
  assumes "sound r \<Longrightarrow> sends r r'" and "r_msgs r' = r_msgs r @ ms"
    and "\<And>x. x \<in> set ms \<Longrightarrow> sound r \<Longrightarrow> speaks may r (r_log r) x"
  shows "tends may r r'"
proof (cases "sound r")
  case True
  note f = sends_frame[OF assms(1) [OF True]]
  have "knows may r j (pr_match p)" if "get_progress r' j = Some p" for j p
    using sends_match[OF assms(1) [OF True] that] by (auto simp: knows_def)
  then show ?thesis using f assms(2,3) by (intro tendsI) auto
qed (simp add: tends_def)

lemma maybe_send_append_posts:
  assumes "maybe_send_append to e r = Inr (r', b)" and "wf_log (r_log r)"
  shows "\<exists>ms. r_msgs r' = r_msgs r @ ms \<and> (\<forall>x\<in>set ms. speaks may r (r_log r) x)"
proof -
  let ?l = "r_log r"
  note w = wf_logD(1)[OF assms(2)]
  have one: "\<exists>ms. r_msgs r' = r_msgs r @ ms \<and> (\<forall>x\<in>set ms. speaks may r ?l x)"
    if s: "send m (put_progress to q r) = Inr r'" and sp: "\<And>x. x = m\<lparr>m_from := r_id r, m_term := r_term r\<rparr> \<Longrightarrow> speaks may r ?l x"
      and ty: "m_type m = MsgApp \<or> m_type m = MsgSnap" for m q
  proof -
    obtain m' where m': "r' = (put_progress to q r)\<lparr>r_msgs := r_msgs (put_progress to q r) @ [m']\<rparr>"
        "m_from m' = r_id (put_progress to q r)" "m' = m\<lparr>m_from := r_id (put_progress to q r), m_term := m_term m'\<rparr>"
        "m_term m' = (if is_vote_type (m_type m) \<or> m_type m = MsgProp \<or> m_type m = MsgReadIndex
                      then m_term m else r_term (put_progress to q r))"
      using s by (rule send_cases)
    then have "r_msgs r' = r_msgs r @ [m\<lparr>m_from := r_id r, m_term := r_term r\<rparr>]"
      using ty by (auto simp: put_progress_def is_vote_type_def)
    then show ?thesis using sp by auto
  qed
  have snap: ?thesis if "send_snapshot to pr r = Inr (r', b)" for pr
    using that log_snapshot_snap[of ?l]
    by (auto simp: send_snapshot_def rbind_Inr_iff snapshot_is_empty_def split: if_splits
        intro: exI [of _ "[]"] elim!: one) (simp_all add: speaks_def)
  obtain pr where pr: "get_progress r to = Some pr" using assms by (auto simp: maybe_send_append_def rbind_Inr_iff)
  show ?thesis
  proof (cases "is_paused pr")
    case False
    obtain ents where te: "log_entries ?l (pr_next pr) (r_max_msg_size r) = Inr ents"
      using assms pr False by (auto simp: maybe_send_append_def rbind_Inr_iff)
    note t = log_term_ok[OF w, of "pr_next pr - 1"]
    show ?thesis
    proof (cases ents)
      case (Inr es)
      let ?x = "Message\<lparr>m_to := to, m_type := MsgApp, m_index := pr_next pr - 1,
            m_log_term := log_term_at ?l (unat (pr_next pr - 1)), m_entries := es, m_commit := l_committed ?l\<rparr>"
      have "r' = r \<or> (\<exists>p. send ?x (put_progress to p r) = Inr r')"
        using assms pr False te t Inr by (auto simp: maybe_send_append_def rbind_Inr_iff Let_def split: if_split_asm)
      moreover have "speaks may r ?l x" if x: "x = ?x\<lparr>m_from := r_id r, m_term := r_term r\<rparr>" for x
      proof -
        let ?i = "unat (pr_next pr - 1)"
        have b: "log_base ?l < unat (pr_next pr)"
          using log_entries_compacted[OF w, of "pr_next pr" "r_max_msg_size r"] te Inr by (cases "log_base ?l < unat (pr_next pr)") auto
        then have i: "?i + 1 = unat (pr_next pr)" "log_base ?l \<le> ?i" using unat_sub_1[of "pr_next pr"] by auto
        have in_log: "?i + length es \<le> log_last ?l \<and> term_at ?i (log_term_at ?l ?i) es (?i + length es) = log_term_at ?l (?i + length es)"
          if wf: "wf_msg x"
        proof (cases "es = []")
          case True
          have "log_term_at ?l ?i = 0 \<longrightarrow> ?i = 0" using wf x by (auto simp: wf_msg_def)
          moreover have "log_term_at ?l ?i = 0" if "log_last ?l < ?i" using match_in_log[of ?l ?i] that by force
          ultimately show ?thesis using True by (cases "log_last ?l < ?i") (auto simp: term_at_def)
        next
          case False
          note s = sent_index[OF assms(2) te [unfolded Inr] False]
          have "unat (pr_next pr) - (log_base ?l + 1) = ?i - log_base ?l" using i by linarith
          then obtain zs where zs: "drop (?i - log_base ?l) (log_ents ?l) = es @ zs" using s(2) by (metis prefix_def)
          have "es ! (length es - 1) = log_ents ?l ! (?i - log_base ?l + (length es - 1))"
            using arg_cong [OF zs, of "\<lambda>xs. xs ! (length es - 1)"] False s(4) i by (simp add: nth_append log_last_def)
          moreover have "log_term_at ?l (?i + length es) = e_term (log_ents ?l ! (?i - log_base ?l + (length es - 1)))"
            using False s(4) i by (cases es) (auto simp: log_term_at_def term_at_def log_last_def Suc_diff_le)
          ultimately show ?thesis using s(4) i False by (cases es) (auto simp: term_at_def)
        qed
        then show ?thesis using x i by (auto simp: speaks_def holds_def from_point_def reach_def point_at_def)
      qed
      ultimately show ?thesis using one[of ?x] by (auto intro: exI [of _ "[]"])
    next
      case (Inl s)
      then have "r' = r \<or> send_snapshot to pr r = Inr (r', b)"
        using assms pr False te t by (auto simp: maybe_send_append_def rbind_Inr_iff Let_def split: if_split_asm)
      then show ?thesis using snap by (auto intro: exI [of _ "[]"])
    qed
  qed (use assms pr in \<open>auto simp: maybe_send_append_def intro: exI [of _ "[]"]\<close>)
qed

lemma maybe_commit_tends:
  assumes "maybe_commit r = Inr (r', b)"
  shows "tends may r r'"
proof (cases "sound r")
  case True
  then have w: "wf_log (r_log r)" and d: "distinct (map fst (r_prs r))" and n: "r_prs r \<noteq> []" "length (r_prs r) < 2 ^ 32"
    by (simp_all add: sound_def)
  let ?buf = "sort (map (\<lambda>(_, p). pr_match p) (r_prs r))"
  obtain i l where l: "vec_at ?buf (vec_size ?buf - ucast (quorum r)) = Inr i"
      "log_maybe_commit i (r_term r) (r_log r) = Inr (l, b)" "r' = r\<lparr>r_match_buf := ?buf, r_log := l\<rparr>"
    using assms by (auto simp: maybe_commit_def Let_def rbind_Inr_iff)
  have c: "wf_log l \<and> (if b then l = (r_log r)\<lparr>l_committed := i\<rparr> \<and> l_committed (r_log r) < i
      \<and> log_term_at (r_log r) (unat i) = r_term r \<and> unat i \<le> log_last (r_log r) else l = r_log r)"
    by (rule log_maybe_commit_cases [OF l(2) w])
  have "backed_by may r i"
  proof -
    let ?W = "fst ` {x \<in> set (r_prs r). i \<le> pr_match (snd x)}"
    have vc: "card (voters r) = length (r_prs r)" using d unfolding voters_def by (metis distinct_card length_map set_map)
    have "inj_on fst {x \<in> set (r_prs r). i \<le> pr_match (snd x)}" using d by (auto simp: distinct_map intro: inj_on_subset)
    moreover have "distinct (r_prs r)" using d by (simp add: distinct_map)
    then have "card {x \<in> set (r_prs r). i \<le> pr_match (snd x)} = matched_by r i"
      unfolding matched_by_def split_def set_filter [symmetric] by (intro distinct_card) simp
    ultimately have "card ?W = matched_by r i" by (simp add: card_image)
    moreover have "majority r \<le> matched_by r i" using maybe_commit_index[OF n] l(1) by auto
    moreover have "\<exists>m. knows may r j m \<and> i \<le> m" if j: "j \<in> ?W" for j
    proof -
      obtain p where "(j, p) \<in> set (r_prs r)" "i \<le> pr_match p" using j by auto
      moreover from this have "get_progress r j = Some p" using d by (simp add: get_progress_def)
      ultimately show ?thesis using knows_old by blast
    qed
    ultimately show ?thesis using vc unfolding backed_by_def by (intro exI [of _ ?W]) (auto simp: voters_def majority_def)
  qed
  moreover have "holds l (unat i, r_term r)" if b
    using c that wf_logD(4)[OF w] by (auto simp: holds_def point_at_def word_less_nat_alt)
  ultimately have "l_committed l = l_committed (r_log r) \<or> (holds l (unat (l_committed l), r_term r) \<and> backed_by may r (l_committed l))"
    using c by (cases b) auto
  moreover have "grew (r_term r) (r_log r) l" using c grew_refl[OF w] by (auto simp: grew_def split: if_splits)
  moreover have "knows may r j (pr_match p)" if "get_progress r' j = Some p" for j p
    using that l(3) get_progress_cong[of r' r j] knows_old[of r j p] by simp
  ultimately show ?thesis using l(3) by (simp add: tends_def)
qed (simp add: tends_def)

text \<open>After a reset nothing is known of the other nodes.\<close>

lemma reset_peers:
  assumes "reset trm r = Inr r'"
  shows "map fst (r_prs r') = map fst (r_prs r)"
    and "get_progress r' j = Some p \<Longrightarrow> j \<noteq> r_id r \<Longrightarrow> pr_match p = 0"
proof -
  define r2 where "r2 = (if r_term r \<noteq> trm then r\<lparr>r_term := trm, r_vote := 0\<rparr> else r)
      \<lparr>r_lead := 0, r_election_elapsed := 0, r_heartbeat_elapsed := 0\<rparr>"
  obtain r3 r4 where r: "reset_randomized_election_timeout r2 = Inr r3"
      "reset_progress ((abort_leader_transfer r3)\<lparr>r_votes := []\<rparr>) = Inr r4"
      "r' = r4\<lparr>r_pending_conf_index := 0, r_uncommitted_size := 0,
               r_read_only := (r_read_only r4)\<lparr>ro_pending := [], ro_queue := []\<rparr>\<rparr>"
    using assms unfolding reset_def Let_def r2_def [symmetric] rbind_Inr_iff by auto
  obtain d t where r3: "r3 = r2\<lparr>r_random_device := d, r_randomized_election_timeout := t\<rparr>"
    using r(1) by (auto simp: reset_randomized_election_timeout_def rbind_Inr_iff Let_def split: prod.split_asm)
  define s where "s = (abort_leader_transfer r3)\<lparr>r_votes := []\<rparr>"
  have k: "r_prs s = r_prs r" "r_learner_prs s = r_learner_prs r" "r_id s = r_id r"
    by (simp_all add: s_def abort_leader_transfer_def r3 r2_def)
  have "(r_prs r = [] \<and> r_learner_prs r = [] \<and> r_prs r' = [] \<and> r_learner_prs r' = [])
      \<or> (\<exists>lst. r_prs r' = map (\<lambda>(i, p). (i, fresh_progress s lst i p)) (r_prs r)
           \<and> r_learner_prs r' = map (\<lambda>(i, p). (i, fresh_progress s lst i p)) (r_learner_prs r))"
    using r(2,3) unfolding s_def [symmetric] by (auto simp: reset_progress_def k rbind_Inr_iff split: if_split_asm) (metis k(1,2))+
  then show "map fst (r_prs r') = map fst (r_prs r)"
    "get_progress r' j = Some p \<Longrightarrow> j \<noteq> r_id r \<Longrightarrow> pr_match p = 0"
    by (auto simp: get_progress_def split_def comp_def fresh_progress_def Progress_def Let_def map_of_map k
        dest!: map_of_SomeD split: option.splits)
qed

lemma become_follower_tends:
  assumes "become_follower (r_term r) lead r = Inr r'"
  shows "tends may r r'"
proof -
  obtain s where s: "reset (r_term r) (r\<lparr>r_step := Some StepFollower\<rparr>) = Inr s"
      "r' = s\<lparr>r_tick := Some TickElection, r_lead := lead, r_state := Follower\<rparr>"
    using assms by (auto simp: become_follower_def rbind_Inr_iff)
  have "knows may r j (pr_match p)" if "get_progress r' j = Some p" for j p
    using that reset_peers(2)[OF s(1), of j p] s(2) get_progress_cong[of r' s j] by (auto simp: knows_def)
  then show ?thesis using s(2) reset_frame[OF s(1)] reset_peers(1)[OF s(1)] by (intro tendsI [where ms = "[]"]) auto
qed

lemma send_tends:
  assumes "send m r = Inr r'" and "\<And>x. x = m\<lparr>m_from := r_id r, m_term := m_term x\<rparr>
      \<Longrightarrow> (\<not> is_vote_type (m_type m) \<Longrightarrow> m_type m \<noteq> MsgProp \<Longrightarrow> m_type m \<noteq> MsgReadIndex \<Longrightarrow> m_term x = r_term r)
      \<Longrightarrow> speaks may r (r_log r) x"
  shows "tends may r r'"
proof -
  obtain m' where m': "r' = r\<lparr>r_msgs := r_msgs r @ [m']\<rparr>" "m_from m' = r_id r" "m' = m\<lparr>m_from := r_id r, m_term := m_term m'\<rparr>"
    "m_term m' = (if is_vote_type (m_type m) \<or> m_type m = MsgProp \<or> m_type m = MsgReadIndex
                      then m_term m else r_term r)"
    using assms(1) by (rule send_cases)
  have "speaks may r (r_log r) m'" by (rule assms(2) [OF m'(3)]) (simp add: m'(4))
  then show ?thesis using m'(1) send_sends[OF assms(1)] by (intro sends_tends [where ms = "[m']"]) auto
qed

interpretation tends: calm "tends may" may for may
proof
  show "tends may r r'" if "r_id r' = r_id r" "r_msgs r' = r_msgs r" "r_log r' = r_log r" "electing r' = electing r"
    "r_prs r' = r_prs r" "r_learner_prs r' = r_learner_prs r" for r r'
    using that get_progress_cong[OF that(5,6)] by (intro tendsI [where ms = "[]"]) (auto simp: electing_def intro: knows_old)
  show "tends may r (put_progress i q r)"
    if p: "get_progress r i = Some p" and m: "pr_match q = pr_match p \<or> may i (pr_match q)" for r i p q
  proof (rule tendsI [where ms = "[]"])
    show "map fst (r_prs (put_progress i q r)) = map fst (r_prs r)"
      by (auto simp: put_progress_def fst_update_present)
    show "knows may r j (pr_match s)" if "get_progress (put_progress i q r) j = Some s" for j s
      using that get_put_progress[of r i q j] p m by (auto simp: knows_def split: if_splits)
  qed (simp_all add: put_progress_def)
  show "tends may r r'" if "send m r = Inr r'" "m_type m \<notin> {MsgVote, MsgVoteResp, MsgApp, MsgHeartbeat, MsgSnap}"
    "m_type m = MsgAppResp \<longrightarrow> m_index m = 0" for m r r'
  proof (rule send_tends [OF that(1)])
    fix x assume x: "x = m\<lparr>m_from := r_id r, m_term := m_term x\<rparr>"
    have "m_type x = m_type m" "m_index x = m_index m" by (subst x, simp)+
    then show "speaks may r (r_log r) x" using that(2,3) by (auto simp: speaks_def)
  qed
  show "tends may r r'" if h: "send_heartbeat i c r = Inr r'" and i: "i \<noteq> r_id r" for i c r r'
  proof -
    obtain pr where pr: "get_progress r i = Some pr" "send (Message\<lparr>m_to := i, m_type := MsgHeartbeat,
               m_commit := min (pr_match pr) (l_committed (r_log r)), m_context := c\<rparr>) r = Inr r'"
      using h by (auto simp: send_heartbeat_def rbind_Inr_iff)
    show ?thesis
    proof (rule send_tends [OF pr(2)])
      fix x assume x: "x = (Message\<lparr>m_to := i, m_type := MsgHeartbeat,
               m_commit := min (pr_match pr) (l_committed (r_log r)), m_context := c\<rparr>)\<lparr>m_from := r_id r, m_term := m_term x\<rparr>"
      have f: "m_type x = MsgHeartbeat" "m_to x = i" "m_commit x = min (pr_match pr) (l_committed (r_log r))"
        by (subst x, simp)+
      moreover assume "\<not> is_vote_type (m_type (Message\<lparr>m_to := i, m_type := MsgHeartbeat,
               m_commit := min (pr_match pr) (l_committed (r_log r)), m_context := c\<rparr>)) \<Longrightarrow>
         m_type (Message\<lparr>m_to := i, m_type := MsgHeartbeat,
               m_commit := min (pr_match pr) (l_committed (r_log r)), m_context := c\<rparr>) \<noteq> MsgProp \<Longrightarrow>
         m_type (Message\<lparr>m_to := i, m_type := MsgHeartbeat,
               m_commit := min (pr_match pr) (l_committed (r_log r)), m_context := c\<rparr>) \<noteq> MsgReadIndex \<Longrightarrow> m_term x = r_term r"
      ultimately show "speaks may r (r_log r) x" using i knows_old[OF pr(1), of may] by (auto simp: speaks_def is_vote_type_def)
    qed
  qed
  show "tends may r r'" if "maybe_send_append to e r = Inr (r', b)" for to e r r' b
  proof (cases "sound r")
    case True
    then have w: "wf_log (r_log r)" by (simp add: sound_def)
    show ?thesis using maybe_send_append_posts[OF that w] maybe_send_append_sends[OF that w] by (blast intro: sends_tends)
  qed (simp add: tends_def)
qed (fact tends_trans maybe_commit_tends become_follower_tends)+

text \<open>Appending to the own log, and with it all that a leader does.\<close>

lemma put_self_tends:
  assumes "get_progress r (r_id r) = Some p"
  shows "tends may r (put_progress (r_id r) q r)"
proof (rule tendsI [where ms = "[]"])
  show "map fst (r_prs (put_progress (r_id r) q r)) = map fst (r_prs r)"
    by (auto simp: put_progress_def fst_update_present)
  show "knows may r j (pr_match s)" if "get_progress (put_progress (r_id r) q r) j = Some s" for j s
    using that get_put_progress[of r "r_id r" q j] assms by (auto simp: knows_def split: if_splits)
qed (simp_all add: put_progress_def)

lemma append_entry_tends:
  assumes "append_entry es r = Inr (r', ok)" and "log_last (r_log r) + length es + 1 < 2 ^ 64"
  shows "tends may r r'"
proof (cases "sound r")
  case True
  then have w: "wf_log (r_log r)" by (simp add: sound_def)
  obtain li where li: "log_last_index (r_log r) = Inr li"
    using log_last_index_ok[OF wf_logD(1)[OF w]] by auto
  let ?ns = "number_entries (r_term r) (li + 1) es"
  obtain l i where l: "log_append ?ns (r_log r) = Inr (l, i)" "wf_log l"
      "log_base l = log_base (r_log r)" "log_base_term l = log_base_term (r_log r)"
      "log_ents l = log_ents (r_log r) @ ?ns" "l = (r_log r)\<lparr>l_unstable := l_unstable l\<rparr>"
    using log_append_tail[OF w li assms(2)] by blast
  define r1 where "r1 = fst (increase_uncommitted_size ?ns r)"
  have "r1 = r\<lparr>r_uncommitted_size := r_uncommitted_size r1\<rparr>"
    by (simp add: r1_def increase_uncommitted_size_def Let_def)
  then obtain u where r1: "r1 = r\<lparr>r_uncommitted_size := u\<rparr>" by blast
  have log1: "r_log r1 = r_log r" "r_id r1 = r_id r" using r1 by simp_all
  show ?thesis
  proof (cases "snd (increase_uncommitted_size ?ns r)")
    case False
    then have "r' = r1" using assms(1) li by (auto simp: append_entry_def Let_def rbind_Inr_iff split_def r1_def)
    then show ?thesis using r1 tends.fields(7) by simp
  next
    case ok: True
    let ?r2 = "r1\<lparr>r_log := l\<rparr>"
    obtain pr b where pr: "get_progress ?r2 (r_id ?r2) = Some pr"
        "maybe_commit (put_progress (r_id ?r2) (fst (maybe_update i pr)) ?r2) = Inr (r', b)"
      using assms(1) li l(1) ok log1 by (auto simp: append_entry_def Let_def rbind_Inr_iff split_def r1_def [symmetric])
    have "l_committed l = l_committed (r_log r)" by (subst l(6)) simp
    then have "grew (r_term r) (r_log r) l" using l(2-5) log_append_snap[OF l(1)] number_entries_term
      unfolding grew_def by auto
    moreover have "knows may r j (pr_match p)" if "get_progress ?r2 j = Some p" for j p
      using that get_progress_cong[of ?r2 r j] knows_old[of r j p] by (simp add: r1)
    ultimately have "tends may r ?r2" using \<open>l_committed l = l_committed (r_log r)\<close> by (simp add: tends_def r1)
    then show ?thesis using tends_trans[OF _ tends_trans [OF put_self_tends [OF pr(1)] maybe_commit_tends [OF pr(2)]]] by blast
  qed
qed (simp add: tends_def)

lemma step_leader_tends:
  assumes "step_leader m r = Inr (r', s)" and "room m r"
    and "m_type m = MsgAppResp \<Longrightarrow> \<not> m_reject m \<Longrightarrow> may (m_from m) (m_index m)"
  shows "tends may r r'"
proof (cases "m_type m = MsgProp")
  case True
  then have "step_leader_prop m r = Inr (r', s)" using assms(1) by (simp add: step_leader_def)
  then have "r' = r \<or> (\<exists>lst r1 ok. append_entry (snd (screen_conf lst (l_applied (r_log r)) 0 (r_pending_conf_index r) (m_entries m)))
          (r\<lparr>r_pending_conf_index := fst (screen_conf lst (l_applied (r_log r)) 0 (r_pending_conf_index r) (m_entries m))\<rparr>)
          = Inr (r1, ok)
      \<and> (r' = r1 \<or> bcast_append r1 = Inr r'))"
    by (simp add: step_leader_prop_def rbind_Inr_iff Let_def split_def dropped_Inr_iff finish_Inr_iff split: if_split_asm)
      (metis prod.collapse)+
  moreover have "tends may r r1" if "append_entry (snd (screen_conf lst a 0 p (m_entries m)))
        (r\<lparr>r_pending_conf_index := i\<rparr>) = Inr (r1, ok)" for lst a p i r1 ok
    using tends_trans[OF tends.fields(3) append_entry_tends [OF that]] assms(2) by (simp add: room_def length_screen_conf)
  ultimately show ?thesis using tends.bcast_calm(1) tends_trans by (metis tends.refl)
qed (use tends.step_leader_calm[OF assms(1)] assms(3) in blast)

section \<open>The followers\<close>

definition rewritten :: "message \<Rightarrow> raft_log \<Rightarrow> raft_log \<Rightarrow> bool" where
  "rewritten m l l' \<longleftrightarrow> last_point l' = reach m
     \<and> (\<exists>p. log_base l \<le> p \<and> log_base l' \<le> p \<and> p \<le> log_last l' \<and> (p \<le> log_last l \<longrightarrow> point_at l p \<noteq> point_at l' p))"

text \<open>
  What a log takes from a message of the leader: it stays, or it ends with the last point of the
  message and differs from the old log somewhere on the way; the commit position moves within what
  the log shares with the leader.
\<close>

definition follows :: "message \<Rightarrow> raft_log \<Rightarrow> raft_log \<Rightarrow> bool" where
  "follows m l l' \<longleftrightarrow> wf_log l' \<and> l_committed l \<le> l_committed l'
     \<and> (log_view l' = log_view l \<or> ((m_type m = MsgApp \<or> m_type m = MsgSnap) \<and> rewritten m l l'))
     \<and> (l_committed l' = l_committed l
         \<or> (m_type m = MsgHeartbeat \<and> log_view l' = log_view l \<and> l_committed l' = m_commit m)
         \<or> ((m_type m = MsgApp \<or> m_type m = MsgSnap) \<and> holds l' (reach m)
              \<and> l_committed l' \<le> commit_offer m \<and> unat (l_committed l') \<le> fst (reach m)))
     \<and> (log_snap l' = log_snap l \<or> (m_type m = MsgSnap \<and> log_snap l' = m_snapshot m
         \<and> holds l' (reach m) \<and> unat (l_committed l') = fst (reach m)))"

lemma view_points: "log_view l' = log_view l \<Longrightarrow> point_at l' = point_at l \<and> log_last l' = log_last l \<and> log_base l' = log_base l"
  by (auto simp: log_view_def point_at_def log_term_at_def log_last_def fun_eq_iff)

lemma commit_to_snap: "commit_to c l = Inr l' \<Longrightarrow> log_snap l' = log_snap l"
  by (auto simp: commit_to_def rbind_Inr_iff split: if_split_asm)

lemma maybe_append_follows:
  assumes "log_maybe_append (m_index m) (m_log_term m) (m_commit m) (m_entries m) l = Inr (l', Some k)" and "wf_log l"
    and "app_batch (m_index m) (m_log_term m) (m_entries m) l" and "m_type m = MsgApp"
  shows "follows m l l'" and "holds l' (reach m)" and "unat k = fst (reach m)"
proof -
  let ?i = "unat (m_index m)" and ?es = "m_entries m"
  note b = app_batchD[OF assms(3)]
  have mt: "log_term_at l ?i = m_log_term m" using log_maybe_append_mismatch[OF assms(2)] assms(1) by fastforce
  have c: "unat (l_committed l) \<le> ?i + j" if "conflict_pos l ?es = Some j" for j
    using log_maybe_append_committed_conflict[OF assms(2,3) mt that] assms(1)
    by (cases "unat (l_committed l) \<le> ?i + j") auto
  from log_maybe_append_ok[OF assms(2,3) mt c] obtain l1 where l1:
      "log_maybe_append (m_index m) (m_log_term m) (m_commit m) ?es l = Inr (l1, Some (m_index m + vec_size ?es))" "wf_log l1"
      "log_base l1 = log_base l" "log_base_term l1 = log_base_term l" "log_ents l1 = batch_result (m_index m) ?es l"
      "l_committed l1 = max (l_committed l) (min (m_commit m) (m_index m + vec_size ?es))"
      "l1 = l\<lparr>l_unstable := l_unstable l1, l_committed := l_committed l1\<rparr>" by blast
  have l': "l' = l1" "k = m_index m + vec_size ?es" using l1(1) assms(1) by auto
  note t = batch_result_terms[OF assms(3) mt l1(3-5)]
  show k: "unat k = fst (reach m)" using l'(2) last_new_unat[OF b(2)] assms(4) by (simp add: reach_def)
  have at: "log_term_at l1 (?i + length ?es) = term_at ?i (m_log_term m) ?es (?i + length ?es)"
  proof (cases "?es = []")
    case False
    then have "log_term_at l1 (unat (e_index (?es ! (length ?es - 1)))) = e_term (?es ! (length ?es - 1))"
      using t(1) by (auto simp: log_has_def)
    then show ?thesis using contig_index[OF b(1), of "length ?es - 1"] False by (simp add: term_at_def Suc_leI)
  qed (use t(3) mt in \<open>simp add: term_at_def\<close>)
  show h: "holds l' (reach m)"
    using l' l1(3) at t(2) b(4) assms(4) by (simp add: holds_def reach_def point_at_def)
  have view: "log_view l' = log_view l \<or> rewritten m l l'"
  proof (cases "conflict_pos l ?es")
    case None
    then show ?thesis using l' l1(3-5) by (simp add: log_view_def batch_result_def)
  next
    case (Some j)
    note cp = conflict_pos_SomeD[OF Some]
    let ?p = "?i + j + 1"
    have e: "unat (e_index (?es ! j)) = ?p" using contig_index[OF b(1) cp(1)] by simp
    have "log_term_at l1 ?p = e_term (?es ! j)" using t(1) cp(1) e by (metis log_has_def nth_mem)
    then have "point_at l ?p \<noteq> point_at l' ?p" using cp(2) e l' by (simp add: point_at_def)
    moreover have "log_last l1 = ?i + length ?es"
    proof -
      have "?i + j \<le> log_last l" using batch_in_log[OF assms(3) mt, of j] cp by simp
      then have "?i + j - log_base l \<le> length (log_ents l)" by (simp add: log_last_def)
      then show ?thesis using l1(3,5) Some b(4) cp(1) by (simp add: log_last_def batch_result_def min_absorb2)
    qed
    moreover from this have "last_point l' = reach m" using l' at assms(4) by (simp add: reach_def point_at_def)
    ultimately show ?thesis using l' l1(3) b(4) cp(1) unfolding rewritten_def by (intro disjI2 conjI exI [of _ ?p]) simp_all
  qed
  have "log_snap l1 = log_snap l"
  proof (cases "conflict_pos l ?es")
    case None
    then have "commit_to (min (m_commit m) (m_index m + vec_size ?es)) l = Inr l1"
      using l1(1) mt match_term_ok[OF wf_logD(1) [OF assms(2)]] find_conflict_pos[OF wf_logD(1) [OF assms(2)]]
      by (simp add: log_maybe_append_def Let_def rbind_Inr_iff)
    then show ?thesis by (rule commit_to_snap)
  next
    case (Some j)
    have "e_index (?es ! j) \<noteq> 0" using contig_index[OF b(1) conflict_pos_SomeD(1) [OF Some]] by auto
    then obtain l2 i es' where l2: "log_append es' l = Inr (l2, i)" "commit_to (min (m_commit m) (m_index m + vec_size ?es)) l2 = Inr l1"
      using l1(1) Some find_conflict_pos[OF wf_logD(1) [OF assms(2)]]
      by (auto simp: log_maybe_append_def Let_def rbind_Inr_iff split: if_split_asm)
    have "log_snap l1 = log_snap l2" using l2(2) by (auto simp: commit_to_def rbind_Inr_iff split: if_split_asm)
    then show ?thesis using log_append_snap[OF l2(1)] by simp
  qed
  moreover have "l_committed l' = l_committed l \<or> (l_committed l' \<le> m_commit m \<and> unat (l_committed l') \<le> fst (reach m))"
    using l1(6) l' k by (auto simp: max_def word_le_nat_alt [symmetric] simp flip: k)
  moreover have "wf_log l'" "l_committed l \<le> l_committed l'" using l1(2,6) l' by simp_all
  ultimately show "follows m l l'"
    using l'(1) h view assms(4) unfolding follows_def by (auto simp: commit_offer_def)
qed

lemma heartbeat_follows:
  assumes "commit_to (m_commit m) l = Inr l'" and "wf_log l" and "m_type m = MsgHeartbeat"
  shows "follows m l l'"
proof -
  have "l_committed l' = max (l_committed l) (m_commit m)" using commit_to_cases[OF assms(1,2)] by (metis raft_log.select_convs(3) raft_log.surjective raft_log.update_convs(3))
  then show ?thesis using commit_to_view[OF assms(1,2)] commit_to_snap[OF assms(1)] assms(3)
    by (auto simp: follows_def max_def)
qed

lemma restore_follows:
  assumes "restore (m_snapshot m) r = Inr (r', b)" and "wf_log (r_log r)" and "m_type m = MsgSnap"
    and "unat (s_index (m_snapshot m)) + 1 < 2 ^ 64"
  shows "r_log r' = r_log r \<or> follows m (r_log r) (r_log r')"
proof -
  let ?s = "m_snapshot m" and ?l = "r_log r"
  let ?r0 = "r\<lparr>r_log := log_restore ?s ?l, r_prs := [], r_learner_prs := []\<rparr>"
  note w = wf_logD[OF assms(2)]
  have "r' = r \<or> (l_committed ?l < s_index ?s \<and> log_term_at ?l (unat (s_index ?s)) = s_term ?s
        \<and> (\<exists>l. commit_to (s_index ?s) ?l = Inr l \<and> r' = r\<lparr>r_log := l\<rparr>))
      \<or> (l_committed ?l < s_index ?s \<and> log_term_at ?l (unat (s_index ?s)) \<noteq> s_term ?s
        \<and> (\<exists>r1 ids ids'. restore_node ids False ?r0 = Inr r1 \<and> restore_node ids' True r1 = Inr r'))"
    using assms(1) by (auto simp: restore_def match_term_ok[OF w(1)] elim!: rbind_InrE split: if_split_asm)
  then show ?thesis
  proof (elim disjE exE conjE)
    fix l assume h: "l_committed ?l < s_index ?s" "log_term_at ?l (unat (s_index ?s)) = s_term ?s"
      "commit_to (s_index ?s) ?l = Inr l" "r' = r\<lparr>r_log := l\<rparr>"
    have "unat (s_index ?s) \<le> log_last ?l"
      using commit_to_beyond[OF assms(2), of "s_index ?s"] h(1,3) by (cases "unat (s_index ?s) \<le> log_last ?l") auto
    then have "holds ?l (reach m)" using h(1,2) w(4) assms(3)
      by (simp add: holds_def reach_def snap_point_def point_at_def word_less_nat_alt)
    moreover note v = commit_to_view[OF h(3) assms(2)]
    moreover have "l_committed l = s_index ?s" using h(1,3) by (auto simp: commit_to_def rbind_Inr_iff split: if_split_asm)
    ultimately show ?thesis using view_points[OF v(2)] h(1,4) assms(3) commit_to_snap[OF h(3)]
      by (auto simp: follows_def commit_offer_def holds_def reach_def snap_point_def)
  next
    fix r1 ids ids' assume h: "l_committed ?l < s_index ?s" "log_term_at ?l (unat (s_index ?s)) \<noteq> s_term ?s"
      "restore_node ids False ?r0 = Inr r1" "restore_node ids' True r1 = Inr r'"
    let ?l' = "log_restore ?s ?l"
    have l': "r_log r' = ?l'" using restore_node_frame[OF h(3)] restore_node_frame[OF h(4)] by simp
    note a = wf_log_restore[OF assms(2,4)]
    have lst: "log_last ?l' = unat (s_index ?s)" using a(2,4) by (simp add: log_last_def)
    have pt: "point_at ?l' (unat (s_index ?s)) = reach m"
      using a(2,3,4) assms(3) by (simp add: point_at_def log_term_at_def term_at_def reach_def snap_point_def)
    have hd: "holds ?l' (reach m)" using pt lst a(2) assms(3) by (simp add: holds_def reach_def snap_point_def)
    have "rewritten m ?l ?l'"
      unfolding rewritten_def using pt lst a(2) h(1,2) w(4) assms(3)
      by (intro conjI exI [of _ "unat (s_index ?s)"]) (auto simp: word_less_nat_alt point_at_def reach_def snap_point_def)
    moreover have "log_snap ?l' = ?s" by (simp add: log_snap_def log_restore_def unstable_restore_def)
    ultimately show ?thesis using l' a hd h(1) assms(3)
      by (auto simp: follows_def commit_offer_def reach_def snap_point_def)
  qed simp
qed

section \<open>Changes of role and answers\<close>

text \<open>What a node knows afterwards it knew before in the same term.\<close>

definition recalls :: "raft \<Rightarrow> raft \<Rightarrow> bool" where
  "recalls r s \<longleftrightarrow> (\<forall>j p. get_progress s j = Some p \<longrightarrow> j = r_id r \<or> pr_match p = 0
     \<or> (r_term s = r_term r \<and> (\<exists>q. get_progress r j = Some q \<and> pr_match q = pr_match p)))"

definition stage :: "raft \<Rightarrow> raft \<Rightarrow> bool" where
  "stage r s \<longleftrightarrow> r_id s = r_id r \<and> r_msgs s = r_msgs r \<and> r_log s = r_log r
     \<and> map fst (r_prs s) = map fst (r_prs r) \<and> recalls r s
     \<and> (r_vote s = 0 \<or> r_vote s = r_id r \<or> (r_term s = r_term r \<and> r_vote s = r_vote r))"

text \<open>The first point is not newer than the second one, as a voter compares them.\<close>

definition no_newer :: "point \<Rightarrow> point \<Rightarrow> bool" where
  "no_newer x y \<longleftrightarrow> snd x < snd y \<or> (snd x = snd y \<and> fst x \<le> fst y)"

definition replies :: "message \<Rightarrow> raft \<Rightarrow> raft \<Rightarrow> message \<Rightarrow> bool" where
  "replies m s r' x \<longleftrightarrow> m_type x \<notin> {MsgApp, MsgSnap, MsgHeartbeat}
     \<and> (m_type x = MsgVote \<longrightarrow> m_term x \<noteq> 0 \<and> r_state r' = Candidate \<and> from_point x = last_point (r_log r'))
     \<and> (m_type x = MsgAppResp \<and> \<not> m_reject x \<and> m_index x \<noteq> 0 \<longrightarrow>
          m_type m = MsgApp \<and> m_term m = r_term s \<and> m_term x = r_term s
          \<and> ((r_log r' = r_log s \<and> m_index x = l_committed (r_log s))
             \<or> (holds (r_log r') (reach m) \<and> unat (m_index x) = fst (reach m))))"

definition answers :: "message \<Rightarrow> raft \<Rightarrow> raft \<Rightarrow> bool" where
  "answers m s r' \<longleftrightarrow> r_id r' = r_id s \<and> r_term r' = r_term s \<and> r_state r' = r_state s \<and> recalls s r'
     \<and> (r_state s = Follower \<or> map fst (r_prs r') = map fst (r_prs s))
     \<and> (r_vote r' = r_vote s \<or> (r_log r' = r_log s \<and> no_newer (last_point (r_log s)) (from_point m)))
     \<and> (r_log r' = r_log s \<or> (r_state s = Follower \<and> m_term m = r_term s \<and> follows m (r_log s) (r_log r')))
     \<and> (\<exists>ms. r_msgs r' = r_msgs s @ ms \<and> (\<forall>x\<in>set ms. replies m s r' x))"

text \<open>An acknowledgement that the handlers of a leader take.\<close>

definition confirms :: "message \<Rightarrow> raft \<Rightarrow> u64 \<Rightarrow> u64 \<Rightarrow> bool" where
  "confirms m r j n \<longleftrightarrow> m_type m = MsgAppResp \<and> \<not> m_reject m \<and> m_from m = j \<and> m_index m = n
     \<and> (m_term m = 0 \<or> m_term m = r_term r)"

definition acts :: "message \<Rightarrow> raft \<Rightarrow> raft \<Rightarrow> bool" where
  "acts m r r' \<longleftrightarrow> (\<exists>s. stage r s
     \<and> ((r_state s = Leader \<and> ((r_state r = Leader \<and> r_term s = r_term r) \<or> (r_state r' = Leader \<and> log_last (r_log r) < log_last (r_log r')))
           \<and> tends (confirms m s) s r' \<and> quiet s r')
         \<or> ((r_state s = Leader \<longrightarrow> r_state r = Leader) \<and> answers m s r')))"

lemma recalls_eq: "r_prs s = r_prs r \<Longrightarrow> r_learner_prs s = r_learner_prs r \<Longrightarrow> r_term s = r_term r \<Longrightarrow> recalls r s"
  using get_progress_cong[of s r] by (auto simp: recalls_def)

lemma recalls_trans: "recalls r s \<Longrightarrow> recalls s t \<Longrightarrow> r_id s = r_id r \<Longrightarrow> recalls r t"
  unfolding recalls_def by metis

lemma stage_eq:
  "r_id s = r_id r \<Longrightarrow> r_msgs s = r_msgs r \<Longrightarrow> r_log s = r_log r \<Longrightarrow> r_prs s = r_prs r \<Longrightarrow> r_learner_prs s = r_learner_prs r
   \<Longrightarrow> r_term s = r_term r \<Longrightarrow> r_vote s = r_vote r \<Longrightarrow> stage r s"
  by (simp add: stage_def recalls_eq)

lemma stage_refl [simp]: "stage r r"
  by (rule stage_eq) simp_all

lemma stage_fields [simp]: "stage r (r\<lparr>r_election_elapsed := n\<rparr>)" "stage r (r\<lparr>r_read_states := x\<rparr>)"
  by (simp_all add: stage_eq)

lemma stage_trans: "stage r s \<Longrightarrow> stage s t \<Longrightarrow> stage r t"
  unfolding stage_def using recalls_trans by metis

lemma stage_acts:
  assumes "stage r s" and "acts m s r'" and "r_state s = Leader \<Longrightarrow> r_state r = Leader \<and> r_term s = r_term r"
  shows "acts m r r'"
proof -
  have "r_log s = r_log r" using assms(1) by (simp add: stage_def)
  then show ?thesis using assms stage_trans unfolding acts_def by metis
qed

lemma answers_acts: "answers m r r' \<Longrightarrow> acts m r r'"
  unfolding acts_def using stage_refl by blast

lemma answers_eq:
  "r_id r' = r_id r \<Longrightarrow> r_msgs r' = r_msgs r \<Longrightarrow> r_log r' = r_log r \<Longrightarrow> r_prs r' = r_prs r \<Longrightarrow> r_learner_prs r' = r_learner_prs r
   \<Longrightarrow> r_term r' = r_term r \<Longrightarrow> r_vote r' = r_vote r \<Longrightarrow> r_state r' = r_state r \<Longrightarrow> answers m r r'"
  by (simp add: answers_def recalls_eq)

lemma stage_done: "stage r s \<Longrightarrow> (r_state s = Leader \<Longrightarrow> r_state r = Leader) \<Longrightarrow> acts m r s"
  unfolding acts_def using answers_eq by blast

lemma same_acts [simp]: "acts m r r"
  by (rule stage_done) simp_all

lemma leader_acts: "r_state r = Leader \<Longrightarrow> tends (confirms m r) r r' \<Longrightarrow> quiet r r' \<Longrightarrow> acts m r r'"
  unfolding acts_def using stage_refl by blast

text \<open>A node that takes the log \<open>l\<close> and answers.\<close>

lemma reply_answers:
  assumes "send x (s\<lparr>r_log := l\<rparr>) = Inr r'" and "m_type x \<notin> {MsgApp, MsgSnap, MsgHeartbeat, MsgVote}"
    and "l = r_log s \<or> (r_state s = Follower \<and> m_term m = r_term s \<and> follows m (r_log s) l)"
    and "m_type x = MsgAppResp \<Longrightarrow> \<not> m_reject x \<Longrightarrow> m_index x \<noteq> 0 \<Longrightarrow> m_type m = MsgApp \<and> m_term m = r_term s
      \<and> ((l = r_log s \<and> m_index x = l_committed (r_log s)) \<or> (holds l (reach m) \<and> unat (m_index x) = fst (reach m)))"
  shows "answers m s r'"
proof -
  let ?s = "s\<lparr>r_log := l\<rparr>"
  obtain m' where m': "r' = ?s\<lparr>r_msgs := r_msgs ?s @ [m']\<rparr>" "m_from m' = r_id ?s" "m' = x\<lparr>m_from := r_id ?s, m_term := m_term m'\<rparr>"
    "m_term m' = (if is_vote_type (m_type x) \<or> m_type x = MsgProp \<or> m_type x = MsgReadIndex then m_term x else r_term ?s)"
    using assms(1) by (rule send_cases)
  have f: "m_type m' = m_type x" "m_reject m' = m_reject x" "m_index m' = m_index x" by (subst m'(3), simp)+
  have "m_type x = MsgAppResp \<Longrightarrow> m_term m' = r_term s" using m'(4) by (simp add: is_vote_type_def)
  then have "replies m s r' m'" using assms(2,4) f m'(1) by (auto simp: replies_def)
  then show ?thesis using m'(1) assms(3) by (auto simp: answers_def recalls_eq)
qed

lemma send_answers:
  assumes "send x s = Inr r'" and "m_type x \<notin> {MsgApp, MsgSnap, MsgHeartbeat, MsgVote}" 
    and "m_type x = MsgAppResp \<longrightarrow> m_index x = 0 \<or> m_reject x"
  shows "answers m s r'"
  by (rule reply_answers [where l = "r_log s"]) (use assms in auto)

section \<open>Campaigns\<close>

lemma become_follower_stage:
  assumes "become_follower t lead r = Inr s"
  shows "stage r s" and "r_state s = Follower" and "r_term s = t"
proof -
  obtain q where q: "reset t (r\<lparr>r_step := Some StepFollower\<rparr>) = Inr q"
      "s = q\<lparr>r_tick := Some TickElection, r_lead := lead, r_state := Follower\<rparr>"
    using assms by (auto simp: become_follower_def rbind_Inr_iff)
  have "recalls r s" using reset_peers(2)[OF q(1)] get_progress_cong[of s q] q(2) by (auto simp: recalls_def)
  then show "stage r s" "r_state s = Follower" "r_term s = t"
    using reset_frame[OF q(1)] reset_peers(1)[OF q(1)] q(2) by (auto simp: stage_def)
qed

lemma become_follower_acts: "become_follower t lead r = Inr s \<Longrightarrow> acts m r s"
  using stage_done[OF become_follower_stage(1)] become_follower_stage(2) by fastforce

lemma become_candidate_stage:
  assumes "become_candidate r = Inr s"
  shows "stage r s"
proof -
  obtain q where q: "reset (r_term r + 1) (r\<lparr>r_step := Some StepCandidate\<rparr>) = Inr q"
      "s = q\<lparr>r_tick := Some TickElection, r_vote := r_id q, r_state := Candidate\<rparr>"
    using assms by (auto simp: become_candidate_def rbind_Inr_iff split: if_split_asm)
  have "recalls r s" using reset_peers(2)[OF q(1)] get_progress_cong[of s q] q(2) by (auto simp: recalls_def)
  then show ?thesis using reset_frame[OF q(1)] reset_peers(1)[OF q(1)] q(2) by (auto simp: stage_def)
qed

lemma become_pre_candidate_stage: "become_pre_candidate r = Inr s \<Longrightarrow> stage r s"
  by (auto simp: become_pre_candidate_def intro: stage_eq split: if_split_asm)

lemma become_leader_tends:
  assumes "become_leader r = Inr r'" and "log_last (r_log r) + 2 < 2 ^ 64"
    and "wf_log (r_log r)"
  shows "\<exists>s. stage r s \<and> r_state s = Leader \<and> (\<forall>may. tends may s r') \<and> quiet s r' \<and> r_state r' = Leader \<and> wf_log (r_log r')
     \<and> log_last (r_log r) < log_last (r_log r')"
proof -
  obtain r1 where r1: "reset (r_term r) (r\<lparr>r_step := Some StepLeader\<rparr>) = Inr r1"
    using assms by (auto simp: become_leader_def rbind_Inr_iff split: if_split_asm)
  let ?r2 = "r1\<lparr>r_tick := Some TickHeartbeat, r_lead := r_id r1, r_state := Leader\<rparr>"
  obtain pr i r4 where pr: "map_of (r_prs ?r2) (r_id ?r2) = Some pr"
      "append_entry [Entry] (?r2\<lparr>r_prs := AList.update (r_id ?r2) (become_replicate pr) (r_prs ?r2), r_pending_conf_index := i\<rparr>) = Inr (r4, True)"
      "r' = reduce_uncommitted_size [Entry] r4"
    using assms(1) r1 by (auto simp: become_leader_def Let_def elim!: rbind_InrE split: if_split_asm option.split_asm)
  let ?s = "?r2\<lparr>r_prs := AList.update (r_id ?r2) (become_replicate pr) (r_prs ?r2), r_pending_conf_index := i\<rparr>"
  note f = reset_frame[OF r1]
  have "get_progress ?s j = get_progress r1 j" if "j \<noteq> r_id r" for j
    using that f by (simp add: get_progress_def update_conv' cong: option.case_cong)
  then have "recalls r ?s" using reset_peers(2)[OF r1] by (auto simp: recalls_def)
  then have "stage r ?s"
    using f reset_peers(1)[OF r1] fst_update_present[OF pr(1)] by (simp add: stage_def)
  moreover have "tends may ?s r4" for may by (rule append_entry_tends [OF pr(2)]) (use f assms(2) in simp)
  moreover have "tends may r4 r'" for may
    using tends.fields(7) pr(3) by (simp add: reduce_uncommitted_size_def Let_def)
  moreover have "quiet ?s r'" using quiet_trans[OF append_entry_quiet [OF pr(2)]] pr(3)
    by (simp add: reduce_uncommitted_size_def Let_def)
  moreover have "extends ?s r4 \<and> log_last (r_log r4) = log_last (r_log r) + 1"
    using append_entry_extends[OF pr(2)] f assms(2,3) by simp
  then have "r_state r' = Leader" "wf_log (r_log r')" "log_last (r_log r) < log_last (r_log r')"
    using pr(3) by (simp_all add: extends_def reduce_uncommitted_size_def Let_def)
  ultimately show ?thesis using tends_trans[of _ ?s r4 r'] by (intro exI [of _ ?s]) simp
qed

lemma become_leader_acts:
  assumes "become_leader r = Inr q" and "log_last (r_log r) + 2 < 2 ^ 64" and "r' = q \<or> bcast_append q = Inr r'" and "wf_log (r_log r)"
  shows "acts m r r'"
proof -
  obtain s where s: "stage r s" "r_state s = Leader" "\<forall>may. tends may s q" "quiet s q" "r_state q = Leader" "wf_log (r_log q)"
      "log_last (r_log r) < log_last (r_log q)"
    using become_leader_tends[OF assms(1,2,4)] by blast
  have "tends (confirms m s) s r'" using s(3) assms(3) tends.bcast_calm(1) tends_trans by blast
  moreover have "quiet s r'" using s(4) assms(3) bcast_quiet(1) quiet_trans by blast
  moreover have "r_state r' = Leader" "r_log r' = r_log q"
    using s(5) assms(3) sends_frame(4,5)[OF bcast_append_sends [OF _ s(6)]] by auto
  ultimately show ?thesis using s(1,2,7) unfolding acts_def by auto
qed

lemma request_votes_answers:
  assumes "rfold (request_vote ct v trm) ids r = Inr r'" and "v = MsgPreVote \<or> (v = MsgVote \<and> r_state r = Candidate)"
    and "wf_log (r_log r)"
  shows "answers m r r'"
proof -
  let ?P = "\<lambda>s. \<exists>ms. s = r\<lparr>r_msgs := r_msgs r @ ms\<rparr>
      \<and> (\<forall>x\<in>set ms. m_type x = v \<and> m_term x \<noteq> 0 \<and> from_point x = last_point (r_log r))"
  note w = wf_logD(1)[OF assms(3)]
  obtain li where li: "log_last_index (r_log r) = Inr li" "unat li = log_last (r_log r)" using log_last_index_ok[OF w] by auto
  have "?P r'"
  proof (rule rfold_invariant [OF assms(1)])
    show "?P r" by (rule exI [of _ "[]"]) simp
    fix i s t assume s: "?P s" and st: "request_vote ct v trm i s = Inr t"
    obtain ms where ms: "s = r\<lparr>r_msgs := r_msgs r @ ms\<rparr>"
        "\<forall>x\<in>set ms. m_type x = v \<and> m_term x \<noteq> 0 \<and> from_point x = last_point (r_log r)" using s by blast
    have "t = s \<or> (\<exists>x. t = s\<lparr>r_msgs := r_msgs s @ [x]\<rparr> \<and> m_type x = v \<and> m_term x \<noteq> 0 \<and> from_point x = last_point (r_log r))"
      using st assms(2) li ms(1) last_term_ok[OF w]
      by (auto simp: request_vote_def send_def rbind_Inr_iff Let_def is_vote_type_def from_point_def point_at_def split: if_split_asm)
    then show "?P t"
    proof (elim disjE exE conjE)
      fix x assume "t = s\<lparr>r_msgs := r_msgs s @ [x]\<rparr>" "m_type x = v" "m_term x \<noteq> 0" "from_point x = last_point (r_log r)"
      then show ?thesis using ms by (intro exI [of _ "ms @ [x]"]) auto
    qed (use s in simp)
  qed
  then obtain ms where ms: "r' = r\<lparr>r_msgs := r_msgs r @ ms\<rparr>"
      "\<forall>x\<in>set ms. m_type x = v \<and> m_term x \<noteq> 0 \<and> from_point x = last_point (r_log r)" by blast
  then have "\<forall>x\<in>set ms. replies m r r' x" using assms(2) by (auto simp: replies_def)
  then show ?thesis using ms(1) by (auto simp: answers_def recalls_eq)
qed

lemma election_acts:
  assumes "campaign ct r = Inr r'" and "ct \<noteq> kCampaignPreElection" and "wf_log (r_log r)" and "log_last (r_log r) + 2 < 2 ^ 64"
  shows "acts m r r'"
proof -
  obtain c where c: "become_candidate r = Inr c"
    using assms by (auto simp: campaign.simps [of ct r] rbind_Inr_iff)
  let ?c = "c\<lparr>r_votes := [(r_id r, True)]\<rparr>"
  have V: "become_leader ?c = Inr r' \<or> rfold (request_vote ct MsgVote (r_term c)) (map fst (r_prs c)) ?c = Inr r'"
    using assms c become_candidate_frame[OF c]
    by (auto simp: campaign.simps [of ct r] rbind_Inr_iff poll_def Let_def vote_resp_msg_type_def split: if_split_asm)
  have st: "stage r ?c" by (rule stage_trans [OF become_candidate_stage [OF c] stage_eq]) simp_all
  then have l: "r_log ?c = r_log r" by (simp add: stage_def)
  have cs: "r_state ?c = Candidate" using become_candidate_frame[OF c] by simp
  have "acts m ?c r'" using V become_leader_acts[of ?c r'] answers_acts[OF request_votes_answers] l assms(3,4)
      become_candidate_frame[OF c] by auto
  then show ?thesis by (rule stage_acts [OF st]) (use cs in simp)
qed

lemma campaign_acts:
  assumes "campaign ct r = Inr r'" and "wf_log (r_log r)" and "log_last (r_log r) + 2 < 2 ^ 64"
  shows "acts m r r'"
proof (cases "ct = kCampaignPreElection")
  case True
  obtain c where c: "become_pre_candidate r = Inr c"
    using assms True by (auto simp: campaign.simps [of kCampaignPreElection r] rbind_Inr_iff)
  let ?c = "c\<lparr>r_votes := [(r_id c, True)]\<rparr>"
  have st: "stage r ?c" by (rule stage_trans [OF become_pre_candidate_stage [OF c] stage_eq]) simp_all
  then have l: "r_log ?c = r_log r" by (simp add: stage_def)
  have "r_votes c = []" using c by (auto simp: become_pre_candidate_def split: if_split_asm)
  then have "campaign kCampaignElection ?c = Inr r'
      \<or> rfold (request_vote ct MsgPreVote (r_term c + 1)) (map fst (r_prs c)) ?c = Inr r'"
    using assms c True
    by (auto simp: campaign.simps [of kCampaignPreElection r] rbind_Inr_iff poll_def Let_def vote_resp_msg_type_def
        split: if_split_asm)
  then have "acts m ?c r'"
    using election_acts[of kCampaignElection ?c r'] answers_acts[OF request_votes_answers] assms(2,3) l
    by (auto simp: kCampaignElection_def kCampaignPreElection_def)
  then show ?thesis by (rule stage_acts [OF st]) (use c in \<open>auto simp: become_pre_candidate_def split: if_split_asm\<close>)
qed (rule election_acts [OF assms(1) _ assms(2,3)])

section \<open>The handlers\<close>

lemma handle_append_entries_answers:
  assumes "handle_append_entries m r = Inr r'" and "wf_log (r_log r)" and "wf_msg m" and "m_type m = MsgApp"
    and "r_state r = Follower" and "m_term m = r_term r"
  shows "answers m r r'"
proof (cases "m_index m < l_committed (r_log r)")
  case True
  let ?x = "Message\<lparr>m_to := m_from m, m_type := MsgAppResp, m_index := l_committed (r_log r)\<rparr>"
  have "send ?x (r\<lparr>r_log := r_log r\<rparr>) = Inr r'" using assms(1) True by (simp add: handle_append_entries_def)
  then show ?thesis by (rule reply_answers) (use assms(4,6) in simp_all)
next
  case False
  have b: "app_batch (m_index m) (m_log_term m) (m_entries m) (r_log r)"
    using assms(3,4) False wf_logD(4)[OF assms(2)] by (auto simp: app_batch_def wf_msg_def word_less_nat_alt)
  obtain l i where l: "log_maybe_append (m_index m) (m_log_term m) (m_commit m) (m_entries m) (r_log r) = Inr (l, i)"
    using assms(1) False by (auto simp: handle_append_entries_def elim: rbind_InrE)
  show ?thesis
  proof (cases i)
    case None
    then obtain h where s: "send (Message\<lparr>m_to := m_from m, m_type := MsgAppResp, m_index := m_index m,
        m_reject := True, m_reject_hint := h\<rparr>) (r\<lparr>r_log := l\<rparr>) = Inr r'"
      using assms(1) False l by (auto simp: handle_append_entries_def Let_def elim!: rbind_InrE)
    have "l = r_log r" using l None log_maybe_append_ok[OF assms(2) b] log_maybe_append_mismatch[OF assms(2)]
      by (auto simp: log_maybe_append_def Let_def rbind_Inr_iff split: if_split_asm)
    then show ?thesis using s by (intro reply_answers [OF s]) simp_all
  next
    case (Some k)
    then have s: "send (Message\<lparr>m_to := m_from m, m_type := MsgAppResp, m_index := k\<rparr>) (r\<lparr>r_log := l\<rparr>) = Inr r'"
      using assms(1) False l by (simp add: handle_append_entries_def Let_def)
    note f = maybe_append_follows[OF l [unfolded Some] assms(2) b assms(4)]
    show ?thesis by (rule reply_answers [OF s]) (use f assms(4-6) in simp_all)
  qed
qed

lemma handle_heartbeat_answers:
  assumes "handle_heartbeat m r = Inr r'" and "wf_log (r_log r)" and "m_type m = MsgHeartbeat"
    and "r_state r = Follower" and "m_term m = r_term r"
  shows "answers m r r'"
proof -
  obtain l where l: "commit_to (m_commit m) (r_log r) = Inr l"
      "send (Message\<lparr>m_to := m_from m, m_type := MsgHeartbeatResp\<rparr>) (r\<lparr>r_log := l\<rparr>) = Inr r'"
    using assms(1) by (auto simp: handle_heartbeat_def rbind_Inr_iff)
  show ?thesis by (rule reply_answers [OF l(2)]) (use heartbeat_follows[OF l(1) assms(2,3)] assms(4,5) in simp_all)
qed

lemma restore_node_blank:
  assumes "restore_node ids c r = Inr r'" and "\<And>j p. get_progress r j = Some p \<Longrightarrow> j = r_id r \<or> pr_match p = 0"
  shows "r_id r' = r_id r \<and> r_term r' = r_term r \<and> r_vote r' = r_vote r
    \<and> (\<forall>j p. get_progress r' j = Some p \<longrightarrow> j = r_id r \<or> pr_match p = 0)"
proof (rule rfold_invariant [OF assms(1) [unfolded restore_node_def]])
  fix i s t
  assume s: "r_id s = r_id r \<and> r_term s = r_term r \<and> r_vote s = r_vote r
    \<and> (\<forall>j p. get_progress s j = Some p \<longrightarrow> j = r_id r \<or> pr_match p = 0)" and t: "restore_one c i s = Inr t"
  have "r_id t = r_id s \<and> r_term t = r_term s \<and> r_vote t = r_vote s
    \<and> (\<forall>j p. get_progress t j = Some p \<longrightarrow> j = i \<and> (i = r_id s \<or> pr_match p = 0) \<or> get_progress s j = Some p)"
    using t by (auto simp: restore_one_def set_progress_def Let_def get_progress_def update_conv' delete_conv' map_of_delete
        elim!: rbind_InrE split: if_split_asm option.splits)
  then show "r_id t = r_id r \<and> r_term t = r_term r \<and> r_vote t = r_vote r
    \<and> (\<forall>j p. get_progress t j = Some p \<longrightarrow> j = r_id r \<or> pr_match p = 0)" using s by metis
qed (use assms(2) in simp)

lemma restore_recalls:
  assumes "restore s r = Inr (r', b)"
  shows "recalls r r'" and "r_id r' = r_id r" and "r_term r' = r_term r" and "r_vote r' = r_vote r"
    and "r_state r' = r_state r" and "r_msgs r' = r_msgs r"
proof -
  let ?r0 = "r\<lparr>r_log := log_restore s (r_log r), r_prs := [], r_learner_prs := []\<rparr>"
  have "r' = r \<or> (\<exists>l. r' = r\<lparr>r_log := l\<rparr>)
      \<or> (\<exists>r1 ids ids'. restore_node ids False ?r0 = Inr r1 \<and> restore_node ids' True r1 = Inr r')"
    using assms by (auto simp: restore_def elim!: rbind_InrE split: if_split_asm) blast+
  then have "recalls r r' \<and> r_id r' = r_id r \<and> r_term r' = r_term r \<and> r_vote r' = r_vote r \<and> r_state r' = r_state r \<and> r_msgs r' = r_msgs r"
  proof (elim disjE exE conjE)
    fix r1 ids ids' assume n: "restore_node ids False ?r0 = Inr r1" "restore_node ids' True r1 = Inr r'"
    have b1: "r_id r1 = r_id r \<and> r_term r1 = r_term r \<and> r_vote r1 = r_vote r
        \<and> (\<forall>j p. get_progress r1 j = Some p \<longrightarrow> j = r_id r \<or> pr_match p = 0)"
      using restore_node_blank[OF n(1)] by (simp add: get_progress_def)
    have "r_id r' = r_id r \<and> r_term r' = r_term r \<and> r_vote r' = r_vote r
        \<and> (\<forall>j p. get_progress r' j = Some p \<longrightarrow> j = r_id r \<or> pr_match p = 0)"
      using restore_node_blank[OF n(2)] b1 by simp
    then show ?thesis using restore_node_frame[OF n(1)] restore_node_frame[OF n(2)] by (auto simp: recalls_def)
  qed (auto simp: recalls_eq)
  then show "recalls r r'" "r_id r' = r_id r" "r_term r' = r_term r" "r_vote r' = r_vote r"
    "r_state r' = r_state r" "r_msgs r' = r_msgs r" by simp_all
qed

lemma handle_snapshot_answers:
  assumes "handle_snapshot m r = Inr r'" and "wf_log (r_log r)" and "wf_msg m" and "m_type m = MsgSnap"
    and "r_state r = Follower" and "m_term m = r_term r"
  shows "answers m r r'"
proof -
  obtain q b where q: "restore (m_snapshot m) r = Inr (q, b)"
      "send (Message\<lparr>m_to := m_from m, m_type := MsgAppResp\<rparr>) q = Inr r'"
    using assms(1) by (auto simp: handle_snapshot_def rbind_Inr_iff split: if_splits)
  have "unat (s_index (m_snapshot m)) + 1 < 2 ^ 64" using assms(3,4) by (simp add: wf_msg_def)
  note l = restore_follows[OF q(1) assms(2,4) this] and f = restore_recalls[OF q(1)]
  have "answers m q r'" by (rule send_answers [OF q(2)]) (simp_all add: Message_def)
  moreover from this have "r_log r' = r_log q" "r_vote r' = r_vote q"
    using q(2) by (auto simp: send_def rbind_Inr_iff Let_def split: if_split_asm)
  moreover have "replies m r r' x" if "r_msgs r' = r_msgs q @ [x]" "m_type x = MsgAppResp" "m_index x = 0" for x
    using that by (simp add: replies_def)
  moreover have "\<exists>x. r_msgs r' = r_msgs q @ [x] \<and> m_type x = MsgAppResp \<and> m_index x = 0"
    using q(2) by (auto simp: send_def rbind_Inr_iff Let_def Message_def is_vote_type_def split: if_split_asm)
  ultimately show ?thesis using l f assms(5,6) recalls_trans[OF f(1) _ f(2)]
    by (auto simp: answers_def)
qed

lemma from_leader_acts:
  assumes "(m_type m = MsgApp \<and> handle_append_entries m r = Inr r') \<or> (m_type m = MsgHeartbeat \<and> handle_heartbeat m r = Inr r')
      \<or> (m_type m = MsgSnap \<and> handle_snapshot m r = Inr r')"
    and "wf_log (r_log r)" and "wf_msg m" and "r_state r = Follower" and "m_term m = r_term r"
  shows "acts m r r'"
  using assms handle_append_entries_answers handle_heartbeat_answers handle_snapshot_answers answers_acts by metis

lemma step_follower_acts:
  assumes "step_follower m r = Inr (r', s)" and "wf_log (r_log r)" and "wf_msg m" and "room m r" and "r_state r = Follower"
    and "m_term m = 0 \<or> m_term m = r_term r"
  shows "acts m r r'"
proof -
  let ?f = "r\<lparr>r_election_elapsed := 0, r_lead := m_from m\<rparr>"
  have fwd: "acts m r r'" if "send (m\<lparr>m_to := i\<rparr>) r = Inr r'" "m_type m \<notin> {MsgApp, MsgSnap, MsgHeartbeat, MsgVote, MsgAppResp}" for i
    using answers_acts[OF send_answers [OF that(1)]] that(2) by simp
  have "acts m r r' \<or> ((m_type m = MsgApp \<and> handle_append_entries m ?f = Inr r') \<or> (m_type m = MsgHeartbeat \<and> handle_heartbeat m ?f = Inr r')
      \<or> (m_type m = MsgSnap \<and> handle_snapshot m ?f = Inr r')) \<or> campaign kCampaignTransfer r = Inr r'"
    using assms(1)
    by (auto simp: step_follower_def Let_def finish_Inr_iff dropped_Inr_iff
        dest!: fwd intro: stage_done split: if_split_asm list.split_asm)
  then show ?thesis
  proof (elim disjE [of "acts m r r'"] disjE [of _ "campaign kCampaignTransfer r = Inr r'"])
    assume h: "(m_type m = MsgApp \<and> handle_append_entries m ?f = Inr r') \<or> (m_type m = MsgHeartbeat \<and> handle_heartbeat m ?f = Inr r')
      \<or> (m_type m = MsgSnap \<and> handle_snapshot m ?f = Inr r')"
    then have "m_term m = r_term r" using assms(3,6) by (auto simp: wf_msg_def)
    then have "acts m ?f r'" using assms(2,3,5) by (intro from_leader_acts [OF h]) simp_all
    then show ?thesis by (rule stage_acts [OF stage_eq, rotated 7]) simp_all
  next
    assume "campaign kCampaignTransfer r = Inr r'"
    then show ?thesis by (rule campaign_acts [OF _ assms(2)]) (use assms(4) in \<open>simp add: room_def\<close>)
  qed
qed

lemma step_vote_resp_acts:
  assumes "step_vote_resp m r = Inr r'" and "wf_log (r_log r)" and "log_last (r_log r) + 2 < 2 ^ 64"
  shows "acts m r r'"
proof -
  obtain r1 g where p: "poll (m_from m) (m_type m) (\<not> m_reject m) r = Inr (r1, g)"
    using assms(1) by (auto simp: step_vote_resp_def rbind_Inr_iff)
  obtain votes where v: "r1 = r\<lparr>r_votes := votes\<rparr>" using poll_cases[OF p] by metis
  have r1: "stage r r1" "wf_log (r_log r1)" "log_last (r_log r1) + 2 < 2 ^ 64" using v assms(2,3) by (simp_all add: stage_eq)
  have "campaign kCampaignElection r1 = Inr r' \<or> (\<exists>r2. become_leader r1 = Inr r2 \<and> bcast_append r2 = Inr r')
      \<or> (\<exists>t l. become_follower t l r1 = Inr r') \<or> r' = r1"
    using assms(1) p by (auto simp: step_vote_resp_def rbind_Inr_iff Let_def split: if_split_asm)
  then have "acts m r1 r'"
    by (elim disjE exE conjE) (auto intro: campaign_acts [OF _ r1(2,3)] become_leader_acts [OF _ r1(3) _ r1(2)] become_follower_acts)
  then show ?thesis by (rule stage_acts [OF r1(1)]) (use v in simp)
qed

lemma step_candidate_acts:
  assumes "step_candidate m r = Inr (r', s)" and "wf_log (r_log r)" and "wf_msg m" and "room m r"
  shows "acts m r r'"
proof -
  consider (same) "r' = r"
    | (led) r1 where "become_follower (m_term m) (m_from m) r = Inr r1"
        "(m_type m = MsgApp \<and> handle_append_entries m r1 = Inr r') \<or> (m_type m = MsgHeartbeat \<and> handle_heartbeat m r1 = Inr r')
          \<or> (m_type m = MsgSnap \<and> handle_snapshot m r1 = Inr r')"
    | (resp) "step_vote_resp m r = Inr r'"
    using assms(1)
    by (auto simp: step_candidate_def finish_Inr_iff dropped_Inr_iff rbind_Inr_iff split: if_splits)
  then show ?thesis
  proof cases
    case (led r1)
    note f = become_follower_stage[OF led(1)]
    have "acts m r1 r'" using f assms(2) by (intro from_leader_acts [OF led(2) _ assms(3)]) (simp_all add: stage_def)
    then show ?thesis by (rule stage_acts [OF f(1)]) (use f(2) in simp)
  next
    case resp
    then show ?thesis by (rule step_vote_resp_acts [OF _ assms(2)]) (use assms(4) in \<open>simp add: room_def\<close>)
  qed (simp add: stage_done)
qed

lemma step_vote_acts:
  assumes "step_vote m r = Inr r'" and "m_type m = MsgVote \<or> m_type m = MsgPreVote" and "wf_log (r_log r)"
  shows "acts m r r'"
proof -
  have "r' = r \<or> (\<exists>x. send x r = Inr r' \<and> m_type x \<notin> {MsgApp, MsgSnap, MsgHeartbeat, MsgVote, MsgAppResp})
      \<or> (no_newer (last_point (r_log r)) (from_point m)
         \<and> (\<exists>x q. send x r = Inr q \<and> m_type x \<notin> {MsgApp, MsgSnap, MsgHeartbeat, MsgVote, MsgAppResp}
              \<and> r' = q\<lparr>r_election_elapsed := 0, r_vote := m_from m\<rparr>))"
    using assms(1,2)
    by (auto simp: step_vote_def rbind_Inr_iff vote_resp_msg_type_def is_up_to_date_ok[OF wf_logD(1) [OF assms(3)]]
        no_newer_def from_point_def point_at_def split: if_split_asm) force+
  then show ?thesis
  proof (elim disjE exE conjE)
    fix x assume h: "send x r = Inr r'" "m_type x \<notin> {MsgApp, MsgSnap, MsgHeartbeat, MsgVote, MsgAppResp}"
    then show ?thesis using answers_acts[OF send_answers [OF h(1)]] by simp
  next
    fix x q assume h: "no_newer (last_point (r_log r)) (from_point m)" "send x r = Inr q"
      "m_type x \<notin> {MsgApp, MsgSnap, MsgHeartbeat, MsgVote, MsgAppResp}" "r' = q\<lparr>r_election_elapsed := 0, r_vote := m_from m\<rparr>"
    have q: "answers m r q" "r_log q = r_log r" using h(2,3) sends_frame(4)[OF send_sends] by (simp_all add: send_answers)
    have "recalls r r'" using q(1) h(4) get_progress_cong[of r' q] by (auto simp: answers_def recalls_def)
    then show ?thesis using q h(1,4) by (intro answers_acts) (auto simp: answers_def replies_def)
  qed (simp add: stage_done)
qed

section \<open>Steps and ticks\<close>

lemma step_dispatch_acts:
  assumes "step_dispatch m r = Inr (r', s)" and "wf_log (r_log r)" and "r_step r = Some (step_of (r_state r))"
    and "wf_msg m" and "room m r" and "m_term m = 0 \<or> m_term m = r_term r \<or> m_type m = MsgPreVote \<or> m_type m = MsgPreVoteResp"
  shows "acts m r r'"
proof -
  have hup: "acts m r r'" if "step_hup r = Inr r'"
  proof -
    have "r' = r \<or> (\<exists>ct. campaign ct r = Inr r')"
      using that by (auto simp: step_hup_def elim!: rbind_InrE split: if_split_asm sum.split_asm)
    then show ?thesis using campaign_acts[OF _ assms(2)] assms(5) by (auto simp: room_def stage_done)
  qed
  have leader: "acts m r r'" if "step_leader m r = Inr (r', s)" "r_state r = Leader"
  proof (rule leader_acts [OF that(2) step_leader_tends [OF that(1) assms(5)] step_leader_quiet [OF that(1)]])
    show "confirms m r (m_from m) (m_index m)" if "m_type m = MsgAppResp" "\<not> m_reject m"
      using that assms(6) by (auto simp: confirms_def)
  qed
  have follower: "acts m r r'" if "step_follower m r = Inr (r', s)" "r_state r = Follower"
  proof (cases "m_type m = MsgPreVote \<or> m_type m = MsgPreVoteResp")
    case True
    then have "r' = r" using that(1) by (auto simp: step_follower_def Let_def)
    then show ?thesis by (simp add: stage_done)
  qed (use step_follower_acts[OF that(1) assms(2,4,5) that(2)] assms(6) in blast)
  have "acts m r r'" if "step_role m r = Inr (r', s)"
    using that assms(3) leader follower step_candidate_acts[OF _ assms(2,4,5)]
    by (cases "r_state r") (auto simp: step_role_def)
  then show ?thesis using assms(1) hup step_vote_acts[OF _ _ assms(2)]
    by (auto simp: step_dispatch_def finish_Inr_iff split: if_split_asm)
qed

lemma step_acts:
  assumes "step m r = Inr (r', s)" and "wf_raft r" and "wf_msg m" and "room m r"
  shows "acts m r r'"
proof -
  note wl = wf_raftD(1)[OF assms(2)]
  have role: "r_step r = Some (step_of (r_state r))" using wf_raftD(4)[OF assms(2)] by (simp add: role_ok_def)
  consider (go) "m_term m = 0 \<or> m_term m = r_term r" "step_dispatch m r = Inr (r', s)"
    | (higher) r1 go where "r_term r < m_term m" "step_higher_term m r = Inr (r1, go)"
        "(if go then step_dispatch m r1 else Inr (r1, Ok)) = Inr (r', s)"
    | (lower) "step_lower_term m r = Inr r'"
    using assms(1) by (auto simp: step_def rbind_Inr_iff finish_Inr_iff split: if_split_asm)
  then show ?thesis
  proof cases
    case go
    then show ?thesis using step_dispatch_acts[OF go(2) wl role assms(3,4)] by auto
  next
    case (higher r1 go)
    have "(r1 = r \<and> (go \<longrightarrow> m_type m = MsgPreVote \<or> m_type m = MsgPreVoteResp)) \<or> (\<exists>l. become_follower (m_term m) l r = Inr r1)"
      using higher(2) by (auto simp: step_higher_term_def Let_def rbind_Inr_iff split: if_split_asm)
    then show ?thesis
    proof (elim disjE exE conjE)
      assume "r1 = r" "go \<longrightarrow> m_type m = MsgPreVote \<or> m_type m = MsgPreVoteResp"
      then show ?thesis using higher(3) step_dispatch_acts[OF _ wl role assms(3,4)] by (auto split: if_splits)
    next
      fix l assume b: "become_follower (m_term m) l r = Inr r1"
      note f = become_follower_stage[OF b]
      have l: "r_log r1 = r_log r" using f(1) by (simp add: stage_def)
      have st: "r_step r1 = Some StepFollower" using become_follower_quiet(4)[OF b] .
      have rm: "room m r1" using assms(3,4) f(3) l by (simp add: room_def wf_msg_def)
      have "acts m r1 r'" using higher(3) step_dispatch_acts[OF _ _ _ assms(3) rm, of r' s] l wl st f(2,3)
        by (auto split: if_splits)
      then show ?thesis by (rule stage_acts [OF f(1)]) (use f(2) in simp)
    qed
  next
    case lower
    have "r' = r \<or> (\<exists>x. send x r = Inr r' \<and> m_type x \<notin> {MsgApp, MsgSnap, MsgHeartbeat, MsgVote} \<and> m_index x = 0)"
      using lower by (auto simp: step_lower_term_def rbind_Inr_iff Message_def split: if_split_asm)
    then show ?thesis using answers_acts[OF send_answers] stage_done[OF stage_refl] by blast
  qed
qed

lemma tick_acts:
  assumes "tick r = Inr r'" and "wf_raft r" and "can_grow r"
  shows "acts m r r'"
proof -
  note wl = wf_raftD(1)[OF assms(2)]
  have role: "r_tick r = Some (tick_of (r_state r))" using wf_raftD(4)[OF assms(2)] by (simp add: role_ok_def)
  have el: "acts m r r'" if t: "tick_election r = Inr r'"
  proof -
    let ?r = "r\<lparr>r_election_elapsed := 0\<rparr>"
    have "(stage r r' \<and> r_state r' = r_state r) \<or> (\<exists>ct. campaign ct ?r = Inr r')"
      using t by (auto simp: tick_election_def step_def step_dispatch_def step_hup_def Message_def finish_Inr_iff Let_def
          elim!: rbind_InrE split: if_split_asm sum.split_asm)
    moreover have "acts m r r'" if "campaign ct ?r = Inr r'" for ct
    proof (rule stage_acts [OF stage_eq [where s = "?r"] campaign_acts [OF that]])
      show "log_last (r_log ?r) + 2 < 2 ^ 64" using assms(3) by (simp add: can_grow_def)
    qed (use wl in simp_all)
    ultimately show ?thesis using stage_done[of r r'] by auto
  qed
  have "acts m r r'" if "tick_heartbeat r = Inr r'" "r_state r = Leader"
    by (rule leader_acts [OF that(2) tends.tick_heartbeat_calm [OF that(1)] quiet.tick_heartbeat_calm [OF that(1)]])
  then show ?thesis using assms(1) el role
    by (cases "r_state r") (auto simp: tick_def)
qed

section \<open>Restarts and the work of the server\<close>

text \<open>A node that is constructed on a storage knows nothing of the others and stands where the storage says.\<close>

lemma Raft_starts:
  assumes "Raft cfg draws = Inr r" and "c_storage cfg = Some st" and "wf_storage st"
    and "st_base st \<le> unat (hs_commit (ms_hard_state st))"
  shows "l_committed (r_log r) = hs_commit (ms_hard_state st)" and "log_snap (r_log r) = ms_snapshot st"
    and "get_progress r j = Some p \<Longrightarrow> j = r_id r \<or> pr_match p = 0"
proof -
  obtain l where l: "RaftLog st (c_max_committed_size_per_ready cfg) = Inr l" "unat (l_committed l) = st_base st"
    using wf_RaftLog[OF assms(3), of "c_max_committed_size_per_ready cfg"] by auto
  let ?hs = "fst (storage_initial_state st)"
  let ?app = "\<lambda>r2. if c_applied cfg > 0 then r2\<lparr>r_log := applied_to (c_applied cfg) (r_log r2)\<rparr> else r2"
  obtain peers learners r1 r2 where r: "rfold add_learner learners (fold add_peer peers (initial_raft cfg draws l)) = Inr r1"
      "(if \<not> hs_is_empty_state ?hs then load_state ?hs r1 else Inr r1) = Inr r2"
      "become_follower (r_term (?app r2)) 0 (?app r2) = Inr r"
    using Raft_stages[OF assms(1,2) l(1)] by metis
  have hs: "?hs = ms_hard_state st" by (simp add: storage_initial_state_def)
  have "r_log (fold add_peer peers (initial_raft cfg draws l)) = l"
    by (induction peers rule: rev_induct) (simp_all add: add_peer_def initial_raft_def)
  then have r1: "r_log r1 = l" by (rule rfold_invariant [OF r(1)]) (auto simp: add_learner_def Let_def split: if_split_asm)
  have c2: "l_committed (r_log r2) = hs_commit ?hs"
  proof (cases "hs_is_empty_state ?hs")
    case True
    then have "hs_commit ?hs = 0" "l_committed l = 0"
      using assms(4) l(2) hs by (auto simp: hs_is_empty_state_def unat_eq_0)
    then show ?thesis using r(2) r1 True by simp
  qed (use r(2) in \<open>auto simp: load_state_def rbind_Inr_iff split: if_split_asm\<close>)
  have "log_snap l = ms_snapshot st" using l(1)
    by (auto simp: RaftLog_def rbind_Inr_iff log_snap_def Unstable_def split: if_split_asm)
  then have s2: "log_snap (r_log r2) = ms_snapshot st"
    using r(2) r1 by (auto simp: load_state_def rbind_Inr_iff split: if_split_asm)
  have "r_log r = r_log (?app r2)"
    using r(3) by (auto simp: become_follower_def elim!: rbind_InrE dest!: reset_frame)
  moreover have "l_committed (r_log (?app r2)) = l_committed (r_log r2)" "log_snap (r_log (?app r2)) = log_snap (r_log r2)"
    by (simp_all add: applied_to_def log_snap_def cong: option.case_cong)
  ultimately show "l_committed (r_log r) = hs_commit (ms_hard_state st)" "log_snap (r_log r) = ms_snapshot st"
    using c2 s2 hs by simp_all
  obtain q where q: "reset (r_term (?app r2)) ((?app r2)\<lparr>r_step := Some StepFollower\<rparr>) = Inr q"
      "r = q\<lparr>r_tick := Some TickElection, r_lead := 0, r_state := Follower\<rparr>"
    using r(3) by (auto simp: become_follower_def rbind_Inr_iff)
  have "r_id r = r_id (?app r2)" using q(2) reset_frame[OF q(1)] by simp
  then show "j = r_id r \<or> pr_match p = 0" if "get_progress r j = Some p"
    using that q(2) get_progress_cong[of r q j] reset_peers(2)[OF q(1), of j p] by (cases "j = r_id r") simp_all
qed

text \<open>
  The server creates snapshots of what is applied; it moves neither the commit position nor, apart
  from that, the snapshot that the node would send.
\<close>

definition snap_kept :: "raft_log \<Rightarrow> raft_log \<Rightarrow> bool" where
  "snap_kept l l' \<longleftrightarrow> l_committed l' = l_committed l
     \<and> (log_snap l' = log_snap l
         \<or> (\<exists>k. log_base l \<le> k \<and> k \<le> unat (l_committed l) \<and> snap_point (log_snap l') = point_at l k))"

lemma trimmed_points:
  assumes "trimmed (log_view l) (log_view l')" and "log_base l' \<le> i"
  shows "point_at l' i = point_at l i"
proof -
  obtain n where n: "log_base l' = log_base l + n" "n \<le> length (log_ents l)"
      "log_base_term l' = term_at (log_base l) (log_base_term l) (log_ents l) (log_base l + n)" "log_ents l' = drop n (log_ents l)"
    using assms(1) by (auto simp: log_view_def le_iff_add)
  show ?thesis
  proof (cases "i = log_base l'")
    case False
    then have "i - (log_base l + 1) = n + (i - (log_base l' + 1))" "log_base l' < i" using n(1) assms(2) by auto
    then show ?thesis using n by (auto simp: point_at_def log_term_at_def term_at_def log_base_def)
  qed (use n in \<open>simp add: point_at_def log_term_at_def term_at_def\<close>)
qed

end
