(* ===== verification/Raft_Cluster.thy ===== *)
theory Raft_Cluster
  imports Raft_Acts
begin

text \<open>
  A cluster of nodes that run the state machine of src/raft-kv/raft/raft.cpp over a network that may
  lose, delay, reorder and duplicate messages, with processes that stop at any moment and start again
  from what they saved. As in the loop of the server, a node saves its term and vote before it hands
  out its messages; what it did since it last saved is lost when it stops. The theorem is election
  safety: over the whole history of the cluster no term has two leaders.

  The history variables \<open>cl_cast\<close>, \<open>cl_kept\<close> and \<open>cl_elected\<close> record the votes cast, the votes
  saved and the leaders seen; no step depends on them.
\<close>

section \<open>Clusters\<close>

record cluster =
  cl_nodes :: "u64 \<Rightarrow> raft"
  cl_saved :: "u64 \<Rightarrow> u64 \<times> u64"
  cl_disk :: "u64 \<Rightarrow> nat \<times> u64 \<times> entry list"
  cl_commit :: "u64 \<Rightarrow> u64"
  cl_net :: "message set"
  cl_cast :: "(u64 \<times> u64 \<times> u64) set"
  cl_kept :: "(u64 \<times> u64 \<times> u64) set"
  cl_elected :: "(u64 \<times> u64) set"

text \<open>Node \<open>i\<close> moves to the state \<open>r\<close>.\<close>

definition moved :: "u64 \<Rightarrow> raft \<Rightarrow> cluster \<Rightarrow> cluster" where
  "moved i r c = c\<lparr>cl_nodes := (cl_nodes c)(i := r),
     cl_cast := (if r_vote r \<noteq> 0 then insert (i, r_term r, r_vote r) (cl_cast c) else cl_cast c),
     cl_elected := (if r_state r = Leader then insert (r_term r, i) (cl_elected c) else cl_elected c)\<rparr>"

text \<open>Node \<open>i\<close> saves its term, its vote, its commit position and its log and hands its messages to the network.\<close>

definition saved :: "u64 \<Rightarrow> cluster \<Rightarrow> cluster" where
  "saved i c = (let (r, ms) = read_messages (cl_nodes c i) in
     c\<lparr>cl_nodes := (cl_nodes c)(i := r), cl_saved := (cl_saved c)(i := (r_term r, r_vote r)),
       cl_disk := (cl_disk c)(i := log_view (r_log r)), cl_commit := (cl_commit c)(i := l_committed (r_log r)),
       cl_net := cl_net c \<union> set ms, cl_kept := cl_kept c \<union> {x \<in> cl_cast c. fst x = i}\<rparr>)"

text \<open>Node \<open>i\<close> starts again as \<open>r\<close>; the votes it had not saved are forgotten.\<close>

definition restarted :: "u64 \<Rightarrow> raft \<Rightarrow> cluster \<Rightarrow> cluster" where
  "restarted i r c = c\<lparr>cl_nodes := (cl_nodes c)(i := r),
     cl_cast := {x \<in> cl_cast c. fst x \<noteq> i} \<union> {x \<in> cl_kept c. fst x = i}\<rparr>"

text \<open>
  The steps of a cluster whose leaders are elected by the voters \<open>N\<close>. A message is delivered to the
  node it is addressed to; an input comes from the node's own server and carries no term. The work of
  the server between two steps (storing entries, advancing the log, compacting it, creating a
  snapshot, collecting read states) changes the log and the counters only. A process starts again on a
  storage that holds the saved log, possibly compacted, and the saved term and vote. There are two
  kinds of clusters. With \<open>mc\<close> the membership may change and nothing more is asked of the steps.
  Without it the nodes keep the peers they start with, a server does not make up an append response, the
  snapshot of a log stays or moves to a committed position that the log holds (\<open>snap_kept\<close>), and the
  storage of a restart has the saved commit position, is compacted up to it at most, and has a snapshot,
  if any, at its base.
\<close>

inductive cluster_step :: "bool \<Rightarrow> u64 set \<Rightarrow> cluster \<Rightarrow> cluster \<Rightarrow> bool" for mc N where
  deliver: "i \<in> N \<Longrightarrow> m \<in> cl_net c \<Longrightarrow> m_to m = i \<Longrightarrow> wf_msg m \<Longrightarrow> room m (cl_nodes c i)
    \<Longrightarrow> timely m (cl_nodes c i) \<Longrightarrow> step m (cl_nodes c i) = Inr (r', s)
    \<Longrightarrow> r_state r' = Leader \<longrightarrow> voters (cl_nodes c i) = N \<Longrightarrow> cluster_step mc N c (moved i r' c)"
| input: "i \<in> N \<Longrightarrow> m_term m = 0 \<Longrightarrow> \<not> is_vote_type (m_type m) \<Longrightarrow> mc \<or> m_type m \<noteq> MsgAppResp \<Longrightarrow> wf_msg m \<Longrightarrow> room m (cl_nodes c i)
    \<Longrightarrow> step m (cl_nodes c i) = Inr (r', s)
    \<Longrightarrow> r_state r' = Leader \<longrightarrow> voters (cl_nodes c i) = N \<Longrightarrow> cluster_step mc N c (moved i r' c)"
| clock: "i \<in> N \<Longrightarrow> can_grow (cl_nodes c i) \<Longrightarrow> tick (cl_nodes c i) = Inr r'
    \<Longrightarrow> r_state r' = Leader \<longrightarrow> voters (cl_nodes c i) = N \<Longrightarrow> cluster_step mc N c (moved i r' c)"
| member: "mc \<Longrightarrow> i \<in> N \<Longrightarrow> add_node_or_learner j b (cl_nodes c i) = Inr r' \<or> remove_node j (cl_nodes c i) = Inr r'
    \<Longrightarrow> cluster_step mc N c (moved i r' c)"
| work: "i \<in> N \<Longrightarrow> r' = (cl_nodes c i)\<lparr>r_log := l, r_uncommitted_size := u, r_read_states := rs\<rparr>
    \<Longrightarrow> trimmed (log_view (r_log (cl_nodes c i))) (log_view l) \<Longrightarrow> mc \<or> snap_kept (r_log (cl_nodes c i)) l
    \<Longrightarrow> wf_raft r' \<Longrightarrow> cluster_step mc N c (moved i r' c)"
| save: "i \<in> N \<Longrightarrow> cluster_step mc N c (saved i c)"
| restart: "i \<in> N \<Longrightarrow> wf_config cfg draws \<Longrightarrow> c_id cfg = i \<Longrightarrow> c_storage cfg = Some st
    \<Longrightarrow> cl_saved c i = (hs_term (ms_hard_state st), hs_vote (ms_hard_state st))
    \<Longrightarrow> trimmed (cl_disk c i) (st_base st, st_base_term st, st_ents st)
    \<Longrightarrow> mc \<or> cl_commit c i = hs_commit (ms_hard_state st) \<and> st_base st \<le> unat (cl_commit c i)
        \<and> (s_index (ms_snapshot st) = 0 \<or> snap_point (ms_snapshot st) = (st_base st, st_base_term st))
    \<Longrightarrow> Raft cfg draws = Inr r' \<Longrightarrow> cluster_step mc N c (restarted i r' c)"

definition initial :: "u64 set \<Rightarrow> cluster \<Rightarrow> bool" where
  "initial N c \<longleftrightarrow> 0 \<notin> N \<and> card N < 2 ^ 32
     \<and> (\<forall>i\<in>N. wf_raft (cl_nodes c i) \<and> r_id (cl_nodes c i) = i \<and> r_state (cl_nodes c i) = Follower
          \<and> r_msgs (cl_nodes c i) = [] \<and> r_vote (cl_nodes c i) = 0 \<and> cl_saved c i = (r_term (cl_nodes c i), 0))
     \<and> cl_net c = {} \<and> cl_cast c = {} \<and> cl_kept c = {} \<and> cl_elected c = {}"

section \<open>The invariant\<close>

definition nodes_ok :: "u64 set \<Rightarrow> cluster \<Rightarrow> bool" where
  "nodes_ok N c \<longleftrightarrow> (\<forall>i\<in>N. wf_raft (cl_nodes c i) \<and> r_id (cl_nodes c i) = i)"

text \<open>A node casts one vote in a term, and its present term and vote are the latest.\<close>

definition cast_ok :: "u64 set \<Rightarrow> cluster \<Rightarrow> bool" where
  "cast_ok N c \<longleftrightarrow>
     (\<forall>i t v. (i, t, v) \<in> cl_cast c \<longrightarrow> i \<in> N \<and> v \<noteq> 0 \<and> t \<le> r_term (cl_nodes c i)
        \<and> (t = r_term (cl_nodes c i) \<longrightarrow> v = r_vote (cl_nodes c i)))
     \<and> (\<forall>i\<in>N. r_vote (cl_nodes c i) \<noteq> 0 \<longrightarrow> (i, r_term (cl_nodes c i), r_vote (cl_nodes c i)) \<in> cl_cast c)
     \<and> (\<forall>i t v w. (i, t, v) \<in> cl_cast c \<longrightarrow> (i, t, w) \<in> cl_cast c \<longrightarrow> v = w)"

text \<open>The same for what was saved; and a node other than the candidate votes for it only after the
  candidate has saved its vote for itself.\<close>

definition kept_ok :: "u64 set \<Rightarrow> cluster \<Rightarrow> bool" where
  "kept_ok N c \<longleftrightarrow> cl_kept c \<subseteq> cl_cast c
     \<and> (\<forall>i t v. (i, t, v) \<in> cl_kept c \<longrightarrow> t \<le> fst (cl_saved c i) \<and> (t = fst (cl_saved c i) \<longrightarrow> v = snd (cl_saved c i)))
     \<and> (\<forall>i\<in>N. snd (cl_saved c i) \<noteq> 0 \<longrightarrow> (i, cl_saved c i) \<in> cl_kept c)
     \<and> (\<forall>i t v. (i, t, v) \<in> cl_cast c \<longrightarrow> i \<noteq> v \<longrightarrow> (v, t, v) \<in> cl_kept c)"

text \<open>Vote requests and grants tell of votes in \<open>X\<close>.\<close>

definition tells :: "u64 set \<Rightarrow> (u64 \<times> u64 \<times> u64) set \<Rightarrow> message \<Rightarrow> bool" where
  "tells N X x \<longleftrightarrow> (m_type x = MsgVote \<longrightarrow> (m_from x, m_term x, m_from x) \<in> X)
     \<and> (m_type x = MsgVoteResp \<and> \<not> m_reject x \<and> m_to x \<in> N \<longrightarrow> (m_from x, m_term x, m_to x) \<in> X \<and> m_term x \<noteq> 0)"

definition msgs_ok :: "u64 set \<Rightarrow> cluster \<Rightarrow> bool" where
  "msgs_ok N c \<longleftrightarrow> (\<forall>x\<in>cl_net c. tells N (cl_kept c) x)
     \<and> (\<forall>i\<in>N. \<forall>x\<in>set (r_msgs (cl_nodes c i)). m_from x = i \<and> tells N (cl_cast c) x)"

text \<open>The votes a candidate has counted are saved, its own apart; so are those of a leader, and they
  are a majority.\<close>

definition backing :: "cluster \<Rightarrow> u64 \<Rightarrow> u64 \<Rightarrow> u64 \<Rightarrow> bool" where
  "backing c t i j \<longleftrightarrow> j = i \<or> (j, t, i) \<in> cl_kept c"

definition elected_ok :: "u64 set \<Rightarrow> cluster \<Rightarrow> bool" where
  "elected_ok N c \<longleftrightarrow>
     (\<forall>i\<in>N. r_state (cl_nodes c i) = Candidate \<longrightarrow>
        (\<forall>j. (j, True) \<in> set (r_votes (cl_nodes c i)) \<longrightarrow> backing c (r_term (cl_nodes c i)) i j))
     \<and> (\<forall>i\<in>N. r_state (cl_nodes c i) = Leader \<longrightarrow> (r_term (cl_nodes c i), i) \<in> cl_elected c)
     \<and> (\<forall>t i. (t, i) \<in> cl_elected c \<longrightarrow> i \<in> N
        \<and> (\<exists>Q \<subseteq> N. card Q = card N div 2 + 1 \<and> (\<forall>j\<in>Q. backing c t i j)))"

definition election_inv :: "u64 set \<Rightarrow> cluster \<Rightarrow> bool" where
  "election_inv N c \<longleftrightarrow> 0 \<notin> N \<and> card N < 2 ^ 32 \<and> nodes_ok N c \<and> cast_ok N c \<and> kept_ok N c \<and> msgs_ok N c \<and> elected_ok N c"

lemma initial_inv: "initial N c \<Longrightarrow> election_inv N c"
  by (auto simp: initial_def election_inv_def nodes_ok_def cast_ok_def kept_ok_def msgs_ok_def elected_ok_def)

section \<open>A node moves\<close>

text \<open>
  What a step of node \<open>i\<close> on the message \<open>m\<close> gives: term and vote only move forward, the effect
  on elections is that of \<open>m\<close>, and \<open>m\<close> tells of saved votes.
\<close>

definition votes_on :: "raft \<Rightarrow> raft \<Rightarrow> bool" where
  "votes_on r r' \<longleftrightarrow> r_term r \<le> r_term r' \<and> (r_term r' = r_term r \<and> r_vote r \<noteq> 0 \<longrightarrow> r_vote r' = r_vote r)"

definition moves :: "u64 set \<Rightarrow> cluster \<Rightarrow> u64 \<Rightarrow> message \<Rightarrow> raft \<Rightarrow> bool" where
  "moves N c i m r' \<longleftrightarrow> i \<in> N \<and> wf_raft r' \<and> votes_on (cl_nodes c i) r' \<and> effect m (cl_nodes c i) r'
     \<and> (m_type m = MsgVote \<longrightarrow> (m_from m, m_term m, m_from m) \<in> cl_kept c)
     \<and> (m_type m = MsgVoteResp \<and> \<not> m_reject m \<longrightarrow> (m_from m, m_term m, i) \<in> cl_kept c)
     \<and> (r_state r' = Leader \<longrightarrow> (r_state (cl_nodes c i) = Leader \<and> r_term r' = r_term (cl_nodes c i))
          \<or> voters (cl_nodes c i) = N)"

lemma moved_simps [simp]:
  "cl_nodes (moved i r c) = (cl_nodes c)(i := r)" "cl_saved (moved i r c) = cl_saved c"
  "cl_net (moved i r c) = cl_net c" "cl_kept (moved i r c) = cl_kept c"
  "cl_cast (moved i r c) = (if r_vote r \<noteq> 0 then insert (i, r_term r, r_vote r) (cl_cast c) else cl_cast c)"
  "cl_elected (moved i r c) = (if r_state r = Leader then insert (r_term r, i) (cl_elected c) else cl_elected c)"
  "cl_disk (moved i r c) = cl_disk c" "cl_commit (moved i r c) = cl_commit c"
  by (simp_all add: moved_def)

lemma effectD:
  assumes "effect m r r'"
  shows "r_id r' = r_id r" and "\<exists>ms. r_msgs r' = r_msgs r @ ms \<and> ballots r' ms"
    and "r_vote r' = 0 \<or> r_vote r' = r_id r \<or> (r_term r' = r_term r \<and> r_vote r' = r_vote r)
         \<or> (m_type m = MsgVote \<and> m_term m = r_term r' \<and> r_vote r' = m_from m)"
    and "r_state r' = Candidate \<Longrightarrow> backed m r (r_term r') (r_votes r')"
    and "r_state r' = Leader \<Longrightarrow> (r_state r = Leader \<and> r_term r' = r_term r)
         \<or> (\<exists>V. distinct (map fst V) \<and> quorum r = of_nat (granted_votes V) \<and> backed m r (r_term r') V)"
  using assms by (auto simp: effect_def)

lemma moved_cast:
  assumes "cast_ok N c" and "moves N c i m r'"
  shows "cast_ok N (moved i r' c)"
proof -
  let ?r = "cl_nodes c i"
  have v: "votes_on ?r r'" and i: "i \<in> N" using assms(2) by (simp_all add: moves_def)
  have old: "t \<le> r_term r' \<and> (t = r_term r' \<longrightarrow> w = r_vote r') \<and> w \<noteq> 0" if "(i, t, w) \<in> cl_cast c" for t w
  proof -
    have c: "t \<le> r_term ?r" "t = r_term ?r \<longrightarrow> w = r_vote ?r" "w \<noteq> 0" using that assms(1) by (auto simp: cast_ok_def)
    have "w = r_vote r'" if t: "t = r_term r'"
    proof -
      have "t = r_term ?r" using c(1) t v by (auto simp: votes_on_def intro: order_antisym)
      then show ?thesis using c(2,3) t v by (simp add: votes_on_def)
    qed
    then show ?thesis using c v by (auto simp: votes_on_def)
  qed
  have "(i, t, v) \<in> cl_cast c \<Longrightarrow> (i, t, w) \<in> cl_cast c \<Longrightarrow> v = w" for i t v w
    using assms(1) unfolding cast_ok_def by blast
  then show ?thesis using assms(1) i old by (auto simp: cast_ok_def split: if_splits) blast
qed

lemma moved_kept:
  assumes "kept_ok N c" and "cast_ok N c" and "nodes_ok N c" and "moves N c i m r'"
  shows "kept_ok N (moved i r' c)"
proof -
  let ?r = "cl_nodes c i"
  have i: "i \<in> N" and id: "r_id ?r = i" using assms(3,4) by (auto simp: moves_def nodes_ok_def)
  have e: "effect m ?r r'" using assms(4) by (simp add: moves_def)
  have "(r_vote r', r_term r', r_vote r') \<in> cl_kept c" if "r_vote r' \<noteq> 0" "i \<noteq> r_vote r'"
    using effectD(3)[OF e]
  proof (elim disjE conjE)
    assume h: "r_term r' = r_term ?r" "r_vote r' = r_vote ?r"
    then have "(i, r_term r', r_vote r') \<in> cl_cast c" using that(1) assms(2) i by (simp add: cast_ok_def)
    then show ?thesis using that(2) assms(1) by (simp add: kept_ok_def)
  next
    assume "m_type m = MsgVote" "m_term m = r_term r'" "r_vote r' = m_from m"
    then show ?thesis using assms(4) by (simp add: moves_def)
  qed (use that id in simp_all)
  then show ?thesis using assms(1) by (auto simp: kept_ok_def)
qed

lemma tells_mono: "tells N X x \<Longrightarrow> X \<subseteq> Y \<Longrightarrow> tells N Y x"
  by (auto simp: tells_def)

lemma moved_msgs:
  assumes "msgs_ok N c" and "nodes_ok N c" and "0 \<notin> N" and "moves N c i m r'"
  shows "msgs_ok N (moved i r' c)"
proof -
  let ?r = "cl_nodes c i" and ?X = "cl_cast (moved i r' c)"
  have i: "i \<in> N" "i \<noteq> 0" and id: "r_id ?r = i" using assms(2-4) by (auto simp: moves_def nodes_ok_def)
  have e: "effect m ?r r'" using assms(4) by (simp add: moves_def)
  have mono: "cl_cast c \<subseteq> ?X" by auto
  obtain ms where ms: "r_msgs r' = r_msgs ?r @ ms" "ballots r' ms" using effectD(2)[OF e] by blast
  have id': "r_id r' = i" using effectD(1)[OF e] id by simp
  have "m_from x = i \<and> tells N ?X x" if "x \<in> set ms" for x
    using that ms(2) i id' assms(3) by (auto simp: ballots_def tells_def)
  moreover have "m_from x = j \<and> tells N ?X x" if "x \<in> set (r_msgs (cl_nodes c j))" "j \<in> N" for x j
    using that assms(1) tells_mono[OF _ mono] by (auto simp: msgs_ok_def)
  ultimately have "\<forall>j\<in>N. \<forall>x\<in>set (r_msgs (cl_nodes (moved i r' c) j)). m_from x = j \<and> tells N ?X x"
    using ms(1) i by auto
  then show ?thesis using assms(1) unfolding msgs_ok_def by (metis moved_simps(3,4))
qed

lemma backed_backing:
  assumes "elected_ok N c" and "nodes_ok N c" and "moves N c i m r'" and "backed m (cl_nodes c i) t V" and "(j, True) \<in> set V"
  shows "backing c t i j"
proof -
  let ?r = "cl_nodes c i"
  have i: "i \<in> N" "r_id ?r = i" using assms(2,3) by (auto simp: moves_def nodes_ok_def)
  have "j = i \<or> (r_state ?r = Candidate \<and> r_term ?r = t \<and> ((j, True) \<in> set (r_votes ?r)
         \<or> (m_type m = MsgVoteResp \<and> \<not> m_reject m \<and> m_term m = t \<and> m_from m = j)))"
    using assms(4,5) i by (simp add: backed_def)
  then show ?thesis
  proof (elim disjE conjE)
    assume "r_state ?r = Candidate" "r_term ?r = t" "(j, True) \<in> set (r_votes ?r)"
    then show ?thesis using assms(1) i by (auto simp: elected_ok_def)
  next
    assume "m_type m = MsgVoteResp" "\<not> m_reject m" "m_term m = t" "m_from m = j"
    then show ?thesis using assms(3) by (simp add: moves_def backing_def)
  qed (simp add: backing_def)
qed

lemma backing_in:
  assumes "cast_ok N c" and "kept_ok N c" and "i \<in> N" and "backing c t i j"
  shows "j \<in> N"
  using assms by (auto simp: backing_def cast_ok_def kept_ok_def)

lemma card_granted: "distinct (map fst V) \<Longrightarrow> card {j. (j, True) \<in> set V} = granted_votes V"
proof -
  assume d: "distinct (map fst V)"
  have "{j. (j, True) \<in> set V} = fst ` set (filter snd V)" by force
  moreover have "inj_on fst (set (filter snd V))"
    using d by (auto simp: distinct_map intro: inj_on_subset)
  moreover have "card (set (filter snd V)) = length (filter snd V)"
    using d by (intro distinct_card) (simp add: distinct_map)
  ultimately show ?thesis by (metis card_image granted_votes_def)
qed

lemma card_voters:
  assumes "wf_raft r"
  shows "card (voters r) = length (r_prs r)"
proof -
  have "distinct (map fst (r_prs r))" using wf_raftD(2)[OF assms] by (simp add: wf_peers_def peers_ok_def)
  then have "card (set (map fst (r_prs r))) = length (r_prs r)" by (metis distinct_card length_map)
  then show ?thesis by (simp add: voters_def)
qed

lemma moved_elected:
  assumes "election_inv N c" and "moves N c i m r'"
  shows "elected_ok N (moved i r' c)"
proof -
  let ?r = "cl_nodes c i"
  have p: "elected_ok N c" "nodes_ok N c" "cast_ok N c" "kept_ok N c" "card N < 2 ^ 32"
    using assms(1) by (simp_all add: election_inv_def)
  have i: "i \<in> N" and e: "effect m ?r r'" and w: "wf_raft ?r" using assms(2) p(2) by (auto simp: moves_def nodes_ok_def)
  note bk = backed_backing[OF p(1,2) assms(2)]
  have cand: "backing c (r_term r') i j" if "r_state r' = Candidate" "(j, True) \<in> set (r_votes r')" for j
    by (rule bk [OF effectD(4)[OF e that(1)] that(2)])
  have lead: "\<exists>Q \<subseteq> N. card Q = card N div 2 + 1 \<and> (\<forall>j\<in>Q. backing c (r_term r') i j)" if l: "r_state r' = Leader"
  proof (cases "r_state ?r = Leader \<and> r_term r' = r_term ?r")
    case True
    then show ?thesis using p(1) i unfolding elected_ok_def by metis
  next
    case False
    then obtain V where V: "distinct (map fst V)" "quorum ?r = of_nat (granted_votes V)" "backed m ?r (r_term r') V"
      using effectD(5)[OF e l] by blast
    let ?Q = "{j. (j, True) \<in> set V}"
    have b: "\<forall>j\<in>?Q. backing c (r_term r') i j" using bk[OF V(3)] by blast
    have sub: "?Q \<subseteq> N" using b backing_in[OF p(3,4) i] by blast
    have "voters ?r = N" using assms(2) l False by (auto simp: moves_def)
    then have n: "length (r_prs ?r) = card N" using card_voters[OF w] by simp
    then have "unat (quorum ?r) = card N div 2 + 1" using quorum_unat[of ?r] p(5) by (simp add: majority_def)
    moreover have "card ?Q < 2 ^ 32" using card_mono[OF _ sub] p(5) by simp
    then have "unat (quorum ?r) = card ?Q" using V(2) card_granted[OF V(1)] by (simp add: unat_of_nat take_bit_eq_mod)
    ultimately show ?thesis using b sub by (intro exI [of _ ?Q]) simp
  qed
  have bm: "backing (moved i r' c) = backing c" by (simp add: backing_def fun_eq_iff)
  show ?thesis using p(1) i cand lead unfolding elected_ok_def bm by auto
qed

lemma moved_inv:
  assumes "election_inv N c" and "moves N c i m r'"
  shows "election_inv N (moved i r' c)"
proof -
  have "nodes_ok N (moved i r' c)" using assms effectD(1) by (fastforce simp: election_inv_def nodes_ok_def moves_def)
  then show ?thesis using assms moved_cast moved_kept moved_msgs moved_elected[OF assms] by (simp add: election_inv_def)
qed

section \<open>The other steps\<close>

lemma saved_simps [simp]:
  "cl_nodes (saved i c) = (cl_nodes c)(i := (cl_nodes c i)\<lparr>r_msgs := []\<rparr>)"
  "cl_saved (saved i c) = (cl_saved c)(i := (r_term (cl_nodes c i), r_vote (cl_nodes c i)))"
  "cl_disk (saved i c) = (cl_disk c)(i := log_view (r_log (cl_nodes c i)))"
  "cl_commit (saved i c) = (cl_commit c)(i := l_committed (r_log (cl_nodes c i)))"
  "cl_net (saved i c) = cl_net c \<union> set (r_msgs (cl_nodes c i))"
  "cl_kept (saved i c) = cl_kept c \<union> {x \<in> cl_cast c. fst x = i}"
  "cl_cast (saved i c) = cl_cast c" "cl_elected (saved i c) = cl_elected c"
  by (simp_all add: saved_def read_messages_def)

lemma saved_inv:
  assumes "election_inv N c" and "i \<in> N"
  shows "election_inv N (saved i c)"
proof -
  have p: "elected_ok N c" "nodes_ok N c" "cast_ok N c" "kept_ok N c" "msgs_ok N c"
    using assms(1) by (simp_all add: election_inv_def)
  have "backing c t k j \<Longrightarrow> backing (saved i c) t k j" for t k j by (auto simp: backing_def)
  then have "elected_ok N (saved i c)" using p(1) unfolding elected_ok_def by (simp, metis)
  moreover have "nodes_ok N (saved i c)" using p(2) by (auto simp: nodes_ok_def wf_raft_msgs)
  moreover have "cast_ok N (saved i c)" using p(3) by (auto simp: cast_ok_def)
  moreover have "kept_ok N (saved i c)" using p(3,4) assms(2) by (auto simp: cast_ok_def kept_ok_def)
  moreover have "msgs_ok N (saved i c)"
  proof -
    have "tells N (cl_kept (saved i c)) x" if "m_from x = i" "tells N (cl_cast c) x" for x
      using that by (auto simp: tells_def)
    then show ?thesis using p(5) assms(2) tells_mono[of N "cl_kept c" _ "cl_kept (saved i c)"] by (auto simp: msgs_ok_def)
  qed
  ultimately show ?thesis using assms(1) by (simp add: election_inv_def)
qed

lemma restarted_simps [simp]:
  "cl_nodes (restarted i r c) = (cl_nodes c)(i := r)" "cl_disk (restarted i r c) = cl_disk c" "cl_commit (restarted i r c) = cl_commit c" "cl_saved (restarted i r c) = cl_saved c"
  "cl_net (restarted i r c) = cl_net c" "cl_kept (restarted i r c) = cl_kept c"
  "cl_cast (restarted i r c) = {x \<in> cl_cast c. fst x \<noteq> i} \<union> {x \<in> cl_kept c. fst x = i}"
  "cl_elected (restarted i r c) = cl_elected c"
  by (simp_all add: restarted_def)

lemma restarted_inv:
  assumes "election_inv N c" and "i \<in> N" and "wf_raft r" and "r_id r = i" and "r_state r = Follower" and "r_msgs r = []"
    and "cl_saved c i = (r_term r, r_vote r)"
  shows "election_inv N (restarted i r c)"
proof -
  have p: "elected_ok N c" "nodes_ok N c" "cast_ok N c" "kept_ok N c" "msgs_ok N c"
    using assms(1) by (simp_all add: election_inv_def)
  let ?X = "cl_cast (restarted i r c)"
  have sub: "?X \<subseteq> cl_cast c" "cl_kept c \<subseteq> ?X" using p(4) by (auto simp: kept_ok_def)
  have "backing (restarted i r c) = backing c" by (simp add: backing_def fun_eq_iff)
  then have "elected_ok N (restarted i r c)" using p(1) assms(5) by (simp add: elected_ok_def)
  moreover have "nodes_ok N (restarted i r c)" using p(2) assms(3,4) by (simp add: nodes_ok_def)
  moreover have "cast_ok N (restarted i r c)"
  proof -
    have one: "(j, t, v) \<in> ?X \<Longrightarrow> (j, t, w) \<in> ?X \<Longrightarrow> v = w" for j t v w
      using sub(1) p(3) unfolding cast_ok_def by blast
    have "j \<in> N \<and> v \<noteq> 0 \<and> t \<le> r_term (cl_nodes (restarted i r c) j)
        \<and> (t = r_term (cl_nodes (restarted i r c) j) \<longrightarrow> v = r_vote (cl_nodes (restarted i r c) j))"
      if x: "(j, t, v) \<in> ?X" for j t v
    proof (cases "j = i")
      case True
      then have "(i, t, v) \<in> cl_kept c" "(i, t, v) \<in> cl_cast c" using x sub(1) by auto
      moreover have "t \<le> fst (cl_saved c i) \<and> (t = fst (cl_saved c i) \<longrightarrow> v = snd (cl_saved c i))"
        using \<open>(i, t, v) \<in> cl_kept c\<close> p(4) unfolding kept_ok_def by blast
      ultimately show ?thesis using True p(3) assms(7) by (simp add: cast_ok_def)
    next
      case False
      then have "(j, t, v) \<in> cl_cast c" using x by simp
      then show ?thesis using False p(3) by (simp add: cast_ok_def)
    qed
    moreover have "(j, r_term (cl_nodes (restarted i r c) j), r_vote (cl_nodes (restarted i r c) j)) \<in> ?X"
      if "j \<in> N" "r_vote (cl_nodes (restarted i r c) j) \<noteq> 0" for j
      using that p(3,4) assms(2,7) by (cases "j = i") (auto simp: cast_ok_def kept_ok_def)
    ultimately show ?thesis using one unfolding cast_ok_def by blast
  qed
  moreover have "kept_ok N (restarted i r c)"
    using p(4) sub by (simp add: kept_ok_def) blast
  moreover have "msgs_ok N (restarted i r c)"
  proof -
    have "tells N ?X x" if "m_from x \<noteq> i" "tells N (cl_cast c) x" for x using that by (auto simp: tells_def)
    then show ?thesis using p(5) assms(6) by (auto simp: msgs_ok_def)
  qed
  ultimately show ?thesis using assms(1) by (simp add: election_inv_def)
qed

section \<open>Every step keeps the invariant\<close>

lemma hard_le_votes: "hard_le r r' \<Longrightarrow> votes_on r r'"
  by (simp add: hard_le_def votes_on_def)

lemma advances_votes: "advances r r' \<Longrightarrow> wf_raft r' \<and> votes_on r r'"
  by (auto simp: advances_def intro: hard_le_votes evolves_hard_le)

text \<open>A quiet move of a node, for whatever message.\<close>

lemma quiet_moves:
  assumes "i \<in> N" and "wf_raft r'" and "votes_on (cl_nodes c i) r'" and "quiet (cl_nodes c i) r'"
  shows "moves N c i (Message\<lparr>m_type := MsgHup\<rparr>) r'"
  using assms quiet_effect[OF assms(4)]
  by (auto simp: moves_def quiet_def electing_def stands_down_def)

lemma step_moves:
  assumes "election_inv N c" and "i \<in> N" and "wf_msg m" and "room m (cl_nodes c i)" and "timely m (cl_nodes c i)"
    and "step m (cl_nodes c i) = Inr (r', s)" and "r_state r' = Leader \<longrightarrow> voters (cl_nodes c i) = N"
    and "tells N (cl_kept c) m" and "is_vote_type (m_type m) \<Longrightarrow> m_to m = i"
  shows "moves N c i m r'"
proof -
  have w: "wf_raft (cl_nodes c i)" using assms(1,2) by (simp add: election_inv_def nodes_ok_def)
  have "wf_raft r' \<and> votes_on (cl_nodes c i) r'" using advances_votes step_advances[OF assms(6) w assms(3,4)] by blast
  then show ?thesis using assms(2,7,8,9) step_effect[OF assms(6) w assms(5)]
    by (auto simp: moves_def tells_def is_vote_type_def)
qed

lemma clock_moves:
  assumes "election_inv N c" and "i \<in> N" and "can_grow (cl_nodes c i)" and "tick (cl_nodes c i) = Inr r'"
    and "r_state r' = Leader \<longrightarrow> voters (cl_nodes c i) = N"
  shows "moves N c i (Message\<lparr>m_type := MsgHup\<rparr>) r'"
proof -
  have w: "wf_raft (cl_nodes c i)" using assms(1,2) by (simp add: election_inv_def nodes_ok_def)
  have "wf_raft r' \<and> votes_on (cl_nodes c i) r'" using advances_votes tick_advances[OF assms(4) w assms(3)] by blast
  then show ?thesis using assms(2,5) tick_effect[OF assms(4) w] by (simp add: moves_def)
qed

text \<open>
  A message that is an input of the node's own server or its clock; what the server does to a node
  between two steps; and a node that starts again.
\<close>

definition inner :: "message \<Rightarrow> bool" where
  "inner m \<longleftrightarrow> m_type m \<notin> {MsgApp, MsgHeartbeat, MsgSnap, MsgVote, MsgVoteResp, MsgAppResp}"

definition works :: "raft \<Rightarrow> raft \<Rightarrow> bool" where
  "works r r' \<longleftrightarrow> (\<exists>l u rs. r' = r\<lparr>r_log := l, r_uncommitted_size := u, r_read_states := rs\<rparr>
     \<and> trimmed (log_view (r_log r)) (log_view l) \<and> snap_kept (r_log r) l)"

definition restores :: "cluster \<Rightarrow> u64 \<Rightarrow> raft \<Rightarrow> bool" where
  "restores c i r \<longleftrightarrow> r_id r = i \<and> r_state r = Follower \<and> r_msgs r = []
     \<and> cl_saved c i = (r_term r, r_vote r) \<and> trimmed (cl_disk c i) (log_view (r_log r))
     \<and> l_committed (r_log r) = cl_commit c i
     \<and> (\<forall>j p. get_progress r j = Some p \<longrightarrow> j = i \<or> pr_match p = 0)
     \<and> (s_index (log_snap (r_log r)) = 0 \<or> snap_point (log_snap (r_log r)) = base_point (r_log r))"

text \<open>
  The three kinds of steps: a node moves, on a message of the network or of its own; it saves; it
  starts again from what it saved.
\<close>

lemma base_point_base: "base_point l = (log_base l, log_base_term l)"
  by (simp add: point_at_def log_term_at_def term_at_def)

lemma cluster_step_kinds:
  assumes "cluster_step mc N c c'" and "election_inv N c"
  shows "(\<exists>i m r'. c' = moved i r' c \<and> moves N c i m r' \<and> grafts m (cl_nodes c i) r' \<and> renews (cl_nodes c i) r'
        \<and> (m \<in> cl_net c \<and> m_to m = i \<and> wf_msg m \<or> msg_links m = {} \<and> (mc \<or> inner m))
        \<and> (mc \<or> works (cl_nodes c i) r' \<or> (acts m (cl_nodes c i) r' \<and> (r_state r' = Leader \<longrightarrow> voters (cl_nodes c i) = N))))
     \<or> (\<exists>i. i \<in> N \<and> c' = saved i c)
     \<or> (\<exists>i r'. i \<in> N \<and> c' = restarted i r' c \<and> wf_raft r' \<and> r_id r' = i \<and> r_state r' = Follower \<and> r_msgs r' = []
         \<and> cl_saved c i = (r_term r', r_vote r') \<and> trimmed (cl_disk c i) (log_view (r_log r')) \<and> (mc \<or> restores c i r'))"
proof -
  have w: "wf_raft (cl_nodes c i)" "wf_log (r_log (cl_nodes c i))" if "i \<in> N" for i
    using assms(2) that by (auto simp: election_inv_def nodes_ok_def dest: wf_raftD(1))
  have hup: "inner (Message\<lparr>m_type := MsgHup\<rparr>)" "msg_links (Message\<lparr>m_type := MsgHup\<rparr>) = {}"
    by (simp_all add: inner_def msg_links_def)
  show ?thesis
    using assms
  proof (induction rule: cluster_step.cases)
    case (deliver i m c r' s)
    have "tells N (cl_kept c) m" using deliver by (simp add: election_inv_def msgs_ok_def)
    then have "moves N c i m r'" using deliver by (intro step_moves) auto
    then show ?case using deliver step_grafts step_renews step_acts w by metis
  next
    case (input i m c r' s)
    have "timely m (cl_nodes c i)" "tells N (cl_kept c) m" using input by (auto simp: timely_def tells_def is_vote_type_def)
    then have "moves N c i m r'" using input by (intro step_moves) auto
    moreover have "msg_links m = {}" "mc \<or> inner m"
      using input by (auto simp: msg_links_def inner_def wf_msg_def is_vote_type_def)
    ultimately show ?case using input step_grafts step_renews step_acts w by metis
  next
    case (clock i c r')
    then have "renews (cl_nodes c i) r'" by (intro tick_renews) (simp_all add: can_grow_def)
    then show ?case using clock clock_moves tick_grafts tick_acts w hup by metis
  next
    case (member i j b c r')
    have "wf_raft r' \<and> votes_on (cl_nodes c i) r'"
      using member advances_votes add_node_or_learner_advances remove_node_advances w by blast
    moreover have q: "quiet (cl_nodes c i) r'" "ships (cl_nodes c i) r'"
      using member quiet.add_node_calm quiet.remove_node_calm ships.add_node_calm ships.remove_node_calm by blast+
    ultimately have "moves N c i (Message\<lparr>m_type := MsgHup\<rparr>) r'" using member by (intro quiet_moves) auto
    then show ?case using member q quiet_renews ships_grafts w hup by metis
  next
    case (work i r' rs u l c)
    have q: "quiet (cl_nodes c i) r'" using work by (auto simp: quiet_eq electing_def)
    have "moves N c i (Message\<lparr>m_type := MsgHup\<rparr>) r'" using work q by (intro quiet_moves) (auto simp: votes_on_def)
    moreover have "grafts (Message\<lparr>m_type := MsgHup\<rparr>) (cl_nodes c i) r'"
      using work trimmed_log[of "r_log (cl_nodes c i)" l] by (auto simp: grafts_def cut_from_none)
    moreover have "mc \<or> works (cl_nodes c i) r'" using work by (auto simp: works_def)
    ultimately show ?case using work quiet_renews[OF q] hup by metis
  next
    case (save i c)
    then show ?case by blast
  next
    case (restart i cfg draws st c r')
    have st: "wf_storage st" using restart by (simp add: wf_config_def)
    then have v: "log_view (r_log r') = (st_base st, st_base_term st, st_ents st)" using restart Raft_view by blast
    then have "base_point (r_log r') = (st_base st, st_base_term st)"
      unfolding base_point_base by (simp add: log_view_def)
    moreover have b: "wf_raft r' \<and> r_id r' = i \<and> r_state r' = Follower \<and> r_msgs r' = []
        \<and> cl_saved c i = (r_term r', r_vote r') \<and> trimmed (cl_disk c i) (log_view (r_log r'))"
      using restart v Raft_wf[of cfg draws r'] restart_hard_state[of cfg draws r' st] by simp
    ultimately have "restores c i r'" if "\<not> mc"
      using restart that st Raft_starts[of cfg draws r' st] by (simp add: restores_def) metis
    then show ?case using restart b by blast
  qed
qed

lemma cluster_step_inv:
  assumes "cluster_step mc N c c'" and "election_inv N c"
  shows "election_inv N c'"
  using cluster_step_kinds[OF assms] moved_inv[OF assms(2)] saved_inv[OF assms(2)] restarted_inv[OF assms(2)]
  by blast

lemma cluster_run_inv:
  assumes "(cluster_step mc N)\<^sup>*\<^sup>* c c'" and "election_inv N c"
  shows "election_inv N c' \<and> cl_elected c \<subseteq> cl_elected c'"
  using assms
proof (induction rule: rtranclp_induct)
  case (step c1 c2)
  have "cl_elected c1 \<subseteq> cl_elected c2" using step(2) by (cases rule: cluster_step.cases) auto
  then show ?case using step cluster_step_inv by blast
qed simp

section \<open>Election safety\<close>

lemma majorities_meet:
  fixes N :: "u64 set"
  assumes "P \<subseteq> N" and "Q \<subseteq> N" and "card P = card N div 2 + 1" and "card Q = card N div 2 + 1"
  shows "P \<inter> Q \<noteq> {}"
proof
  assume "P \<inter> Q = {}"
  then have "card (P \<union> Q) = card P + card Q" by (intro card_Un_disjoint) simp_all
  moreover have "card (P \<union> Q) \<le> card N" using assms(1,2) by (intro card_mono) simp_all
  ultimately show False using assms(3,4) by simp
qed

text \<open>A leader of a cluster of several nodes has saved its vote for itself.\<close>

lemma elected_self_kept:
  assumes "election_inv N c" and "(t, i) \<in> cl_elected c" and "k \<in> N" and "k \<noteq> i"
  shows "(i, t, i) \<in> cl_kept c"
proof -
  have p: "elected_ok N c" "kept_ok N c" using assms(1) by (simp_all add: election_inv_def)
  obtain Q where Q: "Q \<subseteq> N" "card Q = card N div 2 + 1" "\<forall>j\<in>Q. backing c t i j" and i: "i \<in> N"
    using p(1) assms(2) unfolding elected_ok_def by blast
  have "card {i, k} \<le> card N" using i assms(3) by (intro card_mono) auto
  then have "\<not> Q \<subseteq> {i}" using Q(2) assms(4) card_mono[of "{i}" Q] by auto
  then obtain j where "j \<in> Q" "j \<noteq> i" by blast
  then have "(j, t, i) \<in> cl_cast c" using Q(3) p(2) by (auto simp: backing_def kept_ok_def)
  then show ?thesis using p(2) \<open>j \<noteq> i\<close> by (simp add: kept_ok_def)
qed

lemma elected_unique:
  assumes "election_inv N c" and "(t, i) \<in> cl_elected c" and "(t, k) \<in> cl_elected c"
  shows "i = k"
proof (rule ccontr)
  assume ne: "i \<noteq> k"
  have p: "elected_ok N c" "kept_ok N c" "cast_ok N c" using assms(1) by (simp_all add: election_inv_def)
  have m: "\<exists>Q \<subseteq> N. card Q = card N div 2 + 1 \<and> (\<forall>j\<in>Q. backing c t x j)" "x \<in> N" if "(t, x) \<in> cl_elected c" for x
    using p(1) that unfolding elected_ok_def by blast+
  obtain P Q where P: "P \<subseteq> N" "card P = card N div 2 + 1" "\<forall>j\<in>P. backing c t i j"
      and Q: "Q \<subseteq> N" "card Q = card N div 2 + 1" "\<forall>j\<in>Q. backing c t k j"
    using m(1)[OF assms(2)] m(1)[OF assms(3)] by blast
  obtain j where j: "backing c t i j" "backing c t k j" using majorities_meet[OF P(1) Q(1) P(2) Q(2)] P(3) Q(3) by blast
  have own: "(i, t, i) \<in> cl_kept c" "(k, t, k) \<in> cl_kept c"
    using elected_self_kept[OF assms(1)] assms(2,3) m(2) ne by metis+
  then have "(j, t, i) \<in> cl_cast c" "(j, t, k) \<in> cl_cast c" using j p(2) by (auto simp: backing_def kept_ok_def)
  then show False using p(3) ne unfolding cast_ok_def by blast
qed

text \<open>
  C1: Election safety. In a cluster of nodes that run this state machine, over any sequence of
  deliveries (messages may be lost, delayed, reordered and duplicated), inputs, ticks, membership
  changes, saves and restarts from what was saved, no term has two leaders: if node \<open>i\<close> is leader at
  some moment and node \<open>k\<close> is leader of the same term at the same or any later moment, they are the
  same node. The runs are those in which leaders are elected by a fixed set \<open>N\<close> of voters and no
  granted pre-vote reaches a node that is a candidate already, in which case the code does not keep
  the property.
\<close>

theorem one_leader_per_term:
  assumes "initial N c0" and "(cluster_step mc N)\<^sup>*\<^sup>* c0 c" and "(cluster_step mc N)\<^sup>*\<^sup>* c c'" and "i \<in> N" and "k \<in> N"
    and "r_state (cl_nodes c i) = Leader" and "r_state (cl_nodes c' k) = Leader"
    and "r_term (cl_nodes c i) = r_term (cl_nodes c' k)"
  shows "i = k"
proof -
  have c: "election_inv N c" using cluster_run_inv[OF assms(2) initial_inv [OF assms(1)]] by simp
  have c': "election_inv N c'" "cl_elected c \<subseteq> cl_elected c'" using cluster_run_inv[OF assms(3) c] by simp_all
  have "(r_term (cl_nodes c i), i) \<in> cl_elected c" "(r_term (cl_nodes c' k), k) \<in> cl_elected c'"
    using c c'(1) assms(4-7) by (auto simp: election_inv_def elected_ok_def)
  then show ?thesis using elected_unique[OF c'(1)] c'(2) assms(8) by auto
qed

section \<open>A sample election\<close>

definition trio_config :: "u64 \<Rightarrow> config" where
  "trio_config i = sample_config\<lparr>c_id := i, c_pre_vote := False\<rparr>"

definition trio :: "u64 \<Rightarrow> raft" where
  "trio i = projr (Raft (trio_config i) (\<lambda>_. 3))"

definition trio_start :: cluster where
  "trio_start = \<lparr>cl_nodes = trio, cl_saved = (\<lambda>_. (0, 0)),
     cl_disk = (\<lambda>_. (0, 0, [])), cl_commit = (\<lambda>_. 0), cl_net = {}, cl_cast = {}, cl_kept = {}, cl_elected = {}\<rparr>"

definition trio_request :: message where
  "trio_request = r_msgs (after hup (trio 1)) ! 0"

definition trio_grant :: message where
  "trio_grant = r_msgs (after trio_request (trio 2)) ! 0"

definition trio_end :: cluster where
  "trio_end = moved 1 (after trio_grant ((after hup (trio 1))\<lparr>r_msgs := []\<rparr>))
     (saved 2 (moved 2 (after trio_request (trio 2)) (saved 1 (moved 1 (after hup (trio 1)) trio_start))))"

lemma trio_started:
  assumes "i \<in> {1, 2, 3}"
  shows "Raft (trio_config i) (\<lambda>_. 3) = Inr (trio i)"
    and "r_term (trio i) = 0 \<and> r_vote (trio i) = 0 \<and> log_last (r_log (trio i)) = 0"
proof -
  have "\<forall>i\<in>{1, 2, 3}. \<not> isl (Raft (trio_config i) (\<lambda>_. 3))" by code_simp
  then show "Raft (trio_config i) (\<lambda>_. 3) = Inr (trio i)" using assms by (auto simp: trio_def)
  have "\<forall>i\<in>{1, 2, 3}. r_term (trio i) = 0 \<and> r_vote (trio i) = 0 \<and> log_last (r_log (trio i)) = 0" by code_simp
  then show "r_term (trio i) = 0 \<and> r_vote (trio i) = 0 \<and> log_last (r_log (trio i)) = 0" using assms by (rule bspec)
qed

lemma wf_trio_config: "wf_config (trio_config i) (\<lambda>_. 3)"
  using wf_MemoryStorage by (simp add: wf_config_def trio_config_def sample_config_def Config_def)

lemma trio_initial: "initial {1, 2, 3} trio_start"
  using trio_started Raft_wf[OF trio_started(1) wf_trio_config]
  by (auto simp: initial_def trio_start_def trio_config_def)

lemma after_step: "\<not> isl (step m r) \<Longrightarrow> step m r = Inr (after m r, snd (projr (step m r)))"
  by (cases "step m r") (auto simp: after_def)

lemma trio_msgs:
  "m_to trio_request = 2" "m_type trio_request = MsgVote" "m_entries trio_request = []" "wf_msg trio_request"
  "m_to trio_grant = 1" "m_type trio_grant = MsgVoteResp" "m_entries trio_grant = []" "m_term trio_grant = 1" "wf_msg trio_grant"
proof -
  have r: "m_to trio_request = 2 \<and> m_type trio_request = MsgVote \<and> m_entries trio_request = [] \<and> m_term trio_request = 1
      \<and> m_index trio_request = 0" by code_simp
  have g: "m_to trio_grant = 1 \<and> m_type trio_grant = MsgVoteResp \<and> m_entries trio_grant = [] \<and> m_term trio_grant = 1
      \<and> m_index trio_grant = 0" by code_simp
  from r show "m_to trio_request = 2" "m_type trio_request = MsgVote" "m_entries trio_request = []" "wf_msg trio_request"
    by (simp_all add: wf_msg_def)
  from g show "m_to trio_grant = 1" "m_type trio_grant = MsgVoteResp" "m_entries trio_grant = []" "m_term trio_grant = 1"
    "wf_msg trio_grant" by (simp_all add: wf_msg_def)
qed

lemma trio_facts:
  "\<not> isl (step hup (trio 1))" "r_state (after hup (trio 1)) \<noteq> Leader" "r_term (after hup (trio 1)) = 1"
  "log_last (r_log (after hup (trio 1))) = 0" "length (r_msgs (after hup (trio 1))) = 2"
  "\<not> isl (step trio_request (trio 2))" "r_state (after trio_request (trio 2)) \<noteq> Leader"
  "length (r_msgs (after trio_request (trio 2))) = 1"
  "\<not> isl (step trio_grant ((after hup (trio 1))\<lparr>r_msgs := []\<rparr>))"
  "map fst (r_prs (after hup (trio 1))) = [1, 2, 3]"
  by (code_simp, code_simp, code_simp, code_simp, code_simp, code_simp, code_simp, code_simp, code_simp, code_simp)

lemma trio_run: "(cluster_step mc {1, 2, 3})\<^sup>*\<^sup>* trio_start trio_end"
proof -
  let ?N = "{1, 2, 3}" and ?a = "after hup (trio 1)" and ?b = "after trio_request (trio 2)"
  let ?sent = "?a\<lparr>r_msgs := []\<rparr>"
  define c1 where "c1 = moved 1 ?a trio_start"
  define c2 where "c2 = saved 1 c1"
  define c3 where "c3 = moved 2 ?b c2"
  define c4 where "c4 = saved 2 c3"
  have n: "cl_nodes trio_start = trio" by (simp add: trio_start_def)
  note a = trio_facts(1-5) and b = trio_facts(6-8) and e = trio_facts(9,10)
  have "cluster_step mc ?N trio_start c1"
    unfolding c1_def n [symmetric]
    by (rule input [OF _ _ _ _ _ _ after_step])
      (use a sample_msgs trio_started(2) in \<open>auto simp: n room_def hup_def is_vote_type_def Message_def\<close>)
  moreover have "cluster_step mc ?N c1 c2" unfolding c2_def by (rule save) simp
  moreover have "cluster_step mc ?N c2 c3"
  proof -
    have n2: "cl_nodes c2 2 = trio 2" by (simp add: c2_def c1_def n)
    have "trio_request \<in> cl_net c2" using a by (simp add: c2_def c1_def trio_request_def nth_mem)
    then show ?thesis unfolding c3_def n2 [symmetric]
      by (intro deliver [OF _ _ _ _ _ _ after_step]) (use b trio_msgs trio_started(2) in \<open>auto simp: n2 room_def timely_def\<close>)
  qed
  moreover have "cluster_step mc ?N c3 c4" unfolding c4_def by (rule save) simp
  moreover have "cluster_step mc ?N c4 trio_end"
  proof -
    have n4: "cl_nodes c4 1 = ?sent" by (simp add: c4_def c3_def c2_def c1_def n)
    have g: "trio_grant \<in> cl_net c4" using b by (simp add: c4_def c3_def trio_grant_def nth_mem)
    have v: "voters ?sent = ?N" using arg_cong [OF e(2), of set] by (simp add: voters_def)
    have t: "trio_end = moved 1 (after trio_grant (cl_nodes c4 1)) c4"
      unfolding n4 by (simp add: trio_end_def c4_def c3_def c2_def c1_def)
    show ?thesis unfolding t
      by (rule deliver [OF _ g _ _ _ _ after_step]) (use e a v trio_msgs in \<open>auto simp: n4 room_def timely_def\<close>)
  qed
  ultimately show ?thesis by (meson converse_rtranclp_into_rtranclp rtranclp.rtrancl_refl)
qed

theorem one_leader_per_term_witness:
  "r_state (cl_nodes trio_end 1) = Leader \<and> r_term (cl_nodes trio_end 1) = 1
   \<and> \<not> (r_state (cl_nodes trio_end 2) = Leader \<and> r_term (cl_nodes trio_end 2) = 1)"
proof -
  have "r_state (cl_nodes trio_end 1) = Leader \<and> r_term (cl_nodes trio_end 1) = 1" by code_simp
  then show ?thesis
    using one_leader_per_term[OF trio_initial trio_run rtranclp.rtrancl_refl, of 1 2] by auto
qed

end
