(* ===== verification/Raft_Matching.thy ===== *)
theory Raft_Matching
  imports Raft_Cluster
begin

text \<open>
  Log matching. The invariant \<open>linked\<close> collects every link that the history of a cluster ever made
  in a set \<open>M\<close> and says that index and term of an entry determine its link: the entry and the term
  before it. New links are made by leaders only, at the end of their own logs and in their own terms,
  and election safety keeps two of them apart. Two logs that agree on the term of a position
  therefore agree on everything before it.
\<close>

section \<open>The invariant\<close>

fun view_links :: "nat \<times> u64 \<times> entry list \<Rightarrow> (u64 \<times> entry) set" where
  "view_links (b, t, es) = links b t es"

lemma view_links_log [simp]: "view_links (log_view l) = log_links l"
  by (simp add: log_view_def log_links_def)

text \<open>
  \<open>b\<close> bounds the terms of the entries the cluster starts with. A leader's log reaches to the last
  entry of its term, and no node stands in a term in which it was elected already.
\<close>

definition stands_ok :: "(u64 \<times> entry) set \<Rightarrow> u64 \<Rightarrow> cluster \<Rightarrow> u64 \<Rightarrow> bool" where
  "stands_ok M b c i \<longleftrightarrow> b \<le> r_term (cl_nodes c i) \<and> b \<le> fst (cl_saved c i)
     \<and> (r_state (cl_nodes c i) = Candidate \<longrightarrow> b < r_term (cl_nodes c i) \<and> (r_term (cl_nodes c i), i) \<notin> cl_elected c)
     \<and> (r_state (cl_nodes c i) = Leader \<longrightarrow> b < r_term (cl_nodes c i)
          \<and> (\<forall>x\<in>M. e_term (snd x) = r_term (cl_nodes c i) \<longrightarrow> unat (e_index (snd x)) \<le> log_last (r_log (cl_nodes c i))))"

definition traced :: "u64 set \<Rightarrow> (u64 \<times> entry) set \<Rightarrow> cluster \<Rightarrow> bool" where
  "traced N M c \<longleftrightarrow> (\<forall>x\<in>cl_net c. msg_links x \<subseteq> M)
     \<and> (\<forall>i\<in>N. log_links (r_log (cl_nodes c i)) \<subseteq> M \<and> view_links (cl_disk c i) \<subseteq> M
          \<and> (\<forall>x\<in>set (r_msgs (cl_nodes c i)). msg_links x \<subseteq> M))"

definition linked :: "u64 set \<Rightarrow> (u64 \<times> entry) set \<Rightarrow> u64 \<Rightarrow> cluster \<Rightarrow> bool" where
  "linked N M b c \<longleftrightarrow> coherent M \<and> traced N M c
     \<and> (\<forall>x\<in>M. e_term (snd x) \<le> b \<or> (\<exists>j. (e_term (snd x), j) \<in> cl_elected c)) \<and> (\<forall>i\<in>N. stands_ok M b c i)"

section \<open>Links of one log\<close>

lemma log_link_index:
  assumes "wf_log l" and "x \<in> log_links l"
  shows "\<exists>k<length (log_ents l). x = (log_term_at l (log_base l + k), log_ents l ! k)
     \<and> unat (e_index (snd x)) = log_base l + 1 + k"
proof -
  obtain k where k: "k < length (log_ents l)" "x = (log_term_at l (log_base l + k), log_ents l ! k)"
    using assms(2) by (auto simp: log_links_def links_def log_term_at_def)
  moreover have "unat (e_index (log_ents l ! k)) = log_base l + 1 + k"
    using contig_index[OF log_contig [OF wf_logD(1) [OF assms(1)]] k(1)] by simp
  ultimately show ?thesis by auto
qed

lemma log_links_unique:
  assumes "wf_log l" and "x \<in> log_links l" and "y \<in> log_links l" and "e_index (snd x) = e_index (snd y)"
  shows "x = y"
  using log_link_index[OF assms(1,2)] log_link_index[OF assms(1,3)] assms(4) by (metis add_left_cancel)

lemma log_link_last: "wf_log l \<Longrightarrow> x \<in> log_links l \<Longrightarrow> unat (e_index (snd x)) \<le> log_last l"
  by (drule (1) log_link_index) (auto simp: log_last_def)

section \<open>A node moves\<close>

text \<open>A node of a cluster of several nodes becomes leader only as the candidate of that term.\<close>

lemma new_leader:
  assumes "election_inv N c" and "moves N c i m r'" and "2 \<le> card N" and "r_state r' = Leader"
    and "\<not> (r_state (cl_nodes c i) = Leader \<and> r_term r' = r_term (cl_nodes c i))"
  shows "r_state (cl_nodes c i) = Candidate \<and> r_term (cl_nodes c i) = r_term r'"
proof -
  let ?r = "cl_nodes c i"
  have p: "nodes_ok N c" "card N < 2 ^ 32" using assms(1) by (simp_all add: election_inv_def)
  have i: "i \<in> N" "r_id ?r = i" and e: "effect m ?r r'" and w: "wf_raft ?r"
    using assms(2) p(1) by (auto simp: moves_def nodes_ok_def)
  obtain V where V: "distinct (map fst V)" "quorum ?r = of_nat (granted_votes V)" "backed m ?r (r_term r') V"
    using effectD(5)[OF e assms(4)] assms(5) by blast
  let ?Q = "{j. (j, True) \<in> set V}"
  have "length (r_prs ?r) = card N" using assms(2,4,5) card_voters[OF w] by (auto simp: moves_def)
  then have "unat (quorum ?r) = card N div 2 + 1" using quorum_unat[of ?r] p(2) by (simp add: majority_def)
  moreover have "unat (quorum ?r) \<le> granted_votes V" using V(2) by (simp add: unat_of_nat)
  ultimately have "2 \<le> card ?Q" using assms(3) card_granted[OF V(1)] by linarith
  then have "\<not> ?Q \<subseteq> {i}" using card_mono[of "{i}" ?Q] by auto
  then show ?thesis using V(3) i(2) by (auto simp: backed_def)
qed

lemma elected_past:
  assumes "election_inv N c" and "(t, i) \<in> cl_elected c" and "2 \<le> card N"
  shows "t \<le> r_term (cl_nodes c i)"
proof -
  have "\<not> N \<subseteq> {i}" using assms(3) card_mono[of "{i}" N] by auto
  then obtain k where "k \<in> N" "k \<noteq> i" by blast
  then have "(i, t, i) \<in> cl_kept c" using elected_self_kept[OF assms(1,2)] by blast
  then have "(i, t, i) \<in> cl_cast c" using assms(1) by (auto simp: election_inv_def kept_ok_def)
  then show ?thesis using assms(1) by (auto simp: election_inv_def cast_ok_def)
qed

text \<open>What a step of node \<open>i\<close> must do for the invariant.\<close>

definition linking :: "u64 set \<Rightarrow> (u64 \<times> entry) set \<Rightarrow> cluster \<Rightarrow> u64 \<Rightarrow> message \<Rightarrow> raft \<Rightarrow> bool" where
  "linking N M c i m r' \<longleftrightarrow> moves N c i m r' \<and> grafts m (cl_nodes c i) r' \<and> renews (cl_nodes c i) r' \<and> msg_links m \<subseteq> M"

lemma linking_links:
  assumes "linked N M b c" and "linking N M c i m r'"
  shows "log_links (r_log r') \<subseteq> M \<union> fresh (cl_nodes c i) r'"
    and "x \<in> set (r_msgs r') \<Longrightarrow> msg_links x \<subseteq> M \<union> log_links (r_log r')"
proof -
  let ?r = "cl_nodes c i"
  have i: "i \<in> N" and g: "grafts m ?r r'" and m: "msg_links m \<subseteq> M" using assms(2) by (simp_all add: linking_def moves_def)
  have t: "log_links (r_log ?r) \<subseteq> M" "\<forall>x\<in>set (r_msgs ?r). msg_links x \<subseteq> M" using assms(1) i by (auto simp: linked_def traced_def)
  show "log_links (r_log r') \<subseteq> M \<union> fresh ?r r'" using g t(1) m by (auto simp: grafts_def)
  obtain ms where "r_msgs r' = r_msgs ?r @ ms" "\<forall>x\<in>set ms. msg_links x \<subseteq> log_links (r_log ?r) \<union> log_links (r_log r')"
    using g by (auto simp: grafts_def cut_from_def)
  then show "msg_links x \<subseteq> M \<union> log_links (r_log r')" if "x \<in> set (r_msgs r')" using that t by auto
qed

text \<open>The entries of a leader's term that exist before its step end in its log.\<close>

lemma term_before:
  assumes "election_inv N c" and "linked N M b c" and "linking N M c i m r'" and "2 \<le> card N" and "r_state r' = Leader"
    and "x \<in> M" and "e_term (snd x) = r_term r'"
  shows "unat (e_index (snd x)) \<le> log_last (r_log (cl_nodes c i))"
proof (cases "r_state (cl_nodes c i) = Leader \<and> r_term r' = r_term (cl_nodes c i)")
  case True
  then show ?thesis using assms(2,3,6,7) by (auto simp: linked_def linking_def moves_def stands_ok_def)
next
  case False
  have mv: "moves N c i m r'" and i: "i \<in> N" using assms(3) by (simp_all add: linking_def moves_def)
  have cand: "r_state (cl_nodes c i) = Candidate" "r_term (cl_nodes c i) = r_term r'"
    using new_leader[OF assms(1) mv assms(4,5) False] by simp_all
  then have s: "b < r_term r'" "(r_term r', i) \<notin> cl_elected c" using assms(2) i by (auto simp: linked_def stands_ok_def)
  then obtain j where j: "(r_term r', j) \<in> cl_elected c" using assms(2,6,7) by (auto simp: linked_def)
  then have "j = i" using elected_unique[OF moved_inv [OF assms(1) mv], of "r_term r'" j i] assms(5) by simp
  then show ?thesis using j s by simp
qed

lemma moved_linked:
  assumes "election_inv N c" and "linked N M b c" and "linking N M c i m r'" and "2 \<le> card N"
  shows "linked N (M \<union> log_links (r_log r')) b (moved i r' c)"
proof -
  let ?r = "cl_nodes c i" and ?M = "M \<union> log_links (r_log r')" and ?c = "moved i r' c"
  have mv: "moves N c i m r'" and g: "grafts m ?r r'" and rn: "renews ?r r'" using assms(3) by (simp_all add: linking_def)
  have i: "i \<in> N" and v: "r_term ?r \<le> r_term r'" and w: "wf_log (r_log r')"
    using mv by (auto simp: moves_def votes_on_def dest: wf_raftD(1))
  have inv': "election_inv N ?c" by (rule moved_inv [OF assms(1) mv])
  note ll = linking_links[OF assms(2,3)] and tb = term_before[OF assms(1-4)]
  have t: "coherent M" "traced N M c" "\<And>x. x \<in> M \<Longrightarrow> e_term (snd x) \<le> b \<or> (\<exists>j. (e_term (snd x), j) \<in> cl_elected c)"
      "\<And>j. j \<in> N \<Longrightarrow> stands_ok M b c j"
    using assms(2) by (auto simp: linked_def)
  have new: "r_state r' = Leader \<and> e_term (snd x) = r_term r' \<and> log_last (r_log ?r) < unat (e_index (snd x))"
    if "x \<in> log_links (r_log r')" "x \<notin> M" for x
    using that ll(1) by (auto simp: fresh_def)
  have "coherent ?M"
  proof -
    have apart: False if "x \<in> M" "y \<in> log_links (r_log r')" "y \<notin> M" "e_index (snd x) = e_index (snd y)"
      "e_term (snd x) = e_term (snd y)" for x y
      using new[OF that(2,3)] tb[of x] that by auto
    show ?thesis unfolding coherent_def
    proof (intro ballI impI)
      fix x y assume "x \<in> ?M" "y \<in> ?M" and e: "e_index (snd x) = e_index (snd y) \<and> e_term (snd x) = e_term (snd y)"
      then show "x = y" using apart[of x y] apart[of y x] t(1) log_links_unique[OF w, of x y]
        unfolding coherent_def by (metis UnE)
    qed
  qed
  moreover have "traced N ?M ?c" using t(2) ll(2) unfolding traced_def by (auto split: if_splits) blast+
  moreover have "e_term (snd x) \<le> b \<or> (\<exists>j. (e_term (snd x), j) \<in> cl_elected ?c)" if "x \<in> ?M" for x
    using that t(3)[of x] new[of x] by auto
  moreover have "stands_ok ?M b ?c j" if "j \<in> N" for j
  proof (cases "j = i")
    case True
    have "b < r_term r' \<and> (r_term r', i) \<notin> cl_elected c" if c: "r_state r' = Candidate"
    proof (cases "r_state ?r = Candidate \<and> r_term r' = r_term ?r")
      case True
      then show ?thesis using t(4)[OF i] by (auto simp: stands_ok_def)
    next
      case False
      then have lt: "r_term ?r < r_term r'" using rn c by (auto simp: renews_def)
      then have "(r_term r', i) \<notin> cl_elected c" using elected_past[OF assms(1) _ assms(4), of "r_term r'" i] by auto
      moreover have "b \<le> r_term ?r" using t(4)[OF i] by (simp add: stands_ok_def)
      ultimately show ?thesis using lt by simp
    qed
    moreover have "b < r_term r'" if l: "r_state r' = Leader"
      using t(4)[OF i] new_leader[OF assms(1) mv assms(4) l] by (cases "r_state ?r = Leader \<and> r_term r' = r_term ?r") (auto simp: stands_ok_def)
    moreover have "unat (e_index (snd x)) \<le> log_last (r_log r')"
      if "r_state r' = Leader" "x \<in> ?M" "e_term (snd x) = r_term r'" for x
      using that tb[of x] log_link_last[OF w, of x] g by (auto simp: grafts_def)
    ultimately show ?thesis using True t(4)[OF i] v by (auto simp: stands_ok_def)
  next
    case False
    have "unat (e_index (snd x)) \<le> log_last (r_log (cl_nodes c j))"
      if l: "r_state (cl_nodes c j) = Leader" and x: "x \<in> ?M" "e_term (snd x) = r_term (cl_nodes c j)" for x
    proof (cases "x \<in> M")
      case True
      then show ?thesis using t(4)[OF \<open>j \<in> N\<close>] l x(2) by (simp add: stands_ok_def)
    next
      case nM: False
      then have "r_state r' = Leader \<and> r_term r' = r_term (cl_nodes c j)" using new[of x] x by auto
      moreover have "(r_term (cl_nodes c j), j) \<in> cl_elected ?c"
        using assms(1) l \<open>j \<in> N\<close> by (auto simp: election_inv_def elected_ok_def)
      ultimately have "j = i" using elected_unique[OF inv', of "r_term r'" j i] by simp
      then show ?thesis using False by simp
    qed
    then show ?thesis using False t(4)[OF \<open>j \<in> N\<close>] by (auto simp: stands_ok_def)
  qed
  ultimately show ?thesis by (simp add: linked_def)
qed

section \<open>Every step keeps the invariant\<close>

lemma saved_linked:
  assumes "linked N M b c" and "i \<in> N"
  shows "linked N M b (saved i c)"
proof -
  have "traced N M (saved i c)" using assms unfolding linked_def traced_def by (simp, blast)
  moreover have "stands_ok M b (saved i c) j" if "j \<in> N" for j
    using assms that by (cases "j = i") (simp_all add: linked_def stands_ok_def)
  ultimately show ?thesis using assms(1) by (simp add: linked_def)
qed

lemma restarted_linked:
  assumes "linked N M b c" and "i \<in> N" and "log_links (r_log r) \<subseteq> M" and "r_state r = Follower" and "r_msgs r = []"
    and "r_term r = fst (cl_saved c i)"
  shows "linked N M b (restarted i r c)"
proof -
  have "traced N M (restarted i r c)" using assms by (auto simp: linked_def traced_def)
  moreover have "stands_ok M b (restarted i r c) j" if "j \<in> N" for j
    using assms that by (cases "j = i") (simp_all add: linked_def stands_ok_def)
  ultimately show ?thesis using assms(1) by (simp add: linked_def)
qed

lemma cluster_step_linked:
  assumes "cluster_step mc N c c'" and "election_inv N c" and "linked N M b c" and "2 \<le> card N"
  shows "\<exists>M'. M \<subseteq> M' \<and> linked N M' b c'"
proof -
  consider (moved) i m r' where "c' = moved i r' c" "moves N c i m r'" "grafts m (cl_nodes c i) r'" "renews (cl_nodes c i) r'"
        "m \<in> cl_net c \<or> msg_links m = {}"
    | (saved) i where "i \<in> N" "c' = saved i c"
    | (restarted) i r' where "i \<in> N" "c' = restarted i r' c" "r_state r' = Follower" "r_msgs r' = []"
        "cl_saved c i = (r_term r', r_vote r')" "trimmed (cl_disk c i) (log_view (r_log r'))"
    using cluster_step_kinds[OF assms(1,2)] by blast
  then show ?thesis
  proof cases
    case (moved i m r')
    then have "linking N M c i m r'" using assms(3) by (auto simp: linking_def linked_def traced_def)
    then show ?thesis using moved_linked[OF assms(2,3) _ assms(4)] moved(1) by blast
  next
    case (saved i)
    then show ?thesis using saved_linked[OF assms(3)] by blast
  next
    case (restarted i r')
    have "log_links (r_log r') \<subseteq> view_links (cl_disk c i)"
      using restarted(6) trimmed_links(1) by (cases "cl_disk c i") (auto simp: log_view_def log_links_def)
    also have "\<dots> \<subseteq> M" using assms(3) restarted(1) by (simp add: linked_def traced_def)
    finally show ?thesis using restarted_linked[OF assms(3) restarted(1) _ restarted(3,4)] restarted(2,5) by auto
  qed
qed

lemma cluster_run_linked:
  assumes "(cluster_step mc N)\<^sup>*\<^sup>* c c'" and "election_inv N c" and "linked N M b c" and "2 \<le> card N"
  shows "\<exists>M'. M \<subseteq> M' \<and> linked N M' b c'"
  using assms
proof (induction rule: rtranclp_induct)
  case (step c1 c2)
  then obtain M1 where "M \<subseteq> M1" "linked N M1 b c1" by blast
  then show ?case using cluster_step_linked[OF step(2)] cluster_run_inv[OF step(1)] step.prems by (meson order_trans)
qed blast

section \<open>Log matching\<close>

text \<open>
  A cluster at its start: no node has voted or sent anything, all nodes hold the same log, in memory
  and on disk, and no entry of it has a term beyond that of a node.
\<close>

definition bootstrapped :: "u64 set \<Rightarrow> cluster \<Rightarrow> bool" where
  "bootstrapped N c \<longleftrightarrow> initial N c
     \<and> (\<exists>v. (\<forall>i\<in>N. log_view (r_log (cl_nodes c i)) = v \<and> cl_disk c i = v)
          \<and> (\<forall>i\<in>N. \<forall>e\<in>set (snd (snd v)). e_term e \<le> r_term (cl_nodes c i)))"

lemma bootstrapped_linked_view:
  assumes "bootstrapped N c" and "N \<noteq> {}" and "\<forall>i\<in>N. log_view (r_log (cl_nodes c i)) = v"
  shows "\<exists>M b. linked N M b c \<and> M = view_links v \<and> b = Min ((\<lambda>i. r_term (cl_nodes c i)) ` N)"
proof -
  obtain k where k: "k \<in> N" using assms(2) by blast
  have v: "\<forall>i\<in>N. cl_disk c i = v" "\<forall>i\<in>N. \<forall>e\<in>set (snd (snd v)). e_term e \<le> r_term (cl_nodes c i)" and init: "initial N c"
  proof -
    obtain u where u: "\<forall>i\<in>N. log_view (r_log (cl_nodes c i)) = u \<and> cl_disk c i = u"
        "\<forall>i\<in>N. \<forall>e\<in>set (snd (snd u)). e_term e \<le> r_term (cl_nodes c i)" and "initial N c"
      using assms(1) unfolding bootstrapped_def by blast
    moreover have "u = v" using u(1) assms(3) k by auto
    ultimately show "\<forall>i\<in>N. cl_disk c i = v" "\<forall>i\<in>N. \<forall>e\<in>set (snd (snd v)). e_term e \<le> r_term (cl_nodes c i)" "initial N c"
      by simp_all
  qed
  define b where "b = Min ((\<lambda>i. r_term (cl_nodes c i)) ` N)"
  let ?M = "view_links v"
  have ll: "log_links (r_log (cl_nodes c i)) = ?M" if "i \<in> N" for i using assms(3) that view_links_log by metis
  have "wf_log (r_log (cl_nodes c k))" using init k by (auto simp: initial_def dest: wf_raftD(1))
  then have "coherent ?M" using log_links_unique ll[OF k] unfolding coherent_def by blast
  moreover have "traced N ?M c" using init v(1) ll by (auto simp: traced_def initial_def)
  moreover have "e_term (snd x) \<le> b" if "x \<in> ?M" for x
  proof -
    have "snd x \<in> set (snd (snd v))" using that by (cases v; cases x) (auto dest: links_in)
    then show ?thesis using v(2) assms(2) by (simp add: b_def)
  qed
  moreover have "stands_ok ?M b c i" if "i \<in> N" for i
    using init that by (auto simp: stands_ok_def initial_def b_def)
  ultimately show ?thesis unfolding linked_def b_def by blast
qed

lemma bootstrapped_linked: "bootstrapped N c \<Longrightarrow> N \<noteq> {} \<Longrightarrow> \<exists>M b. linked N M b c"
  using bootstrapped_linked_view unfolding bootstrapped_def by metis

text \<open>Two well-formed logs with links in one coherent set.\<close>

lemma coherent_below:
  assumes "coherent M" and "wf_log k" and "wf_log l" and "log_links k \<subseteq> M" and "log_links l \<subseteq> M"
    and "max (log_base k) (log_base l) + n \<le> log_last k" and "max (log_base k) (log_base l) + n \<le> log_last l"
    and "log_term_at k (max (log_base k) (log_base l) + n) = log_term_at l (max (log_base k) (log_base l) + n)"
  shows "log_between k (max (log_base k) (log_base l) + 1) (max (log_base k) (log_base l) + n + 1)
       = log_between l (max (log_base k) (log_base l) + 1) (max (log_base k) (log_base l) + n + 1)
     \<and> log_term_at k (max (log_base k) (log_base l)) = log_term_at l (max (log_base k) (log_base l))"
  using assms(6-8)
proof (induction n)
  case 0
  then show ?case by (simp add: log_between_def)
next
  case (Suc n)
  let ?b = "max (log_base k) (log_base l)"
  let ?p = "?b + Suc n"
  have at: "log_base x < ?p \<and> ?p \<le> log_base x + length (log_ents x)" if "x = k \<or> x = l" for x
    using that Suc.prems(1,2) by (auto simp: log_last_def)
  let ?e = "\<lambda>x. log_ents x ! (?p - log_base x - 1)"
  have link: "(log_term_at x (?p - 1), ?e x) \<in> M \<and> log_term_at x ?p = e_term (?e x) \<and> unat (e_index (?e x)) = ?p"
    if "x = k \<or> x = l" for x
  proof -
    have "(log_term_at x (?p - 1), ?e x) \<in> log_links x"
      using links_at[of "log_base x" ?p "log_ents x" "log_base_term x"] at[OF that] by (simp add: log_links_def log_term_at_def)
    moreover have "wf_log x" "log_links x \<subseteq> M" using that assms(2-5) by auto
    moreover have "?p - log_base x - 1 < length (log_ents x)" using at[OF that] by linarith
    then have "unat (e_index (?e x)) = ?p"
      using contig_index[OF log_contig [OF wf_logD(1) [OF \<open>wf_log x\<close>]]] at[OF that] by simp
    moreover have "log_term_at x ?p = e_term (?e x)" using at[OF that] by (simp add: log_term_at_def term_at_def)
    ultimately show ?thesis by blast
  qed
  have "(log_term_at k (?p - 1), ?e k) = (log_term_at l (?p - 1), ?e l)"
  proof -
    have "e_index (?e k) = e_index (?e l)" using link[of k] link[of l] by (simp add: word_unat_eq_iff)
    moreover have "e_term (?e k) = e_term (?e l)" using link[of k] link[of l] Suc.prems(3) by simp
    ultimately show ?thesis using link[of k] link[of l] assms(1) unfolding coherent_def by fastforce
  qed
  then have "log_term_at k (?b + n) = log_term_at l (?b + n)" "?e k = ?e l" by simp_all
  moreover have "log_between x (?b + 1) (?b + Suc n + 1) = log_between x (?b + 1) (?b + n + 1) @ [?e x]" if "x = k \<or> x = l" for x
    using at[OF that] that by (auto simp: log_between_def take_Suc_conv_app_nth)
  ultimately show ?case using Suc.IH Suc.prems(1,2) by simp
qed

text \<open>
  C2: Log matching. Take the log of a node at some moment of a run and the log of a node at the same
  or any later moment. If they agree on the term of a position \<open>p\<close> that both have, then they hold the
  same entries, data included, at every position up to \<open>p\<close> that both still hold, and agree on the term
  of the position \<open>lo\<close> before those. Messages may be lost, delayed, reordered and duplicated, processes
  may stop and start again from what they saved, logs may be compacted and replaced by snapshots; the
  runs are those of election safety with at least two voters.
\<close>

theorem log_matching:
  assumes "bootstrapped N c0" and "2 \<le> card N" and "(cluster_step mc N)\<^sup>*\<^sup>* c0 c" and "(cluster_step mc N)\<^sup>*\<^sup>* c c'"
    and "i \<in> N" and "k \<in> N" and "lo = max (log_base (r_log (cl_nodes c i))) (log_base (r_log (cl_nodes c' k)))"
    and "lo \<le> p" and "p \<le> log_last (r_log (cl_nodes c i))" and "p \<le> log_last (r_log (cl_nodes c' k))"
    and "log_term_at (r_log (cl_nodes c i)) p = log_term_at (r_log (cl_nodes c' k)) p"
  shows "log_between (r_log (cl_nodes c i)) (lo + 1) (p + 1) = log_between (r_log (cl_nodes c' k)) (lo + 1) (p + 1)
    \<and> log_term_at (r_log (cl_nodes c i)) lo = log_term_at (r_log (cl_nodes c' k)) lo"
proof -
  obtain M0 b where m0: "linked N M0 b c0" using bootstrapped_linked[OF assms(1)] assms(5) by blast
  have e0: "election_inv N c0" using assms(1) initial_inv by (simp add: bootstrapped_def)
  have e: "election_inv N c" "election_inv N c'" using cluster_run_inv[OF assms(3) e0] cluster_run_inv[OF assms(4)] by blast+
  obtain M where m: "linked N M b c" using cluster_run_linked[OF assms(3) e0 m0 assms(2)] by blast
  obtain M' where m': "M \<subseteq> M'" "linked N M' b c'" using cluster_run_linked[OF assms(4) e(1) m assms(2)] by blast
  have w: "wf_log (r_log (cl_nodes c i))" "wf_log (r_log (cl_nodes c' k))"
    using e assms(5,6) by (auto simp: election_inv_def nodes_ok_def dest: wf_raftD(1))
  have l: "log_links (r_log (cl_nodes c i)) \<subseteq> M'" "log_links (r_log (cl_nodes c' k)) \<subseteq> M'" "coherent M'"
    using m m' assms(5,6) unfolding linked_def traced_def by blast+
  show ?thesis using coherent_below[OF l(3) w l(1,2), of "p - lo"] assms(7-11) by simp
qed

section \<open>A sample replication\<close>

definition trio_append :: message where
  "trio_append = r_msgs (cl_nodes trio_end 1) ! 0"

definition trio_done :: cluster where
  "trio_done = moved 2 (after trio_append (cl_nodes trio_end 2)) (saved 1 trio_end)"

lemma trio_bootstrapped: "bootstrapped {1, 2, 3} trio_start"
proof -
  have "\<forall>i\<in>{1, 2, 3}. log_base (r_log (trio i)) = 0 \<and> log_base_term (r_log (trio i)) = 0 \<and> log_ents (r_log (trio i)) = []"
    by code_simp
  then show ?thesis using trio_initial unfolding bootstrapped_def
    by (intro conjI exI [of _ "(0, 0, [])"]) (auto simp: trio_start_def log_view_def)
qed

lemma trio_append_facts:
  "m_to trio_append = 2" "m_type trio_append = MsgApp" "wf_msg trio_append" "length (m_entries trio_append) = 1"
proof -
  have f: "m_to trio_append = 2 \<and> m_type trio_append = MsgApp \<and> m_term trio_append = 1 \<and> m_index trio_append = 0
      \<and> map (\<lambda>e. (e_index e, e_term e)) (m_entries trio_append) = [(1, 1)]" by code_simp
  then obtain e where "m_entries trio_append = [e]" "e_index e = 1" "e_term e = 1" by auto
  then show "m_to trio_append = 2" "m_type trio_append = MsgApp" "wf_msg trio_append" "length (m_entries trio_append) = 1"
    using f by (simp_all add: wf_msg_def)
qed

lemma trio_replica:
  "\<not> isl (step trio_append (cl_nodes trio_end 2))" "r_state (after trio_append (cl_nodes trio_end 2)) \<noteq> Leader"
  "r_term (cl_nodes trio_end 2) = 1" "log_last (r_log (cl_nodes trio_end 2)) = 0" "length (r_msgs (cl_nodes trio_end 1)) = 2"
  by (code_simp, code_simp, code_simp, code_simp, code_simp)

lemma trio_replicated: "(cluster_step mc {1, 2, 3})\<^sup>*\<^sup>* trio_start trio_done"
proof -
  have "cluster_step mc {1, 2, 3} trio_end (saved 1 trio_end)" by (rule save) simp
  moreover have "cluster_step mc {1, 2, 3} (saved 1 trio_end) trio_done"
  proof -
    have n: "cl_nodes (saved 1 trio_end) 2 = cl_nodes trio_end 2" by simp
    have "trio_append \<in> cl_net (saved 1 trio_end)" using trio_replica(5) by (simp add: trio_append_def nth_mem)
    then show ?thesis unfolding trio_done_def n [symmetric]
      by (intro deliver [OF _ _ _ _ _ _ after_step]) (use trio_replica trio_append_facts in \<open>auto simp: room_def timely_def\<close>)
  qed
  ultimately show ?thesis using trio_run by (meson rtranclp.rtrancl_into_rtrancl)
qed

theorem log_matching_witness:
  "log_last (r_log (cl_nodes trio_done 1)) = 1 \<and> log_last (r_log (cl_nodes trio_done 2)) = 1
   \<and> log_between (r_log (cl_nodes trio_done 1)) 1 2 = log_between (r_log (cl_nodes trio_done 2)) 1 2"
proof -
  have "log_view (r_log (cl_nodes trio_done 1)) = (0, 0, m_entries trio_append)" by code_simp
  moreover have "log_view (r_log (cl_nodes trio_done 2)) = (0, 0, m_entries trio_append)" by code_simp
  ultimately have l: "log_last (r_log (cl_nodes trio_done j)) = 1 \<and> log_base (r_log (cl_nodes trio_done j)) = 0
      \<and> log_term_at (r_log (cl_nodes trio_done j)) p = term_at 0 0 (m_entries trio_append) p" if "j = 1 \<or> j = 2" for j p
    using that trio_append_facts(4) by (auto simp: log_view_def log_last_def log_term_at_def)
  then show ?thesis
    using log_matching[OF trio_bootstrapped _ trio_replicated rtranclp.rtrancl_refl, of 1 2 0 1] by (simp add: numeral_2_eq_2)
qed

end
