(* ===== verification/Raft_History.thy ===== *)
theory Raft_History
  imports Raft_Matching
begin

text \<open>
  The history of a cluster without membership changes as a tree. The links that a run makes are
  collected along it; at its end they form a tree in which the entries of every term lie on top of the
  point where the log of its leader ended. The pairs of a cluster and the links made so far are the
  states of the run, so that later proofs can look at every moment of a run from its end.
\<close>

section \<open>What a leader does to its log\<close>

lemma sound_voters:
  assumes "wf_raft r" and "voters r = N" and "N \<noteq> {}" and "card N < 2 ^ 32"
  shows "sound r"
proof -
  have "r_prs r \<noteq> []" using assms(2,3) by (auto simp: voters_def)
  then show ?thesis using assms wf_raftD(1,2)[OF assms(1)] card_voters[OF assms(1)]
    by (simp add: sound_def wf_peers_def peers_ok_def)
qed

lemma acts_leader:
  assumes "acts m r r'" and "r_state r' = Leader" and "sound r"
  shows "grew (r_term r') (r_log r) (r_log r')" and "voters r' = voters r"
    and "r_state r = Leader \<or> log_last (r_log r) < log_last (r_log r')"
proof -
  obtain s where s: "stage r s" "(r_state s = Leader \<and> ((r_state r = Leader \<and> r_term s = r_term r) \<or> (r_state r' = Leader \<and> log_last (r_log r) < log_last (r_log r')))
           \<and> tends (confirms m s) s r' \<and> quiet s r')
         \<or> ((r_state s = Leader \<longrightarrow> r_state r = Leader) \<and> answers m s r')"
    using assms(1) by (auto simp: acts_def)
  have w: "wf_log (r_log r)" using assms(3) by (simp add: sound_def)
  have snd: "sound s" by (rule sound_cong [OF _ _ assms(3)]) (use s(1) w in \<open>simp_all add: stage_def\<close>)
  have f: "r_log s = r_log r" "voters s = voters r" using s(1) voters_cong[of s r] by (simp_all add: stage_def)
  from s(2) have "grew (r_term r') (r_log r) (r_log r') \<and> voters r' = voters r
      \<and> (r_state r = Leader \<or> log_last (r_log r) < log_last (r_log r'))"
  proof (elim disjE [of "r_state s = Leader \<and> _"] conjE)
    assume h: "r_state r = Leader \<and> r_term s = r_term r \<or> r_state r' = Leader \<and> log_last (r_log r) < log_last (r_log r')" "tends (confirms m s) s r'"
    show ?thesis using tendsD(2,3,4)[OF h(2) snd] h(1) f voters_cong[of r' s] by auto
  next
    assume h: "r_state s = Leader \<longrightarrow> r_state r = Leader" "answers m s r'"
    then have "r_state s = Leader" "r_log r' = r_log s" "map fst (r_prs r') = map fst (r_prs s)"
      using assms(2) by (auto simp: answers_def)
    then show ?thesis using h(1) f w grew_refl voters_cong[of r' s] by simp
  qed
  then show "grew (r_term r') (r_log r) (r_log r')" "voters r' = voters r"
    "r_state r = Leader \<or> log_last (r_log r) < log_last (r_log r')" by simp_all
qed

text \<open>The edges that a growing log adds.\<close>

lemma link_edge:
  assumes "wf_log l" and "x \<in> log_links l" and "e_index (snd x) \<noteq> 0"
  shows "parent x = point_at l (unat (e_index (snd x)) - 1)" and "child x = point_at l (unat (e_index (snd x)))"
    and "log_base l < unat (e_index (snd x))" and "unat (e_index (snd x)) \<le> log_last l"
proof -
  obtain k where k: "k < length (log_ents l)" "x = (log_term_at l (log_base l + k), log_ents l ! k)"
     "unat (e_index (snd x)) = log_base l + 1 + k" using log_link_index[OF assms(1,2)] by blast
  have "log_term_at l (log_base l + 1 + k) = e_term (log_ents l ! k)" using k(1) by (simp add: log_term_at_def term_at_def)
  then show "parent x = point_at l (unat (e_index (snd x)) - 1)" "child x = point_at l (unat (e_index (snd x)))"
    "log_base l < unat (e_index (snd x))" "unat (e_index (snd x)) \<le> log_last l"
    using k by (simp_all add: parent_def child_def point_at_def log_last_def)
qed

lemma grew_terms:
  assumes "grew t l l'" and "log_last l < i" and "i \<le> log_last l'"
  shows "point_at l' i = (i, t)"
proof -
  obtain ns where ns: "log_base l' = log_base l" "log_ents l' = log_ents l @ ns" "\<forall>e\<in>set ns. e_term e = t"
    using assms(1) by (auto simp: grew_def)
  have "i - (log_base l + length (log_ents l) + 1) < length ns" using assms(2,3) ns by (simp add: log_last_def)
  then have "e_term (ns ! (i - (log_base l + length (log_ents l) + 1))) = t" using ns(3) by simp
  then show ?thesis using assms(2,3) ns(1,2)
    by (simp add: point_at_def log_term_at_def log_last_def term_at_append_right)
qed

section \<open>Charts\<close>

definition charted :: "u64 set \<Rightarrow> u64 \<Rightarrow> point \<Rightarrow> (u64 \<times> entry) set \<Rightarrow> cluster \<Rightarrow> bool" where
  "charted N b Z M c \<longleftrightarrow> linked N M b c \<and> (\<exists>E. grown \<lparr>t_links = M, t_bound = b, t_trunk = Z, t_start = E\<rparr>)
     \<and> (\<forall>i\<in>N. r_state (cl_nodes c i) = Leader \<longrightarrow> voters (cl_nodes c i) = N
          \<and> last_point (r_log (cl_nodes c i)) \<in> made M \<and> snd (last_point (r_log (cl_nodes c i))) = r_term (cl_nodes c i))"

lemma edges_Un: "edges (A \<union> B) = edges A \<union> edges B"
  unfolding edges_def by blast

lemma works_frame:
  assumes "works r r'"
  shows "r_state r' = r_state r" "r_term r' = r_term r" "r_vote r' = r_vote r" "r_id r' = r_id r" "r_prs r' = r_prs r" "r_learner_prs r' = r_learner_prs r"
    "r_msgs r' = r_msgs r" "trimmed (log_view (r_log r)) (log_view (r_log r'))" "snap_kept (r_log r) (r_log r')"
    "last_point (r_log r') = last_point (r_log r)"
proof -
  show t: "trimmed (log_view (r_log r)) (log_view (r_log r'))" using assms by (auto simp: works_def)
  then have "log_base (r_log r') \<le> log_last (r_log r')" "log_last (r_log r') = log_last (r_log r)"
    using trimmed_log(2)[OF t] by (simp_all add: log_last_def)
  then show "last_point (r_log r') = last_point (r_log r)" using trimmed_points[OF t] by simp
qed (use assms in \<open>auto simp: works_def\<close>)

text \<open>A leader grows the tree.\<close>

lemma grown_leader:
  assumes "grown \<lparr>t_links = M, t_bound = b, t_trunk = Z, t_start = E\<rparr>" and "coherent (M \<union> log_links l')"
    and "wf_log l" and "log_links l \<subseteq> M" and "grew t l l'" and "b < t"
    and "(last_point l \<in> made M \<and> snd (last_point l) = t) \<or> (\<forall>y\<in>made M. snd y \<noteq> t)"
  shows "\<exists>E. grown \<lparr>t_links = M \<union> log_links l', t_bound = b, t_trunk = Z, t_start = E\<rparr>"
proof -
  let ?M = "M \<union> log_links l'"
  let ?lead = "last_point l \<in> made M \<and> snd (last_point l) = t"
  define F where "F = (if ?lead then E else E(t := last_point l))"
  have w': "wf_log l'" using assms(5) by (simp add: grew_def)
  have new: "snd y = t \<and> (x = last_point l \<or> (x \<in> made ?M \<and> snd x = t))" if e: "(x, y) \<in> edges ?M" "(x, y) \<notin> edges M" for x y
  proof -
    obtain q where q: "q \<in> log_links l'" "e_index (snd q) \<noteq> 0" "x = parent q" "y = child q"
      using e unfolding edges_Un by (auto simp: edges_def)
    let ?k = "unat (e_index (snd q))"
    note p = link_edge[OF w' q(1,2)]
    have "log_last l < ?k"
    proof (rule ccontr)
      assume "\<not> log_last l < ?k"
      moreover have b: "log_base l' = log_base l" using assms(5) by (simp add: grew_def)
      ultimately have "(point_at l (?k - 1), point_at l (?k - 1 + 1)) \<in> edges M"
        using p(3) by (intro log_edge [OF assms(3,4)]) simp_all
      then show False using e(2) q(3,4) p(1-3) grew_point[OF assms(5)] \<open>\<not> log_last l < ?k\<close> by simp
    qed
    then have y: "snd y = t" using grew_terms[OF assms(5) _ p(4)] p(2) q(4) by simp
    show ?thesis
    proof (cases "?k - 1 = log_last l")
      case True
      then show ?thesis using y q(3) p(1) grew_point[OF assms(5), of "log_last l"] by simp
    next
      case False
      then have k1: "log_last l < ?k - 1" "?k - 1 \<le> log_last l'" using \<open>log_last l < ?k\<close> p(4) by simp_all
      define j where "j = ?k - 1"
      have "log_base l' \<le> log_last l" using assms(5) by (simp add: grew_def log_last_def)
      then have "(point_at l' (j - 1), point_at l' (j - 1 + 1)) \<in> edges ?M"
        using k1 unfolding j_def [symmetric] by (intro log_edge [OF w']) auto
      moreover have "j - 1 + 1 = j" using k1 unfolding j_def [symmetric] by simp
      ultimately have "point_at l' (?k - 1) \<in> made ?M" using edge_made j_def by metis
      then show ?thesis using y q(3) p(1) grew_terms[OF assms(5) k1] by simp
    qed
  qed
  have mm: "M \<subseteq> ?M" by blast
  have "grown \<lparr>t_links = ?M, t_bound = b, t_trunk = Z, t_start = F\<rparr>"
    unfolding grown_def
  proof (intro conjI allI impI, goal_cases)
    case 1
    then show ?case using assms(2) by simp
  next
    case 2
    then show ?case using grownD(2)[OF assms(1)] by simp
  next
    case (3 x y)
    then have "(x, y) \<in> edges M" using new[of x y] assms(6) leD by fastforce
    then show ?case using grownD(3)[OF assms(1), of x y] 3 anc_mono[OF _ mm] by auto
  next
    case (4 x y)
    then have "(x, y) \<in> edges M" using new[of x y] assms(6) leD by fastforce
    then show ?case using grownD(3)[OF assms(1), of x y] 4 by auto
  next
    case (5 x y)
    show ?case
    proof (cases "(x, y) \<in> edges M")
      case True
      then have "x = E (snd y) \<or> (x \<in> made M \<and> snd x = snd y)" using grownD(4)[OF assms(1), of x y] 5 by (simp add: own_def)
      moreover have "F (snd y) = E (snd y)" using assms(7) edge_made[OF True] by (auto simp: F_def)
      ultimately show ?thesis using made_mono[OF mm] by (auto simp: own_def)
    next
      case False
      then show ?thesis using new[of x y] 5 made_mono[OF mm] by (auto simp: own_def F_def)
    qed
  qed
  then show ?thesis by blast
qed


text \<open>The point that a leader puts on top of its log in its term.\<close>

lemma grew_made:
  assumes "wf_log l" and "grew t l l'" and "log_last l < i" and "i \<le> log_last l'" and "log_links l' \<subseteq> M"
  shows "point_at l' i \<in> made M"
proof -
  have "(point_at l' (i - 1), point_at l' (i - 1 + 1)) \<in> edges M"
    using assms by (intro log_edge) (auto simp: grew_def log_last_def)
  moreover have "i - 1 + 1 = i" using assms(3) by simp
  ultimately show ?thesis using edge_made by metis
qed

lemma moved_charted:
  assumes "election_inv N c" and "charted N b Z M c" and "linking N M c i m r'" and "2 \<le> card N"
    and "works (cl_nodes c i) r' \<or> (acts m (cl_nodes c i) r' \<and> (r_state r' = Leader \<longrightarrow> voters (cl_nodes c i) = N))"
  shows "charted N b Z (M \<union> log_links (r_log r')) (moved i r' c)"
proof -
  let ?r = "cl_nodes c i" and ?M = "M \<union> log_links (r_log r')" and ?c = "moved i r' c"
  have lk: "linked N M b c" and E: "\<exists>E. grown \<lparr>t_links = M, t_bound = b, t_trunk = Z, t_start = E\<rparr>"
    and ld: "\<And>j. j \<in> N \<Longrightarrow> r_state (cl_nodes c j) = Leader \<Longrightarrow> voters (cl_nodes c j) = N
          \<and> last_point (r_log (cl_nodes c j)) \<in> made M \<and> snd (last_point (r_log (cl_nodes c j))) = r_term (cl_nodes c j)"
    using assms(2) by (auto simp: charted_def)
  have mv: "moves N c i m r'" and i: "i \<in> N" using assms(3) by (simp_all add: linking_def moves_def)
  have w: "wf_raft ?r" and wl: "wf_log (r_log ?r)" and ll: "log_links (r_log ?r) \<subseteq> M"
    using assms(1) i lk by (auto simp: election_inv_def nodes_ok_def linked_def traced_def dest: wf_raftD(1))
  have lk': "linked N ?M b ?c" by (rule moved_linked [OF assms(1) lk assms(3,4)])
  have mm: "made M \<subseteq> made ?M" by (intro made_mono) simp
  have "(\<exists>E. grown \<lparr>t_links = ?M, t_bound = b, t_trunk = Z, t_start = E\<rparr>) \<and> (r_state r' = Leader \<longrightarrow> voters r' = N
       \<and> last_point (r_log r') \<in> made ?M \<and> snd (last_point (r_log r')) = r_term r')"
  proof (cases "r_state r' = Leader")
    case False
    then have "fresh ?r r' = {}" by (auto simp: fresh_def)
    then have "?M = M" using linking_links(1)[OF lk assms(3)] by auto
    then show ?thesis using E False by simp
  next
    case lead: True
    let ?l = "r_log ?r" and ?l' = "r_log r'" and ?t = "r_term r'"
    have old: "last_point ?l \<in> made M \<and> snd (last_point ?l) = ?t" if "r_state ?r = Leader"
      using ld[OF i that] new_leader[OF assms(1) mv assms(4) lead] that by (cases "?t = r_term ?r") auto
    from assms(5) show ?thesis
    proof (elim disjE conjE)
      assume wk: "works ?r r'"
      have "?M = M" using trimmed_log(1)[OF works_frame(8) [OF wk]] ll by auto
      moreover have "r_state ?r = Leader" "voters r' = voters ?r" using works_frame(1,5)[OF wk] lead by (simp_all add: voters_def)
      ultimately show ?thesis using E old ld[OF i] works_frame(10)[OF wk] by simp
    next
      assume ac: "acts m ?r r'" and vt: "r_state r' = Leader \<longrightarrow> voters ?r = N"
      have ne: "N \<noteq> {}" "card N < 2 ^ 32" using i assms(1) by (auto simp: election_inv_def)
      have so: "sound ?r" using sound_voters[OF w _ ne] vt lead by simp
      note g = acts_leader[OF ac lead so]
      have gl: "\<exists>E. grown \<lparr>t_links = ?M, t_bound = b, t_trunk = Z, t_start = E\<rparr>"
      proof -
        obtain E where E: "grown \<lparr>t_links = M, t_bound = b, t_trunk = Z, t_start = E\<rparr>" using E by blast
        have bt: "b < ?t" and co: "coherent ?M" using lk' i lead by (auto simp: linked_def stands_ok_def)
        have "\<forall>y\<in>made M. snd y \<noteq> ?t" if nl: "r_state ?r \<noteq> Leader"
        proof (intro ballI notI)
          fix y assume y: "y \<in> made M" "snd y = ?t"
          then obtain x where x: "x \<in> M" "e_term (snd x) = ?t" by (auto simp: made_def edges_def child_def)
          then obtain j where j: "(?t, j) \<in> cl_elected c" using lk bt by (auto simp: linked_def)
          then have "j = i" using elected_unique[OF moved_inv [OF assms(1) mv], of ?t j i] lead by simp
          moreover have "r_state ?r = Candidate" "r_term ?r = ?t"
            using new_leader[OF assms(1) mv assms(4) lead] nl by simp_all
          then have "(?t, i) \<notin> cl_elected c" using lk i by (auto simp: linked_def stands_ok_def)
          ultimately show False using j by simp
        qed
        then show ?thesis using grown_leader[OF E co wl ll g(1) bt] old by blast
      qed
      have "last_point ?l' \<in> made ?M \<and> snd (last_point ?l') = ?t"
      proof (cases "log_last ?l < log_last ?l'")
        case True
        then show ?thesis using grew_made[OF wl g(1) True] grew_terms[OF g(1) True] by simp
      next
        case False
        then have "last_point ?l' = last_point ?l" "r_state ?r = Leader"
          using g(3) grew_point[OF g(1), of "log_last ?l"] grew_last[OF g(1)] by simp_all
        then show ?thesis using old mm by auto
      qed
      then show ?thesis using gl g(2) vt lead by simp
    qed
  qed
  moreover have "last_point (r_log (cl_nodes c j)) \<in> made ?M" if "j \<in> N" "r_state (cl_nodes c j) = Leader" for j
    using ld[OF that] mm by blast
  ultimately show ?thesis using lk' ld unfolding charted_def by simp
qed

lemma cluster_step_charted:
  assumes "cluster_step False N c c'" and "election_inv N c" and "charted N b Z M c" and "2 \<le> card N"
  shows "\<exists>M'. M \<subseteq> M' \<and> charted N b Z M' c'"
proof -
  have lk: "linked N M b c" using assms(3) by (simp add: charted_def)
  consider (moved) i m r' where "c' = moved i r' c" "moves N c i m r'" "grafts m (cl_nodes c i) r'" "renews (cl_nodes c i) r'"
        "m \<in> cl_net c \<or> msg_links m = {}" "works (cl_nodes c i) r' \<or> (acts m (cl_nodes c i) r' \<and> (r_state r' = Leader \<longrightarrow> voters (cl_nodes c i) = N))"
    | (saved) i where "i \<in> N" "c' = saved i c"
    | (restarted) i r' where "i \<in> N" "c' = restarted i r' c" "r_state r' = Follower" "r_msgs r' = []"
        "cl_saved c i = (r_term r', r_vote r')" "trimmed (cl_disk c i) (log_view (r_log r'))"
    using cluster_step_kinds[OF assms(1,2)] by blast
  then show ?thesis
  proof cases
    case (moved i m r')
    have "linking N M c i m r'" using moved lk by (auto simp: linking_def linked_def traced_def)
    then show ?thesis using moved_charted[OF assms(2,3) _ assms(4) moved(6)] moved(1) by blast
  next
    case (saved i)
    then have "charted N b Z M c'" using saved_linked[OF lk saved(1)] assms(3) by (auto simp: charted_def voters_def)
    then show ?thesis by blast
  next
    case (restarted i r')
    have "log_links (r_log r') \<subseteq> view_links (cl_disk c i)"
      using restarted(6) trimmed_links(1) by (cases "cl_disk c i") (auto simp: log_view_def log_links_def)
    also have "\<dots> \<subseteq> M" using lk restarted(1) by (simp add: linked_def traced_def)
    finally have "linked N M b c'" using restarted_linked[OF lk restarted(1) _ restarted(3,4)] restarted(2,5) by auto
    then have "charted N b Z M c'" using assms(3) restarted(2,3) by (auto simp: charted_def)
    then show ?thesis by blast
  qed
qed

section \<open>Charted runs\<close>

definition chart_step :: "u64 set \<Rightarrow> u64 \<Rightarrow> point \<Rightarrow> (u64 \<times> entry) set \<times> cluster \<Rightarrow> (u64 \<times> entry) set \<times> cluster \<Rightarrow> bool" where
  "chart_step N b Z p q \<longleftrightarrow> cluster_step False N (snd p) (snd q) \<and> fst p \<subseteq> fst q \<and> charted N b Z (fst q) (snd q)"

lemma chart_run:
  assumes "(cluster_step False N)\<^sup>*\<^sup>* c c'" and "election_inv N c" and "charted N b Z M c" and "2 \<le> card N"
  shows "\<exists>M'. (chart_step N b Z)\<^sup>*\<^sup>* (M, c) (M', c') \<and> charted N b Z M' c'"
  using assms
proof (induction rule: rtranclp_induct)
  case (step c1 c2)
  then obtain M1 where M1: "(chart_step N b Z)\<^sup>*\<^sup>* (M, c) (M1, c1)" "charted N b Z M1 c1" by blast
  obtain M2 where "M1 \<subseteq> M2" "charted N b Z M2 c2"
    using cluster_step_charted[OF step(2) _ M1(2)] cluster_run_inv[OF step(1)] step.prems by blast
  then have "chart_step N b Z (M1, c1) (M2, c2)" using step(2) by (simp add: chart_step_def)
  then show ?case using M1(1) \<open>charted N b Z M2 c2\<close> by (meson rtranclp.rtrancl_into_rtrancl)
qed blast

lemma chart_run_grows: "(chart_step N b Z)\<^sup>*\<^sup>* p q \<Longrightarrow> fst p \<subseteq> fst q"
  by (induction rule: rtranclp_induct) (auto simp: chart_step_def)

text \<open>
  A cluster at its start, as for log matching; moreover the term of the base of the logs is not beyond
  that of a node, what is on disk is committed as far as the node knows, no node knows anything of
  another one, and a snapshot covers committed entries only.
\<close>

definition founded :: "u64 set \<Rightarrow> cluster \<Rightarrow> bool" where
  "founded N c \<longleftrightarrow> bootstrapped N c
     \<and> (\<forall>i\<in>N. (\<forall>k\<in>N. log_base_term (r_log (cl_nodes c i)) \<le> r_term (cl_nodes c k))
          \<and> cl_commit c i = l_committed (r_log (cl_nodes c i))
          \<and> (\<forall>j p. get_progress (cl_nodes c i) j = Some p \<longrightarrow> j = i \<or> pr_match p = 0)
          \<and> (s_index (log_snap (r_log (cl_nodes c i))) = 0
             \<or> holds (r_log (cl_nodes c i)) (snap_point (log_snap (r_log (cl_nodes c i))))
               \<and> s_index (log_snap (r_log (cl_nodes c i))) \<le> l_committed (r_log (cl_nodes c i))))"

lemma founded_charted:
  assumes "founded N c" and "N \<noteq> {}"
  shows "\<exists>M b Z. charted N b Z M c \<and> (\<forall>i\<in>N. last_point (r_log (cl_nodes c i)) = Z)"
proof -
  have boot: "bootstrapped N c" and init: "initial N c" using assms(1) by (simp_all add: founded_def bootstrapped_def)
  obtain v where v: "\<forall>i\<in>N. log_view (r_log (cl_nodes c i)) = v" "\<forall>i\<in>N. \<forall>e\<in>set (snd (snd v)). e_term e \<le> r_term (cl_nodes c i)"
    using boot unfolding bootstrapped_def by blast
  obtain M b where lk: "linked N M b c" and M: "M = view_links v" and b: "b = Min ((\<lambda>i. r_term (cl_nodes c i)) ` N)"
    using bootstrapped_linked_view[OF boot assms(2) v(1)] by blast
  obtain k where k: "k \<in> N" using assms(2) by blast
  let ?l = "r_log (cl_nodes c k)"
  define Z where "Z = last_point ?l"
  have w: "wf_log ?l" using init k by (auto simp: initial_def dest: wf_raftD(1))
  have ll: "log_links ?l = M" using v(1) k M view_links_log by metis
  have "last_point (r_log (cl_nodes c i)) = Z" if "i \<in> N" for i
    using view_points[of "r_log (cl_nodes c i)" ?l] v(1) k that by (simp add: Z_def)
  moreover have terms: "log_term_at ?l i \<le> b" if "log_base ?l \<le> i" "i \<le> log_last ?l" for i
  proof (cases "i = log_base ?l")
    case True
    have "log_base_term ?l \<le> r_term (cl_nodes c j)" if "j \<in> N" for j using assms(1) k that by (simp add: founded_def)
    then show ?thesis using True assms(2) by (simp add: log_term_at_def term_at_def b)
  next
    case False
    then have "log_term_at ?l i = e_term (log_ents ?l ! (i - (log_base ?l + 1)))" "i - (log_base ?l + 1) < length (log_ents ?l)"
      using that by (auto simp: log_term_at_def term_at_def log_last_def)
    moreover have "snd (snd v) = log_ents ?l" using v(1) k by (auto simp: log_view_def)
    ultimately show ?thesis using v(2) assms(2) by (simp add: b)
  qed
  moreover have "grown \<lparr>t_links = M, t_bound = b, t_trunk = Z, t_start = \<lambda>_. Z\<rparr>"
  proof -
    have "anc M y Z \<and> snd x \<le> b \<and> snd y \<le> b" if e: "(x, y) \<in> edges M" for x y
    proof -
      obtain q where q: "q \<in> log_links ?l" "e_index (snd q) \<noteq> 0" "x = parent q" "y = child q"
        using e ll by (auto simp: edges_def)
      note p = link_edge[OF w q(1,2)]
      have "anc M (point_at ?l (unat (e_index (snd q)))) Z"
        unfolding Z_def using ll p(3,4) by (intro log_on_path [OF w]) auto
      moreover have "snd (point_at ?l (unat (e_index (snd q)) - 1)) \<le> b" "snd (point_at ?l (unat (e_index (snd q)))) \<le> b"
        using terms p(3,4) by (simp_all add: point_at_def)
      ultimately show ?thesis using q(3,4) p(1,2) by simp
    qed
    moreover have "snd Z \<le> b" using terms[of "log_last ?l"] by (simp add: Z_def point_at_def log_last_def)
    moreover have "coherent M" using lk by (simp add: linked_def)
    moreover from calculation(1) have "\<not> b < snd y" if "(x, y) \<in> edges M" for x y using that by (meson leD)
    ultimately show ?thesis unfolding grown_def tree.select_convs by blast
  qed
  moreover have "r_state (cl_nodes c i) \<noteq> Leader" if "i \<in> N" for i using init that by (simp add: initial_def)
  ultimately show ?thesis using lk unfolding charted_def by blast
qed

end
