(* ===== verification/Raft_Chosen.thy ===== *)
theory Raft_Chosen
  imports Raft_History
begin

text \<open>
  What a cluster has chosen stays chosen. A point of a leader's term is chosen when a majority has
  vouched for it in that term: the leader by offering it, the others by acknowledging it. The first
  lemmas are about one moment of a run and the tree of its whole history: every leader elected in a
  later term started above the chosen points, so that these and all points below them form a line.
  The others say what keeps a log in order: a follower that follows its leader, and a leader that
  tends its followers and commits.
\<close>

section \<open>Chosen points\<close>

abbreviation led :: "cluster \<Rightarrow> u64 set" where
  "led c \<equiv> fst ` cl_elected c"

abbreviation commit_point :: "raft_log \<Rightarrow> point" where
  "commit_point l \<equiv> point_at l (unat (l_committed l))"

definition offers :: "message \<Rightarrow> bool" where
  "offers x \<longleftrightarrow> (m_type x = MsgApp \<and> wf_msg x) \<or> m_type x = MsgSnap"

definition accepts :: "message \<Rightarrow> bool" where
  "accepts x \<longleftrightarrow> m_type x = MsgAppResp \<and> \<not> m_reject x \<and> m_index x \<noteq> 0"

text \<open>A message of \<open>X\<close> says that node \<open>j\<close> has the log of the leader of term \<open>t\<close> up to position \<open>n\<close>.\<close>

definition vouched :: "message set \<Rightarrow> u64 \<Rightarrow> u64 \<Rightarrow> nat \<Rightarrow> bool" where
  "vouched X j t n \<longleftrightarrow> (\<exists>x\<in>X. m_from x = j \<and> m_term x = t
     \<and> (accepts x \<and> n = unat (m_index x) \<or> offers x \<and> n = fst (reach x)))"

definition chosen :: "u64 set \<Rightarrow> tree \<Rightarrow> cluster \<Rightarrow> u64 \<Rightarrow> point \<Rightarrow> bool" where
  "chosen N g c t a \<longleftrightarrow> own g t a \<and> t \<in> led c
     \<and> (\<exists>W \<subseteq> N. card N div 2 + 1 \<le> card W \<and> (\<forall>j\<in>W. \<exists>n. vouched (cl_net c) j t n \<and> fst a \<le> n))"

text \<open>A point that is settled by the terms up to \<open>T\<close>, and a position up to which the log of the leader of \<open>T\<close> is.\<close>

definition settled :: "u64 set \<Rightarrow> tree \<Rightarrow> cluster \<Rightarrow> u64 \<Rightarrow> point \<Rightarrow> bool" where
  "settled N g c T a \<longleftrightarrow> below g a (t_trunk g) \<or> (\<exists>u b. u \<le> T \<and> chosen N g c u b \<and> below g a b)"

definition safe :: "u64 set \<Rightarrow> tree \<Rightarrow> cluster \<Rightarrow> u64 \<Rightarrow> nat \<Rightarrow> bool" where
  "safe N g c T k \<longleftrightarrow> (\<forall>a. ruled g T a \<and> fst a \<le> k \<longrightarrow> settled N g c T a)"

lemma safeD: "safe N g c T k \<Longrightarrow> ruled g T a \<Longrightarrow> fst a \<le> k \<Longrightarrow> settled N g c T a"
  unfolding safe_def by blast

text \<open>
  What a voter of term \<open>t'\<close> has vouched for before lies below \<open>p\<close>, unless a leader between did not
  have it; and the leaders of all terms were elected by such voters.
\<close>

definition pledged :: "tree \<Rightarrow> u64 set \<Rightarrow> message set \<Rightarrow> u64 \<Rightarrow> u64 \<Rightarrow> point \<Rightarrow> bool" where
  "pledged g L X j t' p \<longleftrightarrow> (\<forall>t n a. vouched X j t n \<and> t < t' \<and> own g t a \<and> fst a \<le> n
     \<and> (\<forall>u\<in>L. t < u \<and> u < t' \<longrightarrow> below g a (t_start g u)) \<longrightarrow> below g a p)"

definition said :: "cluster \<Rightarrow> u64 \<Rightarrow> message set" where
  "said c j = cl_net c \<union> set (r_msgs (cl_nodes c j))"

definition crowned :: "u64 set \<Rightarrow> tree \<Rightarrow> cluster \<Rightarrow> u64 \<Rightarrow> bool" where
  "crowned N g c t \<longleftrightarrow> (\<exists>Q \<subseteq> N. card N div 2 + 1 \<le> card Q
     \<and> (\<forall>j\<in>Q. t \<le> r_term (cl_nodes c j) \<and> t \<le> fst (cl_saved c j) \<and> pledged g (led c) (said c j) j t (t_start g t)))"

definition lawful :: "u64 set \<Rightarrow> tree \<Rightarrow> cluster \<Rightarrow> bool" where
  "lawful N g c \<longleftrightarrow> grown g \<and> sprouted g (led c) \<and> (\<forall>t\<in>led c. crowned N g c t)"

lemma crownedD:
  "crowned N g c t \<Longrightarrow> \<exists>Q \<subseteq> N. card N div 2 + 1 \<le> card Q \<and> (\<forall>j\<in>Q. pledged g (led c) (said c j) j t (t_start g t))"
  unfolding crowned_def by (erule exE) (intro exI, elim conjE, intro conjI, assumption+, simp)

lemma vouched_mono: "vouched X j t n \<Longrightarrow> X \<subseteq> Y \<Longrightarrow> vouched Y j t n"
  by (auto simp: vouched_def)

lemma majorities_cross:
  fixes N :: "u64 set"
  assumes "P \<subseteq> N" and "Q \<subseteq> N" and "card N div 2 + 1 \<le> card P" and "card N div 2 + 1 \<le> card Q"
  shows "\<exists>j. j \<in> P \<and> j \<in> Q"
proof (rule ccontr)
  assume "\<nexists>j. j \<in> P \<and> j \<in> Q"
  then have "P \<inter> Q = {}" by blast
  then have "card (P \<union> Q) = card P + card Q" by (intro card_Un_disjoint) simp_all
  moreover have "card (P \<union> Q) \<le> card N" using assms(1,2) by (intro card_mono) simp_all
  ultimately show False using assms(3,4) by simp
qed

section \<open>Later leaders start above the chosen points\<close>

lemma chosen_start:
  assumes "lawful N g c" and "chosen N g c t a" and "t' \<in> led c" and "t < t'"
  shows "below g a (t_start g t')"
  using assms(3,4)
proof (induction t' rule: less_induct)
  case (less t')
  obtain Q where Q: "Q \<subseteq> N" "card N div 2 + 1 \<le> card Q"
      "\<forall>j\<in>Q. pledged g (led c) (said c j) j t' (t_start g t')"
    using crownedD[of N g c t'] assms(1) less.prems(1) unfolding lawful_def by meson
  obtain W where W: "W \<subseteq> N" "card N div 2 + 1 \<le> card W"
      "\<forall>j\<in>W. \<exists>n. vouched (cl_net c) j t n \<and> fst a \<le> n" and own: "own g t a"
    using assms(2) unfolding chosen_def by blast
  obtain j where j: "j \<in> Q" "j \<in> W" using majorities_cross[OF Q(1) W(1) Q(2) W(2)] by blast
  obtain n where n: "vouched (cl_net c) j t n" "fst a \<le> n" using W(3) j(2) by blast
  have "vouched (said c j) j t n" using vouched_mono[OF n(1)] by (simp add: said_def)
  moreover have "\<forall>u\<in>led c. t < u \<and> u < t' \<longrightarrow> below g a (t_start g u)" using less.IH by blast
  ultimately show ?case using Q(3) j(1) own n(2) less.prems(2) unfolding pledged_def by blast
qed

lemma lawfulD:
  assumes "lawful N g c"
  shows "grown g" "sprouted g (led c)" "coherent (t_links g)"
    "t \<in> led c \<Longrightarrow> t_bound g < t" "t \<in> led c \<Longrightarrow> below g (t_trunk g) (t_start g t)"
  using assms grownD(1) sproutedD(1) rootedD(1)[OF sproutedD(3)] unfolding lawful_def by blast+

lemma trunk_chosen:
  assumes "lawful N g c" and "chosen N g c t a"
  shows "below g (t_trunk g) a" and "below g (t_start g t) a"
proof -
  note l = lawfulD[OF assms(1)]
  have t: "t \<in> led c" "own g t a" using assms(2) by (auto simp: chosen_def)
  show s: "below g (t_start g t) a" by (rule start_below [OF l(1) t(2) l(4) [OF t(1)]])
  show "below g (t_trunk g) a" using anc_trans[OF l(5) [OF t(1)] s] .
qed

text \<open>The settled points form a line.\<close>

lemma chosen_line:
  assumes "lawful N g c" and "chosen N g c t a" and "chosen N g c u b" and "t \<le> u"
  shows "below g a b \<or> below g b a"
proof (cases "t = u")
  case True
  then show ?thesis using own_line[OF lawfulD(1,4) [OF assms(1)]] assms(2,3) unfolding chosen_def by (metis nle_le)
next
  case False
  then have "below g a (t_start g u)" using assms by (intro chosen_start) (auto simp: chosen_def)
  then show ?thesis using trunk_chosen(2)[OF assms(1,3)] anc_trans by blast
qed

lemma settled_line:
  assumes "lawful N g c" and "settled N g c T a" and "settled N g c U b" and "fst a \<le> fst b"
  shows "below g a b"
proof -
  let ?top = "\<lambda>x. x = t_trunk g \<or> (\<exists>u. chosen N g c u x)"
  obtain x y where x: "?top x" "below g a x" and y: "?top y" "below g b y"
    using assms(2,3) unfolding settled_def by blast
  have "below g x y \<or> below g y x"
    using x(1) y(1) trunk_chosen(1)[OF assms(1)] chosen_line[OF assms(1)] by (metis anc_refl linear)
  then show ?thesis using anc_linear[OF lawfulD(3) [OF assms(1)] _ _ assms(4)] anc_trans x(2) y(2) by blast
qed

lemma settled_down: "settled N g c T b \<Longrightarrow> below g a b \<Longrightarrow> settled N g c T a"
  unfolding settled_def using anc_trans by blast

lemma settled_ruled:
  assumes "lawful N g c" and "settled N g c T a" and "T \<in> led c"
  shows "ruled g T a"
  using assms(2) unfolding settled_def
proof (elim disjE exE conjE)
  assume "below g a (t_trunk g)"
  then show ?thesis using ruled_down ruled_trunk lawfulD(2)[OF assms(1)] assms(3) by blast
next
  fix u b assume u: "u \<le> T" "chosen N g c u b" "below g a b"
  show ?thesis
  proof (cases "u = T")
    case True
    then show ?thesis using u(2,3) ruled_own ruled_down unfolding chosen_def by blast
  next
    case False
    then have "below g b (t_start g T)" using u(1) by (intro chosen_start [OF assms(1) u(2) assms(3)]) simp
    then show ?thesis using u(3) by (blast intro: ruled_start anc_trans)
  qed
qed

lemma settled_safe:
  assumes "lawful N g c" and "settled N g c T a" and "T \<in> led c" and "k \<le> fst a"
  shows "safe N g c T k"
  using ruled_line[OF lawfulD(1,4) [OF assms(1)] _ settled_ruled [OF assms(1-3)]] assms(2-4) settled_down
  unfolding safe_def by (meson order_trans)

section \<open>Growth\<close>

text \<open>A later state of the cluster has chosen more.\<close>

definition grows :: "cluster \<Rightarrow> cluster \<Rightarrow> bool" where
  "grows c c' \<longleftrightarrow> cl_net c \<subseteq> cl_net c' \<and> cl_elected c \<subseteq> cl_elected c'"

lemma grows_led: "grows c c' \<Longrightarrow> led c \<subseteq> led c'"
  by (auto simp: grows_def)

lemma chosen_grows: "chosen N g c t a \<Longrightarrow> grows c c' \<Longrightarrow> chosen N g c' t a"
  using vouched_mono[of "cl_net c" _ _ _ "cl_net c'"] unfolding chosen_def grows_def by (meson image_mono subsetD)

lemma settled_grows: "settled N g c T a \<Longrightarrow> grows c c' \<Longrightarrow> T \<le> T' \<Longrightarrow> settled N g c' T' a"
  using chosen_grows order_trans unfolding settled_def by blast

lemma safe_grows: "safe N g c T k \<Longrightarrow> grows c c' \<Longrightarrow> safe N g c' T k"
  using settled_grows order_refl unfolding safe_def by blast

lemma pledged_mono:
  "pledged g L X j t p \<Longrightarrow> L \<subseteq> L' \<Longrightarrow> (\<And>u n. vouched Y j u n \<Longrightarrow> u < t \<Longrightarrow> vouched X j u n) \<Longrightarrow> pledged g L' Y j t p"
  unfolding pledged_def by blast

section \<open>Logs\<close>

text \<open>
  What node \<open>j\<close> vouched for in \<open>X\<close> lies below \<open>p\<close>: all of the leader's log in the present term \<open>T\<close>, and
  entries of older terms that all leaders since had.
\<close>

definition dutiful :: "tree \<Rightarrow> u64 set \<Rightarrow> u64 \<Rightarrow> message set \<Rightarrow> u64 \<Rightarrow> point \<Rightarrow> bool" where
  "dutiful g L T X j p \<longleftrightarrow> (\<forall>t n. vouched X j t n \<longrightarrow> t \<le> T
     \<and> (\<forall>a. fst a \<le> n \<and> (t = T \<and> ruled g t a \<or> own g t a \<and> (\<forall>u\<in>L. t < u \<and> u \<le> T \<longrightarrow> below g a (t_start g u)))
          \<longrightarrow> below g a p))"

definition held :: "u64 set \<Rightarrow> tree \<Rightarrow> cluster \<Rightarrow> u64 \<Rightarrow> message set \<Rightarrow> u64 \<Rightarrow> raft_log \<Rightarrow> bool" where
  "held N g c T X j l \<longleftrightarrow> wf_log l \<and> log_links l \<subseteq> t_links g \<and> rooted g (led c) (last_point l)
     \<and> snd (last_point l) \<le> T \<and> dutiful g (led c) T X j (last_point l) \<and> settled N g c T (commit_point l)"

lemma heldD:
  assumes "held N g c T X j l"
  shows "wf_log l" "log_links l \<subseteq> t_links g" "rooted g (led c) (last_point l)" "snd (last_point l) \<le> T"
    "dutiful g (led c) T X j (last_point l)" "settled N g c T (commit_point l)"
  using assms by (simp_all add: held_def)

lemma dutifulD:
  assumes "dutiful g L T X j p" and "vouched X j t n"
  shows "t \<le> T"
    and "fst a \<le> n \<Longrightarrow> t = T \<Longrightarrow> ruled g t a \<Longrightarrow> below g a p"
    and "fst a \<le> n \<Longrightarrow> own g t a \<Longrightarrow> (\<And>u. u \<in> L \<Longrightarrow> t < u \<Longrightarrow> u \<le> T \<Longrightarrow> below g a (t_start g u)) \<Longrightarrow> below g a p"
  using assms unfolding dutiful_def by blast+

lemma dutiful_mono:
  assumes "dutiful g L T X j p" and "L \<subseteq> L'" and "T \<le> T'" and "\<And>t n. vouched Y j t n \<Longrightarrow> vouched X j t n"
  shows "dutiful g L' T' Y j p"
  unfolding dutiful_def
proof (intro allI impI conjI)
  fix t n assume v: "vouched Y j t n"
  note d = dutifulD[OF assms(1) assms(4) [OF v]]
  show "t \<le> T'" using d(1) assms(3) by simp
  fix a assume a: "fst a \<le> n \<and> (t = T' \<and> ruled g t a \<or> own g t a \<and> (\<forall>u\<in>L'. t < u \<and> u \<le> T' \<longrightarrow> below g a (t_start g u)))"
  then show "below g a p"
  proof (elim conjE disjE)
    assume "fst a \<le> n" "t = T'" "ruled g t a"
    then show ?thesis using d(1,2) assms(3) by (metis order_antisym)
  next
    assume h: "fst a \<le> n" "own g t a" "\<forall>u\<in>L'. t < u \<and> u \<le> T' \<longrightarrow> below g a (t_start g u)"
    show ?thesis using assms(2,3) h by (intro d(3)) (auto intro: order_trans)
  qed
qed

lemma held_mono:
  assumes "held N g c T X j l" and "grows c c'" and "T \<le> T'" and "\<And>t n. vouched Y j t n \<Longrightarrow> vouched X j t n"
  shows "held N g c' T' Y j l"
  using assms(1,3) rooted_mono[OF _ grows_led [OF assms(2)]] settled_grows[OF _ assms(2,3)]
    dutiful_mono[OF _ grows_led [OF assms(2)] assms(3,4)]
  unfolding held_def by (blast intro: order_trans)

lemma held_trimmed:
  assumes "held N g c T X j l" and "wf_log l'" and "trimmed (log_view l) (log_view l')" and "l_committed l' = l_committed l"
  shows "held N g c T X j l'" and "last_point l' = last_point l" and "commit_point l' = commit_point l"
proof -
  have "log_last l' = log_last l" "log_links l' \<subseteq> log_links l" using trimmed_log[OF assms(3)] by simp_all
  moreover have "log_base l' \<le> log_last l'" by (simp add: log_last_def)
  ultimately show "last_point l' = last_point l" "commit_point l' = commit_point l"
    using trimmed_points[OF assms(3)] wf_logD(4)[OF assms(2)] assms(4) by simp_all
  then show "held N g c T X j l'" using assms(1,2) \<open>log_links l' \<subseteq> log_links l\<close> unfolding held_def by auto
qed

text \<open>More is vouched for, all of it below the last point.\<close>

lemma held_vouch:
  assumes "held N g c T X j l"
    and "\<And>t n. vouched Y j t n \<Longrightarrow> vouched X j t n \<or> (t = T \<and> (\<forall>a. ruled g T a \<and> fst a \<le> n \<longrightarrow> below g a (last_point l)))"
  shows "held N g c T Y j l"
proof -
  have "dutiful g (led c) T Y j (last_point l)"
    unfolding dutiful_def
  proof (intro allI impI conjI)
    fix t n assume v: "vouched Y j t n"
    show "t \<le> T" using assms(2)[OF v] dutifulD(1)[OF heldD(5) [OF assms(1)]] by blast
    show "below g a (last_point l)"
      if "fst a \<le> n \<and> (t = T \<and> ruled g t a \<or> own g t a \<and> (\<forall>u\<in>led c. t < u \<and> u \<le> T \<longrightarrow> below g a (t_start g u)))" for a
      using assms(2)[OF v]
    proof
      assume "vouched X j t n"
      then show ?thesis using that heldD(5)[OF assms(1)] unfolding dutiful_def by blast
    next
      assume "t = T \<and> (\<forall>a. ruled g T a \<and> fst a \<le> n \<longrightarrow> below g a (last_point l))"
      then show ?thesis using that ruled_own by blast
    qed
  qed
  then show ?thesis using assms(1) by (simp add: held_def)
qed

text \<open>
  A log that is changed in a term with a leader, and ends on the path of that leader above all that
  it shared with it.
\<close>

lemma held_changed:
  assumes "lawful N g c" and "held N g c T X j l" and "T \<in> led c" and "wf_log l'" and "log_links l' \<subseteq> t_links g"
    and "ruled g T (last_point l')" and "\<And>a. below g a (last_point l) \<Longrightarrow> ruled g T a \<Longrightarrow> below g a (last_point l')"
    and "settled N g c T (commit_point l')"
  shows "held N g c T X j l'"
proof -
  note l = lawfulD[OF assms(1)] and h = heldD[OF assms(2)]
  have "below g (t_trunk g) (last_point l')" using rootedD(1)[OF h(3)] ruled_trunk[OF l(2) assms(3)] by (rule assms(7))
  then have "rooted g (led c) (last_point l')" by (rule ruled_rooted [OF l(1,2) assms(3,6)])
  moreover have "snd (last_point l') \<le> T" by (rule ruled_term [OF l(1,2) assms(3,6)])
  moreover have "dutiful g (led c) T X j (last_point l')"
    unfolding dutiful_def
  proof (intro allI impI conjI)
    fix t n assume v: "vouched X j t n"
    note d = dutifulD[OF h(5) v]
    show "t \<le> T" by (rule d(1))
    fix a assume a: "fst a \<le> n \<and> (t = T \<and> ruled g t a \<or> own g t a \<and> (\<forall>u\<in>led c. t < u \<and> u \<le> T \<longrightarrow> below g a (t_start g u)))"
    then have "below g a (last_point l)" using h(5) v unfolding dutiful_def by blast
    moreover have "ruled g T a"
      using a d(1) assms(3) ruled_own ruled_start by (metis order_le_less)
    ultimately show "below g a (last_point l')" by (rule assms(7))
  qed
  ultimately show ?thesis using assms(4,5,8) by (simp add: held_def)
qed


section \<open>Messages\<close>

definition offered :: "cluster \<Rightarrow> u64 \<Rightarrow> nat \<Rightarrow> bool" where
  "offered c T n \<longleftrightarrow> (\<exists>z\<in>cl_net c. offers z \<and> m_term z = T \<and> n \<le> fst (reach z))"

text \<open>
  Leaders offer points of their logs and send safe positions; acknowledgements are of what a leader
  offered, or of what it started with; a candidate's request tells where its log ends.
\<close>

definition mail :: "u64 set \<Rightarrow> tree \<Rightarrow> cluster \<Rightarrow> message \<Rightarrow> bool" where
  "mail N g c x \<longleftrightarrow>
     (offers x \<longrightarrow> (m_term x, m_from x) \<in> cl_elected c \<and> ruled g (m_term x) (reach x) \<and> safe N g c (m_term x) (unat (commit_offer x)))
     \<and> (m_type x = MsgHeartbeat \<longrightarrow> m_term x \<in> led c \<and> safe N g c (m_term x) (unat (m_commit x))
          \<and> (m_commit x = 0 \<or> (\<exists>n. vouched (cl_net c) (m_to x) (m_term x) n \<and> unat (m_commit x) \<le> n)))
     \<and> (accepts x \<longrightarrow> m_term x \<in> led c \<and> (\<exists>y. ruled g (m_term x) y \<and> fst y = unat (m_index x))
          \<and> (unat (m_index x) \<le> fst (t_start g (m_term x)) \<or> offered c (m_term x) (unat (m_index x))))
     \<and> (m_type x = MsgVote \<longrightarrow> m_term x \<noteq> 0
          \<and> (r_state (cl_nodes c (m_from x)) = Candidate \<and> r_term (cl_nodes c (m_from x)) = m_term x
              \<longrightarrow> from_point x = last_point (r_log (cl_nodes c (m_from x)))))"

lemma mailD:
  assumes "mail N g c x"
  shows "offers x \<Longrightarrow> (m_term x, m_from x) \<in> cl_elected c \<and> ruled g (m_term x) (reach x) \<and> safe N g c (m_term x) (unat (commit_offer x))"
    and "m_type x = MsgHeartbeat \<Longrightarrow> m_term x \<in> led c \<and> safe N g c (m_term x) (unat (m_commit x))
          \<and> (m_commit x = 0 \<or> (\<exists>n. vouched (cl_net c) (m_to x) (m_term x) n \<and> unat (m_commit x) \<le> n))"
    and "accepts x \<Longrightarrow> m_term x \<in> led c \<and> (\<exists>y. ruled g (m_term x) y \<and> fst y = unat (m_index x))
          \<and> (unat (m_index x) \<le> fst (t_start g (m_term x)) \<or> offered c (m_term x) (unat (m_index x)))"
    and "m_type x = MsgVote \<Longrightarrow> m_term x \<noteq> 0"
    and "m_type x = MsgVote \<Longrightarrow> r_state (cl_nodes c (m_from x)) = Candidate \<Longrightarrow> r_term (cl_nodes c (m_from x)) = m_term x
          \<Longrightarrow> from_point x = last_point (r_log (cl_nodes c (m_from x)))"
  using assms unfolding mail_def by blast+

lemma offered_grows: "offered c T n \<Longrightarrow> grows c c' \<Longrightarrow> offered c' T n"
  unfolding offered_def grows_def by blast

lemma mail_grows:
  assumes "mail N g c x" and "grows c c'"
    and "m_type x = MsgVote \<Longrightarrow> r_state (cl_nodes c' (m_from x)) = Candidate \<Longrightarrow> r_term (cl_nodes c' (m_from x)) = m_term x
      \<Longrightarrow> r_state (cl_nodes c (m_from x)) = Candidate \<and> r_term (cl_nodes c (m_from x)) = m_term x
        \<and> last_point (r_log (cl_nodes c' (m_from x))) = last_point (r_log (cl_nodes c (m_from x)))"
  shows "mail N g c' x"
  unfolding mail_def
proof (intro conjI impI, goal_cases)
  case 1 then show ?case using mailD(1)[OF assms(1)] assms(2) by (auto simp: grows_def)
next
  case 2 then show ?case using mailD(1)[OF assms(1)] by simp
next
  case 3 then show ?case using mailD(1)[OF assms(1)] safe_grows[OF _ assms(2)] by simp
next
  case 4 then show ?case using mailD(2)[OF assms(1)] grows_led[OF assms(2)] by blast
next
  case 5 then show ?case using mailD(2)[OF assms(1)] safe_grows[OF _ assms(2)] by simp
next
  case 6 then show ?case using mailD(2)[OF assms(1)] vouched_mono assms(2) unfolding grows_def by blast
next
  case 7 then show ?case using mailD(3)[OF assms(1)] grows_led[OF assms(2)] by blast
next
  case 8 then show ?case using mailD(3)[OF assms(1)] by simp
next
  case 9 then show ?case using mailD(3)[OF assms(1)] offered_grows[OF _ assms(2)] by blast
next
  case 10 then show ?case using mailD(4)[OF assms(1)] by simp
next
  case 11 then show ?case using mailD(5)[OF assms(1)] assms(3) by simp
qed

text \<open>What is vouched for is a position of the leader's log, at which it started or that it offered.\<close>

lemma vouched_by:
  assumes "\<forall>x\<in>X. mail N g c x" and "vouched X j t n" and "X = cl_net c"
  shows "t \<in> led c" and "\<exists>y. ruled g t y \<and> fst y = n" and "n \<le> fst (t_start g t) \<or> offered c t n"
proof -
  obtain x where x: "x \<in> cl_net c" "m_term x = t" "accepts x \<and> n = unat (m_index x) \<or> offers x \<and> n = fst (reach x)"
    using assms(2,3) unfolding vouched_def by blast
  have m: "mail N g c x" using assms(1,3) x(1) by simp
  have "t \<in> led c \<and> (\<exists>y. ruled g t y \<and> fst y = n) \<and> (n \<le> fst (t_start g t) \<or> offered c t n)"
    using x(3)
  proof (elim disjE conjE)
    assume "accepts x" "n = unat (m_index x)"
    then show ?thesis using mailD(3)[OF m] x(2) by simp
  next
    assume o: "offers x" "n = fst (reach x)"
    then have "offered c t n" using x(1,2) unfolding offered_def by blast
    moreover have "t \<in> led c" using mailD(1)[OF m o(1)] x(2) by force
    moreover have "ruled g t (reach x)" using mailD(1)[OF m o(1)] x(2) by simp
    ultimately show ?thesis using o(2) by blast
  qed
  then show "t \<in> led c" "\<exists>y. ruled g t y \<and> fst y = n" "n \<le> fst (t_start g t) \<or> offered c t n" by simp_all
qed

lemma own_above:
  assumes "lawful N g c" and "own g t a" and "t \<in> led c"
  shows "fst (t_start g t) < fst a"
proof (rule ccontr)
  assume "\<not> fst (t_start g t) < fst a"
  moreover have "below g (t_start g t) a" by (rule start_below [OF lawfulD(1) [OF assms(1)] assms(2) lawfulD(4) [OF assms(1,3)]])
  ultimately have "t_start g t = a" using anc_eq by simp
  then show False using sproutedD(2)[OF lawfulD(2) [OF assms(1)] assms(3)] assms(2) by (simp add: own_def)
qed

lemma offered_down: "offered c t n \<Longrightarrow> k \<le> n \<Longrightarrow> offered c t k"
  unfolding offered_def using order_trans by blast

lemma settled_offered:
  assumes "lawful N g c" and "settled N g c T a" and "T \<in> led c" and "\<forall>x\<in>cl_net c. mail N g c x"
  shows "fst a \<le> fst (t_start g T) \<or> offered c T (fst a)"
  using assms(2) unfolding settled_def
proof (elim disjE exE conjE)
  assume "below g a (t_trunk g)"
  then have "below g a (t_start g T)" using lawfulD(5)[OF assms(1,3)] anc_trans by blast
  then show ?thesis using anc_le by blast
next
  fix u b assume u: "u \<le> T" "chosen N g c u b" "below g a b"
  show ?thesis
  proof (cases "u = T")
    case True
    obtain W where W: "card N div 2 + 1 \<le> card W" "\<forall>j\<in>W. \<exists>n. vouched (cl_net c) j T n \<and> fst b \<le> n"
      using u(2) True unfolding chosen_def by blast
    have "W \<noteq> {}" using W(1) by auto
    then obtain j n where n: "vouched (cl_net c) j T n" "fst b \<le> n" using W(2) by blast
    have "own g T b" using u(2) True by (simp add: chosen_def)
    then have "\<not> n \<le> fst (t_start g T)" using own_above[OF assms(1) _ assms(3)] n(2) by fastforce
    then have "offered c T n" using vouched_by(3)[OF assms(4) n(1) refl] by blast
    moreover have "fst a \<le> n" using anc_le[OF u(3)] n(2) by simp
    ultimately show ?thesis using offered_down by blast
  next
    case False
    then have "below g b (t_start g T)" using u(1) by (intro chosen_start [OF assms(1) u(2) assms(3)]) simp
    then show ?thesis using u(3) anc_le anc_trans by blast
  qed
qed

section \<open>A follower\<close>

definition snap_ok :: "tree \<Rightarrow> raft_log \<Rightarrow> bool" where
  "snap_ok g l \<longleftrightarrow> s_index (log_snap l) = 0 \<or> below g (snap_point (log_snap l)) (commit_point l)"

lemma commit_on_path: "wf_log l \<Longrightarrow> log_links l \<subseteq> t_links g \<Longrightarrow> below g (commit_point l) (last_point l)"
  by (intro log_on_path wf_logD(4,5))

lemma held_view:
  assumes "held N g c T X j l" and "wf_log l'" and "log_view l' = log_view l" and "settled N g c T (commit_point l')"
  shows "held N g c T X j l'"
  using assms view_points[OF assms(3)] log_view_links[OF assms(3)] by (auto simp: held_def)

lemma rewritten_keeps:
  assumes "grown g" and "t_bound g < T" and "rewritten m l l'" and "wf_log l" and "wf_log l'" and "log_links l \<subseteq> t_links g"
    and "log_links l' \<subseteq> t_links g" and "ruled g T (reach m)" and "below g a (last_point l)" and "ruled g T a"
  shows "below g a (last_point l')"
proof (rule ccontr)
  assume n: "\<not> below g a (last_point l')"
  obtain p where p: "last_point l' = reach m" "log_base l \<le> p" "log_base l' \<le> p" "p \<le> log_last l'"
      "p \<le> log_last l \<longrightarrow> point_at l p \<noteq> point_at l' p"
    using assms(3) by (auto simp: rewritten_def)
  have lt: "\<not> fst a \<le> fst (reach m)" using ruled_line[OF assms(1,2,10,8)] n p(1) by auto
  then have "below g (reach m) a" by (intro ruled_line [OF assms(1,2,8,10)]) simp
  then have b: "below g (last_point l') (last_point l)" using assms(9) p(1) anc_trans by metis
  have "below g (point_at l' p) (last_point l')" by (rule log_on_path [OF assms(5,7) p(3,4)])
  then have "below g (point_at l' p) (last_point l)" using b anc_trans by blast
  then have "point_at l' p = point_at l p" using log_holds[OF grownD(1) [OF assms(1)] assms(4,6), of "point_at l' p"] p(2) by simp
  moreover have "p \<le> log_last l" using p(4) anc_le[OF b] by simp
  ultimately show False using p(5) by simp
qed

text \<open>A message that a node takes: one of the network that is addressed to it, or one of its own.\<close>

definition incoming :: "cluster \<Rightarrow> u64 \<Rightarrow> message \<Rightarrow> bool" where
  "incoming c i m \<longleftrightarrow> (m \<in> cl_net c \<and> m_to m = i \<and> wf_msg m) \<or> inner m"

lemma follows_commit:
  assumes "lawful N g c" and "held N g c T X i l" and "follows m l l'" and "m_term m = T" and "incoming c i m"
    and "\<forall>x\<in>cl_net c. mail N g c x" and "cl_net c \<subseteq> X" and "log_links l' \<subseteq> t_links g"
  shows "held N g c T X i l'"
proof -
  note lw = lawfulD[OF assms(1)] and h = heldD[OF assms(2)]
  have w': "wf_log l'" and le: "l_committed l \<le> l_committed l'" using assms(3) by (simp_all add: follows_def)
  show ?thesis
  proof (cases "m_type m = MsgApp \<or> m_type m = MsgSnap")
    case True
    then have m: "m \<in> cl_net c" "offers m" using assms(5) by (auto simp: incoming_def inner_def offers_def)
    then have ml: "T \<in> led c" "ruled g T (reach m)" "safe N g c T (unat (commit_offer m))"
      using mailD(1)[of N g c m] assms(4,6) by force+
    have keep: "below g a (last_point l')" if "below g a (last_point l)" "ruled g T a" for a
      using assms(3) rewritten_keeps[OF lw(1) lw(4) [OF ml(1)] _ h(1) w' h(2) assms(8) ml(2) that] that(1) view_points[of l' l]
      by (auto simp: follows_def)
    have st: "settled N g c T (commit_point l')"
    proof (cases "l_committed l' = l_committed l")
      case True
      have "below g (commit_point l) (last_point l')"
        by (rule keep [OF commit_on_path [OF h(1,2)] settled_ruled [OF assms(1) h(6) ml(1)]])
      then have "commit_point l = point_at l' (unat (l_committed l))"
        using log_holds[OF lw(3) w' assms(8), of "commit_point l"] wf_logD(4)[OF w'] True by simp
      then show ?thesis using h(6) True by simp
    next
      case False
      then have c: "holds l' (reach m)" "l_committed l' \<le> commit_offer m" "unat (l_committed l') \<le> fst (reach m)"
        using assms(3) True by (auto simp: follows_def)
      have "below g (commit_point l') (point_at l' (fst (reach m)))"
        using c(1,3) wf_logD(4)[OF w'] by (intro log_path [OF w' assms(8)]) (simp_all add: holds_def)
      then have "ruled g T (commit_point l')" using c(1) ml(2) ruled_down by (auto simp: holds_def)
      then show ?thesis using c(2) by (intro safeD [OF ml(3)]) (simp_all add: word_le_nat_alt)
    qed
    have "log_view l' = log_view l \<or> rewritten m l l'" using assms(3) by (auto simp: follows_def)
    then show ?thesis
    proof
      assume "log_view l' = log_view l"
      then show ?thesis by (rule held_view [OF assms(2) w' _ st])
    next
      assume "rewritten m l l'"
      then have "ruled g T (last_point l')" using ml(2) by (simp add: rewritten_def)
      then show ?thesis by (rule held_changed [OF assms(1,2) ml(1) w' assms(8) _ keep st])
    qed
  next
    case False
    then have v: "log_view l' = log_view l" using assms(3) by (auto simp: follows_def)
    note vp = view_points[OF v]
    have "settled N g c T (commit_point l')"
    proof (cases "l_committed l' = l_committed l")
      case True
      then show ?thesis using h(6) vp by simp
    next
      case n: False
      then have hb: "m_type m = MsgHeartbeat" "l_committed l' = m_commit m" using assms(3) False by (auto simp: follows_def)
      then have m: "m \<in> cl_net c" "m_to m = i" using assms(5) by (auto simp: incoming_def inner_def)
      have "m_commit m \<noteq> 0" using n le hb(2) by auto
      then obtain n where mm: "T \<in> led c" "safe N g c T (unat (m_commit m))" "vouched (cl_net c) i T n" "unat (m_commit m) \<le> n"
        using mailD(2)[of N g c m] assms(4,6) m hb(1) by blast
      obtain y where y: "ruled g T y" "fst y = n" using vouched_by(2)[OF assms(6) mm(3) refl] by blast
      have "below g y (last_point l)" using dutifulD(2)[OF h(5) vouched_mono [OF mm(3) assms(7)]] y by simp
      moreover have "below g (commit_point l') (last_point l)" using commit_on_path[OF w' assms(8)] vp by simp
      ultimately have "below g (commit_point l') y" using anc_linear[OF lw(3), of "commit_point l'" "last_point l" y] y(2) mm(4) hb(2) by simp
      then have "ruled g T (commit_point l')" using y(1) ruled_down by blast
      then show ?thesis using hb(2) by (intro safeD [OF mm(2)]) simp_all
    qed
    then show ?thesis by (rule held_view [OF assms(2) w' v])
  qed
qed

lemma follows_snap:
  assumes "lawful N g c" and "settled N g c T (commit_point l)" and "settled N g c T (commit_point l')" and "follows m l l'"
    and "snap_ok g l"
  shows "snap_ok g l'"
proof -
  have "unat (l_committed l) \<le> unat (l_committed l')" using assms(4) by (simp add: follows_def word_le_nat_alt)
  then have up: "below g (commit_point l) (commit_point l')" using settled_line[OF assms(1-3)] by simp
  from assms(4) consider "log_snap l' = log_snap l"
    | "m_type m = MsgSnap" "log_snap l' = m_snapshot m" "holds l' (reach m)" "unat (l_committed l') = fst (reach m)"
    by (auto simp: follows_def)
  then show ?thesis
  proof cases
    case 1
    then show ?thesis using assms(5) up anc_trans unfolding snap_ok_def by metis
  next
    case 2
    then show ?thesis by (simp add: snap_ok_def holds_def reach_def)
  qed
qed


section \<open>Answers\<close>

definition matches_ok :: "cluster \<Rightarrow> u64 \<Rightarrow> u64 \<Rightarrow> raft \<Rightarrow> bool" where
  "matches_ok c i T r \<longleftrightarrow> (\<forall>j p. get_progress r j = Some p \<longrightarrow>
     j = i \<or> pr_match p = 0 \<or> vouched (cl_net c) j T (unat (pr_match p)))"

lemma recalls_matches:
  assumes "recalls r s" and "matches_ok c i (r_term r) r" and "r_id r = i"
  shows "matches_ok c i (r_term s) s"
  unfolding matches_ok_def
proof (intro allI impI)
  fix j p assume "get_progress s j = Some p"
  then show "j = i \<or> pr_match p = 0 \<or> vouched (cl_net c) j (r_term s) (unat (pr_match p))"
    using assms unfolding recalls_def matches_ok_def by metis
qed

lemma matches_grows: "matches_ok c i T r \<Longrightarrow> grows c c' \<Longrightarrow> matches_ok c' i T r"
  unfolding matches_ok_def grows_def using vouched_mono by blast

text \<open>What a message vouches for lies below \<open>p\<close> if it is on the path of the leader.\<close>

definition honest :: "tree \<Rightarrow> u64 \<Rightarrow> point \<Rightarrow> message \<Rightarrow> bool" where
  "honest g T p x \<longleftrightarrow> (accepts x \<longrightarrow> m_term x = T \<and> (\<forall>a. ruled g T a \<and> fst a \<le> unat (m_index x) \<longrightarrow> below g a p))
     \<and> (offers x \<longrightarrow> m_term x = T \<and> (\<forall>a. ruled g T a \<and> fst a \<le> fst (reach x) \<longrightarrow> below g a p))"

lemma answers_follows:
  assumes "lawful N g c" and "held N g c T X i (r_log s)" and "answers m s r'" and "r_term s = T" and "incoming c i m"
    and "\<forall>x\<in>cl_net c. mail N g c x" and "cl_net c \<subseteq> X" and "log_links (r_log r') \<subseteq> t_links g" and "snap_ok g (r_log s)"
  shows "held N g c T X i (r_log r')" and "snap_ok g (r_log r')"
proof -
  have "r_log r' = r_log s \<or> (m_term m = T \<and> follows m (r_log s) (r_log r'))" using assms(3,4) by (auto simp: answers_def)
  then have "held N g c T X i (r_log r') \<and> snap_ok g (r_log r')"
  proof (elim disjE conjE)
    assume f: "m_term m = T" "follows m (r_log s) (r_log r')"
    note h = follows_commit[OF assms(1,2) f(2,1) assms(5-8)]
    show ?thesis using h follows_snap[OF assms(1) heldD(6) [OF assms(2)] heldD(6) [OF h] f(2) assms(9)] by simp
  qed (use assms(2,9) in simp)
  then show "held N g c T X i (r_log r')" "snap_ok g (r_log r')" by simp_all
qed

lemma accepts_honest:
  assumes "lawful N g c" and "held N g c T X i (r_log r')" and "held N g c T X i (r_log s)" and "r_term s = T" and "incoming c i m"
    and "\<forall>x\<in>cl_net c. mail N g c x" and "replies m s r' x" and "accepts x"
  shows "honest g T (last_point (r_log r')) x" and "mail N g c x"
proof -
  note lw = lawfulD[OF assms(1)] and h = heldD[OF assms(2)]
  let ?n = "unat (m_index x)"
  have x: "m_type x = MsgAppResp" "m_type m = MsgApp" "m_term m = T" "m_term x = T"
    "(r_log r' = r_log s \<and> m_index x = l_committed (r_log s)) \<or> (holds (r_log r') (reach m) \<and> ?n = fst (reach m))"
    using assms(4,7,8) by (auto simp: replies_def accepts_def)
  have m: "m \<in> cl_net c" "offers m" using assms(5) x(2) by (auto simp: incoming_def inner_def offers_def)
  then have ml: "T \<in> led c" "ruled g T (reach m)" using mailD(1)[of N g c m] assms(6) x(3) by force+
  have "\<exists>y. ruled g T y \<and> fst y = ?n \<and> below g y (last_point (r_log r')) \<and> (?n \<le> fst (t_start g T) \<or> offered c T ?n)"
    using x(5)
  proof (elim disjE conjE)
    assume e: "r_log r' = r_log s" "m_index x = l_committed (r_log s)"
    have "ruled g T (commit_point (r_log r'))" "below g (commit_point (r_log r')) (last_point (r_log r'))"
      using settled_ruled[OF assms(1) h(6) ml(1)] commit_on_path[OF h(1,2)] by simp_all
    then show ?thesis using settled_offered[OF assms(1) h(6) ml(1) assms(6)] e by (intro exI [of _ "commit_point (r_log r')"]) simp
  next
    assume e: "holds (r_log r') (reach m)" "?n = fst (reach m)"
    have "below g (point_at (r_log r') (fst (reach m))) (last_point (r_log r'))"
      using e(1) by (intro log_on_path [OF h(1,2)]) (simp_all add: holds_def)
    then have "below g (reach m) (last_point (r_log r'))" using e(1) by (simp add: holds_def)
    moreover have "offered c T ?n" unfolding offered_def using m x(3) e(2) by (intro bexI [of _ m]) simp_all
    ultimately show ?thesis using ml(2) e(2) by metis
  qed
  then obtain y where y: "ruled g T y" "fst y = ?n" "below g y (last_point (r_log r'))" "?n \<le> fst (t_start g T) \<or> offered c T ?n"
    by blast
  have "below g a (last_point (r_log r'))" if "ruled g T a" "fst a \<le> ?n" for a
    using ruled_line[OF lw(1) lw(4) [OF ml(1)] that(1) y(1)] that(2) y(2,3) anc_trans by metis
  moreover have no: "\<not> offers x" "m_type x \<noteq> MsgHeartbeat" "m_type x \<noteq> MsgVote" using x(1) by (auto simp: offers_def)
  ultimately show "honest g T (last_point (r_log r')) x" using x(4) by (simp add: honest_def)
  have "\<exists>y. ruled g T y \<and> fst y = ?n" using y(1,2) by blast
  then show "mail N g c x" unfolding mail_def using no x(4) y(4) ml(1) by simp
qed

lemma replies_mail:
  assumes "lawful N g c" and "held N g c T X i (r_log r')" and "held N g c T X i (r_log s)" and "r_term s = T" and "incoming c i m"
    and "\<forall>x\<in>cl_net c. mail N g c x" and "replies m s r' x" and "m_from x = i" and "cl_nodes c i = r'"
  shows "honest g T (last_point (r_log r')) x \<and> mail N g c x"
proof (cases "accepts x")
  case True
  then show ?thesis using accepts_honest[OF assms(1-7)] by simp
next
  case False
  then have "\<not> offers x" "m_type x \<noteq> MsgHeartbeat" using assms(7) by (auto simp: replies_def offers_def)
  then show ?thesis using False assms(7-9) by (auto simp: honest_def mail_def replies_def)
qed

section \<open>A leader\<close>

lemma offered_vouched:
  assumes "offered c T n" and "\<forall>x\<in>cl_net c. mail N g c x" and "\<forall>k. (T, k) \<in> cl_elected c \<longrightarrow> k = i"
  shows "\<exists>k. vouched (cl_net c) i T k \<and> n \<le> k"
proof -
  obtain z where z: "z \<in> cl_net c" "offers z" "m_term z = T" "n \<le> fst (reach z)" using assms(1) unfolding offered_def by blast
  then have "m_from z = i" using mailD(1)[of N g c z] assms(2,3) by blast
  then show ?thesis using z unfolding vouched_def by blast
qed

lemma knows_vouched:
  assumes "knows (confirms m s) s j n" and "matches_ok c i T s" and "r_id s = i" and "r_term s = T" and "incoming c i m"
    and "\<forall>x\<in>cl_net c. mail N g c x" and "lawful N g c"
  shows "j = i \<or> n = 0 \<or> vouched (cl_net c) j T (unat n)"
proof -
  have "vouched (cl_net c) j T (unat n)" if "confirms m s j n" "n \<noteq> 0"
  proof -
    have a: "accepts m" "m_from m = j" "m_index m = n" "m_term m = 0 \<or> m_term m = T"
      using that assms(4) by (auto simp: confirms_def accepts_def)
    then have m: "m \<in> cl_net c" using assms(5) by (auto simp: incoming_def inner_def accepts_def)
    then have "m_term m \<in> led c" using mailD(3)[OF _ a(1)] assms(6) by blast
    then have "t_bound g < m_term m" by (rule lawfulD(4) [OF assms(7)])
    then have "m_term m = T" using a(4) by auto
    then show ?thesis using a(1-3) m unfolding vouched_def by blast
  qed
  then show ?thesis using assms(1-3) unfolding knows_def matches_ok_def by metis
qed

lemma backed_chosen:
  assumes "backed_by (confirms m s) s k" and "matches_ok c i T s" and "r_id s = i" and "r_term s = T" and "incoming c i m"
    and "\<forall>x\<in>cl_net c. mail N g c x" and "lawful N g c" and "voters s = N" and "2 \<le> card N" and "own g T (unat k, T)"
    and "T \<in> led c" and "\<forall>k. (T, k) \<in> cl_elected c \<longrightarrow> k = i"
  shows "chosen N g c T (unat k, T)"
proof -
  obtain W where W: "W \<subseteq> N" "card N div 2 + 1 \<le> card W" "\<forall>j\<in>W. \<exists>n. knows (confirms m s) s j n \<and> k \<le> n"
    using assms(1,8) unfolding backed_by_def by blast
  have above: "fst (t_start g T) < unat k" using own_above[OF assms(7,10,11)] by simp
  have v: "\<exists>n. vouched (cl_net c) j T n \<and> unat k \<le> n" if j: "j \<in> W" "j \<noteq> i" for j
  proof -
    obtain n where n: "knows (confirms m s) s j n" "k \<le> n" using W(3) j(1) by blast
    have le: "unat k \<le> unat n" using n(2) by (simp add: word_le_nat_alt)
    then have "n \<noteq> 0" using above by auto
    then show ?thesis using knows_vouched[OF n(1) assms(2-7)] j(2) le by blast
  qed
  have "\<not> W \<subseteq> {i}" using W(2) assms(9) card_mono[of "{i}" W] by auto
  then obtain j where j: "j \<in> W" "j \<noteq> i" by blast
  obtain n where n: "vouched (cl_net c) j T n" "unat k \<le> n" using v[OF j] by blast
  have "offered c T n" using vouched_by(3)[OF assms(6) n(1) refl] n(2) above by linarith
  then have "\<exists>n. vouched (cl_net c) i T n \<and> unat k \<le> n"
    using offered_vouched[OF _ assms(6,12)] n(2) order_trans by blast
  then have "\<forall>j\<in>W. \<exists>n. vouched (cl_net c) j T n \<and> unat k \<le> n" using v by blast
  then show ?thesis using W(1,2) assms(10,11) unfolding chosen_def by auto
qed

lemma leader_keeps:
  assumes "lawful N g c" and "held N g c T X i (r_log s)" and "tends (confirms m s) s r'" and "r_term s = T" and "incoming c i m"
    and "\<forall>x\<in>cl_net c. mail N g c x" and "log_links (r_log r') \<subseteq> t_links g" and "snap_ok g (r_log s)"
    and "sound s" and "voters s = N" and "2 \<le> card N" and "r_id s = i" and "matches_ok c i T s"
    and "T \<in> led c" and "\<forall>k. (T, k) \<in> cl_elected c \<longrightarrow> k = i" and "ruled g T (last_point (r_log s))"
  shows "held N g c T X i (r_log r')" and "snap_ok g (r_log r')" and "matches_ok c i T r'"
    and "ruled g T (last_point (r_log r'))"
proof -
  let ?l = "r_log s" and ?l' = "r_log r'"
  note lw = lawfulD[OF assms(1)] and h = heldD[OF assms(2)] and t = tendsD[OF assms(3,9)]
  have g: "grew T ?l ?l'" using t(4) assms(4) by simp
  then have w': "wf_log ?l'" and b: "log_base ?l' = log_base ?l" by (simp_all add: grew_def)
  have up: "below g (point_at ?l k) (point_at ?l' n)" if "log_base ?l \<le> k" "k \<le> log_last ?l" "k \<le> n" "n \<le> log_last ?l'" for k n
    using log_path[OF w' assms(7), of k n] grew_point[OF g that(2)] that b by simp
  have last: "below g (last_point ?l) (last_point ?l')" by (rule up) (use grew_last[OF g] in \<open>simp_all add: log_last_def\<close>)
  show r: "ruled g T (last_point ?l')"
  proof (cases "log_last ?l < log_last ?l'")
    case True
    then have "own g T (last_point ?l')"
      using grew_made[OF h(1) g True order_refl assms(7)] grew_terms[OF g True] by (simp add: own_def)
    then show ?thesis by (rule ruled_own)
  next
    case False
    then have "last_point ?l' = last_point ?l" using grew_point[OF g, of "log_last ?l"] grew_last[OF g] by simp
    then show ?thesis using assms(16) by simp
  qed
  have "settled N g c T (commit_point ?l')"
  proof (cases "l_committed ?l' = l_committed ?l")
    case True
    then show ?thesis using h(6) grew_point[OF g] wf_logD(5)[OF h(1)] by simp
  next
    case False
    let ?a = "(unat (l_committed ?l'), T)"
    have a: "holds ?l' ?a" "backed_by (confirms m s) s (l_committed ?l')" using t(5) False assms(4) by simp_all
    then have cp: "commit_point ?l' = ?a" by (simp add: holds_def)
    have "ruled g T ?a" using commit_on_path[OF w' assms(7)] cp r ruled_down by metis
    moreover have "\<not> below g ?a (t_start g T)"
      using rooted_terms[OF lw(1,2) sproutedD(3) [OF lw(2) assms(14)], of ?a] sproutedD(2)[OF lw(2) assms(14)]
        lw(4)[OF assms(14)] by auto
    ultimately have "own g T ?a" using ruled_cases[OF lw(1) lw(4) [OF assms(14)]] by blast
    then have "chosen N g c T ?a" by (rule backed_chosen [OF a(2) assms(13,12,4,5,6,1,10,11) _ assms(14,15)])
    then show ?thesis unfolding settled_def cp by (intro disjI2 exI [of _ T] exI [of _ ?a]) simp
  qed
  then show "held N g c T X i ?l'"
    using held_changed[OF assms(1,2,14) w' assms(7) r _] last anc_trans by blast
  have "below g (commit_point ?l) (commit_point ?l')"
    using g wf_logD(4,5)[OF h(1)] wf_logD(5)[OF w'] by (intro up) (simp_all add: grew_def word_le_nat_alt)
  moreover have "log_snap ?l' = log_snap ?l" using g by (simp add: grew_def)
  ultimately show "snap_ok g ?l'" using assms(8) anc_trans unfolding snap_ok_def by metis
  show "matches_ok c i T r'"
    unfolding matches_ok_def
  proof (intro allI impI)
    fix j p assume "get_progress r' j = Some p"
    then show "j = i \<or> pr_match p = 0 \<or> vouched (cl_net c) j T (unat (pr_match p))"
      by (rule knows_vouched [OF t(6) assms(13,12,4,5,6,1)])
  qed
qed

lemma leader_mail:
  assumes "lawful N g c" and "held N g c T X i l" and "speaks (confirms m s) s l x" and "r_term s = T" and "incoming c i m"
    and "\<forall>x\<in>cl_net c. mail N g c x" and "snap_ok g l" and "r_id s = i" and "matches_ok c i T s"
    and "(T, i) \<in> cl_elected c" and "ruled g T (last_point l)" and "m_from x = i"
  shows "honest g T (last_point l) x" and "mail N g c x"
proof -
  note lw = lawfulD[OF assms(1)] and h = heldD[OF assms(2)]
  have T: "T \<in> led c" using assms(10) by force
  have on: "ruled g T a \<and> fst a \<le> log_last l" if "holds l a" for a
    using that log_on_path[OF h(1,2), of "fst a"] ruled_down[OF assms(11)] by (auto simp: holds_def)
  note cs = settled_safe[OF assms(1) h(6) T]
  have na: "\<not> accepts x" "m_type x \<noteq> MsgVote" using assms(3) by (auto simp: speaks_def accepts_def)
  have of: "m_term x = T \<and> ruled g T (reach x) \<and> fst (reach x) \<le> log_last l \<and> safe N g c T (unat (commit_offer x))" if o: "offers x"
  proof (cases "m_type x = MsgSnap")
    case False
    then have "m_type x = MsgApp" "wf_msg x" using o by (auto simp: offers_def)
    then show ?thesis using assms(3,4) on[of "reach x"] cs[of "unat (m_commit x)"]
      by (auto simp: speaks_def commit_offer_def word_le_nat_alt)
  next
    case True
    then have s: "m_term x = T" "m_snapshot x = log_snap l" "s_index (log_snap l) \<noteq> 0"
      using assms(3,4) by (auto simp: speaks_def)
    then have b: "below g (reach x) (commit_point l)" using assms(7) True by (simp add: snap_ok_def reach_def)
    have "safe N g c T (fst (reach x))" by (rule settled_safe [OF assms(1) settled_down [OF h(6) b] T]) simp
    moreover have "fst (reach x) = unat (commit_offer x)" using True by (simp add: reach_def snap_point_def commit_offer_def)
    moreover have "ruled g T (reach x)" using settled_ruled[OF assms(1) h(6) T] b ruled_down by blast
    ultimately show ?thesis using s(1) anc_le[OF b] wf_logD(5)[OF h(1)] by simp
  qed
  have "below g a (last_point l)" if "ruled g T a" "fst a \<le> log_last l" for a
    using ruled_line[OF lw(1) lw(4) [OF T] that(1) assms(11)] that(2) by simp
  then show "honest g T (last_point l) x" using na(1) of unfolding honest_def by (meson order_trans)
  have "m_term x = T \<and> safe N g c T (unat (m_commit x))
      \<and> (m_commit x = 0 \<or> (\<exists>n. vouched (cl_net c) (m_to x) T n \<and> unat (m_commit x) \<le> n))" if hb: "m_type x = MsgHeartbeat"
  proof -
    obtain n where n: "m_term x = T" "m_to x \<noteq> i" "m_commit x \<le> l_committed l" "knows (confirms m s) s (m_to x) n" "m_commit x \<le> n"
      using hb assms(3,4,8) by (auto simp: speaks_def)
    have "n = 0 \<or> vouched (cl_net c) (m_to x) T (unat n)" using knows_vouched[OF n(4) assms(9,8,4,5,6,1)] n(2) by blast
    moreover have "n = 0 \<Longrightarrow> m_commit x = 0" using n(5) by simp
    moreover have "unat (m_commit x) \<le> unat n" using n(5) by (simp add: word_le_nat_alt)
    ultimately have "m_commit x = 0 \<or> (\<exists>n. vouched (cl_net c) (m_to x) T n \<and> unat (m_commit x) \<le> n)" by blast
    then show ?thesis using n(1,3) cs[of "unat (m_commit x)"] by (simp add: word_le_nat_alt)
  qed
  then show "mail N g c x" unfolding mail_def using na of T assms(10,12) by auto
qed

end
