(* ===== verification/Raft_Commit.thy ===== *)
theory Raft_Commit
  imports Raft_Chosen
begin

text \<open>
  The invariant of commitment, over the steps of a cluster without membership changes: what nodes have
  vouched for is in their logs and on their disks, what they have committed is settled, the messages
  on their way are true, and every leader was elected by a majority of nodes whose earlier promises
  its log kept.
\<close>

section \<open>The invariant\<close>

definition node_ok :: "u64 set \<Rightarrow> tree \<Rightarrow> cluster \<Rightarrow> u64 \<Rightarrow> bool" where
  "node_ok N g c i \<longleftrightarrow> held N g c (r_term (cl_nodes c i)) (said c i) i (r_log (cl_nodes c i))
     \<and> snap_ok g (r_log (cl_nodes c i)) \<and> matches_ok c i (r_term (cl_nodes c i)) (cl_nodes c i)
     \<and> (r_state (cl_nodes c i) = Candidate \<longrightarrow> snd (last_point (r_log (cl_nodes c i))) < r_term (cl_nodes c i))"

definition disk_ok :: "u64 set \<Rightarrow> tree \<Rightarrow> cluster \<Rightarrow> u64 \<Rightarrow> bool" where
  "disk_ok N g c i \<longleftrightarrow> (\<exists>l. log_view l = cl_disk c i \<and> l_committed l = cl_commit c i
     \<and> held N g c (fst (cl_saved c i)) (cl_net c) i l)"

definition voted :: "tree \<Rightarrow> cluster \<Rightarrow> bool" where
  "voted g c \<longleftrightarrow> (\<forall>j t v. (j, t, v) \<in> cl_cast c \<and> j \<noteq> v \<and> r_state (cl_nodes c v) = Candidate
     \<and> r_term (cl_nodes c v) = t \<and> t \<notin> led c \<longrightarrow> pledged g (led c) (said c j) j t (last_point (r_log (cl_nodes c v))))"

definition commits_inv :: "u64 set \<Rightarrow> tree \<Rightarrow> cluster \<Rightarrow> bool" where
  "commits_inv N g c \<longleftrightarrow> lawful N g c \<and> (\<forall>i\<in>N. node_ok N g c i \<and> disk_ok N g c i \<and> (\<forall>x\<in>said c i. mail N g c x)) \<and> voted g c"

text \<open>The moment \<open>c\<close> of a run whose history is the tree \<open>g\<close>.\<close>

definition within :: "u64 set \<Rightarrow> tree \<Rightarrow> cluster \<Rightarrow> bool" where
  "within N g c \<longleftrightarrow> election_inv N c \<and> 2 \<le> card N \<and> grown g \<and> (\<exists>M \<subseteq> t_links g. charted N (t_bound g) (t_trunk g) M c)"

lemma withinD:
  assumes "within N g c"
  shows "election_inv N c" "2 \<le> card N" "grown g"
    and "i \<in> N \<Longrightarrow> log_links (r_log (cl_nodes c i)) \<subseteq> t_links g"
    and "i \<in> N \<Longrightarrow> wf_raft (cl_nodes c i)" and "i \<in> N \<Longrightarrow> wf_log (r_log (cl_nodes c i))" and "i \<in> N \<Longrightarrow> r_id (cl_nodes c i) = i"
    and "i \<in> N \<Longrightarrow> r_state (cl_nodes c i) = Candidate \<Longrightarrow> (r_term (cl_nodes c i), i) \<notin> cl_elected c"
    and "i \<in> N \<Longrightarrow> r_state (cl_nodes c i) = Leader \<Longrightarrow> voters (cl_nodes c i) = N
           \<and> own g (r_term (cl_nodes c i)) (last_point (r_log (cl_nodes c i))) \<and> t_bound g < r_term (cl_nodes c i)
           \<and> (r_term (cl_nodes c i), i) \<in> cl_elected c"
proof -
  obtain M where M: "M \<subseteq> t_links g" "charted N (t_bound g) (t_trunk g) M c" using assms by (auto simp: within_def)
  show "election_inv N c" "2 \<le> card N" "grown g" using assms by (simp_all add: within_def)
  then show "wf_raft (cl_nodes c i)" "r_id (cl_nodes c i) = i" "wf_log (r_log (cl_nodes c i))" if "i \<in> N"
    using that by (auto simp: election_inv_def nodes_ok_def dest: wf_raftD(1))
  have lk: "linked N M (t_bound g) c" using M(2) by (simp add: charted_def)
  then show "log_links (r_log (cl_nodes c i)) \<subseteq> t_links g" if "i \<in> N" using that M(1) unfolding linked_def traced_def by blast
  show "(r_term (cl_nodes c i), i) \<notin> cl_elected c" if "i \<in> N" "r_state (cl_nodes c i) = Candidate"
    using lk that by (simp add: linked_def stands_ok_def)
  show "voters (cl_nodes c i) = N
           \<and> own g (r_term (cl_nodes c i)) (last_point (r_log (cl_nodes c i))) \<and> t_bound g < r_term (cl_nodes c i)
           \<and> (r_term (cl_nodes c i), i) \<in> cl_elected c" if "i \<in> N" "r_state (cl_nodes c i) = Leader"
  proof -
    have "voters (cl_nodes c i) = N" "last_point (r_log (cl_nodes c i)) \<in> made M"
      "snd (last_point (r_log (cl_nodes c i))) = r_term (cl_nodes c i)"
      using M(2) that by (simp_all add: charted_def)
    moreover from this have "own g (r_term (cl_nodes c i)) (last_point (r_log (cl_nodes c i)))"
      using made_mono[OF M(1)] unfolding own_def by blast
    moreover have "t_bound g < r_term (cl_nodes c i)" using lk that by (simp add: linked_def stands_ok_def)
    ultimately show ?thesis using \<open>election_inv N c\<close> that by (simp add: election_inv_def elected_ok_def)
  qed
qed

lemma commitsD:
  assumes "commits_inv N g c"
  shows "lawful N g c" "voted g c" "i \<in> N \<Longrightarrow> node_ok N g c i" "i \<in> N \<Longrightarrow> disk_ok N g c i"
    "i \<in> N \<Longrightarrow> x \<in> said c i \<Longrightarrow> mail N g c x"
  using assms by (simp_all add: commits_inv_def)

lemma crowned_keeps:
  assumes "crowned N g c t" and "led c \<subseteq> led c'"
    and "\<And>j. j \<in> N \<Longrightarrow> t \<le> r_term (cl_nodes c j) \<Longrightarrow> t \<le> fst (cl_saved c j) \<Longrightarrow> t \<le> r_term (cl_nodes c' j) \<and> t \<le> fst (cl_saved c' j)"
    and "\<And>j u n. j \<in> N \<Longrightarrow> t \<le> r_term (cl_nodes c j) \<Longrightarrow> vouched (said c' j) j u n \<Longrightarrow> u < t \<Longrightarrow> vouched (said c j) j u n"
  shows "crowned N g c' t"
proof -
  obtain Q where Q: "Q \<subseteq> N" "card N div 2 + 1 \<le> card Q"
    "\<forall>j\<in>Q. t \<le> r_term (cl_nodes c j) \<and> t \<le> fst (cl_saved c j) \<and> pledged g (led c) (said c j) j t (t_start g t)"
    using assms(1) unfolding crowned_def by metis
  have "t \<le> r_term (cl_nodes c' j) \<and> t \<le> fst (cl_saved c' j) \<and> pledged g (led c') (said c' j) j t (t_start g t)" if "j \<in> Q" for j
  proof -
    have j: "j \<in> N" "t \<le> r_term (cl_nodes c j)" "t \<le> fst (cl_saved c j)" "pledged g (led c) (said c j) j t (t_start g t)"
      using Q(1,3) that by auto
    show ?thesis using assms(3)[OF j(1-3)] pledged_mono[OF j(4) assms(2) assms(4) [OF j(1,2)]] by blast
  qed
  then show ?thesis using Q(1,2) unfolding crowned_def by metis
qed

section \<open>A node saves or starts again\<close>

lemma saved_commits:
  assumes "within N g c" and "commits_inv N g c" and "i \<in> N"
  shows "commits_inv N g (saved i c)"
proof -
  let ?c = "saved i c"
  note w = withinD[OF assms(1)] and k = commitsD[OF assms(2)]
  have gr: "grows c ?c" and ld: "led ?c = led c" by (simp_all add: grows_def)
  have fr: "m_from x = j" if "j \<in> N" "x \<in> set (r_msgs (cl_nodes c j))" for j x
    using w(1) that by (simp add: election_inv_def msgs_ok_def)
  have sd: "vouched (said ?c j) j t n \<Longrightarrow> vouched (said c j) j t n" for j t n
    using fr[OF assms(3)] by (auto simp: vouched_def said_def split: if_splits)
  have nt: "vouched (cl_net ?c) j t n \<Longrightarrow> vouched (said c j) j t n \<and> (j \<noteq> i \<longrightarrow> vouched (cl_net c) j t n)" for j t n
    using fr[OF assms(3)] by (auto simp: vouched_def said_def)
  have "lawful N g ?c"
    unfolding lawful_def ld
  proof (intro conjI ballI)
    fix t assume "t \<in> led c"
    then have "crowned N g c t" using k(1) unfolding lawful_def by blast
    then show "crowned N g ?c t" by (rule crowned_keeps) (use ld sd in auto)
  qed (use k(1) in \<open>simp_all add: lawful_def\<close>)
  moreover have "node_ok N g ?c j" if "j \<in> N" for j
  proof -
    have n: "node_ok N g c j" by (rule k(3) [OF that])
    have eq: "r_log (cl_nodes ?c j) = r_log (cl_nodes c j)" "r_term (cl_nodes ?c j) = r_term (cl_nodes c j)"
      "r_state (cl_nodes ?c j) = r_state (cl_nodes c j)" by simp_all
    have h: "held N g c (r_term (cl_nodes c j)) (said c j) j (r_log (cl_nodes c j))" using n by (simp add: node_ok_def)
    have "held N g ?c (r_term (cl_nodes c j)) (said ?c j) j (r_log (cl_nodes c j))" by (rule held_mono [OF h gr order_refl sd])
    moreover have "matches_ok ?c j (r_term (cl_nodes c j)) (cl_nodes c j)"
      using n matches_grows[OF _ gr] by (simp add: node_ok_def)
    then have "matches_ok ?c j (r_term (cl_nodes c j)) (cl_nodes ?c j)"
      using get_progress_cong[of "cl_nodes ?c j" "cl_nodes c j"] by (simp add: matches_ok_def)
    ultimately show ?thesis using n unfolding node_ok_def eq by blast
  qed
  moreover have "disk_ok N g ?c j" if jn: "j \<in> N" for j
  proof (cases "j = i")
    case True
    have h: "held N g c (r_term (cl_nodes c i)) (said c i) i (r_log (cl_nodes c i))" using k(3)[OF assms(3)] by (simp add: node_ok_def)
    have "held N g ?c (r_term (cl_nodes c i)) (cl_net ?c) i (r_log (cl_nodes c i))"
      by (rule held_mono [OF h gr order_refl conjunct1 [OF nt]])
    then show ?thesis using True unfolding disk_ok_def by (intro exI [of _ "r_log (cl_nodes c i)"]) simp
  next
    case False
    obtain l where l: "log_view l = cl_disk c j" "l_committed l = cl_commit c j" "held N g c (fst (cl_saved c j)) (cl_net c) j l"
      using k(4)[OF jn] unfolding disk_ok_def by blast
    have "held N g ?c (fst (cl_saved c j)) (cl_net ?c) j l"
      by (rule held_mono [OF l(3) gr order_refl]) (use nt False in blast)
    then show ?thesis using l(1,2) False unfolding disk_ok_def by (intro exI [of _ l]) simp
  qed
  moreover have "mail N g ?c x" if "j \<in> N" "x \<in> said ?c j" for j x
  proof -
    have "x \<in> said c j \<or> x \<in> said c i" using that(2) by (auto simp: said_def split: if_splits)
    then have "mail N g c x" using k(5) that(1) assms(3) by blast
    then show ?thesis by (rule mail_grows [OF _ gr]) (auto split: if_splits)
  qed
  moreover have "voted g ?c"
    unfolding voted_def ld
  proof (intro allI impI, elim conjE)
    fix j t v assume v: "(j, t, v) \<in> cl_cast ?c" "j \<noteq> v" "r_state (cl_nodes ?c v) = Candidate" "r_term (cl_nodes ?c v) = t" "t \<notin> led c"
    have "pledged g (led c) (said c j) j t (last_point (r_log (cl_nodes c v)))"
      using k(2) v unfolding voted_def by (auto split: if_splits)
    then have "pledged g (led c) (said ?c j) j t (last_point (r_log (cl_nodes c v)))"
      by (rule pledged_mono [OF _ order_refl]) (rule sd)
    then show "pledged g (led c) (said ?c j) j t (last_point (r_log (cl_nodes ?c v)))"
      by (cases "v = i") simp_all
  qed
  ultimately show ?thesis by (simp add: commits_inv_def)
qed

lemma restarted_commits:
  assumes "within N g c" and "commits_inv N g c" and "i \<in> N" and "restores c i r" and "wf_raft r"
  shows "commits_inv N g (restarted i r c)"
proof -
  let ?c = "restarted i r c"
  note w = withinD[OF assms(1)] and k = commitsD[OF assms(2)]
  have gr: "grows c ?c" and ld: "led ?c = led c" by (simp_all add: grows_def)
  have r: "r_id r = i" "r_state r = Follower" "r_msgs r = []" "fst (cl_saved c i) = r_term r" "trimmed (cl_disk c i) (log_view (r_log r))"
    "l_committed (r_log r) = cl_commit c i" "\<forall>j p. get_progress r j = Some p \<longrightarrow> j = i \<or> pr_match p = 0"
    "s_index (log_snap (r_log r)) = 0 \<or> snap_point (log_snap (r_log r)) = base_point (r_log r)"
    using assms(4) by (auto simp: restores_def)
  have sd: "said ?c j \<subseteq> said c j" for j using r(3) by (auto simp: said_def)
  have "lawful N g ?c"
    unfolding lawful_def ld
  proof (intro conjI ballI)
    fix t assume "t \<in> led c"
    then have "crowned N g c t" using k(1) unfolding lawful_def by blast
    then show "crowned N g ?c t" by (rule crowned_keeps) (use ld r(4) vouched_mono[OF _ sd] in auto)
  qed (use k(1) in \<open>simp_all add: lawful_def\<close>)
  moreover have "node_ok N g ?c j" if "j \<in> N" for j
  proof (cases "j = i")
    case True
    obtain l where l: "log_view l = cl_disk c i" "l_committed l = cl_commit c i" "held N g c (fst (cl_saved c i)) (cl_net c) i l"
      using k(4)[OF assms(3)] unfolding disk_ok_def by blast
    have wl: "wf_log (r_log r)" using wf_raftD(1)[OF assms(5)] .
    have h: "held N g c (r_term r) (cl_net c) i (r_log r)"
      using held_trimmed(1)[OF l(3) wl] l(1,2) r(4-6) by simp
    have "held N g ?c (r_term r) (said ?c i) i (r_log r)"
      by (rule held_mono [OF h gr order_refl]) (simp add: said_def r(3))
    moreover have "below g (base_point (r_log r)) (commit_point (r_log r))"
      using wf_logD(4,5)[OF wl] by (intro log_path [OF wl heldD(2) [OF h]]) simp_all
    ultimately show ?thesis using True r by (auto simp: node_ok_def snap_ok_def matches_ok_def)
  next
    case False
    have n: "node_ok N g c j" by (rule k(3) [OF that])
    have h: "held N g c (r_term (cl_nodes c j)) (said c j) j (r_log (cl_nodes c j))" using n by (simp add: node_ok_def)
    have "held N g ?c (r_term (cl_nodes c j)) (said ?c j) j (r_log (cl_nodes c j))"
      by (rule held_mono [OF h gr order_refl vouched_mono [OF _ sd]])
    then show ?thesis using n False by (simp add: node_ok_def matches_ok_def)
  qed
  moreover have "disk_ok N g ?c j" if jn: "j \<in> N" for j
  proof -
    obtain l where l: "log_view l = cl_disk c j" "l_committed l = cl_commit c j" "held N g c (fst (cl_saved c j)) (cl_net c) j l"
      using k(4)[OF jn] unfolding disk_ok_def by blast
    have "held N g ?c (fst (cl_saved c j)) (cl_net ?c) j l" by (rule held_mono [OF l(3) gr order_refl]) simp
    then show ?thesis using l(1,2) unfolding disk_ok_def by (intro exI [of _ l]) simp
  qed
  moreover have "mail N g ?c x" if "j \<in> N" "x \<in> said ?c j" for j x
  proof -
    have "mail N g c x" using k(5) that sd by blast
    then show ?thesis by (rule mail_grows [OF _ gr]) (use r(2) in \<open>auto split: if_splits\<close>)
  qed
  moreover have "voted g ?c"
    unfolding voted_def ld
  proof (intro allI impI, elim conjE)
    fix j t v assume v: "(j, t, v) \<in> cl_cast ?c" "j \<noteq> v" "r_state (cl_nodes ?c v) = Candidate" "r_term (cl_nodes ?c v) = t" "t \<notin> led c"
    then have "v \<noteq> i" using r(2) by auto
    moreover have "(j, t, v) \<in> cl_cast c" using v(1) w(1) by (auto simp: election_inv_def kept_ok_def)
    ultimately have "pledged g (led c) (said c j) j t (last_point (r_log (cl_nodes c v)))"
      using k(2) v unfolding voted_def by auto
    then show "pledged g (led c) (said ?c j) j t (last_point (r_log (cl_nodes ?c v)))"
      using pledged_mono[OF _ order_refl vouched_mono [OF _ sd]] \<open>v \<noteq> i\<close> by simp
  qed
  ultimately show ?thesis by (simp add: commits_inv_def)
qed


section \<open>A node moves\<close>

text \<open>What is known of a move of node \<open>i\<close> on the message \<open>m\<close>.\<close>

definition moving :: "u64 set \<Rightarrow> tree \<Rightarrow> cluster \<Rightarrow> u64 \<Rightarrow> message \<Rightarrow> raft \<Rightarrow> bool" where
  "moving N g c i m r' \<longleftrightarrow> within N g c \<and> within N g (moved i r' c) \<and> commits_inv N g c \<and> moves N c i m r' \<and> renews (cl_nodes c i) r'
     \<and> incoming c i m
     \<and> (works (cl_nodes c i) r' \<or> (acts m (cl_nodes c i) r' \<and> (r_state r' = Leader \<longrightarrow> voters (cl_nodes c i) = N)))"

lemma movingD:
  assumes "moving N g c i m r'"
  shows "within N g c" "within N g (moved i r' c)" "commits_inv N g c" "moves N c i m r'" "renews (cl_nodes c i) r'" "incoming c i m"
    "i \<in> N" "r_term (cl_nodes c i) \<le> r_term r'" "effect m (cl_nodes c i) r'" "wf_log (r_log r')"
    "log_links (r_log r') \<subseteq> t_links g" "grows c (moved i r' c)" "cl_nodes (moved i r' c) i = r'" "r_id r' = i"
    "works (cl_nodes c i) r' \<or> (acts m (cl_nodes c i) r' \<and> (r_state r' = Leader \<longrightarrow> voters (cl_nodes c i) = N))"
proof -
  show a: "within N g c" "within N g (moved i r' c)" "commits_inv N g c" "moves N c i m r'" "renews (cl_nodes c i) r'" "incoming c i m"
    "works (cl_nodes c i) r' \<or> (acts m (cl_nodes c i) r' \<and> (r_state r' = Leader \<longrightarrow> voters (cl_nodes c i) = N))"
    using assms by (simp_all add: moving_def)
  then show i: "i \<in> N" "r_term (cl_nodes c i) \<le> r_term r'" "effect m (cl_nodes c i) r'" by (simp_all add: moves_def votes_on_def)
  show "cl_nodes (moved i r' c) i = r'" by simp
  then show "wf_log (r_log r')" "log_links (r_log r') \<subseteq> t_links g" "r_id r' = i" using withinD(4,6,7)[OF a(2) i(1)] by simp_all
  show "grows c (moved i r' c)" by (auto simp: grows_def)
qed

lemma said_moved: "j \<noteq> i \<Longrightarrow> said (moved i r' c) j = said c j"
  by (simp add: said_def)

lemma moving_voters:
  assumes "moving N g c i m r'" and "acts m (cl_nodes c i) r'" and "r_state (cl_nodes c i) = Leader \<or> r_state r' = Leader"
    and "\<not> works (cl_nodes c i) r'"
  shows "voters (cl_nodes c i) = N" and "sound (cl_nodes c i)"
proof -
  note d = movingD[OF assms(1)]
  show v: "voters (cl_nodes c i) = N" using assms(3,4) d(15) withinD(9)[OF d(1) d(7)] by blast
  have "N \<noteq> {}" "card N < 2 ^ 32" using d(7) withinD(1)[OF d(1)] by (auto simp: election_inv_def)
  then show "sound (cl_nodes c i)" using sound_voters[OF withinD(5) [OF d(1,7)] v] by blast
qed

text \<open>The parts of an act: those of a leader, and the answers.\<close>

lemma acts_cases:
  assumes "moving N g c i m r'" and "\<not> works (cl_nodes c i) r'"
  obtains (tend) s where "stage (cl_nodes c i) s" "tends (confirms m s) s r'" "quiet s r'" "r_state s = Leader" "sound s" "voters s = N"
      "r_state (cl_nodes c i) = Leader \<and> r_term s = r_term (cl_nodes c i) \<or> r_state r' = Leader" "r_term s = r_term r'"
    | (answer) s where "stage (cl_nodes c i) s" "answers m s r'" "r_state s = Leader \<longrightarrow> r_state (cl_nodes c i) = Leader"
      "r_term s = r_term r'"
proof -
  note d = movingD[OF assms(1)]
  have a: "acts m (cl_nodes c i) r'" using d(15) assms(2) by blast
  then obtain s where s: "stage (cl_nodes c i) s"
      "(r_state s = Leader \<and> ((r_state (cl_nodes c i) = Leader \<and> r_term s = r_term (cl_nodes c i))
             \<or> (r_state r' = Leader \<and> log_last (r_log (cl_nodes c i)) < log_last (r_log r')))
           \<and> tends (confirms m s) s r' \<and> quiet s r')
         \<or> ((r_state s = Leader \<longrightarrow> r_state (cl_nodes c i) = Leader) \<and> answers m s r')"
    by (auto simp: acts_def)
  from s(2) show ?thesis
  proof (elim disjE [of "r_state s = Leader \<and> _"] conjE)
    assume h: "r_state s = Leader" "(r_state (cl_nodes c i) = Leader \<and> r_term s = r_term (cl_nodes c i))
             \<or> (r_state r' = Leader \<and> log_last (r_log (cl_nodes c i)) < log_last (r_log r'))" "tends (confirms m s) s r'" "quiet s r'"
    have "r_state (cl_nodes c i) = Leader \<or> r_state r' = Leader" using h(2) by blast
    note v = moving_voters[OF assms(1) a this assms(2)]
    have so: "sound s" by (rule sound_cong [OF _ _ v(2)]) (use s(1) v(2) in \<open>simp_all add: stage_def sound_def\<close>)
    have "voters s = N" using s(1) v(1) voters_cong[of s "cl_nodes c i"] by (simp add: stage_def)
    moreover have "(r_state (cl_nodes c i) = Leader \<and> r_term s = r_term (cl_nodes c i)) \<or> r_state r' = Leader" using h(2) by blast
    moreover have "r_term s = r_term r'" using tendsD(2)[OF h(3) so] by simp
    ultimately show ?thesis by (rule tend [OF s(1) h(3,4,1) so])
  next
    assume h: "r_state s = Leader \<longrightarrow> r_state (cl_nodes c i) = Leader" "answers m s r'"
    have "r_term s = r_term r'" using h(2) by (simp add: answers_def)
    then show ?thesis by (rule answer [OF s(1) h(2,1)])
  qed
qed

text \<open>A node vouches in its present term only.\<close>

lemma moved_msgs_term:
  assumes "moving N g c i m r'"
  shows "\<exists>ms. r_msgs r' = r_msgs (cl_nodes c i) @ ms \<and> (\<forall>x\<in>set ms. m_from x = i \<and> (accepts x \<or> offers x \<longrightarrow> m_term x = r_term r'))"
proof -
  note d = movingD[OF assms]
  obtain ms where ms: "r_msgs r' = r_msgs (cl_nodes c i) @ ms" "\<forall>x\<in>set ms. m_from x = i"
    using effectD(2)[OF d(9)] d(14) by (auto simp: ballots_def)
  have "\<forall>x\<in>set ms. accepts x \<or> offers x \<longrightarrow> m_term x = r_term r'"
  proof (cases "works (cl_nodes c i) r'")
    case True
    then show ?thesis using works_frame(7)[OF True] ms(1) by simp
  next
    case False
    from assms False show ?thesis
    proof (cases rule: acts_cases)
      case (tend s)
      obtain ms' where "r_msgs r' = r_msgs s @ ms'" "\<forall>x\<in>set ms'. speaks (confirms m s) s (r_log r') x"
        using tendsD(7)[OF tend(2,5)] by blast
      then have "\<forall>x\<in>set ms. speaks (confirms m s) s (r_log r') x" using ms(1) tend(1) by (simp add: stage_def)
      then show ?thesis using tend(8) by (auto simp: speaks_def accepts_def offers_def)
    next
      case (answer s)
      obtain ms' where "r_msgs r' = r_msgs s @ ms'" "\<forall>x\<in>set ms'. replies m s r' x" using answer(2) by (auto simp: answers_def)
      then have "\<forall>x\<in>set ms. replies m s r' x" using ms(1) answer(1) by (simp add: stage_def)
      then show ?thesis using answer(4) by (auto simp: replies_def accepts_def offers_def)
    qed
  qed
  then show ?thesis using ms by blast
qed

lemma moved_said:
  assumes "moving N g c i m r'" and "vouched (said (moved i r' c) j) j t n"
  shows "vouched (said c j) j t n \<or> (j = i \<and> t = r_term r')"
proof (cases "j = i")
  case True
  obtain ms where ms: "r_msgs r' = r_msgs (cl_nodes c i) @ ms" "\<forall>x\<in>set ms. accepts x \<or> offers x \<longrightarrow> m_term x = r_term r'"
    using moved_msgs_term[OF assms(1)] by blast
  have "said (moved i r' c) i = said c i \<union> set ms" using ms(1) by (auto simp: said_def)
  then show ?thesis using assms(2) True ms(2) unfolding vouched_def by auto
qed (use assms(2) said_moved[of j i r' c] in simp)

section \<open>A new leader\<close>

lemma takes_over:
  assumes "moving N g c i m r'" and "r_state r' = Leader" and "\<not> (r_state (cl_nodes c i) = Leader \<and> r_term r' = r_term (cl_nodes c i))"
  shows "r_state (cl_nodes c i) = Candidate" and "r_term (cl_nodes c i) = r_term r'" and "r_term r' \<notin> led c"
    and "t_start g (r_term r') = last_point (r_log (cl_nodes c i))" and "t_bound g < r_term r'"
proof -
  let ?r = "cl_nodes c i" and ?c = "moved i r' c"
  note d = movingD[OF assms(1)] and w = withinD[OF movingD(1) [OF assms(1)]] and w' = withinD[OF movingD(2) [OF assms(1)]]
  show cand: "r_state ?r = Candidate" and t: "r_term ?r = r_term r'"
    using new_leader[OF w(1) d(4) w(2) assms(2,3)] by simp_all
  show "r_term r' \<notin> led c"
  proof
    assume "r_term r' \<in> led c"
    then obtain k where k: "(r_term r', k) \<in> cl_elected c" by auto
    then have "k = i" using elected_unique[OF w'(1), of "r_term r'" k i] assms(2) by simp
    then show False using k w(8)[OF d(7) cand] t by simp
  qed
  have nw: "\<not> works ?r r'" using works_frame(1)[of ?r r'] cand assms(2) by auto
  then have a: "acts m ?r r'" using d(15) by blast
  have so: "sound ?r" using moving_voters(2)[OF assms(1) a _ nw] assms(2) by blast
  note g = acts_leader[OF a assms(2) so]
  have lt: "log_last (r_log ?r) < log_last (r_log r')" using g(3) cand by auto
  let ?k = "log_last (r_log ?r)"
  show b: "t_bound g < r_term r'" using w'(9)[OF d(7)] d(13) assms(2) by simp
  have e: "(point_at (r_log r') ?k, point_at (r_log r') (?k + 1)) \<in> edges (t_links g)"
    using g(1) lt by (intro log_edge [OF d(10,11)]) (auto simp: grew_def log_last_def)
  have p: "point_at (r_log r') ?k = last_point (r_log ?r)" "snd (point_at (r_log r') (?k + 1)) = r_term r'"
    using grew_point[OF g(1) order_refl] grew_terms[OF g(1), of "?k + 1"] lt by simp_all
  have "snd (last_point (r_log ?r)) < r_term r'"
    using commitsD(3)[OF d(3,7)] cand t by (simp add: node_ok_def)
  then have "\<not> own g (r_term r') (last_point (r_log ?r))" by (auto simp: own_def)
  then show "t_start g (r_term r') = last_point (r_log ?r)"
    using grownD(4)[OF w(3) e] p b by simp
qed

lemma new_crown:
  assumes "moving N g c i m r'" and "r_state r' = Leader" and "\<not> (r_state (cl_nodes c i) = Leader \<and> r_term r' = r_term (cl_nodes c i))"
  shows "crowned N g (moved i r' c) (r_term r')"
proof -
  let ?r = "cl_nodes c i" and ?c = "moved i r' c" and ?t = "r_term r'"
  note d = movingD[OF assms(1)] and w = withinD[OF movingD(1) [OF assms(1)]] and w' = withinD[OF movingD(2) [OF assms(1)]]
  note to = takes_over[OF assms] and k = commitsD[OF d(3)]
  have el: "(?t, i) \<in> cl_elected ?c" using assms(2) by simp
  obtain Q where Q: "Q \<subseteq> N" "card Q = card N div 2 + 1" "\<forall>j\<in>Q. backing ?c ?t i j"
    using w'(1) el unfolding election_inv_def elected_ok_def by blast
  have "\<not> N \<subseteq> {i}" using w(2) card_mono[of "{i}" N] by auto
  then obtain x where "x \<in> N" "x \<noteq> i" by blast
  then have ik: "(i, ?t, i) \<in> cl_kept ?c" using elected_self_kept[OF w'(1) el] by blast
  have "?t \<le> r_term (cl_nodes ?c j) \<and> ?t \<le> fst (cl_saved ?c j) \<and> pledged g (led ?c) (said ?c j) j ?t (t_start g ?t)" if j: "j \<in> Q" for j
  proof -
    have kept: "(j, ?t, i) \<in> cl_kept ?c" using Q(3) j ik by (auto simp: backing_def)
    then have cast: "(j, ?t, i) \<in> cl_cast ?c" using w'(1) by (auto simp: election_inv_def kept_ok_def)
    have "?t \<le> fst (cl_saved ?c j)" using kept w'(1) unfolding election_inv_def kept_ok_def by blast
    moreover have "?t \<le> r_term (cl_nodes ?c j)" using cast w'(1) unfolding election_inv_def cast_ok_def by blast
    moreover have "pledged g (led ?c) (said ?c j) j ?t (last_point (r_log ?r))"
    proof (cases "j = i")
      case False
      have "(j, ?t, i) \<in> cl_cast c" using kept w(1) by (auto simp: election_inv_def kept_ok_def)
      then have "pledged g (led c) (said c j) j ?t (last_point (r_log ?r))"
        using k(2) False to(1-3) unfolding voted_def by blast
      then show ?thesis by (rule pledged_mono [OF _ grows_led [OF d(12)]]) (simp add: said_moved [OF False])
    next
      case True
      have dt: "dutiful g (led c) ?t (said c i) i (last_point (r_log ?r))"
        using k(3)[OF d(7)] to(2) by (simp add: node_ok_def held_def)
      show ?thesis
        unfolding pledged_def True
      proof (intro allI impI, elim conjE)
        fix u n a assume h: "vouched (said ?c i) i u n" "u < ?t" "own g u a" "fst a \<le> n"
          "\<forall>v\<in>led ?c. u < v \<and> v < ?t \<longrightarrow> below g a (t_start g v)"
        then have "vouched (said c i) i u n" using moved_said[OF assms(1) h(1)] by auto
        then show "below g a (last_point (r_log ?r))"
        proof (rule dutifulD(3) [OF dt _ h(4,3)])
          fix v assume v: "v \<in> led c" "u < v" "v \<le> ?t"
          then have "v < ?t" using to(3) by (metis order_le_less)
          then show "below g a (t_start g v)" using h(5) v grows_led[OF d(12)] by blast
        qed
      qed
    qed
    ultimately show ?thesis using to(4) by simp
  qed
  then show ?thesis using Q(1,2) unfolding crowned_def by (metis order_refl)
qed

text \<open>The leaders elected after a move.\<close>

lemma moved_lawful:
  assumes "moving N g c i m r'"
  shows "lawful N g (moved i r' c)"
proof -
  let ?c = "moved i r' c"
  note d = movingD[OF assms] and k = commitsD[OF movingD(3) [OF assms]] and lw = lawfulD[OF commitsD(1) [OF movingD(3) [OF assms]]]
  have old: "crowned N g ?c t" if t: "t \<in> led c" for t
  proof -
    have "crowned N g c t" using k(1) t unfolding lawful_def by blast
    then show ?thesis
    proof (rule crowned_keeps [OF _ grows_led [OF d(12)]])
      fix j show "t \<le> r_term (cl_nodes c j) \<Longrightarrow> t \<le> fst (cl_saved c j) \<Longrightarrow> t \<le> r_term (cl_nodes ?c j) \<and> t \<le> fst (cl_saved ?c j)"
        using d(8) by (cases "j = i") auto
      fix u n assume h: "t \<le> r_term (cl_nodes c j)" "vouched (said ?c j) j u n" "u < t"
      show "vouched (said c j) j u n" using moved_said[OF assms h(2)] h(1,3) d(8) by auto
    qed
  qed
  have new: "t \<in> led c \<or> (r_state r' = Leader \<and> t = r_term r' \<and> \<not> (r_state (cl_nodes c i) = Leader \<and> r_term r' = r_term (cl_nodes c i)))"
    if "t \<in> led ?c" for t
    using that withinD(9)[OF d(1,7)] by (force split: if_splits)
  have "crowned N g ?c t" if "t \<in> led ?c" for t using new[OF that] old new_crown[OF assms] by blast
  moreover have "sprouted g (led ?c)"
    unfolding sprouted_def
  proof
    fix t assume "t \<in> led ?c"
    from new[OF this] show "t_bound g < t \<and> snd (t_start g t) < t \<and> rooted g (led ?c) (t_start g t)"
    proof (elim disjE conjE)
      assume "t \<in> led c"
      then show ?thesis using sproutedD[OF lw(2)] rooted_mono[OF _ grows_led [OF d(12)]] by blast
    next
      assume n: "r_state r' = Leader" "t = r_term r'" "\<not> (r_state (cl_nodes c i) = Leader \<and> r_term r' = r_term (cl_nodes c i))"
      note to = takes_over[OF assms n(1,3)]
      have "rooted g (led c) (last_point (r_log (cl_nodes c i)))" "snd (last_point (r_log (cl_nodes c i))) < r_term r'"
        using k(3)[OF d(7)] to(1,2) by (simp_all add: node_ok_def held_def)
      then show ?thesis using to(4,5) n(2) rooted_mono[OF _ grows_led [OF d(12)]] by simp
    qed
  qed
  ultimately show ?thesis using lw(1) unfolding lawful_def by blast
qed


section \<open>The node that moved\<close>

lemma moved_candidate:
  assumes "moving N g c i m r'" and "r_state r' = Candidate"
  shows "last_point (r_log r') = last_point (r_log (cl_nodes c i))"
    and "(r_state (cl_nodes c i) = Candidate \<and> r_term (cl_nodes c i) = r_term r') \<or> r_term (cl_nodes c i) < r_term r'"
proof -
  note d = movingD[OF assms(1)]
  show "(r_state (cl_nodes c i) = Candidate \<and> r_term (cl_nodes c i) = r_term r') \<or> r_term (cl_nodes c i) < r_term r'"
    using d(5) assms(2) by (auto simp: renews_def)
  show "last_point (r_log r') = last_point (r_log (cl_nodes c i))"
  proof (cases "works (cl_nodes c i) r'")
    case True
    then show ?thesis by (rule works_frame(10))
  next
    case False
    from assms(1) False show ?thesis
    proof (cases rule: acts_cases)
      case (tend s)
      then show ?thesis using assms(2) by (auto simp: quiet_def electing_def stands_down_def)
    next
      case (answer s)
      then have "r_log r' = r_log (cl_nodes c i)" using assms(2) by (auto simp: answers_def stage_def)
      then show ?thesis by simp
    qed
  qed
qed

lemma moved_mail:
  assumes "moving N g c i m r'" and "j \<in> N" and "x \<in> said c j"
  shows "mail N g (moved i r' c) x"
proof (rule mail_grows [OF commitsD(5) [OF movingD(3) [OF assms(1)] assms(2,3)] movingD(12) [OF assms(1)]])
  let ?c = "moved i r' c" and ?f = "m_from x"
  assume h: "m_type x = MsgVote" "r_state (cl_nodes ?c ?f) = Candidate" "r_term (cl_nodes ?c ?f) = m_term x"
  show "r_state (cl_nodes c ?f) = Candidate \<and> r_term (cl_nodes c ?f) = m_term x
      \<and> last_point (r_log (cl_nodes ?c ?f)) = last_point (r_log (cl_nodes c ?f))"
  proof (cases "?f = i")
    case True
    have inv: "msgs_ok N c" "kept_ok N c" "cast_ok N c"
      using withinD(1)[OF movingD(1) [OF assms(1)]] by (simp_all add: election_inv_def)
    have "(?f, m_term x, ?f) \<in> cl_cast c"
      using assms(2,3) h(1) inv(1,2) unfolding said_def msgs_ok_def tells_def kept_ok_def by blast
    then have "m_term x \<le> r_term (cl_nodes c i)" using inv(3) True unfolding cast_ok_def by blast
    then show ?thesis using moved_candidate[OF assms(1)] h(2,3) True by auto
  qed (use h in simp)
qed

lemma moved_node:
  assumes "moving N g c i m r'"
  shows "held N g (moved i r' c) (r_term r') (said c i) i (r_log r') \<and> snap_ok g (r_log r')
    \<and> matches_ok (moved i r' c) i (r_term r') r'
    \<and> (\<exists>ms. r_msgs r' = r_msgs (cl_nodes c i) @ ms
         \<and> (\<forall>x\<in>set ms. honest g (r_term r') (last_point (r_log r')) x \<and> mail N g (moved i r' c) x))"
    (is "?P r'")
proof -
  let ?r = "cl_nodes c i" and ?c = "moved i r' c" and ?T = "r_term r'"
  note d = movingD[OF assms] and w' = withinD[OF movingD(2) [OF assms]]
  have n: "node_ok N g c i" by (rule commitsD(3) [OF d(3,7)])
  have lw: "lawful N g ?c" by (rule moved_lawful [OF assms])
  have "held N g c (r_term ?r) (said c i) i (r_log ?r)" using n by (simp add: node_ok_def)
  then have h: "held N g ?c ?T (said c i) i (r_log ?r)" by (rule held_mono [OF _ d(12,8)])
  have net: "cl_net ?c \<subseteq> said c i" by (simp add: said_def)
  have mails: "\<forall>x\<in>cl_net ?c. mail N g ?c x" using moved_mail[OF assms d(7)] net by blast
  have inc: "incoming ?c i m" using d(6) by (simp add: incoming_def)
  have mt: "matches_ok ?c i (r_term ?r) ?r" using n matches_grows[OF _ d(12)] by (simp add: node_ok_def)
  show ?thesis
  proof (cases "works ?r r'")
    case True
    note f = works_frame[OF True]
    have "l_committed (r_log r') = l_committed (r_log ?r)" using f(9) by (simp add: snap_kept_def)
    note t = held_trimmed[OF h d(10) f(8) this]
    have "snap_ok g (r_log r')"
    proof -
      have "log_snap (r_log r') = log_snap (r_log ?r)
          \<or> below g (snap_point (log_snap (r_log r'))) (commit_point (r_log ?r))"
        using f(9) log_path[OF heldD(1,2) [OF h]] wf_logD(5)[OF heldD(1) [OF h]] unfolding snap_kept_def by metis
      then show ?thesis using n t(3) unfolding snap_ok_def node_ok_def by metis
    qed
    moreover have "matches_ok ?c i ?T r'" using mt f(2) get_progress_cong[OF f(5,6)] by (simp add: matches_ok_def)
    ultimately show ?thesis using t(1) f(7) by (intro conjI exI [of _ "[]"]) simp_all
  next
    case False
    from assms False show ?thesis
    proof (cases rule: acts_cases)
      case (tend s)
      have l: "r_log s = r_log ?r" "r_id s = i" using tend(1) withinD(7)[OF d(1,7)] by (simp_all add: stage_def)
      have ms: "matches_ok ?c i ?T s" using recalls_matches[of ?r s] tend(1,8) mt withinD(7)[OF d(1,7)] by (simp add: stage_def)
      have rl: "ruled g ?T (last_point (r_log s)) \<and> (?T, i) \<in> cl_elected ?c"
      proof (cases "r_state ?r = Leader \<and> ?T = r_term ?r")
        case True
        then show ?thesis using withinD(9)[OF d(1,7)] ruled_own l(1) d(12) by (auto simp: grows_def)
      next
        case nl: False
        then have "r_state r' = Leader" using tend(7,8) by auto
        moreover from this have "t_start g ?T = last_point (r_log s)" using takes_over(4)[OF assms _ nl] l(1) by simp
        moreover have "ruled g ?T (t_start g ?T)" by (rule ruled_start [OF anc_refl])
        ultimately show ?thesis by simp
      qed
      then have T: "?T \<in> led ?c" by force
      have un: "\<forall>k. (?T, k) \<in> cl_elected ?c \<longrightarrow> k = i" using elected_unique[OF w'(1)] rl by blast
      have hs: "held N g ?c ?T (said c i) i (r_log s)" and sn: "snap_ok g (r_log s)" using h n l(1) by (simp_all add: node_ok_def)
      note k = leader_keeps[OF lw hs tend(2,8) inc mails d(11) sn tend(5,6) w'(2) l(2) ms T un conjunct1 [OF rl]]
      obtain x where x: "r_msgs r' = r_msgs s @ x" "\<forall>y\<in>set x. speaks (confirms m s) s (r_log r') y"
        using tendsD(7)[OF tend(2,5)] by blast
      have x': "r_msgs r' = r_msgs ?r @ x" using x(1) tend(1) by (simp add: stage_def)
      have "honest g ?T (last_point (r_log r')) y \<and> mail N g ?c y" if y: "y \<in> set x" for y
      proof -
        have "m_from y = i" using moved_msgs_term[OF assms] x' y by auto
        then show ?thesis
          using leader_mail[OF lw k(1) _ tend(8) inc mails k(2) l(2) ms conjunct2 [OF rl] k(4), of y] x(2) y by blast
      qed
      then show ?thesis using k(1-3) x' by blast
    next
      case (answer s)
      have l: "r_log s = r_log ?r" using answer(1) by (simp add: stage_def)
      have hs: "held N g ?c ?T (said c i) i (r_log s)" and sn: "snap_ok g (r_log s)" using h n l by (simp_all add: node_ok_def)
      note k = answers_follows[OF lw hs answer(2,4) inc mails net d(11) sn]
      have ids: "r_id ?r = i" "r_id s = i" using answer(1) withinD(7)[OF d(1,7)] by (simp_all add: stage_def)
      have "matches_ok ?c i (r_term s) s" using recalls_matches[of ?r s] answer(1) mt ids by (simp add: stage_def)
      then have mm: "matches_ok ?c i ?T r'" using recalls_matches[of s r'] answer(2) ids by (simp add: answers_def)
      obtain x where x: "r_msgs r' = r_msgs s @ x" "\<forall>y\<in>set x. replies m s r' y" using answer(2) by (auto simp: answers_def)
      have x': "r_msgs r' = r_msgs ?r @ x" using x(1) answer(1) by (simp add: stage_def)
      have "honest g ?T (last_point (r_log r')) y \<and> mail N g ?c y" if y: "y \<in> set x" for y
      proof -
        have "m_from y = i" using moved_msgs_term[OF assms] x' y by auto
        then show ?thesis using replies_mail[OF lw k(1) hs answer(4) inc mails _ _ d(13), of y] x(2) y by blast
      qed
      then show ?thesis using k mm x' by blast
    qed
  qed
qed

section \<open>Votes\<close>

lemma vouched_led: "vouched X j t n \<Longrightarrow> \<forall>x\<in>X. mail N g c x \<Longrightarrow> t \<in> led c"
  unfolding vouched_def using mailD(1,3) by (metis image_eqI fst_conv)

lemma moved_vote:
  assumes "moving N g c i m r'" and "(i, t, v) \<in> cl_cast (moved i r' c)" and "(i, t, v) \<notin> cl_cast c" and "i \<noteq> v"
  shows "t = r_term r'" and "m \<in> cl_net c" and "m_type m = MsgVote" and "m_term m = t" and "m_from m = v"
    and "no_newer (last_point (r_log (cl_nodes c i))) (from_point m)"
proof -
  let ?r = "cl_nodes c i"
  note d = movingD[OF assms(1)] and w = withinD[OF movingD(1) [OF assms(1)]]
  have v: "t = r_term r'" "v = r_vote r'" "r_vote r' \<noteq> 0" using assms(2,3) by (auto split: if_splits)
  have cst: "cast_ok N c" using w(1) by (simp add: election_inv_def)
  have old: "\<not> (r_term r' = r_term ?r \<and> r_vote r' = r_vote ?r)"
    using assms(3) v cst d(7) unfolding cast_ok_def by metis
  have m: "m_type m = MsgVote \<and> m_term m = r_term r' \<and> r_vote r' = m_from m"
    using effectD(3)[OF d(9)] v assms(4) w(7)[OF d(7)] old by auto
  then show "t = r_term r'" "m_type m = MsgVote" "m_term m = t" "m_from m = v" using v by simp_all
  show "m \<in> cl_net c" using d(6) m by (auto simp: incoming_def inner_def)
  have nw: "\<not> works ?r r'" using works_frame(2,3)[of ?r r'] old by auto
  have st: "r_vote s \<noteq> r_vote r'" if "stage ?r s" "r_term s = r_term r'" for s
    using that v assms(4) w(7)[OF d(7)] old by (auto simp: stage_def)
  from assms(1) nw show "no_newer (last_point (r_log ?r)) (from_point m)"
  proof (cases rule: acts_cases)
    case (tend s)
    then show ?thesis using st[OF tend(1,8)] v(3) by (auto simp: quiet_def electing_def stands_down_def)
  next
    case (answer s)
    then show ?thesis using st[OF answer(1,4)] by (auto simp: answers_def stage_def)
  qed
qed

lemma new_vote_pledged:
  assumes "moving N g c i m r'" and "(i, t, v) \<in> cl_cast (moved i r' c)" and "(i, t, v) \<notin> cl_cast c" and "i \<noteq> v"
    and "r_state (cl_nodes c v) = Candidate" and "r_term (cl_nodes c v) = t" and "t \<notin> led (moved i r' c)" and "v \<in> N"
  shows "pledged g (led (moved i r' c)) (said (moved i r' c) i) i t (last_point (r_log (cl_nodes c v)))"
  unfolding pledged_def
proof (intro allI impI, elim conjE)
  let ?r = "cl_nodes c i" and ?c = "moved i r' c" and ?y = "last_point (r_log (cl_nodes c v))"
  note d = movingD[OF assms(1)] and k = commitsD[OF movingD(3) [OF assms(1)]] and mv = moved_vote[OF assms(1-4)]
  have lw: "lawful N g c" by (rule k(1))
  fix u n a assume h: "vouched (said ?c i) i u n" "u < t" "own g u a" "fst a \<le> n"
    "\<forall>w\<in>led ?c. u < w \<and> w < t \<longrightarrow> below g a (t_start g w)"
  have cond: "below g a (t_start g w)" if "w \<in> led c" "u < w" "w \<le> t" for w
  proof -
    have "w \<in> led ?c" using that(1) grows_led[OF d(12)] by blast
    then have "w < t" using that(3) assms(7) by (metis order_le_less)
    then show ?thesis using h(5) \<open>w \<in> led ?c\<close> that(2) by blast
  qed
  have vo: "vouched (said c i) i u n" using moved_said[OF assms(1) h(1)] h(2) mv(1) by auto
  have hr: "held N g c (r_term ?r) (said c i) i (r_log ?r)" using k(3)[OF d(7)] by (simp add: node_ok_def)
  have ax: "below g a (last_point (r_log ?r))"
  proof (rule dutifulD(3) [OF heldD(5) [OF hr] vo h(4,3)])
    fix w assume "w \<in> led c" "u < w" "w \<le> r_term ?r"
    then show "below g a (t_start g w)" using cond d(8) mv(1) by (meson order_trans)
  qed
  have ul: "u \<in> led c" using vouched_led[OF vo] k(5)[OF d(7)] by blast
  have m: "mail N g c m" using k(5)[OF d(7)] mv(2) by (simp add: said_def)
  have fp: "from_point m = ?y" using mailD(5)[OF m mv(3)] mv(4,5) assms(5,6) by simp
  have nv: "held N g c t (said c v) v (r_log (cl_nodes c v))" "snd ?y < t"
    using k(3)[OF assms(8)] assms(5,6) by (auto simp: node_ok_def)
  show "below g a ?y"
  proof (rule up_to_date_holds [OF lawfulD(1,2) [OF lw] lawfulD(4) [OF lw ul] h(3) heldD(3) [OF hr] ax heldD(3) [OF nv(1)]])
    show "snd (last_point (r_log ?r)) < snd ?y \<or> snd (last_point (r_log ?r)) = snd ?y \<and> fst (last_point (r_log ?r)) \<le> fst ?y"
      using mv(6) fp by (simp add: no_newer_def)
    fix w assume "w \<in> led c" "u < w" "w \<le> snd ?y"
    then show "below g a (t_start g w)" using cond nv(2) by (meson less_imp_le order_trans)
  qed
qed

lemma moved_voted:
  assumes "moving N g c i m r'"
  shows "voted g (moved i r' c)"
  unfolding voted_def
proof (intro allI impI, elim conjE)
  let ?r = "cl_nodes c i" and ?c = "moved i r' c"
  note d = movingD[OF assms] and w = withinD[OF movingD(1) [OF assms]] and k = commitsD[OF movingD(3) [OF assms]]
  have inv: "cast_ok N c" "kept_ok N c" using w(1) by (simp_all add: election_inv_def)
  fix j t v assume h: "(j, t, v) \<in> cl_cast ?c" "j \<noteq> v" "r_state (cl_nodes ?c v) = Candidate" "r_term (cl_nodes ?c v) = t" "t \<notin> led ?c"
  have nl: "t \<notin> led c" using h(5) grows_led[OF d(12)] by blast
  show "pledged g (led ?c) (said ?c j) j t (last_point (r_log (cl_nodes ?c v)))"
  proof (cases "(j, t, v) \<in> cl_cast c")
    case True
    have cand: "r_state (cl_nodes c v) = Candidate \<and> r_term (cl_nodes c v) = t
        \<and> last_point (r_log (cl_nodes ?c v)) = last_point (r_log (cl_nodes c v))"
    proof (cases "v = i")
      case vi: True
      have "(v, t, v) \<in> cl_cast c" using inv(2) True h(2) unfolding kept_ok_def by blast
      then have "t \<le> r_term ?r" using inv(1) vi unfolding cast_ok_def by blast
      then show ?thesis using moved_candidate[OF assms] h(3,4) vi by auto
    qed (use h in simp)
    have "pledged g (led c) (said c j) j t (last_point (r_log (cl_nodes c v)))"
      using k(2) True h(2) cand nl unfolding voted_def by blast
    then have "pledged g (led ?c) (said ?c j) j t (last_point (r_log (cl_nodes c v)))"
    proof (rule pledged_mono [OF _ grows_led [OF d(12)]])
      fix u n assume vo: "vouched (said ?c j) j u n" "u < t"
      have "t \<le> r_term (cl_nodes c j)" using inv(1) True unfolding cast_ok_def by blast
      then show "vouched (said c j) j u n" using moved_said[OF assms vo(1)] vo(2) d(8) by auto
    qed
    then show ?thesis using cand by simp
  next
    case False
    then have j: "j = i" using h(1) by (auto split: if_splits)
    then have vi: "v \<noteq> i" using h(2) by simp
    have "(v, t, v) \<in> cl_kept ?c"
      using withinD(1)[OF d(2)] h(1,2) unfolding election_inv_def kept_ok_def by blast
    then have "v \<in> N" using inv unfolding kept_ok_def cast_ok_def by auto
    then show ?thesis using new_vote_pledged[OF assms, of t v] False h j vi by simp
  qed
qed

section \<open>Every step keeps the invariant\<close>

lemma moved_commits:
  assumes "moving N g c i m r'"
  shows "commits_inv N g (moved i r' c)"
proof -
  let ?c = "moved i r' c" and ?T = "r_term r'"
  note d = movingD[OF assms] and w' = withinD[OF movingD(2) [OF assms]] and k = commitsD[OF movingD(3) [OF assms]]
  obtain ms where ms: "r_msgs r' = r_msgs (cl_nodes c i) @ ms"
      "\<forall>x\<in>set ms. honest g ?T (last_point (r_log r')) x \<and> mail N g ?c x"
    and u: "held N g ?c ?T (said c i) i (r_log r')" "snap_ok g (r_log r')" "matches_ok ?c i ?T r'"
    using moved_node[OF assms] by blast
  have sd: "said ?c i = said c i \<union> set ms" using ms(1) by (auto simp: said_def)
  have "node_ok N g ?c j" if j: "j \<in> N" for j
  proof (cases "j = i")
    case True
    have "held N g ?c ?T (said ?c i) i (r_log r')"
    proof (rule held_vouch [OF u(1)])
      fix t n assume v: "vouched (said ?c i) i t n"
      show "vouched (said c i) i t n \<or> t = ?T \<and> (\<forall>a. ruled g ?T a \<and> fst a \<le> n \<longrightarrow> below g a (last_point (r_log r')))"
        using v ms(2) unfolding vouched_def sd honest_def by (metis Un_iff)
    qed
    moreover have "snd (last_point (r_log r')) < ?T" if c: "r_state r' = Candidate"
    proof -
      have n: "node_ok N g c i" by (rule k(3) [OF d(7)])
      then have "snd (last_point (r_log (cl_nodes c i))) \<le> r_term (cl_nodes c i)" by (simp add: node_ok_def held_def)
      then show ?thesis using moved_candidate[OF assms c] n by (auto simp: node_ok_def)
    qed
    ultimately show ?thesis using True u(2,3) by (simp add: node_ok_def)
  next
    case False
    have n: "node_ok N g c j" by (rule k(3) [OF j])
    then have "held N g c (r_term (cl_nodes c j)) (said c j) j (r_log (cl_nodes c j))" by (simp add: node_ok_def)
    then have "held N g ?c (r_term (cl_nodes c j)) (said ?c j) j (r_log (cl_nodes c j))"
      by (rule held_mono [OF _ d(12) order_refl]) (simp add: said_moved [OF False])
    then show ?thesis using n False matches_grows[OF _ d(12)] by (simp add: node_ok_def)
  qed
  moreover have "disk_ok N g ?c j" if jn: "j \<in> N" for j
  proof -
    obtain l where l: "log_view l = cl_disk c j" "l_committed l = cl_commit c j" "held N g c (fst (cl_saved c j)) (cl_net c) j l"
      using k(4)[OF jn] unfolding disk_ok_def by blast
    have "held N g ?c (fst (cl_saved c j)) (cl_net ?c) j l" by (rule held_mono [OF l(3) d(12) order_refl]) simp
    then show ?thesis using l(1,2) unfolding disk_ok_def by (intro exI [of _ l]) simp
  qed
  moreover have "mail N g ?c x" if "j \<in> N" "x \<in> said ?c j" for j x
    using that ms(2) moved_mail[OF assms] sd said_moved[of j i r' c] by (cases "j = i") auto
  ultimately show ?thesis using moved_lawful[OF assms] moved_voted[OF assms] unfolding commits_inv_def by blast
qed

lemma cluster_step_commits:
  assumes "cluster_step False N c c'" and "within N g c" and "within N g c'" and "commits_inv N g c"
  shows "commits_inv N g c'"
proof -
  consider (moved) i m r' where "c' = moved i r' c" "moves N c i m r'" "renews (cl_nodes c i) r'"
        "m \<in> cl_net c \<and> m_to m = i \<and> wf_msg m \<or> inner m"
        "works (cl_nodes c i) r' \<or> (acts m (cl_nodes c i) r' \<and> (r_state r' = Leader \<longrightarrow> voters (cl_nodes c i) = N))"
    | (saved) i where "i \<in> N" "c' = saved i c"
    | (restarted) i r' where "i \<in> N" "c' = restarted i r' c" "wf_raft r'" "restores c i r'"
    using cluster_step_kinds[OF assms(1) withinD(1) [OF assms(2)]] by blast
  then show ?thesis
  proof cases
    case (moved i m r')
    then have "moving N g c i m r'" using assms(2-4) by (simp add: moving_def incoming_def)
    then show ?thesis using moved_commits moved(1) by blast
  next
    case (saved i)
    then show ?thesis using saved_commits[OF assms(2,4)] by simp
  next
    case (restarted i r')
    then show ?thesis using restarted_commits[OF assms(2,4)] by simp
  qed
qed

end
