(* ===== verification/Raft_Complete.thy ===== *)
theory Raft_Complete
  imports Raft_Commit
begin

text \<open>
  State machine safety and leader completeness. The tree of the history of a run is built first, along
  the run; the invariant of commitment is then followed along the same run over the finished tree.
\<close>

section \<open>Runs\<close>

lemma chart_run_commits:
  assumes "(chart_step N (t_bound g) (t_trunk g))\<^sup>*\<^sup>* p q" and "election_inv N (snd p)" and "charted N (t_bound g) (t_trunk g) (fst p) (snd p)"
    and "2 \<le> card N" and "grown g" and "commits_inv N g (snd p)" and "fst q \<subseteq> t_links g"
  shows "within N g (snd q) \<and> commits_inv N g (snd q) \<and> charted N (t_bound g) (t_trunk g) (fst q) (snd q)"
  using assms
proof (induction rule: rtranclp_induct)
  case base
  then show ?case unfolding within_def by blast
next
  case (step q q')
  have s: "cluster_step False N (snd q) (snd q')" "fst q \<subseteq> fst q'" "charted N (t_bound g) (t_trunk g) (fst q') (snd q')"
    using step(2) by (simp_all add: chart_step_def)
  have q: "within N g (snd q)" "commits_inv N g (snd q)" using step s(2) by blast+
  have "election_inv N (snd q')" using cluster_step_inv[OF s(1)] q(1) by (simp add: within_def)
  then have w: "within N g (snd q')" using s(3) step.prems unfolding within_def by blast
  then show ?case using cluster_step_commits[OF s(1) q(1) w q(2)] s(3) by blast
qed

lemma trunk_terms:
  assumes "grown g" and "below g a (t_trunk g)"
  shows "snd a \<le> t_bound g"
  using assms(2) unfolding anc_def
proof (induction rule: converse_rtrancl_induct)
  case base
  show ?case by (rule grownD(2) [OF assms(1)])
next
  case (step a y)
  then show ?case using grownD(3)[OF assms(1) step(1)] by blast
qed

lemma founded_commits:
  assumes "founded N c" and "within N g c" and "\<forall>i\<in>N. last_point (r_log (cl_nodes c i)) = t_trunk g"
  shows "commits_inv N g c"
proof -
  note w = withinD[OF assms(2)]
  have init: "initial N c" and boot: "bootstrapped N c" using assms(1) by (simp_all add: founded_def bootstrapped_def)
  have em: "cl_net c = {}" "cl_cast c = {}" "led c = {}" using init by (simp_all add: initial_def)
  have sd: "said c i = {}" if "i \<in> N" for i using init that by (simp add: initial_def said_def)
  have h: "held N g c (r_term (cl_nodes c i)) X i (r_log (cl_nodes c i))" if i: "i \<in> N" and X: "X = {}" for i X
  proof -
    have "rooted g {} (t_trunk g)" using trunk_terms[OF w(3)] by (simp add: rooted_def)
    moreover have "t_bound g \<le> r_term (cl_nodes c i)"
      using assms(2) i by (auto simp: within_def charted_def linked_def stands_ok_def)
    then have "snd (t_trunk g) \<le> r_term (cl_nodes c i)" using grownD(2)[OF w(3)] by simp
    moreover have "settled N g c (r_term (cl_nodes c i)) (commit_point (r_log (cl_nodes c i)))"
      using commit_on_path[OF w(6,4) [OF i]] assms(3) i unfolding settled_def by simp
    ultimately show ?thesis using w(4,6)[OF i] assms(3) i X by (simp add: held_def em(3) dutiful_def vouched_def)
  qed
  have "node_ok N g c i" if i: "i \<in> N" for i
  proof -
    let ?l = "r_log (cl_nodes c i)"
    have f: "\<forall>j p. get_progress (cl_nodes c i) j = Some p \<longrightarrow> j = i \<or> pr_match p = 0"
        "s_index (log_snap ?l) = 0 \<or> holds ?l (snap_point (log_snap ?l)) \<and> s_index (log_snap ?l) \<le> l_committed ?l"
      using assms(1) i by (simp_all add: founded_def)
    have "snap_ok g ?l"
    proof (cases "s_index (log_snap ?l) = 0")
      case False
      then have "holds ?l (snap_point (log_snap ?l))" "unat (s_index (log_snap ?l)) \<le> unat (l_committed ?l)"
        using f(2) by (simp_all add: word_le_nat_alt)
      then show ?thesis
        using log_path[OF w(6,4) [OF i], of "unat (s_index (log_snap ?l))" "unat (l_committed ?l)"] wf_logD(5)[OF w(6) [OF i]]
        by (simp add: snap_ok_def holds_def snap_point_def)
    qed (simp add: snap_ok_def)
    moreover have "r_state (cl_nodes c i) = Follower" using init i by (simp add: initial_def)
    ultimately show ?thesis using h[OF i sd [OF i]] f(1) by (auto simp: node_ok_def matches_ok_def)
  qed
  moreover have "disk_ok N g c i" if i: "i \<in> N" for i
  proof -
    have "log_view (r_log (cl_nodes c i)) = cl_disk c i" using boot i by (auto simp: bootstrapped_def)
    moreover have "l_committed (r_log (cl_nodes c i)) = cl_commit c i" using assms(1) i by (simp add: founded_def)
    moreover have "fst (cl_saved c i) = r_term (cl_nodes c i)" using init i by (simp add: initial_def)
    ultimately show ?thesis using h[OF i em(1)] unfolding disk_ok_def by (intro exI [of _ "r_log (cl_nodes c i)"]) simp
  qed
  moreover have "lawful N g c" using w(3) em(3) by (simp add: lawful_def sprouted_def)
  ultimately show ?thesis using sd em(2) by (simp add: commits_inv_def voted_def)
qed

lemma cluster_step_grows: "cluster_step mc N c c' \<Longrightarrow> grows c c'"
  by (induction rule: cluster_step.induct) (auto simp: grows_def)

lemma cluster_run_grows: "(cluster_step mc N)\<^sup>*\<^sup>* c c' \<Longrightarrow> grows c c'"
proof (induction rule: rtranclp_induct)
  case (step c1 c2)
  then show ?case using cluster_step_grows[OF step(2)] unfolding grows_def by blast
qed (simp add: grows_def)

text \<open>Two moments of a run, seen from the second one.\<close>

lemma two_moments:
  assumes "founded N c0" and "2 \<le> card N" and "(cluster_step False N)\<^sup>*\<^sup>* c0 c" and "(cluster_step False N)\<^sup>*\<^sup>* c c'"
  shows "\<exists>g. within N g c \<and> within N g c' \<and> commits_inv N g c \<and> commits_inv N g c' \<and> grows c c'"
proof -
  have ne: "N \<noteq> {}" using assms(2) by auto
  obtain M0 b Z where m0: "charted N b Z M0 c0" "\<forall>i\<in>N. last_point (r_log (cl_nodes c0 i)) = Z"
    using founded_charted[OF assms(1) ne] by blast
  have e0: "election_inv N c0" using assms(1) initial_inv by (simp add: founded_def bootstrapped_def)
  obtain M where m: "(chart_step N b Z)\<^sup>*\<^sup>* (M0, c0) (M, c)" "charted N b Z M c"
    using chart_run[OF assms(3) e0 m0(1) assms(2)] by blast
  have e: "election_inv N c" using cluster_run_inv[OF assms(3) e0] by blast
  obtain M' where m': "(chart_step N b Z)\<^sup>*\<^sup>* (M, c) (M', c')" "charted N b Z M' c'"
    using chart_run[OF assms(4) e m(2) assms(2)] by blast
  obtain E where E: "grown \<lparr>t_links = M', t_bound = b, t_trunk = Z, t_start = E\<rparr>" using m'(2) by (auto simp: charted_def)
  define g where "g = \<lparr>t_links = M', t_bound = b, t_trunk = Z, t_start = E\<rparr>"
  have g: "t_links g = M'" "t_bound g = b" "t_trunk g = Z" "grown g" using E by (simp_all add: g_def)
  have sub: "M0 \<subseteq> M" "M \<subseteq> M'" using chart_run_grows[OF m(1)] chart_run_grows[OF m'(1)] by simp_all
  have "within N g c0" using e0 assms(2) g sub m0(1) unfolding within_def by blast
  then have i0: "commits_inv N g c0" using founded_commits[OF assms(1)] m0(2) g(3) by simp
  have c: "within N g c \<and> commits_inv N g c"
    using chart_run_commits[of N g "(M0, c0)" "(M, c)"] m(1) m0(1) e0 assms(2) i0 sub g by simp
  have "within N g c' \<and> commits_inv N g c'"
    using chart_run_commits[of N g "(M, c)" "(M', c')"] m'(1) m(2) e assms(2) c g by simp
  then show ?thesis using c cluster_run_grows[OF assms(4)] by blast
qed

section \<open>State machine safety and leader completeness\<close>

lemma held_settled:
  assumes "within N g c" and "commits_inv N g c" and "i \<in> N" and "log_base (r_log (cl_nodes c i)) \<le> p"
    and "p \<le> unat (l_committed (r_log (cl_nodes c i)))"
  shows "settled N g c (r_term (cl_nodes c i)) (point_at (r_log (cl_nodes c i)) p)"
proof -
  note w = withinD[OF assms(1)]
  have "settled N g c (r_term (cl_nodes c i)) (commit_point (r_log (cl_nodes c i)))"
    using commitsD(3)[OF assms(2,3)] by (simp add: node_ok_def held_def)
  moreover have "below g (point_at (r_log (cl_nodes c i)) p) (commit_point (r_log (cl_nodes c i)))"
    using log_path[OF w(6,4) [OF assms(3)] assms(4,5)] wf_logD(5)[OF w(6) [OF assms(3)]] by blast
  ultimately show ?thesis by (rule settled_down)
qed

lemma leader_has:
  assumes "within N g c" and "commits_inv N g c" and "k \<in> N" and "r_state (cl_nodes c k) = Leader"
    and "settled N g c (r_term (cl_nodes c k)) x"
  shows "below g x (last_point (r_log (cl_nodes c k)))"
proof -
  let ?T = "r_term (cl_nodes c k)"
  note w = withinD[OF assms(1)] and kk = commitsD[OF assms(2)] and lw = lawfulD[OF commitsD(1) [OF assms(2)]]
  have ld: "own g ?T (last_point (r_log (cl_nodes c k)))" "(?T, k) \<in> cl_elected c" using w(9)[OF assms(3,4)] by simp_all
  then have T: "?T \<in> led c" by force
  have mails: "\<forall>x\<in>cl_net c. mail N g c x" using kk(5)[OF assms(3)] by (simp add: said_def)
  have r: "ruled g ?T x" by (rule settled_ruled [OF kk(1) assms(5) T])
  show ?thesis using settled_offered[OF kk(1) assms(5) T mails]
  proof
    assume "fst x \<le> fst (t_start g ?T)"
    then have "below g x (t_start g ?T)" by (rule ruled_line [OF lw(1) lw(4) [OF T] r ruled_start [OF anc_refl]])
    then show ?thesis using start_below[OF lw(1) ld(1) lw(4) [OF T]] anc_trans by blast
  next
    assume "offered c ?T (fst x)"
    then obtain n where n: "vouched (cl_net c) k ?T n" "fst x \<le> n"
      using offered_vouched[OF _ mails] elected_unique[OF w(1) _ ld(2)] by blast
    have "vouched (said c k) k ?T n" using vouched_mono[OF n(1)] by (simp add: said_def)
    moreover have "dutiful g (led c) ?T (said c k) k (last_point (r_log (cl_nodes c k)))"
      using kk(3)[OF assms(3)] by (simp add: node_ok_def held_def)
    ultimately show ?thesis using dutifulD(2)[OF _ _ n(2) refl r] by blast
  qed
qed

lemma same_prefix:
  assumes "within N g c" and "within N g c'" and "i \<in> N" and "k \<in> N"
    and "lo = max (log_base (r_log (cl_nodes c i))) (log_base (r_log (cl_nodes c' k)))"
    and "lo \<le> p" and "p \<le> log_last (r_log (cl_nodes c i))" and "p \<le> log_last (r_log (cl_nodes c' k))"
    and "point_at (r_log (cl_nodes c i)) p = point_at (r_log (cl_nodes c' k)) p"
  shows "log_between (r_log (cl_nodes c i)) (lo + 1) (p + 1) = log_between (r_log (cl_nodes c' k)) (lo + 1) (p + 1)
    \<and> log_term_at (r_log (cl_nodes c i)) lo = log_term_at (r_log (cl_nodes c' k)) lo"
proof -
  note w = withinD[OF assms(1)] and w' = withinD[OF assms(2)]
  have "log_term_at (r_log (cl_nodes c i)) p = log_term_at (r_log (cl_nodes c' k)) p" using assms(9) by (simp add: point_at_def)
  then show ?thesis
    using coherent_below[OF grownD(1) [OF w(3)] w(6) [OF assms(3)] w'(6) [OF assms(4)] w(4) [OF assms(3)] w'(4) [OF assms(4)], of "p - lo"]
      assms(5-8) by simp
qed

text \<open>
  C3: State machine safety. Take a node at some moment of a run and a node at the same or any later
  moment. At every position that both have committed and still hold they have the same entries, data
  included, so that no two nodes ever apply different commands at the same position, and the terms of
  the position \<open>lo\<close> before those agree. Messages may be lost, delayed, reordered and duplicated, processes
  stop and start again from the term, vote, commit position and log they saved, logs are compacted and
  replaced by snapshots. The runs are those of a cluster of at least two nodes, all of them voters, from
  a common log; the membership does not change, and, as in election safety, no granted pre-vote reaches a
  node that is a candidate already.
\<close>

theorem state_machine_safety:
  assumes "founded N c0" and "2 \<le> card N" and "(cluster_step False N)\<^sup>*\<^sup>* c0 c" and "(cluster_step False N)\<^sup>*\<^sup>* c c'"
    and "i \<in> N" and "k \<in> N" and "lo = max (log_base (r_log (cl_nodes c i))) (log_base (r_log (cl_nodes c' k)))"
    and "lo \<le> p" and "p \<le> unat (l_committed (r_log (cl_nodes c i)))" and "p \<le> unat (l_committed (r_log (cl_nodes c' k)))"
  shows "log_between (r_log (cl_nodes c i)) (lo + 1) (p + 1) = log_between (r_log (cl_nodes c' k)) (lo + 1) (p + 1)
    \<and> log_term_at (r_log (cl_nodes c i)) lo = log_term_at (r_log (cl_nodes c' k)) lo"
proof -
  obtain g where g: "within N g c" "within N g c'" "commits_inv N g c" "commits_inv N g c'" "grows c c'"
    using two_moments[OF assms(1-4)] by blast
  let ?x = "point_at (r_log (cl_nodes c i)) p" and ?y = "point_at (r_log (cl_nodes c' k)) p"
  have "settled N g c' (r_term (cl_nodes c i)) ?x"
    by (rule settled_grows [OF held_settled [OF g(1,3) assms(5)] g(5) order_refl]) (use assms(7-9) in simp_all)
  moreover have "settled N g c' (r_term (cl_nodes c' k)) ?y"
    by (rule held_settled [OF g(2,4) assms(6)]) (use assms(7,8,10) in simp_all)
  ultimately have "below g ?x ?y" using settled_line[OF commitsD(1) [OF g(4)]] by simp
  then have "?x = ?y" by (rule anc_eq) simp
  moreover have "p \<le> log_last (r_log (cl_nodes c i))" "p \<le> log_last (r_log (cl_nodes c' k))"
    using assms(9,10) wf_logD(5)[OF withinD(6) [OF g(1) assms(5)]] wf_logD(5)[OF withinD(6) [OF g(2) assms(6)]] by simp_all
  ultimately show ?thesis by (intro same_prefix [OF g(1,2) assms(5-8)])
qed

text \<open>
  C4: Leader completeness. What a node has committed at some moment of a run is in the log of every
  node that is leader in the same or a later term then or at any later moment: the log of the leader
  reaches the commit position, and where both logs still hold them its entries up to there are those of
  the node, data included. The runs are those of state machine safety, with the same conditions.
\<close>

theorem leader_completeness:
  assumes "founded N c0" and "2 \<le> card N" and "(cluster_step False N)\<^sup>*\<^sup>* c0 c" and "(cluster_step False N)\<^sup>*\<^sup>* c c'"
    and "i \<in> N" and "k \<in> N" and "r_state (cl_nodes c' k) = Leader" and "r_term (cl_nodes c i) \<le> r_term (cl_nodes c' k)"
    and "lo = max (log_base (r_log (cl_nodes c i))) (log_base (r_log (cl_nodes c' k)))"
    and "hi = unat (l_committed (r_log (cl_nodes c i)))"
  shows "hi \<le> log_last (r_log (cl_nodes c' k))
    \<and> (lo \<le> hi \<longrightarrow> log_between (r_log (cl_nodes c i)) (lo + 1) (hi + 1) = log_between (r_log (cl_nodes c' k)) (lo + 1) (hi + 1))"
proof -
  obtain g where g: "within N g c" "within N g c'" "commits_inv N g c" "commits_inv N g c'" "grows c c'"
    using two_moments[OF assms(1-4)] by blast
  let ?x = "point_at (r_log (cl_nodes c i)) hi" and ?l = "r_log (cl_nodes c' k)"
  note w = withinD[OF g(1)] and w' = withinD[OF g(2)]
  have "settled N g c (r_term (cl_nodes c i)) ?x"
    by (rule held_settled [OF g(1,3) assms(5)]) (use wf_logD(4)[OF w(6) [OF assms(5)]] assms(10) in simp_all)
  then have "settled N g c' (r_term (cl_nodes c' k)) ?x" by (rule settled_grows [OF _ g(5) assms(8)])
  then have b: "below g ?x (last_point ?l)" by (rule leader_has [OF g(2,4) assms(6,7)])
  then have hi: "hi \<le> log_last ?l" using anc_le by fastforce
  have "log_between (r_log (cl_nodes c i)) (lo + 1) (hi + 1) = log_between ?l (lo + 1) (hi + 1)" if lo: "lo \<le> hi"
  proof -
    have "log_base ?l \<le> hi" using lo assms(9) by simp
    then have "?x = point_at ?l hi" using log_holds[OF grownD(1) [OF w(3)] w'(6,4) [OF assms(6)] b] by simp
    moreover have "hi \<le> log_last (r_log (cl_nodes c i))" using wf_logD(5)[OF w(6) [OF assms(5)]] assms(10) by simp
    ultimately show ?thesis using same_prefix[OF g(1,2) assms(5,6,9) lo _ hi] by blast
  qed
  then show ?thesis using hi by blast
qed


section \<open>A sample succession\<close>

text \<open>
  Three nodes: node 1 commits its first entry with node 2, node 2 learns of it and is then elected by
  node 3, which does not have the entry. The states of the nodes are computed first, then the run of
  the cluster goes through them.
\<close>

definition lead_0 :: raft where
  "lead_0 = after trio_grant ((after hup (trio 1))\<lparr>r_msgs := []\<rparr>)"

definition next_0 :: raft where
  "next_0 = after (r_msgs lead_0 ! 0) ((after trio_request (trio 2))\<lparr>r_msgs := []\<rparr>)"

definition trio_ack :: message where
  "trio_ack = r_msgs next_0 ! 0"

definition lead_1 :: raft where
  "lead_1 = after trio_ack (lead_0\<lparr>r_msgs := []\<rparr>)"

definition trio_news :: message where
  "trio_news = r_msgs lead_1 ! 0"

definition next_1 :: raft where
  "next_1 = after trio_news (next_0\<lparr>r_msgs := []\<rparr>)"

text \<open>The state of node 2 when it has learned that the entry is committed, written out.\<close>

definition next_seen :: raft where
  "next_seen =
    \<lparr>r_id = 2, r_term = 1, r_vote = 1, r_read_states = [],
    r_log =
    \<lparr>l_storage =
    \<lparr>ms_hard_state = \<lparr>hs_term = 0, hs_vote = 0, hs_commit = 0\<rparr>,
    ms_snapshot =
    \<lparr>s_data = [],
    s_metadata =
    \<lparr>md_conf_state = \<lparr>cs_nodes = [], cs_learners = []\<rparr>,
    md_index = 0, md_term = 0\<rparr>\<rparr>,
    ms_entries =
    [\<lparr>e_type = 0, e_term = 0, e_index = 0, e_data = []\<rparr>]\<rparr>,
    l_unstable =
    \<lparr>u_snapshot = None,
    u_entries =
    [\<lparr>e_type = 0, e_term = 1, e_index = 1, e_data = []\<rparr>],
    u_offset = 1\<rparr>,
    l_committed = 1, l_applied = 0,
    l_max_next_ents_size = word_of_int (- 1)\<rparr>,
    r_max_msg_size = word_of_int (- 1),
    r_max_uncommitted_size = word_of_int (- 1), r_max_inflight = 256,
    r_prs =
    [(1, \<lparr>pr_match = 0, pr_next = 1, pr_state = ProgressStateProbe,
    pr_paused = False, pr_pending_snapshot = 0,
    pr_recent_active = False,
    pr_inflights =
    \<lparr>if_start = 0, if_count = 0, if_size = ucast (256 :: u64),
    if_buffer = []\<rparr>,
    pr_is_learner = False\<rparr>),
    (2, \<lparr>pr_match = 0, pr_next = 1, pr_state = ProgressStateProbe,
    pr_paused = False, pr_pending_snapshot = 0,
    pr_recent_active = False,
    pr_inflights =
    \<lparr>if_start = 0, if_count = 0, if_size = ucast (256 :: u64),
    if_buffer = []\<rparr>,
    pr_is_learner = False\<rparr>),
    (3, \<lparr>pr_match = 0, pr_next = 1, pr_state = ProgressStateProbe,
    pr_paused = False, pr_pending_snapshot = 0,
    pr_recent_active = False,
    pr_inflights =
    \<lparr>if_start = 0, if_count = 0, if_size = ucast (256 :: u64),
    if_buffer = []\<rparr>,
    pr_is_learner = False\<rparr>)],
    r_learner_prs = [], r_match_buf = [], r_state = Follower,
    r_is_learner = False, r_votes = [],
    r_msgs =
    [\<lparr>m_type = 4, m_to = 1, m_from = 2, m_term = 1, m_log_term = 0,
    m_index = 1, m_entries = [], m_commit = 0,
    m_snapshot =
    \<lparr>s_data = [],
    s_metadata =
    \<lparr>md_conf_state = \<lparr>cs_nodes = [], cs_learners = []\<rparr>,
    md_index = 0, md_term = 0\<rparr>\<rparr>,
    m_reject = False, m_reject_hint = 0, m_context = []\<rparr>],
    r_lead = 1, r_lead_transferee = 0, r_pending_conf_index = 0,
    r_uncommitted_size = 0,
    r_read_only =
    \<lparr>ro_option = ReadOnlySafe, ro_pending = [], ro_queue = []\<rparr>,
    r_election_elapsed = 0, r_heartbeat_elapsed = 0, r_check_quorum = False,
    r_pre_vote = False, r_heartbeat_timeout = 1, r_election_timeout = 10,
    r_randomized_election_timeout = 13,
    r_disable_proposal_forwarding = False, r_tick = Some TickElection,
    r_step = Some StepFollower,
    r_random_device =
    \<lparr>rd_min = 0, rd_max = 10, rd_draws = \<lambda>_. 3, rd_pos = 2\<rparr>\<rparr>"

lemma next_1_computed: "P next_seen \<Longrightarrow> P next_1"
  by code_simp (rule imp_refl)

lemma next_1_seen: "next_1 = next_seen"
  using next_1_computed[of "\<lambda>r. r = next_seen"] by simp

definition next_2 :: raft where
  "next_2 = after hup (next_1\<lparr>r_msgs := []\<rparr>)"

definition trio_call :: message where
  "trio_call = r_msgs next_2 ! 1"

definition third_1 :: raft where
  "third_1 = after trio_call (trio 3)"

definition trio_yes :: message where
  "trio_yes = r_msgs third_1 ! 0"

definition next_3 :: raft where
  "next_3 = after trio_yes (next_2\<lparr>r_msgs := []\<rparr>)"

definition trio_agreed :: cluster where
  "trio_agreed = moved 1 lead_1 (saved 2 trio_done)"

definition trio_told :: cluster where
  "trio_told = moved 2 next_1 (saved 1 trio_agreed)"

definition trio_rival :: cluster where
  "trio_rival = moved 2 next_2 (saved 2 trio_told)"

definition trio_given :: cluster where
  "trio_given = moved 3 third_1 (saved 2 trio_rival)"

definition trio_heir :: cluster where
  "trio_heir = moved 2 next_3 (saved 3 trio_given)"

lemma trio_nodes:
  "cl_nodes trio_done 1 = lead_0\<lparr>r_msgs := []\<rparr>" "cl_nodes trio_done 2 = next_0" "cl_nodes trio_done 3 = trio 3"
  "cl_nodes trio_agreed 1 = lead_1" "cl_nodes trio_agreed 2 = next_0\<lparr>r_msgs := []\<rparr>" "cl_nodes trio_agreed 3 = trio 3"
  "cl_nodes trio_told 1 = lead_1\<lparr>r_msgs := []\<rparr>" "cl_nodes trio_told 2 = next_1" "cl_nodes trio_told 3 = trio 3"
  "cl_nodes trio_rival 2 = next_2" "cl_nodes trio_rival 3 = trio 3"
  "cl_nodes trio_given 2 = next_2\<lparr>r_msgs := []\<rparr>" "cl_nodes trio_given 3 = third_1" "cl_nodes trio_heir 2 = next_3"
  by (simp_all add: trio_heir_def trio_given_def trio_rival_def trio_told_def trio_agreed_def trio_done_def trio_append_def trio_end_def
      trio_start_def lead_0_def next_0_def)

text \<open>What a delivery to a node of the three takes, as far as it can be computed.\<close>

definition deliverable :: "message \<Rightarrow> u64 \<Rightarrow> raft \<Rightarrow> bool" where
  "deliverable m i r \<longleftrightarrow> i \<in> {1, 2, 3} \<and> m_to m = i \<and> m_term m \<noteq> - 1 \<and> m_index m \<noteq> - 1 \<and> m_entries m = []
     \<and> (m_type m = MsgApp \<longrightarrow> m_term m \<noteq> 0 \<and> m_index m = 1 \<and> m_log_term m \<noteq> 0)
     \<and> m_type m \<in> {MsgApp, MsgAppResp, MsgVote, MsgVoteResp} \<and> (m_type m = MsgVoteResp \<longrightarrow> m_term m \<noteq> 0)
     \<and> r_term r \<noteq> - 1 \<and> log_last (r_log r) \<le> 2 \<and> \<not> isl (step m r)
     \<and> (r_state (after m r) = Leader \<longrightarrow> map fst (r_prs r) = [1, 2, 3])"

lemma trio_deliver:
  assumes "deliverable m i r" and "cl_nodes (saved j c) i = r" and "j \<in> {1, 2, 3}" and "m \<in> set (r_msgs (cl_nodes c j))"
  shows "(cluster_step mc {1, 2, 3})\<^sup>*\<^sup>* c (moved i (after m r) (saved j c))"
proof -
  let ?c = "saved j c"
  have d: "i \<in> {1, 2, 3}" "m_to m = i" "m_entries m = []" "m_type m \<in> {MsgApp, MsgAppResp, MsgVote, MsgVoteResp}"
    "m_term m \<noteq> - 1" "m_index m \<noteq> - 1" "m_type m = MsgApp \<longrightarrow> m_term m \<noteq> 0 \<and> m_index m = 1 \<and> m_log_term m \<noteq> 0"
    "m_type m = MsgVoteResp \<longrightarrow> m_term m \<noteq> 0" "r_term r \<noteq> - 1" "log_last (r_log r) \<le> 2" "\<not> isl (step m r)"
    "r_state (after m r) = Leader \<longrightarrow> map fst (r_prs r) = [1, 2, 3]"
    using assms(1) by (simp_all add: deliverable_def)
  have "cluster_step mc {1, 2, 3} c ?c" by (rule save [OF assms(3)])
  moreover have "cluster_step mc {1, 2, 3} ?c (moved i (after m (cl_nodes ?c i)) ?c)"
  proof (rule deliver [OF d(1) _ d(2) _ _ _ after_step], unfold assms(2))
    show "m \<in> cl_net ?c" using assms(4) by simp
    show "wf_msg m" using d(3-8) by (auto simp: wf_msg_def)
    show "room m r" using d(3,9,10) by (simp add: room_def)
    show "timely m r" using d(4,8) by (auto simp: timely_def)
    show "\<not> isl (step m r)" by (rule d(11))
    have "set (map fst (r_prs r)) = {1, 2, 3}" if "map fst (r_prs r) = [1, 2, 3]" unfolding that by simp
    then show "r_state (after m r) = Leader \<longrightarrow> voters r = {1, 2, 3}" using d(12) by (auto simp: voters_def)
  qed
  ultimately show ?thesis unfolding assms(2) by (meson r_into_rtranclp rtranclp.rtrancl_into_rtrancl)
qed

lemma trio_founded: "founded {1, 2, 3} trio_start"
proof -
  have "\<forall>i\<in>{1, 2, 3}. log_base_term (r_log (trio i)) = 0 \<and> l_committed (r_log (trio i)) = 0 \<and> s_index (log_snap (r_log (trio i))) = 0
      \<and> list_all (\<lambda>x. pr_match (snd x) = 0) (r_prs (trio i)) \<and> r_learner_prs (trio i) = []" by code_simp
  then show ?thesis using trio_bootstrapped
    by (auto simp: founded_def trio_start_def get_progress_def list_all_iff dest!: map_of_SomeD split: option.splits)
qed

lemma trio_ack_taken: "length (r_msgs next_0) = 1 \<and> deliverable trio_ack 1 (lead_0\<lparr>r_msgs := []\<rparr>)"
  by code_simp

lemma trio_news_taken: "length (r_msgs lead_1) = 1 \<and> deliverable trio_news 2 (next_0\<lparr>r_msgs := []\<rparr>)"
  by code_simp

lemma trio_succession:
  "\<not> isl (step hup (next_1\<lparr>r_msgs := []\<rparr>)) \<and> r_term next_1 = 1 \<and> log_last (r_log next_1) = 1 \<and> r_state next_2 \<noteq> Leader"
  "length (r_msgs next_2) = 2 \<and> deliverable trio_call 3 (trio 3)"
  "length (r_msgs third_1) = 1 \<and> deliverable trio_yes 2 (next_2\<lparr>r_msgs := []\<rparr>)"
  unfolding trio_yes_def third_1_def trio_call_def next_2_def next_1_seen by (code_simp, code_simp, code_simp)

lemma trio_reaches:
  "(cluster_step mc {1, 2, 3})\<^sup>*\<^sup>* trio_start trio_agreed" "(cluster_step mc {1, 2, 3})\<^sup>*\<^sup>* trio_agreed trio_told"
  "(cluster_step mc {1, 2, 3})\<^sup>*\<^sup>* trio_agreed trio_heir"
proof -
  have a: "(cluster_step mc {1, 2, 3})\<^sup>*\<^sup>* trio_done trio_agreed"
    unfolding trio_agreed_def lead_1_def using trio_ack_taken
    by (intro trio_deliver) (simp_all add: trio_nodes trio_ack_def nth_mem)
  show "(cluster_step mc {1, 2, 3})\<^sup>*\<^sup>* trio_start trio_agreed" by (rule rtranclp_trans [OF trio_replicated a])
  show t: "(cluster_step mc {1, 2, 3})\<^sup>*\<^sup>* trio_agreed trio_told"
    unfolding trio_told_def next_1_def using trio_news_taken
    by (intro trio_deliver) (simp_all add: trio_nodes trio_news_def nth_mem)
  have "cluster_step mc {1, 2, 3} trio_told (saved 2 trio_told)" by (rule save) simp
  moreover have "cluster_step mc {1, 2, 3} (saved 2 trio_told) trio_rival"
  proof -
    have n: "next_1\<lparr>r_msgs := []\<rparr> = cl_nodes (saved 2 trio_told) 2" by (simp add: trio_nodes)
    show ?thesis unfolding trio_rival_def next_2_def n
      by (rule input [OF _ _ _ _ _ _ after_step])
        (use trio_succession(1) sample_msgs in \<open>auto simp: room_def hup_def is_vote_type_def Message_def trio_nodes next_2_def\<close>)
  qed
  ultimately have r: "(cluster_step mc {1, 2, 3})\<^sup>*\<^sup>* trio_told trio_rival" by (meson r_into_rtranclp rtranclp.rtrancl_into_rtrancl)
  have g: "(cluster_step mc {1, 2, 3})\<^sup>*\<^sup>* trio_rival trio_given"
    unfolding trio_given_def third_1_def using trio_succession(2)
    by (intro trio_deliver) (simp_all add: trio_nodes trio_call_def nth_mem)
  have h: "(cluster_step mc {1, 2, 3})\<^sup>*\<^sup>* trio_given trio_heir"
    unfolding trio_heir_def next_3_def using trio_succession(3)
    by (intro trio_deliver) (simp_all add: trio_nodes trio_yes_def nth_mem)
  show "(cluster_step mc {1, 2, 3})\<^sup>*\<^sup>* trio_agreed trio_heir"
    by (rule rtranclp_trans [OF rtranclp_trans [OF t r] rtranclp_trans [OF g h]])
qed

text \<open>The entry of node 1 that the others take over.\<close>

definition first_entry :: entry where
  "first_entry = hd (log_ents (r_log lead_1))"

lemma lead_1_ends:
  "l_committed (r_log lead_1) = 1 \<and> r_term lead_1 = 1 \<and> log_base (r_log lead_1) = 0 \<and> length (log_ents (r_log lead_1)) = 1"
  by code_simp

lemma next_ends:
  "l_committed (r_log next_1) = 1 \<and> log_base (r_log next_1) = 0"
  "r_state next_3 = Leader \<and> r_term next_3 = 2 \<and> log_base (r_log next_3) = 0"
  unfolding next_3_def trio_yes_def third_1_def trio_call_def next_2_def next_1_seen by (code_simp, code_simp)

lemma first_between: "log_between (r_log lead_1) 1 2 = [first_entry]"
  using lead_1_ends by (cases "log_ents (r_log lead_1)") (auto simp: log_between_def first_entry_def)

theorem state_machine_safety_witness:
  "l_committed (r_log (cl_nodes trio_agreed 1)) = 1 \<and> l_committed (r_log (cl_nodes trio_told 2)) = 1
   \<and> log_between (r_log (cl_nodes trio_told 2)) 1 2 = [first_entry]"
  using lead_1_ends next_ends(1) first_between state_machine_safety[OF trio_founded _ trio_reaches(1,2), of 1 2 0 1]
  by (simp add: trio_nodes numeral_2_eq_2)

theorem leader_completeness_witness:
  "r_state (cl_nodes trio_heir 2) = Leader \<and> r_term (cl_nodes trio_heir 2) = 2 \<and> l_committed (r_log (cl_nodes trio_agreed 1)) = 1
   \<and> 1 \<le> log_last (r_log (cl_nodes trio_heir 2)) \<and> log_between (r_log (cl_nodes trio_heir 2)) 1 2 = [first_entry]"
  using lead_1_ends next_ends(2) first_between leader_completeness[OF trio_founded _ trio_reaches(1,3), of 1 2 0 1]
  by (simp add: trio_nodes numeral_2_eq_2)

end
