(* ===== verification/Spec2Isabelle.thy ===== *)
theory Spec2Isabelle
  imports Raft_Service Raft_Complete
begin

text \<open>
  A verification development of raft-kv, a replicated key-value store in C++ (src/raft-kv): nodes
  that speak the redis protocol to their clients, agree on a log of commands by the Raft protocol and
  apply it to a map of keys. The theories follow the directories of the source; each opens with a
  description of its part.

  \<^bold>\<open>How the program is put together.\<close> \<open>main\<close> (raft-kv.cpp) starts one \<open>RaftNode\<close>
  (server/raft_node.cpp). It owns a \<open>RawNode\<close> (raft/node.cpp) around the protocol state machine
  \<open>Raft\<close> (raft/raft.cpp), whose log (raft/raft_log.cpp) consists of a stable part in a
  \<open>MemoryStorage\<close> (raft/storage.cpp) and an unstable tail (raft/unstable.cpp). The state machine
  does no input or output: it is stepped with messages and ticks and hands out a \<open>Ready\<close> with what
  is to be saved, sent and applied. The loop of \<open>RaftNode\<close> takes it: it saves to the write-ahead log
  (wal/wal.cpp) and the snapshot files (snap/snapshotter.cpp), sends through the transport
  (transport), applies to the \<open>RedisStore\<close> (server/redis_store.cpp) and reports back. Client
  sessions (server/redis_session.cpp) read commands, which the store proposes to the node.

  \<^bold>\<open>Conventions.\<close> Raft_Prelude holds the vocabulary. Integers have their width (\<open>u8\<close>, \<open>u32\<close>,
  \<open>u64\<close> are words, so additions wrap as in the code). Code that can fault returns \<open>'a res\<close>, with
  \<open>Inl\<close> a fault: \<open>Fatal\<close> for \<open>LOG_FATAL\<close>, \<open>Assertion\<close>, \<open>OutOfRange\<close> and \<open>NullDeref\<close> for what
  would be undefined behaviour or an exception, \<open>OutOfFuel\<close> for a loop cut off by the model. An
  error \<open>Status\<close> is an ordinary value (Raft_Status). Structures and classes are records with the
  fields of the source, operations are functions from the state before to the state after. A map of
  the standard library is an association list, a file or a connection is the sequence of its bytes, a
  directory a map from names to contents.

  \<^bold>\<open>The parts, in the order of their dependencies.\<close>

  \<^item> Raft_Status, Raft_Proto, Raft_Config: \<open>Status\<close>, the messages and entries with their size
    limits, \<open>Config\<close> with its validation and the random device. Shown: what validation accepts.
  \<^item> Raft_Progress: the in-flight window and the flow control of a follower. The locale
    \<open>flight_window\<close> is the contract of the window; the ring buffer is an instance. Shown: the ring
    refines a queue with cumulative acknowledgement, also while it grows and wraps; a rejected probe
    moves back but never below 1.
  \<^item> Raft_Storage, Raft_Unstable, Raft_Log: the three layers of the log. The locale \<open>indexed_log\<close>
    is what a reader of a log relies on (consecutive positions above a base, terms inside and
    outside the range); storage and node log are instances. Shown: an abstract log (a base and a list
    of entries) is refined by appending, truncating at a conflict, reading, compacting and
    persisting; the error branches; every reachable storage is well formed.
  \<^item> Raft_ReadOnly, Raft_Base, Raft_Replicate, Raft_Step: the state of \<open>Raft\<close> and all its
    operations, with every message handler of the three roles, ticks, membership and construction.
  \<^item> Raft_Sends, Raft_Invariant, Raft_Election, Raft_Safety, Raft_Reach, Raft_Runs: the invariant
    \<open>wf_raft\<close>, that no operation breaks it, and what a node promises over any run (the inductive
    relation \<open>raft_run\<close>): terms and commit positions never fall, one vote per term, a leader only
    appends, is elected by a majority, and commits exactly what a majority has; the replication loop
    ends. A sample run shows an election without votes through a stale pre-vote answer.
  \<^item> Raft_Node: \<open>Ready\<close> and \<open>RawNode\<close>. Shown: a round of collecting, persisting and advancing
    hands out each committed entry once and in order; membership changes; the value of the sync flag.
  \<^item> Raft_Calm, Raft_Quiet, Raft_Links: what the operations of a node do to elections and to logs.
    The locale \<open>calm\<close> of Raft_Calm takes a preorder on nodes that holds across sending, committing
    and stepping down, and shows that the leader's handlers, the heartbeat clock and the membership
    changes respect it. It has two instances. \<open>quiet\<close> of Raft_Quiet: elections are left alone; what the
    other operations (campaigns, votes, counting) do to term, vote, votes and vote messages is summed
    up in \<open>effect\<close>. \<open>ships\<close> of Raft_Links: the log is kept and append messages are cut from it; what
    the other operations do is summed up in \<open>grafts\<close>: every entry of the log, taken with the term
    before it, was there, or came with the message, or is a leader's own at the end.
  \<^item> Raft_Cluster, Raft_Matching: a cluster of such nodes, as a step relation over the nodes, the
    messages ever sent and what each node saved: deliveries in any order and number, inputs, ticks,
    membership changes, the work of the server on the log, saves and restarts. Saving writes term,
    vote, commit position and log before the messages go out, as \<open>handle_ready\<close> does; a restart is the constructor of
    \<open>Raft\<close> on a storage with the saved term and vote and the saved log, its front possibly compacted.
    Shown: no term ever has two leaders, and two logs that agree on the term of a position agree on
    everything before it.
  \<^item> Raft_Tree, Raft_Acts, Raft_History, Raft_Chosen, Raft_Commit, Raft_Complete: agreement. Raft_Tree
    has positions with terms as points and entries as links between them; the links ever made by a
    cluster form a tree, and every log is a path in it. Raft_Acts says in these terms what a step of a
    node does to its log, commit position, acknowledgements and messages: a leader \<open>tends\<close> its followers
    (the third instance of \<open>calm\<close>), a follower follows its leader. Raft_History collects the tree of a
    run, in which the entries of a term lie above the last entry its leader was elected with. In
    Raft_Chosen a point is chosen when a majority has vouched for it, and later leaders start above what
    is chosen; Raft_Commit keeps the invariant that whatever a node, its disk or a message takes as
    committed is settled in this sense; Raft_Complete follows it over a run. Shown: no two nodes commit
    different entries at a position, and a leader has everything committed in its own and earlier terms.
  \<^item> Raft_Bytes, Raft_WAL, Raft_Snap: the files. The locale \<open>record_format\<close> is the contract of a
    sequence of self-delimiting records, with the log file and the frames of the transport as
    instances. Shown: whatever a crash leaves of the file, the replay returns the whole records; what
    was saved comes back as the storage had it; a snapshot that was saved is the one that is loaded, a
    torn one is ignored; a record that is too long loses everything after it.
  \<^item> Raft_Buffer, Raft_Transport: the byte buffer (locale \<open>byte_queue\<close>, with the buffer as its
    instance), the sessions between nodes and the accepting server. Shown: messages arrive in order
    and once, however the bytes are cut into packets and interleaved with other connections.
  \<^item> Raft_Glob, Raft_Redis, Raft_Session: the pattern matcher of \<open>KEYS\<close>, proved to decide a
    declarative meaning of patterns; the store, in which an acknowledged write is visible, and replicas
    that agree after a snapshot; the client sessions with the form of the replies and the faults.
  \<^item> Raft_Server, Raft_Service: \<open>RaftNode\<close> and \<open>main\<close>, and what the parts do together. Shown: the
    loop returns with everything committed saved, sent and applied; a proposal to a cluster of one
    node is served; a restart rebuilds the log from the files; and two ways in which it goes wrong,
    the loss of a snapshot's keys and an undecodable membership change.

  \<^bold>\<open>Parameters and what is assumed of them.\<close> msgpack is a pair of functions, assumed (\<open>faithful\<close>,
  \<open>good_codec\<close>, \<open>storable\<close>) to read back what it wrote; the checksum is any function; the extension
  of a path is assumed to be what follows the last dot of the names the code makes up
  (\<open>has_extension\<close>); the random device delivers values in its range (\<open>rd_fair\<close>, \<open>wf_config\<close>); the
  protocol reader of hiredis is any state machine. Each such assumption is a hypothesis of the
  theorems that use it, and has an instance in the witnesses.

  \<^bold>\<open>Bounds and fuel.\<close> Positions and terms are assumed to stay below the last 64-bit value (\<open>room\<close>,
  \<open>wf_msg\<close>); the storage and log invariants carry that bound. Two loops have fuel. The loop that sends
  append messages takes as much as the log has entries (\<open>log_fuel\<close>), which is proved to be enough.
  \<open>pull_ready_events\<close> takes any amount; one turn per committed entry and two more are proved to be
  enough. Every other loop is a total function.

  \<^bold>\<open>What a server at work is.\<close> The predicate \<open>serving\<close> of Raft_Service covers a server with a
  well-formed node, without a snapshot to restore or to take in the turns considered, and with
  requests (not membership changes) to apply. Its relation \<open>mirrors\<close> between log file and storage
  holds from the creation of the log on, as long as every record fits the 24-bit length field.

  \<^bold>\<open>Not modelled.\<close> Sockets, threads, mutexes and signals: asynchronous calls are split at their
  callbacks, posted work is queued, and the operations of a component are atomic. Failures of C
  library calls that end the process, and the part of the standard stream's buffering below
  \<open>fwrite\<close>. The texts of log lines, except where evaluating an argument can fault. The printers
  (\<open>string\<close>, \<open>status_string\<close>). The theorems on a whole cluster are about runs in which leaders are
  elected by one set of voters, what was written survives (the process may stop, the disk does not lose
  what was saved, although wal.cpp does not flush the stream), and no granted pre-vote reaches a node
  that is a candidate already; the run in Raft_Runs shows that the code does not keep election safety
  without the last condition. State machine safety and leader completeness are moreover about clusters
  without membership changes, and have no counterpart for clusters of one node, where a vote is counted
  before it is saved. Liveness of a cluster of more than one node is not stated.
\<close>

end
